(* ===== verification/NtfsPrelude.thy ===== *)
theory NtfsPrelude
  imports Main "HOL-Library.Word"
begin

text \<open>
  Shared vocabulary of the development: the machine integer types of
  include/ntfs-browser/win-types.h, results that may be a thrown error, checked byte reads,
  little-endian reads (the library reads on-disk fields with memcpy on a little-endian host),
  saturating 64-bit arithmetic, and generic facts on lists and words that the components use.
\<close>

unbundle bit_operations_syntax

section \<open>Machine integers\<close>

type_synonym byte = "8 word"
type_synonym u16 = "16 word"
type_synonym u32 = "32 word"
type_synonym u64 = "64 word"

text \<open>FILETIME of include/ntfs-browser/win-types.h: two halves of a 64-bit count.\<close>

record filetime =
  ft_low :: u32
  ft_high :: u32

text \<open>The lemmas that move 64-bit arithmetic to natural numbers.\<close>

named_theorems u64_nat

lemmas u64_less_nat [u64_nat] = word_less_nat_alt [where 'a = 64]
lemmas u64_le_nat [u64_nat] = word_le_nat_alt [where 'a = 64]

abbreviation u64_max :: u64 where
  "u64_max \<equiv> 0xFFFFFFFFFFFFFFFF"

lemma unat_u64_max [simp]: "unat (0xFFFFFFFFFFFFFFFF :: u64) = 18446744073709551615"
  by simp

lemma u64_le_max [simp]: "x \<le> (0xFFFFFFFFFFFFFFFF :: u64)"
  using unsigned_less [of x, where ?'a = nat] by (simp add: word_le_nat_alt)

lemma u64_wrap [simp]: "(18446744073709551616 :: u64) = 0"
  by simp

lemma unat_u64_bound: "unat (x :: u64) < 18446744073709551616"
  using unsigned_less [of x, where ?'a = nat] by simp

lemma unat_u64_add: "unat (x :: u64) + unat y < 18446744073709551616 \<Longrightarrow> unat (x + y) = unat x + unat y"
  by (simp add: unat_word_ariths)

lemma unat_u64_sub: "y \<le> x \<Longrightarrow> unat ((x :: u64) - y) = unat x - unat y"
  by (rule unat_sub)

lemma unat_u64_mult: "unat (x :: u64) * unat y < 18446744073709551616 \<Longrightarrow> unat (x * y) = unat x * unat y"
  by (simp add: unat_word_ariths)

lemma unat_u64_inj: "unat (x :: u64) = unat y \<Longrightarrow> x = y"
  by (rule word_unat_eq_iff [THEN iffD2])

lemma unat_min_u64: "unat (min x (y :: u64)) = min (unat x) (unat y)"
  by (auto simp: min_def u64_nat)

lemma unat_max_u64: "unat (max x (y :: u64)) = max (unat x) (unat y)"
  by (auto simp: max_def u64_nat)

lemma unat_of_nat_u64: "v < 18446744073709551616 \<Longrightarrow> unat (of_nat v :: u64) = v"
  by (simp add: unat_of_nat)

lemma unat_of_nat_u16: "v < 65536 \<Longrightarrow> unat (of_nat v :: u16) = v"
  by (simp add: unat_of_nat)

lemma unat_byte_bound: "unat (b :: byte) < 256"
  using unsigned_less [of b, where ?'a = nat] by simp

lemma unat_u16_bound: "unat (x :: u16) < 65536"
  using unsigned_less [of x, where ?'a = nat] by simp

lemma unat_u32_bound: "unat (x :: u32) < 4294967296"
  using unsigned_less [of x, where ?'a = nat] by simp

lemma unat_ucast_u16_u32: "unat (ucast (x :: u16) :: u32) = unat x"
  using unat_u16_bound [of x] by (simp add: unsigned_ucast_eq take_bit_eq_mod)

lemma unat_ucast_byte_u32: "unat (ucast (x :: byte) :: u32) = unat x"
  using unat_byte_bound [of x] by (simp add: unsigned_ucast_eq take_bit_eq_mod)

lemma unat_ucast_u32_u64: "unat (ucast (x :: u32) :: u64) = unat x"
  using unat_u32_bound [of x] by (simp add: unsigned_ucast_eq take_bit_eq_mod)

lemma unat_ucast_u16_u64: "unat (ucast (x :: u16) :: u64) = unat x"
  using unat_u16_bound [of x] by (simp add: unsigned_ucast_eq take_bit_eq_mod)

lemma unat_u32_mult: "unat (x :: u32) * unat y < 4294967296 \<Longrightarrow> unat (x * y) = unat x * unat y"
  by (simp add: unat_word_ariths)

text \<open>A product that is checked by a division first is the true product, or is refused.\<close>

lemma checked_mult:
  assumes "0 < unat (b :: u64)"
  shows "a > u64_max div b \<longleftrightarrow> 2 ^ 64 \<le> unat a * unat b"
proof -
  have "a \<le> u64_max div b \<longleftrightarrow> unat a * unat b \<le> 18446744073709551615"
    using less_eq_div_iff_mult_less_eq [OF assms, of "unat a" 18446744073709551615]
    by (simp add: u64_nat unat_div)
  then show ?thesis by (simp add: not_le [symmetric]) linarith
qed

lemma and_push_bit: "(w :: 'a::len word) AND push_bit n m = push_bit n (drop_bit n w AND m)"
proof (rule bit_word_eqI)
  fix k
  assume "k < LENGTH('a)"
  then show "bit (w AND push_bit n m) k \<longleftrightarrow> bit (push_bit n (drop_bit n w AND m)) k"
    by (cases "n \<le> k") (auto simp: bit_simps)
qed

text \<open>
  A subtraction of two size_t values: it wraps at \<open>2 ^ 64\<close> when the second is the larger, so a
  missing guard shows as a huge size and not as 0.
\<close>

definition size_sub :: "nat \<Rightarrow> nat \<Rightarrow> nat" where
  "size_sub a b = (if b \<le> a then a - b else a + 18446744073709551616 - b)"

lemma size_sub_le [simp]: "b \<le> a \<Longrightarrow> size_sub a b = a - b"
  by (simp add: size_sub_def)

lemma size_sub_add [simp]: "size_sub (a + b) a = b" "size_sub (b + a) a = b"
  by (simp_all add: size_sub_def)

section \<open>Results of code that throws\<close>

definition bind_r :: "'e + 'a \<Rightarrow> ('a \<Rightarrow> 'e + 'b) \<Rightarrow> 'e + 'b" where
  "bind_r m f = (case m of Inl e \<Rightarrow> Inl e | Inr x \<Rightarrow> f x)"

lemma bind_r_simps [simp]:
  "bind_r (Inl e) f = Inl e"
  "bind_r (Inr x) f = f x"
  by (simp_all add: bind_r_def)

lemma bind_r_eq_Inr: "bind_r m f = Inr y \<longleftrightarrow> (\<exists>x. m = Inr x \<and> f x = Inr y)"
  by (cases m) simp_all

lemma bind_r_eq_Inl: "bind_r m f = Inl e \<longleftrightarrow> m = Inl e \<or> (\<exists>x. m = Inr x \<and> f x = Inl e)"
  by (cases m) simp_all

lemma bind_r_cong [fundef_cong]:
  "m = m' \<Longrightarrow> (\<And>x. m' = Inr x \<Longrightarrow> f x = f' x) \<Longrightarrow> bind_r m f = bind_r m' f'"
  by (cases m') simp_all

text \<open>
  \<open>span.subspan(off, n)\<close>: the standard library does not check its bounds, so a range that is
  not inside the bytes is undefined behaviour; here it is the error value of the caller.
\<close>

definition subspan :: "'e \<Rightarrow> 'a list \<Rightarrow> nat \<Rightarrow> nat \<Rightarrow> 'e + 'a list" where
  "subspan e xs off n = (if off + n \<le> length xs then Inr (take n (drop off xs)) else Inl e)"

text \<open>\<open>span.subspan(off)\<close>: the rest of the bytes.\<close>

definition subspan_from :: "'e \<Rightarrow> 'a list \<Rightarrow> nat \<Rightarrow> 'e + 'a list" where
  "subspan_from e xs off = (if off \<le> length xs then Inr (drop off xs) else Inl e)"

lemma subspan_inside: "off + n \<le> length xs \<Longrightarrow> subspan e xs off n = Inr (take n (drop off xs))"
  by (simp add: subspan_def)

lemma subspan_from_inside: "off \<le> length xs \<Longrightarrow> subspan_from e xs off = Inr (drop off xs)"
  by (simp add: subspan_from_def)

section \<open>Little-endian reads\<close>

fun le_nat :: "byte list \<Rightarrow> nat" where
  "le_nat [] = 0"
| "le_nat (b # bs) = unat b + 256 * le_nat bs"

lemma le_nat_replicate [simp]: "le_nat (replicate n 0) = 0"
  by (induction n) simp_all

lemma le_nat_bound: "le_nat bs < 256 ^ length bs"
proof (induction bs)
  case (Cons b bs)
  then have "Suc (le_nat bs) \<le> 256 ^ length bs" by simp
  then have "256 * Suc (le_nat bs) \<le> 256 * 256 ^ length bs" by (rule mult_le_mono2)
  with unat_byte_bound [of b] show ?case by simp
qed simp

text \<open>The bytes of a number, lowest first, as memcpy lays a WORD, DWORD or ULONGLONG out.\<close>

fun to_le :: "nat \<Rightarrow> nat \<Rightarrow> byte list" where
  "to_le 0 v = []"
| "to_le (Suc n) v = of_nat (v mod 256) # to_le n (v div 256)"

lemma length_to_le [simp]: "length (to_le n v) = n"
  by (induction n arbitrary: v) simp_all

lemma unat_of_nat_byte [simp]: "unat (of_nat (v mod 256) :: byte) = v mod 256"
  by (simp add: unat_of_nat)

lemma le_nat_to_le: "v < 256 ^ n \<Longrightarrow> le_nat (to_le n v) = v"
proof (induction n arbitrary: v)
  case (Suc n)
  from Suc.prems have "v div 256 < 256 ^ n"
    by (simp add: less_mult_imp_div_less mult.commute)
  then have "le_nat (to_le n (v div 256)) = v div 256" by (rule Suc.IH)
  then show ?case by simp
qed simp

definition read_le :: "nat \<Rightarrow> byte list \<Rightarrow> nat \<Rightarrow> nat" where
  "read_le n bs off = le_nat (take n (drop off bs))"

definition u16_at :: "byte list \<Rightarrow> nat \<Rightarrow> u16" where
  "u16_at bs off = of_nat (read_le 2 bs off)"

definition u32_at :: "byte list \<Rightarrow> nat \<Rightarrow> u32" where
  "u32_at bs off = of_nat (read_le 4 bs off)"

definition u64_at :: "byte list \<Rightarrow> nat \<Rightarrow> u64" where
  "u64_at bs off = of_nat (read_le 8 bs off)"

lemma read_le_append: "off + n \<le> length xs \<Longrightarrow> read_le n (xs @ ys) off = read_le n xs off"
  by (simp add: read_le_def)

text \<open>A field written in the middle of a structure is read back.\<close>

lemma read_le_field: "xs = pre @ to_le n v @ post \<Longrightarrow> off = length pre \<Longrightarrow> v < 256 ^ n \<Longrightarrow> read_le n xs off = v"
  by (simp add: read_le_def le_nat_to_le)

lemma u64_field: "xs = pre @ to_le 8 (unat (v :: u64)) @ post \<Longrightarrow> off = length pre \<Longrightarrow> u64_at xs off = v"
  using read_le_field [of xs pre 8 "unat v" post off] unat_u64_bound [of v] by (simp add: u64_at_def of_nat_unat)

lemma u32_field: "xs = pre @ to_le 4 (unat (v :: u32)) @ post \<Longrightarrow> off = length pre \<Longrightarrow> u32_at xs off = v"
  using read_le_field [of xs pre 4 "unat v" post off] unat_u32_bound [of v] by (simp add: u32_at_def of_nat_unat)

lemma u16_field: "xs = pre @ to_le 2 (unat (v :: u16)) @ post \<Longrightarrow> off = length pre \<Longrightarrow> u16_at xs off = v"
  using read_le_field [of xs pre 2 "unat v" post off] unat_u16_bound [of v] by (simp add: u16_at_def of_nat_unat)

lemma read_le_take: "off + n \<le> k \<Longrightarrow> read_le n (take k xs) off = read_le n xs off"
  by (simp add: read_le_def drop_take min_def)

text \<open>The characters of a UTF-16 string, lowest byte first.\<close>

lemma units_field:
  "xs = pre @ concat (map (\<lambda>u. to_le 2 (unat u)) units) @ post \<Longrightarrow> off = length pre \<Longrightarrow>
     map (\<lambda>i. u16_at xs (off + 2 * i)) [0..<length units] = units"
proof (induction units arbitrary: pre off)
  case (Cons u us)
  have "xs = pre @ to_le 2 (unat u) @ (concat (map (\<lambda>u. to_le 2 (unat u)) us) @ post)" using Cons.prems(1) by simp
  from read_le_field [OF this Cons.prems(2)] have head: "u16_at xs off = u"
    using unat_u16_bound [of u] by (simp add: u16_at_def of_nat_unat)
  have "xs = (pre @ to_le 2 (unat u)) @ concat (map (\<lambda>u. to_le 2 (unat u)) us) @ post" using Cons.prems(1) by simp
  from Cons.IH [OF this, of "off + 2"] have tail: "map (\<lambda>i. u16_at xs (off + 2 + 2 * i)) [0..<length us] = us"
    using Cons.prems(2) by simp
  have "[0..<length (u # us)] = 0 # map Suc [0..<length us]" by (simp add: map_Suc_upt upt_conv_Cons del: upt_Suc)
  then have "map (\<lambda>i. u16_at xs (off + 2 * i)) [0..<length (u # us)] =
      u16_at xs off # map (\<lambda>i. u16_at xs (off + 2 + 2 * i)) [0..<length us]"
    by (simp add: comp_def)
  then show ?case using head tail by simp
qed simp

lemma length_units_bytes: "length (concat (map (\<lambda>u. to_le 2 (unat u)) units)) = 2 * length units"
  by (induction units) simp_all

section \<open>Lists\<close>

lemma take_drop_nth:
  "i < n \<Longrightarrow> off + i < length xs \<Longrightarrow> take n (drop off xs) ! i = xs ! (off + i)"
  by simp

lemma nth_append_len [simp]: "(xs @ y # ys) ! length xs = y"
  by simp

lemma list_eq_by_nth:
  "length xs = n \<Longrightarrow> length ys = n \<Longrightarrow> (\<And>i. i < n \<Longrightarrow> xs ! i = ys ! i) \<Longrightarrow> xs = ys"
  by (simp add: nth_equalityI)

end
