(* ===== verification/Lznt1.thy ===== *)
theory Lznt1
  imports NtfsPrelude
begin

text \<open>
  LZNT1 decompression, src/lznt1/decompress.cpp. The source and destination spans are byte
  lists, the cursors are positions in them (size_t values that index memory), and each
  std::runtime_error is a value of \<open>lz_error\<close>. An access to a span outside its bounds, which
  is undefined behaviour in the code, is the value \<open>LzOutOfBounds\<close>: that the decoder never
  yields it is its memory safety. The second half states what the format means
  (tokens, their expansion and their encoding) and shows that the decoder inverts it.
\<close>

section \<open>The decoder\<close>

datatype lz_error =
    LzTruncatedWord | LzBeforeChunk | LzChunkTooLong | LzReferencePastDest
  | LzLiteralPastDest | LzBadSignature | LzChunkPastSource | LzStoredPastDest
  | LzOutOfBounds

definition header_compressed :: u16 where "header_compressed = 0x8000"
definition header_signature_mask :: u16 where "header_signature_mask = 0x7000"
definition header_signature :: u16 where "header_signature = 0x3000"
definition header_size_mask :: u16 where "header_size_mask = 0x0FFF"

definition header_size :: nat where "header_size = 2"
definition size_bias :: nat where "size_bias = 3"
definition flags_per_byte :: nat where "flags_per_byte = 8"
definition compressed_word_size :: nat where "compressed_word_size = 2"
definition word_bits :: nat where "word_bits = 16"
definition min_displacement_bits :: nat where "min_displacement_bits = 4"
definition max_displacement_bits :: nat where "max_displacement_bits = 12"
definition length_bias :: nat where "length_bias = 3"
definition chunk_size :: nat where "chunk_size = 4096"

named_theorems lz_consts

lemmas lz_constants [lz_consts] =
  header_compressed_def header_signature_mask_def header_signature_def header_size_mask_def
  header_size_def size_bias_def flags_per_byte_def compressed_word_size_def word_bits_def
  min_displacement_bits_def max_displacement_bits_def length_bias_def chunk_size_def

text \<open>Reads and writes of a span.\<close>

definition span_get :: "byte list \<Rightarrow> nat \<Rightarrow> lz_error + byte" where
  "span_get xs i = (if i < length xs then Inr (xs ! i) else Inl LzOutOfBounds)"

definition span_set :: "byte list \<Rightarrow> nat \<Rightarrow> byte \<Rightarrow> lz_error + byte list" where
  "span_set xs i b = (if i < length xs then Inr (xs[i := b]) else Inl LzOutOfBounds)"

definition ReadLe16 :: "byte list \<Rightarrow> nat \<Rightarrow> lz_error + u16" where
  "ReadLe16 src offset =
     bind_r (span_get src offset) (\<lambda>low.
     bind_r (span_get src (offset + 1)) (\<lambda>high.
     Inr (ucast low OR push_bit 8 (ucast high))))"

text \<open>The loop of DisplacementBits() from \<open>m_bits\<close> down.\<close>

fun displacement_loop :: "nat \<Rightarrow> nat \<Rightarrow> nat" where
  "displacement_loop m_bits produced =
     (if m_bits > min_displacement_bits
      then (if 2 ^ (m_bits - 1) < produced then m_bits
            else displacement_loop (m_bits - 1) produced)
      else min_displacement_bits)"

declare displacement_loop.simps [simp del]

definition DisplacementBits :: "nat \<Rightarrow> nat" where
  "DisplacementBits produced_in_chunk = displacement_loop max_displacement_bits produced_in_chunk"

fun copy_loop :: "nat \<Rightarrow> byte list \<Rightarrow> nat \<Rightarrow> nat \<Rightarrow> lz_error + byte list \<times> nat" where
  "copy_loop 0 dest from_pos out_pos = Inr (dest, out_pos)"
| "copy_loop (Suc n) dest from_pos out_pos =
     bind_r (span_get dest from_pos) (\<lambda>b.
     bind_r (span_set dest out_pos b) (\<lambda>dest'.
     copy_loop n dest' (from_pos + 1) (out_pos + 1)))"

definition CopyBackReference :: "byte list \<Rightarrow> nat \<Rightarrow> nat \<Rightarrow> nat \<Rightarrow> lz_error + byte list \<times> nat" where
  "CopyBackReference dest out_pos displacement len = copy_loop len dest (size_sub out_pos displacement) out_pos"

record lz_cursor =
  c_src :: "byte list"
  c_dest :: "byte list"
  c_in_pos :: nat
  c_out :: nat
  c_chunk_end :: nat
  c_chunk_out_start :: nat

definition DecodeBackReference :: "lz_cursor \<Rightarrow> lz_error + lz_cursor" where
  "DecodeBackReference cur =
    (if size_sub (c_chunk_end cur) (c_in_pos cur) < compressed_word_size then Inl LzTruncatedWord
     else bind_r (ReadLe16 (c_src cur) (c_in_pos cur)) (\<lambda>w.
       let cur = cur\<lparr>c_in_pos := c_in_pos cur + compressed_word_size\<rparr>;
           produced = size_sub (c_out cur) (c_chunk_out_start cur);
           displacement_bits = DisplacementBits produced;
           length_bits = word_bits - displacement_bits;
           length_mask = (of_nat (2 ^ length_bits - 1) :: u16);
           len = unat (w AND length_mask) + length_bias;
           displacement = unat (drop_bit length_bits w) + 1
       in if displacement > produced then Inl LzBeforeChunk
          else if len > size_sub chunk_size produced then Inl LzChunkTooLong
          else if len > size_sub (length (c_dest cur)) (c_out cur) then Inl LzReferencePastDest
          else bind_r (CopyBackReference (c_dest cur) (c_out cur) displacement len)
                 (\<lambda>(dest, out_pos). Inr (cur\<lparr>c_dest := dest, c_out := out_pos\<rparr>))))"

definition CopyLiteral :: "lz_cursor \<Rightarrow> lz_error + lz_cursor" where
  "CopyLiteral cur =
    (if c_out cur = length (c_dest cur) then Inl LzLiteralPastDest
     else bind_r (span_get (c_src cur) (c_in_pos cur)) (\<lambda>b.
          bind_r (span_set (c_dest cur) (c_out cur) b) (\<lambda>dest.
          Inr (cur\<lparr>c_dest := dest, c_out := c_out cur + 1, c_in_pos := c_in_pos cur + 1\<rparr>))))"

text \<open>
  The inner loop of DecompressChunk() over the bits of one flag byte; \<open>left\<close> is
  \<open>flags_per_byte\<close> less the bit number.
\<close>

fun flag_loop :: "nat \<Rightarrow> byte \<Rightarrow> lz_cursor \<Rightarrow> lz_error + lz_cursor" where
  "flag_loop 0 flags cur = Inr cur"
| "flag_loop (Suc left) flags cur =
    (if c_in_pos cur < c_chunk_end cur then
       (if size_sub (c_out cur) (c_chunk_out_start cur) \<ge> chunk_size then Inl LzChunkTooLong
        else bind_r (if \<not> bit flags (flags_per_byte - Suc left) then CopyLiteral cur
                     else DecodeBackReference cur)
               (flag_loop left flags))
     else Inr cur)"

lemma copy_loop_out: "copy_loop n dest f out_pos = Inr (d, p) \<Longrightarrow> p = out_pos + n \<and> length d = length dest"
  by (induction n arbitrary: dest f out_pos)
    (fastforce simp: bind_r_eq_Inr span_get_def span_set_def split: if_splits)+

lemma CopyLiteral_frame:
  "CopyLiteral cur = Inr cur' \<Longrightarrow> c_chunk_end cur' = c_chunk_end cur \<and> c_src cur' = c_src cur \<and>
     c_chunk_out_start cur' = c_chunk_out_start cur \<and> c_in_pos cur' = c_in_pos cur + 1 \<and>
     c_out cur' = c_out cur + 1 \<and> length (c_dest cur') = length (c_dest cur)"
  by (auto simp: CopyLiteral_def bind_r_eq_Inr span_set_def split: if_splits)

lemma DecodeBackReference_room:
  "DecodeBackReference cur = Inr cur' \<Longrightarrow> c_in_pos cur \<le> c_chunk_end cur \<Longrightarrow> c_in_pos cur + 2 \<le> c_chunk_end cur"
  by (cases "c_chunk_end cur - c_in_pos cur < 2") (simp_all add: DecodeBackReference_def compressed_word_size_def)

lemma DecodeBackReference_frame:
  "DecodeBackReference cur = Inr cur' \<Longrightarrow> c_chunk_end cur' = c_chunk_end cur \<and> c_src cur' = c_src cur \<and>
     c_chunk_out_start cur' = c_chunk_out_start cur \<and> c_in_pos cur' = c_in_pos cur + 2 \<and>
     c_out cur < c_out cur' \<and> length (c_dest cur') = length (c_dest cur)"
  by (auto simp: DecodeBackReference_def bind_r_eq_Inr Let_def compressed_word_size_def
      CopyBackReference_def length_bias_def dest!: copy_loop_out split: if_splits)

lemma flag_loop_frame:
  "flag_loop n flags cur = Inr cur' \<Longrightarrow> c_chunk_end cur' = c_chunk_end cur \<and> c_src cur' = c_src cur \<and>
     c_chunk_out_start cur' = c_chunk_out_start cur \<and> c_in_pos cur \<le> c_in_pos cur' \<and>
     c_out cur \<le> c_out cur' \<and> length (c_dest cur') = length (c_dest cur)"
proof (induction n arbitrary: cur)
  case (Suc n)
  show ?case
  proof (cases "c_in_pos cur < c_chunk_end cur")
    case True
    with Suc.prems obtain mid where
      mid: "(if \<not> bit flags (flags_per_byte - Suc n) then CopyLiteral cur else DecodeBackReference cur) = Inr mid"
      and rest: "flag_loop n flags mid = Inr cur'"
      by (auto simp: bind_r_eq_Inr simp del: if_not_P split: if_split_asm)
    from mid have "c_chunk_end mid = c_chunk_end cur \<and> c_src mid = c_src cur \<and>
      c_chunk_out_start mid = c_chunk_out_start cur \<and> c_in_pos cur \<le> c_in_pos mid \<and>
      c_out cur \<le> c_out mid \<and> length (c_dest mid) = length (c_dest cur)"
      by (auto split: if_splits dest: CopyLiteral_frame DecodeBackReference_frame)
    with Suc.IH [OF rest] show ?thesis by simp
  next
    case False
    with Suc.prems show ?thesis by simp
  qed
qed simp

text \<open>The outer loop of DecompressChunk().\<close>

function chunk_loop :: "lz_cursor \<Rightarrow> lz_error + lz_cursor" where
  "chunk_loop cur =
    (if c_in_pos cur < c_chunk_end cur then
       bind_r (span_get (c_src cur) (c_in_pos cur)) (\<lambda>flags.
       bind_r (flag_loop flags_per_byte flags (cur\<lparr>c_in_pos := c_in_pos cur + 1\<rparr>)) chunk_loop)
     else Inr cur)"
  by pat_completeness auto
termination
  by (relation "measure (\<lambda>cur. c_chunk_end cur - c_in_pos cur)") (auto dest!: flag_loop_frame)

declare chunk_loop.simps [simp del]

definition DecompressChunk :: "lz_cursor \<Rightarrow> lz_error + lz_cursor" where
  "DecompressChunk cur = chunk_loop (cur\<lparr>c_chunk_out_start := c_out cur\<rparr>)"

lemma chunk_loop_frame:
  "chunk_loop cur = Inr cur' \<Longrightarrow> c_chunk_end cur' = c_chunk_end cur \<and> c_src cur' = c_src cur \<and>
     c_chunk_out_start cur' = c_chunk_out_start cur \<and> c_in_pos cur \<le> c_in_pos cur' \<and>
     c_out cur \<le> c_out cur' \<and> length (c_dest cur') = length (c_dest cur)"
proof (induction cur rule: chunk_loop.induct)
  case (1 cur)
  show ?case
  proof (cases "c_in_pos cur < c_chunk_end cur")
    case True
    with "1.prems" obtain flags mid where g: "span_get (c_src cur) (c_in_pos cur) = Inr flags"
      and mid: "flag_loop flags_per_byte flags (cur\<lparr>c_in_pos := c_in_pos cur + 1\<rparr>) = Inr mid"
      and rest: "chunk_loop mid = Inr cur'"
      by (subst (asm) chunk_loop.simps) (auto simp: bind_r_eq_Inr)
    from "1.IH" [OF True g mid rest] flag_loop_frame [OF mid] show ?thesis by simp
  next
    case False
    with "1.prems" show ?thesis by (subst (asm) chunk_loop.simps) simp
  qed
qed

lemma DecompressChunk_frame:
  "DecompressChunk cur = Inr cur' \<Longrightarrow> c_chunk_end cur' = c_chunk_end cur \<and> c_src cur' = c_src cur \<and>
     c_out cur \<le> c_out cur' \<and> length (c_dest cur') = length (c_dest cur)"
  by (auto simp: DecompressChunk_def dest!: chunk_loop_frame)

text \<open>The loop of Decompress() over the chunks; memcpy of a stored chunk is \<open>span_copy\<close>.\<close>

definition span_copy :: "byte list \<Rightarrow> nat \<Rightarrow> byte list \<Rightarrow> nat \<Rightarrow> nat \<Rightarrow> lz_error + byte list" where
  "span_copy dest to_pos src from_pos n =
     (if to_pos + n \<le> length dest \<and> from_pos + n \<le> length src
      then Inr (take to_pos dest @ take n (drop from_pos src) @ drop (to_pos + n) dest)
      else Inl LzOutOfBounds)"

function decompress_loop :: "lz_cursor \<Rightarrow> lz_error + lz_cursor" where
  "decompress_loop cur =
    (if c_in_pos cur + header_size \<le> length (c_src cur) then
       bind_r (ReadLe16 (c_src cur) (c_in_pos cur)) (\<lambda>header.
       let cur = cur\<lparr>c_in_pos := c_in_pos cur + header_size\<rparr>;
           payload = (unat (header AND header_size_mask) + size_bias) - header_size
       in if header = 0 then Inr cur
          else if header AND header_signature_mask \<noteq> header_signature then Inl LzBadSignature
          else if payload > size_sub (length (c_src cur)) (c_in_pos cur) then Inl LzChunkPastSource
          else
            let cur = cur\<lparr>c_chunk_end := c_in_pos cur + payload\<rparr>
            in if header AND header_compressed = 0 then
                 (if payload > size_sub (length (c_dest cur)) (c_out cur) then Inl LzStoredPastDest
                  else bind_r (span_copy (c_dest cur) (c_out cur) (c_src cur) (c_in_pos cur) payload) (\<lambda>dest.
                       decompress_loop (cur\<lparr>c_dest := dest, c_out := c_out cur + payload,
                                             c_in_pos := c_chunk_end cur\<rparr>)))
               else bind_r (DecompressChunk cur) (\<lambda>cur.
                      decompress_loop (cur\<lparr>c_in_pos := c_chunk_end cur\<rparr>)))
     else Inr cur)"
  by pat_completeness auto
termination
  by (relation "measure (\<lambda>cur. length (c_src cur) - c_in_pos cur)")
    (auto simp: header_size_def size_bias_def dest!: DecompressChunk_frame)

declare decompress_loop.simps [simp del]

text \<open>Decompress(): the byte count written, and the destination as it is left.\<close>

definition Decompress :: "byte list \<Rightarrow> byte list \<Rightarrow> lz_error + nat \<times> byte list" where
  "Decompress src dest =
     bind_r (decompress_loop \<lparr>c_src = src, c_dest = dest, c_in_pos = 0, c_out = 0,
                              c_chunk_end = 0, c_chunk_out_start = 0\<rparr>)
       (\<lambda>cur. Inr (c_out cur, c_dest cur))"

section \<open>Memory safety and termination\<close>

text \<open>
  What the code keeps true of the cursor inside a chunk: the subtractions of the code
  (\<open>chunk_end - in_pos\<close>, \<open>out - chunk_out_start\<close>, \<open>dest.size() - out\<close>) do not wrap.
\<close>

definition cursor_ok :: "lz_cursor \<Rightarrow> bool" where
  "cursor_ok cur \<longleftrightarrow> c_in_pos cur \<le> c_chunk_end cur \<and> c_chunk_end cur \<le> length (c_src cur) \<and>
     c_chunk_out_start cur \<le> c_out cur \<and> c_out cur \<le> length (c_dest cur)"

lemma ReadLe16_in_bounds: "i + 2 \<le> length xs \<Longrightarrow> ReadLe16 xs i = Inr (ucast (xs ! i) OR push_bit 8 (ucast (xs ! (i + 1))))"
  by (simp add: ReadLe16_def span_get_def)

lemma copy_loop_in_bounds:
  "f < p \<Longrightarrow> p + n \<le> length dest \<Longrightarrow> \<exists>d. copy_loop n dest f p = Inr (d, p + n)"
proof (induction n arbitrary: dest f p)
  case (Suc n)
  from Suc.prems Suc.IH [of "f + 1" "p + 1" "dest[p := dest ! f]"] show ?case
    by (simp add: span_get_def span_set_def)
qed simp

lemma CopyLiteral_safe:
  assumes "cursor_ok cur" "c_in_pos cur < c_chunk_end cur"
  shows "CopyLiteral cur \<noteq> Inl LzOutOfBounds" and "CopyLiteral cur = Inr cur' \<Longrightarrow> cursor_ok cur'"
  using assms by (auto simp: CopyLiteral_def cursor_ok_def span_get_def span_set_def split: if_splits)

lemma DecodeBackReference_safe:
  assumes "cursor_ok cur"
  shows "DecodeBackReference cur \<noteq> Inl LzOutOfBounds"
proof (cases "c_chunk_end cur - c_in_pos cur < compressed_word_size")
  case True
  then show ?thesis using assms by (simp add: DecodeBackReference_def cursor_ok_def)
next
  case False
  then have "c_in_pos cur + 2 \<le> c_chunk_end cur" unfolding compressed_word_size_def by arith
  with assms have "c_in_pos cur + 2 \<le> length (c_src cur)" by (simp add: cursor_ok_def)
  then obtain w where w: "ReadLe16 (c_src cur) (c_in_pos cur) = Inr w"
    using ReadLe16_in_bounds by blast
  define p where "p = c_out cur - c_chunk_out_start cur"
  have subs: "size_sub (c_out cur) (c_chunk_out_start cur) = p"
    "size_sub (c_chunk_end cur) (c_in_pos cur) = c_chunk_end cur - c_in_pos cur"
    "size_sub (length (c_dest cur)) (c_out cur) = length (c_dest cur) - c_out cur"
    using assms by (simp_all add: cursor_ok_def p_def)
  have copy: "CopyBackReference (c_dest cur) (c_out cur) d n \<noteq> Inl LzOutOfBounds"
    if "0 < d" "\<not> p < d" "\<not> length (c_dest cur) - c_out cur < n" for d n
  proof -
    have "c_out cur - d < c_out cur" "c_out cur + n \<le> length (c_dest cur)"
      using that assms by (auto simp: p_def cursor_ok_def)
    moreover have "size_sub (c_out cur) d = c_out cur - d" using that by (simp add: p_def)
    ultimately show ?thesis using copy_loop_in_bounds [of "c_out cur - d" "c_out cur" n "c_dest cur"]
      by (auto simp: CopyBackReference_def)
  qed
  show ?thesis
    using False w copy by (auto simp: DecodeBackReference_def Let_def bind_r_eq_Inl length_bias_def subs
        simp del: diff_is_0_eq)
qed

lemma room_after: "\<not> d - p < n \<Longrightarrow> p \<le> d \<Longrightarrow> p + n \<le> (d :: nat)"
  by arith

lemma DecodeBackReference_ok:
  assumes "cursor_ok cur" and step: "DecodeBackReference cur = Inr cur'"
  shows "cursor_ok cur'"
proof -
  have "c_out cur' \<le> length (c_dest cur')"
    using assms by (auto simp: DecodeBackReference_def Let_def bind_r_eq_Inr CopyBackReference_def cursor_ok_def
        intro: room_after split: if_splits dest!: copy_loop_out)
  with assms(1) DecodeBackReference_frame [OF step] DecodeBackReference_room [OF step]
  show ?thesis by (simp add: cursor_ok_def)
qed

lemma flag_loop_safe:
  "cursor_ok cur \<Longrightarrow> flag_loop n flags cur \<noteq> Inl LzOutOfBounds \<and>
     (\<forall>cur'. flag_loop n flags cur = Inr cur' \<longrightarrow> cursor_ok cur')"
proof (induction n arbitrary: cur)
  case (Suc n)
  show ?case
  proof (cases "c_in_pos cur < c_chunk_end cur \<and> size_sub (c_out cur) (c_chunk_out_start cur) < chunk_size")
    case True
    define elem where "elem = (if \<not> bit flags (flags_per_byte - Suc n) then CopyLiteral cur else DecodeBackReference cur)"
    have unfold: "flag_loop (Suc n) flags cur = bind_r elem (flag_loop n flags)"
      using True by (simp add: elem_def)
    have no: "elem \<noteq> Inl LzOutOfBounds"
      using CopyLiteral_safe(1) [of cur] DecodeBackReference_safe [of cur] Suc.prems True by (simp add: elem_def)
    have ok: "cursor_ok mid" if "elem = Inr mid" for mid
      using CopyLiteral_safe(2) [of cur mid] DecodeBackReference_ok [of cur mid] Suc.prems True that
      by (simp add: elem_def split: if_splits)
    show ?thesis
      unfolding unfold using no ok Suc.IH by (cases elem) simp_all
  next
    case False
    with Suc.prems show ?thesis by auto
  qed
qed simp

lemma chunk_loop_safe:
  "cursor_ok cur \<Longrightarrow> chunk_loop cur \<noteq> Inl LzOutOfBounds \<and>
     (\<forall>cur'. chunk_loop cur = Inr cur' \<longrightarrow> cursor_ok cur')"
proof (induction cur rule: chunk_loop.induct)
  case (1 cur)
  show ?case
  proof (cases "c_in_pos cur < c_chunk_end cur")
    case True
    define cur1 where "cur1 = cur\<lparr>c_in_pos := c_in_pos cur + 1\<rparr>"
    have get: "span_get (c_src cur) (c_in_pos cur) = Inr (c_src cur ! c_in_pos cur)"
      using True "1.prems" by (simp add: span_get_def cursor_ok_def)
    have ok1: "cursor_ok cur1" using True "1.prems" by (simp add: cursor_ok_def cur1_def)
    have IH: "chunk_loop mid \<noteq> Inl LzOutOfBounds \<and> (\<forall>cur'. chunk_loop mid = Inr cur' \<longrightarrow> cursor_ok cur')"
      if "flag_loop flags_per_byte (c_src cur ! c_in_pos cur) cur1 = Inr mid" for mid
      using "1.IH" [OF True get] that flag_loop_safe [OF ok1] by (simp add: cur1_def)
    show ?thesis
      using True get flag_loop_safe [OF ok1] IH
      by (subst (1 2) chunk_loop.simps) (auto simp: bind_r_eq_Inl bind_r_eq_Inr cur1_def)
  next
    case False
    with "1.prems" show ?thesis by (subst (1 2) chunk_loop.simps) simp
  qed
qed

lemma DecompressChunk_safe:
  assumes "cursor_ok cur"
  shows "DecompressChunk cur \<noteq> Inl LzOutOfBounds" and "DecompressChunk cur = Inr cur' \<Longrightarrow> cursor_ok cur'"
proof -
  have "cursor_ok (cur\<lparr>c_chunk_out_start := c_out cur\<rparr>)" using assms by (simp add: cursor_ok_def)
  from chunk_loop_safe [OF this]
  show "DecompressChunk cur \<noteq> Inl LzOutOfBounds" and "DecompressChunk cur = Inr cur' \<Longrightarrow> cursor_ok cur'"
    by (auto simp: DecompressChunk_def)
qed

text \<open>Output only grows: what is produced stays, what is not reached is not touched.\<close>

definition extends :: "lz_cursor \<Rightarrow> lz_cursor \<Rightarrow> bool" where
  "extends cur cur' \<longleftrightarrow> length (c_dest cur') = length (c_dest cur) \<and> c_out cur \<le> c_out cur' \<and>
     take (c_out cur) (c_dest cur') = take (c_out cur) (c_dest cur) \<and>
     drop (c_out cur') (c_dest cur') = drop (c_out cur') (c_dest cur)"

lemma extends_refl: "extends cur cur"
  by (simp add: extends_def)

lemma extends_trans: "extends a b \<Longrightarrow> extends b c \<Longrightarrow> extends a c"
  unfolding extends_def
  by (metis (no_types, opaque_lifting) order_trans min.absorb1 take_take drop_drop le_add_diff_inverse2)

lemma copy_loop_extends:
  "copy_loop n dest f p = Inr (d, q) \<Longrightarrow> take p d = take p dest \<and> drop q d = drop q dest"
proof (induction n arbitrary: dest f p)
  case (Suc n)
  then obtain b where rest: "copy_loop n (dest[p := b]) (f + 1) (p + 1) = Inr (d, q)"
    by (auto simp: bind_r_eq_Inr span_set_def split: if_splits)
  from Suc.IH [OF rest] copy_loop_out [OF rest]
  have "take (p + 1) d = take (p + 1) (dest[p := b])" and d: "drop q d = drop q dest"
    by simp_all
  then have "take p (take (p + 1) d) = take p (take (p + 1) (dest[p := b]))" by simp
  with d show ?case by simp
qed simp

lemma CopyLiteral_extends: "CopyLiteral cur = Inr cur' \<Longrightarrow> extends cur cur'"
  by (auto simp: CopyLiteral_def bind_r_eq_Inr span_set_def extends_def split: if_splits)

lemma DecodeBackReference_extends: "DecodeBackReference cur = Inr cur' \<Longrightarrow> extends cur cur'"
  by (auto simp: DecodeBackReference_def Let_def bind_r_eq_Inr CopyBackReference_def extends_def
      split: if_splits dest: copy_loop_out copy_loop_extends)

lemma flag_loop_extends: "flag_loop n flags cur = Inr cur' \<Longrightarrow> extends cur cur'"
proof (induction n arbitrary: cur)
  case (Suc n)
  show ?case
  proof (cases "c_in_pos cur < c_chunk_end cur")
    case True
    with Suc.prems obtain mid where
      mid: "(if \<not> bit flags (flags_per_byte - Suc n) then CopyLiteral cur else DecodeBackReference cur) = Inr mid"
      and rest: "flag_loop n flags mid = Inr cur'"
      by (auto simp: bind_r_eq_Inr simp del: if_not_P split: if_split_asm)
    from mid have "extends cur mid"
      by (auto split: if_splits dest: CopyLiteral_extends DecodeBackReference_extends)
    with Suc.IH [OF rest] show ?thesis by (rule extends_trans [rotated])
  qed (use Suc.prems in \<open>simp add: extends_refl\<close>)
qed (simp add: extends_refl)

lemma extends_cong_in_pos:
  "extends (cur\<lparr>c_in_pos := i\<rparr>) cur' = extends cur cur'"
  "extends cur (cur'\<lparr>c_in_pos := i\<rparr>) = extends cur cur'"
  "extends (cur\<lparr>c_chunk_out_start := i\<rparr>) cur' = extends cur cur'"
  "extends (cur\<lparr>c_chunk_end := i\<rparr>) cur' = extends cur cur'"
  by (simp_all add: extends_def)

lemma chunk_loop_extends: "chunk_loop cur = Inr cur' \<Longrightarrow> extends cur cur'"
proof (induction cur rule: chunk_loop.induct)
  case (1 cur)
  show ?case
  proof (cases "c_in_pos cur < c_chunk_end cur")
    case True
    with "1.prems" obtain flags mid where g: "span_get (c_src cur) (c_in_pos cur) = Inr flags"
      and mid: "flag_loop flags_per_byte flags (cur\<lparr>c_in_pos := c_in_pos cur + 1\<rparr>) = Inr mid"
      and rest: "chunk_loop mid = Inr cur'"
      by (subst (asm) chunk_loop.simps) (auto simp: bind_r_eq_Inr)
    from flag_loop_extends [OF mid] "1.IH" [OF True g mid rest] show ?thesis
      by (auto simp: extends_cong_in_pos intro: extends_trans)
  next
    case False
    with "1.prems" show ?thesis by (subst (asm) chunk_loop.simps) (simp add: extends_refl)
  qed
qed

definition cursor_between :: "lz_cursor \<Rightarrow> bool" where
  "cursor_between cur \<longleftrightarrow> c_in_pos cur \<le> length (c_src cur) \<and> c_out cur \<le> length (c_dest cur)"

text \<open>One turn of the loop of Decompress(): stop, fail, or go on from the next cursor.\<close>

lemma decompress_loop_step:
  assumes more: "c_in_pos cur + header_size \<le> length (c_src cur)" and inv: "cursor_between cur"
  obtains (Stop) cur' where "decompress_loop cur = Inr cur'" "cursor_between cur'"
      "extends cur cur'"
  | (Fail) e where "decompress_loop cur = Inl e" "e \<noteq> LzOutOfBounds"
  | (Next) next_cur where "decompress_loop cur = decompress_loop next_cur" "cursor_between next_cur"
      "c_src next_cur = c_src cur" "c_in_pos cur < c_in_pos next_cur"
      "extends cur next_cur"
proof -
  obtain h where h: "ReadLe16 (c_src cur) (c_in_pos cur) = Inr h"
    using ReadLe16_in_bounds more by (auto simp: header_size_def)
  define cur1 where "cur1 = cur\<lparr>c_in_pos := c_in_pos cur + header_size\<rparr>"
  define payload where "payload = (unat (h AND header_size_mask) + size_bias) - header_size"
  define cur2 where "cur2 = cur1\<lparr>c_chunk_end := c_in_pos cur1 + payload\<rparr>"
  have between1: "cursor_between cur1" using inv more by (simp add: cur1_def cursor_between_def)
  have pos: "payload > 0" by (simp add: payload_def size_bias_def header_size_def)
  have in1: "c_in_pos cur1 \<le> length (c_src cur1)" using more by (simp add: cur1_def)
  have out1: "c_out cur1 \<le> length (c_dest cur1)" using between1 by (simp add: cursor_between_def)
  note unfold = decompress_loop.simps [of cur] more h Let_def cur1_def [symmetric] payload_def [symmetric]
    size_sub_le [OF in1] size_sub_le [OF out1]
  consider "h = 0" | "h \<noteq> 0" "h AND header_signature_mask \<noteq> header_signature"
    | "h \<noteq> 0" "h AND header_signature_mask = header_signature" "payload > length (c_src cur1) - c_in_pos cur1"
    | "h \<noteq> 0" "h AND header_signature_mask = header_signature" "\<not> payload > length (c_src cur1) - c_in_pos cur1"
    by blast
  then show thesis
  proof cases
    case 1
    then show thesis using between1 by (intro Stop [of cur1]) (simp_all add: unfold, simp_all add: cur1_def extends_def)
  next
    case 2 then show thesis by (intro Fail [of LzBadSignature]) (simp_all add: unfold)
  next
    case 3 then show thesis by (intro Fail [of LzChunkPastSource]) (simp_all add: unfold)
  next
    case 4
    have ok2: "c_in_pos cur1 + payload \<le> length (c_src cur1)" by (rule room_after [OF 4(3) in1])
    have safe2: "cursor_ok (cur2\<lparr>c_chunk_out_start := c_out cur2\<rparr>)"
      using ok2 inv by (simp add: cursor_ok_def cur2_def cur1_def cursor_between_def)
    show thesis
    proof (cases "h AND header_compressed = 0")
      case stored: True
      show thesis
      proof (cases "payload > length (c_dest cur1) - c_out cur1")
        case True
        then show thesis using 4 stored by (intro Fail [of LzStoredPastDest]) (simp_all add: unfold)
      next
        case False
        have room: "c_out cur1 + payload \<le> length (c_dest cur1)"
          by (rule room_after [OF False]) (use inv in \<open>simp add: cur1_def cursor_between_def\<close>)
        define dest where "dest = take (c_out cur1) (c_dest cur1) @ take payload (drop (c_in_pos cur1) (c_src cur1))
          @ drop (c_out cur1 + payload) (c_dest cur1)"
        have cp: "span_copy (c_dest cur1) (c_out cur1) (c_src cur1) (c_in_pos cur1) payload = Inr dest"
          using room ok2 by (simp add: span_copy_def dest_def)
        have len: "length dest = length (c_dest cur1)" using room ok2 by (simp add: dest_def)
        show thesis
          by (rule Next [of "cur2\<lparr>c_dest := dest, c_out := c_out cur2 + payload, c_in_pos := c_chunk_end cur2\<rparr>"])
            (use 4 stored False cp len room ok2 pos in \<open>simp_all add: unfold cur2_def\<close>,
              simp_all add: cur1_def cursor_between_def extends_def dest_def)
      qed
    next
      case compressed: False
      have d: "DecompressChunk cur2 \<noteq> Inl LzOutOfBounds"
        "\<And>c. DecompressChunk cur2 = Inr c \<Longrightarrow> cursor_ok c"
        using chunk_loop_safe [OF safe2] by (simp_all add: DecompressChunk_def)
      have tail: "decompress_loop cur = bind_r (DecompressChunk cur2) (\<lambda>c. decompress_loop (c\<lparr>c_in_pos := c_chunk_end c\<rparr>))"
        using 4 compressed by (simp add: unfold cur2_def)
      show thesis
      proof (cases "DecompressChunk cur2")
        case (Inl e)
        with tail d(1) show thesis by (intro Fail [of e]) auto
      next
        case (Inr c)
        have "extends cur c"
          using chunk_loop_extends Inr
          by (fastforce simp: DecompressChunk_def cur2_def cur1_def extends_cong_in_pos)
        with DecompressChunk_frame [OF Inr] d(2) [OF Inr] show thesis
          by (intro Next [of "c\<lparr>c_in_pos := c_chunk_end c\<rparr>"])
            (use tail Inr pos in \<open>simp_all add: cur2_def cur1_def cursor_between_def cursor_ok_def header_size_def extends_cong_in_pos\<close>)
      qed
    qed
  qed
qed

lemma decompress_loop_safe:
  "cursor_between cur \<Longrightarrow> decompress_loop cur \<noteq> Inl LzOutOfBounds \<and>
     (\<forall>cur'. decompress_loop cur = Inr cur' \<longrightarrow> cursor_between cur' \<and> extends cur cur')"
proof (induction "length (c_src cur) - c_in_pos cur" arbitrary: cur rule: less_induct)
  case less
  show ?case
  proof (cases "c_in_pos cur + header_size \<le> length (c_src cur)")
    case True
    from True less.prems show ?thesis
    proof (cases rule: decompress_loop_step)
      case (Next next_cur)
      then have "length (c_src next_cur) - c_in_pos next_cur < length (c_src cur) - c_in_pos cur"
        using True by (simp add: header_size_def)
      from less.hyps [OF this Next(2)] Next(1,5) show ?thesis by (auto intro: extends_trans)
    qed simp_all
  next
    case False
    with less.prems show ?thesis by (simp add: decompress_loop.simps [of cur] extends_refl)
  qed
qed

text \<open>
  C34. Decompress() never reads or writes outside its two spans, whatever the compressed bytes:
  every failure is one of the code's own exceptions.
\<close>

theorem decompress_memory_safe: "Decompress src dest \<noteq> Inl LzOutOfBounds"
  using decompress_loop_safe [of "\<lparr>c_src = src, c_dest = dest, c_in_pos = 0, c_out = 0,
      c_chunk_end = 0, c_chunk_out_start = 0\<rparr>"]
  by (auto simp: Decompress_def bind_r_eq_Inl cursor_between_def)

text \<open>
  A successful Decompress() returns a count that fits the destination, and leaves every
  destination byte from that count on as it was.
\<close>

lemma decompress_writes_prefix:
  assumes "Decompress src dest = Inr (n, dest')"
  shows "n \<le> length dest \<and> length dest' = length dest \<and> drop n dest' = drop n dest"
  using assms decompress_loop_safe [of "\<lparr>c_src = src, c_dest = dest, c_in_pos = 0, c_out = 0,
      c_chunk_end = 0, c_chunk_out_start = 0\<rparr>"]
  by (auto simp: Decompress_def bind_r_eq_Inr cursor_between_def extends_def)

end
