(* ===== verification/Lznt1Format.thy ===== *)
theory Lznt1Format
  imports Lznt1
begin

text \<open>
  What an LZNT1 stream means, after section 2.5 of the [MS-XCA] specification that
  src/lznt1/decompress.cpp is written against: a buffer is a sequence of chunks, a compressed
  chunk is a sequence of literals and back-references, and a back-reference repeats, with period
  its displacement, bytes of its own chunk. The section ends with the round trip: the decoder of
  theory Lznt1 returns the meaning of every stream the encoding below writes. The encoder is
  specification only: the library has none.
\<close>

section \<open>Tokens\<close>

datatype lz_token = Literal byte | Reference nat nat

definition repeat_back :: "byte list \<Rightarrow> nat \<Rightarrow> nat \<Rightarrow> byte list" where
  "repeat_back hist d n = map (\<lambda>i. hist ! (length hist - d + i mod d)) [0..<n]"

fun token_bytes :: "byte list \<Rightarrow> lz_token \<Rightarrow> byte list" where
  "token_bytes hist (Literal b) = [b]"
| "token_bytes hist (Reference d n) = repeat_back hist d n"

fun expand :: "byte list \<Rightarrow> lz_token list \<Rightarrow> byte list" where
  "expand hist [] = hist"
| "expand hist (t # ts) = expand (hist @ token_bytes hist t) ts"

fun token_length :: "lz_token \<Rightarrow> nat" where
  "token_length (Literal b) = 1"
| "token_length (Reference d n) = n"

text \<open>
  The split of a back-reference where the chunk has produced \<open>p\<close> bytes, as the table of the
  specification gives it: the displacement takes 4 bits up to 16 bytes and one more for each
  doubling, up to 12, and the length takes the rest of the 16.
\<close>

definition length_bits_at :: "nat \<Rightarrow> nat" where
  "length_bits_at p =
     (if p \<le> 16 then 12 else if p \<le> 32 then 11 else if p \<le> 64 then 10 else if p \<le> 128 then 9
      else if p \<le> 256 then 8 else if p \<le> 512 then 7 else if p \<le> 1024 then 6
      else if p \<le> 2048 then 5 else 4)"

text \<open>A token that may stand where the chunk has produced \<open>p\<close> bytes.\<close>

fun token_ok :: "nat \<Rightarrow> lz_token \<Rightarrow> bool" where
  "token_ok p (Literal b) = (p < 4096)"
| "token_ok p (Reference d n) =
     (1 \<le> d \<and> d \<le> p \<and> 3 \<le> n \<and> n - 3 < 2 ^ length_bits_at p \<and> p + n \<le> 4096)"

fun tokens_ok :: "nat \<Rightarrow> lz_token list \<Rightarrow> bool" where
  "tokens_ok p [] = True"
| "tokens_ok p (t # ts) = (token_ok p t \<and> tokens_ok (p + token_length t) ts)"

fun enc_token :: "nat \<Rightarrow> lz_token \<Rightarrow> byte list" where
  "enc_token p (Literal b) = [b]"
| "enc_token p (Reference d n) = to_le 2 ((d - 1) * 2 ^ length_bits_at p + (n - 3))"

fun enc_tokens :: "nat \<Rightarrow> lz_token list \<Rightarrow> byte list" where
  "enc_tokens p [] = []"
| "enc_tokens p (t # ts) = enc_token p t @ enc_tokens (p + token_length t) ts"

fun is_reference :: "lz_token \<Rightarrow> bool" where
  "is_reference (Literal b) = False"
| "is_reference (Reference d n) = True"

fun flags_of :: "lz_token list \<Rightarrow> nat" where
  "flags_of [] = 0"
| "flags_of (t # ts) = of_bool (is_reference t) + 2 * flags_of ts"

fun tokens_length :: "lz_token list \<Rightarrow> nat" where
  "tokens_length [] = 0"
| "tokens_length (t # ts) = token_length t + tokens_length ts"

text \<open>A flag byte before every group of at most eight tokens.\<close>

function enc_groups :: "nat \<Rightarrow> lz_token list \<Rightarrow> byte list" where
  "enc_groups p ts =
     (if ts = [] then []
      else of_nat (flags_of (take 8 ts)) # enc_tokens p (take 8 ts) @
           enc_groups (p + tokens_length (take 8 ts)) (drop 8 ts))"
  by pat_completeness auto
termination
  by (relation "measure (\<lambda>(p, ts). length ts)") auto

declare enc_groups.simps [simp del]

subsection \<open>The width of the displacement field\<close>

lemma displacement_loop_bounds:
  "4 \<le> m \<Longrightarrow> 4 \<le> displacement_loop m p \<and> displacement_loop m p \<le> m"
proof (induction m p rule: displacement_loop.induct)
  case (1 m p)
  show ?case
  proof (cases "m > min_displacement_bits \<and> \<not> 2 ^ (m - 1) < p")
    case True
    then have "4 \<le> m - 1" unfolding min_displacement_bits_def by linarith
    with 1 True have "4 \<le> displacement_loop (m - 1) p \<and> displacement_loop (m - 1) p \<le> m - 1" by blast
    then have "4 \<le> displacement_loop (m - 1) p \<and> displacement_loop (m - 1) p \<le> m" by linarith
    with True show ?thesis by (simp add: displacement_loop.simps [of m])
  next
    case False
    with 1 show ?thesis by (subst (1 2) displacement_loop.simps) (auto simp: min_displacement_bits_def)
  qed
qed

lemma displacement_loop_covers: "p \<le> 2 ^ m \<Longrightarrow> min_displacement_bits \<le> m \<Longrightarrow> p \<le> 2 ^ displacement_loop m p"
proof (induction m p rule: displacement_loop.induct)
  case (1 m p)
  show ?case
  proof (cases "m > min_displacement_bits \<and> \<not> 2 ^ (m - 1) < p")
    case True
    then have "min_displacement_bits \<le> m - 1" "p \<le> 2 ^ (m - 1)" by linarith+
    with 1 True have "p \<le> 2 ^ displacement_loop (m - 1) p" by blast
    with True show ?thesis by (simp add: displacement_loop.simps [of m])
  next
    case False
    with 1 show ?thesis by (subst displacement_loop.simps) auto
  qed
qed

lemma DisplacementBits_bounds: "4 \<le> DisplacementBits p \<and> DisplacementBits p \<le> 12"
  using displacement_loop_bounds [of 12 p] by (simp add: DisplacementBits_def lz_consts)

lemma DisplacementBits_covers: "p \<le> 4096 \<Longrightarrow> p \<le> 2 ^ DisplacementBits p"
  using displacement_loop_covers [of p 12] by (simp add: DisplacementBits_def lz_consts)

lemma displacement_loop_least:
  "4 < displacement_loop m p \<Longrightarrow> 2 ^ (displacement_loop m p - 1) < p"
proof (induction m p rule: displacement_loop.induct)
  case (1 m p)
  then show ?case
    by (cases "m > min_displacement_bits"; cases "2 ^ (m - 1) < p")
      (simp_all add: displacement_loop.simps [of m] min_displacement_bits_def)
qed

text \<open>The bits that the decoder's loop finds are those of the table.\<close>

lemma length_bits_at_decoder: "length_bits_at p = 16 - DisplacementBits p"
  unfolding DisplacementBits_def max_displacement_bits_def length_bits_at_def
  by (simp add: displacement_loop.simps min_displacement_bits_def)

lemma word_bits_split: "word_bits - DisplacementBits p = length_bits_at p"
  by (simp add: length_bits_at_decoder word_bits_def)

subsection \<open>Lengths\<close>

lemma length_token_bytes [simp]: "length (token_bytes hist t) = token_length t"
  by (cases t) (simp_all add: repeat_back_def)

lemma length_expand: "length (expand hist ts) = length hist + tokens_length ts"
  by (induction ts arbitrary: hist) simp_all

lemma expand_append: "expand hist (ts @ us) = expand (expand hist ts) us"
  by (induction ts arbitrary: hist) simp_all

lemma tokens_ok_append: "tokens_ok p (ts @ us) \<longleftrightarrow> tokens_ok p ts \<and> tokens_ok (p + tokens_length ts) us"
  by (induction ts arbitrary: p) (auto simp: add.assoc)

lemma tokens_length_append: "tokens_length (ts @ us) = tokens_length ts + tokens_length us"
  by (induction ts) simp_all

lemma token_ok_end: "token_ok p t \<Longrightarrow> p + token_length t \<le> 4096"
  by (cases t) simp_all

lemma enc_token_nonempty: "1 \<le> length (enc_token p t)"
  by (cases t) simp_all

section \<open>One token through the decoder\<close>

lemma bit_mask_and: "unat ((w :: u16) AND of_nat (2 ^ k - 1)) = unat w mod 2 ^ k"
proof -
  have "(of_nat (2 ^ k - 1) :: u16) = mask k" by (simp add: mask_eq_exp_minus_1 of_nat_diff)
  then show ?thesis by (simp add: unsigned_take_bit_eq flip: take_bit_eq_mask take_bit_eq_mod)
qed

lemma unat_drop_bit_div: "unat (drop_bit k (w :: u16)) = unat w div 2 ^ k"
  by (subst unat_drop_bit_eq) (simp add: drop_bit_eq_div)

lemma copy_loop_repeats:
  "1 \<le> d \<Longrightarrow> d \<le> p \<Longrightarrow> p + n \<le> length dest \<Longrightarrow>
     copy_loop n dest (p - d) p =
       Inr (take p dest @ map (\<lambda>i. dest ! (p - d + i mod d)) [0..<n] @ drop (p + n) dest, p + n)"
proof (induction n arbitrary: dest p)
  case (Suc n)
  define dest' where "dest' = dest[p := dest ! (p - d)]"
  have len: "length dest' = length dest" by (simp add: dest'_def)
  have IH: "copy_loop n dest' (p + 1 - d) (p + 1) =
      Inr (take (p + 1) dest' @ map (\<lambda>i. dest' ! (p + 1 - d + i mod d)) [0..<n] @ drop (p + 1 + n) dest', p + 1 + n)"
    by (rule Suc.IH) (use Suc.prems len in simp_all)
  have period: "dest' ! (p + 1 - d + i mod d) = dest ! (p - d + Suc i mod d)" for i
  proof (cases "Suc (i mod d) = d")
    case True
    then have "p + 1 - d + i mod d = p" "Suc i mod d = 0" using Suc.prems by (auto simp: mod_Suc)
    then show ?thesis using Suc.prems by (simp add: dest'_def)
  next
    case False
    moreover have "i mod d < d" using Suc.prems by simp
    ultimately have "Suc i mod d = Suc (i mod d)" and "p + 1 + i mod d < p + d"
      by (simp_all add: mod_Suc)
    moreover from this(2) have "p + 1 - d + i mod d < p" using Suc.prems by arith
    ultimately show ?thesis using Suc.prems by (simp add: dest'_def Suc_diff_le)
  qed
  have "copy_loop (Suc n) dest (p - d) p = copy_loop n dest' (p + 1 - d) (p + 1)"
  proof -
    have "p - d < length dest" "p < length dest" "p - d + 1 = p + 1 - d" using Suc.prems by linarith+
    then show ?thesis by (simp add: span_get_def span_set_def dest'_def)
  qed
  moreover have "take (p + 1) dest' = take p dest @ [dest ! (p - d)]"
    using Suc.prems by (simp add: dest'_def take_Suc_conv_app_nth)
  moreover have "drop (p + 1 + n) dest' = drop (p + Suc n) dest"
    by (simp add: dest'_def)
  moreover have "map (\<lambda>i. dest ! (p - d + i mod d)) [0..<Suc n] =
      dest ! (p - d) # map (\<lambda>i. dest' ! (p + 1 - d + i mod d)) [0..<n]"
    by (simp add: upt_conv_Cons map_Suc_upt [symmetric] period [symmetric] del: upt_Suc)
  ultimately show ?case using IH by simp
qed simp

text \<open>
  The decoder in the middle of a chunk: before the chunk the destination holds \<open>pre\<close>, the
  chunk has produced \<open>hist\<close>, and \<open>room\<close> follows.
\<close>

definition in_chunk :: "byte list \<Rightarrow> byte list \<Rightarrow> byte list \<Rightarrow> byte list \<Rightarrow> nat \<Rightarrow> nat \<Rightarrow> lz_cursor" where
  "in_chunk src pre hist room i e =
     \<lparr>c_src = src, c_dest = pre @ hist @ room, c_in_pos = i, c_out = length pre + length hist,
      c_chunk_end = e, c_chunk_out_start = length pre\<rparr>"

lemma drop_Cons_nth: "drop i xs = y # ys \<Longrightarrow> i < length xs \<and> xs ! i = y \<and> drop (Suc i) xs = ys"
  by (metis Cons_nth_drop_Suc drop_all linorder_not_less list.distinct(1) list.inject)

lemma CopyLiteral_token:
  assumes "drop i src = b # rest" and "room = r # room'"
  shows "CopyLiteral (in_chunk src pre hist room i e) = Inr (in_chunk src pre (hist @ [b]) room' (i + 1) e)"
  using drop_Cons_nth [OF assms(1)] assms(2)
  by (simp add: CopyLiteral_def in_chunk_def span_get_def span_set_def list_update_append)

lemma ReadLe16_to_le:
  assumes "drop i src = to_le 2 v @ rest" and "v < 65536"
  shows "ReadLe16 src i = Inr (of_nat v)"
proof -
  from assms(1) have "drop i src = of_nat (v mod 256) # of_nat (v div 256 mod 256) # rest"
    by (simp add: numeral_2_eq_2)
  from drop_Cons_nth [OF this] drop_Cons_nth [of "Suc i" src "of_nat (v div 256 mod 256)" rest]
  have bytes: "i + 2 \<le> length src" "src ! i = of_nat (v mod 256)" "src ! (i + 1) = of_nat (v div 256)"
    using assms(2) by (auto simp: mod_less less_mult_imp_div_less)
  have "(ucast (of_nat (v mod 256) :: byte) :: u16) = take_bit 8 (of_nat v)"
    by (rule bit_word_eqI) (auto simp: bit_simps simp flip: take_bit_eq_mod [of 8, simplified])
  moreover have "push_bit 8 (ucast (of_nat (v div 256) :: byte) :: u16) = push_bit 8 (drop_bit 8 (of_nat v))"
    using assms(2) by (intro bit_word_eqI) (auto simp: bit_simps simp flip: drop_bit_eq_div [of 8, simplified])
  moreover have "take_bit 8 w OR push_bit 8 (drop_bit 8 w) = w" for w :: u16
    by (rule bit_word_eqI) (auto simp: bit_simps, metis le_add_diff_inverse not_less)
  ultimately show ?thesis
    using ReadLe16_in_bounds [OF bytes(1)] bytes(2,3) by simp
qed

lemma reference_word_bound:
  assumes "token_ok p (Reference d n)"
  shows "(d - 1) * 2 ^ length_bits_at p + (n - 3) < 65536"
proof -
  have "p \<le> 4096" "1 \<le> d" "d \<le> p" using assms by simp_all
  then have "d - 1 < 2 ^ DisplacementBits p" using DisplacementBits_covers [of p] by linarith
  then have "Suc (d - 1) * 2 ^ length_bits_at p \<le> 2 ^ DisplacementBits p * 2 ^ length_bits_at p"
    by (intro mult_le_mono1) simp
  also have "\<dots> = 2 ^ 16"
    using DisplacementBits_bounds [of p] by (simp add: length_bits_at_decoder flip: power_add)
  finally have "(d - 1) * 2 ^ length_bits_at p + 2 ^ length_bits_at p \<le> 65536" by simp
  moreover have "n - 3 < 2 ^ length_bits_at p" using assms by simp
  ultimately show ?thesis by linarith
qed

lemma DecodeBackReference_word:
  assumes order: "c_in_pos cur \<le> c_chunk_end cur" "c_chunk_out_start cur \<le> c_out cur" "c_out cur \<le> length (c_dest cur)"
      "c_out cur - c_chunk_out_start cur \<le> 4096"
    and "ReadLe16 (c_src cur) (c_in_pos cur) = Inr w" and "\<not> c_chunk_end cur - c_in_pos cur < 2"
    and "unat (w AND of_nat (2 ^ length_bits_at (c_out cur - c_chunk_out_start cur) - 1)) + 3 = n"
    and "unat (drop_bit (length_bits_at (c_out cur - c_chunk_out_start cur)) w) + 1 = d"
    and "\<not> d > c_out cur - c_chunk_out_start cur" "\<not> n > 4096 - (c_out cur - c_chunk_out_start cur)"
    and "\<not> n > length (c_dest cur) - c_out cur"
    and "CopyBackReference (c_dest cur) (c_out cur) d n = Inr (dest, out_pos)"
  shows "DecodeBackReference cur = Inr (cur\<lparr>c_in_pos := c_in_pos cur + 2, c_dest := dest, c_out := out_pos\<rparr>)"
  using assms by (simp add: DecodeBackReference_def Let_def word_bits_split
      lz_consts(1-8,10-) del: diff_is_0_eq)

lemma DecodeBackReference_token:
  assumes ok: "token_ok (length hist) (Reference d n)"
    and src: "drop i src = enc_token (length hist) (Reference d n) @ rest"
    and e: "i + 2 \<le> e" and room: "n \<le> length room"
  shows "DecodeBackReference (in_chunk src pre hist room i e) =
    Inr (in_chunk src pre (hist @ repeat_back hist d n) (drop n room) (i + 2) e)"
proof -
  let ?p = "length hist" and ?k = "length_bits_at (length hist)"
  let ?v = "(d - 1) * 2 ^ ?k + (n - 3)"
  have v: "?v < 65536" by (rule reference_word_bound [OF ok])
  define w :: u16 where "w = of_nat ?v"
  have w: "ReadLe16 src i = Inr w" unfolding w_def using src v by (intro ReadLe16_to_le) simp_all
  have unat_v: "unat w = ?v" unfolding w_def by (rule unat_of_nat_u16 [OF v])
  have len: "unat (w AND of_nat (2 ^ ?k - 1)) + 3 = n"
  proof -
    have "n - 3 < 2 ^ ?k" "3 \<le> n" using ok by simp_all
    then show ?thesis by (simp only: bit_mask_and unat_v mod_mult_self3 mod_less)
  qed
  have disp: "unat (drop_bit ?k w) + 1 = d"
  proof -
    have "n - 3 < 2 ^ ?k" "1 \<le> d" using ok by simp_all
    then show ?thesis by (simp only: unat_drop_bit_div unat_v div_mult_self3 div_less)
  qed
  let ?dest = "pre @ hist @ room"
  have copy: "CopyBackReference ?dest (length pre + ?p) d n =
      Inr (pre @ (hist @ repeat_back hist d n) @ drop n room, length pre + (?p + n))"
  proof -
    have nth: "?dest ! (length pre + ?p - d + i mod d) = hist ! (?p - d + i mod d)" for i
    proof -
      have "i mod d < d" using ok by simp
      then have "length pre + ?p - d + i mod d = length pre + (?p - d + i mod d)" "?p - d + i mod d < ?p"
        using ok by (auto simp: less_diff_conv2)
      then show ?thesis by (simp only: nth_append_length_plus) (simp add: nth_append)
    qed
    have period: "map (\<lambda>i. ?dest ! (length pre + ?p - d + i mod d)) [0..<n] = repeat_back hist d n"
      unfolding repeat_back_def by (simp only: nth)
    have "1 \<le> d" "d \<le> length pre + ?p" "length pre + ?p + n \<le> length ?dest" using ok room by simp_all
    from copy_loop_repeats [OF this] show ?thesis
      unfolding CopyBackReference_def size_sub_le [OF \<open>d \<le> length pre + ?p\<close>] period by simp
  qed
  have guards: "\<not> e - i < 2" "\<not> d > ?p" "\<not> n > 4096 - ?p" "\<not> n > length ?dest - (length pre + ?p)"
    using ok e room by auto
  show ?thesis
    by (subst DecodeBackReference_word [of _ w n d "pre @ (hist @ repeat_back hist d n) @ drop n room"
          "length pre + (?p + n)"])
      (use w len disp guards copy in \<open>simp_all add: in_chunk_def del: One_nat_def\<close>, simp add: repeat_back_def)
qed

section \<open>Groups, chunks and the stream\<close>

lemma bit_flags_of: "bit (flags_of ts) j \<longleftrightarrow> j < length ts \<and> is_reference (ts ! j)"
proof (induction ts arbitrary: j)
  case (Cons t ts)
  show ?case
  proof (cases j)
    case 0
    then show ?thesis by (simp add: bit_0)
  next
    case (Suc k)
    then show ?thesis using Cons.IH [of k] by (simp add: bit_Suc)
  qed
qed simp

lemma bit_flag_byte:
  "length ts \<le> 8 \<Longrightarrow> j < length ts \<Longrightarrow> bit (of_nat (flags_of ts) :: byte) j \<longleftrightarrow> is_reference (ts ! j)"
  by (simp add: bit_simps bit_flags_of)

lemma token_step:
  assumes ok: "token_ok (length hist) t" and src: "drop i src = enc_token (length hist) t @ rest"
    and e: "i + length (enc_token (length hist) t) \<le> e" and room: "token_length t \<le> length room"
  shows "(if \<not> is_reference t then CopyLiteral (in_chunk src pre hist room i e)
          else DecodeBackReference (in_chunk src pre hist room i e)) =
    Inr (in_chunk src pre (hist @ token_bytes hist t) (drop (token_length t) room)
           (i + length (enc_token (length hist) t)) e)"
proof (cases t)
  case (Literal b)
  with room obtain r room' where "room = r # room'" by (cases room) auto
  with Literal src show ?thesis by (simp add: CopyLiteral_token)
next
  case (Reference d n)
  then show ?thesis using DecodeBackReference_token [of hist d n i src rest e room pre] assms by simp
qed

lemma flag_loop_tokens:
  assumes "length ts \<le> left" "left \<le> 8"
    and "\<And>j. j < length ts \<Longrightarrow> bit flags (8 - left + j) \<longleftrightarrow> is_reference (ts ! j)"
    and "tokens_ok (length hist) ts" "tokens_length ts \<le> length room"
    and "drop i src = enc_tokens (length hist) ts @ rest"
    and "i + length (enc_tokens (length hist) ts) \<le> e"
    and "length ts < left \<Longrightarrow> e = i + length (enc_tokens (length hist) ts)"
  shows "flag_loop left flags (in_chunk src pre hist room i e) =
    Inr (in_chunk src pre (expand hist ts) (drop (tokens_length ts) room)
           (i + length (enc_tokens (length hist) ts)) e)"
  using assms
proof (induction ts arbitrary: left hist room i)
  case Nil
  then show ?case by (cases left) (simp_all add: in_chunk_def)
next
  case (Cons t ts)
  obtain l where l: "left = Suc l" using Cons.prems(1) by (cases left) auto
  let ?p = "length hist" and ?cur = "in_chunk src pre hist room i e"
  let ?hist' = "hist @ token_bytes hist t" and ?i' = "i + length (enc_token (length hist) t)"
  let ?room' = "drop (token_length t) room"
  have tok: "token_ok ?p t" and toks: "tokens_ok (length ?hist') ts" using Cons.prems(4) by simp_all
  have p: "?p < 4096" using tok by (cases t) auto
  have inside: "i < e" using enc_token_nonempty [of ?p t] Cons.prems(7) by simp
  have bit0: "bit flags (8 - Suc l) \<longleftrightarrow> is_reference t" using Cons.prems(3) [of 0] by (simp add: l)
  have room: "token_length t \<le> length room" "tokens_length ts \<le> length ?room'" using Cons.prems(5) by auto
  have src: "drop i src = enc_token ?p t @ (enc_tokens (length ?hist') ts @ rest)" using Cons.prems(6) by simp
  have "drop ?i' src = drop (length (enc_token ?p t)) (drop i src)" by (simp add: add.commute)
  then have src': "drop ?i' src = enc_tokens (length ?hist') ts @ rest" by (simp add: src)
  have step: "(if \<not> is_reference t then CopyLiteral ?cur else DecodeBackReference ?cur) =
      Inr (in_chunk src pre ?hist' ?room' ?i' e)"
    by (rule token_step [OF tok src _ room(1)]) (use Cons.prems(7) in simp)
  have rest_bits: "bit flags (8 - l + j) \<longleftrightarrow> is_reference (ts ! j)" if "j < length ts" for j
  proof -
    have "8 - left + Suc j = 8 - l + j" using l Cons.prems(2) by simp
    moreover have "bit flags (8 - left + Suc j) \<longleftrightarrow> is_reference ((t # ts) ! Suc j)"
      by (rule Cons.prems(3)) (simp add: that)
    ultimately show ?thesis by (simp only: nth_Cons_Suc)
  qed
  have "flag_loop left flags ?cur = flag_loop l flags (in_chunk src pre ?hist' ?room' ?i' e)"
  proof -
    have guards: "c_in_pos ?cur < c_chunk_end ?cur" "\<not> chunk_size \<le> size_sub (c_out ?cur) (c_chunk_out_start ?cur)"
      using inside p by (simp_all add: in_chunk_def chunk_size_def)
    have sel: "bit flags (flags_per_byte - Suc l) \<longleftrightarrow> is_reference t" using bit0 by (simp add: flags_per_byte_def)
    show ?thesis unfolding l flag_loop.simps using guards by (simp only: sel step if_True if_False bind_r_simps)
  qed
  also have "\<dots> = Inr (in_chunk src pre (expand ?hist' ts) (drop (tokens_length ts) ?room')
      (?i' + length (enc_tokens (length ?hist') ts)) e)"
    by (rule Cons.IH) (use Cons.prems l toks room src' rest_bits in auto)
  finally show ?case by (simp add: add.assoc add.commute)
qed

lemma tokens_ok_group:
  assumes "tokens_ok p ts"
  shows "tokens_ok p (take n ts)" and "tokens_ok (p + tokens_length (take n ts)) (drop n ts)"
  using assms tokens_ok_append [of p "take n ts" "drop n ts"] by simp_all

lemma tokens_length_group: "tokens_length (take n ts) + tokens_length (drop n ts) = tokens_length ts"
  using tokens_length_append [of "take n ts" "drop n ts"] by simp

lemma expand_group: "expand (expand hist (take n ts)) (drop n ts) = expand hist ts"
  using expand_append [of hist "take n ts" "drop n ts"] by simp

lemma chunk_loop_in_chunk:
  "i < e \<Longrightarrow> i < length src \<Longrightarrow> chunk_loop (in_chunk src pre hist room i e) =
     bind_r (flag_loop 8 (src ! i) (in_chunk src pre hist room (i + 1) e)) chunk_loop"
  by (subst chunk_loop.simps) (simp add: in_chunk_def span_get_def flags_per_byte_def)

lemma chunk_loop_groups:
  "tokens_ok (length hist) ts \<Longrightarrow> tokens_length ts \<le> length room \<Longrightarrow>
   drop i src = enc_groups (length hist) ts @ rest \<Longrightarrow> e = i + length (enc_groups (length hist) ts) \<Longrightarrow>
   chunk_loop (in_chunk src pre hist room i e) =
     Inr (in_chunk src pre (expand hist ts) (drop (tokens_length ts) room) e e)"
proof (induction "length hist" ts arbitrary: hist room i rule: enc_groups.induct)
  case (1 ts)
  let ?p = "length hist"
  show ?case
  proof (cases "ts = []")
    case True
    with "1.prems" show ?thesis by (simp add: enc_groups.simps chunk_loop.simps in_chunk_def)
  next
    case False
    define g where "g = take 8 ts"
    define hist' where "hist' = expand hist g"
    define room' where "room' = drop (tokens_length g) room"
    define fl where "fl = (of_nat (flags_of g) :: byte)"
    define more where "more = enc_groups (?p + tokens_length g) (drop 8 ts)"
    define i' where "i' = i + 1 + length (enc_tokens ?p g)"
    have enc: "enc_groups ?p ts = fl # enc_tokens ?p g @ more"
      using False by (subst enc_groups.simps) (simp add: g_def fl_def more_def)
    have len': "length hist' = ?p + tokens_length g" by (simp add: hist'_def length_expand)
    have src1: "i < length src" "src ! i = fl" "drop (i + 1) src = enc_tokens ?p g @ more @ rest"
      using drop_Cons_nth [of i src fl "enc_tokens ?p g @ more @ rest"] "1.prems"(3) enc by simp_all
    have "drop i' src = drop (length (enc_tokens ?p g)) (drop (i + 1) src)" by (simp add: i'_def add.commute)
    then have src2: "drop i' src = more @ rest" by (simp only: src1(3)) simp
    have e: "e = i' + length more" using "1.prems"(4) enc by (simp add: i'_def)
    have room_g: "tokens_length g \<le> length room" "tokens_length (drop 8 ts) \<le> length room'"
      using "1.prems"(2) tokens_length_group [of 8 ts] by (simp_all add: room'_def g_def)
    have flags: "flag_loop 8 fl (in_chunk src pre hist room (i + 1) e) = Inr (in_chunk src pre hist' room' i' e)"
      unfolding hist'_def room'_def i'_def
    proof (rule flag_loop_tokens)
      show "bit fl (8 - 8 + j) \<longleftrightarrow> is_reference (g ! j)" if "j < length g" for j
        using bit_flag_byte [of g j] that by (simp add: fl_def g_def)
      show "e = i + 1 + length (enc_tokens ?p g)" if "length g < 8"
      proof -
        have "drop 8 ts = []" using that by (simp add: g_def)
        then show ?thesis using e by (simp add: i'_def more_def enc_groups.simps)
      qed
    qed (use tokens_ok_group(1) [OF "1.prems"(1)] room_g src1 e in \<open>simp_all add: i'_def g_def\<close>)
    have IH: "chunk_loop (in_chunk src pre hist' room' i' e) =
        Inr (in_chunk src pre (expand hist' (drop 8 ts)) (drop (tokens_length (drop 8 ts)) room') e e)"
    proof (rule "1.hyps")
      show "ts \<noteq> []" by (rule False)
      show "length hist + tokens_length (take 8 ts) = length hist'" by (simp add: len' g_def)
      show "drop i' src = enc_groups (length hist') (drop 8 ts) @ rest"
        using src2 by (simp add: more_def len')
    qed (use tokens_ok_group(2) [OF "1.prems"(1), of 8] room_g e in \<open>simp_all add: len' g_def more_def\<close>)
    have "chunk_loop (in_chunk src pre hist room i e) = chunk_loop (in_chunk src pre hist' room' i' e)"
      using chunk_loop_in_chunk [of i e src pre hist room] src1(1,2) e flags by (simp add: i'_def)
    also have "\<dots> = Inr (in_chunk src pre (expand hist ts) (drop (tokens_length ts) room) e e)"
      unfolding IH using expand_group [of hist 8 ts] tokens_length_group [of 8 ts]
      by (simp add: hist'_def room'_def g_def add.commute)
    finally show ?thesis .
  qed
qed

datatype lz_chunk = Stored "byte list" | Compressed "lz_token list"

fun chunk_data :: "lz_chunk \<Rightarrow> byte list" where
  "chunk_data (Stored bs) = bs"
| "chunk_data (Compressed ts) = expand [] ts"

fun chunk_payload :: "lz_chunk \<Rightarrow> byte list" where
  "chunk_payload (Stored bs) = bs"
| "chunk_payload (Compressed ts) = enc_groups 0 ts"

fun chunk_tag :: "lz_chunk \<Rightarrow> nat" where
  "chunk_tag (Stored bs) = 0x3000"
| "chunk_tag (Compressed ts) = 0xB000"

fun chunk_ok :: "lz_chunk \<Rightarrow> bool" where
  "chunk_ok (Stored bs) = (1 \<le> length bs \<and> length bs \<le> 4096)"
| "chunk_ok (Compressed ts) =
     (tokens_ok 0 ts \<and> 1 \<le> length (enc_groups 0 ts) \<and> length (enc_groups 0 ts) \<le> 4096)"

definition enc_chunk :: "lz_chunk \<Rightarrow> byte list" where
  "enc_chunk c = to_le 2 (chunk_tag c + (length (chunk_payload c) - 1)) @ chunk_payload c"

lemma chunk_payload_bounds: "chunk_ok c \<Longrightarrow> 1 \<le> length (chunk_payload c) \<and> length (chunk_payload c) \<le> 4096"
  by (cases c) simp_all

lemma header_fields:
  assumes "k < 4096" and tag: "tag = 0x3000 \<or> tag = 0xB000"
  defines "w \<equiv> (of_nat (tag + k) :: u16)"
  shows "unat (w AND header_size_mask) = k" "w AND header_signature_mask = header_signature"
    "w AND header_compressed = 0 \<longleftrightarrow> tag = 0x3000" "w \<noteq> 0"
proof -
  have unat_w: "unat w = tag + k" unfolding w_def by (rule unat_of_nat_u16) (use assms in auto)
  have top: "drop_bit 12 w = of_nat (tag div 4096)"
  proof (rule word_unat_eq_iff [THEN iffD2])
    have "unat (drop_bit 12 w) = (tag + k) div 4096" by (subst unat_drop_bit_eq) (simp add: unat_w drop_bit_eq_div)
    also have "\<dots> = unat (of_nat (tag div 4096) :: u16)" using assms(1) tag by (auto simp: unat_of_nat)
    finally show "unat (drop_bit 12 w) = unat (of_nat (tag div 4096) :: u16)" .
  qed
  have "unat (w AND header_size_mask) = unat w mod 2 ^ 12"
    using bit_mask_and [of w 12] by (simp add: header_size_mask_def)
  then have "unat (w AND header_size_mask) = (tag + k) mod 4096" by (simp add: unat_w)
  moreover have "(tag + k) mod 4096 = k"
    using tag assms(1) mod_mult_self3 [of 3 4096 k] mod_mult_self3 [of 11 4096 k] by auto
  ultimately show "unat (w AND header_size_mask) = k" by simp
  have masks: "header_signature_mask = push_bit 12 7" "header_compressed = push_bit 12 8"
    by (simp_all add: header_signature_mask_def header_compressed_def)
  show "w AND header_signature_mask = header_signature"
    unfolding masks(1) and_push_bit top using tag by (auto simp: header_signature_def)
  show "w AND header_compressed = 0 \<longleftrightarrow> tag = 0x3000"
    unfolding masks(2) and_push_bit top using tag by auto
  show "w \<noteq> 0" using unat_w tag by auto
qed

text \<open>The decoder between two chunks: \<open>pre\<close> is written, \<open>room\<close> is free.\<close>

definition between_chunks :: "byte list \<Rightarrow> byte list \<Rightarrow> byte list \<Rightarrow> nat \<Rightarrow> nat \<Rightarrow> nat \<Rightarrow> lz_cursor" where
  "between_chunks src pre room i e s =
     \<lparr>c_src = src, c_dest = pre @ room, c_in_pos = i, c_out = length pre,
      c_chunk_end = e, c_chunk_out_start = s\<rparr>"

lemma decompress_loop_chunk:
  assumes ok: "chunk_ok c" and src: "drop i src = enc_chunk c @ rest"
    and room: "length (chunk_data c) \<le> length room"
  shows "\<exists>e' s'. decompress_loop (between_chunks src pre room i e s) =
    decompress_loop (between_chunks src (pre @ chunk_data c) (drop (length (chunk_data c)) room)
      (i + length (enc_chunk c)) e' s')"
proof -
  let ?pl = "chunk_payload c"
  define k where "k = length ?pl - 1"
  define w :: u16 where "w = of_nat (chunk_tag c + k)"
  define i1 where "i1 = i + 2"
  define e1 where "e1 = i1 + length ?pl"
  have tag: "chunk_tag c = 0x3000 \<or> chunk_tag c = 0xB000" by (cases c) simp_all
  have pl: "1 \<le> length ?pl" "length ?pl \<le> 4096" using chunk_payload_bounds [OF ok] by simp_all
  have k: "k < 4096" using pl by (simp add: k_def)
  note hdr = header_fields [OF k tag, folded w_def]
  have src0: "drop i src = to_le 2 (chunk_tag c + k) @ (?pl @ rest)" using src by (simp add: enc_chunk_def k_def)
  have r: "ReadLe16 src i = Inr w"
    unfolding w_def by (rule ReadLe16_to_le [OF src0]) (use k tag in auto)
  have total: "length src - i = 2 + length ?pl + length rest"
    using arg_cong [OF src0, of length] by simp
  then have bounds: "i + 2 \<le> length src" "\<not> length ?pl > length src - i1" "e1 \<le> length src"
    unfolding e1_def i1_def by linarith+
  have "drop i1 src = drop 2 (drop i src)" by (simp add: i1_def add.commute)
  then have src1: "drop i1 src = ?pl @ rest" by (simp add: src0)
  have payload: "unat (w AND header_size_mask) + size_bias - header_size = length ?pl"
    using pl by (simp add: hdr k_def size_bias_def header_size_def)
  let ?cur = "between_chunks src pre room i1 e1 s"
  have head: "decompress_loop (between_chunks src pre room i e s) =
    (if chunk_tag c = 0x3000 then
       (if length ?pl > length room then Inl LzStoredPastDest
        else bind_r (span_copy (pre @ room) (length pre) src i1 (length ?pl)) (\<lambda>dest.
             decompress_loop (?cur\<lparr>c_dest := dest, c_out := length pre + length ?pl, c_in_pos := e1\<rparr>)))
     else bind_r (DecompressChunk ?cur) (\<lambda>cur. decompress_loop (cur\<lparr>c_in_pos := c_chunk_end cur\<rparr>)))"
    using bounds r hdr payload
    by (subst decompress_loop.simps) (simp add: between_chunks_def Let_def header_size_def e1_def i1_def)
  have after: "i + length (enc_chunk c) = e1" by (simp add: enc_chunk_def e1_def i1_def)
  show ?thesis
  proof (cases c)
    case (Stored bs)
    have copy: "span_copy (pre @ room) (length pre) src i1 (length bs) = Inr ((pre @ bs) @ drop (length bs) room)"
      using room bounds(3) src1 Stored by (simp add: span_copy_def e1_def)
    have "decompress_loop (between_chunks src pre room i e s) =
        decompress_loop (between_chunks src (pre @ bs) (drop (length bs) room) e1 e1 s)"
      using head room copy Stored by (simp add: between_chunks_def)
    then show ?thesis using Stored after by auto
  next
    case (Compressed ts)
    have toks: "tokens_ok 0 ts" using ok Compressed by simp
    have len: "length (expand [] ts) = tokens_length ts" by (simp add: length_expand)
    have start: "?cur\<lparr>c_chunk_out_start := c_out ?cur\<rparr> = in_chunk src pre [] room i1 e1"
      by (simp add: between_chunks_def in_chunk_def)
    have "DecompressChunk ?cur = Inr (in_chunk src pre (expand [] ts) (drop (tokens_length ts) room) e1 e1)"
      unfolding DecompressChunk_def start
      by (rule chunk_loop_groups) (use toks room src1 len Compressed in \<open>simp_all add: e1_def\<close>)
    then have "decompress_loop (between_chunks src pre room i e s) =
        decompress_loop (between_chunks src (pre @ expand [] ts) (drop (tokens_length ts) room) e1 e1 (length pre))"
      using head Compressed by (simp add: in_chunk_def between_chunks_def)
    then show ?thesis using Compressed after len by auto
  qed
qed

lemma decompress_loop_chunks:
  "\<forall>c \<in> set cs. chunk_ok c \<Longrightarrow> drop i src = concat (map enc_chunk cs) @ rest \<Longrightarrow>
   length (concat (map chunk_data cs)) \<le> length room \<Longrightarrow>
   \<exists>e' s'. decompress_loop (between_chunks src pre room i e s) =
     decompress_loop (between_chunks src (pre @ concat (map chunk_data cs))
       (drop (length (concat (map chunk_data cs))) room) (i + length (concat (map enc_chunk cs))) e' s')"
proof (induction cs arbitrary: pre room i e s)
  case Nil
  then show ?case by auto
next
  case (Cons c cs)
  let ?d = "chunk_data c" and ?i' = "i + length (enc_chunk c)"
  have src: "drop i src = enc_chunk c @ (concat (map enc_chunk cs) @ rest)" using Cons.prems(2) by simp
  have "drop ?i' src = drop (length (enc_chunk c)) (drop i src)" by (simp add: add.commute)
  then have src': "drop ?i' src = concat (map enc_chunk cs) @ rest" by (simp add: src)
  obtain e1 s1 where "decompress_loop (between_chunks src pre room i e s) =
      decompress_loop (between_chunks src (pre @ ?d) (drop (length ?d) room) ?i' e1 s1)"
    using decompress_loop_chunk [OF _ src, of room pre e s] Cons.prems by auto
  moreover obtain e2 s2 where "decompress_loop (between_chunks src (pre @ ?d) (drop (length ?d) room) ?i' e1 s1) =
      decompress_loop (between_chunks src ((pre @ ?d) @ concat (map chunk_data cs))
        (drop (length (concat (map chunk_data cs))) (drop (length ?d) room))
        (?i' + length (concat (map enc_chunk cs))) e2 s2)"
  proof -
    have "length (concat (map chunk_data cs)) \<le> length (drop (length ?d) room)"
      using Cons.prems(3) by (simp add: add.commute le_diff_conv2)
    from Cons.IH [OF _ src' this, of "pre @ ?d" e1 s1] Cons.prems(1) that show thesis by auto
  qed
  ultimately show ?case by (auto simp: add.assoc add.commute)
qed

text \<open>The end of a stream: nothing, a stray byte, or the End_of_buffer terminal and anything.\<close>

definition stream_end :: "byte list \<Rightarrow> bool" where
  "stream_end ending \<longleftrightarrow> length ending < 2 \<or> take 2 ending = [0, 0]"

lemma decompress_loop_end:
  assumes "drop i src = ending" and "stream_end ending"
  shows "\<exists>i'. decompress_loop (between_chunks src pre room i e s) = Inr (between_chunks src pre room i' e s)"
proof (cases "length ending < 2")
  case True
  then have "\<not> i + 2 \<le> length src" using assms(1) by auto
  then show ?thesis by (subst decompress_loop.simps) (auto simp: between_chunks_def header_size_def)
next
  case False
  then obtain rest where ending: "ending = 0 # 0 # rest"
    using assms(2) by (cases ending; cases "tl ending") (auto simp: stream_end_def)
  with assms(1) have "drop i src = to_le 2 0 @ rest" by (simp add: numeral_2_eq_2)
  then have r: "ReadLe16 src i = Inr 0" using ReadLe16_to_le [of i src 0 rest] by simp
  have "i + 2 \<le> length src" using arg_cong [OF assms(1), of length] ending by simp
  then show ?thesis using r
    by (subst decompress_loop.simps) (auto simp: between_chunks_def header_size_def Let_def)
qed

lemma decompress_encoding:
  assumes "\<forall>c \<in> set cs. chunk_ok c" and "stream_end ending"
    and "data = concat (map chunk_data cs)" and "length data \<le> length dest"
  shows "Decompress (concat (map enc_chunk cs) @ ending) dest =
    Inr (length data, data @ drop (length data) dest)"
proof -
  let ?src = "concat (map enc_chunk cs) @ ending" and ?i = "length (concat (map enc_chunk cs))"
  obtain e s where "decompress_loop (between_chunks ?src [] dest 0 0 0) =
      decompress_loop (between_chunks ?src data (drop (length data) dest) ?i e s)"
    using decompress_loop_chunks [of cs 0 ?src ending dest "[]" 0 0] assms by auto
  moreover obtain i' where "decompress_loop (between_chunks ?src data (drop (length data) dest) ?i e s) =
      Inr (between_chunks ?src data (drop (length data) dest) i' e s)"
    using decompress_loop_end [of ?i ?src ending data "drop (length data) dest" e s] assms(2) by auto
  ultimately show ?thesis by (simp add: Decompress_def between_chunks_def)
qed

text \<open>
  C16. Round trip: for every sequence of well-formed chunks (stored bytes, or literals and
  back-references, overlapping ones included), Decompress() of its encoding, ended in any legal
  way, returns the length of the data the chunks stand for, and writes exactly that data.
\<close>

theorem decompress_inverts_encoding:
  assumes "\<forall>c \<in> set cs. chunk_ok c" and "stream_end ending"
    and "data = concat (map chunk_data cs)" and "length data \<le> length dest"
  shows "Decompress (concat (map enc_chunk cs) @ ending) dest =
    Inr (length data, data @ drop (length data) dest)"
  by (rule decompress_encoding [OF assms])

subsection \<open>Streams the theorems apply to\<close>

definition sample_chunks :: "lz_chunk list" where
  "sample_chunks = [Compressed [Literal 97, Reference 1 5], Stored [98, 99]]"

lemma sample_chunks_ok: "\<forall>c \<in> set sample_chunks. chunk_ok c"
  by (simp add: sample_chunks_def enc_groups.simps length_bits_at_def)

lemma sample_chunks_data: "[97, 97, 97, 97, 97, 97, 98, 99] = concat (map chunk_data sample_chunks)"
  by (simp add: sample_chunks_def repeat_back_def upt_rec)

lemma decompress_inverts_encoding_witness:
  "Decompress (concat (map enc_chunk sample_chunks) @ [0, 0]) (replicate 9 0) =
     Inr (8, [97, 97, 97, 97, 97, 97, 98, 99, 0])"
  using decompress_inverts_encoding [OF sample_chunks_ok _ sample_chunks_data, of "[0, 0]" "replicate 9 0"]
  by (simp add: stream_end_def eval_nat_numeral)

lemma decompress_writes_prefix_witness:
  "(8 :: nat) \<le> length (replicate 9 (0 :: byte)) \<and>
   length [97, 97, 97, 97, 97, 97, 98, 99, 0 :: byte] = length (replicate 9 (0 :: byte)) \<and>
   drop 8 [97, 97, 97, 97, 97, 97, 98, 99, 0 :: byte] = drop 8 (replicate 9 0)"
  by (rule decompress_writes_prefix
      [of "concat (map enc_chunk sample_chunks) @ [0, 0]" "replicate 9 0" 8 "[97, 97, 97, 97, 97, 97, 98, 99, 0]"])
    (use decompress_encoding [OF sample_chunks_ok _ sample_chunks_data, of "[0, 0]" "replicate 9 0"]
      in \<open>simp add: stream_end_def eval_nat_numeral\<close>)

end
