(* ===== verification/RunList.thy ===== *)
theory RunList
  imports NtfsPrelude
begin

text \<open>
  The data runs of a non-resident attribute: src/attr/run-list.cpp, class RunList, with
  src/data/run-entry.h and Alloc::Extent of include/ntfs-browser/alloc/types.h. VCNs, LCNs and
  cluster counts are ULONGLONG and wrap; the running LCN of the decoder is a LONGLONG, modelled
  by its value, with the one addition that could overflow it written as a checked one
  (\<open>SignedOverflow\<close> is the undefined behaviour the code must avoid). The spans that PickData()
  cuts without a check of their own are checked here (\<open>RunOutOfBounds\<close>). Logging is not modelled.
\<close>

section \<open>Data\<close>

record run_entry =
  re_lcn :: "u64 option"
  re_clusters :: u64
  re_start_vcn :: u64
  re_last_vcn :: u64

record run_list =
  rl_runs :: "run_entry list"
  rl_clusters :: u64

record extent =
  ex_lcn :: u64
  ex_clusters :: u64

datatype run_error =
    MalformedRun | LcnOverflows | LcnUnderflows | VcnsWrap | VcnPastBound | SignedOverflow
  | RunOutOfBounds

text \<open>The constructor RunList(clusters).\<close>

definition new_run_list :: "u64 \<Rightarrow> run_list" where
  "new_run_list clusters = \<lparr>rl_runs = [], rl_clusters = clusters\<rparr>"

section \<open>Decoding\<close>

definition llong_max :: int where "llong_max = 9223372036854775807"
definition llong_min :: int where "llong_min = - 9223372036854775808"

text \<open>Signed addition on LONGLONG: leaving the range is undefined behaviour.\<close>

definition add_llong :: "int \<Rightarrow> int \<Rightarrow> run_error + int" where
  "add_llong a b = (if llong_min \<le> a + b \<and> a + b \<le> llong_max then Inr (a + b) else Inl SignedOverflow)"

text \<open>
  A LONGLONG that starts as 0 or -1, by the sign of the field's last byte, and takes the bytes
  of the field as its low bytes.
\<close>

definition sign_extended :: "byte list \<Rightarrow> int" where
  "sign_extended bs = (if bit (last bs) 7 then int (le_nat bs) - 256 ^ length bs else int (le_nat bs))"

text \<open>
  PickData(): the bytes after the run, its length and its LCN offset, or None on an error. What
  the code takes from the span without a check (\<open>front()\<close>, \<open>subspan()\<close>, \<open>memcpy\<close>) is checked here.
\<close>

definition PickData :: "byte list \<Rightarrow> run_error + (byte list \<times> u64 \<times> int option) option" where
  "PickData data_run =
     bind_r (subspan RunOutOfBounds data_run 0 1) (\<lambda>front.
     bind_r (subspan_from RunOutOfBounds data_run 1) (\<lambda>data_run.
     let size = hd front;
         length_bytes = unat (size AND 0x0F);
         offset_bytes = unat (drop_bit 4 size)
     in if length_bytes > 8 \<or> offset_bytes > 8 then Inr None
        else if length data_run < length_bytes + offset_bytes then Inr None
        else
          bind_r (subspan RunOutOfBounds data_run 0 length_bytes) (\<lambda>length_field.
          bind_r (subspan_from RunOutOfBounds data_run length_bytes) (\<lambda>data_run.
          if offset_bytes \<noteq> 0 then
            bind_r (subspan RunOutOfBounds data_run 0 offset_bytes) (\<lambda>offset_field.
            bind_r (subspan_from RunOutOfBounds data_run offset_bytes) (\<lambda>rest.
            Inr (Some (rest, of_nat (le_nat length_field), Some (sign_extended offset_field)))))
          else Inr (Some (data_run, of_nat (le_nat length_field), None))))))"

record decode_cursor =
  dc_lcn :: int
  dc_vcn :: u64
  dc_vcn_bound :: u64

text \<open>
  AppendDataRun(): in strict mode an error throws (Inl); recovering, the same error answers
  False and nothing is appended.
\<close>

definition run_failure :: "bool \<Rightarrow> run_error \<Rightarrow> decode_cursor \<Rightarrow> run_list \<Rightarrow> run_error + bool \<times> decode_cursor \<times> run_list" where
  "run_failure recover e cursor rl = (if recover then Inr (False, cursor, rl) else Inl e)"

definition AppendDataRun ::
  "bool \<Rightarrow> u64 \<Rightarrow> int option \<Rightarrow> decode_cursor \<Rightarrow> run_list \<Rightarrow> run_error + bool \<times> decode_cursor \<times> run_list" where
  "AppendDataRun recover len lcn_offset cursor rl =
    (let delta = (case lcn_offset of None \<Rightarrow> 0 | Some d \<Rightarrow> d)
     in if delta > 0 \<and> dc_lcn cursor > llong_max - delta then run_failure recover LcnOverflows cursor rl
        else bind_r (add_llong (dc_lcn cursor) delta) (\<lambda>lcn.
          let cursor = cursor\<lparr>dc_lcn := lcn\<rparr>
          in if lcn < 0 then run_failure recover LcnUnderflows cursor rl
             else if len > u64_max - dc_vcn cursor then run_failure recover VcnsWrap cursor rl
             else
               let start_vcn = dc_vcn cursor;
                   cursor = cursor\<lparr>dc_vcn := dc_vcn cursor + len\<rparr>;
                   last_vcn = (if dc_vcn cursor = 0 then u64_max else dc_vcn cursor - 1);
                   data_run = \<lparr>re_lcn = map_option (\<lambda>_. of_int lcn) lcn_offset,
                               re_clusters = len, re_start_vcn = start_vcn, re_last_vcn = last_vcn\<rparr>
               in if last_vcn > dc_vcn_bound cursor then run_failure recover VcnPastBound cursor rl
                  else Inr (True, cursor, rl\<lparr>rl_runs := rl_runs rl @ [data_run]\<rparr>)))"

lemma PickData_shorter: "PickData xs = Inr (Some (rest, len, off)) \<Longrightarrow> length rest < length xs"
  by (cases xs) (auto simp: PickData_def Let_def subspan_def subspan_from_def bind_r_eq_Inr split: if_splits)

lemma PickData_inside: "xs \<noteq> [] \<Longrightarrow> PickData xs \<noteq> Inl e"
  by (cases xs) (auto simp: PickData_def Let_def subspan_def subspan_from_def split: if_splits)

function parse_loop :: "bool \<Rightarrow> byte list \<Rightarrow> decode_cursor \<Rightarrow> run_list \<Rightarrow> run_error + run_list" where
  "parse_loop recover data_run cursor rl =
    (if data_run \<noteq> [] \<and> hd data_run \<noteq> 0 then
       (case PickData data_run of
          Inl e \<Rightarrow> Inl e
        | Inr None \<Rightarrow> if recover then Inr rl else Inl MalformedRun
        | Inr (Some (rest, len, lcn_offset)) \<Rightarrow>
            bind_r (AppendDataRun recover len lcn_offset cursor rl) (\<lambda>(ok, cursor, rl).
              if ok then parse_loop recover rest cursor rl else Inr rl))
     else Inr rl)"
  by pat_completeness auto
termination
  by (relation "measure (\<lambda>(recover, data_run, cursor, rl). length data_run)") (auto dest: PickData_shorter)

declare parse_loop.simps [simp del]

definition ParseRuns :: "byte list \<Rightarrow> u64 \<Rightarrow> bool \<Rightarrow> run_list \<Rightarrow> run_error + run_list" where
  "ParseRuns run_bytes vcn_bound recover rl =
     parse_loop recover run_bytes \<lparr>dc_lcn = 0, dc_vcn = 0, dc_vcn_bound = vcn_bound\<rparr> rl"

section \<open>Queries\<close>

definition AppendRuns :: "run_list \<Rightarrow> run_list \<Rightarrow> run_list" where
  "AppendRuns rl other =
     \<lparr>rl_runs = rl_runs rl @ map (\<lambda>r. r\<lparr>re_start_vcn := re_start_vcn r + rl_clusters rl,
                                        re_last_vcn := re_last_vcn r + rl_clusters rl\<rparr>) (rl_runs other),
      rl_clusters = rl_clusters rl + rl_clusters other\<rparr>"

definition TotalClusters :: "run_list \<Rightarrow> u64" where
  "TotalClusters rl = rl_clusters rl"

definition MappedClusters :: "run_list \<Rightarrow> u64" where
  "MappedClusters rl =
     fold (\<lambda>r mapped. if re_lcn r \<noteq> None then re_last_vcn r + 1 else mapped) (rl_runs rl) 0"

record extent_list =
  el_extents :: "extent list"
  el_covered :: u64
  el_well_formed :: bool

definition extents_step :: "run_entry \<Rightarrow> extent_list \<Rightarrow> extent_list" where
  "extents_step r l =
    (if re_clusters r = 0 then l\<lparr>el_well_formed := False\<rparr>
     else
       let l = l\<lparr>el_covered := re_last_vcn r + 1\<rparr>
       in case re_lcn r of
            None \<Rightarrow> l
          | Some lcn \<Rightarrow>
              l\<lparr>el_well_formed := (el_well_formed l \<and> \<not> re_clusters r > u64_max - lcn),
                el_extents := el_extents l @ [\<lparr>ex_lcn = lcn, ex_clusters = re_clusters r\<rparr>]\<rparr>)"

definition RunExtents :: "run_list \<Rightarrow> extent_list" where
  "RunExtents rl = fold extents_step (rl_runs rl) \<lparr>el_extents = [], el_covered = 0, el_well_formed = True\<rparr>"

record vcn_run =
  vr_start_vcn :: u64
  vr_clusters :: u64

record vcn_run_list =
  vl_runs :: "vcn_run list"
  vl_covered :: u64
  vl_well_formed :: bool

definition real_ranges_step :: "run_entry \<Rightarrow> vcn_run_list \<Rightarrow> vcn_run_list" where
  "real_ranges_step r l =
    (if re_clusters r = 0 then l\<lparr>vl_well_formed := False\<rparr>
     else
       let l = l\<lparr>vl_covered := re_last_vcn r + 1\<rparr>
       in case re_lcn r of
            None \<Rightarrow> l
          | Some lcn \<Rightarrow>
              if re_clusters r > u64_max - lcn then l\<lparr>vl_well_formed := False\<rparr>
              else if vl_runs l \<noteq> [] \<and>
                      vr_start_vcn (last (vl_runs l)) + vr_clusters (last (vl_runs l)) = re_start_vcn r
                   then l\<lparr>vl_runs := butlast (vl_runs l) @
                          [(last (vl_runs l))\<lparr>vr_clusters := vr_clusters (last (vl_runs l)) + re_clusters r\<rparr>]\<rparr>
                   else l\<lparr>vl_runs := vl_runs l @ [\<lparr>vr_start_vcn = re_start_vcn r, vr_clusters = re_clusters r\<rparr>]\<rparr>)"

definition RealRanges :: "run_list \<Rightarrow> vcn_run_list" where
  "RealRanges rl = fold real_ranges_step (rl_runs rl) \<lparr>vl_runs = [], vl_covered = 0, vl_well_formed = True\<rparr>"

definition holds_vcn :: "u64 \<Rightarrow> run_entry \<Rightarrow> bool" where
  "holds_vcn vcn r \<longleftrightarrow> vcn \<ge> re_start_vcn r \<and> vcn \<le> re_last_vcn r"

definition FindRun :: "run_list \<Rightarrow> u64 \<Rightarrow> run_entry option" where
  "FindRun rl vcn = find (holds_vcn vcn) (rl_runs rl)"

text \<open>
  ExtentsBetween(): the loop has no bound of its own, so it is a partial function; None is
  "does not return".
\<close>

partial_function (option) extents_between_loop ::
  "run_list \<Rightarrow> u64 \<Rightarrow> u64 \<Rightarrow> u64 \<Rightarrow> extent list \<Rightarrow> extent list option" where
  "extents_between_loop rl vcn end_vcn max_lcn extents =
    (if vcn < end_vcn then
       (case FindRun rl vcn of
          None \<Rightarrow> Some extents
        | Some r \<Rightarrow>
            (case re_lcn r of
               None \<Rightarrow> extents_between_loop rl (vcn + (min (re_last_vcn r + 1) end_vcn - vcn)) end_vcn max_lcn extents
             | Some lcn \<Rightarrow>
                 if lcn > max_lcn \<or> vcn - re_start_vcn r > max_lcn - lcn \<or>
                    min (re_last_vcn r + 1) end_vcn - vcn > max_lcn - lcn - (vcn - re_start_vcn r)
                 then Some extents
                 else extents_between_loop rl (vcn + (min (re_last_vcn r + 1) end_vcn - vcn)) end_vcn max_lcn
                        (extents @ [\<lparr>ex_lcn = lcn + (vcn - re_start_vcn r),
                                     ex_clusters = min (re_last_vcn r + 1) end_vcn - vcn\<rparr>])))
     else Some extents)"

definition ExtentsBetween :: "run_list \<Rightarrow> u64 \<Rightarrow> u64 \<Rightarrow> u64 \<Rightarrow> extent list option" where
  "ExtentsBetween rl first_vcn end_vcn max_lcn = extents_between_loop rl first_vcn end_vcn max_lcn []"

text \<open>LeadingRealClusters(): the loop over the runs, with the early returns.\<close>

fun leading_loop :: "run_entry list \<Rightarrow> u64 \<Rightarrow> u64 \<Rightarrow> u64 \<Rightarrow> bool \<Rightarrow> u64 option" where
  "leading_loop [] unit_end vcn real_clusters saw_hole =
     (if vcn \<noteq> unit_end then None else Some real_clusters)"
| "leading_loop (r # rs) unit_end vcn real_clusters saw_hole =
     (if vcn \<ge> unit_end then (if vcn \<noteq> unit_end then None else Some real_clusters)
      else if re_last_vcn r < vcn then leading_loop rs unit_end vcn real_clusters saw_hole
      else if re_start_vcn r > vcn then None
      else
        let in_run = re_last_vcn r - vcn + 1;
            left = unit_end - vcn;
            n = (if in_run < left then in_run else left)
        in if re_lcn r \<noteq> None then
             (if saw_hole then None
              else leading_loop rs unit_end (vcn + n) (real_clusters + n) saw_hole)
           else leading_loop rs unit_end (vcn + n) real_clusters True)"

definition LeadingRealClusters :: "run_list \<Rightarrow> u64 \<Rightarrow> u64 \<Rightarrow> u64 option" where
  "LeadingRealClusters rl unit_first_vcn unit_clusters =
     leading_loop (rl_runs rl) (unit_first_vcn + unit_clusters) unit_first_vcn 0 False"

section \<open>Decoding never overflows a LONGLONG\<close>

lemma sign_extended_bounds:
  assumes "bs \<noteq> []" and "length bs \<le> 8"
  shows "llong_min \<le> sign_extended bs \<and> sign_extended bs \<le> llong_max"
proof -
  define hi where "hi = le_nat (butlast bs)"
  define t where "t = unat (last bs)"
  define k where "k = length bs - 1"
  have bs: "bs = butlast bs @ [last bs]" using assms(1) by simp
  have len: "length bs = Suc k" "length (butlast bs) = k" using assms(1) by (simp_all add: k_def)
  have val: "le_nat bs = hi + 256 ^ k * t"
  proof -
    have "le_nat (xs @ [b]) = le_nat xs + 256 ^ length xs * unat b" for xs and b :: byte
      by (induction xs) (simp_all add: algebra_simps)
    from this [of "butlast bs" "last bs"] show ?thesis using bs len by (simp add: hi_def t_def)
  qed
  have hi: "hi < 256 ^ k" using le_nat_bound [of "butlast bs"] len by (simp add: hi_def)
  have t: "t < 256" by (simp add: t_def unat_byte_bound)
  have top: "bit (last bs) 7 \<longleftrightarrow> 128 \<le> t"
  proof -
    have "bit (last bs) 7 \<longleftrightarrow> bit t 7" by (simp add: t_def bit_unsigned_iff)
    also have "\<dots> \<longleftrightarrow> odd (t div 2 ^ 7)" by (rule bit_iff_odd)
    also have "t div 2 ^ 7 = (if 128 \<le> t then 1 else 0)" using t by (auto simp: div_eq_0_iff intro!: div_nat_eqI)
    finally show ?thesis by simp
  qed
  have "k \<le> 7" using assms(2) len by simp
  define P :: int where "P = 256 ^ k"
  have pow: "P \<le> 72057594037927936"
    unfolding P_def using power_increasing [OF \<open>k \<le> 7\<close>, of "256 :: int"] by simp
  have hi': "int hi < P" unfolding P_def using hi by (metis of_nat_less_iff of_nat_numeral of_nat_power)
  have P: "0 \<le> P" by (simp add: P_def)
  show ?thesis
  proof (cases "128 \<le> t")
    case True
    have "sign_extended bs = int hi + P * (int t - 256)"
      using True top len by (simp add: sign_extended_def val P_def algebra_simps)
    moreover have "- (128 * P) \<le> P * (int t - 256)"
      using mult_left_mono [of "- 128" "int t - 256" P] P True by simp
    moreover have "P * (int t - 256) \<le> - P"
      using mult_left_mono [of "int t - 256" "- 1" P] P t by simp
    ultimately show ?thesis using hi' pow unfolding llong_min_def llong_max_def by linarith
  next
    case False
    have "sign_extended bs = int hi + P * int t"
      using False top by (simp add: sign_extended_def val P_def)
    moreover have "P * int t \<le> 127 * P"
      using mult_left_mono [of "int t" 127 P] P False by simp
    moreover have "0 \<le> P * int t" using P by simp
    ultimately show ?thesis using hi' pow unfolding llong_min_def llong_max_def by linarith
  qed
qed

lemma PickData_offset_bounds:
  assumes "PickData xs = Inr (Some (rest, len, Some d))"
  shows "llong_min \<le> d \<and> d \<le> llong_max"
proof -
  define ob where "ob = unat (drop_bit 4 (hd xs))"
  define lb where "lb = unat (hd xs AND 0x0F)"
  from assms have d: "d = sign_extended (take ob (drop lb (tl xs)))" and ob: "0 < ob" "ob \<le> 8"
    and len: "lb + ob \<le> length (tl xs)"
    by (auto simp: PickData_def Let_def ob_def lb_def subspan_def subspan_from_def bind_r_eq_Inr drop_Suc split: if_splits)
  have "length (take ob (drop lb (tl xs))) = ob" using len by simp
  then show ?thesis using sign_extended_bounds [of "take ob (drop lb (tl xs))"] d ob by auto
qed

definition offset_in_range :: "int option \<Rightarrow> bool" where
  "offset_in_range off \<longleftrightarrow> (case off of None \<Rightarrow> True | Some d \<Rightarrow> llong_min \<le> d \<and> d \<le> llong_max)"

definition cursor_lcn_ok :: "decode_cursor \<Rightarrow> bool" where
  "cursor_lcn_ok cursor \<longleftrightarrow> 0 \<le> dc_lcn cursor \<and> dc_lcn cursor \<le> llong_max"

lemma AppendDataRun_no_overflow:
  assumes "offset_in_range off" "cursor_lcn_ok cursor"
  shows "AppendDataRun recover len off cursor rl \<noteq> Inl SignedOverflow"
    and "AppendDataRun recover len off cursor rl \<noteq> Inl RunOutOfBounds"
    and "AppendDataRun recover len off cursor rl = Inr (True, cursor', rl') \<Longrightarrow> cursor_lcn_ok cursor'"
  using assms
  by (auto simp: AppendDataRun_def Let_def add_llong_def run_failure_def offset_in_range_def cursor_lcn_ok_def
      bind_r_eq_Inl bind_r_eq_Inr llong_max_def llong_min_def split: if_splits option.splits)

lemma parse_loop_no_overflow:
  "cursor_lcn_ok cursor \<Longrightarrow> e = SignedOverflow \<or> e = RunOutOfBounds \<Longrightarrow> parse_loop recover data_run cursor rl \<noteq> Inl e"
proof (induction recover data_run cursor rl rule: parse_loop.induct)
  case (1 recover data_run cursor rl)
  show ?case
  proof (cases "data_run \<noteq> [] \<and> hd data_run \<noteq> 0")
    case True
    show ?thesis
    proof (cases "\<exists>rest len off. PickData data_run = Inr (Some (rest, len, off))")
      case False
      then have "PickData data_run = Inr None"
        using PickData_inside [of data_run] True by (cases "PickData data_run"; cases "projr (PickData data_run)") auto
      then show ?thesis using True "1.prems"(2) by (auto simp: parse_loop.simps [of _ data_run])
    next
      case picked: True
      then obtain rest len off where pick: "PickData data_run = Inr (Some (rest, len, off))" by blast
      have off: "offset_in_range off"
        using pick PickData_offset_bounds by (cases off) (auto simp: offset_in_range_def)
      note app = AppendDataRun_no_overflow [OF off "1.prems"(1), of recover len rl]
      have IH: "parse_loop recover rest cursor' rl' \<noteq> Inl e"
        if "AppendDataRun recover len off cursor rl = Inr (True, cursor', rl')" for cursor' rl'
        using "1.IH" [OF True pick refl refl refl that refl refl TrueI] app(3) [OF that] "1.prems"(2) by blast
      then show ?thesis
        using True pick app(1,2) "1.prems"(2)
        by (auto simp: parse_loop.simps [of _ data_run] bind_r_eq_Inl)
    qed
  next
    case False
    then show ?thesis by (subst parse_loop.simps) auto
  qed
qed

lemma ParseRuns_no_overflow:
  "e = SignedOverflow \<or> e = RunOutOfBounds \<Longrightarrow> ParseRuns run_bytes vcn_bound recover rl \<noteq> Inl e"
  using parse_loop_no_overflow [of "\<lparr>dc_lcn = 0, dc_vcn = 0, dc_vcn_bound = vcn_bound\<rparr>" e recover run_bytes rl]
  by (simp add: ParseRuns_def cursor_lcn_ok_def llong_max_def)

text \<open>
  C40. Whatever the bytes of the run list, its declared bound and the mode, decoding never adds
  two LONGLONG values out of range.
\<close>

theorem parse_runs_no_signed_overflow: "ParseRuns run_bytes vcn_bound recover rl \<noteq> Inl SignedOverflow"
  by (rule ParseRuns_no_overflow) simp

section \<open>The shape of a decoded list\<close>

text \<open>
  Consecutive runs from VCN \<open>v\<close>: each starts where the one before ends, none wraps, and the last
  VCN is the one the decoder computes (the largest value for an empty run at VCN 0).
\<close>

fun runs_from :: "nat \<Rightarrow> run_entry list \<Rightarrow> bool" where
  "runs_from v [] = True"
| "runs_from v (r # rs) =
     (unat (re_start_vcn r) = v \<and> v + unat (re_clusters r) < 2 ^ 64 \<and>
      re_last_vcn r = (if v + unat (re_clusters r) = 0 then u64_max else of_nat (v + unat (re_clusters r) - 1)) \<and>
      runs_from (v + unat (re_clusters r)) rs)"

fun runs_end :: "nat \<Rightarrow> run_entry list \<Rightarrow> nat" where
  "runs_end v [] = v"
| "runs_end v (r # rs) = runs_end (v + unat (re_clusters r)) rs"

definition run_ok :: "u64 \<Rightarrow> run_entry \<Rightarrow> bool" where
  "run_ok vcn_bound r \<longleftrightarrow> re_last_vcn r \<le> vcn_bound \<and> (\<forall>l. re_lcn r = Some l \<longrightarrow> unat l < 2 ^ 63)"

lemma runs_from_append:
  "runs_from v (xs @ ys) \<longleftrightarrow> runs_from v xs \<and> runs_from (runs_end v xs) ys"
  by (induction xs arbitrary: v) auto

lemma runs_end_append: "runs_end v (xs @ ys) = runs_end (runs_end v xs) ys"
  by (induction xs arbitrary: v) auto

definition parsing_ok :: "run_entry list \<Rightarrow> decode_cursor \<Rightarrow> bool" where
  "parsing_ok runs cursor \<longleftrightarrow> cursor_lcn_ok cursor \<and> runs_from 0 runs \<and>
     runs_end 0 runs = unat (dc_vcn cursor) \<and> (\<forall>r \<in> set runs. run_ok (dc_vcn_bound cursor) r)"

lemma unat_of_int_llong: "0 \<le> i \<Longrightarrow> i \<le> llong_max \<Longrightarrow> unat (of_int i :: u64) < 2 ^ 63"
  by (simp add: llong_max_def unat_eq_nat_uint word_of_int_inverse nat_less_iff)

lemma AppendDataRun_parsing_ok:
  assumes ok: "parsing_ok (rl_runs rl) cursor"
    and app: "AppendDataRun recover len off cursor rl = Inr (good, cursor', rl')"
  shows "if good then parsing_ok (rl_runs rl') cursor' \<and> dc_vcn_bound cursor' = dc_vcn_bound cursor \<and>
           rl_clusters rl' = rl_clusters rl
         else rl' = rl"
proof (cases good)
  case False
  then show ?thesis using app
    by (auto simp: AppendDataRun_def Let_def run_failure_def bind_r_eq_Inr split: if_splits)
next
  case True
  define lcn where "lcn = dc_lcn cursor'"
  define last_vcn where "last_vcn = (if dc_vcn cursor + len = 0 then u64_max else dc_vcn cursor + len - 1)"
  define r where "r = \<lparr>re_lcn = map_option (\<lambda>_. of_int lcn) off,
      re_clusters = len, re_start_vcn = dc_vcn cursor, re_last_vcn = last_vcn\<rparr>"
  have lcn: "lcn = dc_lcn cursor + (case off of None \<Rightarrow> 0 | Some d \<Rightarrow> d)"
    using app True
    by (auto simp: AppendDataRun_def Let_def run_failure_def bind_r_eq_Inr add_llong_def lcn_def split: if_splits)
  have facts: "rl' = rl\<lparr>rl_runs := rl_runs rl @ [r]\<rparr>" "cursor' = cursor\<lparr>dc_lcn := lcn, dc_vcn := dc_vcn cursor + len\<rparr>"
    "0 \<le> lcn" "lcn \<le> llong_max" "\<not> len > u64_max - dc_vcn cursor" "\<not> last_vcn > dc_vcn_bound cursor"
    using app True
    by (auto simp: AppendDataRun_def Let_def run_failure_def bind_r_eq_Inr add_llong_def r_def lcn last_vcn_def
        split: if_splits)
  have "unat len \<le> unat (u64_max - dc_vcn cursor)" using facts(5) by (simp add: u64_nat)
  then have room: "unat (dc_vcn cursor) + unat len < 2 ^ 64"
    using unat_u64_sub [of "dc_vcn cursor" u64_max] unat_u64_bound [of "dc_vcn cursor"] by simp
  then have sum: "unat (dc_vcn cursor + len) = unat (dc_vcn cursor) + unat len"
    by (intro unat_u64_add) simp
  have zero: "dc_vcn cursor + len = 0 \<longleftrightarrow> unat (dc_vcn cursor) + unat len = 0"
    using sum by (metis unat_eq_zero)
  have pred: "dc_vcn cursor + len - 1 = of_nat (unat (dc_vcn cursor) + unat len - 1)"
    if "unat (dc_vcn cursor) + unat len \<noteq> 0"
  proof (rule unat_u64_inj)
    have "1 \<le> unat (dc_vcn cursor + len)" using that sum by linarith
    then have "1 \<le> dc_vcn cursor + len" by (simp add: u64_nat)
    then have "unat (dc_vcn cursor + len - 1) = unat (dc_vcn cursor + len) - 1" by (simp add: unat_u64_sub)
    then show "unat (dc_vcn cursor + len - 1) = unat (of_nat (unat (dc_vcn cursor) + unat len - 1) :: u64)"
      using room by (simp add: sum unat_of_nat_u64)
  qed
  have "last_vcn = (if unat (dc_vcn cursor) + unat len = 0 then u64_max
      else of_nat (unat (dc_vcn cursor) + unat len - 1))"
  proof (cases "unat (dc_vcn cursor) + unat len = 0")
    case True
    then show ?thesis unfolding last_vcn_def zero by (simp only: if_True simp_thms)
  next
    case False
    show ?thesis unfolding last_vcn_def zero pred [OF False, symmetric] using False by (simp only: if_False simp_thms)
  qed
  then have "runs_from (unat (dc_vcn cursor)) [r]" using room by (simp add: r_def)
  moreover have "run_ok (dc_vcn_bound cursor) r"
  proof -
    have "re_last_vcn r \<le> dc_vcn_bound cursor" using facts(6) by (simp add: r_def)
    moreover have "unat l < 2 ^ 63" if "re_lcn r = Some l" for l
      using that unat_of_int_llong [OF facts(3,4)] by (auto simp: r_def)
    ultimately show ?thesis by (simp add: run_ok_def)
  qed
  moreover have "re_clusters r = len" by (simp add: r_def)
  ultimately have "runs_from 0 (rl_runs rl') \<and> runs_end 0 (rl_runs rl') = unat (dc_vcn cursor')
      \<and> (\<forall>r \<in> set (rl_runs rl'). run_ok (dc_vcn_bound cursor') r)"
    using ok unfolding facts(1,2) by (simp add: parsing_ok_def runs_from_append runs_end_append sum)
  then show ?thesis using True facts(3,4) unfolding facts(1,2) by (simp add: parsing_ok_def cursor_lcn_ok_def)
qed

lemma parse_loop_parsing_ok:
  "parsing_ok (rl_runs rl) cursor \<Longrightarrow> parse_loop recover data_run cursor rl = Inr rl' \<Longrightarrow>
     runs_from 0 (rl_runs rl') \<and> (\<forall>r \<in> set (rl_runs rl'). run_ok (dc_vcn_bound cursor) r) \<and>
     rl_clusters rl' = rl_clusters rl"
proof (induction recover data_run cursor rl rule: parse_loop.induct)
  case (1 recover data_run cursor rl)
  have done_case: ?case if "rl' = rl" using that "1.prems"(1) by (simp add: parsing_ok_def)
  show ?case
  proof (cases "data_run \<noteq> [] \<and> hd data_run \<noteq> 0")
    case True
    note eq = "1.prems"(2) [unfolded parse_loop.simps [of _ data_run]]
    show ?thesis
    proof (cases "\<exists>rest len off. PickData data_run = Inr (Some (rest, len, off))")
      case False
      with eq True have "rl' = rl" by (auto split: if_splits sum.splits option.splits)
      then show ?thesis by (rule done_case)
    next
      case picked: True
      then obtain rest len off where pick: "PickData data_run = Inr (Some (rest, len, off))" by blast
      with eq True obtain good cursor1 rl1 where
        app: "AppendDataRun recover len off cursor rl = Inr (good, cursor1, rl1)"
        and go: "(if good then parse_loop recover rest cursor1 rl1 else Inr rl1) = Inr rl'"
        by (auto simp: bind_r_eq_Inr)
      note step = AppendDataRun_parsing_ok [OF "1.prems"(1) app]
      show ?thesis
      proof (cases good)
        case good: True
        from "1.IH" [OF True pick refl refl refl app refl refl good] step go good
        show ?thesis by simp
      next
        case False
        with step go have "rl' = rl" by simp
        then show ?thesis by (rule done_case)
      qed
    qed
  next
    case False
    then have "rl' = rl" using "1.prems"(2) by (subst (asm) parse_loop.simps) auto
    then show ?thesis by (rule done_case)
  qed
qed

lemma parsed_shape:
  assumes "ParseRuns run_bytes vcn_bound recover (new_run_list clusters) = Inr rl"
  shows "runs_from 0 (rl_runs rl) \<and> (\<forall>r \<in> set (rl_runs rl). run_ok vcn_bound r) \<and> TotalClusters rl = clusters"
  using parse_loop_parsing_ok [OF _ assms [unfolded ParseRuns_def]]
  by (simp add: parsing_ok_def cursor_lcn_ok_def new_run_list_def TotalClusters_def llong_max_def)

text \<open>
  C20. A decoded list, in either mode: the runs follow each other from VCN 0 without a gap, an
  overlap or a wrap past 2^64, every one ends at or before the declared bound, and every LCN is
  one a LONGLONG holds. The VCN count of the list is the constructor's.
\<close>

theorem parse_runs_shape:
  assumes "ParseRuns run_bytes vcn_bound recover (new_run_list clusters) = Inr rl"
  shows "runs_from 0 (rl_runs rl) \<and> (\<forall>r \<in> set (rl_runs rl). run_ok vcn_bound r) \<and> TotalClusters rl = clusters"
  by (rule parsed_shape [OF assms])

end
