(* ===== verification/BadClusters.thy ===== *)
theory BadClusters
  imports RunList "HOL-Library.Product_Lexorder"
begin

text \<open>
  The bad clusters of a volume: src/alloc/bad-cluster-list.cpp with the records of
  include/ntfs-browser/alloc/types.h. The in-place loops of the source write at an index never
  past the one they read, so they are folds here. Logging, and running out of memory, are not
  modelled.
\<close>

section \<open>Model\<close>

record stream_extents =
  se_extents :: "extent list"
  se_complete :: bool

record bad_clusters =
  bc_extents :: "extent list"
  bc_truncated :: bool

definition max_bad_extents :: nat where "max_bad_extents = 5 * 1024 * 1024"

definition BadExtentCeiling :: "nat \<Rightarrow> nat" where
  "BadExtentCeiling ceiling_override = (if ceiling_override \<noteq> 0 then ceiling_override else max_bad_extents)"

definition EndOf :: "extent \<Rightarrow> u64" where
  "EndOf e = (if ex_lcn e > u64_max - ex_clusters e then u64_max else ex_lcn e + ex_clusters e)"

fun clamp_loop :: "u64 \<Rightarrow> extent list \<Rightarrow> bool \<Rightarrow> extent list \<Rightarrow> bool \<times> extent list" where
  "clamp_loop cluster_count [] clipped kept = (clipped, kept)"
| "clamp_loop cluster_count (e # es) clipped kept =
    (if ex_clusters e = 0 then clamp_loop cluster_count es clipped kept
     else
       let wrapped_end = EndOf e in
       if cluster_count \<noteq> 0 \<and> ex_lcn e \<ge> cluster_count then clamp_loop cluster_count es True kept
       else
         let e_end = (if cluster_count \<noteq> 0 then min wrapped_end cluster_count else wrapped_end)
         in clamp_loop cluster_count es (clipped \<or> e_end < wrapped_end)
              (kept @ [\<lparr>ex_lcn = ex_lcn e, ex_clusters = e_end - ex_lcn e\<rparr>]))"

definition ClampToVolume :: "extent list \<Rightarrow> u64 \<Rightarrow> bool \<times> extent list" where
  "ClampToVolume extents cluster_count = clamp_loop cluster_count extents False []"

fun merge_loop :: "extent list \<Rightarrow> extent list \<Rightarrow> extent list" where
  "merge_loop [] kept = kept"
| "merge_loop (e # es) kept =
    (if kept \<noteq> [] \<and> ex_lcn e \<le> EndOf (last kept)
     then merge_loop es (butlast kept @
            [(last kept)\<lparr>ex_clusters := max (EndOf (last kept)) (EndOf e) - ex_lcn (last kept)\<rparr>])
     else merge_loop es (kept @ [e]))"

text \<open>The comparison orders by cluster, then by length: a total order, so the sort is unique.\<close>

definition SortAndMerge :: "extent list \<Rightarrow> extent list" where
  "SortAndMerge extents = merge_loop (sort_key (\<lambda>e. (ex_lcn e, ex_clusters e)) extents) []"

definition Build :: "stream_extents \<Rightarrow> u64 \<Rightarrow> bool \<Rightarrow> nat \<Rightarrow> bad_clusters option" where
  "Build extents cluster_count recover ceiling =
    (if \<not> se_complete extents \<and> \<not> recover then None
     else
       let merged = SortAndMerge (snd (ClampToVolume (se_extents extents) cluster_count)) in
       if length merged > ceiling then
         (if \<not> recover then None else Some \<lparr>bc_extents = take ceiling merged, bc_truncated = True\<rparr>)
       else Some \<lparr>bc_extents = merged, bc_truncated = False\<rparr>)"

text \<open>std::ranges::partition_point on elements [first, first + len): a binary search.\<close>

function partition_point :: "('a \<Rightarrow> bool) \<Rightarrow> 'a list \<Rightarrow> nat \<Rightarrow> nat \<Rightarrow> nat" where
  "partition_point P xs first len =
    (if len = 0 then first
     else
       let half = len div 2 in
       if P (xs ! (first + half)) then partition_point P xs (first + half + 1) (len - (half + 1))
       else partition_point P xs first half)"
  by pat_completeness auto
termination
  by (relation "measure (\<lambda>(P, xs, first, len). len)") auto

declare partition_point.simps [simp del]

definition Overlapping :: "bad_clusters \<Rightarrow> u64 \<Rightarrow> u64 \<Rightarrow> extent list" where
  "Overlapping l first last_cluster =
    (if first \<ge> last_cluster then []
     else
       let extents = bc_extents l;
           b = partition_point (\<lambda>e. EndOf e \<le> first) extents 0 (length extents);
           en = partition_point (\<lambda>e. ex_lcn e < last_cluster) extents b (length extents - b)
       in take (en - b) (drop b extents))"

definition CountIn :: "bad_clusters \<Rightarrow> u64 \<Rightarrow> u64 \<Rightarrow> u64" where
  "CountIn l first last_cluster =
     fold (\<lambda>e count. count + (min (EndOf e) last_cluster - max (ex_lcn e) first)) (Overlapping l first last_cluster) 0"

section \<open>The clusters of an extent\<close>

definition ext_end :: "extent \<Rightarrow> nat" where
  "ext_end e = min (unat (ex_lcn e) + unat (ex_clusters e)) 18446744073709551615"

definition ext_span :: "extent \<Rightarrow> nat set" where
  "ext_span e = {unat (ex_lcn e)..<ext_end e}"

definition spans :: "extent list \<Rightarrow> nat set" where
  "spans es = (\<Union>e \<in> set es. ext_span e)"

lemma unat_EndOf [simp]: "unat (EndOf e) = ext_end e"
proof -
  have m: "unat (u64_max - ex_clusters e) = 18446744073709551615 - unat (ex_clusters e)"
    by (subst unat_u64_sub) simp_all
  show ?thesis
  proof (cases "ex_lcn e > u64_max - ex_clusters e")
    case True
    then have "18446744073709551615 - unat (ex_clusters e) < unat (ex_lcn e)" by (simp only: u64_nat m)
    with True show ?thesis by (simp add: EndOf_def ext_end_def)
  next
    case False
    then have "unat (ex_lcn e) \<le> 18446744073709551615 - unat (ex_clusters e)" by (simp only: u64_nat m not_less)
    then have fit: "unat (ex_lcn e) + unat (ex_clusters e) \<le> 18446744073709551615"
      using unat_u64_bound [of "ex_clusters e"] by linarith
    then have "unat (ex_lcn e + ex_clusters e) = unat (ex_lcn e) + unat (ex_clusters e)" by (intro unat_u64_add) simp
    with False fit show ?thesis by (simp add: EndOf_def ext_end_def)
  qed
qed

lemma lcn_le_ext_end: "unat (ex_lcn e) \<le> ext_end e"
  using unat_u64_bound [of "ex_lcn e"] by (simp add: ext_end_def)

text \<open>Extents in cluster order with a gap between neighbours, none wrapping.\<close>

fun extents_apart :: "nat \<Rightarrow> extent list \<Rightarrow> bool" where
  "extents_apart lo [] = True"
| "extents_apart lo (e # es) =
     (lo \<le> unat (ex_lcn e) \<and> unat (ex_lcn e) + unat (ex_clusters e) \<le> 18446744073709551615 \<and>
      extents_apart (ext_end e + 1) es)"

lemma extents_apart_weaken: "extents_apart lo es \<Longrightarrow> lo' \<le> lo \<Longrightarrow> extents_apart lo' es"
  by (cases es) auto

lemma extents_apart_above: "extents_apart lo es \<Longrightarrow> v \<in> spans es \<Longrightarrow> lo \<le> v"
proof (induction es arbitrary: lo)
  case (Cons e es)
  show ?case
  proof (cases "v \<in> ext_span e")
    case True
    then show ?thesis using Cons.prems by (simp add: ext_span_def)
  next
    case False
    then have "ext_end e + 1 \<le> v" using Cons by (auto simp: spans_def)
    then show ?thesis using Cons.prems(1) lcn_le_ext_end [of e] by simp
  qed
qed (simp add: spans_def)

lemma extents_apart_take: "extents_apart lo es \<Longrightarrow> extents_apart lo (take n es)"
proof (induction es arbitrary: lo n)
  case (Cons e es)
  then show ?case by (cases n) auto
qed simp

lemma extents_apart_drop: "extents_apart lo es \<Longrightarrow> extents_apart lo (drop n es)"
proof (induction es arbitrary: lo n)
  case (Cons e es)
  show ?case
  proof (cases n)
    case (Suc k)
    have "lo \<le> ext_end e + 1" using Cons.prems lcn_le_ext_end [of e] by simp
    then show ?thesis using Cons Suc by (auto intro: extents_apart_weaken)
  qed (use Cons in simp)
qed simp

lemma spans_Cons [simp]: "spans (e # es) = ext_span e \<union> spans es"
  by (simp add: spans_def)

lemma spans_Nil [simp]: "spans [] = {}"
  by (simp add: spans_def)

lemma spans_append [simp]: "spans (xs @ ys) = spans xs \<union> spans ys"
  by (simp add: spans_def)

section \<open>Building\<close>

definition in_volume :: "u64 \<Rightarrow> nat set" where
  "in_volume cluster_count = {v. cluster_count = 0 \<or> v < unat cluster_count}"

lemma clamp_loop_result:
  "snd (clamp_loop cc es clipped kept) = kept @ snd (clamp_loop cc es False [])"
proof (induction es arbitrary: clipped kept)
  case (Cons e es)
  define R where "R = snd (clamp_loop cc es False [])"
  have ih: "snd (clamp_loop cc es c k) = k @ R" for c k unfolding R_def by (rule Cons)
  then show ?case using ih by (cases "cc = 0") (simp_all add: Let_def)
qed simp

definition clamp_one :: "u64 \<Rightarrow> extent \<Rightarrow> extent list" where
  "clamp_one cc e = snd (clamp_loop cc [e] False [])"

lemma ClampToVolume_concat: "snd (ClampToVolume es cc) = concat (map (clamp_one cc) es)"
proof -
  have "snd (clamp_loop cc (e # es) False []) = clamp_one cc e @ snd (clamp_loop cc es False [])" for e es
  proof -
    define R where "R = snd (clamp_loop cc es False [])"
    have ih: "snd (clamp_loop cc es c k) = k @ R" for c k unfolding R_def by (rule clamp_loop_result)
    show ?thesis unfolding R_def [symmetric] using ih by (cases "cc = 0") (simp_all add: clamp_one_def Let_def)
  qed
  then have "snd (clamp_loop cc es False []) = concat (map (clamp_one cc) es)"
    by (induction es) simp_all
  then show ?thesis by (simp add: ClampToVolume_def)
qed

text \<open>An extent that reaches 2^64 is cut before it, so that its end is a cluster count.\<close>

definition no_wrap :: "extent \<Rightarrow> bool" where
  "no_wrap e \<longleftrightarrow> unat (ex_lcn e) + unat (ex_clusters e) \<le> 18446744073709551615"

lemma no_wrap_end: "no_wrap e \<Longrightarrow> ext_end e = unat (ex_lcn e) + unat (ex_clusters e)"
  by (simp add: no_wrap_def ext_end_def)

lemma clamp_one_facts:
  "spans (clamp_one cc e) = ext_span e \<inter> in_volume cc \<and>
   (\<forall>c \<in> set (clamp_one cc e). no_wrap c \<and> (cc \<noteq> 0 \<longrightarrow> ex_clusters c \<noteq> 0 \<and> ext_end c \<le> unat cc))"
proof (cases "ex_clusters e = 0 \<or> cc \<noteq> 0 \<and> ex_lcn e \<ge> cc")
  case True
  then have "clamp_one cc e = []" by (auto simp: clamp_one_def Let_def)
  moreover have "ext_span e \<inter> in_volume cc = {}"
    using True by (auto simp: ext_span_def in_volume_def ext_end_def u64_nat)
  ultimately show ?thesis by simp
next
  case False
  define en where "en = (if cc \<noteq> 0 then min (EndOf e) cc else EndOf e)"
  define c where "c = \<lparr>ex_lcn = ex_lcn e, ex_clusters = en - ex_lcn e\<rparr>"
  have one: "clamp_one cc e = [c]"
    using False by (auto simp: clamp_one_def Let_def c_def en_def)
  have en: "unat en = (if cc \<noteq> 0 then min (ext_end e) (unat cc) else ext_end e)"
    by (simp add: en_def unat_min_u64)
  have below: "unat (ex_lcn e) < unat cc" if "cc \<noteq> 0" using False that by (simp add: u64_nat)
  then have le: "unat (ex_lcn e) \<le> unat en" using lcn_le_ext_end [of e] by (auto simp: en)
  then have len: "unat (ex_clusters c) = unat en - unat (ex_lcn e)"
    by (simp add: c_def unat_u64_sub u64_nat)
  have nw: "no_wrap c" using le unat_u64_bound [of en] by (simp add: no_wrap_def len) (simp add: c_def)
  have end_c: "ext_end c = unat en" using no_wrap_end [OF nw] le by (simp add: len) (simp add: c_def)
  have nonzero: "ex_clusters c \<noteq> 0" if "cc \<noteq> 0"
  proof -
    have "unat (ex_clusters e) \<noteq> 0" using False by (simp add: unat_eq_zero)
    then have "unat (ex_lcn e) < ext_end e"
      using below [OF that] unat_u64_bound [of cc] by (simp add: ext_end_def)
    then have "unat (ex_clusters c) \<noteq> 0" using below [OF that] that by (simp add: len en)
    then show ?thesis by auto
  qed
  have "ext_span c = ext_span e \<inter> in_volume cc"
    unfolding ext_span_def end_c by (auto simp: c_def in_volume_def en)
  then show ?thesis using one nw nonzero end_c by (simp add: en)
qed

lemma clamp_facts:
  "spans (snd (ClampToVolume es cc)) = spans es \<inter> in_volume cc"
  "c \<in> set (snd (ClampToVolume es cc)) \<Longrightarrow> no_wrap c \<and> (cc \<noteq> 0 \<longrightarrow> ex_clusters c \<noteq> 0 \<and> ext_end c \<le> unat cc)"
proof -
  show "spans (snd (ClampToVolume es cc)) = spans es \<inter> in_volume cc"
    unfolding ClampToVolume_concat by (induction es) (auto simp: clamp_one_facts)
  show "no_wrap c \<and> (cc \<noteq> 0 \<longrightarrow> ex_clusters c \<noteq> 0 \<and> ext_end c \<le> unat cc)"
    if "c \<in> set (snd (ClampToVolume es cc))"
    using that clamp_one_facts unfolding ClampToVolume_concat by auto
qed

text \<open>The merge as a recursion from the extent it is growing.\<close>

fun merge_from :: "extent \<Rightarrow> extent list \<Rightarrow> extent list" where
  "merge_from cur [] = [cur]"
| "merge_from cur (e # es) =
    (if ex_lcn e \<le> EndOf cur
     then merge_from (cur\<lparr>ex_clusters := max (EndOf cur) (EndOf e) - ex_lcn cur\<rparr>) es
     else cur # merge_from e es)"

lemma merge_loop_from: "merge_loop es (kept @ [cur]) = kept @ merge_from cur es"
proof (induction es arbitrary: kept cur)
  case (Cons e es)
  have "merge_loop es ((kept @ [cur]) @ [e]) = (kept @ [cur]) @ merge_from e es" by (rule Cons)
  then show ?case using Cons by simp
qed simp

lemma grown_end:
  assumes "no_wrap cur" "no_wrap e"
  defines "g \<equiv> cur\<lparr>ex_clusters := max (EndOf cur) (EndOf e) - ex_lcn cur\<rparr>"
  shows "no_wrap g" "ext_end g = max (ext_end cur) (ext_end e)" "ex_lcn g = ex_lcn cur"
proof -
  have m: "unat (max (EndOf cur) (EndOf e)) = max (ext_end cur) (ext_end e)" by (simp add: unat_max_u64)
  have "unat (ex_lcn cur) \<le> max (ext_end cur) (ext_end e)" using lcn_le_ext_end [of cur] by simp
  then have "ex_lcn cur \<le> max (EndOf cur) (EndOf e)" by (simp only: u64_nat m)
  then have "unat (ex_clusters g) = max (ext_end cur) (ext_end e) - unat (ex_lcn cur)"
    by (simp add: g_def unat_u64_sub m)
  moreover have "max (ext_end cur) (ext_end e) \<le> 18446744073709551615" by (simp add: ext_end_def)
  moreover show lcn: "ex_lcn g = ex_lcn cur" by (simp add: g_def)
  ultimately have sum: "unat (ex_lcn g) + unat (ex_clusters g) = max (ext_end cur) (ext_end e)"
    using lcn_le_ext_end [of cur] by simp
  then show "no_wrap g" by (simp add: no_wrap_def ext_end_def)
  then show "ext_end g = max (ext_end cur) (ext_end e)" using no_wrap_end sum by simp
qed

definition ext_nonempty :: "extent \<Rightarrow> bool" where
  "ext_nonempty e \<longleftrightarrow> unat (ex_lcn e) < ext_end e"

lemma merge_from_facts:
  assumes "no_wrap cur" "\<forall>e \<in> set es. no_wrap e" "sorted (map (\<lambda>e. unat (ex_lcn e)) (cur # es))"
  shows "spans (merge_from cur es) = ext_span cur \<union> spans es \<and>
    extents_apart (unat (ex_lcn cur)) (merge_from cur es) \<and>
    ((\<forall>e \<in> set (cur # es). ext_nonempty e) \<longrightarrow> (\<forall>e \<in> set (merge_from cur es). ext_nonempty e))"
  using assms
proof (induction es arbitrary: cur)
  case Nil
  then show ?case by (simp add: no_wrap_def)
next
  case (Cons e es)
  then have le: "unat (ex_lcn cur) \<le> unat (ex_lcn e)" and e: "no_wrap e" by simp_all
  show ?case
  proof (cases "ex_lcn e \<le> EndOf cur")
    case True
    define g where "g = cur\<lparr>ex_clusters := max (EndOf cur) (EndOf e) - ex_lcn cur\<rparr>"
    note g = grown_end [OF Cons.prems(1) e, folded g_def]
    have touch: "unat (ex_lcn e) \<le> ext_end cur" using True by (simp add: u64_nat)
    have span: "ext_span g = ext_span cur \<union> ext_span e"
      using le touch lcn_le_ext_end [of e] unfolding ext_span_def g(2,3) by auto
    have sorted: "sorted (map (\<lambda>e. unat (ex_lcn e)) (g # es))" using Cons.prems(3) le g(3) by simp
    have nonempty: "ext_nonempty g" if "ext_nonempty cur"
      using that unfolding ext_nonempty_def g(2,3) by simp
    have eq: "merge_from cur (e # es) = merge_from g es" using True by (simp add: g_def)
    have es: "\<forall>a \<in> set es. no_wrap a" using Cons.prems(2) by simp
    note ih = Cons.IH [OF g(1) es sorted]
    have "spans (merge_from g es) = ext_span g \<union> spans es" using ih by (elim conjE)
    then have "spans (merge_from g es) = ext_span cur \<union> spans (e # es)" unfolding span spans_Cons by (simp only: Un_assoc)
    moreover have "extents_apart (unat (ex_lcn cur)) (merge_from g es)" using ih unfolding g(3) by (elim conjE)
    moreover have "\<forall>a \<in> set (merge_from g es). ext_nonempty a" if "\<forall>a \<in> set (cur # e # es). ext_nonempty a"
      using ih nonempty that by simp
    ultimately show ?thesis unfolding eq by blast
  next
    case False
    then have gap: "ext_end cur + 1 \<le> unat (ex_lcn e)" by (simp add: u64_nat)
    have es: "\<forall>a \<in> set es. no_wrap a" "sorted (map (\<lambda>e. unat (ex_lcn e)) (e # es))"
      using Cons.prems(2,3) by simp_all
    note ih = Cons.IH [OF e es]
    have eq: "merge_from cur (e # es) = cur # merge_from e es" using False by simp
    have "spans (merge_from e es) = ext_span e \<union> spans es" using ih by (elim conjE)
    then have "spans (merge_from cur (e # es)) = ext_span cur \<union> spans (e # es)" unfolding eq spans_Cons by (simp only:)
    moreover have "extents_apart (unat (ex_lcn e)) (merge_from e es)" using ih by (elim conjE)
    then have "extents_apart (ext_end cur + 1) (merge_from e es)" using gap by (rule extents_apart_weaken)
    then have "extents_apart (unat (ex_lcn cur)) (merge_from cur (e # es))"
      unfolding eq using Cons.prems(1) by (simp add: no_wrap_def)
    moreover have "\<forall>a \<in> set (merge_from cur (e # es)). ext_nonempty a" if "\<forall>a \<in> set (cur # e # es). ext_nonempty a"
      using ih that unfolding eq by simp
    ultimately show ?thesis by blast
  qed
qed

lemma SortAndMerge_facts:
  assumes "\<forall>e \<in> set es. no_wrap e"
  shows "spans (SortAndMerge es) = spans es \<and> extents_apart 0 (SortAndMerge es) \<and>
    ((\<forall>e \<in> set es. ext_nonempty e) \<longrightarrow> (\<forall>e \<in> set (SortAndMerge es). ext_nonempty e))"
proof -
  let ?s = "sort_key (\<lambda>e. (ex_lcn e, ex_clusters e)) es"
  show ?thesis
  proof (cases ?s)
    case Nil
    then have "es = []" using length_sort [of "\<lambda>e. (ex_lcn e, ex_clusters e)" es] by simp
    then show ?thesis by (simp add: SortAndMerge_def)
  next
    case (Cons cur rest)
    have eq: "SortAndMerge es = merge_from cur rest"
      using merge_loop_from [of rest "[]" cur] Cons by (simp add: SortAndMerge_def)
    have sets: "set (cur # rest) = set es" using arg_cong [OF Cons, of set] by simp
    have "sorted (map (\<lambda>e. (ex_lcn e, ex_clusters e)) (cur # rest))"
      unfolding Cons [symmetric] by (rule sorted_sort_key)
    then have "sorted (map (\<lambda>e. unat (ex_lcn e)) (cur # rest))"
      unfolding sorted_map by (rule sorted_wrt_mono_rel [rotated]) (auto simp: u64_nat less_eq_prod_def)
    moreover have "no_wrap cur" "\<forall>e \<in> set rest. no_wrap e" using assms sets by auto
    ultimately have "spans (merge_from cur rest) = ext_span cur \<union> spans rest \<and>
        extents_apart (unat (ex_lcn cur)) (merge_from cur rest) \<and>
        ((\<forall>e \<in> set es. ext_nonempty e) \<longrightarrow> (\<forall>e \<in> set (merge_from cur rest). ext_nonempty e))"
      using merge_from_facts [of cur rest] unfolding sets by blast
    moreover have "spans es = ext_span cur \<union> spans rest"
      unfolding spans_def sets [symmetric] by simp
    ultimately show ?thesis unfolding eq using extents_apart_weaken by blast
  qed
qed

lemma Build_cases:
  assumes "Build extents cc recover ceiling = Some l"
  shows "extents_apart 0 (bc_extents l)"
    and "\<exists>full. spans full = spans (se_extents extents) \<inter> in_volume cc \<and> extents_apart 0 full \<and>
      bc_extents l = take ceiling full \<and> bc_truncated l = (ceiling < length full) \<and>
      (cc \<noteq> 0 \<longrightarrow> (\<forall>e \<in> set full. ext_nonempty e))"
proof -
  define full where "full = SortAndMerge (snd (ClampToVolume (se_extents extents) cc))"
  note clamp = clamp_facts [where es = "se_extents extents" and cc = cc]
  have "\<forall>e \<in> set (snd (ClampToVolume (se_extents extents) cc)). no_wrap e" using clamp(2) by blast
  note merged = SortAndMerge_facts [OF this, folded full_def]
  have nonempty: "\<forall>e \<in> set full. ext_nonempty e" if "cc \<noteq> 0"
  proof -
    have "ext_nonempty c" if "c \<in> set (snd (ClampToVolume (se_extents extents) cc))" for c
    proof -
      from clamp(2) [OF that] \<open>cc \<noteq> 0\<close> have "no_wrap c" "unat (ex_clusters c) \<noteq> 0" by (auto simp: unat_eq_zero)
      then show ?thesis by (simp add: ext_nonempty_def no_wrap_end)
    qed
    then show ?thesis using merged by blast
  qed
  have l: "bc_extents l = take ceiling full" "bc_truncated l = (ceiling < length full)"
    using assms by (auto simp: Build_def Let_def full_def [symmetric] split: if_splits)
  show "extents_apart 0 (bc_extents l)" unfolding l(1) using merged extents_apart_take by blast
  show "\<exists>full. spans full = spans (se_extents extents) \<inter> in_volume cc \<and> extents_apart 0 full \<and>
      bc_extents l = take ceiling full \<and> bc_truncated l = (ceiling < length full) \<and>
      (cc \<noteq> 0 \<longrightarrow> (\<forall>e \<in> set full. ext_nonempty e))"
    using merged clamp(1) l nonempty by (intro exI [of _ full]) simp
qed

section \<open>Queries\<close>

lemma partition_point_result:
  assumes "\<forall>i j. first \<le> i \<and> i < j \<and> j < first + len \<longrightarrow> P (xs ! j) \<longrightarrow> P (xs ! i)"
  shows "first \<le> partition_point P xs first len \<and> partition_point P xs first len \<le> first + len \<and>
    (\<forall>i. first \<le> i \<and> i < partition_point P xs first len \<longrightarrow> P (xs ! i)) \<and>
    (\<forall>i. partition_point P xs first len \<le> i \<and> i < first + len \<longrightarrow> \<not> P (xs ! i))"
  using assms
proof (induction P xs first len rule: partition_point.induct)
  case (1 P xs first len)
  show ?case
  proof (cases "len = 0")
    case True
    then have "partition_point P xs first len = first" by (subst partition_point.simps) simp
    with True show ?thesis by auto
  next
    case False
    define mid where "mid = first + len div 2"
    have mid: "first \<le> mid" "mid < first + len" using False by (simp_all add: mid_def)
    show ?thesis
    proof (cases "P (xs ! mid)")
      case True
      define p where "p = partition_point P xs (mid + 1) (len - (len div 2 + 1))"
      have eq: "partition_point P xs first len = p"
        using False True by (subst partition_point.simps) (simp add: mid_def p_def Let_def)
      have up: "mid + 1 + (len - (len div 2 + 1)) = first + len" using mid by (simp add: mid_def)
      have above: "mid + 1 \<le> p \<and> p \<le> first + len \<and> (\<forall>i. mid + 1 \<le> i \<and> i < p \<longrightarrow> P (xs ! i)) \<and>
          (\<forall>i. p \<le> i \<and> i < first + len \<longrightarrow> \<not> P (xs ! i))"
        unfolding up [symmetric] p_def mid_def
      proof (rule "1.IH"(1) [OF False refl], goal_cases)
        case 1
        then show ?case using True by (simp add: mid_def)
      next
        case 2
        have "first \<le> i \<and> i < j \<and> j < first + len"
          if "first + len div 2 + 1 \<le> i \<and> i < j \<and> j < first + len div 2 + 1 + (len - (len div 2 + 1))" for i j
          using that up mid_def by linarith
        then show ?case using "1.prems" by blast
      qed
      have below: "P (xs ! i)" if "first \<le> i" "i \<le> mid" for i
        using "1.prems" [rule_format, of i mid] True mid that by (cases "i = mid") auto
      have "P (xs ! i)" if "first \<le> i" "i < p" for i
        using above below [OF that(1)] that(2) by (cases "i \<le> mid") simp_all
      then show ?thesis unfolding eq using above mid by simp
    next
      case P: False
      define p where "p = partition_point P xs first (len div 2)"
      have eq: "partition_point P xs first len = p"
        using False P by (subst partition_point.simps) (simp add: mid_def p_def Let_def)
      have below: "first \<le> p \<and> p \<le> mid \<and> (\<forall>i. first \<le> i \<and> i < p \<longrightarrow> P (xs ! i)) \<and>
          (\<forall>i. p \<le> i \<and> i < mid \<longrightarrow> \<not> P (xs ! i))"
        unfolding p_def mid_def
      proof (rule "1.IH"(2) [OF False refl], goal_cases)
        case 1
        then show ?case using P by (simp add: mid_def)
      next
        case 2
        have "first \<le> i \<and> i < j \<and> j < first + len" if "first \<le> i \<and> i < j \<and> j < first + len div 2" for i j
          using that mid by (simp add: mid_def)
        then show ?case using "1.prems" by blast
      qed
      have above: "\<not> P (xs ! i)" if "mid \<le> i" "i < first + len" for i
        using "1.prems" [rule_format, of mid i] P mid that by (cases "i = mid") auto
      have "\<not> P (xs ! i)" if "p \<le> i" "i < first + len" for i
        using below above [OF _ that(2)] that(1) by (cases "mid \<le> i") simp_all
      then show ?thesis unfolding eq using below mid by simp
    qed
  qed
qed

lemma extents_apart_nth:
  "extents_apart lo es \<Longrightarrow> i < j \<Longrightarrow> j < length es \<Longrightarrow> ext_end (es ! i) < unat (ex_lcn (es ! j))"
proof (induction es arbitrary: lo i j)
  case (Cons e es)
  then obtain k where j: "j = Suc k" by (cases j) auto
  show ?case
  proof (cases i)
    case 0
    have "ext_end e < unat (ex_lcn (es ! m))" if "m < length es" "extents_apart (ext_end e + 1) es" for m
      using that
    proof (induction es arbitrary: m)
      case (Cons a es)
      have "ext_end e + 1 \<le> ext_end a + 1" using Cons.prems(2) lcn_le_ext_end [of a] by simp
      then have "extents_apart (ext_end e + 1) es" using Cons.prems(2) by (auto intro: extents_apart_weaken)
      with Cons show ?case by (cases m) auto
    qed simp
    then show ?thesis using Cons.prems 0 j by simp
  next
    case (Suc m)
    then show ?thesis using Cons j by auto
  qed
qed simp

lemma apart_card:
  "extents_apart lo es \<Longrightarrow> finite R \<Longrightarrow> (\<Sum>e \<leftarrow> es. card (ext_span e \<inter> R)) = card (spans es \<inter> R)"
proof (induction es arbitrary: lo)
  case (Cons e es)
  have "ext_span e \<inter> spans es = {}"
    using Cons.prems(1) extents_apart_above [of "ext_end e + 1" es] by (fastforce simp: ext_span_def)
  then have "card ((ext_span e \<inter> R) \<union> (spans es \<inter> R)) = card (ext_span e \<inter> R) + card (spans es \<inter> R)"
    using Cons.prems(2) by (intro card_Un_disjoint) auto
  moreover have "spans (e # es) \<inter> R = (ext_span e \<inter> R) \<union> (spans es \<inter> R)" by auto
  moreover have "(\<Sum>e \<leftarrow> es. card (ext_span e \<inter> R)) = card (spans es \<inter> R)"
    using Cons.prems by (intro Cons.IH [of "ext_end e + 1"]) simp_all
  ultimately show ?case by simp
qed simp

lemma extents_apart_no_wrap: "extents_apart lo es \<Longrightarrow> e \<in> set es \<Longrightarrow> no_wrap e"
  by (induction es arbitrary: lo) (auto simp: no_wrap_def)

text \<open>What the binary searches of Overlapping() find.\<close>

lemma Overlapping_window:
  assumes apart: "extents_apart 0 (bc_extents l)" and lt: "first < last_cluster"
  shows "\<exists>b n. Overlapping l first last_cluster = take n (drop b (bc_extents l)) \<and> b + n \<le> length (bc_extents l) \<and>
    (\<forall>i < b. ext_end (bc_extents l ! i) \<le> unat first) \<and>
    (\<forall>i. b \<le> i \<and> i < b + n \<longrightarrow> unat first < ext_end (bc_extents l ! i) \<and> unat (ex_lcn (bc_extents l ! i)) < unat last_cluster) \<and>
    (\<forall>i. b + n \<le> i \<and> i < length (bc_extents l) \<longrightarrow> unat last_cluster \<le> unat (ex_lcn (bc_extents l ! i)))"
proof -
  define es where "es = bc_extents l"
  define b where "b = partition_point (\<lambda>e. EndOf e \<le> first) es 0 (length es)"
  define en where "en = partition_point (\<lambda>e. ex_lcn e < last_cluster) es b (length es - b)"
  note step = extents_apart_nth [OF apart, folded es_def]
  have "\<forall>i j. 0 \<le> i \<and> i < j \<and> j < 0 + length es \<longrightarrow> EndOf (es ! j) \<le> first \<longrightarrow> EndOf (es ! i) \<le> first"
  proof (intro allI impI)
    fix i j
    assume "0 \<le> i \<and> i < j \<and> j < 0 + length es" "EndOf (es ! j) \<le> first"
    then show "EndOf (es ! i) \<le> first"
      using step [of i j] lcn_le_ext_end [of "es ! j"] by (simp add: u64_nat)
  qed
  note bp = partition_point_result [OF this, folded b_def]
  have b: "b \<le> length es" "\<And>i. i < b \<Longrightarrow> ext_end (es ! i) \<le> unat first"
    "\<And>i. b \<le> i \<Longrightarrow> i < length es \<Longrightarrow> unat first < ext_end (es ! i)"
    using bp by (simp_all add: u64_nat not_le)
  have "\<forall>i j. b \<le> i \<and> i < j \<and> j < b + (length es - b) \<longrightarrow> ex_lcn (es ! j) < last_cluster \<longrightarrow> ex_lcn (es ! i) < last_cluster"
  proof (intro allI impI)
    fix i j
    assume ij: "b \<le> i \<and> i < j \<and> j < b + (length es - b)" and "ex_lcn (es ! j) < last_cluster"
    then have "unat (ex_lcn (es ! j)) < unat last_cluster" by (simp add: u64_nat)
    moreover have "ext_end (es ! i) < unat (ex_lcn (es ! j))" by (rule step) (use ij in linarith)+
    ultimately show "ex_lcn (es ! i) < last_cluster"
      using lcn_le_ext_end [of "es ! i"] unfolding u64_nat by linarith
  qed
  note ep = partition_point_result [OF this, folded en_def]
  have en: "b \<le> en" "en \<le> length es" "\<And>i. b \<le> i \<Longrightarrow> i < en \<Longrightarrow> unat (ex_lcn (es ! i)) < unat last_cluster"
    "\<And>i. en \<le> i \<Longrightarrow> i < length es \<Longrightarrow> unat last_cluster \<le> unat (ex_lcn (es ! i))"
    using ep b(1) by (simp_all add: u64_nat not_less)
  have "Overlapping l first last_cluster = take (en - b) (drop b es)"
    using lt by (simp add: Overlapping_def Let_def es_def b_def en_def)
  then show ?thesis
    unfolding es_def [symmetric]
    by (intro exI [of _ b] exI [of _ "en - b"]) (use b en in auto)
qed

section \<open>The list as a service\<close>

text \<open>
  What the cluster bitmap relies on when it asks a list for the bad extents of a range: they come
  in cluster order, apart, each meeting the range, and over the range they are exactly the bad
  clusters.
\<close>

locale bad_source =
  fixes overlapping :: "'l \<Rightarrow> u64 \<Rightarrow> u64 \<Rightarrow> extent list"
    and bad :: "'l \<Rightarrow> nat set"
    and usable :: "'l \<Rightarrow> bool"
  assumes apart: "usable l \<Longrightarrow> extents_apart 0 (overlapping l a b)"
    and meets: "usable l \<Longrightarrow> e \<in> set (overlapping l a b) \<Longrightarrow>
      unat a < unat b \<and> unat a < ext_end e \<and> unat (ex_lcn e) < unat b"
    and exact: "usable l \<Longrightarrow> spans (overlapping l a b) \<inter> {unat a..<unat b} = bad l \<inter> {unat a..<unat b}"
begin

lemma cut_ends:
  assumes "usable l" and "e \<in> set (overlapping l a b)"
  shows "max (ex_lcn e) a \<le> min (EndOf e) b"
    and "ext_span e \<inter> {unat a..<unat b} = {unat (max (ex_lcn e) a)..<unat (min (EndOf e) b)}"
proof -
  from meets [OF assms] lcn_le_ext_end [of e] show "max (ex_lcn e) a \<le> min (EndOf e) b"
    by (simp add: u64_nat unat_min_u64 unat_max_u64)
  show "ext_span e \<inter> {unat a..<unat b} = {unat (max (ex_lcn e) a)..<unat (min (EndOf e) b)}"
    by (auto simp: ext_span_def unat_min_u64 unat_max_u64)
qed

lemma cut_length:
  assumes "usable l" and "e \<in> set (overlapping l a b)"
  shows "unat (min (EndOf e) b - max (ex_lcn e) a) = card (ext_span e \<inter> {unat a..<unat b})"
  using cut_ends [OF assms] by (simp add: unat_u64_sub)

lemma cut_lengths_sum:
  assumes "usable l"
  shows "(\<Sum>e \<leftarrow> overlapping l a b. unat (min (EndOf e) b - max (ex_lcn e) a)) = card (bad l \<inter> {unat a..<unat b})"
proof -
  have "(\<Sum>e \<leftarrow> overlapping l a b. unat (min (EndOf e) b - max (ex_lcn e) a)) =
      (\<Sum>e \<leftarrow> overlapping l a b. card (ext_span e \<inter> {unat a..<unat b}))"
    using cut_length [OF assms] by (intro arg_cong [where f = sum_list] map_cong) auto
  also have "\<dots> = card (spans (overlapping l a b) \<inter> {unat a..<unat b})"
    by (rule apart_card [OF apart [OF assms]]) simp
  finally show ?thesis unfolding exact [OF assms] .
qed

end

text \<open>A built list provides it.\<close>

definition list_usable :: "bad_clusters \<Rightarrow> bool" where
  "list_usable l \<longleftrightarrow> extents_apart 0 (bc_extents l)"

definition bad_set :: "bad_clusters \<Rightarrow> nat set" where
  "bad_set l = spans (bc_extents l)"

interpretation bl: bad_source Overlapping bad_set list_usable
proof
  fix l :: bad_clusters and a b :: u64
  assume "list_usable l"
  then have apart: "extents_apart 0 (bc_extents l)" by (simp add: list_usable_def)
  show "extents_apart 0 (Overlapping l a b)"
    using extents_apart_take [OF extents_apart_drop [OF apart]] by (simp add: Overlapping_def Let_def)
  show "spans (Overlapping l a b) \<inter> {unat a..<unat b} = bad_set l \<inter> {unat a..<unat b}"
  proof (cases "a < b")
    case False
    then show ?thesis by (simp add: u64_nat)
  next
    case True
    from Overlapping_window [OF apart this] obtain i n where w: "Overlapping l a b = take n (drop i (bc_extents l))"
      "i + n \<le> length (bc_extents l)" "\<forall>k < i. ext_end (bc_extents l ! k) \<le> unat a"
      "\<forall>k. i + n \<le> k \<and> k < length (bc_extents l) \<longrightarrow> unat b \<le> unat (ex_lcn (bc_extents l ! k))" by blast
    have "v \<in> spans (Overlapping l a b)" if v: "v \<in> spans (bc_extents l)" "unat a \<le> v" "v < unat b" for v
    proof -
      from v(1) obtain k where k: "k < length (bc_extents l)" "v \<in> ext_span (bc_extents l ! k)"
        by (auto simp: spans_def in_set_conv_nth)
      have "i \<le> k" using w(3) k v(2) by (fastforce simp: ext_span_def not_le [symmetric])
      moreover have "k < i + n" using w(4) k v(3) by (fastforce simp: ext_span_def not_le [symmetric])
      ultimately have "bc_extents l ! k \<in> set (Overlapping l a b)"
        unfolding w(1) using w(2) by (auto simp: in_set_conv_nth intro!: exI [of _ "k - i"])
      with k(2) show ?thesis by (auto simp: spans_def)
    qed
    moreover have "spans (Overlapping l a b) \<subseteq> spans (bc_extents l)"
      unfolding w(1) spans_def by (auto dest: in_set_takeD in_set_dropD)
    ultimately show ?thesis by (auto simp: bad_set_def)
  qed
  show "unat a < unat b \<and> unat a < ext_end e \<and> unat (ex_lcn e) < unat b" if e: "e \<in> set (Overlapping l a b)" for e
  proof -
    have lt: "a < b" using e by (cases "b \<le> a") (auto simp: Overlapping_def)
    from Overlapping_window [OF apart this] obtain i n where w: "Overlapping l a b = take n (drop i (bc_extents l))"
      "i + n \<le> length (bc_extents l)"
      "\<forall>k. i \<le> k \<and> k < i + n \<longrightarrow> unat a < ext_end (bc_extents l ! k) \<and> unat (ex_lcn (bc_extents l ! k)) < unat b" by blast
    from e obtain m where "m < n" "e = bc_extents l ! (i + m)" unfolding w(1) using w(2) by (auto simp: in_set_conv_nth)
    with w(3) lt show ?thesis by (auto simp: u64_nat)
  qed
qed

lemma fold_add_u64:
  "unat c + (\<Sum>x \<leftarrow> xs. unat (f x)) < 2 ^ 64 \<Longrightarrow>
     unat (fold (\<lambda>x count. count + f x) xs c) = unat c + (\<Sum>x \<leftarrow> xs. unat (f x :: u64))"
proof (induction xs arbitrary: c)
  case (Cons x xs)
  then have "unat (c + f x) = unat c + unat (f x)" by (intro unat_u64_add) simp
  with Cons show ?case by simp
qed simp

lemma CountIn_card:
  assumes "list_usable l"
  shows "unat (CountIn l a b) = card (bad_set l \<inter> {unat a..<unat b})"
proof -
  have "card (bad_set l \<inter> {unat a..<unat b}) \<le> card {unat a..<unat b}" by (rule card_mono) auto
  then have "card (bad_set l \<inter> {unat a..<unat b}) < 2 ^ 64" using unat_u64_bound [of b] by simp
  then show ?thesis
    using fold_add_u64 [of 0 "\<lambda>e. min (EndOf e) b - max (ex_lcn e) a" "Overlapping l a b"]
      bl.cut_lengths_sum [OF assms, where a = a and b = b] by (simp add: CountIn_def)
qed

lemma Build_usable: "Build extents cc recover ceiling = Some l \<Longrightarrow> list_usable l"
  using Build_cases(1) by (simp add: list_usable_def)

lemma take_spans_bound:
  assumes "extents_apart lo full" "n < length full"
  shows "spans (take n full) = spans full \<inter> {..<unat (ex_lcn (full ! n))}"
proof -
  let ?m = "unat (ex_lcn (full ! n))"
  have split: "spans full = spans (take n full) \<union> spans (drop n full)"
    using spans_append [of "take n full" "drop n full"] by simp
  have "v < ?m" if "v \<in> spans (take n full)" for v
  proof -
    from that obtain i where i: "i < n" "v \<in> ext_span (full ! i)" using assms(2) by (auto simp: spans_def in_set_conv_nth)
    with extents_apart_nth [OF assms(1) i(1) assms(2)] show ?thesis by (simp add: ext_span_def)
  qed
  moreover have "?m \<le> v" if "v \<in> spans (drop n full)" for v
  proof -
    from that obtain i where i: "n \<le> i" "i < length full" "v \<in> ext_span (full ! i)"
      using assms(2) by (auto simp: spans_def in_set_conv_nth) (metis add.commute le_add2 less_diff_conv)
    show ?thesis
    proof (cases "n = i")
      case True
      then show ?thesis using i(3) by (simp add: ext_span_def)
    next
      case False
      with i(1) have "n < i" by simp
      from extents_apart_nth [OF assms(1) this i(2)] i(3) lcn_le_ext_end [of "full ! n"]
      show ?thesis by (simp add: ext_span_def)
    qed
  qed
  ultimately show ?thesis unfolding split by fastforce
qed

text \<open>
  C38. A built list holds extents in cluster order, none touching the next, none reaching 2^64,
  and none empty when the cluster count is known. Its clusters are exactly the ones the stream's
  extents name inside the volume; a truncated list holds the ceiling's number of extents and
  exactly the named clusters below some cluster.
\<close>

theorem build_exact:
  assumes "Build extents cluster_count recover ceiling = Some l"
  shows "extents_apart 0 (bc_extents l) \<and>
    (cluster_count \<noteq> 0 \<longrightarrow> (\<forall>e \<in> set (bc_extents l). ext_nonempty e)) \<and>
    (let named = spans (se_extents extents) \<inter> in_volume cluster_count
     in if bc_truncated l
        then recover \<and> length (bc_extents l) = ceiling \<and> (\<exists>below. bad_set l = named \<inter> {..<below})
        else length (bc_extents l) \<le> ceiling \<and> bad_set l = named)"
proof -
  from Build_cases(2) [OF assms] obtain full where full:
    "spans full = spans (se_extents extents) \<inter> in_volume cluster_count" "extents_apart 0 full"
    "bc_extents l = take ceiling full" "bc_truncated l = (ceiling < length full)"
    "cluster_count \<noteq> 0 \<longrightarrow> (\<forall>e \<in> set full. ext_nonempty e)" by blast
  have rec: "recover" if "bc_truncated l"
    using assms that by (auto simp: Build_def Let_def split: if_splits)
  have "bad_set l = spans full \<inter> {..<unat (ex_lcn (full ! ceiling))}" if "ceiling < length full"
    using take_spans_bound [OF full(2) that] full(3) by (simp add: bad_set_def)
  moreover have "bad_set l = spans full" if "\<not> ceiling < length full" using that full(3) by (simp add: bad_set_def)
  moreover have "\<forall>e \<in> set (bc_extents l). ext_nonempty e" if "cluster_count \<noteq> 0"
    using full(5) that unfolding full(3) by (auto dest: in_set_takeD)
  ultimately show ?thesis
    using Build_cases(1) [OF assms] rec full(3,4) unfolding Let_def full(1) by auto
qed

text \<open>
  CountIn() on a built list, for any range: the number of bad clusters of the range, with no
  64-bit sum wrapping on the way.
\<close>

theorem count_in_exact:
  assumes "Build extents cluster_count recover ceiling = Some l"
  shows "unat (CountIn l first last_cluster) = card (bad_set l \<inter> {unat first..<unat last_cluster})"
  by (rule CountIn_card [OF Build_usable [OF assms]])

section \<open>A list the theorems apply to\<close>

definition sample_stream :: stream_extents where
  "sample_stream = \<lparr>se_extents = [\<lparr>ex_lcn = 8, ex_clusters = 4\<rparr>, \<lparr>ex_lcn = 2, ex_clusters = 3\<rparr>,
     \<lparr>ex_lcn = 5, ex_clusters = 1\<rparr>, \<lparr>ex_lcn = 0xFFFFFFFFFFFFFFFF, ex_clusters = 9\<rparr>], se_complete = True\<rparr>"

definition sample_list :: bad_clusters where
  "sample_list = \<lparr>bc_extents = [\<lparr>ex_lcn = 2, ex_clusters = 4\<rparr>, \<lparr>ex_lcn = 8, ex_clusters = 2\<rparr>], bc_truncated = False\<rparr>"

lemma build_sample: "Build sample_stream 10 False 5 = Some sample_list"
  by (simp add: Build_def sample_stream_def ClampToVolume_def EndOf_def SortAndMerge_def sample_list_def Let_def
      min_def max_def)

lemma build_exact_witness:
  "extents_apart 0 (bc_extents sample_list) \<and> list_all ext_nonempty (bc_extents sample_list) \<and>
   bad_set sample_list = spans (se_extents sample_stream) \<inter> in_volume 10"
  using build_exact [OF build_sample] by (simp add: list_all_iff sample_list_def Let_def)

lemma count_in_exact_witness: "unat (CountIn sample_list 3 9) = card (bad_set sample_list \<inter> {3..<9})"
  using count_in_exact [OF build_sample, of 3 9] by simp

end
