(* ===== verification/ClusterBitmap.thy ===== *)
theory ClusterBitmap
  imports BadClusters
begin

text \<open>
  The cluster bitmap of a volume: src/alloc/cluster-bitmap.cpp, class ClusterBitmap. The reader
  is a parameter: asked for \<open>n\<close> bytes at an offset, it answers the count it reports (None when it
  fails or throws) and the \<open>n\<close> bytes of the buffer it was handed. Bit positions are 64-bit words
  as in the source; positions inside one window are natural numbers. A read past a window's
  bytes, or a division by a zero window, is an error value. The high-water mark kept for tests is
  not modelled.
\<close>

section \<open>Model\<close>

datatype cluster_state = Allocated | Free | OutOfRange | Unknown | Bad

datatype bitmap_error = BitmapOutOfBounds | BitmapDivisionByZero

type_synonym bitmap_reader = "u64 \<Rightarrow> nat \<Rightarrow> u64 option \<times> byte list"

record bitmap_window =
  w_index :: u64
  w_bytes :: "byte list"
  w_valid :: nat

record cluster_bitmap =
  cb_data_size :: u64
  cb_data_bits :: u64
  cb_limit :: u64
  cb_window_bytes :: u64
  cb_shorter :: bool
  cb_have_window :: bool
  cb_window :: bitmap_window
  cb_retained :: "u64 \<Rightarrow> bitmap_window option"
  cb_retained_bytes :: u64
  cb_retain_bytes :: u64
  cb_failed :: "u64 list"
  cb_bad :: "bad_clusters option"
  cb_bad_with_clear_bit :: bool

record counts =
  n_allocated :: u64
  n_free :: u64
  n_unknown :: u64
  n_bad :: u64
  n_judged :: u64

text \<open>JudgedBits: the window whose bits were read (None for a null pointer), its base and the stop.\<close>

record judged_bits =
  jb_window :: "bitmap_window option"
  jb_base :: u64
  jb_stop :: u64

definition bits_per_byte :: u64 where "bits_per_byte = 8"
definition max_failed_windows :: nat where "max_failed_windows = 4096"
definition default_window_bytes :: u64 where "default_window_bytes = 1048576"

definition BitsOf :: "u64 \<Rightarrow> u64" where
  "BitsOf data_size = (if data_size > u64_max div bits_per_byte then u64_max else data_size * bits_per_byte)"

definition new_cluster_bitmap :: "u64 \<Rightarrow> u64 \<Rightarrow> u64 \<Rightarrow> cluster_bitmap" where
  "new_cluster_bitmap data_size cluster_count window_bytes =
     \<lparr>cb_data_size = data_size, cb_data_bits = BitsOf data_size,
      cb_limit = (if cluster_count \<noteq> 0 then cluster_count else BitsOf data_size),
      cb_window_bytes = (if window_bytes \<noteq> 0 then window_bytes else default_window_bytes),
      cb_shorter = (cluster_count \<noteq> 0 \<and> BitsOf data_size < cluster_count),
      cb_have_window = False, cb_window = \<lparr>w_index = 0, w_bytes = [], w_valid = 0\<rparr>,
      cb_retained = Map.empty, cb_retained_bytes = 0, cb_retain_bytes = 0, cb_failed = [],
      cb_bad = None, cb_bad_with_clear_bit = False\<rparr>"

definition SetBadList :: "bad_clusters option \<Rightarrow> cluster_bitmap \<Rightarrow> cluster_bitmap" where
  "SetBadList l s = s\<lparr>cb_bad := l\<rparr>"

definition popcount :: "u32 \<Rightarrow> nat" where
  "popcount w = length (filter (bit w) [0..<32])"

text \<open>The loop of CountSet(): the bits of one byte at a time, through a mask.\<close>

function count_set_loop :: "byte list \<Rightarrow> nat \<Rightarrow> nat \<Rightarrow> u64 \<Rightarrow> bitmap_error + u64" where
  "count_set_loop bytes bit_pos last_pos set_bits =
    (if bit_pos < last_pos then
       let byte_index = bit_pos div 8;
           from_bit = bit_pos mod 8;
           byte_end = (byte_index + 1) * 8;
           to_bit = min last_pos byte_end - byte_index * 8;
           mask = (push_bit to_bit 1 - 1) AND NOT (push_bit from_bit 1 - 1) :: u32
       in if byte_index \<ge> length bytes then Inl BitmapOutOfBounds
          else count_set_loop bytes (min last_pos byte_end) last_pos
                 (set_bits + of_nat (popcount (ucast (bytes ! byte_index) AND mask)))
     else Inr set_bits)"
  by pat_completeness auto
termination
proof (relation "measure (\<lambda>(bytes, b, l, s). l - b)", goal_cases)
  case (2 bytes b l s x xa xb xc xd)
  have "b < (b div 8 + 1) * 8" by (simp add: dividend_less_div_times)
  then have up: "b < min l ((b div 8 + 1) * 8)" using 2 by simp
  have "min l ((b div 8 + 1) * 8) \<le> l" by simp
  with up have "l - min l ((b div 8 + 1) * 8) < l - b" by linarith
  then show ?case using 2 by simp
qed simp

declare count_set_loop.simps [simp del]

definition CountSet :: "byte list \<Rightarrow> nat \<Rightarrow> nat \<Rightarrow> bitmap_error + u64" where
  "CountSet bytes first_pos last_pos = count_set_loop bytes first_pos last_pos 0"

definition BytesHeld :: "cluster_bitmap \<Rightarrow> u64" where
  "BytesHeld s = cb_retained_bytes s + (if cb_have_window s then of_nat (length (w_bytes (cb_window s))) else 0)"

definition ReadWindow :: "bitmap_reader \<Rightarrow> u64 \<Rightarrow> cluster_bitmap \<Rightarrow> bitmap_window \<times> cluster_bitmap" where
  "ReadWindow reader index s =
    (let offset = index * cb_window_bytes s;
         len = min (cb_window_bytes s) (cb_data_size s - offset);
         answer = reader offset (unat len);
         valid = (case fst answer of None \<Rightarrow> 0 | Some n \<Rightarrow> unat (min n len));
         window = \<lparr>w_index = index, w_bytes = snd answer, w_valid = valid\<rparr>;
         s = s\<lparr>cb_have_window := True, cb_window := window,
               cb_failed := (if valid < unat len then List.insert index (cb_failed s) else cb_failed s)\<rparr>
     in if cb_retained_bytes s + len > cb_retain_bytes s then (window, s)
        else
          let retained = (if cb_retained s index = None then (cb_retained s)(index \<mapsto> window) else cb_retained s)
          in (the (retained index),
              s\<lparr>cb_retained_bytes := cb_retained_bytes s + len, cb_have_window := False, cb_retained := retained\<rparr>))"

definition Load :: "bitmap_reader \<Rightarrow> u64 \<Rightarrow> cluster_bitmap \<Rightarrow> bitmap_window option \<times> cluster_bitmap" where
  "Load reader index s =
    (case cb_retained s index of
       Some kept \<Rightarrow> (Some kept, s)
     | None \<Rightarrow>
         if cb_have_window s \<and> w_index (cb_window s) = index then (Some (cb_window s), s)
         else if index \<in> set (cb_failed s) \<or> length (cb_failed s) \<ge> max_failed_windows then (None, s)
         else let (window, s) = ReadWindow reader index s in (Some window, s))"

text \<open>One extent of the loop of ApplyBad().\<close>

definition apply_extent ::
  "u64 \<Rightarrow> u64 \<Rightarrow> judged_bits \<Rightarrow> extent \<Rightarrow> counts \<times> bool \<Rightarrow> bitmap_error + counts \<times> bool" where
  "apply_extent first_bit last_bit judged e cf =
    (let c = fst cf;
         clear_flag = snd cf;
         from_bit = max (ex_lcn e) first_bit;
         to_bit = min (EndOf e) last_bit;
         judged_to = min to_bit (jb_stop judged)
     in bind_r
          (case jb_window judged of
             Some window \<Rightarrow>
               if judged_to > from_bit then
                 bind_r (CountSet (w_bytes window) (unat (from_bit - jb_base judged)) (unat (judged_to - jb_base judged)))
                   (\<lambda>set_bits.
                     let clear = (judged_to - from_bit) - set_bits
                     in Inr (c\<lparr>n_allocated := n_allocated c - set_bits, n_free := n_free c - clear,
                               n_bad := n_bad c + (judged_to - from_bit)\<rparr>,
                             clear_flag \<or> clear \<noteq> 0, judged_to))
               else Inr (c, clear_flag, from_bit)
           | None \<Rightarrow> Inr (c, clear_flag, from_bit))
          (\<lambda>(c, clear_flag, unjudged_from).
            if to_bit > unjudged_from
            then Inr (c\<lparr>n_unknown := n_unknown c - (to_bit - unjudged_from), n_bad := n_bad c + (to_bit - unjudged_from)\<rparr>,
                      clear_flag)
            else Inr (c, clear_flag)))"

fun apply_extents ::
  "u64 \<Rightarrow> u64 \<Rightarrow> judged_bits \<Rightarrow> extent list \<Rightarrow> counts \<times> bool \<Rightarrow> bitmap_error + counts \<times> bool" where
  "apply_extents first_bit last_bit judged [] cf = Inr cf"
| "apply_extents first_bit last_bit judged (e # es) cf =
     bind_r (apply_extent first_bit last_bit judged e cf) (\<lambda>cf. apply_extents first_bit last_bit judged es cf)"

definition ApplyBad ::
  "u64 \<Rightarrow> u64 \<Rightarrow> judged_bits \<Rightarrow> counts \<Rightarrow> cluster_bitmap \<Rightarrow> bitmap_error + counts \<times> cluster_bitmap" where
  "ApplyBad first_bit last_bit judged c s =
    (case cb_bad s of
       None \<Rightarrow> Inr (c, s)
     | Some l \<Rightarrow>
         bind_r (apply_extents first_bit last_bit judged (Overlapping l first_bit last_bit) (c, cb_bad_with_clear_bit s))
           (\<lambda>(c, clear_flag). Inr (c, s\<lparr>cb_bad_with_clear_bit := clear_flag\<rparr>)))"

text \<open>Where the window of a bit stops, within the range asked for.\<close>

definition window_stop :: "u64 \<Rightarrow> u64 \<Rightarrow> u64 \<Rightarrow> u64" where
  "window_stop window_bits bit_pos last_bit =
    (let base = bit_pos div window_bits * window_bits
     in if window_bits > u64_max - base then last_bit else min last_bit (base + window_bits))"

text \<open>The bits of one window of the loop of Count(), up to its stop.\<close>

definition count_window ::
  "bitmap_reader \<Rightarrow> u64 \<Rightarrow> u64 \<Rightarrow> counts \<Rightarrow> cluster_bitmap \<Rightarrow> bitmap_error + counts \<times> cluster_bitmap" where
  "count_window reader bit_pos stop c s =
    (let window_bits = cb_window_bytes s * bits_per_byte;
         index = bit_pos div window_bits;
         base = index * window_bits;
         known_stop = min stop (cb_data_bits s);
         (window, s) = (if bit_pos < known_stop then Load reader index s else (None, s));
         judged_stop = (case window of None \<Rightarrow> bit_pos
                        | Some w \<Rightarrow> min known_stop (base + of_nat (w_valid w) * bits_per_byte))
     in bind_r
          (case window of
             Some w \<Rightarrow>
               if judged_stop > bit_pos then
                 bind_r (CountSet (w_bytes w) (unat (bit_pos - base)) (unat (judged_stop - base))) (\<lambda>set_bits.
                   Inr (c\<lparr>n_allocated := n_allocated c + set_bits,
                          n_free := n_free c + ((judged_stop - bit_pos) - set_bits),
                          n_judged := n_judged c + (judged_stop - bit_pos)\<rparr>))
               else Inr c
           | None \<Rightarrow> Inr c)
          (\<lambda>c. ApplyBad bit_pos stop
                 \<lparr>jb_window = (if judged_stop > bit_pos then window else None), jb_base = base, jb_stop = judged_stop\<rparr>
                 (c\<lparr>n_unknown := n_unknown c + (stop - max bit_pos judged_stop)\<rparr>) s))"

text \<open>The rest of a range, none of it judged.\<close>

definition count_unjudged :: "u64 \<Rightarrow> u64 \<Rightarrow> counts \<Rightarrow> cluster_bitmap \<Rightarrow> bitmap_error + counts \<times> cluster_bitmap" where
  "count_unjudged bit_pos last_bit c s =
     ApplyBad bit_pos last_bit \<lparr>jb_window = None, jb_base = 0, jb_stop = bit_pos\<rparr>
       (c\<lparr>n_unknown := n_unknown c + (last_bit - bit_pos)\<rparr>) s"

lemma window_base_unat:
  "unat (bit_pos div window_bits * window_bits :: u64) = unat bit_pos div unat window_bits * unat window_bits"
proof -
  have "unat bit_pos div unat window_bits * unat window_bits \<le> unat bit_pos" by simp
  then have "unat (bit_pos div window_bits) * unat window_bits < 18446744073709551616"
    using unat_u64_bound [of bit_pos] unfolding unat_div by linarith
  then show ?thesis by (simp add: unat_u64_mult unat_div)
qed

lemma window_stop_unat:
  "unat (window_stop window_bits bit_pos last_bit) =
     min (unat last_bit) (unat bit_pos div unat window_bits * unat window_bits + unat window_bits)"
proof -
  define base where "base = bit_pos div window_bits * window_bits"
  have base: "unat base = unat bit_pos div unat window_bits * unat window_bits"
    unfolding base_def by (rule window_base_unat)
  have room: "unat (u64_max - base) = 18446744073709551615 - unat base" by (subst unat_u64_sub) simp_all
  show ?thesis
  proof (cases "window_bits > u64_max - base")
    case True
    then have "18446744073709551615 - unat base < unat window_bits" by (simp only: u64_nat room)
    then show ?thesis using True unat_u64_bound [of last_bit] base
      by (simp add: window_stop_def Let_def base_def [symmetric])
  next
    case False
    then have "unat window_bits \<le> 18446744073709551615 - unat base" by (simp only: u64_nat room not_less)
    then have "unat base + unat window_bits < 18446744073709551616" using unat_u64_bound [of base] by linarith
    then have "unat (base + window_bits) = unat base + unat window_bits" by (rule unat_u64_add)
    then show ?thesis using False base
      by (simp add: window_stop_def Let_def base_def [symmetric] unat_min_u64)
  qed
qed

lemma window_stop_bounds:
  assumes "window_bits \<noteq> 0" "bit_pos < last_bit"
  shows "unat bit_pos < unat (window_stop window_bits bit_pos last_bit)"
    and "unat (window_stop window_bits bit_pos last_bit) \<le> unat last_bit"
proof -
  have "0 < unat window_bits" using assms(1) by (simp add: unat_gt_0)
  then have "unat bit_pos < unat bit_pos div unat window_bits * unat window_bits + unat window_bits"
    using dividend_less_div_times [of "unat window_bits" "unat bit_pos"] by (simp add: add.commute)
  then show "unat bit_pos < unat (window_stop window_bits bit_pos last_bit)"
    using assms(2) by (simp add: window_stop_unat u64_nat)
  show "unat (window_stop window_bits bit_pos last_bit) \<le> unat last_bit" by (simp add: window_stop_unat)
qed

function count_loop ::
  "bitmap_reader \<Rightarrow> u64 \<Rightarrow> u64 \<Rightarrow> counts \<Rightarrow> cluster_bitmap \<Rightarrow> bitmap_error + counts \<times> cluster_bitmap" where
  "count_loop reader bit_pos last_bit c s =
    (if bit_pos < last_bit then
       (if bit_pos \<ge> cb_data_bits s then count_unjudged bit_pos last_bit c s
        else if cb_window_bytes s * bits_per_byte = 0 then Inl BitmapDivisionByZero
        else
          let stop = window_stop (cb_window_bytes s * bits_per_byte) bit_pos last_bit
          in bind_r (count_window reader bit_pos stop c s) (\<lambda>(c, s).
               if length (cb_failed s) \<ge> max_failed_windows \<and> stop < last_bit
               then count_unjudged stop last_bit c s
               else count_loop reader stop last_bit c s))
     else Inr (c, s))"
  by pat_completeness auto
termination
proof (relation "measure (\<lambda>(r, b, l, c, s). unat l - unat b)", goal_cases)
  case (2 reader b l c s x xa xb xc)
  then have "unat b < unat x" "unat x \<le> unat l" using window_stop_bounds by blast+
  then have "unat l - unat x < unat l - unat b" by linarith
  then show ?case by simp
qed simp

declare count_loop.simps [simp del]

definition no_counts :: counts where
  "no_counts = \<lparr>n_allocated = 0, n_free = 0, n_unknown = 0, n_bad = 0, n_judged = 0\<rparr>"

definition Count :: "bitmap_reader \<Rightarrow> u64 \<Rightarrow> u64 \<Rightarrow> cluster_bitmap \<Rightarrow> bitmap_error + counts \<times> cluster_bitmap" where
  "Count reader first_bit last_bit s = count_loop reader first_bit last_bit no_counts s"

record range_query =
  rq_lcn :: u64
  rq_clusters :: u64
  rq_state :: cluster_state
  rq_allocated :: u64
  rq_free :: u64
  rq_bad :: u64

definition state_of_counts :: "counts \<Rightarrow> bool \<Rightarrow> cluster_state" where
  "state_of_counts c beyond =
    (if n_allocated c > 0 then Allocated
     else if n_bad c > 0 then Bad
     else if beyond then OutOfRange
     else if n_unknown c > 0 then Unknown
     else Free)"

text \<open>The body of the loop of StatesInOrder().\<close>

definition answer_query ::
  "bitmap_reader \<Rightarrow> range_query \<Rightarrow> cluster_bitmap \<Rightarrow> bitmap_error + range_query \<times> cluster_bitmap" where
  "answer_query reader q s =
    (let q = q\<lparr>rq_allocated := 0, rq_free := 0, rq_bad := 0\<rparr>
     in if rq_clusters q = 0 then Inr (q\<lparr>rq_state := Free\<rparr>, s)
        else if rq_lcn q \<ge> cb_limit s then Inr (q\<lparr>rq_state := OutOfRange\<rparr>, s)
        else
          let beyond = (rq_clusters q > cb_limit s - rq_lcn q);
              end_lcn = (if beyond then cb_limit s else rq_lcn q + rq_clusters q)
          in bind_r (Count reader (rq_lcn q) end_lcn s) (\<lambda>(c, s).
               Inr (q\<lparr>rq_allocated := n_allocated c, rq_free := n_free c, rq_bad := n_bad c,
                      rq_state := state_of_counts c beyond\<rparr>, s)))"

fun answer_in_order ::
  "bitmap_reader \<Rightarrow> nat list \<Rightarrow> range_query list \<Rightarrow> cluster_bitmap \<Rightarrow> bitmap_error + range_query list \<times> cluster_bitmap" where
  "answer_in_order reader [] queries s = Inr (queries, s)"
| "answer_in_order reader (i # idx) queries s =
     bind_r (answer_query reader (queries ! i) s) (\<lambda>(q, s). answer_in_order reader idx (queries[i := q]) s)"

definition StatesInOrder ::
  "bitmap_reader \<Rightarrow> range_query list \<Rightarrow> cluster_bitmap \<Rightarrow> bitmap_error + range_query list \<times> cluster_bitmap" where
  "StatesInOrder reader queries s =
     answer_in_order reader (sort_key (\<lambda>i. rq_lcn (queries ! i)) [0..<length queries]) queries s"

definition new_query :: "u64 \<Rightarrow> u64 \<Rightarrow> range_query" where
  "new_query lcn clusters =
     \<lparr>rq_lcn = lcn, rq_clusters = clusters, rq_state = Unknown, rq_allocated = 0, rq_free = 0, rq_bad = 0\<rparr>"

definition RangeState ::
  "bitmap_reader \<Rightarrow> u64 \<Rightarrow> u64 \<Rightarrow> cluster_bitmap \<Rightarrow> bitmap_error + cluster_state \<times> cluster_bitmap" where
  "RangeState reader lcn clusters s =
     bind_r (StatesInOrder reader [new_query lcn clusters] s) (\<lambda>(qs, s). Inr (rq_state (hd qs), s))"

definition State :: "bitmap_reader \<Rightarrow> u64 \<Rightarrow> cluster_bitmap \<Rightarrow> bitmap_error + cluster_state \<times> cluster_bitmap" where
  "State reader lcn s = RangeState reader lcn 1 s"

record space_summary =
  ss_total_clusters :: u64
  ss_free_clusters :: u64
  ss_free_bytes :: u64
  ss_unknown_clusters :: u64
  ss_bad_clusters :: u64
  ss_bad_bytes :: u64

definition bytes_or_saturated :: "u64 \<Rightarrow> u32 \<Rightarrow> u64" where
  "bytes_or_saturated clusters cluster_size =
    (if cluster_size \<noteq> 0 \<and> clusters > u64_max div ucast cluster_size then u64_max
     else clusters * ucast cluster_size)"

definition Summary :: "bitmap_reader \<Rightarrow> u32 \<Rightarrow> cluster_bitmap \<Rightarrow> bitmap_error + space_summary option \<times> cluster_bitmap" where
  "Summary reader cluster_size s =
    (if cb_limit s = 0 then Inr (None, s)
     else bind_r (Count reader 0 (cb_limit s) s) (\<lambda>(c, s).
       if n_judged c = 0 then Inr (None, s)
       else Inr (Some \<lparr>ss_total_clusters = cb_limit s, ss_free_clusters = n_free c,
                       ss_free_bytes = bytes_or_saturated (n_free c) cluster_size,
                       ss_unknown_clusters = n_unknown c, ss_bad_clusters = n_bad c,
                       ss_bad_bytes = bytes_or_saturated (n_bad c) cluster_size\<rparr>, s)))"

definition SetRetention :: "u64 \<Rightarrow> cluster_bitmap \<Rightarrow> cluster_bitmap" where
  "SetRetention max_bytes s =
    (let s = s\<lparr>cb_retain_bytes := max_bytes\<rparr>
     in if max_bytes = 0 then s\<lparr>cb_retained := Map.empty, cb_retained_bytes := 0\<rparr> else s)"

record bitmap_status =
  bs_shorter :: bool
  bs_failed_windows :: nat
  bs_bad_with_clear_bit :: bool

definition GetStatus :: "cluster_bitmap \<Rightarrow> bitmap_status" where
  "GetStatus s = \<lparr>bs_shorter = cb_shorter s, bs_failed_windows = length (cb_failed s),
     bs_bad_with_clear_bit = cb_bad_with_clear_bit s\<rparr>"

section \<open>Counting bits\<close>

definition bit_set :: "byte list \<Rightarrow> nat \<Rightarrow> bool" where
  "bit_set bytes i = bit (bytes ! (i div 8)) (i mod 8)"

lemma popcount_card: "popcount w = card {k. k < 32 \<and> bit w k}"
proof -
  have "popcount w = card (set (filter (bit w) [0..<32]))"
    unfolding popcount_def by (rule distinct_card [symmetric]) simp
  also have "set (filter (bit w) [0..<32]) = {k. k < 32 \<and> bit w k}" by auto
  finally show ?thesis .
qed

lemma popcount_masked:
  assumes "to_bit \<le> 8"
  shows "popcount (ucast b AND ((push_bit to_bit 1 - 1) AND NOT (push_bit from_bit 1 - 1))) =
    card {k. from_bit \<le> k \<and> k < to_bit \<and> bit (b :: byte) k}"
proof -
  have m: "push_bit n 1 - 1 = (mask n :: u32)" for n by (simp add: mask_eq_exp_minus_1 push_bit_eq_mult)
  have "bit (ucast b AND (mask to_bit AND NOT (mask from_bit :: u32))) k \<longleftrightarrow> from_bit \<le> k \<and> k < to_bit \<and> bit b k"
    if "k < 32" for k
    using that by (auto simp: bit_simps)
  then have "{k. k < 32 \<and> bit (ucast b AND (mask to_bit AND NOT (mask from_bit :: u32))) k} =
      {k. from_bit \<le> k \<and> k < to_bit \<and> bit b k}"
    using assms by auto
  then show ?thesis unfolding popcount_card m by simp
qed

definition set_between :: "byte list \<Rightarrow> nat \<Rightarrow> nat \<Rightarrow> nat set" where
  "set_between bytes a b = {i. a \<le> i \<and> i < b \<and> bit_set bytes i}"

lemma set_between_split: "a \<le> m \<Longrightarrow> m \<le> b \<Longrightarrow> card (set_between bytes a b) = card (set_between bytes a m) + card (set_between bytes m b)"
proof -
  assume "a \<le> m" "m \<le> b"
  then have "set_between bytes a b = set_between bytes a m \<union> set_between bytes m b" by (auto simp: set_between_def)
  moreover have "set_between bytes a m \<inter> set_between bytes m b = {}" by (auto simp: set_between_def)
  ultimately show ?thesis by (simp add: card_Un_disjoint set_between_def)
qed

lemma set_between_byte:
  assumes "a div 8 = k" "a \<le> b" "b \<le> (k + 1) * 8"
  shows "card (set_between bytes a b) = card {j. a mod 8 \<le> j \<and> j < b - k * 8 \<and> bit (bytes ! k) j}"
proof -
  have a: "a = k * 8 + a mod 8" using assms(1) by (metis div_mult_mod_eq)
  have "set_between bytes a b = (\<lambda>j. k * 8 + j) ` {j. a mod 8 \<le> j \<and> j < b - k * 8 \<and> bit (bytes ! k) j}" (is "?l = ?r")
  proof (intro equalityI subsetI)
    fix i assume i: "i \<in> ?l"
    define j where "j = i - k * 8"
    have ij: "i = k * 8 + j" using i a by (simp add: set_between_def j_def)
    have "j < 8" using i assms(3) by (simp add: set_between_def ij)
    then have "i div 8 = k" "i mod 8 = j" by (simp_all add: ij)
    then show "i \<in> ?r" using i a by (auto simp: set_between_def bit_set_def ij)
  next
    fix i assume "i \<in> ?r"
    then obtain j where j: "i = k * 8 + j" "a mod 8 \<le> j" "j < b - k * 8" "bit (bytes ! k) j" by auto
    then have "j < 8" using assms(3) by simp
    then have "i div 8 = k" "i mod 8 = j" by (simp_all add: j(1))
    then show "i \<in> ?l" using j a by (auto simp: set_between_def bit_set_def)
  qed
  then show ?thesis by (simp add: card_image)
qed

lemma count_set_loop_result:
  "last_pos \<le> 8 * length bytes \<Longrightarrow>
     count_set_loop bytes bit_pos last_pos acc = Inr (acc + of_nat (card (set_between bytes bit_pos last_pos)))"
proof (induction bytes bit_pos last_pos acc rule: count_set_loop.induct)
  case (1 bytes bit_pos last_pos acc)
  show ?case
  proof (cases "bit_pos < last_pos")
    case False
    then have "set_between bytes bit_pos last_pos = {}" by (auto simp: set_between_def)
    then show ?thesis using False by (simp add: count_set_loop.simps [of bytes bit_pos])
  next
    case True
    define k where "k = bit_pos div 8"
    define stop where "stop = min last_pos ((k + 1) * 8)"
    have k: "k < length bytes" using True "1.prems" by (simp add: k_def less_mult_imp_div_less mult.commute)
    have up: "bit_pos < (k + 1) * 8" by (simp add: k_def dividend_less_div_times)
    then have le: "bit_pos \<le> stop" "stop \<le> last_pos" using True by (simp_all add: stop_def)
    have width: "stop - k * 8 \<le> 8" by (simp add: stop_def)
    have here: "popcount (ucast (bytes ! k) AND ((push_bit (stop - k * 8) 1 - 1) AND NOT (push_bit (bit_pos mod 8) 1 - 1))) =
        card (set_between bytes bit_pos stop)"
      using popcount_masked [OF width] set_between_byte [of bit_pos k stop bytes] le
      by (simp add: k_def stop_def)
    have "count_set_loop bytes bit_pos last_pos acc =
        count_set_loop bytes stop last_pos (acc + of_nat (card (set_between bytes bit_pos stop)))"
      using True k here by (subst count_set_loop.simps) (simp add: Let_def k_def stop_def)
    also have "\<dots> = Inr (acc + of_nat (card (set_between bytes bit_pos stop)) + of_nat (card (set_between bytes stop last_pos)))"
      using "1.IH" [OF True refl refl refl refl refl] k here "1.prems"
      unfolding k_def [symmetric] stop_def [symmetric] here by simp
    finally show ?thesis using set_between_split [OF le] by (simp add: add.assoc)
  qed
qed

lemma CountSet_result:
  "last_pos \<le> 8 * length bytes \<Longrightarrow> CountSet bytes first_pos last_pos = Inr (of_nat (card (set_between bytes first_pos last_pos)))"
  by (simp add: CountSet_def count_set_loop_result)

section \<open>Taking the bad clusters out\<close>

text \<open>The set and the clear bits of [a, b), positions counted from \<open>base\<close>.\<close>

definition set_bits :: "byte list \<Rightarrow> nat \<Rightarrow> nat \<Rightarrow> nat \<Rightarrow> nat set" where
  "set_bits bytes base a b = {v. a \<le> v \<and> v < b \<and> bit_set bytes (v - base)}"

definition clear_bits :: "byte list \<Rightarrow> nat \<Rightarrow> nat \<Rightarrow> nat \<Rightarrow> nat set" where
  "clear_bits bytes base a b = {v. a \<le> v \<and> v < b \<and> \<not> bit_set bytes (v - base)}"

lemma finite_bits [simp]: "finite (set_bits bytes base a b)" "finite (clear_bits bytes base a b)"
  by (simp_all add: set_bits_def clear_bits_def)

lemma card_set_bits: "base \<le> a \<Longrightarrow> card (set_between bytes (a - base) (b - base)) = card (set_bits bytes base a b)"
proof -
  assume "base \<le> a"
  have "set_bits bytes base a b = (\<lambda>i. i + base) ` set_between bytes (a - base) (b - base)" (is "?l = ?r")
  proof (intro equalityI subsetI)
    fix v assume v: "v \<in> ?l"
    then obtain i where i: "v = i + base" using \<open>base \<le> a\<close> by (metis (no_types, lifting) add.commute le_Suc_ex le_trans mem_Collect_eq set_bits_def)
    then have "a - base \<le> i \<and> i < b - base" using v unfolding set_bits_def by (simp, linarith)
    with v i show "v \<in> ?r" by (simp add: set_bits_def set_between_def)
  next
    fix v assume "v \<in> ?r"
    then obtain i where i: "v = i + base" "a - base \<le> i" "i < b - base" "bit_set bytes i" by (auto simp: set_between_def)
    then have "a \<le> v \<and> v < b" by linarith
    with i show "v \<in> ?l" by (simp add: set_bits_def)
  qed
  then show ?thesis by (simp add: card_image)
qed

lemma card_clear_bits: "card (clear_bits bytes base a b) = (b - a) - card (set_bits bytes base a b)"
proof -
  have "set_bits bytes base a b \<union> clear_bits bytes base a b = {a..<b}" by (auto simp: set_bits_def clear_bits_def)
  moreover have "set_bits bytes base a b \<inter> clear_bits bytes base a b = {}" by (auto simp: set_bits_def clear_bits_def)
  ultimately have "card (set_bits bytes base a b) + card (clear_bits bytes base a b) = b - a"
    by (metis card_Un_disjoint card_atLeastLessThan finite_bits)
  then show ?thesis by simp
qed

lemma card_set_bits_le: "card (set_bits bytes base a b) \<le> b - a"
proof -
  have "card (set_bits bytes base a b) \<le> card {a..<b}" by (rule card_mono) (auto simp: set_bits_def)
  then show ?thesis by simp
qed

lemma of_nat_diff_u64: "b \<le> a \<Longrightarrow> (of_nat (a - b) :: u64) = of_nat a - of_nat b"
  by (rule of_nat_diff)

lemma u64_minus_of_nat: "b \<le> a \<Longrightarrow> (a :: u64) - b = of_nat (unat a - unat b)"
  using unat_u64_sub [of b a] by (metis of_nat_unat ucast_id)

definition take_bad :: "counts \<Rightarrow> nat \<Rightarrow> nat \<Rightarrow> nat \<Rightarrow> counts" where
  "take_bad c a f u = c\<lparr>n_allocated := n_allocated c - of_nat a, n_free := n_free c - of_nat f,
     n_unknown := n_unknown c - of_nat u, n_bad := n_bad c + of_nat (a + f + u)\<rparr>"

lemma take_bad_twice: "take_bad (take_bad c a f u) a' f' u' = take_bad c (a + a') (f + f') (u + u')"
  by (simp add: take_bad_def algebra_simps)

lemma take_bad_none [simp]: "take_bad c 0 0 0 = c"
  by (simp add: take_bad_def)

definition judged_bytes :: "judged_bits \<Rightarrow> byte list" where
  "judged_bytes j = (case jb_window j of None \<Rightarrow> [] | Some w \<Rightarrow> w_bytes w)"

text \<open>Where the judged part of a range stops: at its start when there is no window.\<close>

definition judged_stop :: "u64 \<Rightarrow> judged_bits \<Rightarrow> u64" where
  "judged_stop first_bit j = (case jb_window j of None \<Rightarrow> first_bit | Some w \<Rightarrow> jb_stop j)"

definition judged_ok :: "u64 \<Rightarrow> u64 \<Rightarrow> judged_bits \<Rightarrow> bool" where
  "judged_ok first_bit last_bit j \<longleftrightarrow> first_bit \<le> judged_stop first_bit j \<and> judged_stop first_bit j \<le> last_bit \<and>
     (case jb_window j of None \<Rightarrow> True
      | Some w \<Rightarrow> jb_base j \<le> first_bit \<and> unat (jb_stop j) - unat (jb_base j) \<le> 8 * length (w_bytes w))"

definition judged_set :: "u64 \<Rightarrow> judged_bits \<Rightarrow> nat set" where
  "judged_set first_bit j = set_bits (judged_bytes j) (unat (jb_base j)) (unat first_bit) (unat (judged_stop first_bit j))"

definition judged_clear :: "u64 \<Rightarrow> judged_bits \<Rightarrow> nat set" where
  "judged_clear first_bit j = clear_bits (judged_bytes j) (unat (jb_base j)) (unat first_bit) (unat (judged_stop first_bit j))"

definition not_judged :: "u64 \<Rightarrow> u64 \<Rightarrow> judged_bits \<Rightarrow> nat set" where
  "not_judged first_bit last_bit j = {unat (judged_stop first_bit j)..<unat last_bit}"

lemma finite_judged [simp]: "finite (judged_set f j)" "finite (judged_clear f j)" "finite (not_judged f l j)"
  by (simp_all add: judged_set_def judged_clear_def not_judged_def)

lemma bits_in_cut:
  assumes "E \<inter> {a..<b} = {f..<t}" "f \<le> t" "a \<le> j" "j \<le> b"
  shows "E \<inter> set_bits bytes base a j = set_bits bytes base f (min t j)"
    and "E \<inter> clear_bits bytes base a j = clear_bits bytes base f (min t j)"
    and "card (E \<inter> {j..<b}) = t - max f j"
proof -
  have cut: "v \<in> E \<and> a \<le> v \<and> v < b \<longleftrightarrow> f \<le> v \<and> v < t" for v
    using assms(1) by (auto simp: set_eq_iff)
  have below: "v \<in> E \<and> a \<le> v \<and> v < j \<longleftrightarrow> f \<le> v \<and> v < min t j" for v
    using cut [of v] assms(4) by auto
  show "E \<inter> set_bits bytes base a j = set_bits bytes base f (min t j)"
    unfolding set_bits_def using below by blast
  show "E \<inter> clear_bits bytes base a j = clear_bits bytes base f (min t j)"
    unfolding clear_bits_def using below by blast
  have "v \<in> E \<and> j \<le> v \<and> v < b \<longleftrightarrow> max f j \<le> v \<and> v < t" for v
    using cut [of v] assms(3) by auto
  then have "E \<inter> {j..<b} = {max f j..<t}" by (simp add: set_eq_iff)
  then show "card (E \<inter> {j..<b}) = t - max f j" by simp
qed

lemma apply_extent_result:
  assumes j: "judged_ok first_bit last_bit j"
    and cut: "max (ex_lcn e) first_bit \<le> min (EndOf e) last_bit"
    and span: "ext_span e \<inter> {unat first_bit..<unat last_bit} =
      {unat (max (ex_lcn e) first_bit)..<unat (min (EndOf e) last_bit)}"
  shows "apply_extent first_bit last_bit j e (c, fl) =
    Inr (take_bad c (card (ext_span e \<inter> judged_set first_bit j)) (card (ext_span e \<inter> judged_clear first_bit j))
           (card (ext_span e \<inter> not_judged first_bit last_bit j)),
         fl \<or> ext_span e \<inter> judged_clear first_bit j \<noteq> {})"
proof -
  define f where "f = max (ex_lcn e) first_bit"
  define t where "t = min (EndOf e) last_bit"
  define stop where "stop = judged_stop first_bit j"
  define q where "q = min t stop"
  have ft: "unat f \<le> unat t" using cut by (simp add: f_def t_def u64_nat)
  have fj: "unat first_bit \<le> unat stop" "unat stop \<le> unat last_bit"
    using j by (simp_all add: judged_ok_def u64_nat stop_def)
  have q: "unat q = min (unat t) (unat stop)" by (simp add: q_def unat_min_u64)
  note in_cut = bits_in_cut [OF span [folded f_def t_def] ft fj, folded q]
  have sets: "ext_span e \<inter> judged_set first_bit j = set_bits (judged_bytes j) (unat (jb_base j)) (unat f) (unat q)"
    "ext_span e \<inter> judged_clear first_bit j = clear_bits (judged_bytes j) (unat (jb_base j)) (unat f) (unat q)"
    "card (ext_span e \<inter> not_judged first_bit last_bit j) = unat t - max (unat f) (unat stop)"
    unfolding judged_set_def judged_clear_def not_judged_def stop_def [symmetric] using in_cut by auto
  show ?thesis
  proof (cases "jb_window j \<noteq> None \<and> q > f")
    case True
    then obtain w where w: "jb_window j = Some w" by auto
    have stop: "stop = jb_stop j" by (simp add: stop_def judged_stop_def w)
    have base: "jb_base j \<le> first_bit" and room: "unat stop - unat (jb_base j) \<le> 8 * length (w_bytes w)"
      using j w by (simp_all add: judged_ok_def stop)
    have bf: "jb_base j \<le> f" unfolding f_def using base by (rule max.coboundedI2)
    have fq: "unat f < unat q" using True by (simp add: u64_nat)
    have bq: "jb_base j \<le> q" using bf fq unfolding u64_nat by linarith
    have "unat (q - jb_base j) = unat q - unat (jb_base j)" by (rule unat_u64_sub [OF bq])
    moreover have "unat (f - jb_base j) = unat f - unat (jb_base j)" by (rule unat_u64_sub [OF bf])
    moreover have "unat q - unat (jb_base j) \<le> 8 * length (w_bytes w)" using room q by linarith
    ultimately have cs: "CountSet (w_bytes w) (unat (f - jb_base j)) (unat (q - jb_base j)) =
        Inr (of_nat (card (set_bits (w_bytes w) (unat (jb_base j)) (unat f) (unat q))))"
      using CountSet_result card_set_bits bf by (simp add: u64_nat)
    define a where "a = card (set_bits (w_bytes w) (unat (jb_base j)) (unat f) (unat q))"
    define d where "d = card (clear_bits (w_bytes w) (unat (jb_base j)) (unat f) (unat q))"
    have a_le: "a \<le> unat q - unat f" unfolding a_def by (rule card_set_bits_le)
    have qf: "q - f = of_nat (unat q - unat f)" by (rule u64_minus_of_nat) (use fq in \<open>simp add: u64_nat\<close>)
    have d: "d = unat q - unat f - a" unfolding d_def a_def by (rule card_clear_bits)
    have clear: "q - f - of_nat a = of_nat d" unfolding qf d by (rule of_nat_diff_u64 [OF a_le, symmetric])
    have d_small: "d < 2 ^ 64" using d unat_u64_bound [of q] by simp
    have "unat (of_nat d :: u64) = d" by (rule unat_of_nat_u64) (use d_small in simp)
    then have flag: "(of_nat d :: u64) \<noteq> 0 \<longleftrightarrow> d \<noteq> 0" by (simp add: unat_eq_zero [symmetric] del: unat_of_nat)
    have "unat q - unat f = a + d" using d a_le by linarith
    then have ad: "q - f = of_nat (a + d)" unfolding qf by (rule arg_cong)
    define u where "u = unat t - unat q"
    have u: "t > q \<longleftrightarrow> u \<noteq> 0" "t > q \<Longrightarrow> t - q = of_nat u"
      by (auto simp: u_def u64_nat intro!: u64_minus_of_nat)
    have u': "unat t - max (unat f) (unat stop) = u"
      using fq q unfolding u_def by linarith
    have bytes: "judged_bytes j = w_bytes w" by (simp add: judged_bytes_def w)
    have empty: "clear_bits (w_bytes w) (unat (jb_base j)) (unat f) (unat q) \<noteq> {} \<longleftrightarrow> d \<noteq> 0"
      by (simp add: d_def)
    have run: "apply_extent first_bit last_bit j e (c, fl) =
      (let c1 = c\<lparr>n_allocated := n_allocated c - of_nat a, n_free := n_free c - of_nat d, n_bad := n_bad c + of_nat (a + d)\<rparr>;
           fl1 = (fl \<or> d \<noteq> 0)
       in if t > q then Inr (c1\<lparr>n_unknown := n_unknown c1 - (t - q), n_bad := n_bad c1 + (t - q)\<rparr>, fl1) else Inr (c1, fl1))"
      unfolding apply_extent_def Let_def f_def [symmetric] t_def [symmetric] q_def [unfolded stop, symmetric] fst_conv snd_conv w option.case
      using True cs clear flag ad by (simp add: a_def [symmetric])
    show ?thesis
      unfolding run sets u' bytes empty a_def [symmetric] d_def [symmetric]
      using u by (auto simp: Let_def take_bad_def algebra_simps)
  next
    case False
    have none: "set_bits (judged_bytes j) (unat (jb_base j)) (unat f) (unat q) = {}"
      "clear_bits (judged_bytes j) (unat (jb_base j)) (unat f) (unat q) = {}"
      and jf: "unat t \<le> unat f \<or> unat stop \<le> unat f"
    proof -
      have qf: "unat q \<le> unat f"
      proof (cases "jb_window j")
        case None
        then have "stop = first_bit" by (simp add: stop_def judged_stop_def)
        then show ?thesis using q by (simp add: f_def unat_max_u64)
      next
        case (Some w)
        then show ?thesis using False by (simp add: u64_nat)
      qed
      then show "set_bits (judged_bytes j) (unat (jb_base j)) (unat f) (unat q) = {}"
        "clear_bits (judged_bytes j) (unat (jb_base j)) (unat f) (unat q) = {}"
        by (auto simp: set_bits_def clear_bits_def)
      show "unat t \<le> unat f \<or> unat stop \<le> unat f" using qf q by (simp add: min_le_iff_disj)
    qed
    define u where "u = unat t - unat f"
    have u': "unat t - max (unat f) (unat stop) = u" using jf fj q ft unfolding u_def by auto
    have u: "t > f \<longleftrightarrow> u \<noteq> 0" "t > f \<Longrightarrow> t - f = of_nat u"
      by (auto simp: u_def u64_nat intro!: u64_minus_of_nat)
    have run: "apply_extent first_bit last_bit j e (c, fl) =
      (if t > f then Inr (c\<lparr>n_unknown := n_unknown c - (t - f), n_bad := n_bad c + (t - f)\<rparr>, fl) else Inr (c, fl))"
    proof (cases "jb_window j")
      case None
      then show ?thesis by (simp add: apply_extent_def Let_def f_def [symmetric] t_def [symmetric])
    next
      case (Some w)
      then have "stop = jb_stop j" by (simp add: stop_def judged_stop_def)
      then have "\<not> min t (jb_stop j) > f" using False Some by (simp add: q_def)
      then show ?thesis
        unfolding apply_extent_def Let_def f_def [symmetric] t_def [symmetric] Some option.case fst_conv snd_conv
        by (simp only: if_False bind_r_simps split_conv)
    qed
    show ?thesis
      unfolding run sets u' none using u by (auto simp: take_bad_def)
  qed
qed

lemma apply_extents_result:
  assumes "judged_ok first_bit last_bit j" and "extents_apart lo es"
    and "\<And>e. e \<in> set es \<Longrightarrow> max (ex_lcn e) first_bit \<le> min (EndOf e) last_bit \<and>
      ext_span e \<inter> {unat first_bit..<unat last_bit} = {unat (max (ex_lcn e) first_bit)..<unat (min (EndOf e) last_bit)}"
  shows "apply_extents first_bit last_bit j es (c, fl) =
    Inr (take_bad c (card (spans es \<inter> judged_set first_bit j)) (card (spans es \<inter> judged_clear first_bit j))
           (card (spans es \<inter> not_judged first_bit last_bit j)),
         fl \<or> spans es \<inter> judged_clear first_bit j \<noteq> {})"
proof -
  have "apply_extents first_bit last_bit j es (c, fl) =
    Inr (take_bad c (\<Sum>e \<leftarrow> es. card (ext_span e \<inter> judged_set first_bit j))
           (\<Sum>e \<leftarrow> es. card (ext_span e \<inter> judged_clear first_bit j)) (\<Sum>e \<leftarrow> es. card (ext_span e \<inter> not_judged first_bit last_bit j)),
         fl \<or> spans es \<inter> judged_clear first_bit j \<noteq> {})"
    using assms(3)
  proof (induction es arbitrary: c fl)
    case (Cons e es)
    have head: "max (ex_lcn e) first_bit \<le> min (EndOf e) last_bit"
      "ext_span e \<inter> {unat first_bit..<unat last_bit} = {unat (max (ex_lcn e) first_bit)..<unat (min (EndOf e) last_bit)}"
      using Cons.prems [of e] by simp_all
    note rest = Cons.IH [OF Cons.prems [OF list.set_intros(2)]]
    have flag: "(spans (e # es) \<inter> X \<noteq> {}) = (ext_span e \<inter> X \<noteq> {} \<or> spans es \<inter> X \<noteq> {})" for X by auto
    show ?case
      unfolding flag using rest by (simp add: apply_extent_result [OF assms(1) head] take_bad_twice disj_assoc)
  qed simp
  then show ?thesis by (simp only: apart_card [OF assms(2) finite_judged(1)] apart_card [OF assms(2) finite_judged(2)]
        apart_card [OF assms(2) finite_judged(3)])
qed

definition bad_of :: "cluster_bitmap \<Rightarrow> nat set" where
  "bad_of s = (case cb_bad s of None \<Rightarrow> {} | Some l \<Rightarrow> bad_set l)"

definition bad_ok :: "cluster_bitmap \<Rightarrow> bool" where
  "bad_ok s \<longleftrightarrow> (case cb_bad s of None \<Rightarrow> True | Some l \<Rightarrow> list_usable l)"

lemma judged_within:
  assumes "judged_ok first_bit last_bit j"
  shows "judged_set first_bit j \<subseteq> {unat first_bit..<unat last_bit}"
    "judged_clear first_bit j \<subseteq> {unat first_bit..<unat last_bit}" "not_judged first_bit last_bit j \<subseteq> {unat first_bit..<unat last_bit}"
  using assms by (auto simp: judged_ok_def judged_set_def judged_clear_def not_judged_def set_bits_def clear_bits_def u64_nat)

lemma ApplyBad_result:
  assumes j: "judged_ok first_bit last_bit j" and "bad_ok s"
  shows "ApplyBad first_bit last_bit j c s =
    Inr (take_bad c (card (bad_of s \<inter> judged_set first_bit j)) (card (bad_of s \<inter> judged_clear first_bit j))
           (card (bad_of s \<inter> not_judged first_bit last_bit j)),
         s\<lparr>cb_bad_with_clear_bit := (cb_bad_with_clear_bit s \<or> bad_of s \<inter> judged_clear first_bit j \<noteq> {})\<rparr>)"
proof (cases "cb_bad s")
  case None
  then show ?thesis by (simp add: ApplyBad_def bad_of_def)
next
  case (Some l)
  then have l: "list_usable l" using assms(2) by (simp add: bad_ok_def)
  have same: "spans (Overlapping l first_bit last_bit) \<inter> X = bad_of s \<inter> X"
    if "X \<subseteq> {unat first_bit..<unat last_bit}" for X
  proof -
    let ?I = "{unat first_bit..<unat last_bit}"
    have X: "X = ?I \<inter> X" using that by blast
    have "spans (Overlapping l first_bit last_bit) \<inter> (?I \<inter> X) = bad_set l \<inter> (?I \<inter> X)"
      using bl.exact [OF l, of first_bit last_bit] by (simp only: Int_assoc [symmetric])
    then show ?thesis using Some by (simp add: bad_of_def X [symmetric])
  qed
  have "apply_extents first_bit last_bit j (Overlapping l first_bit last_bit) (c, cb_bad_with_clear_bit s) =
    Inr (take_bad c (card (bad_of s \<inter> judged_set first_bit j)) (card (bad_of s \<inter> judged_clear first_bit j))
           (card (bad_of s \<inter> not_judged first_bit last_bit j)),
         cb_bad_with_clear_bit s \<or> bad_of s \<inter> judged_clear first_bit j \<noteq> {})"
    using apply_extents_result [OF j bl.apart [OF l]] bl.cut_ends [OF l]
    by (simp only: same [OF judged_within(1) [OF j]] same [OF judged_within(2) [OF j]] same [OF judged_within(3) [OF j]])
  then show ?thesis using Some by (simp add: ApplyBad_def)
qed

section \<open>The invariant of the windows\<close>

definition window_len :: "cluster_bitmap \<Rightarrow> u64 \<Rightarrow> u64" where
  "window_len s k = min (cb_window_bytes s) (cb_data_size s - k * cb_window_bytes s)"

text \<open>The window that reading index \<open>k\<close> gives, and whether the read came back whole.\<close>

definition window_read :: "bitmap_reader \<Rightarrow> cluster_bitmap \<Rightarrow> u64 \<Rightarrow> bitmap_window" where
  "window_read reader s k =
    (let answer = reader (k * cb_window_bytes s) (unat (window_len s k))
     in \<lparr>w_index = k, w_bytes = snd answer,
         w_valid = (case fst answer of None \<Rightarrow> 0 | Some n \<Rightarrow> unat (min n (window_len s k)))\<rparr>)"

definition read_whole :: "bitmap_reader \<Rightarrow> cluster_bitmap \<Rightarrow> u64 \<Rightarrow> bool" where
  "read_whole reader s k \<longleftrightarrow> w_valid (window_read reader s k) = unat (window_len s k)"

definition same_volume :: "cluster_bitmap \<Rightarrow> cluster_bitmap \<Rightarrow> bool" where
  "same_volume s s' \<longleftrightarrow> cb_data_size s' = cb_data_size s \<and> cb_data_bits s' = cb_data_bits s \<and> cb_limit s' = cb_limit s \<and>
     cb_window_bytes s' = cb_window_bytes s \<and> cb_bad s' = cb_bad s"

text \<open>
  The reader fills the buffer it is handed; the windows fit 64-bit bit positions; every window
  held is what the reader answered for it; and a failed one did not come back whole.
\<close>

definition reader_fills :: "bitmap_reader \<Rightarrow> bool" where
  "reader_fills reader \<longleftrightarrow> (\<forall>off n. length (snd (reader off n)) = n)"

definition bitmap_ok :: "bitmap_reader \<Rightarrow> cluster_bitmap \<Rightarrow> bool" where
  "bitmap_ok reader s \<longleftrightarrow> reader_fills reader \<and> bad_ok s \<and>
     0 < unat (cb_window_bytes s) \<and> unat (cb_window_bytes s) * 8 < 2 ^ 64 \<and>
     unat (cb_data_size s) * 8 < 2 ^ 64 \<and> cb_data_bits s = BitsOf (cb_data_size s) \<and>
     (cb_have_window s \<longrightarrow> cb_window s = window_read reader s (w_index (cb_window s))) \<and>
     (\<forall>k w. cb_retained s k = Some w \<longrightarrow> w = window_read reader s k) \<and>
     (\<forall>k \<in> set (cb_failed s). \<not> read_whole reader s k)"

lemma same_volume_refl [simp]: "same_volume s s"
  by (simp add: same_volume_def)

lemma same_volume_trans: "same_volume s s' \<Longrightarrow> same_volume s' s'' \<Longrightarrow> same_volume s s''"
  by (simp add: same_volume_def)

lemma same_volume_window:
  assumes "same_volume s s'"
  shows "window_len s' k = window_len s k \<and> window_read reader s' k = window_read reader s k \<and>
     read_whole reader s' k = read_whole reader s k \<and> bad_of s' = bad_of s \<and> bad_ok s' = bad_ok s"
proof -
  have f: "cb_data_size s' = cb_data_size s" "cb_window_bytes s' = cb_window_bytes s" "cb_bad s' = cb_bad s"
    using assms by (simp_all add: same_volume_def)
  have len: "window_len s' k = window_len s k" unfolding window_len_def f ..
  have win: "window_read reader s' k = window_read reader s k" unfolding window_read_def f len ..
  show ?thesis unfolding read_whole_def win len bad_of_def bad_ok_def f by simp
qed

lemma bitmap_ok_transfer:
  assumes "bitmap_ok reader s" "same_volume s s'"
    and "cb_have_window s' \<Longrightarrow> cb_window s' = window_read reader s (w_index (cb_window s'))"
    and "\<And>k w. cb_retained s' k = Some w \<Longrightarrow> w = window_read reader s k"
    and "\<And>k. k \<in> set (cb_failed s') \<Longrightarrow> \<not> read_whole reader s k"
  shows "bitmap_ok reader s'"
  using assms same_volume_window [OF assms(2)] by (simp add: bitmap_ok_def same_volume_def)

lemma bitmap_ok_flag: "bitmap_ok reader (s\<lparr>cb_bad_with_clear_bit := f\<rparr>) = bitmap_ok reader s"
proof -
  have "same_volume s (s\<lparr>cb_bad_with_clear_bit := f\<rparr>)" by (simp add: same_volume_def)
  from same_volume_window [OF this] show ?thesis by (simp add: bitmap_ok_def)
qed

lemma ReadWindow_result:
  assumes ok: "bitmap_ok reader s" and fresh: "cb_retained s k = None" and run: "ReadWindow reader k s = (w, s')"
  shows "w = window_read reader s k \<and> bitmap_ok reader s' \<and> same_volume s s' \<and>
    length (cb_failed s) \<le> length (cb_failed s')"
proof -
  define w1 where "w1 = window_read reader s k"
  define failed where "failed = (if w_valid w1 < unat (window_len s k) then List.insert k (cb_failed s) else cb_failed s)"
  define s1 where "s1 = s\<lparr>cb_have_window := True, cb_window := w1, cb_failed := failed\<rparr>"
  have w1: "w_index w1 = k" by (simp add: w1_def window_read_def Let_def)
  have eq: "ReadWindow reader k s =
    (if cb_retained_bytes s + window_len s k > cb_retain_bytes s then (w1, s1)
     else (w1, s1\<lparr>cb_retained_bytes := cb_retained_bytes s + window_len s k, cb_have_window := False,
             cb_retained := (cb_retained s)(k \<mapsto> w1)\<rparr>))"
    unfolding ReadWindow_def Let_def window_len_def [symmetric]
    using fresh by (simp add: w1_def window_read_def s1_def failed_def Let_def)
  have bad: "\<not> read_whole reader s m" if "m \<in> set failed" for m
    using that ok by (auto simp: failed_def bitmap_ok_def read_whole_def w1_def split: if_splits)
  have more: "length (cb_failed s) \<le> length failed" by (simp add: failed_def List.insert_def)
  have same1: "same_volume s s1" by (simp add: s1_def same_volume_def)
  have ok1: "bitmap_ok reader s1"
    by (rule bitmap_ok_transfer [OF ok same1])
      (use ok bad in \<open>auto simp: s1_def w1 w1_def [symmetric] bitmap_ok_def\<close>)
  define s2 where "s2 = s1\<lparr>cb_retained_bytes := cb_retained_bytes s + window_len s k, cb_have_window := False,
             cb_retained := (cb_retained s)(k \<mapsto> w1)\<rparr>"
  have same2: "same_volume s s2" by (simp add: s2_def s1_def same_volume_def)
  have ok2: "bitmap_ok reader s2"
    by (rule bitmap_ok_transfer [OF ok same2])
      (use ok bad in \<open>auto simp: s2_def s1_def w1_def bitmap_ok_def split: if_splits\<close>)
  have "cb_failed s1 = failed" "cb_failed s2 = failed" by (simp_all add: s2_def s1_def)
  then show ?thesis
    using run eq ok1 ok2 same1 same2 more unfolding w1_def [symmetric] s2_def [symmetric]
    by (auto split: if_splits)
qed

lemma Load_result:
  assumes ok: "bitmap_ok reader s" and run: "Load reader k s = (wo, s')"
  shows "bitmap_ok reader s' \<and> same_volume s s' \<and> length (cb_failed s) \<le> length (cb_failed s') \<and>
    (case wo of Some w \<Rightarrow> w = window_read reader s k
     | None \<Rightarrow> \<not> read_whole reader s k \<or> max_failed_windows \<le> length (cb_failed s'))"
proof (cases "cb_retained s k")
  case (Some w)
  then have "wo = Some w" "s' = s" using run by (simp_all add: Load_def)
  moreover have "w = window_read reader s k" using ok Some by (simp add: bitmap_ok_def)
  ultimately show ?thesis using ok by simp
next
  case fresh: None
  consider (held) "cb_have_window s \<and> w_index (cb_window s) = k"
    | (gone) "\<not> (cb_have_window s \<and> w_index (cb_window s) = k)"
        "k \<in> set (cb_failed s) \<or> length (cb_failed s) \<ge> max_failed_windows"
    | (read) "\<not> (cb_have_window s \<and> w_index (cb_window s) = k)"
        "\<not> (k \<in> set (cb_failed s) \<or> length (cb_failed s) \<ge> max_failed_windows)" by blast
  then show ?thesis
  proof cases
    case held
    then have "wo = Some (cb_window s)" "s' = s" using run fresh by (auto simp: Load_def)
    moreover have "cb_window s = window_read reader s k" using ok held by (auto simp: bitmap_ok_def)
    ultimately show ?thesis using ok by simp
  next
    case gone
    then have "wo = None" "s' = s" using run fresh by (auto simp: Load_def)
    then show ?thesis using ok gone(2) by (auto simp: bitmap_ok_def)
  next
    case read
    obtain w s1 where rw: "ReadWindow reader k s = (w, s1)" by (cases "ReadWindow reader k s") auto
    have "wo = Some w" "s' = s1" using run fresh read rw by (auto simp: Load_def)
    then show ?thesis using ReadWindow_result [OF ok fresh rw] by simp
  qed
qed

section \<open>What is counted\<close>

definition window_bits :: "cluster_bitmap \<Rightarrow> nat" where
  "window_bits s = unat (cb_window_bytes s) * 8"

text \<open>The window of a cluster, whether its bit came back when that window is read, and the bit.\<close>

definition window_of :: "bitmap_reader \<Rightarrow> cluster_bitmap \<Rightarrow> nat \<Rightarrow> bitmap_window" where
  "window_of reader s v = window_read reader s (of_nat (v div window_bits s))"

definition bit_known :: "bitmap_reader \<Rightarrow> cluster_bitmap \<Rightarrow> nat \<Rightarrow> bool" where
  "bit_known reader s v \<longleftrightarrow> v < unat (cb_data_bits s) \<and> v mod window_bits s < 8 * w_valid (window_of reader s v)"

definition cluster_bit :: "bitmap_reader \<Rightarrow> cluster_bitmap \<Rightarrow> nat \<Rightarrow> bool" where
  "cluster_bit reader s v = bit_set (w_bytes (window_of reader s v)) (v mod window_bits s)"

text \<open>Judged, where the windows of K could not be used.\<close>

definition bit_judged :: "bitmap_reader \<Rightarrow> cluster_bitmap \<Rightarrow> nat set \<Rightarrow> nat \<Rightarrow> bool" where
  "bit_judged reader s K v \<longleftrightarrow> bit_known reader s v \<and> v div window_bits s \<notin> K"

definition tally :: "(nat \<Rightarrow> bool) \<Rightarrow> (nat \<Rightarrow> bool) \<Rightarrow> nat set \<Rightarrow> nat set \<Rightarrow> counts" where
  "tally J S B R =
     \<lparr>n_allocated = of_nat (card {v \<in> R. J v \<and> S v \<and> v \<notin> B}), n_free = of_nat (card {v \<in> R. J v \<and> \<not> S v \<and> v \<notin> B}),
      n_unknown = of_nat (card {v \<in> R. \<not> J v \<and> v \<notin> B}), n_bad = of_nat (card {v \<in> R. v \<in> B}),
      n_judged = of_nat (card {v \<in> R. J v})\<rparr>"

definition add_counts :: "counts \<Rightarrow> counts \<Rightarrow> counts" where
  "add_counts c d = \<lparr>n_allocated = n_allocated c + n_allocated d, n_free = n_free c + n_free d,
     n_unknown = n_unknown c + n_unknown d, n_bad = n_bad c + n_bad d, n_judged = n_judged c + n_judged d\<rparr>"

lemma add_counts_assoc: "add_counts (add_counts c d) e = add_counts c (add_counts d e)"
  by (simp add: add_counts_def add.assoc)

lemma card_filter_Un:
  "finite R \<Longrightarrow> finite R' \<Longrightarrow> R \<inter> R' = {} \<Longrightarrow> card {v \<in> R \<union> R'. P v} = card {v \<in> R. P v} + card {v \<in> R'. P v}"
proof -
  assume a: "finite R" "finite R'" "R \<inter> R' = {}"
  have "{v \<in> R \<union> R'. P v} = {v \<in> R. P v} \<union> {v \<in> R'. P v}" by auto
  then show ?thesis using a by (simp add: card_Un_disjoint disjoint_iff)
qed

lemma tally_Un:
  assumes "finite R" "finite R'" "R \<inter> R' = {}"
  shows "tally J S B (R \<union> R') = add_counts (tally J S B R) (tally J S B R')"
  unfolding tally_def add_counts_def card_filter_Un [OF assms] by simp

lemma tally_split: "a \<le> m \<Longrightarrow> m \<le> b \<Longrightarrow> tally J S B {a..<b} = add_counts (tally J S B {a..<m}) (tally J S B {m..<b})"
  using tally_Un [of "{a..<m}" "{m..<b}" J S B] by (simp add: ivl_disj_un_two(3))

lemma tally_cong:
  assumes "\<And>v. v \<in> R \<Longrightarrow> J v = J' v" "\<And>v. v \<in> R \<Longrightarrow> J v \<Longrightarrow> S v = S' v"
  shows "tally J S B R = tally J' S' B R"
proof -
  have "{v \<in> R. J v \<and> S v \<and> v \<notin> B} = {v \<in> R. J' v \<and> S' v \<and> v \<notin> B}"
    "{v \<in> R. J v \<and> \<not> S v \<and> v \<notin> B} = {v \<in> R. J' v \<and> \<not> S' v \<and> v \<notin> B}"
    "{v \<in> R. \<not> J v \<and> v \<notin> B} = {v \<in> R. \<not> J' v \<and> v \<notin> B}" "{v \<in> R. J v} = {v \<in> R. J' v}"
    using assms by auto
  then show ?thesis by (simp add: tally_def)
qed

lemma card_without_bad: "finite X \<Longrightarrow> (of_nat (card X) :: u64) - of_nat (card (B \<inter> X)) = of_nat (card {v \<in> X. v \<notin> B})"
proof -
  assume X: "finite X"
  have "{v \<in> X. v \<notin> B} = X - (B \<inter> X)" by auto
  then have "card {v \<in> X. v \<notin> B} = card X - card (B \<inter> X)" using X by (simp add: card_Diff_subset)
  moreover have "card (B \<inter> X) \<le> card X" using X by (intro card_mono) auto
  ultimately show ?thesis by (simp add: of_nat_diff)
qed

text \<open>The counts before and after the bad clusters are taken out, where bits [a, j) of [a, b) were read.\<close>

lemma tally_take_bad:
  fixes S :: "nat \<Rightarrow> bool"
  assumes "a \<le> j" "j \<le> b"
  defines "X \<equiv> {v. a \<le> v \<and> v < j \<and> S v}" and "Y \<equiv> {v. a \<le> v \<and> v < j \<and> \<not> S v}"
  shows "take_bad (c\<lparr>n_allocated := n_allocated c + of_nat (card X), n_free := n_free c + of_nat (card Y),
        n_unknown := n_unknown c + of_nat (b - j), n_judged := n_judged c + of_nat (j - a)\<rparr>)
      (card (B \<inter> X)) (card (B \<inter> Y)) (card (B \<inter> {j..<b})) = add_counts c (tally (\<lambda>v. v < j) S B {a..<b})"
proof -
  have fin: "finite X" "finite Y" by (simp_all add: X_def Y_def)
  have sets: "{v \<in> {a..<b}. v < j \<and> S v \<and> v \<notin> B} = {v \<in> X. v \<notin> B}"
    "{v \<in> {a..<b}. v < j \<and> \<not> S v \<and> v \<notin> B} = {v \<in> Y. v \<notin> B}"
    "{v \<in> {a..<b}. \<not> v < j \<and> v \<notin> B} = {v \<in> {j..<b}. v \<notin> B}" "{v \<in> {a..<b}. v < j} = {a..<j}"
    using assms(1,2) by (auto simp: X_def Y_def)
  have bad: "card {v \<in> {a..<b}. v \<in> B} = card (B \<inter> X) + card (B \<inter> Y) + card (B \<inter> {j..<b})"
  proof -
    have "{v \<in> {a..<b}. v \<in> B} = ((B \<inter> X) \<union> (B \<inter> Y)) \<union> (B \<inter> {j..<b})" using assms(1,2) by (auto simp: X_def Y_def)
    also have "card \<dots> = card ((B \<inter> X) \<union> (B \<inter> Y)) + card (B \<inter> {j..<b})"
      using fin by (intro card_Un_disjoint) (auto simp: X_def Y_def)
    also have "card ((B \<inter> X) \<union> (B \<inter> Y)) = card (B \<inter> X) + card (B \<inter> Y)"
      using fin by (intro card_Un_disjoint) (auto simp: X_def Y_def)
    finally show ?thesis .
  qed
  have left: "(of_nat (b - j) :: u64) - of_nat (card (B \<inter> {j..<b})) = of_nat (card {v \<in> {j..<b}. v \<notin> B})"
    using card_without_bad [of "{j..<b}" B] by simp
  show ?thesis
    unfolding take_bad_def add_counts_def tally_def sets bad
    using card_without_bad [OF fin(1), of B] card_without_bad [OF fin(2), of B] left
    by (simp add: add_diff_eq [symmetric])
qed

lemma data_bits_unat: "bitmap_ok reader s \<Longrightarrow> unat (cb_data_bits s) = unat (cb_data_size s) * 8"
proof -
  assume ok: "bitmap_ok reader s"
  then have size: "unat (cb_data_size s) * 8 < 2 ^ 64" by (simp add: bitmap_ok_def)
  have "\<not> cb_data_size s > u64_max div bits_per_byte"
    using size by (simp add: bits_per_byte_def u64_nat unat_div)
  then have "cb_data_bits s = cb_data_size s * bits_per_byte" using ok by (simp add: bitmap_ok_def BitsOf_def)
  then show ?thesis using size by (simp add: bits_per_byte_def unat_u64_mult)
qed

lemma window_bits_unat: "bitmap_ok reader s \<Longrightarrow> unat (cb_window_bytes s * bits_per_byte) = window_bits s"
  by (simp add: bitmap_ok_def bits_per_byte_def unat_u64_mult window_bits_def)

lemma window_bits_pos: "bitmap_ok reader s \<Longrightarrow> 0 < window_bits s"
  by (simp add: bitmap_ok_def window_bits_def)

text \<open>A window that holds a bit of the bitmap ends, in bits, at or before the bitmap.\<close>

lemma window_extent:
  assumes ok: "bitmap_ok reader s" and v: "v < unat (cb_data_bits s)"
  defines "k \<equiv> v div window_bits s"
  shows "length (w_bytes (window_read reader s (of_nat k))) = unat (window_len s (of_nat k))"
    and "w_valid (window_read reader s (of_nat k)) \<le> unat (window_len s (of_nat k))"
    and "k * window_bits s + 8 * unat (window_len s (of_nat k)) \<le> unat (cb_data_bits s)"
    and "unat (window_len s (of_nat k)) * 8 \<le> window_bits s"
proof -
  have fills: "length (snd (reader off n)) = n" for off n using ok by (simp add: bitmap_ok_def reader_fills_def)
  show "length (w_bytes (window_read reader s (of_nat k))) = unat (window_len s (of_nat k))"
    by (simp add: window_read_def Let_def fills)
  show "w_valid (window_read reader s (of_nat k)) \<le> unat (window_len s (of_nat k))"
    by (simp add: window_read_def Let_def unat_min_u64 split: option.split)
  note bits = data_bits_unat [OF ok]
  have "k * window_bits s \<le> v" by (simp add: k_def)
  then have kb: "k * (unat (cb_window_bytes s) * 8) < unat (cb_data_size s) * 8" using v bits by (simp add: window_bits_def)
  then have off_lt: "k * unat (cb_window_bytes s) < unat (cb_data_size s)" by simp
  have "k < 18446744073709551616"
  proof -
    have "k \<le> v" unfolding k_def by (rule div_le_dividend)
    then show ?thesis using v unat_u64_bound [of "cb_data_bits s"] by linarith
  qed
  then have k: "unat (of_nat k :: u64) = k" by (rule unat_of_nat_u64)
  have off: "unat (of_nat k * cb_window_bytes s) = k * unat (cb_window_bytes s)"
    using off_lt unat_u64_bound [of "cb_data_size s"] by (subst unat_u64_mult) (simp_all add: k)
  then have "of_nat k * cb_window_bytes s \<le> cb_data_size s" using off_lt by (simp add: u64_nat)
  then have len: "unat (window_len s (of_nat k)) = min (unat (cb_window_bytes s)) (unat (cb_data_size s) - k * unat (cb_window_bytes s))"
    by (simp add: window_len_def unat_min_u64 unat_u64_sub off)
  then have "k * unat (cb_window_bytes s) + unat (window_len s (of_nat k)) \<le> unat (cb_data_size s)"
    using off_lt by linarith
  then show "k * window_bits s + 8 * unat (window_len s (of_nat k)) \<le> unat (cb_data_bits s)"
    unfolding bits window_bits_def by (simp add: algebra_simps)
  show "unat (window_len s (of_nat k)) * 8 \<le> window_bits s" using len by (simp add: window_bits_def)
qed

lemma in_one_window:
  assumes "b div w = k" "b \<le> v" "v < (k + 1) * (w :: nat)"
  shows "v div w = k \<and> v mod w = v - k * w \<and> k * w \<le> v"
proof -
  have "k * w \<le> b" using assms(1) by (metis div_times_less_eq_dividend)
  then have kv: "k * w \<le> v" using assms(2) by simp
  moreover from this assms(3) have "v div w = k"
    by (intro div_nat_eqI) (simp_all add: mult.commute)
  moreover from this have "v mod w = v - k * w" by (metis minus_div_mult_eq_mod)
  ultimately show ?thesis by simp
qed

lemma ApplyBad_unjudged:
  assumes ok: "bitmap_ok reader s" and le: "bit_pos \<le> stop"
  shows "\<exists>s'. ApplyBad bit_pos stop \<lparr>jb_window = None, jb_base = base, jb_stop = js\<rparr>
      (c\<lparr>n_unknown := n_unknown c + (stop - bit_pos)\<rparr>) s =
      Inr (add_counts c (tally (\<lambda>v. False) S (bad_of s) {unat bit_pos..<unat stop}), s') \<and> bitmap_ok reader s' \<and>
      same_volume s s' \<and> cb_failed s' = cb_failed s"
proof -
  define b where "b = unat bit_pos"
  define e where "e = unat stop"
  define j where "j = \<lparr>jb_window = None, jb_base = base, jb_stop = js\<rparr>"
  have be: "b \<le> e" using le by (simp add: b_def e_def u64_nat)
  have bad: "bad_ok s" using ok by (simp add: bitmap_ok_def)
  have eff: "judged_stop bit_pos j = bit_pos" by (simp add: judged_stop_def j_def)
  have j: "judged_ok bit_pos stop j" using le by (simp add: judged_ok_def eff) (simp add: j_def)
  have sets: "judged_set bit_pos j = {}" "judged_clear bit_pos j = {}" "not_judged bit_pos stop j = {b..<e}"
    by (auto simp: judged_set_def judged_clear_def not_judged_def eff set_bits_def clear_bits_def b_def e_def)
  have left: "stop - bit_pos = of_nat (e - b)" unfolding b_def e_def by (rule u64_minus_of_nat [OF le])
  have none: "{v. b \<le> v \<and> v < b \<and> P v} = {}" for P by auto
  have "take_bad (c\<lparr>n_unknown := n_unknown c + of_nat (e - b)\<rparr>) 0 0 (card (bad_of s \<inter> {b..<e})) =
      add_counts c (tally (\<lambda>v. v < b) S (bad_of s) {b..<e})"
    using tally_take_bad [of b b e c S "bad_of s"] be by (simp add: none)
  also have "tally (\<lambda>v. v < b) S (bad_of s) {b..<e} = tally (\<lambda>v. False) S (bad_of s) {b..<e}"
    by (rule tally_cong) auto
  finally have tb: "take_bad (c\<lparr>n_unknown := n_unknown c + of_nat (e - b)\<rparr>) 0 0 (card (bad_of s \<inter> {b..<e})) =
      add_counts c (tally (\<lambda>v. False) S (bad_of s) {b..<e})" .
  have eq: "ApplyBad bit_pos stop j (c\<lparr>n_unknown := n_unknown c + (stop - bit_pos)\<rparr>) s =
      Inr (add_counts c (tally (\<lambda>v. False) S (bad_of s) {b..<e}), s\<lparr>cb_bad_with_clear_bit := (cb_bad_with_clear_bit s)\<rparr>)"
    unfolding left ApplyBad_result [OF j bad] sets using tb by simp
  show ?thesis
    unfolding j_def [symmetric] eq b_def [symmetric] e_def [symmetric]
    using ok by (intro exI conjI) (auto simp: bitmap_ok_flag same_volume_def)
qed

lemma count_window_result:
  assumes ok: "bitmap_ok reader s" and lt: "bit_pos < stop" and in_bits: "bit_pos < cb_data_bits s"
    and one: "unat stop \<le> (unat bit_pos div window_bits s + 1) * window_bits s"
  shows "\<exists>unread s'. count_window reader bit_pos stop c s =
      Inr (add_counts c (tally (\<lambda>v. bit_known reader s v \<and> \<not> unread) (cluster_bit reader s) (bad_of s)
             {unat bit_pos..<unat stop}), s') \<and>
    bitmap_ok reader s' \<and> same_volume s s' \<and> length (cb_failed s) \<le> length (cb_failed s') \<and>
    (unread \<longrightarrow> \<not> read_whole reader s (of_nat (unat bit_pos div window_bits s)) \<or> max_failed_windows \<le> length (cb_failed s'))"
proof -
  define b where "b = unat bit_pos"
  define e where "e = unat stop"
  define k where "k = b div window_bits s"
  define index where "index = bit_pos div (cb_window_bytes s * bits_per_byte)"
  define base where "base = index * (cb_window_bytes s * bits_per_byte)"
  define known_stop where "known_stop = min stop (cb_data_bits s)"
  have index: "index = of_nat k"
  proof (rule unat_u64_inj)
    have "k \<le> b" by (simp add: k_def)
    then have "k < 18446744073709551616" using unat_u64_bound [of bit_pos] by (simp add: b_def)
    then show "unat index = unat (of_nat k :: u64)"
      by (simp add: unat_of_nat_u64 index_def unat_div window_bits_unat [OF ok] k_def b_def)
  qed
  have base: "unat base = k * window_bits s"
    unfolding base_def index_def window_base_unat by (simp add: window_bits_unat [OF ok] k_def b_def)
  have base_le: "k * window_bits s \<le> b" by (simp add: k_def)
  have "b < unat (cb_data_bits s)" using in_bits by (simp add: b_def u64_nat)
  note ext = window_extent [OF ok this, folded k_def]
  have be: "b < e" using lt by (simp add: b_def e_def u64_nat)
  have known_gt: "bit_pos < known_stop" using lt in_bits by (simp add: known_stop_def)
  obtain wo s1 where load: "Load reader index s = (wo, s1)" by (cases "Load reader index s") auto
  note loaded = Load_result [OF ok load]
  have bad: "bad_ok s1" "bad_of s1 = bad_of s"
    using loaded same_volume_window [of s s1] by (auto simp: bitmap_ok_def)
  have in_window: "v div window_bits s = k" "v mod window_bits s = v - k * window_bits s" if "b \<le> v" "v < e" for v
    using in_one_window [of b "window_bits s" k v] that one by (simp_all add: k_def b_def e_def)
  have run: "count_window reader bit_pos stop c s =
    (let js = (case wo of None \<Rightarrow> bit_pos | Some w \<Rightarrow> min known_stop (base + of_nat (w_valid w) * bits_per_byte))
     in bind_r
          (case wo of
             Some w \<Rightarrow>
               if js > bit_pos then
                 bind_r (CountSet (w_bytes w) (unat (bit_pos - base)) (unat (js - base))) (\<lambda>set_bits.
                   Inr (c\<lparr>n_allocated := n_allocated c + set_bits, n_free := n_free c + ((js - bit_pos) - set_bits),
                          n_judged := n_judged c + (js - bit_pos)\<rparr>))
               else Inr c
           | None \<Rightarrow> Inr c)
          (\<lambda>c. ApplyBad bit_pos stop
                 \<lparr>jb_window = (if js > bit_pos then wo else None), jb_base = base, jb_stop = js\<rparr>
                 (c\<lparr>n_unknown := n_unknown c + (stop - max bit_pos js)\<rparr>) s1))"
    unfolding count_window_def Let_def index_def [symmetric] base_def [symmetric] known_stop_def [symmetric]
    using known_gt load by simp
  have unjudged: "\<exists>s'. ApplyBad bit_pos stop \<lparr>jb_window = None, jb_base = base, jb_stop = js\<rparr>
      (c\<lparr>n_unknown := n_unknown c + (stop - max bit_pos js)\<rparr>) s1 =
      Inr (add_counts c (tally (\<lambda>v. False) (cluster_bit reader s) (bad_of s) {b..<e}), s') \<and> bitmap_ok reader s' \<and>
      same_volume s s' \<and> cb_failed s' = cb_failed s1" if "js \<le> bit_pos" for js
  proof -
    have "max bit_pos js = bit_pos" using that by (rule max_absorb1)
    moreover have "bit_pos \<le> stop" using lt by simp
    moreover have "bitmap_ok reader s1" "same_volume s s1" using loaded by simp_all
    ultimately show ?thesis
      using ApplyBad_unjudged [of reader s1 bit_pos stop base js c "cluster_bit reader s"] bad(2)
      by (auto simp: b_def e_def intro: same_volume_trans)
  qed
  show ?thesis
  proof (cases wo)
    case None
    then have "\<not> read_whole reader s (of_nat k) \<or> max_failed_windows \<le> length (cb_failed s1)"
      using loaded by (simp add: index)
    moreover obtain s' where s':
      "ApplyBad bit_pos stop \<lparr>jb_window = None, jb_base = base, jb_stop = bit_pos\<rparr>
        (c\<lparr>n_unknown := n_unknown c + (stop - max bit_pos bit_pos)\<rparr>) s1 =
        Inr (add_counts c (tally (\<lambda>v. False) (cluster_bit reader s) (bad_of s) {b..<e}), s')"
      "bitmap_ok reader s'" "same_volume s s'" "cb_failed s' = cb_failed s1"
      using unjudged [OF order_refl] by blast
    moreover have "count_window reader bit_pos stop c s =
        Inr (add_counts c (tally (\<lambda>v. False) (cluster_bit reader s) (bad_of s) {b..<e}), s')"
      unfolding run None option.case Let_def using s'(1) by simp
    moreover have same: "tally (\<lambda>v. False) (cluster_bit reader s) (bad_of s) {b..<e} =
        tally (\<lambda>v. bit_known reader s v \<and> \<not> True) (cluster_bit reader s) (bad_of s) {b..<e}" by simp
    ultimately show ?thesis
      using loaded unfolding b_def [symmetric] e_def [symmetric] k_def [symmetric] same
      by (intro exI [of _ True] exI [of _ s'] conjI) simp_all
  next
    case (Some w)
    define js where "js = min known_stop (base + of_nat (w_valid w) * bits_per_byte)"
    have w: "w = window_read reader s (of_nat k)" using loaded Some by (simp add: index)
    have valid: "w_valid w \<le> unat (window_len s (of_nat k))" using ext(2) by (simp add: w)
    have small: "k * window_bits s + 8 * w_valid w < 18446744073709551616"
      using ext(3) valid unat_u64_bound [of "cb_data_bits s"] by linarith
    have "unat (of_nat (w_valid w) * bits_per_byte :: u64) = 8 * w_valid w"
    proof -
      have "unat (of_nat (w_valid w) :: u64) = w_valid w" by (rule unat_of_nat_u64) (use small in linarith)
      then show ?thesis using small by (subst unat_u64_mult) (simp_all add: bits_per_byte_def)
    qed
    then have "unat (base + of_nat (w_valid w) * bits_per_byte) = k * window_bits s + 8 * w_valid w"
      using small base by (subst unat_u64_add) simp_all
    then have js: "unat js = min (min e (unat (cb_data_bits s))) (k * window_bits s + 8 * w_valid w)"
      by (simp add: js_def known_stop_def unat_min_u64 e_def)
    have known: "bit_known reader s v \<longleftrightarrow> v < unat js" if "b \<le> v" "v < e" for v
    proof -
      have "k * window_bits s \<le> v" using base_le that(1) by simp
      then have "v - k * window_bits s < 8 * w_valid w \<longleftrightarrow> v < k * window_bits s + 8 * w_valid w" by linarith
      then show ?thesis
        using in_window [OF that] that(2) by (auto simp: bit_known_def window_of_def w [symmetric] js)
    qed
    show ?thesis
    proof (cases "js > bit_pos")
      case False
      have "tally (\<lambda>v. False) (cluster_bit reader s) (bad_of s) {b..<e} =
          tally (bit_known reader s) (cluster_bit reader s) (bad_of s) {b..<e}"
        by (rule tally_cong) (use False known in \<open>auto simp: u64_nat b_def\<close>)
      then have same: "tally (\<lambda>v. False) (cluster_bit reader s) (bad_of s) {b..<e} =
          tally (\<lambda>v. bit_known reader s v \<and> \<not> False) (cluster_bit reader s) (bad_of s) {b..<e}" by simp
      have "js \<le> bit_pos" using False by simp
      from unjudged [OF this] obtain s' where s':
        "ApplyBad bit_pos stop \<lparr>jb_window = None, jb_base = base, jb_stop = js\<rparr>
          (c\<lparr>n_unknown := n_unknown c + (stop - max bit_pos js)\<rparr>) s1 =
          Inr (add_counts c (tally (\<lambda>v. False) (cluster_bit reader s) (bad_of s) {b..<e}), s')"
        "bitmap_ok reader s'" "same_volume s s'" "cb_failed s' = cb_failed s1" by blast
      have "count_window reader bit_pos stop c s =
          Inr (add_counts c (tally (\<lambda>v. False) (cluster_bit reader s) (bad_of s) {b..<e}), s')"
        unfolding run Some option.case js_def [symmetric] Let_def using False s'(1) by simp
      then show ?thesis
        using s'(2-4) loaded unfolding b_def [symmetric] e_def [symmetric] same
        by (intro exI [of _ False] exI [of _ s'] conjI) simp_all
    next
      case True
      then have bj: "b < unat js" by (simp add: b_def u64_nat)
      have je: "unat js \<le> e" by (simp add: js)
      define j where "j = \<lparr>jb_window = Some w, jb_base = base, jb_stop = js\<rparr>"
      have eff: "judged_stop bit_pos j = js" by (simp add: judged_stop_def j_def)
      have bytes: "judged_bytes j = w_bytes w" by (simp add: judged_bytes_def j_def)
      have base_bit: "base \<le> bit_pos" using base base_le by (simp add: u64_nat b_def)
      have room: "unat js - unat base \<le> 8 * length (w_bytes w)"
        using js base valid ext(1) by (simp add: w)
      have j: "judged_ok bit_pos stop j"
        using bj je base_bit room
        by (simp add: judged_ok_def eff u64_nat) (simp add: j_def b_def e_def u64_nat)
      define S where "S = (\<lambda>v. bit_set (w_bytes w) (v - unat base))"
      have sets: "judged_set bit_pos j = {v. b \<le> v \<and> v < unat js \<and> S v}"
        "judged_clear bit_pos j = {v. b \<le> v \<and> v < unat js \<and> \<not> S v}" "not_judged bit_pos stop j = {unat js..<e}"
        unfolding judged_set_def judged_clear_def not_judged_def eff bytes set_bits_def clear_bits_def S_def
        by (auto simp: b_def e_def j_def)
      have "base \<le> js" using base_bit True by (simp add: u64_nat)
      then have "unat (js - base) = unat js - unat base" "unat (bit_pos - base) = b - unat base"
        using base_bit by (simp_all add: unat_u64_sub b_def)
      then have cs: "CountSet (w_bytes w) (unat (bit_pos - base)) (unat (js - base)) =
          Inr (of_nat (card {v. b \<le> v \<and> v < unat js \<and> S v}))"
        using CountSet_result [of "unat js - unat base" "w_bytes w" "b - unat base"] room
          card_set_bits [of "unat base" b "w_bytes w" "unat js"] base_bit
        by (simp add: set_bits_def S_def b_def u64_nat)
      have jb: "js - bit_pos = of_nat (unat js - b)" using True by (simp add: u64_minus_of_nat b_def)
      have clear: "card {v. b \<le> v \<and> v < unat js \<and> \<not> S v} = (unat js - b) - card {v. b \<le> v \<and> v < unat js \<and> S v}"
        using card_clear_bits [of "w_bytes w" "unat base" b "unat js"] by (simp add: set_bits_def clear_bits_def S_def)
      have "card {v. b \<le> v \<and> v < unat js \<and> S v} \<le> unat js - b"
        using card_set_bits_le [of "w_bytes w" "unat base" b "unat js"] by (simp add: set_bits_def S_def)
      then have free: "js - bit_pos - of_nat (card {v. b \<le> v \<and> v < unat js \<and> S v}) =
          of_nat (card {v. b \<le> v \<and> v < unat js \<and> \<not> S v})"
        unfolding jb clear by (rule of_nat_diff_u64 [symmetric])
      have "max bit_pos js = js" using True by (simp add: max_absorb2)
      moreover have "stop - js = of_nat (unat stop - unat js)"
        by (rule u64_minus_of_nat) (use je in \<open>simp add: u64_nat e_def\<close>)
      ultimately have left: "stop - max bit_pos js = of_nat (e - unat js)" by (simp only: e_def)
      have "add_counts c (tally (\<lambda>v. v < unat js) S (bad_of s) {b..<e}) =
          add_counts c (tally (bit_known reader s) (cluster_bit reader s) (bad_of s) {b..<e})"
      proof (rule arg_cong [where f = "add_counts c"], rule tally_cong)
        show "(v < unat js) = bit_known reader s v" if "v \<in> {b..<e}" for v using known that by simp
        show "S v = cluster_bit reader s v" if "v \<in> {b..<e}" "v < unat js" for v
          using in_window [of v] that(1) by (simp add: S_def cluster_bit_def window_of_def w base)
      qed
      then have tb: "take_bad (c\<lparr>n_allocated := n_allocated c + of_nat (card {v. b \<le> v \<and> v < unat js \<and> S v}),
            n_free := n_free c + of_nat (card {v. b \<le> v \<and> v < unat js \<and> \<not> S v}),
            n_unknown := n_unknown c + of_nat (e - unat js), n_judged := n_judged c + of_nat (unat js - b)\<rparr>)
          (card (bad_of s \<inter> {v. b \<le> v \<and> v < unat js \<and> S v})) (card (bad_of s \<inter> {v. b \<le> v \<and> v < unat js \<and> \<not> S v}))
          (card (bad_of s \<inter> {unat js..<e})) =
          add_counts c (tally (\<lambda>v. bit_known reader s v \<and> \<not> False) (cluster_bit reader s) (bad_of s) {b..<e})"
        using tally_take_bad [of b "unat js" e c S "bad_of s"] bj je by simp
      define c1 where "c1 = c\<lparr>n_allocated := n_allocated c + of_nat (card {v. b \<le> v \<and> v < unat js \<and> S v}),
            n_free := n_free c + of_nat (card {v. b \<le> v \<and> v < unat js \<and> \<not> S v}),
            n_judged := n_judged c + of_nat (unat js - b)\<rparr>"
      have eq: "count_window reader bit_pos stop c s =
          ApplyBad bit_pos stop j (c1\<lparr>n_unknown := n_unknown c1 + of_nat (e - unat js)\<rparr>) s1"
        unfolding run Some option.case js_def [symmetric] Let_def
        using True by (simp only: if_True cs bind_r_simps free left j_def [symmetric]) (simp only: jb c1_def)
      have c1: "c1\<lparr>n_unknown := n_unknown c1 + of_nat (e - unat js)\<rparr> =
          c\<lparr>n_allocated := n_allocated c + of_nat (card {v. b \<le> v \<and> v < unat js \<and> S v}),
            n_free := n_free c + of_nat (card {v. b \<le> v \<and> v < unat js \<and> \<not> S v}),
            n_unknown := n_unknown c + of_nat (e - unat js), n_judged := n_judged c + of_nat (unat js - b)\<rparr>"
        by (simp add: c1_def)
      define s2 where "s2 = s1\<lparr>cb_bad_with_clear_bit := (cb_bad_with_clear_bit s1 \<or> bad_of s1 \<inter> judged_clear bit_pos j \<noteq> {})\<rparr>"
      have s2: "bitmap_ok reader s2" "same_volume s s2" "cb_failed s2 = cb_failed s1"
        using loaded by (simp_all add: s2_def bitmap_ok_flag same_volume_def)
      from eq have fin: "count_window reader bit_pos stop c s =
          Inr (add_counts c (tally (\<lambda>v. bit_known reader s v \<and> \<not> False) (cluster_bit reader s) (bad_of s) {b..<e}), s2)"
        unfolding c1 ApplyBad_result [OF j bad(1)] bad(2) sets tb by (simp add: s2_def bad(2) sets)
      show ?thesis
        unfolding fin b_def [symmetric] e_def [symmetric]
        using loaded s2 by (intro exI [of _ False] exI [of _ s2] conjI) simp_all
    qed
  qed
qed

lemma count_unjudged_result:
  assumes "bitmap_ok reader s" and "bit_pos \<le> last_bit"
  shows "\<exists>s'. count_unjudged bit_pos last_bit c s =
      Inr (add_counts c (tally (\<lambda>v. False) S (bad_of s) {unat bit_pos..<unat last_bit}), s') \<and> bitmap_ok reader s' \<and>
      same_volume s s' \<and> cb_failed s' = cb_failed s"
  unfolding count_unjudged_def by (rule ApplyBad_unjudged [OF assms])

lemma tally_empty [simp]: "tally J S B {} = no_counts"
  by (simp add: tally_def no_counts_def)

lemma add_no_counts [simp]: "add_counts c no_counts = c" "add_counts no_counts c = c"
  by (simp_all add: add_counts_def no_counts_def)

lemma same_volume_bits:
  assumes "same_volume s s'"
  shows "bit_judged reader s' = bit_judged reader s" "cluster_bit reader s' = cluster_bit reader s"
    "window_bits s' = window_bits s"
proof -
  have w: "window_bits s' = window_bits s" using assms by (simp add: same_volume_def window_bits_def)
  have k: "window_read reader s' k = window_read reader s k" for k using same_volume_window [OF assms] by blast
  show "cluster_bit reader s' = cluster_bit reader s"
    by (intro ext) (simp add: cluster_bit_def window_of_def w k)
  show "bit_judged reader s' = bit_judged reader s"
    using assms by (intro ext) (simp add: bit_judged_def bit_known_def window_of_def w k same_volume_def)
  show "window_bits s' = window_bits s" by (rule w)
qed

text \<open>The windows that could not be used: not read whole, or given up on.\<close>

definition unusable :: "bitmap_reader \<Rightarrow> cluster_bitmap \<Rightarrow> cluster_bitmap \<Rightarrow> nat set \<Rightarrow> bool" where
  "unusable reader s s' K \<longleftrightarrow>
     (\<forall>k \<in> K. \<not> read_whole reader s (of_nat k) \<or> max_failed_windows \<le> length (cb_failed s'))"

lemma count_loop_result:
  "bitmap_ok reader s \<Longrightarrow> \<exists>K s'. count_loop reader bit_pos last_bit c s =
     Inr (add_counts c (tally (bit_judged reader s K) (cluster_bit reader s) (bad_of s) {unat bit_pos..<unat last_bit}), s') \<and>
     bitmap_ok reader s' \<and> same_volume s s' \<and> length (cb_failed s) \<le> length (cb_failed s') \<and> unusable reader s s' K"
proof (induction reader bit_pos last_bit c s rule: count_loop.induct)
  case (1 reader bit_pos last_bit c s)
  note ok = "1.prems"
  define b where "b = unat bit_pos"
  define e where "e = unat last_bit"
  let ?J = "\<lambda>K. bit_judged reader s K" and ?S = "cluster_bit reader s" and ?B = "bad_of s"
  show ?case
  proof (cases "bit_pos < last_bit")
    case False
    then have "{b..<e} = {}" by (simp add: b_def e_def u64_nat)
    then show ?thesis using False ok
      by (intro exI [of _ "{}"] exI [of _ s])
        (simp add: count_loop.simps [of reader bit_pos] b_def [symmetric] e_def [symmetric] unusable_def)
  next
    case lt: True
    then have le: "bit_pos \<le> last_bit" by simp
    show ?thesis
    proof (cases "bit_pos \<ge> cb_data_bits s")
      case True
      have "tally (\<lambda>v. False) ?S ?B {b..<e} = tally (?J {}) ?S ?B {b..<e}"
        by (rule tally_cong) (use True in \<open>auto simp: bit_judged_def bit_known_def u64_nat b_def\<close>)
      with count_unjudged_result [OF ok le, of c ?S] obtain s' where
        "count_unjudged bit_pos last_bit c s = Inr (add_counts c (tally (?J {}) ?S ?B {b..<e}), s')"
        "bitmap_ok reader s'" "same_volume s s'" "cb_failed s' = cb_failed s"
        by (auto simp: b_def e_def)
      then show ?thesis using lt True
        by (intro exI [of _ "{}"] exI [of _ s'])
          (simp add: count_loop.simps [of reader bit_pos] b_def [symmetric] e_def [symmetric] unusable_def)
    next
      case in_bits: False
      define wb where "wb = cb_window_bytes s * bits_per_byte"
      define stop where "stop = window_stop wb bit_pos last_bit"
      define m where "m = unat stop"
      define k where "k = b div window_bits s"
      have wb: "unat wb = window_bits s" unfolding wb_def by (rule window_bits_unat [OF ok])
      then have nz: "wb \<noteq> 0" using window_bits_pos [OF ok] by auto
      have m: "b < m" "m \<le> e" using window_stop_bounds [OF nz lt] by (simp_all add: stop_def m_def b_def e_def)
      have m_eq: "m = min e ((k + 1) * window_bits s)"
        unfolding m_def stop_def window_stop_unat wb by (simp add: b_def e_def k_def)
      have one: "unat stop \<le> (unat bit_pos div window_bits s + 1) * window_bits s"
        unfolding m_def [symmetric] b_def [symmetric] k_def [symmetric] m_eq by simp
      have bs: "bit_pos < stop" using m by (simp add: u64_nat m_def b_def)
      from in_bits have "bit_pos < cb_data_bits s" by simp
      from count_window_result [OF ok bs this one, of c] obtain unread s1 where cw:
        "count_window reader bit_pos stop c s =
          Inr (add_counts c (tally (\<lambda>v. bit_known reader s v \<and> \<not> unread) ?S ?B {b..<m}), s1)"
        "bitmap_ok reader s1" "same_volume s s1" "length (cb_failed s) \<le> length (cb_failed s1)"
        "unread \<longrightarrow> \<not> read_whole reader s (of_nat k) \<or> max_failed_windows \<le> length (cb_failed s1)"
        unfolding b_def [symmetric] m_def [symmetric] k_def [symmetric] by blast
      define c1 where "c1 = add_counts c (tally (\<lambda>v. bit_known reader s v \<and> \<not> unread) ?S ?B {b..<m})"
      have run: "count_loop reader bit_pos last_bit c s =
        (if length (cb_failed s1) \<ge> max_failed_windows \<and> stop < last_bit then count_unjudged stop last_bit c1 s1
         else count_loop reader stop last_bit c1 s1)"
        using lt in_bits nz cw(1) unfolding wb_def
        by (subst count_loop.simps) (simp add: Let_def stop_def wb_def c1_def)
      have here: "v div window_bits s = k" if "b \<le> v" "v < m" for v
        using in_one_window [of b "window_bits s" k v] that m_eq by (simp add: k_def)
      have later: "v div window_bits s \<noteq> k" if "m \<le> v" "v < e" for v
      proof -
        have "(k + 1) * window_bits s \<le> v" using that m_eq by simp
        then have "k + 1 \<le> v div window_bits s"
          using window_bits_pos [OF ok] by (simp add: less_eq_div_iff_mult_less_eq)
        then show ?thesis by simp
      qed
      have join: "add_counts c1 (tally (?J K) ?S ?B {m..<e}) =
          add_counts c (tally (?J ((K - {k}) \<union> (if unread then {k} else {}))) ?S ?B {b..<e})" for K
      proof -
        let ?K = "(K - {k}) \<union> (if unread then {k} else {})"
        have "tally (\<lambda>v. bit_known reader s v \<and> \<not> unread) ?S ?B {b..<m} = tally (?J ?K) ?S ?B {b..<m}"
          by (rule tally_cong) (use here in \<open>auto simp: bit_judged_def\<close>)
        moreover have "tally (?J K) ?S ?B {m..<e} = tally (?J ?K) ?S ?B {m..<e}"
          by (rule tally_cong) (use later in \<open>auto simp: bit_judged_def\<close>)
        ultimately show ?thesis
          unfolding c1_def add_counts_assoc using tally_split [of b m e "?J ?K" ?S ?B] m by simp
      qed
      have usable: "unusable reader s s' ((K - {k}) \<union> (if unread then {k} else {}))"
        if "unusable reader s s' K" "length (cb_failed s1) \<le> length (cb_failed s')" for K s'
        using that cw(5) by (auto simp: unusable_def)
      have bits1: "bit_judged reader s1 = bit_judged reader s" "cluster_bit reader s1 = ?S" "bad_of s1 = ?B"
        using same_volume_bits [OF cw(3)] same_volume_window [OF cw(3)] by auto
      have unusable1: "unusable reader s1 s' K = unusable reader s s' K" for K s'
        using same_volume_window [OF cw(3)] by (simp add: unusable_def)
      show ?thesis
      proof (cases "length (cb_failed s1) \<ge> max_failed_windows \<and> stop < last_bit")
        case True
        have "stop \<le> last_bit" using True by auto
        from count_unjudged_result [OF cw(2) this, of c1 ?S] obtain s' where s':
          "count_unjudged stop last_bit c1 s1 = Inr (add_counts c1 (tally (\<lambda>v. False) ?S ?B {m..<e}), s')"
          "bitmap_ok reader s'" "same_volume s1 s'" "cb_failed s' = cb_failed s1"
          unfolding bits1 by (auto simp: m_def e_def)
        have "tally (\<lambda>v. False) ?S ?B {m..<e} = tally (?J UNIV) ?S ?B {m..<e}"
          by (rule tally_cong) (simp_all add: bit_judged_def)
        moreover have "unusable reader s s' UNIV" using True s'(4) by (simp add: unusable_def)
        ultimately show ?thesis
          using run True s' join [of UNIV] usable [of s' UNIV] cw(3,4) same_volume_trans [OF cw(3) s'(3)]
          unfolding b_def [symmetric] e_def [symmetric]
          by (intro exI [of _ "(UNIV - {k}) \<union> (if unread then {k} else {})"] exI [of _ s']) simp
      next
        case False
        have ih: "\<exists>K s'. count_loop reader stop last_bit c1 s1 =
            Inr (add_counts c1 (tally (bit_judged reader s1 K) (cluster_bit reader s1) (bad_of s1) {unat stop..<unat last_bit}), s') \<and>
            bitmap_ok reader s' \<and> same_volume s1 s' \<and> length (cb_failed s1) \<le> length (cb_failed s') \<and> unusable reader s1 s' K"
          by (rule "1.IH" [OF lt in_bits _ _ cw(1) [folded c1_def] refl False cw(2)])
            (use nz in \<open>simp_all add: wb_def stop_def\<close>)
        then obtain K s' where s':
          "count_loop reader stop last_bit c1 s1 = Inr (add_counts c1 (tally (?J K) ?S ?B {m..<e}), s')"
          "bitmap_ok reader s'" "same_volume s1 s'" "length (cb_failed s1) \<le> length (cb_failed s')" "unusable reader s s' K"
          unfolding bits1 unusable1 m_def [symmetric] e_def [symmetric] by blast
        show ?thesis
          using run False s' join [of K] usable [OF s'(5,4)] cw(4) same_volume_trans [OF cw(3) s'(3)]
          unfolding b_def [symmetric] e_def [symmetric]
          by (intro exI [of _ "(K - {k}) \<union> (if unread then {k} else {})"] exI [of _ s']) simp
      qed
    qed
  qed
qed

lemma Count_result:
  assumes "bitmap_ok reader s"
  shows "\<exists>K s'. Count reader a b s =
     Inr (tally (bit_judged reader s K) (cluster_bit reader s) (bad_of s) {unat a..<unat b}, s') \<and>
     bitmap_ok reader s' \<and> same_volume s s' \<and> unusable reader s s' K"
  using count_loop_result [OF assms, of a b no_counts] by (simp add: Count_def) blast

lemma unat_card_between: "unat (of_nat (card {v \<in> {unat a..<unat b}. P v}) :: u64) = card {v \<in> {unat a..<unat (b :: u64)}. P v}"
proof (rule unat_of_nat_u64)
  have "card {v \<in> {unat a..<unat b}. P v} \<le> card {unat a..<unat b}" by (rule card_mono) auto
  then show "card {v \<in> {unat a..<unat b}. P v} < 18446744073709551616" using unat_u64_bound [of b] by simp
qed

text \<open>
  C33. Count() of any range, from any state the class reaches: it never reads past a window, and
  returns. A cluster is judged when its bit lies in the bitmap and came back from the reader,
  unless its window is one of a set K of windows that did not come back whole or that were given
  up after 4096 failures. The counts are then exactly the clusters judged allocated, judged free,
  not judged, bad, and judged, with the bad ones taken out of the first three.
\<close>

theorem count_exact:
  assumes "bitmap_ok reader s"
  shows "\<exists>K c s'. Count reader a b s = Inr (c, s') \<and> bitmap_ok reader s' \<and> same_volume s s' \<and> unusable reader s s' K \<and>
    (let R = {unat a..<unat b}; J = bit_judged reader s K; S = cluster_bit reader s; B = bad_of s
     in unat (n_allocated c) = card {v \<in> R. J v \<and> S v \<and> v \<notin> B} \<and>
        unat (n_free c) = card {v \<in> R. J v \<and> \<not> S v \<and> v \<notin> B} \<and>
        unat (n_unknown c) = card {v \<in> R. \<not> J v \<and> v \<notin> B} \<and>
        unat (n_bad c) = card {v \<in> R. v \<in> B} \<and>
        unat (n_judged c) = card {v \<in> R. J v})"
proof -
  from Count_result [OF assms] obtain K s' where
    "Count reader a b s = Inr (tally (bit_judged reader s K) (cluster_bit reader s) (bad_of s) {unat a..<unat b}, s')"
    "bitmap_ok reader s'" "same_volume s s'" "unusable reader s s' K" by blast
  then show ?thesis
    unfolding Let_def
    by (intro exI [of _ K] exI [of _ "tally (bit_judged reader s K) (cluster_bit reader s) (bad_of s) {unat a..<unat b}"]
        exI [of _ s'] conjI) (simp_all only: tally_def counts.simps unat_card_between)
qed

section \<open>A bitmap that reads\<close>

text \<open>The reader over the bytes of a bitmap held somewhere: it never fails, and pads past them.\<close>

definition file_reader :: "byte list \<Rightarrow> bitmap_reader" where
  "file_reader bytes off n = (Some u64_max, take n (drop (unat off) bytes @ replicate n 0))"

lemma file_reader_fills: "reader_fills (file_reader bytes)"
proof -
  have "min (l - a) n + (n - (l - a)) = n" for l a n :: nat by linarith
  then show ?thesis by (simp add: reader_fills_def file_reader_def)
qed

lemma file_reader_whole: "read_whole (file_reader bytes) s k"
proof -
  have "min u64_max (window_len s k) = window_len s k" by (rule min_absorb2) simp
  then show ?thesis by (simp add: read_whole_def window_read_def file_reader_def Let_def)
qed

text \<open>An object over such a reader never has a failed window.\<close>

lemma file_no_failure: "bitmap_ok (file_reader bytes) s \<Longrightarrow> cb_failed s = []"
  using file_reader_whole by (cases "cb_failed s") (auto simp: bitmap_ok_def)

lemma file_usable: "bitmap_ok (file_reader bytes) s' \<Longrightarrow> unusable (file_reader bytes) s s' K \<Longrightarrow> K = {}"
  using file_reader_whole file_no_failure by (fastforce simp: unusable_def max_failed_windows_def)

lemma file_bit:
  assumes ok: "bitmap_ok (file_reader bytes) s" and size: "unat (cb_data_size s) = length bytes"
    and v: "v < 8 * length bytes"
  shows "bit_known (file_reader bytes) s v" and "cluster_bit (file_reader bytes) s v = bit_set bytes v"
proof -
  let ?wb = "window_bits s" and ?k = "v div window_bits s"
  have bits: "v < unat (cb_data_bits s)" using data_bits_unat [OF ok] size v by simp
  note ext = window_extent [OF ok bits]
  have pos: "0 < ?wb" by (rule window_bits_pos [OF ok])
  define n where "n = unat (window_len s (of_nat ?k))"
  have valid: "w_valid (window_of (file_reader bytes) s v) = n"
    using file_reader_whole [of bytes s "of_nat ?k"] by (simp add: read_whole_def window_of_def n_def)
  have "?k < 18446744073709551616"
  proof -
    have "?k \<le> v" by simp
    then show ?thesis using bits unat_u64_bound [of "cb_data_bits s"] by linarith
  qed
  then have k: "unat (of_nat ?k :: u64) = ?k" by (rule unat_of_nat_u64)
  have split: "v = ?k * ?wb + v mod ?wb" by simp
  have wb: "?wb = 8 * unat (cb_window_bytes s)" by (simp add: window_bits_def)
  have "?k * ?wb \<le> v" by (rule div_times_less_eq_dividend)
  moreover have "?k * ?wb = 8 * (?k * unat (cb_window_bytes s))" unfolding window_bits_def by (simp add: algebra_simps)
  ultimately have kv: "8 * (?k * unat (cb_window_bytes s)) \<le> v" by linarith
  then have off_lt: "?k * unat (cb_window_bytes s) < unat (cb_data_size s)" using v size by linarith
  have off: "unat (of_nat ?k * cb_window_bytes s) = ?k * unat (cb_window_bytes s)"
    using off_lt unat_u64_bound [of "cb_data_size s"] by (subst unat_u64_mult) (simp_all add: k)
  have "of_nat ?k * cb_window_bytes s \<le> cb_data_size s" using off_lt off by (simp add: u64_nat)
  then have n: "n = min (unat (cb_window_bytes s)) (length bytes - ?k * unat (cb_window_bytes s))"
    by (simp add: n_def window_len_def unat_min_u64 unat_u64_sub off size)
  have in_win: "v mod ?wb < 8 * n"
  proof -
    have "v mod ?wb < 8 * unat (cb_window_bytes s)" using pos mod_less_divisor [of ?wb v] wb by simp
    moreover have "v mod ?wb < 8 * (length bytes - ?k * unat (cb_window_bytes s))"
    proof -
      have "v = 8 * (?k * unat (cb_window_bytes s)) + v mod ?wb" using split wb by simp
      then show ?thesis using v by linarith
    qed
    ultimately show ?thesis unfolding n by (simp add: min_def)
  qed
  then show "bit_known (file_reader bytes) s v" using bits valid by (simp add: bit_known_def)
  have "w_bytes (window_of (file_reader bytes) s v) =
      take n (drop (?k * unat (cb_window_bytes s)) bytes @ replicate n 0)"
    by (simp add: window_of_def window_read_def file_reader_def Let_def off n_def)
  moreover have "?k * unat (cb_window_bytes s) + v mod ?wb div 8 = v div 8"
  proof -
    have "v = 8 * (?k * unat (cb_window_bytes s)) + v mod ?wb" using split wb by simp
    then have "v div 8 = (8 * (?k * unat (cb_window_bytes s)) + v mod ?wb) div 8" by (rule arg_cong)
    then show ?thesis by simp
  qed
  moreover have "v mod ?wb mod 8 = v mod 8" by (simp add: wb mod_mod_cancel)
  moreover have "v mod ?wb div 8 < n" using in_win by (simp add: less_mult_imp_div_less mult.commute)
  moreover have "v div 8 < length bytes" using v by (simp add: less_mult_imp_div_less mult.commute)
  moreover from calculation(2,5) have "v mod ?wb div 8 < length bytes - ?k * unat (cb_window_bytes s)" by linarith
  ultimately show "cluster_bit (file_reader bytes) s v = bit_set bytes v"
    by (simp add: cluster_bit_def bit_set_def nth_append)
qed

section \<open>Queries\<close>

text \<open>The state of one cluster, from the bytes of the bitmap, the bad list and the volume's size.\<close>

definition state_at :: "byte list \<Rightarrow> nat set \<Rightarrow> nat \<Rightarrow> nat \<Rightarrow> cluster_state" where
  "state_at bytes bad limit v =
    (if v \<ge> limit then OutOfRange
     else if v \<in> bad then Bad
     else if v \<ge> 8 * length bytes then Unknown
     else if bit_set bytes v then Allocated else Free)"

text \<open>The state of a range, as include/ntfs-browser/alloc/types.h defines it.\<close>

definition range_state :: "(nat \<Rightarrow> cluster_state) \<Rightarrow> nat set \<Rightarrow> cluster_state" where
  "range_state st R =
    (if \<exists>v \<in> R. st v = Allocated then Allocated
     else if \<exists>v \<in> R. st v = Bad then Bad
     else if \<exists>v \<in> R. st v = OutOfRange then OutOfRange
     else if \<exists>v \<in> R. st v = Unknown then Unknown
     else Free)"

definition volume_state :: "byte list \<Rightarrow> cluster_bitmap \<Rightarrow> nat \<Rightarrow> cluster_state" where
  "volume_state bytes s = state_at bytes (bad_of s) (unat (cb_limit s))"

definition answered :: "(nat \<Rightarrow> cluster_state) \<Rightarrow> range_query \<Rightarrow> range_query \<Rightarrow> bool" where
  "answered st q q' \<longleftrightarrow>
    (let R = {unat (rq_lcn q)..<unat (rq_lcn q) + unat (rq_clusters q)}
     in rq_lcn q' = rq_lcn q \<and> rq_clusters q' = rq_clusters q \<and> rq_state q' = range_state st R \<and>
        unat (rq_allocated q') = card {v \<in> R. st v = Allocated} \<and>
        unat (rq_free q') = card {v \<in> R. st v = Free} \<and> unat (rq_bad q') = card {v \<in> R. st v = Bad})"

definition over_bytes :: "byte list \<Rightarrow> cluster_bitmap \<Rightarrow> bool" where
  "over_bytes bytes s \<longleftrightarrow> bitmap_ok (file_reader bytes) s \<and> unat (cb_data_size s) = length bytes"

lemma over_bytes_keep: "over_bytes bytes s \<Longrightarrow> bitmap_ok (file_reader bytes) s' \<Longrightarrow> same_volume s s' \<Longrightarrow> over_bytes bytes s'"
  by (simp add: over_bytes_def same_volume_def)

lemma volume_state_same: "same_volume s s' \<Longrightarrow> volume_state bytes s' = volume_state bytes s"
  using same_volume_window [of s s'] by (simp add: volume_state_def same_volume_def)

lemma Count_over_bytes:
  assumes ok: "over_bytes bytes s" and b: "unat b \<le> unat (cb_limit s)"
  shows "\<exists>c s'. Count (file_reader bytes) a b s = Inr (c, s') \<and> over_bytes bytes s' \<and> same_volume s s' \<and>
    (let R = {unat a..<unat b}; st = volume_state bytes s
     in unat (n_allocated c) = card {v \<in> R. st v = Allocated} \<and> unat (n_free c) = card {v \<in> R. st v = Free} \<and>
        unat (n_unknown c) = card {v \<in> R. st v = Unknown} \<and> unat (n_bad c) = card {v \<in> R. st v = Bad})"
proof -
  have bok: "bitmap_ok (file_reader bytes) s" and size: "unat (cb_data_size s) = length bytes"
    using ok by (simp_all add: over_bytes_def)
  let ?J = "bit_judged (file_reader bytes) s {}" and ?S = "cluster_bit (file_reader bytes) s"
  from Count_result [OF bok, of a b] obtain K s' where run:
    "Count (file_reader bytes) a b s = Inr (tally (bit_judged (file_reader bytes) s K) ?S (bad_of s) {unat a..<unat b}, s')"
    "bitmap_ok (file_reader bytes) s'" "same_volume s s'" "unusable (file_reader bytes) s s' K" by blast
  have K: "K = {}" by (rule file_usable [OF run(2,4)])
  have judged: "?J v \<longleftrightarrow> v < 8 * length bytes" for v
  proof
    assume "?J v"
    then show "v < 8 * length bytes" using data_bits_unat [OF bok] size by (simp add: bit_judged_def bit_known_def)
  next
    assume "v < 8 * length bytes"
    then show "?J v" using file_bit(1) [OF bok size] by (simp add: bit_judged_def)
  qed
  let ?R = "{unat a..<unat b}" and ?st = "volume_state bytes s"
  have in_limit: "v < unat (cb_limit s)" if "v \<in> ?R" for v using that b by simp
  have sets: "{v \<in> ?R. ?J v \<and> ?S v \<and> v \<notin> bad_of s} = {v \<in> ?R. ?st v = Allocated}"
    "{v \<in> ?R. ?J v \<and> \<not> ?S v \<and> v \<notin> bad_of s} = {v \<in> ?R. ?st v = Free}"
    "{v \<in> ?R. \<not> ?J v \<and> v \<notin> bad_of s} = {v \<in> ?R. ?st v = Unknown}"
    "{v \<in> ?R. v \<in> bad_of s} = {v \<in> ?R. ?st v = Bad}"
    using in_limit file_bit(2) [OF bok size]
    by (auto simp: judged volume_state_def state_at_def not_le split: if_splits)
  show ?thesis
    unfolding Let_def
    using run over_bytes_keep [OF ok run(2,3)]
    by (intro exI [of _ "tally ?J ?S (bad_of s) ?R"] exI [of _ s'] conjI)
      (simp_all only: K tally_def counts.simps unat_card_between sets)
qed

lemma answer_query_result:
  assumes ok: "over_bytes bytes s"
  shows "\<exists>q' s'. answer_query (file_reader bytes) q s = Inr (q', s') \<and> answered (volume_state bytes s) q q' \<and>
    over_bytes bytes s' \<and> same_volume s s'"
proof -
  let ?st = "volume_state bytes s"
  define lo where "lo = unat (rq_lcn q)"
  define n where "n = unat (rq_clusters q)"
  define limit where "limit = unat (cb_limit s)"
  define R where "R = {lo..<lo + n}"
  have out: "?st v = OutOfRange \<longleftrightarrow> limit \<le> v" for v by (simp add: volume_state_def state_at_def limit_def)
  consider (empty) "rq_clusters q = 0" | (past) "rq_clusters q \<noteq> 0" "rq_lcn q \<ge> cb_limit s"
    | (judge) "rq_clusters q \<noteq> 0" "rq_lcn q < cb_limit s" by fastforce
  then show ?thesis
  proof cases
    case empty
    then show ?thesis using ok
      by (intro exI conjI) (auto simp: answer_query_def answered_def range_state_def Let_def)
  next
    case past
    then have "limit \<le> lo" by (simp add: limit_def lo_def u64_nat)
    then have all: "?st v = OutOfRange" if "v \<in> R" for v using that out by (simp add: R_def)
    have "n \<noteq> 0" using past(1) by (simp add: n_def unat_eq_zero)
    then have "lo \<in> R" by (simp add: R_def)
    then have "range_state ?st R = OutOfRange" using all by (auto simp: range_state_def)
    moreover have "card {v \<in> R. ?st v = Allocated} = 0" "card {v \<in> R. ?st v = Free} = 0" "card {v \<in> R. ?st v = Bad} = 0"
      using all by (simp_all add: card_eq_0_iff)
    ultimately show ?thesis using past ok
      by (intro exI conjI)
        (auto simp: answer_query_def answered_def Let_def R_def [symmetric] lo_def [symmetric] n_def [symmetric])
  next
    case judge
    define beyond where "beyond = (rq_clusters q > cb_limit s - rq_lcn q)"
    define end_lcn where "end_lcn = (if beyond then cb_limit s else rq_lcn q + rq_clusters q)"
    have lt: "lo < limit" using judge(2) by (simp add: lo_def limit_def u64_nat)
    have "unat (cb_limit s - rq_lcn q) = limit - lo" using judge(2) by (simp add: unat_u64_sub lo_def limit_def)
    then have beyond: "beyond \<longleftrightarrow> limit < lo + n" using lt by (simp add: beyond_def u64_nat n_def) linarith
    have en: "unat end_lcn = min limit (lo + n)"
    proof (cases beyond)
      case True
      then show ?thesis using beyond by (simp add: end_lcn_def limit_def)
    next
      case False
      then have "lo + n \<le> limit" using beyond by simp
      then have "lo + n < 18446744073709551616" using unat_u64_bound [of "cb_limit s"] by (simp add: limit_def)
      then have "unat (rq_lcn q + rq_clusters q) = lo + n" unfolding lo_def n_def by (rule unat_u64_add)
      then show ?thesis using False beyond by (simp add: end_lcn_def)
    qed
    have "unat end_lcn \<le> unat (cb_limit s)" using en by (simp add: limit_def)
    from Count_over_bytes [OF ok this, of "rq_lcn q"] obtain c s' where c:
      "Count (file_reader bytes) (rq_lcn q) end_lcn s = Inr (c, s')" "over_bytes bytes s'" "same_volume s s'"
      "unat (n_allocated c) = card {v \<in> {lo..<unat end_lcn}. ?st v = Allocated}"
      "unat (n_free c) = card {v \<in> {lo..<unat end_lcn}. ?st v = Free}"
      "unat (n_unknown c) = card {v \<in> {lo..<unat end_lcn}. ?st v = Unknown}"
      "unat (n_bad c) = card {v \<in> {lo..<unat end_lcn}. ?st v = Bad}"
      unfolding Let_def lo_def by blast
    have same: "{v \<in> {lo..<unat end_lcn}. ?st v = X} = {v \<in> R. ?st v = X}" if "X \<noteq> OutOfRange" for X
    proof (rule Collect_cong)
      fix v
      show "v \<in> {lo..<unat end_lcn} \<and> ?st v = X \<longleftrightarrow> v \<in> R \<and> ?st v = X"
      proof (cases "?st v = X")
        case True
        then have "v < limit" using out [of v] that by (simp add: not_le [symmetric])
        then show ?thesis using True by (simp add: en R_def)
      qed simp
    qed
    have "Allocated \<noteq> OutOfRange" "Free \<noteq> OutOfRange" "Unknown \<noteq> OutOfRange" "Bad \<noteq> OutOfRange" by simp_all
    note same4 = this [THEN same]
    note counted = c(4) [unfolded same4(1)] c(5) [unfolded same4(2)] c(6) [unfolded same4(3)] c(7) [unfolded same4(4)]
    have fin: "finite R" by (simp add: R_def)
    have positive: "w > 0 \<longleftrightarrow> (\<exists>v \<in> R. ?st v = X)"
      if "unat w = card {v \<in> R. ?st v = X}" for w :: u64 and X
    proof -
      have "w > 0 \<longleftrightarrow> card {v \<in> R. ?st v = X} \<noteq> 0" using that by (simp add: word_less_nat_alt)
      also have "\<dots> \<longleftrightarrow> (\<exists>v \<in> R. ?st v = X)" using fin by (simp add: card_eq_0_iff) blast
      finally show ?thesis .
    qed
    have "beyond \<longleftrightarrow> (\<exists>v \<in> R. ?st v = OutOfRange)"
    proof
      assume beyond
      then have "limit \<in> R" using beyond lt by (simp add: R_def)
      then show "\<exists>v \<in> R. ?st v = OutOfRange" using out by blast
    next
      assume "\<exists>v \<in> R. ?st v = OutOfRange"
      then show beyond using beyond out by (auto simp: R_def)
    qed
    then have state: "state_of_counts c beyond = range_state ?st R"
      using positive [OF counted(1)] positive [OF counted(3)] positive [OF counted(4)]
      by (simp add: state_of_counts_def range_state_def)
    have "answer_query (file_reader bytes) q s =
        Inr (q\<lparr>rq_allocated := n_allocated c, rq_free := n_free c, rq_bad := n_bad c,
               rq_state := state_of_counts c beyond\<rparr>, s')"
      using judge c(1) unfolding end_lcn_def
      by (cases beyond) (simp_all add: answer_query_def Let_def beyond_def [symmetric] not_le)
    then show ?thesis using c(2,3) counted state
      by (intro exI conjI) (auto simp: answered_def Let_def R_def [symmetric] lo_def [symmetric] n_def [symmetric])
  qed
qed

lemma answer_in_order_result:
  assumes "over_bytes bytes s" "distinct idx" "\<forall>i \<in> set idx. i < length qs"
  shows "\<exists>qs' s'. answer_in_order (file_reader bytes) idx qs s = Inr (qs', s') \<and> over_bytes bytes s' \<and> same_volume s s' \<and>
    length qs' = length qs \<and> (\<forall>i \<in> set idx. answered (volume_state bytes s) (qs ! i) (qs' ! i)) \<and>
    (\<forall>i. i \<notin> set idx \<longrightarrow> qs' ! i = qs ! i)"
  using assms
proof (induction "idx" arbitrary: qs s)
  case (Cons i idx)
  from answer_query_result [OF Cons.prems(1), of "qs ! i"] obtain q' s1 where q:
    "answer_query (file_reader bytes) (qs ! i) s = Inr (q', s1)" "answered (volume_state bytes s) (qs ! i) q'"
    "over_bytes bytes s1" "same_volume s s1" by blast
  have "distinct idx" "\<forall>k \<in> set idx. k < length (qs[i := q'])" using Cons.prems by simp_all
  from Cons.IH [OF q(3) this] obtain qs' s' where ih:
    "answer_in_order (file_reader bytes) idx (qs[i := q']) s1 = Inr (qs', s')" "over_bytes bytes s'" "same_volume s1 s'"
    "length qs' = length qs" "\<forall>k \<in> set idx. answered (volume_state bytes s) ((qs[i := q']) ! k) (qs' ! k)"
    "\<forall>k. k \<notin> set idx \<longrightarrow> qs' ! k = qs[i := q'] ! k"
    unfolding volume_state_same [OF q(4)] by auto
  have "i \<notin> set idx" "i < length qs" using Cons.prems by simp_all
  then have "\<forall>k \<in> set (i # idx). answered (volume_state bytes s) (qs ! k) (qs' ! k)"
  proof (intro ballI)
    fix k assume k: "k \<in> set (i # idx)"
    show "answered (volume_state bytes s) (qs ! k) (qs' ! k)"
    proof (cases "k = i")
      case True
      then show ?thesis using ih(6) q(2) \<open>i \<notin> set idx\<close> \<open>i < length qs\<close> by simp
    next
      case False
      with k have "k \<in> set idx" by simp
      from ih(5) [rule_format, OF this] False show ?thesis by simp
    qed
  qed
  moreover have "\<forall>k. k \<notin> set (i # idx) \<longrightarrow> qs' ! k = qs ! k" using ih(6) by simp
  ultimately show ?case
    using q(1) ih(1-4) same_volume_trans [OF q(4) ih(3)] by (intro exI conjI) auto
qed auto

text \<open>
  C22. StatesInOrder() on the bitmap of a volume, from any state the class reaches: whatever the
  size of the windows, the windows held or kept, and the order of the queries, every query is
  answered in its place with the state of its range and its counts of allocated, free and bad
  clusters, as the bytes of the bitmap, the bad list and the volume's size define them.
\<close>

theorem states_in_order_exact:
  assumes "over_bytes bytes s"
  shows "\<exists>qs' s'. StatesInOrder (file_reader bytes) qs s = Inr (qs', s') \<and> over_bytes bytes s' \<and> same_volume s s' \<and>
    list_all2 (answered (volume_state bytes s)) qs qs'"
proof -
  let ?idx = "sort_key (\<lambda>i. rq_lcn (qs ! i)) [0..<length qs]"
  have "distinct ?idx" "\<forall>i \<in> set ?idx. i < length qs" by simp_all
  from answer_in_order_result [OF assms this] obtain qs' s' where
    "answer_in_order (file_reader bytes) ?idx qs s = Inr (qs', s')" "over_bytes bytes s'" "same_volume s s'"
    "length qs' = length qs" "\<forall>i \<in> set ?idx. answered (volume_state bytes s) (qs ! i) (qs' ! i)" by blast
  then show ?thesis by (intro exI [of _ qs'] exI [of _ s']) (simp add: StatesInOrder_def list_all2_conv_all_nth)
qed

lemma new_bitmap_over_bytes:
  assumes "unat data_size = length bytes" and "length bytes * 8 < 2 ^ 64" and "unat window_bytes * 8 < 2 ^ 64"
    and "list_usable l"
  shows "over_bytes bytes (SetRetention max_bytes (SetBadList (Some l) (new_cluster_bitmap data_size cluster_count window_bytes)))"
proof -
  have "0 < unat (if window_bytes \<noteq> 0 then window_bytes else default_window_bytes)"
    "unat (if window_bytes \<noteq> 0 then window_bytes else default_window_bytes) * 8 < 2 ^ 64"
    using assms(3) by (auto simp: default_window_bytes_def unat_gt_0)
  then show ?thesis
    using assms by (simp add: over_bytes_def bitmap_ok_def file_reader_fills bad_ok_def SetRetention_def SetBadList_def
        new_cluster_bitmap_def Let_def)
qed

text \<open>
  A new bitmap over the bytes of a file, with the volume's bad list attached and any
  retention, is in a state the queries are exact from.
\<close>

lemma new_bitmap_ready:
  assumes "unat data_size = length bytes" and "length bytes * 8 < 2 ^ 64" and "unat window_bytes * 8 < 2 ^ 64"
    and "list_usable l"
  shows "over_bytes bytes (SetRetention max_bytes (SetBadList (Some l) (new_cluster_bitmap data_size cluster_count window_bytes)))"
  by (rule new_bitmap_over_bytes [OF assms])

section \<open>A bitmap the theorems apply to\<close>

definition sample_bytes :: "byte list" where "sample_bytes = [0x07, 0xF0, 0x00]"

definition sample_bitmap :: cluster_bitmap where
  "sample_bitmap = SetRetention 16 (SetBadList (Some sample_list) (new_cluster_bitmap 3 20 1))"

lemma sample_list_usable: "list_usable sample_list"
  by (rule Build_usable [OF build_sample])

lemma sample_over_bytes: "over_bytes sample_bytes sample_bitmap"
  unfolding sample_bitmap_def
  by (rule new_bitmap_over_bytes [OF _ _ _ sample_list_usable]) (simp_all add: sample_bytes_def)

lemma count_exact_witness:
  "\<exists>K c s'. Count (file_reader sample_bytes) 0 9 sample_bitmap = Inr (c, s') \<and>
     unusable (file_reader sample_bytes) sample_bitmap s' K \<and>
     unat (n_bad c) = card {v \<in> {0..<9}. v \<in> bad_of sample_bitmap}"
proof -
  have "bitmap_ok (file_reader sample_bytes) sample_bitmap" using sample_over_bytes by (simp add: over_bytes_def)
  from count_exact [OF this, of 0 9] show ?thesis by (fastforce simp: Let_def)
qed

lemma states_in_order_exact_witness:
  "\<exists>qs' s'. StatesInOrder (file_reader sample_bytes) [new_query 6 30, new_query 0 4] sample_bitmap = Inr (qs', s') \<and>
     list_all2 (answered (volume_state sample_bytes sample_bitmap)) [new_query 6 30, new_query 0 4] qs'"
  using states_in_order_exact [OF sample_over_bytes, of "[new_query 6 30, new_query 0 4]"] by blast

lemma new_bitmap_ready_witness:
  "over_bytes [7, 9] (SetRetention 0 (SetBadList (Some sample_list) (new_cluster_bitmap 2 0 0)))"
  by (rule new_bitmap_ready [OF _ _ _ sample_list_usable]) simp_all

end
