(* ===== verification/ClusterRuns.thy ===== *)
theory ClusterRuns
  imports ClusterBitmap
begin

text \<open>
  The runs of equal state of a range: StateRuns(), BitRuns(), OverlayBad(), AppendRun() and
  AppendBitRuns() of src/alloc/cluster-bitmap.cpp, on the state of ClusterBitmap. Bit positions
  inside a window are natural numbers; a read past the window's bytes is an error value. The index
  of the next bad extent is modelled by the list of the extents from it on.
\<close>

section \<open>Model\<close>

record cluster_run =
  cr_lcn :: u64
  cr_clusters :: u64
  cr_state :: cluster_state

definition AppendRun :: "u64 \<Rightarrow> u64 \<Rightarrow> cluster_state \<Rightarrow> cluster_run list \<Rightarrow> cluster_run list" where
  "AppendRun lcn clusters st runs =
    (if clusters = 0 then runs
     else if runs \<noteq> [] \<and> cr_state (last runs) = st \<and> cr_lcn (last runs) + cr_clusters (last runs) = lcn
     then butlast runs @ [(last runs)\<lparr>cr_clusters := cr_clusters (last runs) + clusters\<rparr>]
     else runs @ [\<lparr>cr_lcn = lcn, cr_clusters = clusters, cr_state = st\<rparr>])"

definition bit_at :: "byte list \<Rightarrow> nat \<Rightarrow> bool" where
  "bit_at bytes pos \<longleftrightarrow> (drop_bit (pos mod 8) (bytes ! (pos div 8)) AND 1) \<noteq> 0"

text \<open>The inner loop of AppendBitRuns(): the end of the run of one bit, whole bytes at a time.\<close>

function bit_run_end :: "byte list \<Rightarrow> bool \<Rightarrow> nat \<Rightarrow> nat \<Rightarrow> bitmap_error + nat" where
  "bit_run_end bytes is_set last_pos end_pos =
    (if end_pos < last_pos then
       if end_pos div 8 \<ge> length bytes then Inl BitmapOutOfBounds
       else if end_pos mod 8 = 0 \<and> last_pos - end_pos \<ge> 8 \<and> bytes ! (end_pos div 8) = (if is_set then 0xFF else 0)
       then bit_run_end bytes is_set last_pos (end_pos + 8)
       else if bit_at bytes end_pos \<noteq> is_set then Inr end_pos
       else bit_run_end bytes is_set last_pos (end_pos + 1)
     else Inr end_pos)"
  by pat_completeness auto
termination by (relation "measure (\<lambda>(bytes, b, l, e). l - e)") auto

declare bit_run_end.simps [simp del]

lemma bit_run_end_ge: "bit_run_end bytes is_set last_pos end_pos = Inr e \<Longrightarrow> end_pos \<le> e"
proof (induction bytes is_set last_pos end_pos rule: bit_run_end.induct)
  case (1 bytes is_set last_pos end_pos)
  from 1(3) show ?case
    by (subst (asm) bit_run_end.simps) (auto split: if_splits dest: 1(1,2))
qed

function AppendBitRuns ::
  "byte list \<Rightarrow> nat \<Rightarrow> nat \<Rightarrow> u64 \<Rightarrow> cluster_run list \<Rightarrow> bitmap_error + cluster_run list" where
  "AppendBitRuns bytes bit_pos last_pos lcn_base runs =
    (if bit_pos < last_pos then
       if bit_pos div 8 \<ge> length bytes then Inl BitmapOutOfBounds
       else
         case bit_run_end bytes (bit_at bytes bit_pos) last_pos (bit_pos + 1) of
           Inl e \<Rightarrow> Inl e
         | Inr end_pos \<Rightarrow>
             AppendBitRuns bytes end_pos last_pos lcn_base
               (AppendRun (lcn_base + of_nat bit_pos) (of_nat (end_pos - bit_pos))
                  (if bit_at bytes bit_pos then Allocated else Free) runs)
     else Inr runs)"
  by pat_completeness auto
termination
proof (relation "measure (\<lambda>(bytes, b, l, base, runs). l - b)", goal_cases)
  case (2 bytes bit_pos last_pos lcn_base runs e)
  from bit_run_end_ge [OF 2(3)] 2(1) show ?case by simp
qed simp

declare AppendBitRuns.simps [simp del]

text \<open>The bits of one window of the loop of BitRuns(), up to its stop.\<close>

definition run_window ::
  "bitmap_reader \<Rightarrow> u64 \<Rightarrow> u64 \<Rightarrow> cluster_run list \<Rightarrow> cluster_bitmap \<Rightarrow>
     bitmap_error + cluster_run list \<times> cluster_bitmap" where
  "run_window reader bit_pos stop runs s =
    (let window_bits = cb_window_bytes s * bits_per_byte;
         index = bit_pos div window_bits;
         base = index * window_bits;
         known_stop = min stop (cb_data_bits s);
         (window, s) = (if bit_pos < known_stop then Load reader index s else (None, s));
         judged_stop = (case window of None \<Rightarrow> bit_pos
                        | Some w \<Rightarrow> min known_stop (base + of_nat (w_valid w) * bits_per_byte))
     in bind_r
          (case window of
             Some w \<Rightarrow>
               if judged_stop > bit_pos
               then AppendBitRuns (w_bytes w) (unat (bit_pos - base)) (unat (judged_stop - base)) base runs
               else Inr runs
           | None \<Rightarrow> Inr runs)
          (\<lambda>runs. Inr (AppendRun (max bit_pos judged_stop) (stop - max bit_pos judged_stop) Unknown runs, s)))"

function BitRuns ::
  "bitmap_reader \<Rightarrow> u64 \<Rightarrow> u64 \<Rightarrow> cluster_run list \<Rightarrow> cluster_bitmap \<Rightarrow>
     bitmap_error + cluster_run list \<times> cluster_bitmap" where
  "BitRuns reader bit_pos last_bit runs s =
    (if bit_pos < last_bit then
       (if bit_pos \<ge> cb_data_bits s then Inr (AppendRun bit_pos (last_bit - bit_pos) Unknown runs, s)
        else if cb_window_bytes s * bits_per_byte = 0 then Inl BitmapDivisionByZero
        else
          let stop = window_stop (cb_window_bytes s * bits_per_byte) bit_pos last_bit
          in bind_r (run_window reader bit_pos stop runs s) (\<lambda>(runs, s).
               if length (cb_failed s) \<ge> max_failed_windows \<and> stop < last_bit
               then Inr (AppendRun stop (last_bit - stop) Unknown runs, s)
               else BitRuns reader stop last_bit runs s))
     else Inr (runs, s))"
  by pat_completeness auto
termination
proof (relation "measure (\<lambda>(r, b, l, runs, s). unat l - unat b)", goal_cases)
  case (2 reader b l runs s x xa xb xc)
  then have "unat b < unat x" "unat x \<le> unat l" using window_stop_bounds by blast+
  then have "unat l - unat x < unat l - unat b" by linarith
  then show ?case by simp
qed simp

declare BitRuns.simps [simp del]

definition run_end :: "cluster_run \<Rightarrow> u64" where
  "run_end r = cr_lcn r + cr_clusters r"

lemma u64_min_gt: "(at_lcn :: u64) < a \<Longrightarrow> at_lcn < b \<Longrightarrow> at_lcn < min a b"
  by simp

text \<open>The loop of OverlayBad() over one run, from \<open>at_lcn\<close> on.\<close>

function overlay_run ::
  "cluster_run \<Rightarrow> u64 \<Rightarrow> extent list \<Rightarrow> cluster_run list \<Rightarrow> bool \<Rightarrow> extent list \<times> cluster_run list \<times> bool" where
  "overlay_run run at_lcn bads merged flag =
    (if at_lcn < run_end run then
       case dropWhile (\<lambda>e. EndOf e \<le> at_lcn) bads of
         [] \<Rightarrow> ([], AppendRun at_lcn (run_end run - at_lcn) (cr_state run) merged, flag)
       | bad # rest \<Rightarrow>
           if ex_lcn bad \<ge> run_end run
           then (bad # rest, AppendRun at_lcn (run_end run - at_lcn) (cr_state run) merged, flag)
           else
             let merged = (if ex_lcn bad > at_lcn
                           then AppendRun at_lcn (ex_lcn bad - at_lcn) (cr_state run) merged else merged);
                 from_lcn = (if ex_lcn bad > at_lcn then ex_lcn bad else at_lcn);
                 to_lcn = min (EndOf bad) (run_end run)
             in overlay_run run to_lcn (bad # rest) (AppendRun from_lcn (to_lcn - from_lcn) Bad merged)
                  (flag \<or> cr_state run = Free)
     else (bads, merged, flag))"
  by pat_completeness auto
termination
proof (relation "measure (\<lambda>(run, a, b, m, f). unat (run_end run) - unat a)", goal_cases)
  case (2 run at_lcn bads merged flag bad rest x xa xb)
  have "\<not> EndOf bad \<le> at_lcn" using 2(2) by (metis dropWhile_eq_Cons_conv)
  then have "at_lcn < xb" using 2(1,6) by simp
  moreover have "xb \<le> run_end run" using 2(6) by simp
  ultimately have "unat (run_end run) - unat xb < unat (run_end run) - unat at_lcn"
    unfolding u64_nat by linarith
  then show ?case by simp
qed simp

declare overlay_run.simps [simp del]

fun overlay_runs :: "cluster_run list \<Rightarrow> extent list \<Rightarrow> cluster_run list \<Rightarrow> bool \<Rightarrow> cluster_run list \<times> bool" where
  "overlay_runs [] bads merged flag = (merged, flag)"
| "overlay_runs (run # runs) bads merged flag =
    (let (bads, merged, flag) = overlay_run run (cr_lcn run) bads merged flag
     in overlay_runs runs bads merged flag)"

definition OverlayBad :: "cluster_run list \<Rightarrow> cluster_bitmap \<Rightarrow> cluster_run list \<times> cluster_bitmap" where
  "OverlayBad runs s =
    (case cb_bad s of
       None \<Rightarrow> (runs, s)
     | Some l \<Rightarrow>
         if runs = [] then (runs, s)
         else
           let overlapping = Overlapping l (cr_lcn (hd runs)) (run_end (last runs))
           in if overlapping = [] then (runs, s)
              else
                let (merged, flag) = overlay_runs runs overlapping [] (cb_bad_with_clear_bit s)
                in (merged, s\<lparr>cb_bad_with_clear_bit := flag\<rparr>))"

definition StateRuns ::
  "bitmap_reader \<Rightarrow> u64 \<Rightarrow> u64 \<Rightarrow> cluster_bitmap \<Rightarrow> bitmap_error + cluster_run list \<times> cluster_bitmap" where
  "StateRuns reader lcn clusters s =
    (if clusters = 0 then Inr ([], s)
     else if lcn \<ge> cb_limit s then Inr ([\<lparr>cr_lcn = lcn, cr_clusters = clusters, cr_state = OutOfRange\<rparr>], s)
     else
       let beyond = (clusters > cb_limit s - lcn);
           end_lcn = (if beyond then cb_limit s else lcn + clusters)
       in bind_r (BitRuns reader lcn end_lcn [] s) (\<lambda>(runs, s).
            let (runs, s) = OverlayBad runs s
            in Inr (if beyond then AppendRun end_lcn (clusters - (end_lcn - lcn)) OutOfRange runs else runs, s)))"

section \<open>Maximal runs\<close>

text \<open>The runs are the cut of [lo, hi) into maximal stretches of one state.\<close>

fun maximal_runs :: "(nat \<Rightarrow> cluster_state) \<Rightarrow> nat \<Rightarrow> nat \<Rightarrow> cluster_run list \<Rightarrow> bool" where
  "maximal_runs st lo hi [] \<longleftrightarrow> lo = hi"
| "maximal_runs st lo hi (r # rs) \<longleftrightarrow>
     unat (cr_lcn r) = lo \<and> cr_clusters r \<noteq> 0 \<and>
     (\<forall>v \<in> {lo..<lo + unat (cr_clusters r)}. st v = cr_state r) \<and>
     (rs \<noteq> [] \<longrightarrow> cr_state (hd rs) \<noteq> cr_state r) \<and>
     maximal_runs st (lo + unat (cr_clusters r)) hi rs"

lemma maximal_runs_le: "maximal_runs st lo hi rs \<Longrightarrow> lo \<le> hi"
proof (induction rs arbitrary: lo)
  case (Cons r rs)
  then have "lo + unat (cr_clusters r) \<le> hi" by simp
  then show ?case by simp
qed simp

lemma maximal_runs_snoc:
  "maximal_runs st lo hi (rs @ [r]) \<longleftrightarrow>
     (\<exists>mid. maximal_runs st lo mid rs \<and> unat (cr_lcn r) = mid \<and> cr_clusters r \<noteq> 0 \<and>
       (\<forall>v \<in> {mid..<mid + unat (cr_clusters r)}. st v = cr_state r) \<and>
       (rs \<noteq> [] \<longrightarrow> cr_state (last rs) \<noteq> cr_state r) \<and> hi = mid + unat (cr_clusters r))"
proof (induction rs arbitrary: lo)
  case (Cons x xs)
  show ?case
  proof (cases xs)
    case Nil
    then show ?thesis using Cons.IH by auto
  next
    case (Cons y ys)
    then show ?thesis using Cons.IH by auto
  qed
qed auto

lemma maximal_runs_cong:
  "(\<And>v. lo \<le> v \<Longrightarrow> v < hi \<Longrightarrow> st v = st' v) \<Longrightarrow> maximal_runs st lo hi rs \<Longrightarrow> maximal_runs st' lo hi rs"
proof (induction rs arbitrary: lo)
  case (Cons r rs)
  have le: "lo + unat (cr_clusters r) \<le> hi" using maximal_runs_le Cons.prems(2) by fastforce
  have "maximal_runs st' (lo + unat (cr_clusters r)) hi rs" using Cons by auto
  moreover have "\<forall>v \<in> {lo..<lo + unat (cr_clusters r)}. st' v = cr_state r"
    using Cons.prems le by force
  ultimately show ?case using Cons.prems(2) by simp
qed simp

text \<open>Appending a run keeps the cut maximal, joined to the last run or not.\<close>

lemma AppendRun_maximal:
  assumes runs: "maximal_runs st lo mid runs" and lcn: "clusters \<noteq> 0 \<Longrightarrow> unat lcn = mid"
    and state: "\<And>v. mid \<le> v \<Longrightarrow> v < mid + unat clusters \<Longrightarrow> st v = s"
    and room: "mid + unat clusters < 18446744073709551616 \<or> (\<forall>v < mid. st v \<noteq> s)"
  shows "maximal_runs st lo (mid + unat clusters) (AppendRun lcn clusters s runs)"
proof (cases "clusters = 0")
  case True
  then show ?thesis using runs by (simp add: AppendRun_def)
next
  case False
  then have pos: "0 < unat clusters" by (simp add: unat_gt_0)
  note lcn = lcn [OF False]
  show ?thesis
  proof (cases runs rule: rev_cases)
    case Nil
    then show ?thesis using runs lcn state False by (simp add: AppendRun_def)
  next
    case (snoc rs r)
    from runs obtain m where m: "maximal_runs st lo m rs" "unat (cr_lcn r) = m" "cr_clusters r \<noteq> 0"
      "\<forall>v \<in> {m..<m + unat (cr_clusters r)}. st v = cr_state r" "rs \<noteq> [] \<longrightarrow> cr_state (last rs) \<noteq> cr_state r"
      "mid = m + unat (cr_clusters r)"
      unfolding snoc maximal_runs_snoc by blast
    have "unat (cr_lcn r + cr_clusters r) = mid"
      using m(2,6) lcn unat_u64_bound [of lcn] by (subst unat_u64_add) simp_all
    then have joined: "cr_lcn r + cr_clusters r = lcn" using lcn by (simp add: unat_u64_inj)
    show ?thesis
    proof (cases "cr_state r = s")
      case True
      have "0 < unat (cr_clusters r)" using m(3) by (simp add: unat_gt_0)
      then have "m < mid" "st m = s" using m(4,6) True by auto
      then have "mid + unat clusters < 18446744073709551616" using room by blast
      then have sum: "unat (cr_clusters r + clusters) = unat (cr_clusters r) + unat clusters"
        using m(6) by (intro unat_u64_add) simp
      then have "cr_clusters r + clusters \<noteq> 0" using pos by (metis add_is_0 less_irrefl unat_0)
      moreover have "\<forall>v \<in> {m..<m + unat (cr_clusters r + clusters)}. st v = s"
        using m(4,6) state True sum by (metis add.assoc atLeastLessThan_iff not_le)
      ultimately show ?thesis
        using m(1,2,5,6) True False joined sum
        by (simp add: snoc AppendRun_def maximal_runs_snoc add.assoc)
    next
      case neq: False
      let ?new = "\<lparr>cr_lcn = lcn, cr_clusters = clusters, cr_state = s\<rparr>"
      have "maximal_runs st lo (mid + unat clusters) (runs @ [?new])"
        unfolding maximal_runs_snoc using runs neq False lcn state snoc by (intro exI [of _ mid] conjI) auto
      then show ?thesis using neq False snoc by (simp add: AppendRun_def)
    qed
  qed
qed

section \<open>The runs of the bits\<close>

lemma bit_at_set: "bit_at bytes pos = bit_set bytes pos"
  by (simp add: bit_at_def bit_set_def bit_iff_odd_drop_bit and_one_eq odd_iff_mod_2_eq_one)

lemma whole_byte:
  assumes "bytes ! (pos div 8) = (if is_set then 0xFF else 0)" "pos mod 8 = 0" "pos \<le> v" "v < pos + 8"
  shows "bit_set bytes v = is_set"
proof -
  obtain k where k: "pos = 8 * k" using assms(2) by (auto simp: mod_eq_0_iff_dvd)
  then have "8 * k \<le> v" "v < 8 * (k + 1)" using assms(3,4) by simp_all
  then have "v div 8 = k" by (intro div_nat_eqI) simp_all
  then have "v div 8 = pos div 8" by (simp add: k)
  moreover have "bit (0xFF :: byte) j" if "j < 8" for j
  proof -
    have m: "(0xFF :: byte) = mask 8" by (simp add: mask_eq_exp_minus_1)
    show ?thesis unfolding m bit_mask_iff using that by simp
  qed
  ultimately show ?thesis using assms(1) by (simp add: bit_set_def)
qed

lemma bit_run_end_result:
  "last_pos \<le> 8 * length bytes \<Longrightarrow> end_pos \<le> last_pos \<Longrightarrow>
     \<exists>e. bit_run_end bytes is_set last_pos end_pos = Inr e \<and> end_pos \<le> e \<and> e \<le> last_pos \<and>
       (\<forall>v. end_pos \<le> v \<and> v < e \<longrightarrow> bit_set bytes v = is_set)"
proof (induction bytes is_set last_pos end_pos rule: bit_run_end.induct)
  case (1 bytes is_set last_pos end_pos)
  show ?case
  proof (cases "end_pos < last_pos")
    case False
    then show ?thesis using 1(4) by (subst bit_run_end.simps) auto
  next
    case lt: True
    have inb: "\<not> length bytes \<le> end_pos div 8" using lt 1(3) by linarith
    let ?whole = "end_pos mod 8 = 0 \<and> last_pos - end_pos \<ge> 8 \<and> bytes ! (end_pos div 8) = (if is_set then 0xFF else 0)"
    show ?thesis
    proof (cases ?whole)
      case True
      then have le: "end_pos + 8 \<le> last_pos" using lt by linarith
      from 1(1) [OF lt inb True 1(3) le] obtain e where e: "bit_run_end bytes is_set last_pos (end_pos + 8) = Inr e"
        "end_pos + 8 \<le> e" "e \<le> last_pos" "\<forall>v. end_pos + 8 \<le> v \<and> v < e \<longrightarrow> bit_set bytes v = is_set" by blast
      have "bit_run_end bytes is_set last_pos end_pos = Inr e"
        using lt inb True e(1) by (subst bit_run_end.simps) simp
      moreover have "bit_set bytes v = is_set" if "end_pos \<le> v" "v < e" for v
        using that e(4) whole_byte [of bytes end_pos is_set v] True by (cases "v < end_pos + 8") auto
      ultimately show ?thesis using e by (intro exI [of _ e]) auto
    next
      case nw: False
      show ?thesis
      proof (cases "bit_at bytes end_pos \<noteq> is_set")
        case True
        have "bit_run_end bytes is_set last_pos end_pos = Inr end_pos"
          using lt inb nw True by (subst bit_run_end.simps) (simp only: if_True if_False simp_thms)
        then show ?thesis using lt by auto
      next
        case False
        have le: "end_pos + 1 \<le> last_pos" using lt by simp
        from 1(2) [OF lt inb nw False 1(3) le] obtain e where e: "bit_run_end bytes is_set last_pos (end_pos + 1) = Inr e"
          "end_pos + 1 \<le> e" "e \<le> last_pos" "\<forall>v. end_pos + 1 \<le> v \<and> v < e \<longrightarrow> bit_set bytes v = is_set" by blast
        have "bit_run_end bytes is_set last_pos end_pos = Inr e"
          using lt inb nw False e(1) by (subst bit_run_end.simps) (simp only: if_True if_False simp_thms)
        moreover have "bit_set bytes v = is_set" if "end_pos \<le> v" "v < e" for v
          using that e(4) False by (cases "v = end_pos") (auto simp: bit_at_set)
        ultimately show ?thesis using e by (intro exI [of _ e]) auto
      qed
    qed
  qed
qed

lemma AppendBitRuns_result:
  "last_pos \<le> 8 * length bytes \<Longrightarrow> bit_pos \<le> last_pos \<Longrightarrow> unat lcn_base + last_pos < 18446744073709551616 \<Longrightarrow>
     maximal_runs st lo (unat lcn_base + bit_pos) runs \<Longrightarrow>
     (\<And>v. bit_pos \<le> v \<Longrightarrow> v < last_pos \<Longrightarrow> st (unat lcn_base + v) = (if bit_set bytes v then Allocated else Free)) \<Longrightarrow>
     \<exists>runs'. AppendBitRuns bytes bit_pos last_pos lcn_base runs = Inr runs' \<and>
       maximal_runs st lo (unat lcn_base + last_pos) runs'"
proof (induction bytes bit_pos last_pos lcn_base runs rule: AppendBitRuns.induct)
  case (1 bytes bit_pos last_pos lcn_base runs)
  show ?case
  proof (cases "bit_pos < last_pos")
    case False
    then show ?thesis using 1(3,5) by (subst AppendBitRuns.simps) simp
  next
    case lt: True
    have inb: "\<not> length bytes \<le> bit_pos div 8" using lt 1(2) by linarith
    have "bit_pos + 1 \<le> last_pos" using lt by simp
    from bit_run_end_result [OF 1(2) this, of "bit_at bytes bit_pos"] obtain e where
      e: "bit_run_end bytes (bit_at bytes bit_pos) last_pos (bit_pos + 1) = Inr e" "bit_pos + 1 \<le> e" "e \<le> last_pos"
      "\<forall>v. bit_pos + 1 \<le> v \<and> v < e \<longrightarrow> bit_set bytes v = bit_at bytes bit_pos" by blast
    define state where "state = (if bit_at bytes bit_pos then Allocated else Free)"
    define runs1 where "runs1 = AppendRun (lcn_base + of_nat bit_pos) (of_nat (e - bit_pos)) state runs"
    have small: "bit_pos < 18446744073709551616" "e - bit_pos < 18446744073709551616" using lt e(3) 1(4) by linarith+
    have sum: "unat (lcn_base + of_nat bit_pos) = unat lcn_base + bit_pos"
      using 1(4) lt small(1) by (subst unat_u64_add) (simp_all add: unat_of_nat_u64)
    have len: "unat (of_nat (e - bit_pos) :: u64) = e - bit_pos" using small(2) by (rule unat_of_nat_u64)
    have same: "bit_set bytes v = bit_at bytes bit_pos" if "bit_pos \<le> v" "v < e" for v
      using that e(4) by (cases "v = bit_pos") (auto simp: bit_at_set)
    have "maximal_runs st lo (unat lcn_base + bit_pos + unat (of_nat (e - bit_pos) :: u64)) runs1"
      unfolding runs1_def
    proof (rule AppendRun_maximal [OF 1(5)])
      show "unat (lcn_base + of_nat bit_pos) = unat lcn_base + bit_pos" by (rule sum)
      show "st v = state" if "unat lcn_base + bit_pos \<le> v" "v < unat lcn_base + bit_pos + unat (of_nat (e - bit_pos) :: u64)" for v
      proof -
        define u where "u = v - unat lcn_base"
        have u: "v = unat lcn_base + u" "bit_pos \<le> u" "u < e"
          using that e(2) unfolding u_def len by linarith+
        then have "st v = (if bit_set bytes u then Allocated else Free)" using 1(6) e(3) by simp
        then show ?thesis using same u by (simp add: state_def)
      qed
      show "unat lcn_base + bit_pos + unat (of_nat (e - bit_pos) :: u64) < 18446744073709551616 \<or>
          (\<forall>v < unat lcn_base + bit_pos. st v \<noteq> state)"
        using 1(4) e(2,3) len by linarith
    qed
    moreover have "unat lcn_base + bit_pos + unat (of_nat (e - bit_pos) :: u64) = unat lcn_base + e"
      using e(2) len by linarith
    ultimately have m: "maximal_runs st lo (unat lcn_base + e) runs1" by (simp only:)
    have rest: "st (unat lcn_base + v) = (if bit_set bytes v then Allocated else Free)" if "e \<le> v" "v < last_pos" for v
      using 1(6) that e(2) by simp
    have "AppendBitRuns bytes bit_pos last_pos lcn_base runs = AppendBitRuns bytes e last_pos lcn_base runs1"
      using lt inb e(1) by (subst AppendBitRuns.simps) (simp add: runs1_def state_def)
    then show ?thesis
      using 1(1) [OF lt inb e(1) 1(2) e(3) 1(4) m [unfolded runs1_def state_def] rest]
      by (simp add: runs1_def state_def)
  qed
qed

section \<open>The runs of the bitmap alone\<close>

definition bits_state :: "byte list \<Rightarrow> nat \<Rightarrow> cluster_state" where
  "bits_state bytes v = (if v \<ge> 8 * length bytes then Unknown else if bit_set bytes v then Allocated else Free)"

lemma over_bytes_bits: "over_bytes bytes s \<Longrightarrow> unat (cb_data_bits s) = 8 * length bytes"
  by (auto simp: over_bytes_def dest: data_bits_unat)

lemma over_bytes_Load:
  assumes ok: "over_bytes bytes s" and run: "Load (file_reader bytes) k s = (wo, s')"
  shows "wo = Some (window_read (file_reader bytes) s k) \<and> over_bytes bytes s' \<and> same_volume s s'"
proof -
  have bok: "bitmap_ok (file_reader bytes) s" using ok by (simp add: over_bytes_def)
  note l = Load_result [OF bok run]
  then have "cb_failed s' = []" by (intro file_no_failure) blast
  then show ?thesis
    using l file_reader_whole [of bytes s k] over_bytes_keep [OF ok]
    by (cases wo) (auto simp: max_failed_windows_def)
qed

lemma run_window_result:
  assumes ok: "over_bytes bytes s" and lt: "bit_pos < stop" and in_bits: "bit_pos < cb_data_bits s"
    and one: "unat stop \<le> (unat bit_pos div window_bits s + 1) * window_bits s"
    and runs: "maximal_runs (bits_state bytes) lo (unat bit_pos) runs"
  shows "\<exists>runs' s'. run_window (file_reader bytes) bit_pos stop runs s = Inr (runs', s') \<and> over_bytes bytes s' \<and>
    same_volume s s' \<and> maximal_runs (bits_state bytes) lo (unat stop) runs'"
proof -
  let ?r = "file_reader bytes"
  have bok: "bitmap_ok ?r s" and size: "unat (cb_data_size s) = length bytes"
    using ok by (simp_all add: over_bytes_def)
  define b where "b = unat bit_pos"
  define e where "e = unat stop"
  define k where "k = b div window_bits s"
  define index where "index = bit_pos div (cb_window_bytes s * bits_per_byte)"
  define base where "base = index * (cb_window_bytes s * bits_per_byte)"
  define known_stop where "known_stop = min stop (cb_data_bits s)"
  have index: "index = of_nat k"
  proof (rule unat_u64_inj)
    have "k \<le> b" by (simp add: k_def)
    then have "k < 18446744073709551616" using unat_u64_bound [of bit_pos] by (simp add: b_def)
    then show "unat index = unat (of_nat k :: u64)"
      by (simp add: unat_of_nat_u64 index_def unat_div window_bits_unat [OF bok] k_def b_def)
  qed
  have base: "unat base = k * window_bits s"
    unfolding base_def index_def window_base_unat by (simp add: window_bits_unat [OF bok] k_def b_def)
  have base_le: "k * window_bits s \<le> b" by (simp add: k_def)
  have bb: "b < unat (cb_data_bits s)" using in_bits by (simp add: b_def u64_nat)
  note ext = window_extent [OF bok this, folded k_def]
  have be: "b < e" using lt by (simp add: b_def e_def u64_nat)
  have known_gt: "bit_pos < known_stop" using lt in_bits by (simp add: known_stop_def)
  obtain wo s1 where load: "Load ?r index s = (wo, s1)" by (cases "Load ?r index s") auto
  define w where "w = window_read ?r s (of_nat k)"
  have wo: "wo = Some w" and s1: "over_bytes bytes s1" "same_volume s s1"
    using over_bytes_Load [OF ok load] by (simp_all add: w_def index)
  define js where "js = min known_stop (base + of_nat (w_valid w) * bits_per_byte)"
  have run: "run_window ?r bit_pos stop runs s =
      bind_r (if js > bit_pos then AppendBitRuns (w_bytes w) (unat (bit_pos - base)) (unat (js - base)) base runs else Inr runs)
        (\<lambda>runs. Inr (AppendRun (max bit_pos js) (stop - max bit_pos js) Unknown runs, s1))"
    unfolding run_window_def Let_def index_def [symmetric] base_def [symmetric] known_stop_def [symmetric]
    using known_gt load wo by (simp add: js_def)
  have valid: "w_valid w \<le> unat (window_len s (of_nat k))" using ext(2) by (simp add: w_def)
  have small: "k * window_bits s + 8 * w_valid w < 18446744073709551616"
    using ext(3) valid unat_u64_bound [of "cb_data_bits s"] by linarith
  have "unat (of_nat (w_valid w) * bits_per_byte :: u64) = 8 * w_valid w"
  proof -
    have "unat (of_nat (w_valid w) :: u64) = w_valid w" by (rule unat_of_nat_u64) (use small in linarith)
    then show ?thesis using small by (subst unat_u64_mult) (simp_all add: bits_per_byte_def)
  qed
  then have "unat (base + of_nat (w_valid w) * bits_per_byte) = k * window_bits s + 8 * w_valid w"
    using small base by (subst unat_u64_add) simp_all
  then have js: "unat js = min (min e (unat (cb_data_bits s))) (k * window_bits s + 8 * w_valid w)"
    by (simp add: js_def known_stop_def unat_min_u64 e_def)
  have in_window: "v div window_bits s = k" "v mod window_bits s = v - k * window_bits s" if "b \<le> v" "v < e" for v
    using in_one_window [of b "window_bits s" k v] that one by (simp_all add: k_def b_def e_def)
  have known: "v < unat js" if "b \<le> v" "v < e" "v < 8 * length bytes" for v
  proof -
    have "v mod window_bits s < 8 * w_valid w"
      using file_bit(1) [OF bok size that(3)] in_window(1) [OF that(1,2)] by (simp add: bit_known_def window_of_def w_def)
    then show ?thesis using that in_window(2) [OF that(1,2)] over_bytes_bits [OF ok] by (simp add: js)
  qed
  have bj: "b < unat js" using known [of b] be bb over_bytes_bits [OF ok] by simp
  then have gt: "bit_pos < js" by (simp add: b_def u64_nat)
  have je: "unat js \<le> e" by (simp add: js)
  have jl: "unat js \<le> 8 * length bytes" using over_bytes_bits [OF ok] by (simp add: js)
  have base_bit: "base \<le> bit_pos" using base base_le by (simp add: u64_nat b_def)
  then have "base \<le> js" using gt by (simp add: u64_nat)
  then have pos: "unat (js - base) = unat js - unat base" "unat (bit_pos - base) = b - unat base"
    using base_bit by (simp_all add: unat_u64_sub b_def)
  have ends: "unat base + (b - unat base) = unat bit_pos" "unat base + (unat js - unat base) = unat js"
    using base base_le bj by (simp_all add: b_def)
  have "\<exists>runs'. AppendBitRuns (w_bytes w) (b - unat base) (unat js - unat base) base runs = Inr runs' \<and>
      maximal_runs (bits_state bytes) lo (unat base + (unat js - unat base)) runs'"
  proof (rule AppendBitRuns_result)
    show "unat js - unat base \<le> 8 * length (w_bytes w)" using js base valid ext(1) by (simp add: w_def)
    show "b - unat base \<le> unat js - unat base" using bj by simp
    show "unat base + (unat js - unat base) < 18446744073709551616" unfolding ends by (rule unat_u64_bound)
    show "maximal_runs (bits_state bytes) lo (unat base + (b - unat base)) runs" unfolding ends by (rule runs)
    show "bits_state bytes (unat base + v) = (if bit_set (w_bytes w) v then Allocated else Free)"
      if "b - unat base \<le> v" "v < unat js - unat base" for v
    proof -
      define u where "u = unat base + v"
      have u: "b \<le> u" "u < unat js" "u < e" "u < 8 * length bytes" using that je jl unfolding u_def by linarith+
      have "cluster_bit ?r s u = bit_set (w_bytes w) v"
        using in_window [OF u(1,3)] by (simp add: cluster_bit_def window_of_def w_def u_def base)
      then show ?thesis using u(4) file_bit(2) [OF bok size u(4)] by (simp add: bits_state_def u_def)
    qed
  qed
  then obtain runs1 where runs1: "AppendBitRuns (w_bytes w) (b - unat base) (unat js - unat base) base runs = Inr runs1"
    "maximal_runs (bits_state bytes) lo (unat js) runs1" unfolding ends by blast
  have mx: "max bit_pos js = js" using gt by (simp add: max_absorb2)
  have left: "unat (stop - js) = e - unat js" using je by (subst unat_u64_sub) (simp_all add: u64_nat e_def)
  have "maximal_runs (bits_state bytes) lo (unat js + unat (stop - js)) (AppendRun js (stop - js) Unknown runs1)"
  proof (rule AppendRun_maximal [OF runs1(2)])
    show "unat js + unat (stop - js) < 18446744073709551616 \<or> (\<forall>v < unat js. bits_state bytes v \<noteq> Unknown)"
      using left je unat_u64_bound [of stop] by (simp add: e_def)
    show "bits_state bytes v = Unknown" if "unat js \<le> v" "v < unat js + unat (stop - js)" for v
      using known [of v] that left bj je by (auto simp: bits_state_def not_le)
  qed simp
  moreover have "unat js + unat (stop - js) = unat stop" using left je by (simp add: e_def)
  moreover have "run_window ?r bit_pos stop runs s = Inr (AppendRun js (stop - js) Unknown runs1, s1)"
    unfolding run mx pos using gt runs1(1) by simp
  ultimately show ?thesis using s1 by auto
qed

lemma BitRuns_result:
  "over_bytes bytes s \<Longrightarrow> bit_pos \<le> last_bit \<Longrightarrow> maximal_runs (bits_state bytes) lo (unat bit_pos) runs \<Longrightarrow>
     \<exists>runs' s'. BitRuns (file_reader bytes) bit_pos last_bit runs s = Inr (runs', s') \<and> over_bytes bytes s' \<and>
       same_volume s s' \<and> maximal_runs (bits_state bytes) lo (unat last_bit) runs'"
proof (induction "file_reader bytes" bit_pos last_bit runs s rule: BitRuns.induct)
  case (1 bit_pos last_bit runs s)
  have bok: "bitmap_ok (file_reader bytes) s" using 1(2) by (simp add: over_bytes_def)
  show ?case
  proof (cases "bit_pos < last_bit")
    case False
    then have "bit_pos = last_bit" using 1(3) by simp
    then show ?thesis using 1(2,4) by (subst BitRuns.simps) simp
  next
    case lt: True
    have le: "unat bit_pos \<le> unat last_bit" using 1(3) by (simp add: u64_nat)
    show ?thesis
    proof (cases "bit_pos \<ge> cb_data_bits s")
      case True
      have left: "unat (last_bit - bit_pos) = unat last_bit - unat bit_pos" using 1(3) by (rule unat_u64_sub)
      have "8 * length bytes \<le> unat bit_pos" using True over_bytes_bits [OF 1(2)] by (simp add: u64_nat)
      then have "maximal_runs (bits_state bytes) lo (unat bit_pos + unat (last_bit - bit_pos))
          (AppendRun bit_pos (last_bit - bit_pos) Unknown runs)"
        using left le unat_u64_bound [of last_bit]
        by (intro AppendRun_maximal [OF 1(4)]) (simp_all add: bits_state_def)
      then show ?thesis using 1(2) lt True left le by (subst BitRuns.simps) simp
    next
      case in_bits: False
      let ?wb = "cb_window_bytes s * bits_per_byte"
      define stop where "stop = window_stop ?wb bit_pos last_bit"
      have "unat ?wb \<noteq> 0" using window_bits_pos [OF bok] window_bits_unat [OF bok] by simp
      then have wb: "?wb \<noteq> 0" by (metis unat_0)
      note sb = window_stop_bounds [OF wb lt, folded stop_def]
      have so: "unat stop \<le> (unat bit_pos div window_bits s + 1) * window_bits s"
        unfolding stop_def window_stop_unat window_bits_unat [OF bok] by simp
      have "bit_pos < stop" "bit_pos < cb_data_bits s" using sb(1) in_bits by (simp_all add: u64_nat)
      from run_window_result [OF 1(2) this so 1(4)] obtain runs1 s1 where r:
        "run_window (file_reader bytes) bit_pos stop runs s = Inr (runs1, s1)" "over_bytes bytes s1" "same_volume s s1"
        "maximal_runs (bits_state bytes) lo (unat stop) runs1" by blast
      have nf: "\<not> (max_failed_windows \<le> length (cb_failed s1) \<and> stop < last_bit)"
        using file_no_failure [of bytes s1] r(2) by (simp add: over_bytes_def max_failed_windows_def)
      have "stop \<le> last_bit" using sb(2) by (simp add: u64_nat)
      from 1(1) [OF lt in_bits wb stop_def r(1) refl nf r(2) this r(4)] obtain runs2 s2 where f:
        "BitRuns (file_reader bytes) stop last_bit runs1 s1 = Inr (runs2, s2)" "over_bytes bytes s2"
        "same_volume s1 s2" "maximal_runs (bits_state bytes) lo (unat last_bit) runs2" by blast
      have "BitRuns (file_reader bytes) bit_pos last_bit runs s = Inr (runs2, s2)"
        using lt in_bits wb r(1) nf f(1) by (subst BitRuns.simps) (auto simp: stop_def [symmetric] Let_def)
      then show ?thesis using f same_volume_trans [OF r(3) f(3)] by blast
    qed
  qed
qed

section \<open>The bad list over the runs\<close>

text \<open>The extents still to come name the bad clusters of [a, hi).\<close>

definition bads_left :: "nat set \<Rightarrow> nat \<Rightarrow> nat \<Rightarrow> extent list \<Rightarrow> bool" where
  "bads_left B a hi bads \<longleftrightarrow> (\<exists>lo. extents_apart lo bads) \<and> (\<forall>v. a \<le> v \<and> v < hi \<longrightarrow> (v \<in> B \<longleftrightarrow> v \<in> spans bads))"

lemma bads_left_iff: "bads_left B a hi bads \<Longrightarrow> a \<le> v \<Longrightarrow> v < hi \<Longrightarrow> v \<in> B \<longleftrightarrow> v \<in> spans bads"
  by (simp add: bads_left_def)

lemma bads_left_later: "bads_left B a hi bads \<Longrightarrow> a \<le> a' \<Longrightarrow> bads_left B a' hi bads"
  by (auto simp: bads_left_def)

lemma bads_left_skip:
  assumes "bads_left B (unat at_lcn) hi bads"
  shows "bads_left B (unat at_lcn) hi (dropWhile (\<lambda>e. EndOf e \<le> at_lcn) bads)"
proof -
  let ?P = "\<lambda>e. EndOf e \<le> at_lcn"
  from assms obtain lo where apart: "extents_apart lo bads" by (auto simp: bads_left_def)
  have "extents_apart lo (dropWhile ?P bads)"
    unfolding dropWhile_eq_drop by (rule extents_apart_drop [OF apart])
  moreover have "spans bads = spans (takeWhile ?P bads) \<union> spans (dropWhile ?P bads)"
    using spans_append [of "takeWhile ?P bads" "dropWhile ?P bads"] by simp
  moreover have "v < unat at_lcn" if "v \<in> spans (takeWhile ?P bads)" for v
  proof -
    from that obtain e where e: "e \<in> set (takeWhile ?P bads)" "v \<in> ext_span e" by (auto simp: spans_def)
    then have "EndOf e \<le> at_lcn" by (auto dest: set_takeWhileD)
    then have "ext_end e \<le> unat at_lcn" by (simp add: u64_nat)
    then show ?thesis using e(2) by (simp add: ext_span_def)
  qed
  ultimately have "v \<in> spans bads \<longleftrightarrow> v \<in> spans (dropWhile ?P bads)" if "unat at_lcn \<le> v" for v
    using that by fastforce
  then show ?thesis
    using assms \<open>extents_apart lo (dropWhile ?P bads)\<close> unfolding bads_left_def by blast
qed

lemma append_part:
  assumes "maximal_runs st lo (unat a) runs" "a \<le> b" "\<And>v. unat a \<le> v \<Longrightarrow> v < unat b \<Longrightarrow> st v = s"
  shows "maximal_runs st lo (unat b) (AppendRun a (b - a) s runs)"
proof -
  have le: "unat a \<le> unat b" using assms(2) by (simp add: u64_nat)
  have len: "unat (b - a) = unat b - unat a" using assms(2) by (rule unat_u64_sub)
  have "maximal_runs st lo (unat a + unat (b - a)) (AppendRun a (b - a) s runs)"
    using assms(3) le len unat_u64_bound [of b] by (intro AppendRun_maximal [OF assms(1)]) simp_all
  then show ?thesis using le len by simp
qed

lemma overlay_run_result:
  "at_lcn \<le> run_end run \<Longrightarrow> unat (run_end run) \<le> hi \<Longrightarrow>
   (\<And>v. unat at_lcn \<le> v \<Longrightarrow> v < unat (run_end run) \<Longrightarrow> st v = (if v \<in> B then Bad else cr_state run)) \<Longrightarrow>
   bads_left B (unat at_lcn) hi bads \<Longrightarrow> maximal_runs st lo (unat at_lcn) merged \<Longrightarrow>
   \<exists>bads' merged' flag'. overlay_run run at_lcn bads merged flag = (bads', merged', flag') \<and>
     maximal_runs st lo (unat (run_end run)) merged' \<and> bads_left B (unat (run_end run)) hi bads'"
proof (induction run at_lcn bads merged flag rule: overlay_run.induct)
  case (1 run at_lcn bads merged flag)
  show ?case
  proof (cases "at_lcn < run_end run")
    case False
    then have "at_lcn = run_end run" using 1(2) by simp
    then show ?thesis using 1(5,6) by (subst overlay_run.simps) simp
  next
    case lt: True
    let ?rest = "dropWhile (\<lambda>e. EndOf e \<le> at_lcn) bads"
    note left = bads_left_skip [OF 1(5)]
    note later = bads_left_later [OF left, of "unat (run_end run)"]
    have le: "unat at_lcn \<le> unat (run_end run)" using 1(2) by (simp add: u64_nat)
    have finish: "maximal_runs st lo (unat (run_end run)) (AppendRun at_lcn (run_end run - at_lcn) (cr_state run) merged)"
      if "\<And>v. unat at_lcn \<le> v \<Longrightarrow> v < unat (run_end run) \<Longrightarrow> v \<notin> B"
      by (rule append_part [OF 1(6) 1(2)]) (use 1(4) that in auto)
    show ?thesis
    proof (cases ?rest)
      case Nil
      then have "v \<notin> B" if "unat at_lcn \<le> v" "v < unat (run_end run)" for v
        using bads_left_iff [OF left [unfolded Nil] that(1)] that 1(3) by simp
      then have "maximal_runs st lo (unat (run_end run)) (AppendRun at_lcn (run_end run - at_lcn) (cr_state run) merged)"
        by (rule finish)
      moreover have "overlay_run run at_lcn bads merged flag =
          ([], AppendRun at_lcn (run_end run - at_lcn) (cr_state run) merged, flag)"
        by (subst overlay_run.simps) (simp only: lt Nil if_True list.case)
      ultimately show ?thesis using later [unfolded Nil] le by simp
    next
      case (Cons bad rest)
      obtain lo0 where "extents_apart lo0 (bad # rest)" using left Cons by (auto simp: bads_left_def)
      then have apart: "extents_apart (unat (ex_lcn bad)) (bad # rest)" by simp
      have before: "v \<notin> B" if "unat at_lcn \<le> v" "v < unat (run_end run)" "v < unat (ex_lcn bad)" for v
        using bads_left_iff [OF left that(1)] extents_apart_above [OF apart, of v] that 1(3) Cons by auto
      show ?thesis
      proof (cases "ex_lcn bad \<ge> run_end run")
        case True
        then have "v \<notin> B" if "unat at_lcn \<le> v" "v < unat (run_end run)" for v
          using before [OF that] that by (simp add: u64_nat)
        then show ?thesis using lt Cons True finish later le by (subst overlay_run.simps) simp
      next
        case lcn: False
        have "\<not> EndOf bad \<le> at_lcn" using Cons by (metis dropWhile_eq_Cons_conv)
        then have past: "at_lcn < EndOf bad" by simp
        define merged1 where
          "merged1 = (if ex_lcn bad > at_lcn then AppendRun at_lcn (ex_lcn bad - at_lcn) (cr_state run) merged else merged)"
        define from_lcn where "from_lcn = (if ex_lcn bad > at_lcn then ex_lcn bad else at_lcn)"
        define to_lcn where "to_lcn = min (EndOf bad) (run_end run)"
        define merged2 where "merged2 = AppendRun from_lcn (to_lcn - from_lcn) Bad merged1"
        have from_run: "unat from_lcn < unat (run_end run)" "unat at_lcn \<le> unat from_lcn" "unat (ex_lcn bad) \<le> unat from_lcn"
          using lt lcn by (auto simp: from_lcn_def u64_nat)
        have to_n: "unat to_lcn = min (ext_end bad) (unat (run_end run))" by (simp add: to_lcn_def unat_min_u64)
        have ft: "from_lcn \<le> to_lcn"
          using past lt lcn lcn_le_ext_end [of bad] by (auto simp: to_lcn_def from_lcn_def u64_nat min_def)
        have m1: "maximal_runs st lo (unat from_lcn) merged1"
        proof (cases "ex_lcn bad > at_lcn")
          case True
          have "maximal_runs st lo (unat (ex_lcn bad)) (AppendRun at_lcn (ex_lcn bad - at_lcn) (cr_state run) merged)"
            by (rule append_part [OF 1(6)]) (use True before 1(4) lcn in \<open>auto simp: u64_nat\<close>)
          then show ?thesis using True by (simp add: merged1_def from_lcn_def)
        next
          case False
          then show ?thesis using 1(6) by (simp add: merged1_def from_lcn_def)
        qed
        have m2: "maximal_runs st lo (unat to_lcn) merged2"
          unfolding merged2_def
        proof (rule append_part [OF m1 ft])
          fix v assume v: "unat from_lcn \<le> v" "v < unat to_lcn"
          then have at_v: "unat at_lcn \<le> v" and end_v: "v < unat (run_end run)" using from_run(2) to_n by simp_all
          have "v \<in> ext_span bad" using v from_run(3) to_n by (simp add: ext_span_def)
          then have "v \<in> B" using bads_left_iff [OF left at_v] end_v 1(3) Cons by auto
          then show "st v = Bad" using 1(4) [OF at_v end_v] by simp
        qed
        have at_to: "unat at_lcn \<le> unat to_lcn" using ft from_run(2) by (simp add: u64_nat)
        have p1: "to_lcn \<le> run_end run" by (simp add: to_lcn_def)
        have p2: "st v = (if v \<in> B then Bad else cr_state run)" if "unat to_lcn \<le> v" "v < unat (run_end run)" for v
          using 1(4) that at_to by simp
        have p3: "bads_left B (unat to_lcn) hi (bad # rest)" using bads_left_later [OF left at_to] Cons by simp
        have step: "overlay_run run at_lcn bads merged flag =
            overlay_run run to_lcn (bad # rest) merged2 (flag \<or> cr_state run = Free)"
          using lt Cons lcn
          by (subst overlay_run.simps) (simp add: merged2_def merged1_def from_lcn_def to_lcn_def Let_def)
        show ?thesis
          unfolding step
          by (rule 1(1) [OF lt Cons lcn merged1_def from_lcn_def to_lcn_def p1 1(3) p2 p3 m2 [unfolded merged2_def], folded merged2_def])
      qed
    qed
  qed
qed

definition with_bad :: "nat set \<Rightarrow> (nat \<Rightarrow> cluster_state) \<Rightarrow> nat \<Rightarrow> cluster_state" where
  "with_bad B st v = (if v \<in> B then Bad else st v)"

lemma overlay_runs_result:
  "maximal_runs st lo hi runs \<Longrightarrow> hi < 18446744073709551616 \<Longrightarrow> bads_left B lo hi bads \<Longrightarrow>
   maximal_runs (with_bad B st) first lo merged \<Longrightarrow>
   \<exists>merged' flag'. overlay_runs runs bads merged flag = (merged', flag') \<and> maximal_runs (with_bad B st) first hi merged'"
proof (induction runs arbitrary: lo bads merged flag)
  case (Cons run runs)
  have r: "unat (cr_lcn run) = lo" "\<forall>v \<in> {lo..<lo + unat (cr_clusters run)}. st v = cr_state run"
    "maximal_runs st (lo + unat (cr_clusters run)) hi runs"
    using Cons.prems(1) by simp_all
  have le: "lo + unat (cr_clusters run) \<le> hi" using maximal_runs_le [OF r(3)] .
  then have e: "unat (run_end run) = lo + unat (cr_clusters run)"
    unfolding run_end_def using r(1) Cons.prems(2) by (subst unat_u64_add) simp_all
  have p1: "cr_lcn run \<le> run_end run" using e r(1) by (simp add: u64_nat)
  have p2: "unat (run_end run) \<le> hi" using e le by simp
  have p3: "with_bad B st v = (if v \<in> B then Bad else cr_state run)"
    if "unat (cr_lcn run) \<le> v" "v < unat (run_end run)" for v
    using that r(1,2) e by (simp add: with_bad_def)
  have p4: "bads_left B (unat (cr_lcn run)) hi bads" "maximal_runs (with_bad B st) first (unat (cr_lcn run)) merged"
    using Cons.prems(3,4) r(1) by simp_all
  from overlay_run_result [OF p1 p2 p3 p4, of flag] obtain bads1 merged1 flag1 where o:
    "overlay_run run (cr_lcn run) bads merged flag = (bads1, merged1, flag1)"
    "maximal_runs (with_bad B st) first (unat (run_end run)) merged1" "bads_left B (unat (run_end run)) hi bads1" by blast
  from Cons.IH [OF r(3) Cons.prems(2) o(3,2) [unfolded e]] o(1) show ?case by simp
qed simp

lemma OverlayBad_result:
  assumes runs: "maximal_runs st lo hi runs" and hi: "hi < 18446744073709551616" and ok: "bad_ok s"
  shows "\<exists>runs' flag. OverlayBad runs s = (runs', s\<lparr>cb_bad_with_clear_bit := flag\<rparr>) \<and>
    maximal_runs (with_bad (bad_of s) st) lo hi runs'"
proof (cases "cb_bad s")
  case None
  then have "maximal_runs (with_bad (bad_of s) st) lo hi runs"
    using runs by (intro maximal_runs_cong [OF _ runs]) (simp add: with_bad_def bad_of_def)
  then show ?thesis using None by (intro exI [of _ runs] exI [of _ "cb_bad_with_clear_bit s"]) (simp add: OverlayBad_def)
next
  case (Some l)
  then have usable: "list_usable l" and B: "bad_of s = bad_set l" using ok by (simp_all add: bad_ok_def bad_of_def)
  show ?thesis
  proof (cases runs rule: rev_cases)
    case Nil
    then show ?thesis using Some runs
      by (intro exI [of _ "[]"] exI [of _ "cb_bad_with_clear_bit s"]) (simp add: OverlayBad_def)
  next
    case (snoc rs r)
    define first where "first = cr_lcn (hd runs)"
    define over where "over = Overlapping l first (run_end (last runs))"
    have ne: "runs \<noteq> []" using snoc by simp
    have lo: "unat first = lo" using runs ne by (cases runs) (auto simp: first_def)
    have hi_eq: "unat (run_end (last runs)) = hi"
      using runs hi unfolding snoc maximal_runs_snoc run_end_def by (auto intro: unat_u64_add)
    have "extents_apart 0 over" "spans over \<inter> {lo..<hi} = bad_set l \<inter> {lo..<hi}"
      using bl.apart [OF usable] bl.exact [OF usable, of first "run_end (last runs)"]
      by (simp_all add: over_def lo hi_eq)
    then have left: "bads_left (bad_of s) lo hi over" unfolding bads_left_def B by fastforce
    show ?thesis
    proof (cases "over = []")
      case True
      then have "maximal_runs (with_bad (bad_of s) st) lo hi runs"
        using bads_left_iff [OF left] by (intro maximal_runs_cong [OF _ runs]) (simp add: with_bad_def)
      then show ?thesis using Some ne True
        by (intro exI [of _ runs] exI [of _ "cb_bad_with_clear_bit s"])
          (simp add: OverlayBad_def Let_def over_def first_def)
    next
      case False
      from overlay_runs_result [OF runs hi left, of lo "[]" "cb_bad_with_clear_bit s"] obtain merged flag where
        "overlay_runs runs over [] (cb_bad_with_clear_bit s) = (merged, flag)"
        "maximal_runs (with_bad (bad_of s) st) lo hi merged" by auto
      then show ?thesis using Some ne False
        by (intro exI [of _ merged] exI [of _ flag]) (simp add: OverlayBad_def Let_def over_def first_def)
    qed
  qed
qed

text \<open>
  C26. StateRuns() on the bitmap of a volume, for any range: it cuts the range into runs, none
  empty, each following the one before it and of another state, and every cluster of a run has
  the run's state, as the bytes of the bitmap, the bad list and the volume's size define it.
\<close>

theorem state_runs_exact:
  assumes "over_bytes bytes s"
  shows "\<exists>runs s'. StateRuns (file_reader bytes) lcn clusters s = Inr (runs, s') \<and> over_bytes bytes s' \<and>
    same_volume s s' \<and>
    (if clusters = 0 then runs = []
     else maximal_runs (volume_state bytes s) (unat lcn) (unat lcn + unat clusters) runs)"
proof -
  let ?st = "volume_state bytes s"
  have out: "?st v = OutOfRange \<longleftrightarrow> unat (cb_limit s) \<le> v" for v by (simp add: volume_state_def state_at_def)
  consider (empty) "clusters = 0" | (past) "clusters \<noteq> 0" "cb_limit s \<le> lcn" | (judge) "clusters \<noteq> 0" "lcn < cb_limit s"
    by fastforce
  then show ?thesis
  proof cases
    case empty
    then show ?thesis using assms by (simp add: StateRuns_def)
  next
    case past
    then have "?st v = OutOfRange" if "unat lcn \<le> v" for v using that out by (simp add: u64_nat)
    then show ?thesis using past assms by (simp add: StateRuns_def)
  next
    case judge
    define limit where "limit = unat (cb_limit s)"
    define beyond where "beyond = (clusters > cb_limit s - lcn)"
    define end_lcn where "end_lcn = (if beyond then cb_limit s else lcn + clusters)"
    have lt: "unat lcn < limit" using judge(2) by (simp add: limit_def u64_nat)
    have "unat (cb_limit s - lcn) = limit - unat lcn" using judge(2) by (simp add: unat_u64_sub limit_def)
    then have beyond: "beyond \<longleftrightarrow> limit < unat lcn + unat clusters" using lt by (simp add: beyond_def u64_nat) linarith
    have en: "unat end_lcn = min limit (unat lcn + unat clusters)"
    proof (cases beyond)
      case True
      then show ?thesis using beyond by (simp add: end_lcn_def limit_def)
    next
      case False
      then have "unat (lcn + clusters) = unat lcn + unat clusters"
        using beyond unat_u64_bound [of "cb_limit s"] by (intro unat_u64_add) (simp add: limit_def)
      then show ?thesis using False beyond by (simp add: end_lcn_def)
    qed
    have le: "lcn \<le> end_lcn" using en lt by (simp add: u64_nat)
    have start: "maximal_runs (bits_state bytes) (unat lcn) (unat lcn) []" by simp
    from BitRuns_result [OF assms le start] obtain runs1 s1 where b:
      "BitRuns (file_reader bytes) lcn end_lcn [] s = Inr (runs1, s1)" "over_bytes bytes s1" "same_volume s s1"
      "maximal_runs (bits_state bytes) (unat lcn) (unat end_lcn) runs1" by blast
    have bad: "bad_ok s1" "bad_of s1 = bad_of s"
      using b(2) same_volume_window [OF b(3)] by (simp_all add: over_bytes_def bitmap_ok_def)
    from OverlayBad_result [OF b(4) unat_u64_bound bad(1)] obtain runs2 flag where o:
      "OverlayBad runs1 s1 = (runs2, s1\<lparr>cb_bad_with_clear_bit := flag\<rparr>)"
      "maximal_runs (with_bad (bad_of s) (bits_state bytes)) (unat lcn) (unat end_lcn) runs2" unfolding bad(2) by blast
    define s2 where "s2 = s1\<lparr>cb_bad_with_clear_bit := flag\<rparr>"
    have s2: "over_bytes bytes s2" "same_volume s s2"
      using b(2,3) by (simp_all add: s2_def over_bytes_def bitmap_ok_flag same_volume_def)
    have m: "maximal_runs ?st (unat lcn) (unat end_lcn) runs2"
      by (rule maximal_runs_cong [OF _ o(2)])
        (use en in \<open>simp add: with_bad_def bits_state_def volume_state_def state_at_def limit_def\<close>)
    define runs3 where "runs3 = (if beyond then AppendRun end_lcn (clusters - (end_lcn - lcn)) OutOfRange runs2 else runs2)"
    have "maximal_runs ?st (unat lcn) (unat lcn + unat clusters) runs3"
    proof (cases beyond)
      case False
      then show ?thesis using m en beyond by (simp add: runs3_def)
    next
      case True
      then have e: "unat end_lcn = limit" using en beyond by simp
      have "unat (end_lcn - lcn) = limit - unat lcn" using le e by (simp add: unat_u64_sub)
      then have "end_lcn - lcn \<le> clusters" using True beyond by (simp add: u64_nat)
      then have left: "unat (clusters - (end_lcn - lcn)) = unat clusters - (limit - unat lcn)"
        using \<open>unat (end_lcn - lcn) = limit - unat lcn\<close> by (simp add: unat_u64_sub)
      have "maximal_runs ?st (unat lcn) (unat end_lcn + unat (clusters - (end_lcn - lcn)))
          (AppendRun end_lcn (clusters - (end_lcn - lcn)) OutOfRange runs2)"
        using out e by (intro AppendRun_maximal [OF m]) (auto simp: limit_def)
      moreover have "unat end_lcn + unat (clusters - (end_lcn - lcn)) = unat lcn + unat clusters"
        using left e lt True beyond by linarith
      ultimately show ?thesis using True by (simp add: runs3_def)
    qed
    moreover have "StateRuns (file_reader bytes) lcn clusters s = Inr (runs3, s2)"
      using judge(1) judge(2) [folded not_le] b(1) o(1) unfolding end_lcn_def
      by (cases beyond) (simp_all add: StateRuns_def Let_def beyond_def [symmetric] runs3_def s2_def end_lcn_def)
    ultimately show ?thesis using s2 judge(1) by simp
  qed
qed

lemma state_runs_exact_witness:
  "\<exists>runs s'. StateRuns (file_reader sample_bytes) 1 30 sample_bitmap = Inr (runs, s') \<and>
     maximal_runs (volume_state sample_bytes sample_bitmap) 1 31 runs"
  using state_runs_exact [OF sample_over_bytes, of 1 30] by auto

end
