(* ===== verification/UpdateSequence.thy ===== *)
theory UpdateSequence
  imports NtfsPrelude
begin

text \<open>
  The update sequence of a file record and of an index block: src/record/header.cpp with
  src/data/file-record-header.h, JudgeRecordHeader() of src/io/file-record-read.cpp, and
  PatchUS(), FixupIndexBlock() and BlockOffset() of src/attr/index-alloc.cpp with
  src/data/index-block.h. A buffer is a list of bytes; the accesses that the code leaves
  unchecked, or guards by an assert only, are checked here (\<open>UsOutOfBounds\<close> is undefined
  behaviour). Pools and logging are not modelled.
\<close>

section \<open>Words of a buffer\<close>

definition put_u16 :: "byte list \<Rightarrow> nat \<Rightarrow> u16 \<Rightarrow> byte list" where
  "put_u16 bs off w = bs[off := ucast w, off + 1 := ucast (drop_bit 8 w)]"

lemma length_put_u16 [simp]: "length (put_u16 bs off w) = length bs"
  by (simp add: put_u16_def)

lemma u16_at_nth: "off + 1 < length bs \<Longrightarrow> u16_at bs off = ucast (bs ! off) + 256 * ucast (bs ! (off + 1))"
  by (simp add: u16_at_def read_le_def numeral_2_eq_2 Cons_nth_drop_Suc [symmetric])

lemma u16_split: "ucast (ucast w :: byte) + 256 * ucast (ucast (drop_bit 8 w) :: byte) = (w :: u16)"
proof -
  have w: "unat w < 65536" using unsigned_less [of w, where ?'a = nat] by simp
  have lo: "unat (ucast w :: byte) = unat w mod 256"
    by (simp add: unsigned_ucast_eq take_bit_eq_mod)
  have hi: "unat (ucast (drop_bit 8 w) :: byte) = unat w div 256"
  proof -
    have "unat (drop_bit 8 w) = unat w div 256"
      by (subst unsigned_drop_bit_eq) (use w in \<open>simp add: take_bit_eq_mod drop_bit_eq_div\<close>)
    then have "unat (ucast (drop_bit 8 w) :: byte) = (unat w div 256) mod 256"
      by (subst unsigned_ucast_eq) (simp only: take_bit_eq_mod, simp)
    then show ?thesis using w by (simp add: less_mult_imp_div_less)
  qed
  have "unat (ucast w :: byte) + 256 * unat (ucast (drop_bit 8 w) :: byte) = unat w"
    unfolding lo hi by simp
  then have "(of_nat (unat (ucast w :: byte) + 256 * unat (ucast (drop_bit 8 w) :: byte)) :: u16) = of_nat (unat w)"
    by (rule arg_cong)
  then show ?thesis by simp
qed

lemma u16_at_put_same: "off + 1 < length bs \<Longrightarrow> u16_at (put_u16 bs off w) off = w"
  by (simp add: u16_at_nth u16_split put_u16_def nth_list_update)

lemma nth_put_other: "k \<noteq> off \<Longrightarrow> k \<noteq> off + 1 \<Longrightarrow> put_u16 bs off w ! k = bs ! k"
  by (simp add: put_u16_def)

lemma u16_at_cong:
  "length bs = length bs' \<Longrightarrow> off + 1 < length bs \<Longrightarrow> bs ! off = bs' ! off \<Longrightarrow> bs ! (off + 1) = bs' ! (off + 1) \<Longrightarrow>
     u16_at bs off = u16_at bs' off"
  by (simp add: u16_at_nth)

lemma u16_nth_unat: "off + 1 < length bs \<Longrightarrow> unat (u16_at bs off) = unat (bs ! off) + 256 * unat (bs ! (off + 1))"
  using unat_byte_bound [of "bs ! off"] unat_byte_bound [of "bs ! (off + 1)"]
  by (simp add: u16_at_def read_le_def numeral_2_eq_2 Cons_nth_drop_Suc [symmetric])
    (subst unat_of_nat_u16 [symmetric], simp_all)

lemma u16_at_bytes:
  assumes "u16_at bs off = u16_at bs' off" "off + 1 < length bs" "off + 1 < length bs'"
  shows "bs ! off = bs' ! off \<and> bs ! (off + 1) = bs' ! (off + 1)"
proof -
  have eq: "unat (bs ! off) + 256 * unat (bs ! (off + 1)) = unat (bs' ! off) + 256 * unat (bs' ! (off + 1))"
    using u16_nth_unat [OF assms(2)] u16_nth_unat [OF assms(3)] assms(1) by simp
  have "unat (bs ! off) = unat (bs' ! off)"
    using arg_cong [OF eq, of "\<lambda>v. v mod 256"] unat_byte_bound by simp
  with eq have "unat (bs ! (off + 1)) = unat (bs' ! (off + 1))" by simp
  with \<open>unat (bs ! off) = unat (bs' ! off)\<close> show ?thesis by (simp add: word_unat_eq_iff)
qed

lemma u16_at_put_other:
  "off + 2 \<le> off' \<or> off' + 2 \<le> off \<Longrightarrow> off' + 1 < length bs \<Longrightarrow> u16_at (put_u16 bs off w) off' = u16_at bs off'"
  by (rule u16_at_cong) (auto simp: nth_put_other)

section \<open>The record header\<close>

definition file_record_magic :: u32 where "file_record_magic = 0x454C4946"
definition min_file_record_header_size :: nat where "min_file_record_header_size = 48"
definition max_file_record_size :: nat where "max_file_record_size = 4096"
definition update_sequence_stride :: nat where "update_sequence_stride = 512"
definition max_words :: nat where "max_words = max_file_record_size div update_sequence_stride"

lemmas record_consts = min_file_record_header_size_def max_file_record_size_def update_sequence_stride_def
  max_words_def

definition UpdateSequenceBlockCount :: "nat \<Rightarrow> u16 \<Rightarrow> nat" where
  "UpdateSequenceBlockCount buffer_size size_of_us =
    (let declared = (if size_of_us > 0 then unat size_of_us - 1 else 0);
         blocks = buffer_size div update_sequence_stride
     in if declared < blocks then declared else blocks)"

datatype us_error =
    BufferTooSmall | BufferTooLarge | UsOffsetPastEnd | UsArrayPastEnd | UsOutOfBounds

datatype cache_strategy = NoCache | FullCache

text \<open>
  Record::Header and the buffer GetData() answers: the caller's own (NoCache), or a copy at the
  start of a whole Data::FileRecordHeader (FullCache).
\<close>

record record_header =
  rh_us_number :: u16
  rh_us_array :: "u16 list"
  rh_buffer_size :: nat
  rh_data :: "byte list"

definition memcpy_u16 :: "byte list \<Rightarrow> nat \<Rightarrow> us_error + u16" where
  "memcpy_u16 buffer off = (if off + 2 \<le> length buffer then Inr (u16_at buffer off) else Inl UsOutOfBounds)"

definition memcpy_u32 :: "byte list \<Rightarrow> nat \<Rightarrow> us_error + u32" where
  "memcpy_u32 buffer off = (if off + 4 \<le> length buffer then Inr (u32_at buffer off) else Inl UsOutOfBounds)"

lemma memcpy_inside:
  "off + 2 \<le> length buffer \<Longrightarrow> memcpy_u16 buffer off = Inr (u16_at buffer off)"
  "off + 4 \<le> length buffer \<Longrightarrow> memcpy_u32 buffer off = Inr (u32_at buffer off)"
  by (simp_all add: memcpy_u16_def memcpy_u32_def)

definition us_push_back :: "u16 list \<Rightarrow> u16 \<Rightarrow> us_error + u16 list" where
  "us_push_back words value = (if length words < max_words then Inr (words @ [value]) else Inl UsOutOfBounds)"

text \<open>The loop of the constructor, with the sectors still to do.\<close>

fun read_us_array :: "byte list \<Rightarrow> nat \<Rightarrow> nat \<Rightarrow> nat \<Rightarrow> u16 list \<Rightarrow> us_error + u16 list" where
  "read_us_array buffer offset_of_us i 0 words = Inr words"
| "read_us_array buffer offset_of_us i (Suc n) words =
     bind_r (memcpy_u16 buffer (offset_of_us + 2 * (1 + i))) (\<lambda>value.
     bind_r (us_push_back words value) (\<lambda>words.
     read_us_array buffer offset_of_us (i + 1) n words))"

definition own_data :: "cache_strategy \<Rightarrow> byte list \<Rightarrow> byte list" where
  "own_data strategy buffer =
    (case strategy of NoCache \<Rightarrow> buffer
     | FullCache \<Rightarrow> buffer @ replicate (max_file_record_size - length buffer) 0)"

text \<open>
  The constructor. The buffer is taken for a Data::FileRecordHeader: a field of it is a read at
  the field's offset, checked against the bytes there are.
\<close>

definition new_record_header :: "cache_strategy \<Rightarrow> byte list \<Rightarrow> us_error + record_header" where
  "new_record_header strategy buffer =
    (if length buffer < min_file_record_header_size then Inl BufferTooSmall
     else if length buffer > max_file_record_size then Inl BufferTooLarge
     else
       bind_r (memcpy_u32 buffer 0) (\<lambda>magic.
       if magic \<noteq> file_record_magic
       then Inr \<lparr>rh_us_number = 0, rh_us_array = [], rh_buffer_size = length buffer, rh_data = own_data strategy buffer\<rparr>
       else
         bind_r (memcpy_u16 buffer 4) (\<lambda>offset_of_us.
         if unat offset_of_us \<ge> length buffer then Inl UsOffsetPastEnd
         else
           bind_r (memcpy_u16 buffer 6) (\<lambda>size_of_us.
           let sectors = UpdateSequenceBlockCount (length buffer) size_of_us in
           if unat offset_of_us + 2 * (1 + sectors) > length buffer then Inl UsArrayPastEnd
           else
             bind_r (memcpy_u16 buffer (unat offset_of_us)) (\<lambda>us_number.
             bind_r (read_us_array buffer (unat offset_of_us) 0 sectors []) (\<lambda>us_array.
             Inr \<lparr>rh_us_number = us_number, rh_us_array = us_array, rh_buffer_size = length buffer,
                  rh_data = own_data strategy buffer\<rparr>))))))"

text \<open>
  PatchSectors(): words is the span of buffer_size / 2 words over the data; the assert on pos is
  a check here.
\<close>

fun patch_loop :: "bool \<Rightarrow> u16 \<Rightarrow> u16 list \<Rightarrow> nat \<Rightarrow> nat \<Rightarrow> nat \<Rightarrow> byte list \<Rightarrow> us_error + nat \<times> byte list" where
  "patch_loop stop us_number [] words_size pos failed data = Inr (failed, data)"
| "patch_loop stop us_number (value # values) words_size pos failed data =
    (let pos = pos + (update_sequence_stride div 2 - 1) in
     if \<not> (pos < words_size \<and> 2 * pos + 2 \<le> length data) then Inl UsOutOfBounds
     else
       let sector = u16_at data (2 * pos) in
       if sector \<noteq> us_number \<and> sector \<noteq> value then
         (if stop then Inr (failed + 1, data)
          else patch_loop stop us_number values words_size (pos + 1) (failed + 1) data)
       else patch_loop stop us_number values words_size (pos + 1) failed (put_u16 data (2 * pos) value))"

definition PatchSectors :: "bool \<Rightarrow> record_header \<Rightarrow> us_error + nat \<times> record_header" where
  "PatchSectors stop_at_first_failure h =
     bind_r (patch_loop stop_at_first_failure (rh_us_number h) (rh_us_array h) (rh_buffer_size h div 2) 0 0 (rh_data h))
       (\<lambda>(failed, data). Inr (failed, h\<lparr>rh_data := data\<rparr>))"

definition PatchUS :: "record_header \<Rightarrow> us_error + bool \<times> record_header" where
  "PatchUS h = bind_r (PatchSectors True h) (\<lambda>(failed, h). Inr (failed = 0, h))"

definition PatchUSSalvage :: "record_header \<Rightarrow> us_error + nat \<times> record_header" where
  "PatchUSSalvage h = PatchSectors False h"

definition SectorCount :: "record_header \<Rightarrow> nat" where
  "SectorCount h = length (rh_us_array h)"

text \<open>HeaderCommon(): the offset of the first attribute in the data, sixteen bytes of header.\<close>

definition HeaderCommon :: "record_header \<Rightarrow> us_error + nat option" where
  "HeaderCommon h =
     bind_r (memcpy_u16 (rh_data h) 20) (\<lambda>offset_of_attr.
     if unat offset_of_attr + 16 \<ge> rh_buffer_size h then Inr None else Inr (Some (unat offset_of_attr)))"

datatype header_verdict = Rejected | Salvaged | Accepted

text \<open>JudgeRecordHeader(): the verdict, fixup_failed as it leaves it, and the header.\<close>

definition JudgeRecordHeader ::
  "record_header \<Rightarrow> bool \<Rightarrow> bool \<Rightarrow> us_error + header_verdict \<times> bool \<times> record_header" where
  "JudgeRecordHeader h recover fixup_failed =
    bind_r (memcpy_u32 (rh_data h) 0) (\<lambda>magic.
     if magic \<noteq> file_record_magic then Inr (Rejected, fixup_failed, h)
     else if \<not> recover then
       bind_r (PatchUS h) (\<lambda>(good, h). if \<not> good then Inr (Rejected, True, h) else Inr (Accepted, fixup_failed, h))
     else
       bind_r (PatchUSSalvage h) (\<lambda>(failed, h).
         if failed = 0 then Inr (Accepted, fixup_failed, h)
         else if failed \<ge> SectorCount h then Inr (Rejected, True, h)
         else Inr (Salvaged, True, h)))"

section \<open>What patching does\<close>

text \<open>The last word of block i of a protected buffer, and the bytes of such words.\<close>

definition last_word :: "nat \<Rightarrow> nat" where
  "last_word i = 512 * i + 510"

definition sector_word :: "byte list \<Rightarrow> nat \<Rightarrow> u16" where
  "sector_word data i = u16_at data (last_word i)"

definition verifies :: "u16 \<Rightarrow> u16 list \<Rightarrow> byte list \<Rightarrow> nat \<Rightarrow> bool" where
  "verifies usn ws data i \<longleftrightarrow> sector_word data i = usn \<or> sector_word data i = ws ! i"

text \<open>Sectors s, s + 1, ... of the data take the words of the list, where they verify.\<close>

fun salvage :: "u16 \<Rightarrow> u16 list \<Rightarrow> nat \<Rightarrow> byte list \<Rightarrow> byte list" where
  "salvage usn [] s data = data"
| "salvage usn (w # ws) s data =
     salvage usn ws (s + 1)
       (if sector_word data s = usn \<or> sector_word data s = w then put_u16 data (last_word s) w else data)"

fun failures :: "u16 \<Rightarrow> u16 list \<Rightarrow> nat \<Rightarrow> byte list \<Rightarrow> nat" where
  "failures usn [] s data = 0"
| "failures usn (w # ws) s data =
     (if sector_word data s = usn \<or> sector_word data s = w then 0 else 1) + failures usn ws (s + 1) data"

lemma length_salvage [simp]: "length (salvage usn ws s data) = length data"
  by (induction usn ws s data rule: salvage.induct) simp_all

lemma sector_word_put_other:
  "s \<noteq> t \<Longrightarrow> last_word t + 1 < length data \<Longrightarrow> sector_word (put_u16 data (last_word s) w) t = sector_word data t"
  unfolding sector_word_def by (rule u16_at_put_other) (auto simp: last_word_def)

lemma sector_word_put_same:
  "last_word s + 1 < length data \<Longrightarrow> sector_word (put_u16 data (last_word s) w) s = w"
  by (simp add: sector_word_def u16_at_put_same)

lemma failures_put:
  "t < s \<Longrightarrow> 512 * (s + length ws) \<le> length data \<Longrightarrow>
     failures usn ws s (put_u16 data (last_word t) w) = failures usn ws s data"
proof (induction ws arbitrary: s)
  case (Cons a ws)
  have "sector_word (put_u16 data (last_word t) w) s = sector_word data s"
    by (rule sector_word_put_other) (use Cons.prems in \<open>auto simp: last_word_def\<close>)
  with Cons show ?case by simp
qed simp

lemma patch_loop_salvage:
  assumes "512 * (s + length ws) \<le> length data" "512 * (s + length ws) \<le> 2 * n + 1"
  shows "patch_loop False usn ws n (256 * s) failed data =
    Inr (failed + failures usn ws s data, salvage usn ws s data)"
  using assms
proof (induction ws arbitrary: s failed data)
  case (Cons w ws)
  have inside: "256 * s + 255 < n \<and> 2 * (256 * s + 255) + 2 \<le> length data"
    using Cons.prems by simp
  have sector: "u16_at data (2 * (256 * s + 255)) = sector_word data s"
    by (simp add: sector_word_def last_word_def)
  have off: "2 * (256 * s + 255) = last_word s" by (simp add: last_word_def)
  have pos: "256 * s + 255 + 1 = 256 * (s + 1)" by simp
  have fit: "512 * (s + 1 + length ws) \<le> length data" "512 * (s + 1 + length ws) \<le> 2 * n + 1"
    using Cons.prems by simp_all
  have eq: "patch_loop False usn (w # ws) n (256 * s) failed data =
    (if sector_word data s \<noteq> usn \<and> sector_word data s \<noteq> w
     then patch_loop False usn ws n (256 * (s + 1)) (failed + 1) data
     else patch_loop False usn ws n (256 * (s + 1)) failed (put_u16 data (last_word s) w))"
    using inside by (simp add: Let_def update_sequence_stride_def sector_word_def last_word_def add.commute)
  have "failures usn ws (s + 1) (put_u16 data (last_word s) w) = failures usn ws (s + 1) data"
    by (rule failures_put) (use fit in simp_all)
  then show ?case unfolding eq using Cons.IH [of "s + 1"] fit by simp
qed simp

lemma patch_loop_stop:
  assumes "512 * (s + length ws) \<le> length data" "512 * (s + length ws) \<le> 2 * n + 1"
  shows "\<exists>data'. length data' = length data \<and>
    patch_loop True usn ws n (256 * s) failed data =
      Inr (if failures usn ws s data = 0 then (failed, salvage usn ws s data) else (failed + 1, data'))"
  using assms
proof (induction ws arbitrary: s failed data)
  case (Cons w ws)
  have inside: "256 * s + 255 < n \<and> 2 * (256 * s + 255) + 2 \<le> length data"
    using Cons.prems by simp
  have fit: "512 * (s + 1 + length ws) \<le> length data" "512 * (s + 1 + length ws) \<le> 2 * n + 1"
    using Cons.prems by simp_all
  have eq: "patch_loop True usn (w # ws) n (256 * s) failed data =
    (if sector_word data s \<noteq> usn \<and> sector_word data s \<noteq> w then Inr (failed + 1, data)
     else patch_loop True usn ws n (256 * (s + 1)) failed (put_u16 data (last_word s) w))"
    using inside by (simp add: Let_def update_sequence_stride_def sector_word_def last_word_def add.commute)
  have "failures usn ws (s + 1) (put_u16 data (last_word s) w) = failures usn ws (s + 1) data"
    by (rule failures_put) (use fit in simp_all)
  then show ?case
    unfolding eq using Cons.IH [of "s + 1" "put_u16 data (last_word s) w" failed] fit by auto
qed auto

lemma salvage_put:
  "t < s \<Longrightarrow> 512 * (s + length ws) \<le> length data \<Longrightarrow>
     salvage usn ws s (put_u16 data (last_word t) w) = put_u16 (salvage usn ws s data) (last_word t) w"
proof (induction ws arbitrary: s data)
  case (Cons a ws)
  have "sector_word (put_u16 data (last_word t) w) s = sector_word data s"
    by (rule sector_word_put_other) (use Cons.prems in \<open>auto simp: last_word_def\<close>)
  moreover have "put_u16 (put_u16 data (last_word t) w) (last_word s) a =
      put_u16 (put_u16 data (last_word s) a) (last_word t) w"
    using Cons.prems(1) by (simp add: put_u16_def last_word_def list_update_swap)
  ultimately show ?case using Cons by simp
qed simp

lemma salvage_nth:
  "512 * (s + length ws) \<le> length data \<Longrightarrow> (\<And>i. i < length ws \<Longrightarrow> k \<noteq> last_word (s + i) \<and> k \<noteq> last_word (s + i) + 1) \<Longrightarrow>
     salvage usn ws s data ! k = data ! k"
proof (induction ws arbitrary: s data)
  case (Cons w ws)
  have here: "k \<noteq> last_word s" "k \<noteq> last_word s + 1" using Cons.prems(2) [of 0] by simp_all
  have "salvage usn ws (s + 1) d ! k = d ! k" if "length d = length data" for d
  proof (rule Cons.IH)
    show "512 * (s + 1 + length ws) \<le> length d" using Cons.prems(1) that by simp
    show "k \<noteq> last_word (s + 1 + i) \<and> k \<noteq> last_word (s + 1 + i) + 1" if "i < length ws" for i
      using Cons.prems(2) [of "Suc i"] that by simp
  qed
  then show ?case using nth_put_other [of k "last_word s"] here by simp
qed simp

lemma salvage_before: "512 * (s + length ws) \<le> length data \<Longrightarrow> t < s \<Longrightarrow>
    sector_word (salvage usn ws s data) t = sector_word data t"
  unfolding sector_word_def
  by (rule u16_at_cong) (auto simp: last_word_def intro!: salvage_nth)

lemma salvage_sector:
  "512 * (s + length ws) \<le> length data \<Longrightarrow> i < length ws \<Longrightarrow>
     sector_word (salvage usn ws s data) (s + i) =
       (if sector_word data (s + i) = usn \<or> sector_word data (s + i) = ws ! i then ws ! i else sector_word data (s + i))"
proof (induction ws arbitrary: s data i)
  case (Cons w ws)
  let ?d = "if sector_word data s = usn \<or> sector_word data s = w then put_u16 data (last_word s) w else data"
  show ?case
  proof (cases i)
    case 0
    have "sector_word (salvage usn ws (s + 1) ?d) s = sector_word ?d s"
      by (rule salvage_before) (use Cons.prems in auto)
    moreover have "sector_word (put_u16 data (last_word s) w) s = w"
      by (rule sector_word_put_same) (use Cons.prems in \<open>simp add: last_word_def\<close>)
    ultimately show ?thesis using 0 by simp
  next
    case (Suc j)
    have same: "sector_word ?d (s + 1 + j) = sector_word data (s + 1 + j)"
      using sector_word_put_other [of s "s + 1 + j" data w] Cons.prems Suc by (simp add: last_word_def)
    show ?thesis using Cons.IH [of "s + 1" ?d j] Cons.prems Suc same by simp
  qed
qed simp

lemma failures_count:
  "failures usn ws s data = card {i. i < length ws \<and> sector_word data (s + i) \<noteq> usn \<and> sector_word data (s + i) \<noteq> ws ! i}"
proof (induction ws arbitrary: s)
  case (Cons w ws)
  define bad where "bad = (\<lambda>t v. sector_word data t \<noteq> usn \<and> sector_word data t \<noteq> v)"
  have split: "{i. i < length (w # ws) \<and> bad (s + i) ((w # ws) ! i)} =
      (if bad s w then {0} else {}) \<union> Suc ` {i. i < length ws \<and> bad (s + 1 + i) (ws ! i)}" (is "?l = ?r")
  proof (rule set_eqI)
    fix i show "i \<in> ?l \<longleftrightarrow> i \<in> ?r" by (cases i) auto
  qed
  have "card ?r = (if bad s w then 1 else 0) + card {i. i < length ws \<and> bad (s + 1 + i) (ws ! i)}"
    by (subst card_Un_disjoint) (auto simp: card_image)
  then show ?case using Cons [of "s + 1"] split by (simp add: bad_def)
qed simp

lemma failures_salvage:
  "512 * (s + length ws) \<le> length data \<Longrightarrow> failures usn ws s (salvage usn ws s data) = failures usn ws s data"
  unfolding failures_count by (rule arg_cong [where f = card]) (auto simp: salvage_sector split: if_splits)

lemma put_u16_twice: "put_u16 (put_u16 bs off w) off w = put_u16 bs off w"
  by (simp add: put_u16_def list_update_swap)

lemma salvage_again: "512 * (s + length ws) \<le> length data \<Longrightarrow>
    salvage usn ws s (salvage usn ws s data) = salvage usn ws s data"
proof (induction ws arbitrary: s data)
  case (Cons w ws)
  define d where "d = (if sector_word data s = usn \<or> sector_word data s = w then put_u16 data (last_word s) w else data)"
  define e where "e = salvage usn ws (s + 1) d"
  have len: "length d = length data" by (simp add: d_def)
  have fit: "512 * (s + 1 + length ws) \<le> length d" using Cons.prems len by simp
  have e: "salvage usn (w # ws) s data = e" by (simp add: e_def d_def)
  have sector: "sector_word e s = sector_word d s" unfolding e_def by (rule salvage_before [OF fit]) simp
  have "salvage usn ws (s + 1) e = e" unfolding e_def by (rule Cons.IH [OF fit])
  moreover have "(if sector_word e s = usn \<or> sector_word e s = w then put_u16 e (last_word s) w else e) = e"
  proof (cases "sector_word data s = usn \<or> sector_word data s = w")
    case True
    then have "d = put_u16 data (last_word s) w" by (simp add: d_def)
    then have "put_u16 e (last_word s) w = e"
      unfolding e_def using salvage_put [of s "s + 1" ws d usn w] fit by (simp add: put_u16_twice)
    then show ?thesis by simp
  next
    case False
    then have "sector_word e s = sector_word data s" using sector by (simp add: d_def)
    with False show ?thesis by simp
  qed
  ultimately show ?case unfolding e by simp
qed simp

section \<open>Constructed headers\<close>

lemma block_count_bound: "UpdateSequenceBlockCount n w * 512 \<le> n" "UpdateSequenceBlockCount n w \<le> n div 512"
proof -
  show "UpdateSequenceBlockCount n w \<le> n div 512"
    by (auto simp: UpdateSequenceBlockCount_def Let_def update_sequence_stride_def)
  then show "UpdateSequenceBlockCount n w * 512 \<le> n" by (simp add: less_eq_div_iff_mult_less_eq)
qed

lemma read_us_array_ok:
  "off + 2 * (1 + i + n) \<le> length buffer \<Longrightarrow> length words + n \<le> max_words \<Longrightarrow>
     read_us_array buffer off i n words = Inr (words @ map (\<lambda>k. u16_at buffer (off + 2 * (1 + k))) [i..<i + n])"
proof (induction n arbitrary: i words)
  case (Suc n)
  have "[i..<i + Suc n] = i # [i + 1..<i + 1 + n]" by (simp add: upt_conv_Cons)
  with Suc show ?case by (simp add: memcpy_u16_def us_push_back_def)
qed simp

text \<open>The words of the update sequence array, as the header on disk declares them.\<close>

definition us_words :: "byte list \<Rightarrow> u16 list" where
  "us_words buffer =
     map (\<lambda>k. u16_at buffer (unat (u16_at buffer 4) + 2 * (1 + k)))
       [0..<UpdateSequenceBlockCount (length buffer) (u16_at buffer 6)]"

lemma new_record_header_cases:
  "new_record_header strategy buffer =
    (if length buffer < 48 then Inl BufferTooSmall
     else if length buffer > 4096 then Inl BufferTooLarge
     else if u32_at buffer 0 \<noteq> file_record_magic
     then Inr \<lparr>rh_us_number = 0, rh_us_array = [], rh_buffer_size = length buffer, rh_data = own_data strategy buffer\<rparr>
     else if unat (u16_at buffer 4) \<ge> length buffer then Inl UsOffsetPastEnd
     else if unat (u16_at buffer 4) + 2 * (1 + length (us_words buffer)) > length buffer then Inl UsArrayPastEnd
     else Inr \<lparr>rh_us_number = u16_at buffer (unat (u16_at buffer 4)), rh_us_array = us_words buffer,
               rh_buffer_size = length buffer, rh_data = own_data strategy buffer\<rparr>)"
proof -
  let ?n = "UpdateSequenceBlockCount (length buffer) (u16_at buffer 6)"
  have "?n \<le> max_words" if "length buffer \<le> 4096"
    using block_count_bound(2) [of "length buffer" "u16_at buffer 6"] div_le_mono [OF that, of 512]
    by (simp add: max_words_def max_file_record_size_def update_sequence_stride_def)
  then have "read_us_array buffer off 0 ?n [] = Inr (map (\<lambda>k. u16_at buffer (off + 2 * (1 + k))) [0..<?n])"
    if "off + 2 * (1 + ?n) \<le> length buffer" "length buffer \<le> 4096" for off
    using read_us_array_ok [of off 0 ?n buffer "[]"] that by simp
  then show ?thesis
    by (simp add: new_record_header_def Let_def memcpy_inside us_words_def min_file_record_header_size_def
        max_file_record_size_def)
qed

definition header_ok :: "record_header \<Rightarrow> bool" where
  "header_ok h \<longleftrightarrow> 512 * length (rh_us_array h) \<le> rh_buffer_size h \<and> rh_buffer_size h \<le> length (rh_data h) \<and>
     min_file_record_header_size \<le> length (rh_data h)"

lemma new_record_header_ok: "new_record_header strategy buffer = Inr h \<Longrightarrow> header_ok h"
  using block_count_bound(1) [of "length buffer" "u16_at buffer 6"]
  by (auto simp: new_record_header_cases header_ok_def us_words_def own_data_def record_consts
      split: if_splits cache_strategy.splits)

lemma patch_salvage:
  assumes "header_ok h"
  shows "PatchUSSalvage h =
    Inr (failures (rh_us_number h) (rh_us_array h) 0 (rh_data h),
         h\<lparr>rh_data := salvage (rh_us_number h) (rh_us_array h) 0 (rh_data h)\<rparr>)"
proof -
  have "512 * (0 + length (rh_us_array h)) \<le> length (rh_data h)"
    "512 * (0 + length (rh_us_array h)) \<le> 2 * (rh_buffer_size h div 2) + 1"
    using assms by (auto simp: header_ok_def)
  from patch_loop_salvage [OF this, of "rh_us_number h" 0] show ?thesis
    by (simp add: PatchUSSalvage_def PatchSectors_def)
qed

lemma patch_strict:
  assumes "header_ok h"
  shows "\<exists>data'. length data' = length (rh_data h) \<and>
    PatchUS h =
      Inr (if failures (rh_us_number h) (rh_us_array h) 0 (rh_data h) = 0
           then (True, h\<lparr>rh_data := salvage (rh_us_number h) (rh_us_array h) 0 (rh_data h)\<rparr>)
           else (False, h\<lparr>rh_data := data'\<rparr>))"
proof -
  have "512 * (0 + length (rh_us_array h)) \<le> length (rh_data h)"
    "512 * (0 + length (rh_us_array h)) \<le> 2 * (rh_buffer_size h div 2) + 1"
    using assms by (auto simp: header_ok_def)
  from patch_loop_stop [OF this, of "rh_us_number h" 0] show ?thesis
    by (auto simp: PatchUS_def PatchSectors_def)
qed

lemma judge_cases:
  assumes "header_ok h"
  shows "\<exists>data'. length data' = length (rh_data h) \<and> JudgeRecordHeader h recover fixup_failed =
    (let bad = failures (rh_us_number h) (rh_us_array h) 0 (rh_data h);
         h' = h\<lparr>rh_data := salvage (rh_us_number h) (rh_us_array h) 0 (rh_data h)\<rparr>
     in if u32_at (rh_data h) 0 \<noteq> file_record_magic then Inr (Rejected, fixup_failed, h)
        else if bad = 0 then Inr (Accepted, fixup_failed, h')
        else if \<not> recover then Inr (Rejected, True, h\<lparr>rh_data := data'\<rparr>)
        else if bad \<ge> length (rh_us_array h) then Inr (Rejected, True, h')
        else Inr (Salvaged, True, h'))"
proof -
  from patch_strict [OF assms] obtain data' where d: "length data' = length (rh_data h)"
    "PatchUS h =
      Inr (if failures (rh_us_number h) (rh_us_array h) 0 (rh_data h) = 0
           then (True, h\<lparr>rh_data := salvage (rh_us_number h) (rh_us_array h) 0 (rh_data h)\<rparr>)
           else (False, h\<lparr>rh_data := data'\<rparr>))" by blast
  have magic: "memcpy_u32 (rh_data h) 0 = Inr (u32_at (rh_data h) 0)"
    using assms by (intro memcpy_inside) (simp add: header_ok_def min_file_record_header_size_def)
  show ?thesis
    by (rule exI [of _ data']) (simp add: JudgeRecordHeader_def Let_def magic d patch_salvage [OF assms] SectorCount_def)
qed

lemma judged_inside:
  "bind_r (new_record_header strategy buffer) (\<lambda>h. JudgeRecordHeader h recover fixup_failed) \<noteq> Inl UsOutOfBounds"
proof
  assume "bind_r (new_record_header strategy buffer) (\<lambda>h. JudgeRecordHeader h recover fixup_failed) = Inl UsOutOfBounds"
  then consider "new_record_header strategy buffer = Inl UsOutOfBounds"
    | h where "new_record_header strategy buffer = Inr h" "JudgeRecordHeader h recover fixup_failed = Inl UsOutOfBounds"
    by (auto simp: bind_r_eq_Inl)
  then show False
  proof cases
    case 1
    then show False by (auto simp: new_record_header_cases split: if_splits)
  next
    case 2
    from judge_cases [OF new_record_header_ok [OF 2(1)], of recover fixup_failed] 2(2) show False
      by (auto simp: Let_def split: if_splits)
  qed
qed

text \<open>
  C32. Whatever the bytes of a record, the strategy and the mode: building its header and judging
  it never reads or writes outside the buffer, never overfills the array of saved words, and
  never fails an assert on the way.
\<close>

theorem judging_never_out_of_bounds:
  "bind_r (new_record_header strategy buffer) (\<lambda>h. JudgeRecordHeader h recover fixup_failed) \<noteq> Inl UsOutOfBounds"
  by (rule judged_inside)

lemma failures_zero: "failures usn ws 0 data = 0 \<longleftrightarrow> (\<forall>i < length ws. verifies usn ws data i)"
  by (auto simp: failures_count verifies_def)

lemma failures_all: "length ws \<le> failures usn ws 0 data \<longleftrightarrow> (\<forall>i < length ws. \<not> verifies usn ws data i)"
proof -
  let ?bad = "{i. i < length ws \<and> \<not> verifies usn ws data i}"
  have sub: "?bad \<subseteq> {..<length ws}" by auto
  have "length ws \<le> card ?bad \<longleftrightarrow> ?bad = {..<length ws}"
  proof
    assume "length ws \<le> card ?bad"
    then show "?bad = {..<length ws}" by (intro card_seteq [OF _ sub]) simp_all
  next
    assume "?bad = {..<length ws}"
    then have "card ?bad = card {..<length ws}" by (rule arg_cong)
    then show "length ws \<le> card ?bad" by simp
  qed
  moreover have "failures usn ws 0 data = card ?bad" by (simp add: failures_count verifies_def)
  moreover have "?bad = {..<length ws} \<longleftrightarrow> (\<forall>i < length ws. \<not> verifies usn ws data i)" by blast
  ultimately show ?thesis by simp
qed

definition patched_as :: "record_header \<Rightarrow> record_header \<Rightarrow> bool" where
  "patched_as h h' \<longleftrightarrow> length (rh_data h') = length (rh_data h) \<and>
     (\<forall>i < SectorCount h. sector_word (rh_data h') i =
        (if verifies (rh_us_number h) (rh_us_array h) (rh_data h) i then rh_us_array h ! i else sector_word (rh_data h) i)) \<and>
     (\<forall>k. (\<forall>i < SectorCount h. k \<noteq> last_word i \<and> k \<noteq> last_word i + 1) \<longrightarrow> rh_data h' ! k = rh_data h ! k)"

lemma salvage_patched_as:
  assumes "header_ok h"
  shows "patched_as h (h\<lparr>rh_data := salvage (rh_us_number h) (rh_us_array h) 0 (rh_data h)\<rparr>)"
proof -
  have fit: "512 * (0 + length (rh_us_array h)) \<le> length (rh_data h)" using assms by (simp add: header_ok_def)
  show ?thesis
    unfolding patched_as_def SectorCount_def
    using salvage_sector [OF fit, of _ "rh_us_number h"] salvage_nth [OF fit, of _ "rh_us_number h"]
    by (simp add: verifies_def)
qed

text \<open>
  C30. What the checks on a record decide: it is accepted exactly where it carries the FILE magic
  and the last word of every block its array covers is the update sequence number or the saved
  word; salvaged exactly when recovering, with some block that verifies and some that does not;
  the failure flag is raised exactly where a block of a FILE record does not verify. Of a record
  not rejected, the verifying blocks hold their saved last word, and every other byte is as read.
\<close>

theorem judge_verdict:
  assumes "new_record_header strategy buffer = Inr h"
  shows "\<exists>verdict failed h'. JudgeRecordHeader h recover False = Inr (verdict, failed, h') \<and>
    (let is_file = (u32_at (rh_data h) 0 = file_record_magic);
         good = verifies (rh_us_number h) (rh_us_array h) (rh_data h)
     in (verdict = Accepted \<longleftrightarrow> is_file \<and> (\<forall>i < SectorCount h. good i)) \<and>
        (verdict = Salvaged \<longleftrightarrow> is_file \<and> recover \<and> (\<exists>i < SectorCount h. good i) \<and> (\<exists>i < SectorCount h. \<not> good i)) \<and>
        (failed \<longleftrightarrow> is_file \<and> (\<exists>i < SectorCount h. \<not> good i)) \<and>
        (verdict \<noteq> Rejected \<longrightarrow> patched_as h h'))"
proof -
  note ok = new_record_header_ok [OF assms]
  note patched = salvage_patched_as [OF ok]
  define good where "good = verifies (rh_us_number h) (rh_us_array h) (rh_data h)"
  define bad where "bad = failures (rh_us_number h) (rh_us_array h) 0 (rh_data h)"
  define h1 where "h1 = h\<lparr>rh_data := salvage (rh_us_number h) (rh_us_array h) 0 (rh_data h)\<rparr>"
  have zero: "bad = 0 \<longleftrightarrow> (\<forall>i < SectorCount h. good i)"
    by (simp add: bad_def good_def failures_zero SectorCount_def)
  have all: "SectorCount h \<le> bad \<longleftrightarrow> (\<forall>i < SectorCount h. \<not> good i)"
    by (simp add: bad_def good_def failures_all SectorCount_def)
  obtain data' where judged: "JudgeRecordHeader h recover False =
      (if u32_at (rh_data h) 0 \<noteq> file_record_magic then Inr (Rejected, False, h)
        else if bad = 0 then Inr (Accepted, False, h1)
        else if \<not> recover then Inr (Rejected, True, h\<lparr>rh_data := data'\<rparr>)
        else if bad \<ge> SectorCount h then Inr (Rejected, True, h1)
        else Inr (Salvaged, True, h1))"
    using judge_cases [OF ok, of recover False] unfolding Let_def bad_def h1_def SectorCount_def by blast
  consider (other) "u32_at (rh_data h) 0 \<noteq> file_record_magic"
    | (whole) "u32_at (rh_data h) 0 = file_record_magic" "bad = 0"
    | (strict) "u32_at (rh_data h) 0 = file_record_magic" "bad \<noteq> 0" "\<not> recover"
    | (none) "u32_at (rh_data h) 0 = file_record_magic" "bad \<noteq> 0" "recover" "SectorCount h \<le> bad"
    | (some) "u32_at (rh_data h) 0 = file_record_magic" "bad \<noteq> 0" "recover" "\<not> SectorCount h \<le> bad"
    by blast
  then show ?thesis
  proof cases
    case other
    then show ?thesis
      by (intro exI [of _ Rejected] exI [of _ False] exI [of _ h]) (simp add: judged Let_def good_def)
  next
    case whole
    with judged zero patched show ?thesis
      by (intro exI [of _ Accepted] exI [of _ False] exI [of _ h1]) (auto simp add: h1_def Let_def good_def)
  next
    case strict
    with judged zero show ?thesis
      by (intro exI [of _ Rejected] exI [of _ True] exI [of _ "h\<lparr>rh_data := data'\<rparr>"]) (auto simp add: Let_def good_def)
  next
    case none
    with judged zero all show ?thesis
      by (intro exI [of _ Rejected] exI [of _ True] exI [of _ h1]) (auto simp add: Let_def good_def)
  next
    case some
    with judged zero all patched show ?thesis
      by (intro exI [of _ Salvaged] exI [of _ True] exI [of _ h1]) (auto simp add: h1_def Let_def good_def)
  qed
qed

text \<open>
  Patching a record twice is patching it once: a second salvage, as on a record held by a full
  cache, reports the same failures and changes no byte.
\<close>

lemma salvage_idempotent:
  assumes "new_record_header strategy buffer = Inr h" and "PatchUSSalvage h = Inr (failed, h')"
  shows "PatchUSSalvage h' = Inr (failed, h')"
proof -
  note ok = new_record_header_ok [OF assms(1)]
  then have fit: "512 * (0 + length (rh_us_array h)) \<le> length (rh_data h)" by (simp add: header_ok_def)
  have h': "h' = h\<lparr>rh_data := salvage (rh_us_number h) (rh_us_array h) 0 (rh_data h)\<rparr>"
    and failed: "failed = failures (rh_us_number h) (rh_us_array h) 0 (rh_data h)"
    using assms(2) patch_salvage [OF ok] by auto
  have "header_ok h'" using ok by (simp add: h' header_ok_def)
  from patch_salvage [OF this] show ?thesis
    using failures_salvage [OF fit] salvage_again [OF fit] by (simp add: h' failed)
qed

section \<open>The round trip with a writer\<close>

text \<open>
  What NTFS does before it writes a protected buffer: the number and the last word of every block
  go to the update sequence array at \<open>off\<close>, and every last word becomes the number. The library
  only reads: this is specification.
\<close>

fun put_words :: "byte list \<Rightarrow> nat \<Rightarrow> u16 list \<Rightarrow> byte list" where
  "put_words bs off [] = bs"
| "put_words bs off (w # ws) = put_words (put_u16 bs off w) (off + 2) ws"

fun stamp :: "u16 \<Rightarrow> nat \<Rightarrow> byte list \<Rightarrow> byte list" where
  "stamp usn 0 bs = bs"
| "stamp usn (Suc n) bs = stamp usn n (put_u16 bs (last_word n) usn)"

definition protect :: "u16 \<Rightarrow> nat \<Rightarrow> byte list \<Rightarrow> byte list" where
  "protect usn off bs =
     stamp usn (length bs div 512)
       (put_words bs off (usn # map (sector_word bs) [0..<length bs div 512]))"

definition in_array :: "nat \<Rightarrow> nat \<Rightarrow> nat \<Rightarrow> bool" where
  "in_array off n k \<longleftrightarrow> off \<le> k \<and> k < off + 2 * (1 + n)"

lemma length_put_words [simp]: "length (put_words bs off ws) = length bs"
  by (induction bs off ws rule: put_words.induct) simp_all

lemma length_stamp [simp]: "length (stamp usn n bs) = length bs"
  by (induction usn n bs rule: stamp.induct) simp_all

lemma length_protect [simp]: "length (protect usn off bs) = length bs"
  by (simp add: protect_def)

lemma put_words_nth: "k < off \<or> off + 2 * length ws \<le> k \<Longrightarrow> put_words bs off ws ! k = bs ! k"
proof (induction ws arbitrary: off bs)
  case (Cons w ws)
  have "k < off + 2 \<or> off + 2 + 2 * length ws \<le> k" using Cons.prems by auto
  from Cons.IH [OF this] have "put_words bs off (w # ws) ! k = put_u16 bs off w ! k" by simp
  also have "\<dots> = bs ! k" using Cons.prems by (intro nth_put_other) auto
  finally show ?case .
qed simp

lemma put_words_at:
  "off + 2 * length ws \<le> length bs \<Longrightarrow> i < length ws \<Longrightarrow> u16_at (put_words bs off ws) (off + 2 * i) = ws ! i"
proof (induction ws arbitrary: off bs i)
  case (Cons w ws)
  show ?case
  proof (cases i)
    case 0
    have "u16_at (put_words (put_u16 bs off w) (off + 2) ws) off = u16_at (put_u16 bs off w) off"
      by (rule u16_at_cong) (use Cons.prems in \<open>auto simp: put_words_nth\<close>)
    then show ?thesis using 0 Cons.prems by (simp add: u16_at_put_same)
  next
    case (Suc j)
    then show ?thesis using Cons.IH [of "off + 2" "put_u16 bs off w" j] Cons.prems by (simp add: add.assoc)
  qed
qed simp

lemma stamp_nth: "(\<And>i. i < n \<Longrightarrow> k \<noteq> last_word i \<and> k \<noteq> last_word i + 1) \<Longrightarrow> stamp usn n bs ! k = bs ! k"
proof (induction n arbitrary: bs)
  case (Suc n)
  then have "stamp usn n (put_u16 bs (last_word n) usn) ! k = put_u16 bs (last_word n) usn ! k" by simp
  also have "\<dots> = bs ! k" using Suc.prems [of n] by (intro nth_put_other) simp_all
  finally show ?case by simp
qed simp

lemma stamp_sector: "512 * n \<le> length bs \<Longrightarrow> i < n \<Longrightarrow> sector_word (stamp usn n bs) i = usn"
proof (induction n arbitrary: bs)
  case (Suc n)
  show ?case
  proof (cases "i = n")
    case True
    have "sector_word (stamp usn n (put_u16 bs (last_word n) usn)) n = sector_word (put_u16 bs (last_word n) usn) n"
      unfolding sector_word_def
      by (rule u16_at_cong) (use Suc.prems in \<open>auto simp: last_word_def intro!: stamp_nth\<close>)
    also have "\<dots> = usn" by (rule sector_word_put_same) (use Suc.prems in \<open>simp add: last_word_def\<close>)
    finally show ?thesis using True by simp
  next
    case False
    with Suc show ?thesis by simp
  qed
qed simp

text \<open>The layout a writer gives a record: the declared array is whole, and clear of the last words.\<close>

definition record_layout :: "byte list \<Rightarrow> nat \<Rightarrow> bool" where
  "record_layout bs off \<longleftrightarrow> (\<exists>n. length bs = 512 * n \<and> 1 \<le> n \<and> n \<le> 8 \<and> unat (u16_at bs 6) = n + 1 \<and>
     off + 2 * (1 + n) \<le> 510) \<and> u32_at bs 0 = file_record_magic \<and> unat (u16_at bs 4) = off \<and> 8 \<le> off"

lemma u32_at_cong: "take 4 bs = take 4 bs' \<Longrightarrow> u32_at bs 0 = u32_at bs' 0"
  by (simp add: u32_at_def read_le_def)

lemma last_word_clear: "off + 2 * (1 + n) \<le> 510 \<Longrightarrow> in_array off n k \<Longrightarrow> k \<noteq> last_word i \<and> k \<noteq> last_word i + 1"
  by (auto simp: in_array_def last_word_def)

lemma protect_facts:
  fixes usn :: u16 and bs :: "byte list"
  assumes len: "length bs = 512 * n" and n: "1 \<le> n" and fit: "off + 2 * (1 + n) \<le> 510" and off: "8 \<le> off"
  defines "p \<equiv> protect usn off bs"
  shows "k < off \<Longrightarrow> p ! k = bs ! k"
    and "\<not> in_array off n k \<Longrightarrow> (\<And>i. i < n \<Longrightarrow> k \<noteq> last_word i \<and> k \<noteq> last_word i + 1) \<Longrightarrow> p ! k = bs ! k"
    and "u16_at p off = usn"
    and "i < n \<Longrightarrow> u16_at p (off + 2 * (1 + i)) = sector_word bs i"
    and "i < n \<Longrightarrow> sector_word p i = usn"
proof -
  let ?ws = "usn # map (sector_word bs) [0..<n]"
  have p: "p = stamp usn n (put_words bs off ?ws)" unfolding p_def protect_def using len by simp
  have clear: "p ! k = put_words bs off ?ws ! k" if "\<And>i. i < n \<Longrightarrow> k \<noteq> last_word i \<and> k \<noteq> last_word i + 1" for k
    unfolding p by (rule stamp_nth) (use that in blast)
  show "p ! k = bs ! k" if "k < off"
    using clear [of k] that fit put_words_nth [of k off ?ws bs] by (simp add: last_word_def)
  show "p ! k = bs ! k" if "\<not> in_array off n k" "\<And>i. i < n \<Longrightarrow> k \<noteq> last_word i \<and> k \<noteq> last_word i + 1"
    using clear [OF that(2)] that(1) put_words_nth [of k off ?ws bs] by (auto simp: in_array_def not_less)
  have word: "u16_at p (off + 2 * j) = ?ws ! j" if "j < Suc n" for j
  proof -
    have arr: "in_array off n (off + 2 * j)" "in_array off n (off + 2 * j + 1)" using that by (simp_all add: in_array_def)
    have "u16_at p (off + 2 * j) = u16_at (put_words bs off ?ws) (off + 2 * j)"
    proof (rule u16_at_cong)
      show "off + 2 * j + 1 < length p" using that fit len n by (simp add: p)
      show "p ! (off + 2 * j) = put_words bs off ?ws ! (off + 2 * j)"
        by (rule clear) (use last_word_clear [OF fit arr(1)] in blast)
      show "p ! (off + 2 * j + 1) = put_words bs off ?ws ! (off + 2 * j + 1)"
        by (rule clear) (use last_word_clear [OF fit arr(2)] in blast)
    qed (simp add: p del: put_words.simps)
    also have "\<dots> = ?ws ! j" by (rule put_words_at) (use that fit len n in simp_all)
    finally show ?thesis .
  qed
  from word [of 0] show "u16_at p off = usn" by simp
  from word [of "Suc i"] show "u16_at p (off + 2 * (1 + i)) = sector_word bs i" if "i < n" using that by simp
  show "sector_word p i = usn" if "i < n" unfolding p by (rule stamp_sector) (use that len in simp_all)
qed

text \<open>
  C18. Round trip: a record that a writer protected, read back with either strategy, has every
  sector verify, and PatchUS() gives back every byte outside the update sequence array.
\<close>

theorem protect_read_back:
  assumes "record_layout bs off"
  shows "\<exists>h h'. new_record_header strategy (protect usn off bs) = Inr h \<and> PatchUS h = Inr (True, h') \<and>
    (\<forall>k < length bs. \<not> in_array off (length bs div 512) k \<longrightarrow> rh_data h' ! k = bs ! k)"
proof -
  let ?p = "protect usn off bs"
  from assms obtain n where layout: "length bs = 512 * n" "1 \<le> n" "n \<le> 8" "unat (u16_at bs 6) = n + 1"
    "off + 2 * (1 + n) \<le> 510" "u32_at bs 0 = file_record_magic" "unat (u16_at bs 4) = off" "8 \<le> off"
    by (auto simp: record_layout_def)
  note facts = protect_facts [where usn = usn, OF layout(1,2,5,8)]
  have low: "?p ! k = bs ! k" if "k < 8" for k by (rule facts(1)) (use that layout(8) in simp)
  have off16: "u16_at ?p 4 = u16_at bs 4" by (rule u16_at_cong) (use layout(1,2) low in simp_all)
  have size16: "u16_at ?p 6 = u16_at bs 6" by (rule u16_at_cong) (use layout(1,2) low in simp_all)
  have "take 4 ?p = take 4 bs" by (rule nth_equalityI) (use low in auto)
  then have magic: "u32_at ?p 0 = file_record_magic" using layout(6) u32_at_cong by metis
  have "u16_at bs 6 > 0" using layout(4) by (simp add: word_less_nat_alt)
  then have count: "UpdateSequenceBlockCount (length ?p) (u16_at ?p 6) = n"
    using layout by (simp add: UpdateSequenceBlockCount_def Let_def update_sequence_stride_def size16)
  have ws: "us_words ?p = map (sector_word bs) [0..<n]"
    unfolding us_words_def count off16 layout(7) by (rule map_cong) (use facts(4) in auto)
  let ?h = "\<lparr>rh_us_number = usn, rh_us_array = us_words ?p, rh_buffer_size = length ?p, rh_data = own_data strategy ?p\<rparr>"
  have new: "new_record_header strategy ?p = Inr ?h"
    using layout magic facts(3) by (simp add: new_record_header_cases off16 ws)
  note ok = new_record_header_ok [OF new]
  have own: "own_data strategy ?p ! k = ?p ! k" if "k < length bs" for k
    using that by (simp add: own_data_def nth_append split: cache_strategy.split)
  have own_len: "length bs \<le> length (own_data strategy ?p)" by (simp add: own_data_def split: cache_strategy.split)
  have own_sector: "sector_word (own_data strategy ?p) i = usn" if "i < n" for i
  proof -
    have in_bs: "last_word i + 1 < length bs" using that layout(1) by (simp add: last_word_def)
    have "sector_word (own_data strategy ?p) i = sector_word ?p i"
      unfolding sector_word_def u16_at_def read_le_def
      using in_bs by (simp add: own_data_def split: cache_strategy.split)
    then show ?thesis using facts(5) [OF that] by simp
  qed
  have "failures usn (us_words ?p) 0 (own_data strategy ?p) = 0"
    unfolding failures_zero by (simp add: ws verifies_def own_sector)
  then have strict: "PatchUS ?h = Inr (True, ?h\<lparr>rh_data := salvage usn (us_words ?p) 0 (own_data strategy ?p)\<rparr>)"
    using patch_strict [OF ok] by auto
  have fit: "512 * (0 + length (us_words ?p)) \<le> length (own_data strategy ?p)" using own_len layout(1) by (simp add: ws)
  have "salvage usn (us_words ?p) 0 (own_data strategy ?p) ! k = bs ! k"
    if k: "k < length bs" "\<not> in_array off n k" for k
  proof (cases "\<exists>i < n. k = last_word i \<or> k = last_word i + 1")
    case False
    then have "salvage usn (us_words ?p) 0 (own_data strategy ?p) ! k = own_data strategy ?p ! k"
      by (intro salvage_nth [OF fit]) (auto simp: ws)
    then show ?thesis using own [OF k(1)] facts(2) [OF k(2)] False by auto
  next
    case True
    then obtain i where i: "i < n" "k = last_word i \<or> k = last_word i + 1" by blast
    let ?s = "salvage usn (us_words ?p) 0 (own_data strategy ?p)"
    have in_bs: "last_word i + 1 < length bs" using i layout(1) by (simp add: last_word_def)
    have "u16_at ?s (last_word i) = u16_at bs (last_word i)"
      using salvage_sector [OF fit, of i usn] i own_sector [OF i(1)] by (simp add: ws sector_word_def)
    then have "?s ! last_word i = bs ! last_word i \<and> ?s ! (last_word i + 1) = bs ! (last_word i + 1)"
      using in_bs own_len by (intro u16_at_bytes) simp_all
    then show ?thesis using i(2) by auto
  qed
  then show ?thesis using new strict layout(1) by (intro exI conjI) auto
qed

section \<open>Index blocks\<close>

definition index_block_magic :: u32 where "index_block_magic = 0x58444E49"
definition index_block_header_size :: nat where "index_block_header_size = 40"

definition IndexBlockUsOffsetInBounds :: "nat \<Rightarrow> nat \<Rightarrow> nat \<Rightarrow> bool" where
  "IndexBlockUsOffsetInBounds offset_of_us sectors index_block_size \<longleftrightarrow>
     offset_of_us \<ge> index_block_header_size \<and> offset_of_us + 2 * (1 + sectors) \<le> index_block_size"

text \<open>AttrIndexAlloc::PatchUS(), sector \<open>i\<close> with \<open>n\<close> left to do.\<close>

fun index_patch_loop :: "nat \<Rightarrow> nat \<Rightarrow> u16 \<Rightarrow> u16 list \<Rightarrow> byte list \<Rightarrow> us_error + bool \<times> byte list" where
  "index_patch_loop i 0 usn usarray block = Inr (True, block)"
| "index_patch_loop i (Suc n) usn usarray block =
    (let pos = (i + 1) * (update_sequence_stride div 2) - 1 in
     if \<not> (pos < length block div 2 \<and> i < length usarray) then Inl UsOutOfBounds
     else if u16_at block (2 * pos) \<noteq> usn then Inr (False, block)
     else index_patch_loop (i + 1) n usn usarray (put_u16 block (2 * pos) (usarray ! i)))"

text \<open>The loop that copies the array out of the block.\<close>

fun read_usarray :: "byte list \<Rightarrow> nat \<Rightarrow> nat \<Rightarrow> nat \<Rightarrow> us_error + u16 list" where
  "read_usarray block off i 0 = Inr []"
| "read_usarray block off i (Suc n) =
     bind_r (memcpy_u16 block (off + 2 + 2 * i)) (\<lambda>w.
     bind_r (read_usarray block off (i + 1) n) (\<lambda>ws. Inr (w # ws)))"

definition FixupIndexBlock :: "nat \<Rightarrow> byte list \<Rightarrow> us_error + bool \<times> byte list" where
  "FixupIndexBlock index_block_size block =
    (if length block < index_block_header_size then Inl UsOutOfBounds
     else if u32_at block 0 \<noteq> index_block_magic then Inr (False, block)
     else
       let offset_of_us = unat (u16_at block 4);
           sectors = UpdateSequenceBlockCount index_block_size (u16_at block 6)
       in if \<not> IndexBlockUsOffsetInBounds offset_of_us sectors index_block_size then Inr (False, block)
          else
            bind_r (memcpy_u16 block offset_of_us) (\<lambda>usn.
            bind_r (read_usarray block offset_of_us 0 sectors) (\<lambda>usarray.
            index_patch_loop 0 sectors usn usarray block)))"

text \<open>
  BlockOffset(): the byte offset of a sub-node VCN. A zero block or cluster size, which the
  volume's geometry excludes, would divide by zero.
\<close>

definition BlockOffset :: "u32 \<Rightarrow> u32 \<Rightarrow> u64 \<Rightarrow> u64 \<Rightarrow> u64 option" where
  "BlockOffset index_block_size cluster_size index_block_count vcn =
    (let vcn_unit = (if index_block_size \<ge> cluster_size then cluster_size else index_block_size)
     in if vcn > u64_max div ucast vcn_unit then None
        else
          let byte_offset = vcn * ucast vcn_unit
          in if byte_offset mod ucast index_block_size \<noteq> 0 \<or>
                byte_offset div ucast index_block_size \<ge> index_block_count then None
             else Some byte_offset)"

lemma read_usarray_ok:
  "off + 2 + 2 * (i + n) \<le> length block \<Longrightarrow>
     read_usarray block off i n = Inr (map (\<lambda>k. u16_at block (off + 2 * (1 + k))) [i..<i + n])"
proof (induction n arbitrary: i)
  case (Suc n)
  have "[i..<i + Suc n] = i # [i + 1..<i + 1 + n]" by (simp add: upt_conv_Cons)
  with Suc show ?case by (simp add: memcpy_u16_def)
qed simp

lemma index_patch_loop_result:
  assumes "512 * (i + n) \<le> length block" "length usarray = i + n"
  shows "\<exists>block'. index_patch_loop i n usn usarray block =
      Inr ((\<forall>k. i \<le> k \<and> k < i + n \<longrightarrow> sector_word block k = usn), block') \<and> length block' = length block \<and>
    ((\<forall>k. i \<le> k \<and> k < i + n \<longrightarrow> sector_word block k = usn) \<longrightarrow>
      (\<forall>k. i \<le> k \<and> k < i + n \<longrightarrow> sector_word block' k = usarray ! k) \<and>
      (\<forall>j. (\<forall>k. i \<le> k \<and> k < i + n \<longrightarrow> j \<noteq> last_word k \<and> j \<noteq> last_word k + 1) \<longrightarrow> block' ! j = block ! j))"
  using assms
proof (induction n arbitrary: i block)
  case (Suc n)
  let ?b = "put_u16 block (last_word i) (usarray ! i)"
  have pos: "2 * ((i + 1) * (update_sequence_stride div 2) - 1) = last_word i"
    by (simp add: update_sequence_stride_def last_word_def)
  have inside: "(i + 1) * (update_sequence_stride div 2) - 1 < length block div 2 \<and> i < length usarray"
    using Suc.prems by (simp add: update_sequence_stride_def)
  have eq: "index_patch_loop i (Suc n) usn usarray block =
    (if sector_word block i \<noteq> usn then Inr (False, block) else index_patch_loop (i + 1) n usn usarray ?b)"
    unfolding index_patch_loop.simps Let_def pos sector_word_def using inside by simp
  show ?case
  proof (cases "sector_word block i = usn")
    case False
    then have no: "(\<forall>k. i \<le> k \<and> k < i + Suc n \<longrightarrow> sector_word block k = usn) = False" by auto
    show ?thesis unfolding eq no using False by simp
  next
    case True
    have other: "sector_word ?b k = sector_word block k" if "i + 1 \<le> k" "k < i + 1 + n" for k
      by (rule sector_word_put_other) (use that Suc.prems in \<open>auto simp: last_word_def\<close>)
    have all: "(\<forall>k. i + 1 \<le> k \<and> k < i + 1 + n \<longrightarrow> sector_word ?b k = usn) \<longleftrightarrow>
        (\<forall>k. i \<le> k \<and> k < i + Suc n \<longrightarrow> sector_word block k = usn)" (is "?A \<longleftrightarrow> ?B")
    proof
      assume ?A
      show ?B
      proof (intro allI impI)
        fix k assume k: "i \<le> k \<and> k < i + Suc n"
        then show "sector_word block k = usn"
          using True \<open>?A\<close> other [of k] by (cases "k = i") simp_all
      qed
    next
      assume ?B
      then show ?A using other by simp
    qed
    have "512 * (i + 1 + n) \<le> length ?b" "length usarray = i + 1 + n" using Suc.prems by simp_all
    from Suc.IH [OF this] obtain block' where ih:
      "index_patch_loop (i + 1) n usn usarray ?b = Inr (?B, block')" "length block' = length block"
      "?B \<Longrightarrow> (\<forall>k. i + 1 \<le> k \<and> k < i + 1 + n \<longrightarrow> sector_word block' k = usarray ! k)"
      "?B \<Longrightarrow> (\<forall>j. (\<forall>k. i + 1 \<le> k \<and> k < i + 1 + n \<longrightarrow> j \<noteq> last_word k \<and> j \<noteq> last_word k + 1) \<longrightarrow> block' ! j = ?b ! j)"
      unfolding all by auto
    have keep: "sector_word block' i = sector_word ?b i" if ?B
      unfolding sector_word_def
      by (rule u16_at_cong) (use ih(2,4) that Suc.prems in \<open>auto simp: last_word_def\<close>)
    have here: "sector_word ?b i = usarray ! i"
      by (rule sector_word_put_same) (use Suc.prems in \<open>simp add: last_word_def\<close>)
    have words: "sector_word block' k = usarray ! k" if ?B "i \<le> k \<and> k < i + Suc n" for k
      using ih(3) [OF that(1)] that(2) keep [OF that(1)] here by (cases "k = i") simp_all
    have bytes: "block' ! j = block ! j"
      if ?B and j: "\<forall>k. i \<le> k \<and> k < i + Suc n \<longrightarrow> j \<noteq> last_word k \<and> j \<noteq> last_word k + 1" for j
    proof -
      have "j \<noteq> last_word i" "j \<noteq> last_word i + 1" using j by auto
      then have "?b ! j = block ! j" by (rule nth_put_other)
      moreover have "block' ! j = ?b ! j" using ih(4) [OF that(1)] j by auto
      ultimately show ?thesis by simp
    qed
    show ?thesis
      unfolding eq by (rule exI [of _ block']) (use True ih(1,2) words bytes in simp)
  qed
qed auto

text \<open>
  FixupIndexBlock() on a block as long as the volume's index block size: it never leaves the
  block, and accepts exactly where the block carries the INDX magic, its array fits past the
  header, and every block the array covers ends with the update sequence number. Accepted, every
  covered block ends with its saved word, and every other byte is as read.
\<close>

lemma FixupIndexBlock_exact:
  assumes "index_block_header_size \<le> length block"
  shows "\<exists>good block'. FixupIndexBlock (length block) block = Inr (good, block') \<and> length block' = length block \<and>
    (let off = unat (u16_at block 4); n = length (us_words block)
     in (good \<longleftrightarrow> u32_at block 0 = index_block_magic \<and> IndexBlockUsOffsetInBounds off n (length block) \<and>
           (\<forall>i < n. sector_word block i = u16_at block off)) \<and>
        (good \<longrightarrow> (\<forall>i < n. sector_word block' i = us_words block ! i) \<and>
           (\<forall>j. (\<forall>i < n. j \<noteq> last_word i \<and> j \<noteq> last_word i + 1) \<longrightarrow> block' ! j = block ! j)))"
proof -
  let ?off = "unat (u16_at block 4)" and ?n = "UpdateSequenceBlockCount (length block) (u16_at block 6)"
  have n: "length (us_words block) = ?n" by (simp add: us_words_def)
  show ?thesis
  proof (cases "u32_at block 0 = index_block_magic \<and> IndexBlockUsOffsetInBounds ?off ?n (length block)")
    case False
    then have "FixupIndexBlock (length block) block = Inr (False, block)"
      using assms by (auto simp: FixupIndexBlock_def Let_def)
    with False show ?thesis by (auto simp: Let_def n)
  next
    case True
    then have room: "?off + 2 + 2 * (0 + ?n) \<le> length block" by (simp add: IndexBlockUsOffsetInBounds_def)
    have "read_usarray block ?off 0 ?n = Inr (us_words block)"
      using read_usarray_ok [OF room] by (simp add: us_words_def)
    then have eq: "FixupIndexBlock (length block) block =
        index_patch_loop 0 ?n (u16_at block ?off) (us_words block) block"
      using assms True room by (simp add: FixupIndexBlock_def Let_def memcpy_u16_def)
    have "512 * (0 + ?n) \<le> length block" using block_count_bound(1) [of "length block" "u16_at block 6"] by simp
    from index_patch_loop_result [OF this, of "us_words block" "u16_at block ?off"] True
    show ?thesis unfolding eq by (auto simp: Let_def n)
  qed
qed

lemma unat_u32_to_u64 [simp]: "unat (ucast (x :: u32) :: u64) = unat x"
  using unat_u32_bound [of x] by (simp add: unsigned_ucast_eq take_bit_nat_eq_self_iff)

text \<open>
  BlockOffset(): it answers the product of the VCN and the VCN unit, as a number that did not
  wrap, exactly where that product is the start of one of the stream's blocks.
\<close>

lemma BlockOffset_exact:
  assumes "0 < index_block_size" and "0 < cluster_size"
  shows "BlockOffset index_block_size cluster_size index_block_count vcn = Some off \<longleftrightarrow>
    unat off = unat vcn * min (unat index_block_size) (unat cluster_size) \<and>
    unat index_block_size dvd unat off \<and> unat off div unat index_block_size < unat index_block_count"
proof -
  define vcn_unit where "vcn_unit = (if index_block_size \<ge> cluster_size then cluster_size else index_block_size)"
  have unit: "unat vcn_unit = min (unat index_block_size) (unat cluster_size)"
    by (auto simp: vcn_unit_def word_le_nat_alt)
  have pos: "0 < unat vcn_unit" using assms by (simp add: unit word_less_nat_alt)
  have limit: "vcn > u64_max div ucast vcn_unit \<longleftrightarrow> 2 ^ 64 \<le> unat vcn * unat vcn_unit"
  proof -
    have "vcn > u64_max div ucast vcn_unit \<longleftrightarrow> (2 ^ 64 - 1) div unat vcn_unit < unat vcn"
      by (simp add: u64_nat unat_div)
    also have "\<dots> \<longleftrightarrow> 2 ^ 64 - 1 < unat vcn * unat vcn_unit" using pos by (simp add: div_less_iff_less_mult)
    finally show ?thesis by auto
  qed
  show ?thesis
  proof (cases "2 ^ 64 \<le> unat vcn * unat vcn_unit")
    case True
    then have "BlockOffset index_block_size cluster_size index_block_count vcn = None"
      using limit by (simp add: BlockOffset_def vcn_unit_def [symmetric])
    moreover have "unat off \<noteq> unat vcn * unat vcn_unit" using True unat_u64_bound [of off] by simp
    ultimately show ?thesis by (simp add: unit)
  next
    case False
    define p where "p = vcn * ucast vcn_unit"
    have p: "unat p = unat vcn * unat vcn_unit"
      unfolding p_def using False by (subst unat_u64_mult) simp_all
    have "p mod ucast index_block_size = 0 \<longleftrightarrow> unat index_block_size dvd unat p"
      by (simp add: word_unat_eq_iff unat_mod mod_eq_0_iff_dvd)
    moreover have "p div ucast index_block_size \<ge> index_block_count \<longleftrightarrow>
        unat index_block_count \<le> unat p div unat index_block_size"
      by (simp add: u64_nat unat_div)
    ultimately have "BlockOffset index_block_size cluster_size index_block_count vcn =
        (if unat index_block_size dvd unat p \<and> unat p div unat index_block_size < unat index_block_count then Some p else None)"
      using limit False by (simp add: BlockOffset_def vcn_unit_def [symmetric] p_def [symmetric] Let_def not_le)
    moreover have "unat off = unat vcn * unat vcn_unit \<longleftrightarrow> off = p" using p by (metis unat_u64_inj)
    ultimately show ?thesis unfolding unit [symmetric] using p by auto
  qed
qed

section \<open>A record and a block the theorems apply to\<close>

definition sample_record :: "byte list" where
  "sample_record = [0x46, 0x49, 0x4C, 0x45, 0x30, 0, 2, 0] @ replicate 502 0 @ [7, 9]"

lemma sample_record_layout: "record_layout sample_record 0x30"
  unfolding record_layout_def
  by (intro conjI exI [of _ 1])
    (simp_all add: sample_record_def u16_at_def u32_at_def read_le_def file_record_magic_def)

lemma sample_record_header:
  "new_record_header NoCache sample_record =
     Inr \<lparr>rh_us_number = 0, rh_us_array = [0], rh_buffer_size = 512, rh_data = sample_record\<rparr>"
  by (simp add: new_record_header_cases sample_record_def us_words_def UpdateSequenceBlockCount_def own_data_def
      u16_at_def u32_at_def read_le_def file_record_magic_def update_sequence_stride_def)

lemma protect_read_back_witness:
  "\<exists>h h'. new_record_header FullCache (protect 5 0x30 sample_record) = Inr h \<and> PatchUS h = Inr (True, h') \<and>
    rh_data h' ! 511 = 9"
proof -
  have "length sample_record = 512" "sample_record ! 511 = 9" by (simp_all add: sample_record_def nth_append)
  moreover from this have "\<not> in_array 0x30 (length sample_record div 512) 511" by (simp add: in_array_def)
  ultimately show ?thesis
    using protect_read_back [OF sample_record_layout, of FullCache 5] by fastforce
qed

definition sample_header :: record_header where
  "sample_header = \<lparr>rh_us_number = 0, rh_us_array = [0], rh_buffer_size = 512, rh_data = sample_record\<rparr>"

lemma sample_sector: "sector_word sample_record 0 = 0x0907"
  by (simp add: sector_word_def last_word_def sample_record_def u16_at_def read_le_def)

lemma judge_verdict_witness:
  "\<exists>h'. new_record_header NoCache sample_record = Inr sample_header \<and>
     JudgeRecordHeader sample_header True False = Inr (Rejected, True, h')"
proof -
  note new = sample_record_header [folded sample_header_def]
  have "u32_at (rh_data sample_header) 0 = file_record_magic"
    by (simp add: sample_header_def sample_record_def u32_at_def read_le_def file_record_magic_def)
  moreover have "\<not> verifies (rh_us_number sample_header) (rh_us_array sample_header) (rh_data sample_header) 0"
    by (simp add: verifies_def sample_header_def sample_sector)
  moreover have "SectorCount sample_header = 1" by (simp add: SectorCount_def sample_header_def)
  ultimately show ?thesis
    using judge_verdict [OF new, of True] new by (auto simp: Let_def intro: header_verdict.exhaust)
qed

lemma salvage_idempotent_witness: "PatchUSSalvage sample_header = Inr (1, sample_header)"
proof -
  note new = sample_record_header [folded sample_header_def]
  from patch_salvage [OF new_record_header_ok [OF new]]
  have "PatchUSSalvage sample_header = Inr (1, sample_header)"
    by (simp add: sample_header_def sample_sector)
  from salvage_idempotent [OF new this] show ?thesis .
qed

definition sample_block :: "byte list" where
  "sample_block = [0x49, 0x4E, 0x44, 0x58, 0x28, 0, 2, 0] @ replicate 504 0"

lemma sample_block_facts:
  "index_block_header_size \<le> length sample_block" "u16_at sample_block 4 = 0x28" "us_words sample_block = [0]"
  "sector_word sample_block 0 = 0" "u32_at sample_block 0 = index_block_magic" "u16_at sample_block 40 = 0"
  "length sample_block = 512"
  by (simp_all add: sample_block_def index_block_header_size_def us_words_def UpdateSequenceBlockCount_def
      u16_at_def u32_at_def read_le_def update_sequence_stride_def index_block_magic_def sector_word_def last_word_def)

lemma FixupIndexBlock_exact_sample:
  "\<exists>block'. FixupIndexBlock 512 sample_block = Inr (True, block') \<and> sector_word block' 0 = 0"
  using FixupIndexBlock_exact [OF sample_block_facts(1)]
  by (auto simp: sample_block_facts Let_def IndexBlockUsOffsetInBounds_def index_block_header_size_def)

lemma BlockOffset_exact_sample: "BlockOffset 4096 512 10 16 = Some 8192"
  by (subst BlockOffset_exact) (simp_all add: dvd_def)

end
