(* ===== verification/SlackSearch.thy ===== *)
theory SlackSearch
  imports NtfsPrelude
begin

text \<open>
  The word-at-a-time search of src/record/slack-carver.cpp for the two bytes that start a carved
  name: FindNameHeader() and IsNameHeader(), for a little-endian host. A read outside the bytes is
  an error value. The search is proved equal to the plain search, one even offset at a time.
\<close>

section \<open>Model\<close>

datatype carve_error = CarveOutOfBounds | CarveNegativeOffset

definition scan_step :: nat where "scan_step = 2"
definition shortest_core :: nat where "shortest_core = 4"
definition max_name_space :: byte where "max_name_space = 3"
definition search_stride :: nat where "search_stride = 8"
definition lane_length_mask :: u64 where "lane_length_mask = 0x00FF00FF00FF00FF"
definition lane_length_flag :: u64 where "lane_length_flag = 0x0100010001000100"
definition lane_name_space_mask :: u64 where "lane_name_space_mask = 0x003F003F003F003F"
definition lane_name_space_flag :: u64 where "lane_name_space_flag = 0x0040004000400040"
definition lane_name_space_shift :: nat where "lane_name_space_shift = 10"
definition lane_flag_alignment :: nat where "lane_flag_alignment = 2"
definition lane_bits :: nat where "lane_bits = 16"

lemmas search_consts = scan_step_def shortest_core_def search_stride_def lane_bits_def

definition load_byte :: "byte list \<Rightarrow> nat \<Rightarrow> carve_error + byte" where
  "load_byte bytes offset = (if offset < length bytes then Inr (bytes ! offset) else Inl CarveOutOfBounds)"

definition load_u32 :: "byte list \<Rightarrow> nat \<Rightarrow> carve_error + u32" where
  "load_u32 bytes offset = (if offset + 4 \<le> length bytes then Inr (u32_at bytes offset) else Inl CarveOutOfBounds)"

definition load_u64 :: "byte list \<Rightarrow> nat \<Rightarrow> carve_error + u64" where
  "load_u64 bytes offset = (if offset + 8 \<le> length bytes then Inr (u64_at bytes offset) else Inl CarveOutOfBounds)"

definition IsNameHeader :: "byte \<Rightarrow> byte \<Rightarrow> bool" where
  "IsNameHeader name_length name_space \<longleftrightarrow> name_length \<noteq> 0 \<and> name_space \<le> max_name_space"

text \<open>std::countr_zero.\<close>

definition countr_zero :: "u64 \<Rightarrow> nat" where
  "countr_zero w = length (takeWhile (\<lambda>i. \<not> bit w i) [0..<64])"

definition passing_lanes :: "u64 \<Rightarrow> u64" where
  "passing_lanes word =
    (let has_length = ((word AND lane_length_mask) + lane_length_mask) AND lane_length_flag;
         name_space_high = drop_bit lane_name_space_shift word AND lane_name_space_mask;
         bad_name_space = push_bit lane_flag_alignment ((name_space_high + lane_name_space_mask) AND lane_name_space_flag)
     in has_length AND NOT bad_name_space)"

text \<open>The loop over words: where it stopped, and whether it is the answer.\<close>

function search_words :: "byte list \<Rightarrow> nat \<Rightarrow> nat \<Rightarrow> carve_error + nat \<times> bool" where
  "search_words bytes last_at at_pos =
    (if at_pos \<le> last_at \<and> at_pos + search_stride \<le> length bytes then
       case load_u64 bytes at_pos of
         Inl e \<Rightarrow> Inl e
       | Inr word \<Rightarrow>
           if passing_lanes word \<noteq> 0 then
             (let at_pos = at_pos + countr_zero (passing_lanes word) div lane_bits * scan_step
              in Inr (if at_pos \<le> last_at then at_pos else length bytes, True))
           else search_words bytes last_at (at_pos + search_stride)
     else Inr (at_pos, False))"
  by pat_completeness auto
termination by (relation "measure (\<lambda>(bytes, l, a). Suc l - a)") (auto simp: search_stride_def)

declare search_words.simps [simp del]

text \<open>The loop over single offsets.\<close>

function search_offsets :: "byte list \<Rightarrow> nat \<Rightarrow> nat \<Rightarrow> carve_error + nat" where
  "search_offsets bytes last_at at_pos =
    (if at_pos \<le> last_at then
       case load_byte bytes at_pos of
         Inl e \<Rightarrow> Inl e
       | Inr name_length \<Rightarrow>
           (case load_byte bytes (at_pos + 1) of
              Inl e \<Rightarrow> Inl e
            | Inr name_space \<Rightarrow>
                if IsNameHeader name_length name_space then Inr at_pos
                else search_offsets bytes last_at (at_pos + scan_step))
     else Inr (length bytes))"
  by pat_completeness auto
termination by (relation "measure (\<lambda>(bytes, l, a). Suc l - a)") (auto simp: scan_step_def)

declare search_offsets.simps [simp del]

definition FindNameHeader :: "byte list \<Rightarrow> nat \<Rightarrow> carve_error + nat" where
  "FindNameHeader bytes at_pos =
    (if length bytes < shortest_core then Inr (length bytes)
     else
       let last_at = length bytes - shortest_core
       in bind_r (search_words bytes last_at at_pos) (\<lambda>(at_pos, found).
            if found then Inr at_pos else search_offsets bytes last_at at_pos))"

section \<open>Words as lanes\<close>

text \<open>A number cut in 16-bit lanes, lowest first.\<close>

fun lanes :: "nat list \<Rightarrow> nat" where
  "lanes [] = 0"
| "lanes (x # xs) = x + 65536 * lanes xs"

lemma bit_lanes_Cons:
  "x < 65536 \<Longrightarrow> bit (x + 65536 * r) k \<longleftrightarrow> (if k < 16 then bit x k else bit (r :: nat) (k - 16))"
proof (cases "k < 16")
  case True
  have "(65536 :: nat) = 2 ^ k * 2 ^ (16 - k)" using True by (simp add: power_add [symmetric])
  then have e: "65536 * r = 2 ^ k * (2 ^ (16 - k) * r)" by (simp only: mult.assoc)
  have "(x + 2 ^ k * m) div 2 ^ k = x div 2 ^ k + m" for m :: nat by simp
  then have "(x + 65536 * r) div 2 ^ k = x div 2 ^ k + 2 ^ (16 - k) * r" unfolding e .
  moreover have "even (2 ^ (16 - k) * r)" using True by simp
  ultimately show ?thesis using True by (simp add: bit_iff_odd)
next
  case False
  assume x: "x < 65536"
  have "(2 :: nat) ^ k = 2 ^ 16 * 2 ^ (k - 16)" using False by (simp only: power_add [symmetric]) simp
  then have "(2 :: nat) ^ k = 65536 * 2 ^ (k - 16)" by simp
  moreover have "(x + 65536 * r) div 65536 = r" using x by simp
  ultimately have "(x + 65536 * r) div 2 ^ k = r div 2 ^ (k - 16)" by (simp add: div_mult2_eq)
  then show ?thesis using False by (simp add: bit_iff_odd)
qed

lemma bit_lanes:
  "\<forall>x \<in> set xs. x < 65536 \<Longrightarrow> bit (lanes xs) k \<longleftrightarrow> k div 16 < length xs \<and> bit (xs ! (k div 16)) (k mod 16)"
proof (induction xs arbitrary: k)
  case (Cons x xs)
  show ?case
  proof (cases "k < 16")
    case True
    then show ?thesis using Cons.prems by (simp add: bit_lanes_Cons)
  next
    case False
    then have "k div 16 = Suc ((k - 16) div 16)" "k mod 16 = (k - 16) mod 16" by (simp_all add: le_div_geq le_mod_geq)
    then show ?thesis using Cons False by (simp add: bit_lanes_Cons)
  qed
qed simp

lemma lanes_add: "length xs = length ys \<Longrightarrow> lanes xs + lanes ys = lanes (map2 (+) xs ys)"
  by (induction xs ys rule: list_induct2) simp_all

lemma lanes_less: "\<forall>x \<in> set xs. x < 65536 \<Longrightarrow> lanes xs < 65536 ^ length xs"
proof (induction xs)
  case (Cons x xs)
  then have "lanes xs + 1 \<le> 65536 ^ length xs" "x < 65536" by simp_all
  then have "65536 * (lanes xs + 1) \<le> 65536 * 65536 ^ length xs" by (intro mult_le_mono2)
  then show ?case using \<open>x < 65536\<close> by simp
qed simp


lemma unat_lanes_eq:
  assumes "\<And>k. k < 64 \<Longrightarrow> bit (w :: u64) k \<longleftrightarrow> bit (lanes xs) k" and "\<forall>x \<in> set xs. x < 65536" and "length xs = 4"
  shows "unat w = lanes xs"
proof (rule bit_eqI)
  fix k
  show "bit (unat w) k \<longleftrightarrow> bit (lanes xs) k"
  proof (cases "k < 64")
    case True
    then show ?thesis using assms(1) by (simp add: bit_unsigned_iff)
  next
    case False
    then have "4 \<le> k div 16" using div_le_mono [of 64 k 16] by simp
    then have "\<not> bit (lanes xs) k" using assms(2,3) by (simp add: bit_lanes)
    then show ?thesis using False by (auto simp: bit_unsigned_iff dest: bit_imp_le_length)
  qed
qed

lemma bit_unat_lanes: "unat (w :: u64) = lanes xs \<Longrightarrow> \<forall>x \<in> set xs. x < 65536 \<Longrightarrow>
    bit w k \<longleftrightarrow> k div 16 < length xs \<and> bit (xs ! (k div 16)) (k mod 16)"
proof -
  have "bit (unat w) k \<longleftrightarrow> bit w k" by (simp add: bit_unsigned_iff)
  then show "unat w = lanes xs \<Longrightarrow> \<forall>x \<in> set xs. x < 65536 \<Longrightarrow> ?thesis" using bit_lanes [of xs k] by simp
qed

lemma lanes_and:
  assumes "unat (v :: u64) = lanes xs" "unat w = lanes ys" "length xs = 4" "length ys = 4"
    and "\<forall>x \<in> set xs. x < 65536" "\<forall>y \<in> set ys. y < 65536"
  shows "unat (v AND w) = lanes (map2 (AND) xs ys)"
proof (rule unat_lanes_eq)
  have small: "x AND y < 65536" if "x < 65536" for x y :: nat
  proof -
    have x: "take_bit 16 x = x" using that by (simp add: take_bit_nat_eq_self_iff)
    have "take_bit 16 (x AND y) = x AND y"
    proof (rule bit_eqI)
      show "bit (take_bit 16 (x AND y)) k \<longleftrightarrow> bit (x AND y) k" for k
        using bit_take_bit_iff [of 16 x k] unfolding x by (auto simp: bit_simps)
    qed
    then have "x AND y < 2 ^ 16" by (simp only: take_bit_nat_eq_self_iff)
    then show ?thesis by simp
  qed
  then show bound: "\<forall>x \<in> set (map2 (AND) xs ys). x < 65536"
    using assms(5) by (auto dest: set_zip_leftD)
  show "bit (v AND w) k \<longleftrightarrow> bit (lanes (map2 (AND) xs ys)) k" if "k < 64" for k
  proof -
    have "k div 16 < 4" using that by simp
    then show ?thesis
      using assms(3,4) bit_unat_lanes [OF assms(1,5), of k] bit_unat_lanes [OF assms(2,6), of k]
      by (simp add: bit_lanes [OF bound] bit_and_iff)
  qed
qed (use assms in simp)

lemma lanes_plus:
  assumes "unat (v :: u64) = lanes xs" "unat w = lanes ys" "length xs = 4" "length ys = 4"
    and "\<forall>z \<in> set (map2 (+) xs ys). z < 65536"
  shows "unat (v + w) = lanes (map2 (+) xs ys)"
proof -
  have "lanes (map2 (+) xs ys) < 18446744073709551616" using lanes_less [OF assms(5)] assms(3,4) by simp
  then show ?thesis using assms(1-4) by (simp add: unat_u64_add lanes_add)
qed

section \<open>What a word tells\<close>

definition pair_at :: "byte list \<Rightarrow> nat \<Rightarrow> nat" where
  "pair_at bytes off = unat (bytes ! off) + 256 * unat (bytes ! (off + 1))"

lemma pair_at_bound [simp]: "pair_at bytes off < 65536"
  using unat_byte_bound [of "bytes ! off"] unat_byte_bound [of "bytes ! (off + 1)"] unfolding pair_at_def by linarith

lemma take_drop_map: "off + n \<le> length xs \<Longrightarrow> take n (drop off xs) = map (\<lambda>i. xs ! (off + i)) [0..<n]"
  by (rule nth_equalityI) simp_all

lemma pair_at_even: "pair_at bytes (off + 2 * i) = unat (bytes ! (off + 2 * i)) + 256 * unat (bytes ! (off + (2 * i + 1)))"
  by (simp add: pair_at_def)

lemma small_upts: "[0..<8] = [0, 1, 2, 3, 4, 5, 6, 7]" "[0..<4] = [0, 1, 2, 3]"
  by (simp_all add: upt_rec)

lemma u64_at_lanes:
  assumes "off + 8 \<le> length bytes"
  shows "unat (u64_at bytes off) = lanes (map (\<lambda>i. pair_at bytes (off + 2 * i)) [0..<4])"
proof -
  have "read_le 8 bytes off < 18446744073709551616"
    using le_nat_bound [of "take 8 (drop off bytes)"] assms by (simp add: read_le_def)
  then have "unat (u64_at bytes off) = read_le 8 bytes off" by (simp add: u64_at_def unat_of_nat_u64)
  also have "read_le 8 bytes off = le_nat (map (\<lambda>i. bytes ! (off + i)) [0..<8])"
    by (simp only: read_le_def take_drop_map [OF assms])
  also have "\<dots> = lanes (map (\<lambda>i. pair_at bytes (off + 2 * i)) [0..<4])"
    unfolding pair_at_even small_upts list.map le_nat.simps lanes.simps by (simp del: add_2_eq_Suc')
  finally show ?thesis .
qed

lemma lane_constants:
  "unat lane_length_mask = lanes [255, 255, 255, 255]" "unat lane_length_flag = lanes [256, 256, 256, 256]"
  "unat lane_name_space_mask = lanes [63, 63, 63, 63]" "unat lane_name_space_flag = lanes [64, 64, 64, 64]"
  by (simp_all add: lane_length_mask_def lane_length_flag_def lane_name_space_mask_def lane_name_space_flag_def)

lemma and_255: "(p :: nat) AND 255 = p mod 256"
proof -
  have m: "(255 :: nat) = mask 8" by (simp add: mask_eq_exp_minus_1)
  show ?thesis unfolding m take_bit_eq_mask [symmetric] by (simp add: take_bit_eq_mod)
qed

lemma and_256: "q < 512 \<Longrightarrow> (q :: nat) AND 256 = (if 256 \<le> q then 256 else 0)"
  and and_64: "q < 128 \<Longrightarrow> (q :: nat) AND 64 = (if 64 \<le> q then 64 else 0)"
proof -
  have one: "(q :: nat) AND 2 ^ n = (if 2 ^ n \<le> q then 2 ^ n else 0)" if "q < 2 * 2 ^ n" for q n :: nat
  proof -
    have "q div 2 ^ n = (if 2 ^ n \<le> q then 1 else 0)"
      using that by (auto intro: div_nat_eqI)
    then have top: "bit q n \<longleftrightarrow> 2 ^ n \<le> q" by (simp add: bit_iff_odd)
    show ?thesis
    proof (rule bit_eqI)
      show "bit (q AND 2 ^ n) k \<longleftrightarrow> bit (if 2 ^ n \<le> q then 2 ^ n else 0 :: nat) k" for k
        using top by (auto simp: bit_and_iff bit_exp_iff)
    qed
  qed
  show "q < 512 \<Longrightarrow> q AND 256 = (if 256 \<le> q then 256 else 0)" using one [of q 8] by simp
  show "q < 128 \<Longrightarrow> q AND 64 = (if 64 \<le> q then 64 else 0)" using one [of q 6] by simp
qed

definition lane_passes :: "nat \<Rightarrow> bool" where
  "lane_passes p \<longleftrightarrow> p mod 256 \<noteq> 0 \<and> p div 1024 = 0"

lemma bit_256: "bit (if P then 256 else 0 :: nat) j \<longleftrightarrow> P \<and> j = 8"
proof -
  have m: "(256 :: nat) = 2 ^ 8" by simp
  have "bit (2 ^ 8 :: nat) j \<longleftrightarrow> j = 8" unfolding bit_exp_iff by simp
  then show ?thesis unfolding m by (cases P) (simp_all only: if_True if_False, simp_all)
qed

lemma has_length_lanes:
  assumes "unat (w :: u64) = lanes ps" "length ps = 4" "\<forall>p \<in> set ps. p < 65536"
  shows "unat (((w AND lane_length_mask) + lane_length_mask) AND lane_length_flag) =
    lanes (map (\<lambda>p. if p mod 256 \<noteq> 0 then 256 else 0) ps)"
proof -
  have rep: "map2 f ps (replicate 4 c) = map (\<lambda>p. f p c) ps" if "length ps = 4" for f :: "nat \<Rightarrow> nat \<Rightarrow> nat" and c ps
    using that by (intro nth_equalityI) simp_all
  have r4: "[c, c, c, c] = replicate 4 c" for c :: nat by (simp add: numeral_eq_Suc)
  note masks = lane_constants [unfolded r4]
  have a: "unat (w AND lane_length_mask) = lanes (map (\<lambda>p. p mod 256) ps)"
    using lanes_and [OF assms(1) masks(1) assms(2) _ assms(3)] by (simp add: rep [OF assms(2)] and_255)
  have low: "p mod 256 < 65281" for p :: nat using mod_less_divisor [of 256 p] by linarith
  have b: "unat ((w AND lane_length_mask) + lane_length_mask) = lanes (map (\<lambda>p. p mod 256 + 255) ps)"
    using lanes_plus [OF a masks(1)] assms(2) low by (simp add: rep comp_def)
  have "unat (((w AND lane_length_mask) + lane_length_mask) AND lane_length_flag) =
      lanes (map (\<lambda>p. (p mod 256 + 255) AND 256) ps)"
    using lanes_and [OF b masks(2)] assms(2) low by (simp add: rep comp_def)
  also have "map (\<lambda>p. (p mod 256 + 255) AND 256) ps = map (\<lambda>p. if p mod 256 \<noteq> 0 then 256 else 0) ps"
  proof (rule map_cong [OF refl])
    fix p :: nat
    have "p mod 256 < 256" by simp
    then have "p mod 256 + 255 < 512" by linarith
    then show "(p mod 256 + 255) AND 256 = (if p mod 256 \<noteq> 0 then 256 else 0)" by (subst and_256) auto
  qed
  finally show ?thesis .
qed

lemma name_space_high_lanes:
  assumes "unat (w :: u64) = lanes ps" "length ps = 4" "\<forall>p \<in> set ps. p < 65536"
  shows "unat (drop_bit lane_name_space_shift w AND lane_name_space_mask) = lanes (map (\<lambda>p. p div 1024) ps)"
proof (rule unat_lanes_eq)
  show small: "\<forall>x \<in> set (map (\<lambda>p. p div 1024) ps). x < 65536"
  proof
    fix x assume "x \<in> set (map (\<lambda>p. p div 1024) ps)"
    then obtain p where "p \<in> set ps" "x = p div 1024" by auto
    then show "x < 65536" using assms(3) div_le_dividend [of p 1024] by fastforce
  qed
  fix k :: nat
  assume k: "k < 64"
  define i where "i = k div 16"
  define j where "j = k mod 16"
  have ij: "k = 16 * i + j" "i < 4" "j < 16" using k by (simp_all add: i_def j_def)
  have p: "ps ! i < 65536" using assms(2,3) ij(2) by simp
  have m: "(63 :: nat) = mask 6" by (simp add: mask_eq_exp_minus_1)
  have "[63, 63, 63, 63] ! i = (63 :: nat)" using ij(2) by (auto simp: less_Suc_eq numeral_eq_Suc nth_Cons')
  then have "bit lane_name_space_mask k \<longleftrightarrow> bit (63 :: nat) j"
    using bit_unat_lanes [OF lane_constants(3), of k] ij(2) by (simp add: i_def j_def)
  then have mask: "bit lane_name_space_mask k \<longleftrightarrow> j < 6" unfolding m by (simp add: bit_mask_iff)
  have high: "bit (ps ! i div 1024) j \<longleftrightarrow> bit (ps ! i) (j + 10)"
    using div_mult2_eq [of "ps ! i" 1024 "2 ^ j"] by (simp add: bit_iff_odd power_add mult.commute)
  have "bit (lanes (map (\<lambda>p. p div 1024) ps)) k \<longleftrightarrow> bit (ps ! i div 1024) j"
    using ij(2) assms(2) by (simp add: bit_lanes [OF small] i_def [symmetric] j_def [symmetric])
  also have "\<dots> \<longleftrightarrow> j < 6 \<and> bit (ps ! i) (j + 10)"
  proof (cases "j < 6")
    case False
    then have "(2 :: nat) ^ 16 \<le> 2 ^ (j + 10)" by (intro power_increasing) simp_all
    then have "ps ! i div 2 ^ (j + 10) = 0" using p by simp
    then show ?thesis using False high by (simp add: bit_iff_odd)
  qed (simp add: high)
  also have "\<dots> \<longleftrightarrow> j < 6 \<and> bit w (k + 10)"
  proof (cases "j < 6")
    case True
    have "k + 10 = (j + 10) + 16 * i" using ij(1) by simp
    then have "(k + 10) div 16 = i" "(k + 10) mod 16 = j + 10" using True by (simp_all only: div_mult_self2 mod_mult_self2) simp_all
    then show ?thesis using bit_unat_lanes [OF assms(1,3), of "k + 10"] ij(2) assms(2) by simp
  qed simp
  finally show "bit (drop_bit lane_name_space_shift w AND lane_name_space_mask) k \<longleftrightarrow>
      bit (lanes (map (\<lambda>p. p div 1024) ps)) k"
    using mask by (auto simp: bit_and_iff bit_drop_bit_eq lane_name_space_shift_def add.commute)
qed (use assms in simp)

lemma bad_name_space_lanes:
  assumes "unat (w :: u64) = lanes ps" "length ps = 4" "\<forall>p \<in> set ps. p < 65536"
  defines "high \<equiv> drop_bit lane_name_space_shift w AND lane_name_space_mask"
  shows "unat (push_bit lane_flag_alignment ((high + lane_name_space_mask) AND lane_name_space_flag)) =
    lanes (map (\<lambda>p. if p div 1024 \<noteq> 0 then 256 else 0) ps)"
proof -
  have rep: "map2 f ps (replicate 4 c) = map (\<lambda>p. f p c) ps" if "length ps = 4" for f :: "nat \<Rightarrow> nat \<Rightarrow> nat" and c ps
    using that by (intro nth_equalityI) simp_all
  have r4: "[c, c, c, c] = replicate 4 c" for c :: nat by (simp add: numeral_eq_Suc)
  note masks = lane_constants [unfolded r4]
  have a: "unat high = lanes (map (\<lambda>p. p div 1024) ps)" unfolding high_def by (rule name_space_high_lanes [OF assms(1-3)])
  have bound: "\<forall>p \<in> set ps. p div 1024 < 64" using assms(3) by (simp add: less_mult_imp_div_less)
  then have low: "\<forall>p \<in> set ps. p div 1024 < 65473" by fastforce
  have b: "unat (high + lane_name_space_mask) = lanes (map (\<lambda>p. p div 1024 + 63) ps)"
    using lanes_plus [OF a masks(3)] assms(2) low by (simp add: rep comp_def)
  have "unat ((high + lane_name_space_mask) AND lane_name_space_flag) = lanes (map (\<lambda>p. (p div 1024 + 63) AND 64) ps)"
    using lanes_and [OF b masks(4)] assms(2) low by (simp add: rep comp_def)
  also have "map (\<lambda>p. (p div 1024 + 63) AND 64) ps = map (\<lambda>p. if p div 1024 \<noteq> 0 then 64 else 0) ps"
  proof (rule map_cong [OF refl])
    fix p assume "p \<in> set ps"
    then have "p div 1024 + 63 < 128" using bound by fastforce
    then show "(p div 1024 + 63) AND 64 = (if p div 1024 \<noteq> 0 then 64 else 0)" by (subst and_64) auto
  qed
  finally have c: "unat ((high + lane_name_space_mask) AND lane_name_space_flag) =
      lanes (map (\<lambda>p. if p div 1024 \<noteq> 0 then 64 else 0) ps)" .
  have four: "4 * lanes xs = lanes (map (\<lambda>x. 4 * x) xs)" for xs by (induction xs) simp_all
  have mult4: "push_bit lane_flag_alignment x = 4 * x" for x :: u64 by (simp add: lane_flag_alignment_def push_bit_eq_mult)
  have eq: "map (\<lambda>x. 4 * x) (map (\<lambda>p. if p div 1024 \<noteq> 0 then 64 else 0) ps) =
      map (\<lambda>p. if p div 1024 \<noteq> 0 then 256 else (0 :: nat)) ps" by simp
  have "lanes (map (\<lambda>p. if p div 1024 \<noteq> 0 then 256 else 0) ps) < 65536 ^ 4"
  proof -
    have "\<forall>x \<in> set (map (\<lambda>p. if p div 1024 \<noteq> 0 then 256 else 0) ps). x < (65536 :: nat)" by auto
    from lanes_less [OF this] assms(2) show ?thesis by simp
  qed
  then have "4 * lanes (map (\<lambda>p. if p div 1024 \<noteq> 0 then 64 else 0) ps) < 18446744073709551616"
    unfolding four eq by simp
  moreover have "unat (4 * x :: u64) = 4 * unat x" if "4 * unat x < 18446744073709551616" for x
    using that by (subst unat_u64_mult) simp_all
  ultimately show ?thesis unfolding mult4 c [symmetric] using four eq c by metis
qed

lemma passing_bits:
  assumes "unat (w :: u64) = lanes ps" "length ps = 4" "\<forall>p \<in> set ps. p < 65536" and k: "k < 64"
  shows "bit (passing_lanes w) k \<longleftrightarrow> k mod 16 = 8 \<and> lane_passes (ps ! (k div 16))"
proof -
  have i: "k div 16 < 4" using k by simp
  have small: "\<forall>x \<in> set (map (\<lambda>p. if P p then 256 else 0) ps). x < (65536 :: nat)" for P by auto
  have "bit (((w AND lane_length_mask) + lane_length_mask) AND lane_length_flag) k \<longleftrightarrow>
      ps ! (k div 16) mod 256 \<noteq> 0 \<and> k mod 16 = 8"
    unfolding bit_unat_lanes [OF has_length_lanes [OF assms(1-3)] small] using i assms(2) by (simp add: bit_256)
  moreover have "bit (push_bit lane_flag_alignment
        (((drop_bit lane_name_space_shift w AND lane_name_space_mask) + lane_name_space_mask) AND lane_name_space_flag)) k \<longleftrightarrow>
      ps ! (k div 16) div 1024 \<noteq> 0 \<and> k mod 16 = 8"
    unfolding bit_unat_lanes [OF bad_name_space_lanes [OF assms(1-3)] small] using i assms(2) by (simp add: bit_256)
  ultimately show ?thesis
    using k unfolding passing_lanes_def Let_def bit_and_iff bit_not_iff lane_passes_def by auto
qed

lemma pair_passes: "lane_passes (pair_at bytes off) \<longleftrightarrow> IsNameHeader (bytes ! off) (bytes ! (off + 1))"
proof -
  let ?l = "unat (bytes ! off)" and ?n = "unat (bytes ! (off + 1))"
  have "?l < 256" by (rule unat_byte_bound)
  then have "pair_at bytes off mod 256 = ?l" "pair_at bytes off div 256 = ?n" by (simp_all add: pair_at_def)
  moreover have "pair_at bytes off div 1024 = pair_at bytes off div 256 div 4" by (simp add: div_mult2_eq [symmetric])
  ultimately show ?thesis
    by (auto simp: lane_passes_def IsNameHeader_def max_name_space_def word_le_nat_alt unat_eq_zero)
qed

section \<open>The search is the plain one\<close>

text \<open>The first even offset from \<open>at_pos\<close> on that can start a name; the size of the bytes when none does.\<close>

function first_header :: "byte list \<Rightarrow> nat \<Rightarrow> nat" where
  "first_header bytes at_pos =
    (if length bytes < at_pos + 4 then length bytes
     else if IsNameHeader (bytes ! at_pos) (bytes ! (at_pos + 1)) then at_pos
     else first_header bytes (at_pos + 2))"
  by pat_completeness auto
termination by (relation "measure (\<lambda>(bytes, a). length bytes - a)") auto

declare first_header.simps [simp del]

lemma first_header_stop: "length bytes < at_pos + 4 \<Longrightarrow> first_header bytes at_pos = length bytes"
  and first_header_hit: "at_pos + 4 \<le> length bytes \<Longrightarrow> IsNameHeader (bytes ! at_pos) (bytes ! (at_pos + 1)) \<Longrightarrow>
    first_header bytes at_pos = at_pos"
  and first_header_miss: "at_pos + 4 \<le> length bytes \<Longrightarrow> \<not> IsNameHeader (bytes ! at_pos) (bytes ! (at_pos + 1)) \<Longrightarrow>
    first_header bytes at_pos = first_header bytes (at_pos + 2)"
  by (subst first_header.simps; simp)+

lemma first_header_skip:
  "\<forall>i < n. \<not> IsNameHeader (bytes ! (at_pos + 2 * i)) (bytes ! (at_pos + 2 * i + 1)) \<Longrightarrow>
     first_header bytes at_pos = first_header bytes (at_pos + 2 * n)"
proof (induction n)
  case (Suc n)
  then have ih: "first_header bytes at_pos = first_header bytes (at_pos + 2 * n)" by simp
  have "first_header bytes (at_pos + 2 * n) = first_header bytes (at_pos + 2 * n + 2)"
  proof (cases "length bytes < at_pos + 2 * n + 4")
    case True
    then show ?thesis by (simp add: first_header_stop)
  next
    case False
    then show ?thesis using Suc.prems by (intro first_header_miss) auto
  qed
  then show ?case using ih by (simp add: algebra_simps)
qed simp

lemma search_offsets_result:
  "last_at + 4 = length bytes \<Longrightarrow> search_offsets bytes last_at at_pos = Inr (first_header bytes at_pos)"
proof (induction bytes last_at at_pos rule: search_offsets.induct)
  case (1 bytes last_at at_pos)
  show ?case
  proof (cases "at_pos \<le> last_at")
    case False
    then show ?thesis using 1(2) by (subst search_offsets.simps) (simp add: first_header_stop)
  next
    case True
    then have l: "load_byte bytes at_pos = Inr (bytes ! at_pos)" "load_byte bytes (at_pos + 1) = Inr (bytes ! (at_pos + 1))"
      using 1(2) by (simp_all add: load_byte_def)
    show ?thesis
    proof (cases "IsNameHeader (bytes ! at_pos) (bytes ! (at_pos + 1))")
      case hit: True
      then have "search_offsets bytes last_at at_pos = Inr at_pos"
        using True l by (subst search_offsets.simps) simp
      then show ?thesis using first_header_hit [OF _ hit] True 1(2) by simp
    next
      case False
      then have "search_offsets bytes last_at at_pos = search_offsets bytes last_at (at_pos + scan_step)"
        using True l by (subst search_offsets.simps) simp
      then show ?thesis
        using 1(1) [OF True l False 1(2)] first_header_miss [OF _ False] True 1(2) by (simp add: scan_step_def)
    qed
  qed
qed

lemma countr_zero_first:
  assumes "bit w k" "k < 64" "\<And>j. j < k \<Longrightarrow> \<not> bit w j"
  shows "countr_zero w = k"
proof -
  have "[0..<64] = [0..<k] @ [k..<64]" using upt_add_eq_append [of 0 k "64 - k"] assms(2) by simp
  also have "[k..<64] = k # [Suc k..<64]" using assms(2) by (rule upt_conv_Cons)
  finally have "[0..<64] = [0..<k] @ k # [Suc k..<64]" .
  then have "takeWhile (\<lambda>i. \<not> bit w i) [0..<64] = [0..<k]"
    using assms(1,3) by (simp add: takeWhile_append takeWhile_tail)
  then show ?thesis by (simp add: countr_zero_def)
qed

text \<open>One word: either no lane passes, or the lowest bit set names the first lane that does.\<close>

lemma passing_word:
  assumes "off + 8 \<le> length bytes"
  defines "header \<equiv> \<lambda>i. IsNameHeader (bytes ! (off + 2 * i)) (bytes ! (off + 2 * i + 1))"
  shows "passing_lanes (u64_at bytes off) = 0 \<Longrightarrow> \<forall>i < 4. \<not> header i"
    and "passing_lanes (u64_at bytes off) \<noteq> 0 \<Longrightarrow>
      \<exists>i < 4. header i \<and> (\<forall>j < i. \<not> header j) \<and> countr_zero (passing_lanes (u64_at bytes off)) div 16 * 2 = 2 * i"
proof -
  let ?w = "passing_lanes (u64_at bytes off)"
  have small: "\<forall>p \<in> set (map (\<lambda>i. pair_at bytes (off + 2 * i)) [0..<4]). p < 65536" by auto
  have bits: "bit ?w k \<longleftrightarrow> k mod 16 = 8 \<and> header (k div 16)" if "k < 64" for k
  proof -
    have "k div 16 < 4" using that by simp
    then show ?thesis
      using passing_bits [OF u64_at_lanes [OF assms(1)] _ small that] by (simp add: pair_passes header_def)
  qed
  show "\<forall>i < 4. \<not> header i" if "?w = 0"
  proof (intro allI impI)
    fix i :: nat
    assume "i < 4"
    then have "16 * i + 8 < 64" "(16 * i + 8) mod 16 = 8" "(16 * i + 8) div 16 = i" by simp_all
    then show "\<not> header i" using bits [of "16 * i + 8"] that by simp
  qed
  assume "?w \<noteq> 0"
  then obtain k where k: "bit ?w k" unfolding bit_eq_iff by auto
  then have "k < 64" using bit_imp_le_length [OF k] by simp
  define first where "first = (LEAST k. bit ?w k)"
  have f: "bit ?w first" unfolding first_def using k by (rule LeastI)
  then have f64: "first < 64" using bit_imp_le_length [OF f] by simp
  have before: "\<not> bit ?w j" if "j < first" for j using that unfolding first_def by (rule not_less_Least)
  have hd: "first mod 16 = 8" "header (first div 16)" using f bits [OF f64] by simp_all
  have "\<not> header j" if "j < first div 16" for j
  proof
    assume h: "header j"
    have j: "16 * j + 8 < first" using that hd(1) by linarith
    have "(16 * j + 8) mod 16 = 8" "(16 * j + 8) div 16 = j" by simp_all
    then have "bit ?w (16 * j + 8)" using bits [of "16 * j + 8"] j f64 h by simp
    then show False using before [OF j] by simp
  qed
  moreover have "countr_zero ?w = first" by (rule countr_zero_first [OF f f64 before])
  moreover have "first div 16 < 4" using f64 by simp
  ultimately show "\<exists>i < 4. header i \<and> (\<forall>j < i. \<not> header j) \<and> countr_zero ?w div 16 * 2 = 2 * i"
    using hd(2) by (intro exI [of _ "first div 16"]) simp
qed

lemma search_words_result:
  "last_at + 4 = length bytes \<Longrightarrow>
     \<exists>p found. search_words bytes last_at at_pos = Inr (p, found) \<and>
       first_header bytes at_pos = (if found then p else first_header bytes p)"
proof (induction bytes last_at at_pos rule: search_words.induct)
  case (1 bytes last_at at_pos)
  show ?case
  proof (cases "at_pos \<le> last_at \<and> at_pos + search_stride \<le> length bytes")
    case False
    then show ?thesis by (subst search_words.simps) auto
  next
    case True
    then have room: "at_pos + 8 \<le> length bytes" by (simp add: search_stride_def)
    then have l: "load_u64 bytes at_pos = Inr (u64_at bytes at_pos)" by (simp add: load_u64_def)
    show ?thesis
    proof (cases "passing_lanes (u64_at bytes at_pos) \<noteq> 0")
      case False
      then have "\<forall>i < 4. \<not> IsNameHeader (bytes ! (at_pos + 2 * i)) (bytes ! (at_pos + 2 * i + 1))"
        using passing_word(1) [OF room] by simp
      then have skip: "first_header bytes at_pos = first_header bytes (at_pos + 8)"
        using first_header_skip [of 4 bytes at_pos] by simp
      have "search_words bytes last_at at_pos = search_words bytes last_at (at_pos + search_stride)"
        using True l False by (subst search_words.simps) simp
      then show ?thesis using 1(1) [OF True l False 1(2)] skip by (simp add: search_stride_def)
    next
      case pass: True
      let ?z = "countr_zero (passing_lanes (u64_at bytes at_pos)) div lane_bits * scan_step"
      from passing_word(2) [OF room pass] obtain i where i: "i < 4"
        "IsNameHeader (bytes ! (at_pos + 2 * i)) (bytes ! (at_pos + 2 * i + 1))"
        "\<forall>j < i. \<not> IsNameHeader (bytes ! (at_pos + 2 * j)) (bytes ! (at_pos + 2 * j + 1))" "?z = 2 * i"
        unfolding lane_bits_def scan_step_def by blast
      have "first_header bytes at_pos = first_header bytes (at_pos + 2 * i)"
        by (rule first_header_skip [OF i(3)])
      also have "\<dots> = (if at_pos + 2 * i \<le> last_at then at_pos + 2 * i else length bytes)"
        using first_header_hit [OF _ i(2)] first_header_stop [of bytes "at_pos + 2 * i"] 1(2) by auto
      finally have "first_header bytes at_pos = (if at_pos + ?z \<le> last_at then at_pos + ?z else length bytes)"
        unfolding i(4) .
      moreover have "search_words bytes last_at at_pos =
          Inr (if at_pos + ?z \<le> last_at then at_pos + ?z else length bytes, True)"
        using True l pass by (subst search_words.simps) simp
      ultimately show ?thesis by (intro exI [of _ "if at_pos + ?z \<le> last_at then at_pos + ?z else length bytes"] exI [of _ True]) simp
    qed
  qed
qed

lemma FindNameHeader_first: "FindNameHeader bytes at_pos = Inr (first_header bytes at_pos)"
proof (cases "length bytes < shortest_core")
  case True
  then show ?thesis by (simp add: FindNameHeader_def shortest_core_def first_header_stop)
next
  case False
  then have l: "length bytes - shortest_core + 4 = length bytes" by (simp add: shortest_core_def)
  from search_words_result [OF l, of at_pos] obtain p found where w:
    "search_words bytes (length bytes - shortest_core) at_pos = Inr (p, found)"
    "first_header bytes at_pos = (if found then p else first_header bytes p)" by blast
  then show ?thesis using False search_offsets_result [OF l] by (simp add: FindNameHeader_def Let_def)
qed

text \<open>
  C27. FindNameHeader(), which tests four offsets per 64-bit word with masks and carries, finds for
  every span and every offset what testing each even offset in turn finds, and reads no byte
  outside the span.
\<close>

theorem find_name_header_exact: "FindNameHeader bytes at_pos = Inr (first_header bytes at_pos)"
  by (rule FindNameHeader_first)

end
