(* ===== verification/Utf.thy ===== *)
theory Utf
  imports NtfsPrelude
begin

text \<open>
  Names as text: src/utf/utf.cpp. A char32_t is a 32-bit word, a string of 16-bit units a list
  of 16-bit words; wchar_t is 16 or 32 bits wide by the platform, and both widths are modelled.
  WideToUtf8() of a 16-bit wide string is \<open>ToUtf8\<close> of its widened units.
\<close>

section \<open>Model\<close>

definition high_surrogate_first :: u32 where "high_surrogate_first = 0xD800"
definition high_surrogate_last :: u32 where "high_surrogate_last = 0xDBFF"
definition low_surrogate_first :: u32 where "low_surrogate_first = 0xDC00"
definition low_surrogate_last :: u32 where "low_surrogate_last = 0xDFFF"
definition max_code_point :: u32 where "max_code_point = 0x10FFFF"
definition replacement_character :: u32 where "replacement_character = 0xFFFD"
definition surrogate_base :: u32 where "surrogate_base = 0x10000"
definition surrogate_shift :: nat where "surrogate_shift = 10"
definition surrogate_mask :: u32 where "surrogate_mask = 0x3FF"
definition one_byte_limit :: u32 where "one_byte_limit = 0x80"
definition two_byte_limit :: u32 where "two_byte_limit = 0x800"
definition three_byte_limit :: u32 where "three_byte_limit = 0x10000"
definition continuation_shift :: nat where "continuation_shift = 6"
definition continuation_mask :: u32 where "continuation_mask = 0x3F"
definition continuation_tag :: u32 where "continuation_tag = 0x80"
definition two_byte_tag :: u32 where "two_byte_tag = 0xC0"
definition three_byte_tag :: u32 where "three_byte_tag = 0xE0"
definition four_byte_tag :: u32 where "four_byte_tag = 0xF0"

lemmas utf_consts = high_surrogate_first_def high_surrogate_last_def low_surrogate_first_def
  low_surrogate_last_def max_code_point_def replacement_character_def surrogate_base_def
  surrogate_shift_def surrogate_mask_def one_byte_limit_def two_byte_limit_def three_byte_limit_def
  continuation_shift_def continuation_mask_def continuation_tag_def two_byte_tag_def
  three_byte_tag_def four_byte_tag_def

definition AppendUtf8 :: "byte list \<Rightarrow> u32 \<Rightarrow> byte list" where
  "AppendUtf8 out code_point =
    (if code_point < one_byte_limit then out @ [ucast code_point]
     else if code_point < two_byte_limit then
       out @ [ucast (two_byte_tag OR drop_bit continuation_shift code_point),
              ucast (continuation_tag OR (code_point AND continuation_mask))]
     else if code_point < three_byte_limit then
       out @ [ucast (three_byte_tag OR drop_bit (2 * continuation_shift) code_point),
              ucast (continuation_tag OR (drop_bit continuation_shift code_point AND continuation_mask)),
              ucast (continuation_tag OR (code_point AND continuation_mask))]
     else
       out @ [ucast (four_byte_tag OR drop_bit (3 * continuation_shift) code_point),
              ucast (continuation_tag OR (drop_bit (2 * continuation_shift) code_point AND continuation_mask)),
              ucast (continuation_tag OR (drop_bit continuation_shift code_point AND continuation_mask)),
              ucast (continuation_tag OR (code_point AND continuation_mask))])"

definition is_high :: "u32 \<Rightarrow> bool" where
  "is_high unit \<longleftrightarrow> unit \<ge> high_surrogate_first \<and> unit \<le> high_surrogate_last"

definition is_low :: "u32 \<Rightarrow> bool" where
  "is_low unit \<longleftrightarrow> unit \<ge> low_surrogate_first \<and> unit \<le> low_surrogate_last"

definition combine :: "u32 \<Rightarrow> u32 \<Rightarrow> u32" where
  "combine unit low =
     surrogate_base + (push_bit surrogate_shift (unit - high_surrogate_first) OR (low AND surrogate_mask))"

text \<open>The loop of ToUtf8(), over the units left.\<close>

fun to_utf8_loop :: "byte list \<Rightarrow> u32 list \<Rightarrow> byte list" where
  "to_utf8_loop out [] = out"
| "to_utf8_loop out [unit] = AppendUtf8 out (if unit > max_code_point then replacement_character else unit)"
| "to_utf8_loop out (unit # low # units) =
    (if is_high unit \<and> is_low low then to_utf8_loop (AppendUtf8 out (combine unit low)) units
     else to_utf8_loop (AppendUtf8 out (if unit > max_code_point then replacement_character else unit)) (low # units))"

definition ToUtf8 :: "u32 list \<Rightarrow> byte list" where
  "ToUtf8 units = to_utf8_loop [] units"

text \<open>WideToUtf8() where wchar_t is 32 bits wide, and where it is 16.\<close>

definition WideToUtf8_32 :: "u32 list \<Rightarrow> byte list" where
  "WideToUtf8_32 wide = ToUtf8 wide"

definition WideToUtf8_16 :: "u16 list \<Rightarrow> byte list" where
  "WideToUtf8_16 wide = ToUtf8 (map ucast wide)"

text \<open>Utf16ToWide(), both branches of its if constexpr.\<close>

fun utf16_to_wide_loop :: "u32 list \<Rightarrow> u32 list \<Rightarrow> u32 list" where
  "utf16_to_wide_loop out [] = out"
| "utf16_to_wide_loop out [unit] = out @ [unit]"
| "utf16_to_wide_loop out (unit # low # units) =
    (if is_high unit \<and> is_low low then utf16_to_wide_loop (out @ [combine unit low]) units
     else utf16_to_wide_loop (out @ [unit]) (low # units))"

definition Utf16ToWide_32 :: "u16 list \<Rightarrow> u32 list" where
  "Utf16ToWide_32 units = utf16_to_wide_loop [] (map ucast units)"

definition Utf16ToWide_16 :: "u16 list \<Rightarrow> u16 list" where
  "Utf16ToWide_16 units = units"

section \<open>A decoder\<close>

text \<open>
  The inverse, on numbers: one code point off the front of a WTF-8 string, and the UTF-16 units
  of a code point. Specification only.
\<close>

fun next_code_point :: "nat list \<Rightarrow> nat \<times> nat list" where
  "next_code_point [] = (0, [])"
| "next_code_point (a # r) =
    (if a < 0x80 then (a, r)
     else if a < 0xE0 then ((a - 0xC0) * 64 + (r ! 0 - 0x80), drop 1 r)
     else if a < 0xF0 then ((a - 0xE0) * 4096 + (r ! 0 - 0x80) * 64 + (r ! 1 - 0x80), drop 2 r)
     else ((a - 0xF0) * 262144 + (r ! 0 - 0x80) * 4096 + (r ! 1 - 0x80) * 64 + (r ! 2 - 0x80), drop 3 r))"

definition units_of :: "nat \<Rightarrow> nat list" where
  "units_of c = (if c < 0x10000 then [c] else [0xD800 + (c - 0x10000) div 1024, 0xDC00 + (c - 0x10000) mod 1024])"

function decode_units :: "nat list \<Rightarrow> nat list" where
  "decode_units bs = (if bs = [] then [] else units_of (fst (next_code_point bs)) @ decode_units (snd (next_code_point bs)))"
  by pat_completeness auto
termination
proof (relation "measure length")
  fix bs :: "nat list"
  assume "bs \<noteq> []"
  then show "(snd (next_code_point bs), bs) \<in> measure length" by (cases bs) auto
qed simp

declare decode_units.simps [simp del]

text \<open>The bytes of a code point, as numbers.\<close>

definition enc :: "nat \<Rightarrow> nat list" where
  "enc c =
    (if c < 0x80 then [c]
     else if c < 0x800 then [0xC0 + c div 64, 0x80 + c mod 64]
     else if c < 0x10000 then [0xE0 + c div 4096, 0x80 + c div 64 mod 64, 0x80 + c mod 64]
     else [0xF0 + c div 262144, 0x80 + c div 4096 mod 64, 0x80 + c div 64 mod 64, 0x80 + c mod 64])"

lemma next_enc: "c < 0x200000 \<Longrightarrow> next_code_point (enc c @ r) = (c, r)"
proof -
  assume c: "c < 0x200000"
  have quot: "c div 4096 = c div 64 div 64" "c div 262144 = c div 4096 div 64"
    by (simp_all add: div_mult2_eq [symmetric])
  have split2: "c div 64 * 64 + c mod 64 = c" by simp
  have "c div 4096 * 64 + c div 64 mod 64 = c div 64" unfolding quot(1) by (rule div_mult_mod_eq)
  with split2 have split3: "c div 4096 * 4096 + c div 64 mod 64 * 64 + c mod 64 = c" by linarith
  have "c div 262144 * 64 + c div 4096 mod 64 = c div 4096" unfolding quot(2) by (rule div_mult_mod_eq)
  with split3 have split4: "c div 262144 * 262144 + c div 4096 mod 64 * 4096 + c div 64 mod 64 * 64 + c mod 64 = c"
    by linarith
  consider (one) "c < 0x80" | (two) "\<not> c < 0x80" "c < 0x800" | (three) "\<not> c < 0x800" "c < 0x10000"
    | (four) "\<not> c < 0x10000" by linarith
  then show ?thesis
  proof cases
    case two
    then have "c div 64 < 32" by (simp add: less_mult_imp_div_less)
    then have "\<not> 0xC0 + c div 64 < 0x80" "0xC0 + c div 64 < 0xE0" by linarith+
    then show ?thesis using two split2 by (simp add: enc_def)
  next
    case three
    then have "c div 4096 < 16" by (simp add: less_mult_imp_div_less)
    then have "\<not> 0xE0 + c div 4096 < 0x80" "\<not> 0xE0 + c div 4096 < 0xE0" "0xE0 + c div 4096 < 0xF0" by linarith+
    then show ?thesis using three split3 by (simp add: enc_def)
  next
    case four
    then show ?thesis using split4 by (simp add: enc_def)
  qed (simp add: enc_def)
qed

lemma tag_or: "take_bit k t = 0 \<Longrightarrow> take_bit k x = x \<Longrightarrow> (t OR x :: u32) = t + x"
proof -
  assume t: "take_bit k t = 0" and x: "take_bit k x = x"
  have "t AND x = 0"
  proof (rule bit_word_eqI)
    fix n
    show "bit (t AND x) n \<longleftrightarrow> bit (0 :: u32) n"
      using arg_cong [OF t, of "\<lambda>w. bit w n"] arg_cong [OF x, of "\<lambda>w. bit w n"]
      by (auto simp: bit_simps)
  qed
  then show ?thesis by (rule disjunctive_add_eq_or [symmetric])
qed

lemma unat_byte_of_u32: "unat (ucast (w :: u32) :: byte) = unat w mod 256"
  by (simp add: unsigned_ucast_eq take_bit_eq_mod)

lemma take_bit_u32_self: "unat (x :: u32) < 2 ^ k \<Longrightarrow> take_bit k x = x"
  by (rule word_unat_eq_iff [THEN iffD2]) (simp add: unsigned_take_bit_eq take_bit_nat_eq_self_iff)

lemma tag_byte:
  assumes "unat t + 2 ^ k \<le> 256" "take_bit k t = 0" "unat x < 2 ^ k"
  shows "unat (ucast (t OR x :: u32) :: byte) = unat t + unat x"
proof -
  have "take_bit k x = x" by (rule take_bit_u32_self [OF assms(3)])
  with assms(2) have "t OR x = t + x" by (rule tag_or)
  moreover have "unat t + unat x < 256" using assms by linarith
  moreover from this have "unat (t + x) = unat t + unat x" by (simp add: unat_word_ariths)
  ultimately show ?thesis by (simp add: unat_byte_of_u32)
qed

lemma unat_drop_u32: "unat (drop_bit n (x :: u32)) = unat x div 2 ^ n"
proof -
  have "take_bit 32 (unat x) = unat x" using unat_u32_bound [of x] by (simp add: take_bit_nat_eq_self_iff)
  then show ?thesis by (subst unsigned_drop_bit_eq) (simp add: drop_bit_eq_div)
qed

lemma unat_low6: "unat ((x :: u32) AND 0x3F) = unat x mod 64"
proof -
  have "x AND 0x3F = take_bit 6 x" by (simp add: take_bit_eq_mask mask_eq_exp_minus_1)
  moreover have "unat (take_bit 6 x) = take_bit 6 (unat x)" by (rule unsigned_take_bit_eq)
  ultimately show ?thesis by (simp only: take_bit_eq_mod) simp
qed

lemma AppendUtf8_enc: "unat c < 0x200000 \<Longrightarrow> map unat (AppendUtf8 out c) = map unat out @ enc (unat c)"
proof -
  assume c: "unat c < 0x200000"
  note lim = one_byte_limit_def two_byte_limit_def three_byte_limit_def word_less_nat_alt
  note tags = two_byte_tag_def three_byte_tag_def four_byte_tag_def continuation_tag_def continuation_mask_def
    continuation_shift_def
  have cont: "unat (ucast (0x80 OR (x AND 0x3F) :: u32) :: byte) = 0x80 + unat x mod 64" for x
    by (subst tag_byte [where k = 6]) (simp_all add: unat_low6)
  consider (one) "unat c < 0x80" | (two) "\<not> unat c < 0x80" "unat c < 0x800" | (three) "\<not> unat c < 0x800" "unat c < 0x10000"
    | (four) "\<not> unat c < 0x10000" by linarith
  then show ?thesis
  proof cases
    case one
    then show ?thesis by (simp add: AppendUtf8_def enc_def lim unat_byte_of_u32)
  next
    case two
    then have "unat (drop_bit 6 c) < 2 ^ 5" by (simp add: unat_drop_u32 less_mult_imp_div_less)
    then have "unat (ucast (0xC0 OR drop_bit 6 c) :: byte) = 0xC0 + unat c div 64"
      by (subst tag_byte [where k = 5]) (simp_all add: unat_drop_u32)
    then show ?thesis using two by (simp add: AppendUtf8_def enc_def lim tags cont)
  next
    case three
    then have "unat (drop_bit 12 c) < 2 ^ 4" by (simp add: unat_drop_u32 less_mult_imp_div_less)
    then have "unat (ucast (0xE0 OR drop_bit 12 c) :: byte) = 0xE0 + unat c div 4096"
      by (subst tag_byte [where k = 4]) (simp_all add: unat_drop_u32)
    then show ?thesis using three by (simp add: AppendUtf8_def enc_def lim tags cont unat_drop_u32)
  next
    case four
    have "unat (drop_bit 18 c) < 2 ^ 3" using c by (simp add: unat_drop_u32 less_mult_imp_div_less)
    then have "unat (ucast (0xF0 OR drop_bit 18 c) :: byte) = 0xF0 + unat c div 262144"
      by (subst tag_byte [where k = 3]) (simp_all add: unat_drop_u32)
    then show ?thesis using four by (simp add: AppendUtf8_def enc_def lim tags cont unat_drop_u32)
  qed
qed

section \<open>Code points of a name\<close>

definition high_nat :: "nat \<Rightarrow> bool" where "high_nat u \<longleftrightarrow> 0xD800 \<le> u \<and> u \<le> 0xDBFF"
definition low_nat :: "nat \<Rightarrow> bool" where "low_nat u \<longleftrightarrow> 0xDC00 \<le> u \<and> u \<le> 0xDFFF"

lemma is_high_nat: "is_high u \<longleftrightarrow> high_nat (unat u)"
  by (simp add: is_high_def high_nat_def utf_consts word_le_nat_alt)

lemma is_low_nat: "is_low u \<longleftrightarrow> low_nat (unat u)"
  by (simp add: is_low_def low_nat_def utf_consts word_le_nat_alt)

lemma unat_combine:
  assumes "is_high u" "is_low l"
  shows "unat (combine u l) = 0x10000 + (unat u - 0xD800) * 1024 + (unat l - 0xDC00)"
proof -
  have u: "0xD800 \<le> unat u" "unat u \<le> 0xDBFF" and l: "0xDC00 \<le> unat l" "unat l \<le> 0xDFFF"
    using assms by (simp_all add: is_high_nat is_low_nat high_nat_def low_nat_def)
  have "unat (l AND 0x3FF) = unat l mod 1024"
  proof -
    have "l AND 0x3FF = take_bit 10 l" by (simp add: take_bit_eq_mask mask_eq_exp_minus_1)
    moreover have "unat (take_bit 10 l) = take_bit 10 (unat l)" by (rule unsigned_take_bit_eq)
    ultimately show ?thesis by (simp only: take_bit_eq_mod) simp
  qed
  also have "\<dots> = unat l - 0xDC00"
  proof -
    obtain k where k: "unat l = 0xDC00 + k" using l(1) le_Suc_ex by blast
    with l(2) have "k < 1024" by linarith
    then have "(55 * 1024 + k) mod 1024 = k" by (simp only: mod_mult_self3 mod_less)
    moreover have "unat l = 55 * 1024 + k" using k by simp
    ultimately have "unat l mod 1024 = k" by (simp only:)
    with k show ?thesis by simp
  qed
  finally have low: "unat (l AND 0x3FF) = unat l - 0xDC00" .
  have diff: "unat (u - 0xD800) = unat u - 0xD800"
    by (subst unat_sub) (use u in \<open>simp_all add: word_le_nat_alt\<close>)
  have "unat ((u - 0xD800) * 1024) = (unat u - 0xD800) * 1024 mod 4294967296"
    unfolding unat_word_ariths(2) diff by simp
  also have "\<dots> = (unat u - 0xD800) * 1024" by (rule mod_less) (use u in linarith)
  finally have mult: "unat ((u - 0xD800) * 1024) = (unat u - 0xD800) * 1024" .
  have "push_bit 10 (u - 0xD800) = (u - 0xD800) * 2 ^ 10" by (rule push_bit_eq_mult)
  also have "(2 :: u32) ^ 10 = 1024" by simp
  finally have high: "unat (push_bit 10 (u - 0xD800)) = (unat u - 0xD800) * 1024"
    by (simp only: mult)
  have "push_bit 10 (u - 0xD800) OR (l AND 0x3FF) = push_bit 10 (u - 0xD800) + (l AND 0x3FF)"
  proof (rule tag_or)
    show "take_bit 10 (push_bit 10 (u - 0xD800)) = 0" by (simp add: take_bit_push_bit)
    show "take_bit 10 (l AND 0x3FF) = l AND 0x3FF"
    proof (rule take_bit_u32_self)
      have "unat l - 0xDC00 < 2 ^ 10" using l(2) by simp
      then show "unat (l AND 0x3FF) < 2 ^ 10" by (simp only: low)
    qed
  qed
  then have "combine u l = 0x10000 + (push_bit 10 (u - 0xD800) + (l AND 0x3FF))"
    unfolding combine_def utf_consts by (simp only:)
  moreover have "unat (0x10000 + (push_bit 10 (u - 0xD800) + (l AND 0x3FF))) =
      0x10000 + ((unat u - 0xD800) * 1024 + (unat l - 0xDC00))"
  proof -
    have "(unat u - 0xD800) * 1024 + (unat l - 0xDC00) < 0x100000" using u l by linarith
    then show ?thesis unfolding unat_word_ariths high low by simp
  qed
  ultimately show ?thesis by simp
qed

fun points :: "nat list \<Rightarrow> nat list" where
  "points [] = []"
| "points [u] = [u]"
| "points (u # l # us) =
     (if high_nat u \<and> low_nat l then (0x10000 + (u - 0xD800) * 1024 + (l - 0xDC00)) # points us
      else u # points (l # us))"

lemma points_bound: "\<forall>u \<in> set us. u < 0x10000 \<Longrightarrow> c \<in> set (points us) \<Longrightarrow> c < 0x110000"
  by (induction us rule: points.induct) (auto simp: high_nat_def low_nat_def split: if_splits)

lemma points_units: "\<forall>u \<in> set us. u < 0x10000 \<Longrightarrow> concat (map units_of (points us)) = us"
proof (induction us rule: points.induct)
  case (3 u l us)
  show ?case
  proof (cases "high_nat u \<and> low_nat l")
    case True
    then obtain a b where ab: "u = 0xD800 + a" "a < 1024" "l = 0xDC00 + b" "b < 1024"
      by (auto simp: high_nat_def low_nat_def dest!: le_Suc_ex)
    then have "units_of (0x10000 + (u - 0xD800) * 1024 + (l - 0xDC00)) = [u, l]" by (simp add: units_of_def)
    then show ?thesis using 3 True by simp
  next
    case False
    then have "points (u # l # us) = u # points (l # us)" by auto
    then show ?thesis using 3 False by (simp add: units_of_def del: points.simps)
  qed
qed (simp_all add: units_of_def)

lemma decode_concat: "\<forall>c \<in> set cs. c < 0x110000 \<Longrightarrow> decode_units (concat (map enc cs)) = concat (map units_of cs)"
proof (induction cs)
  case (Cons c cs)
  have "enc c \<noteq> []" by (simp add: enc_def)
  moreover have "next_code_point (enc c @ concat (map enc cs)) = (c, concat (map enc cs))"
    using Cons.prems by (intro next_enc) auto
  ultimately have "decode_units (enc c @ concat (map enc cs)) = units_of c @ decode_units (concat (map enc cs))"
    by (subst decode_units.simps) simp
  with Cons show ?case by simp
qed (simp add: decode_units.simps)

lemma to_utf8_points:
  "\<forall>u \<in> set us. unat u < 0x10000 \<Longrightarrow>
     map unat (to_utf8_loop out us) = map unat out @ concat (map enc (points (map unat us)))"
proof (induction out us rule: to_utf8_loop.induct)
  case (2 out u)
  then have "\<not> u > max_code_point" by (simp add: max_code_point_def word_less_nat_alt)
  with 2 show ?case by (simp add: AppendUtf8_enc)
next
  case (3 out u l us)
  then have "\<not> u > max_code_point" by (simp add: max_code_point_def word_less_nat_alt)
  moreover have "unat (combine u l) < 0x200000" if "is_high u" "is_low l"
    using that unfolding unat_combine [OF that] is_high_nat is_low_nat high_nat_def low_nat_def by linarith
  ultimately show ?case using 3 by (auto simp: AppendUtf8_enc unat_combine is_high_nat [symmetric] is_low_nat [symmetric])
qed simp

lemma utf8_of_units: "decode_units (map unat (WideToUtf8_16 xs)) = map unat xs"
proof -
  have wide: "unat (ucast x :: u32) = unat x" for x :: u16
    using unat_u16_bound [of x] by (simp add: unsigned_ucast_eq take_bit_nat_eq_self_iff)
  have small: "\<forall>u \<in> set (map ucast xs :: u32 list). unat u < 0x10000" and same: "map unat (map ucast xs :: u32 list) = map unat xs"
    using unat_u16_bound wide by auto
  have "map unat (WideToUtf8_16 xs) = concat (map enc (points (map unat xs)))"
    using to_utf8_points [OF small, of "[]"] unfolding same by (simp add: WideToUtf8_16_def ToUtf8_def)
  moreover have "\<forall>u \<in> set (map unat xs). u < 0x10000" using unat_u16_bound by auto
  from this have "decode_units (concat (map enc (points (map unat xs)))) = map unat xs"
    using decode_concat [of "points (map unat xs)"] points_bound [of "map unat xs"] points_units [of "map unat xs"]
    by auto
  ultimately show ?thesis by simp
qed

text \<open>
  C37. Two names of 16-bit units have the same text exactly when they are the same name, unpaired
  surrogates included: \<open>decode_units\<close> gives the units back.
\<close>

theorem name_text_is_injective:
  "decode_units (map unat (WideToUtf8_16 xs)) = map unat xs \<and> (WideToUtf8_16 xs = WideToUtf8_16 ys \<longleftrightarrow> xs = ys)"
proof -
  have "inj (unat :: u16 \<Rightarrow> nat)" by (simp add: inj_def word_unat_eq_iff)
  then show ?thesis using utf8_of_units [of xs] utf8_of_units [of ys] by (metis inj_map_eq_map)
qed

fun merged :: "u32 list \<Rightarrow> u32 list" where
  "merged [] = []"
| "merged [u] = [u]"
| "merged (u # l # us) = (if is_high u \<and> is_low l then combine u l # merged us else u # merged (l # us))"

lemma utf16_to_wide_merged: "utf16_to_wide_loop out us = out @ merged us"
  by (induction out us rule: utf16_to_wide_loop.induct) simp_all

lemma combine_not_surrogate: "is_high u \<Longrightarrow> is_low l \<Longrightarrow> \<not> is_high (combine u l) \<and> \<not> is_low (combine u l) \<and> \<not> combine u l > max_code_point"
  unfolding is_high_nat [of "combine u l"] is_low_nat [of "combine u l"]
  by (simp add: unat_combine high_nat_def low_nat_def max_code_point_def word_less_nat_alt)
    (simp add: is_high_nat is_low_nat high_nat_def low_nat_def, linarith)

lemma merged_head: "\<exists>h r. merged (l # us) = h # r \<and> (h = l \<or> \<not> is_low h)"
  by (cases us) (auto simp: combine_not_surrogate)

lemma to_utf8_step:
  "(\<And>l us. xs = l # us \<Longrightarrow> \<not> (is_high u \<and> is_low l)) \<Longrightarrow>
     to_utf8_loop out (u # xs) = to_utf8_loop (AppendUtf8 out (if u > max_code_point then replacement_character else u)) xs"
  by (cases xs) auto

lemma to_utf8_merged: "to_utf8_loop out (merged us) = to_utf8_loop out us"
proof (induction us arbitrary: out rule: merged.induct)
  case (3 u l us)
  show ?case
  proof (cases "is_high u \<and> is_low l")
    case True
    then have c: "\<not> is_high (combine u l)" "\<not> combine u l > max_code_point" using combine_not_surrogate by auto
    have "to_utf8_loop out (merged (u # l # us)) = to_utf8_loop out (combine u l # merged us)" using True by simp
    also have "\<dots> = to_utf8_loop (AppendUtf8 out (combine u l)) (merged us)"
      by (subst to_utf8_step) (use c in auto)
    also have "\<dots> = to_utf8_loop out (u # l # us)" using 3(1) [OF True] True by simp
    finally show ?thesis .
  next
    case False
    obtain h r where hd: "merged (l # us) = h # r" "h = l \<or> \<not> is_low h" using merged_head by blast
    have "merged (u # l # us) = u # merged (l # us)" using False by auto
    then have "to_utf8_loop out (merged (u # l # us)) =
        to_utf8_loop (AppendUtf8 out (if u > max_code_point then replacement_character else u)) (merged (l # us))"
      using hd False by (simp only:) (rule to_utf8_step, auto)
    also have "\<dots> = to_utf8_loop (AppendUtf8 out (if u > max_code_point then replacement_character else u)) (l # us)"
      by (rule 3(2) [OF False])
    also have "\<dots> = to_utf8_loop out (u # l # us)" using False by (subst (2) to_utf8_step) auto
    finally show ?thesis .
  qed
qed simp_all

text \<open>
  The text of an on-disk name does not depend on the width of wchar_t: where it is 32 bits,
  widening the name first and converting gives the bytes the 16-bit platforms get.
\<close>

lemma text_width_independent:
  "WideToUtf8_32 (Utf16ToWide_32 xs) = WideToUtf8_16 (Utf16ToWide_16 xs)"
  by (simp add: WideToUtf8_32_def WideToUtf8_16_def Utf16ToWide_32_def Utf16ToWide_16_def ToUtf8_def
      utf16_to_wide_merged to_utf8_merged)

end
