(* ===== verification/FileReference.thy ===== *)
theory FileReference
  imports NtfsPrelude
begin

text \<open>
  File references: src/mft/file-reference.h. A reference packs a 48-bit record number and a 16-bit
  sequence number; the predicates say when a reference still names the record it was taken from.
\<close>

section \<open>Model\<close>

definition mft_record_number_mask :: u64 where "mft_record_number_mask = 0x0000FFFFFFFFFFFF"
definition mft_sequence_shift :: nat where "mft_sequence_shift = 48"
definition mft_max_sequence :: u16 where "mft_max_sequence = 0xFFFF"

definition NextSequence :: "u16 \<Rightarrow> u16" where
  "NextSequence sequence = (if sequence = mft_max_sequence then 1 else sequence + 1)"

definition IsSameRecordGeneration :: "u16 \<Rightarrow> u16 \<Rightarrow> bool \<Rightarrow> bool" where
  "IsSameRecordGeneration referenced_sequence record_sequence record_in_use \<longleftrightarrow>
     referenced_sequence = 0 \<or> referenced_sequence = record_sequence \<or>
     (\<not> record_in_use \<and> record_sequence = NextSequence referenced_sequence)"

definition IsGenuineExtensionRecord :: "u16 \<Rightarrow> u16 \<Rightarrow> u64 \<Rightarrow> u64 \<Rightarrow> bool" where
  "IsGenuineExtensionRecord entry_sequence record_sequence record_base_ref listing_record_number \<longleftrightarrow>
     (entry_sequence = 0 \<or> entry_sequence = record_sequence) \<and>
     record_base_ref AND mft_record_number_mask = listing_record_number"

definition IsGenuineFreedExtensionRecord :: "u16 \<Rightarrow> u16 \<Rightarrow> bool \<Rightarrow> u64 \<Rightarrow> u64 \<Rightarrow> bool" where
  "IsGenuineFreedExtensionRecord entry_sequence record_sequence record_in_use record_base_ref listing_record_number \<longleftrightarrow>
     record_base_ref AND mft_record_number_mask = listing_record_number \<and>
     IsSameRecordGeneration entry_sequence record_sequence record_in_use"

text \<open>RecordOffset() of src/mft/record-offset.h.\<close>

definition RecordOffset :: "u32 \<Rightarrow> u64 \<Rightarrow> u64 option" where
  "RecordOffset record_size file_ref =
    (if record_size = 0 \<or> file_ref > 0x7FFFFFFFFFFFFFFF div ucast record_size then None
     else Some (ucast record_size * file_ref))"

section \<open>Properties\<close>

lemma div_less_iff: "0 < (c :: nat) \<Longrightarrow> m div c < k \<longleftrightarrow> m < c * k"
  by (simp add: div_less_iff_less_mult mult.commute)

lemma RecordOffset_exact:
  "RecordOffset record_size file_ref =
    (if record_size = 0 \<or> unat record_size * unat file_ref > 9223372036854775807 then None
     else Some (of_nat (unat record_size * unat file_ref)))"
proof (cases "record_size = 0")
  case False
  then have pos: "0 < unat record_size" by (simp add: unat_gt_0)
  have u: "unat (ucast record_size :: u64) = unat record_size"
    using unat_u32_bound [of record_size] by (simp add: unsigned_ucast_eq take_bit_eq_mod)
  have "file_ref > 0x7FFFFFFFFFFFFFFF div ucast record_size \<longleftrightarrow> 9223372036854775807 < unat record_size * unat file_ref"
    using pos by (simp add: word_less_nat_alt unat_div u div_less_iff)
  moreover have "(of_nat (unat record_size * unat file_ref) :: u64) = ucast record_size * file_ref"
    by (simp add: of_nat_unat)
  ultimately show ?thesis using False by (simp add: RecordOffset_def)
qed (simp add: RecordOffset_def)

lemma unat_record_number: "unat (r AND mft_record_number_mask) = unat r mod 2 ^ 48"
proof -
  have "r AND mft_record_number_mask = take_bit 48 r"
    by (simp add: mft_record_number_mask_def take_bit_eq_mask mask_eq_exp_minus_1)
  then show ?thesis by (simp add: take_bit_eq_mod unat_mod)
qed

lemma unat_sequence: "unat (ucast (drop_bit mft_sequence_shift r) :: u16) = unat (r :: u64) div 2 ^ 48"
proof -
  have "unat (drop_bit mft_sequence_shift r) = unat r div 2 ^ 48"
    unfolding mft_sequence_shift_def drop_bit_eq_div by (simp add: unat_div)
  moreover have "unat r div 2 ^ 48 < 65536" using unat_u64_bound [of r] by simp
  ultimately show ?thesis by (simp add: unsigned_ucast_eq take_bit_eq_mod)
qed

text \<open>A reference is its record number and its sequence number.\<close>

lemma reference_parts:
  "unat r = unat (r AND mft_record_number_mask) + 2 ^ 48 * unat (ucast (drop_bit mft_sequence_shift r) :: u16)"
  unfolding unat_record_number unat_sequence by simp

lemma NextSequence_nonzero: "sequence \<noteq> 0 \<Longrightarrow> NextSequence sequence \<noteq> 0 \<and> NextSequence sequence \<noteq> sequence"
proof -
  assume "sequence \<noteq> 0"
  have "sequence + 1 \<noteq> 0" if "sequence \<noteq> 0xFFFF"
  proof
    assume "sequence + 1 = 0"
    then have "sequence = - 1" by (simp add: eq_neg_iff_add_eq_0)
    then show False using that by simp
  qed
  then show ?thesis by (auto simp: NextSequence_def mft_max_sequence_def)
qed

end
