(* ===== verification/SlackCarver.thy ===== *)
theory SlackCarver
  imports SlackSearch Utf FileReference
begin

text \<open>
  Deleted names in leftover bytes: src/record/slack-carver.cpp, and the result type of
  include/ntfs-browser/record/carved-name.h. Offsets are natural numbers; a read outside the bytes
  and an offset below zero are error values. A wide name holds 32-bit characters, as on the hosts
  where wchar_t is 32 bits wide; where it is 16 bits wide the name is its units.
\<close>

section \<open>Model\<close>

datatype carve_source = RecordSlack | IndexSlack

record carved_name =
  cn_name :: "u32 list"
  cn_parent_record :: u64
  cn_parent_sequence :: u16
  cn_parent_known :: bool
  cn_create_time :: filetime
  cn_write_time :: filetime
  cn_change_time :: filetime
  cn_access_time :: filetime
  cn_times_known :: bool
  cn_name_space :: byte
  cn_partial :: bool
  cn_source :: carve_source

record found =
  f_name :: carved_name
  f_end :: nat

definition parent_ref_offset :: nat where "parent_ref_offset = 0"
definition create_time_offset :: nat where "create_time_offset = 8"
definition alter_time_offset :: nat where "alter_time_offset = 16"
definition mft_time_offset :: nat where "mft_time_offset = 24"
definition read_time_offset :: nat where "read_time_offset = 32"
definition flags_offset :: nat where "flags_offset = 56"
definition name_length_offset :: nat where "name_length_offset = 64"
definition name_offset :: nat where "name_offset = 66"
definition end_marker_size :: nat where "end_marker_size = 4"
definition live_terminator_size :: nat where "live_terminator_size = 8"
definition min_partial_name_length :: nat where "min_partial_name_length = 5"
definition min_plausible_time :: u64 where "min_plausible_time = 119600064000000000"
definition max_plausible_time :: u64 where "max_plausible_time = 157469184000000000"
definition first_impossible_parent :: u64 where "first_impossible_parent = 0xFFFFFFFF"
definition known_flag_bits :: u32 where "known_flag_bits = 0x3000FFFF"

lemmas filename_offsets = parent_ref_offset_def create_time_offset_def alter_time_offset_def mft_time_offset_def
  read_time_offset_def flags_offset_def name_length_offset_def name_offset_def

definition plain_text_ranges :: "(u16 \<times> u16) list" where
  "plain_text_ranges = [(0x20, 0x7E), (0xA0, 0x24F), (0x370, 0x6FF), (0x3040, 0x9FFF), (0xAC00, 0xD7A3), (0xFF01, 0xFF5E)]"

definition IsHighSurrogate :: "u16 \<Rightarrow> bool" where
  "IsHighSurrogate unit \<longleftrightarrow> unit \<ge> 0xD800 \<and> unit \<le> 0xDBFF"

definition IsLowSurrogate :: "u16 \<Rightarrow> bool" where
  "IsLowSurrogate unit \<longleftrightarrow> unit \<ge> 0xDC00 \<and> unit \<le> 0xDFFF"

definition IsC0Control :: "u16 \<Rightarrow> bool" where
  "IsC0Control unit \<longleftrightarrow> unit < 0x20"

definition IsDeleteOrC1Control :: "u16 \<Rightarrow> bool" where
  "IsDeleteOrC1Control unit \<longleftrightarrow> unit \<ge> 0x7F \<and> unit \<le> 0x9F"

definition IsPathSeparator :: "u16 \<Rightarrow> bool" where
  "IsPathSeparator unit \<longleftrightarrow> unit = 0x2F \<or> unit = 0x5C"

definition IsNoncharacter :: "u16 \<Rightarrow> bool" where
  "IsNoncharacter unit \<longleftrightarrow> unit = 0xFFFE \<or> unit = 0xFFFF"

definition IsNameUnit :: "u16 \<Rightarrow> bool" where
  "IsNameUnit unit \<longleftrightarrow> \<not> IsC0Control unit \<and> \<not> IsDeleteOrC1Control unit \<and> \<not> IsPathSeparator unit \<and> \<not> IsNoncharacter unit"

definition IsPlainTextUnit :: "u16 \<Rightarrow> bool" where
  "IsPlainTextUnit unit \<longleftrightarrow> list_ex (\<lambda>(first, last_unit). unit \<ge> first \<and> unit \<le> last_unit) plain_text_ranges"

fun IsValidName :: "u16 list \<Rightarrow> bool" where
  "IsValidName [] = True"
| "IsValidName (unit # units) =
    (if IsHighSurrogate unit then
       (case units of [] \<Rightarrow> False | low # rest \<Rightarrow> if \<not> IsLowSurrogate low then False else IsValidName rest)
     else if IsLowSurrogate unit \<or> \<not> IsNameUnit unit then False
     else IsValidName units)"

definition IsPlausibleTime :: "u64 \<Rightarrow> bool" where
  "IsPlausibleTime ticks \<longleftrightarrow> ticks \<ge> min_plausible_time \<and> ticks < max_plausible_time"

definition ToFileTime :: "u64 \<Rightarrow> filetime" where
  "ToFileTime ticks = \<lparr>ft_low = ucast ticks, ft_high = ucast (drop_bit 32 ticks)\<rparr>"

definition Ticks :: "filetime \<Rightarrow> u64" where
  "Ticks t = push_bit 32 (ucast (ft_high t)) OR ucast (ft_low t)"

definition IsTrusted :: "nat \<Rightarrow> nat \<Rightarrow> nat \<Rightarrow> bool" where
  "IsTrusted length_at field_offset trusted_begin \<longleftrightarrow> length_at \<ge> trusted_begin + (name_length_offset - field_offset)"

definition FieldAt :: "nat \<Rightarrow> nat \<Rightarrow> carve_error + nat" where
  "FieldAt length_at field_offset =
    (if length_at < name_length_offset - field_offset then Inl CarveNegativeOffset
     else Inr (length_at - (name_length_offset - field_offset)))"

definition load_field :: "byte list \<Rightarrow> nat \<Rightarrow> nat \<Rightarrow> carve_error + u64" where
  "load_field bytes length_at field_offset = bind_r (FieldAt length_at field_offset) (load_u64 bytes)"

text \<open>ReadTimes(): None when it returns false.\<close>

definition ReadTimes :: "byte list \<Rightarrow> nat \<Rightarrow> carved_name \<Rightarrow> carve_error + carved_name option" where
  "ReadTimes bytes length_at name =
     bind_r (load_field bytes length_at create_time_offset) (\<lambda>create.
     bind_r (load_field bytes length_at alter_time_offset) (\<lambda>alter.
     bind_r (load_field bytes length_at mft_time_offset) (\<lambda>mft.
     bind_r (load_field bytes length_at read_time_offset) (\<lambda>read.
       if \<not> list_all IsPlausibleTime [create, alter, mft, read] then Inr None
       else Inr (Some (name\<lparr>cn_create_time := ToFileTime create, cn_write_time := ToFileTime alter,
                            cn_change_time := ToFileTime mft, cn_access_time := ToFileTime read,
                            cn_times_known := True\<rparr>))))))"

definition ReadParent :: "byte list \<Rightarrow> nat \<Rightarrow> carved_name \<Rightarrow> carve_error + carved_name" where
  "ReadParent bytes length_at name =
     bind_r (load_field bytes length_at parent_ref_offset) (\<lambda>reference.
       let parent = reference AND mft_record_number_mask
       in if parent = 0 \<or> parent \<ge> first_impossible_parent then Inr name
          else Inr (name\<lparr>cn_parent_record := parent,
                         cn_parent_sequence := ucast (drop_bit mft_sequence_shift reference),
                         cn_parent_known := True\<rparr>))"

text \<open>The copy of the characters into the stack buffer.\<close>

definition load_units :: "byte list \<Rightarrow> nat \<Rightarrow> nat \<Rightarrow> carve_error + u16 list" where
  "load_units bytes first n =
    (if first + 2 * n \<le> length bytes then Inr (map (\<lambda>i. u16_at bytes (first + 2 * i)) [0..<n]) else Inl CarveOutOfBounds)"

definition no_time :: filetime where "no_time = \<lparr>ft_low = 0, ft_high = 0\<rparr>"

definition blank_name :: carved_name where
  "blank_name = \<lparr>cn_name = [], cn_parent_record = 0, cn_parent_sequence = 0, cn_parent_known = False,
     cn_create_time = no_time, cn_write_time = no_time, cn_change_time = no_time, cn_access_time = no_time,
     cn_times_known = False, cn_name_space = 0, cn_partial = False, cn_source = RecordSlack\<rparr>"

text \<open>The end of ProbeAt(): a partial name must carry the proof itself.\<close>

definition finish_name :: "u16 list \<Rightarrow> bool \<Rightarrow> nat \<Rightarrow> carved_name \<Rightarrow> found option" where
  "finish_name units flags_trusted end_pos name =
    (let partial = (\<not> cn_parent_known name \<or> \<not> cn_times_known name)
     in if partial \<and> (length units < min_partial_name_length \<or> \<not> flags_trusted \<and> \<not> list_all IsPlainTextUnit units)
        then None
        else Some \<lparr>f_name = name\<lparr>cn_partial := partial, cn_name := Utf16ToWide_32 units\<rparr>, f_end = end_pos\<rparr>)"

text \<open>The part of ProbeAt() after the characters were found valid.\<close>

definition probe_fields ::
  "byte list \<Rightarrow> nat \<Rightarrow> nat \<Rightarrow> u16 list \<Rightarrow> byte \<Rightarrow> nat \<Rightarrow> carve_error + found option" where
  "probe_fields bytes length_at trusted_begin units name_space end_pos =
    (let name = blank_name\<lparr>cn_name_space := name_space\<rparr>;
         flags_trusted = IsTrusted length_at flags_offset trusted_begin
     in bind_r (if flags_trusted
                then bind_r (bind_r (FieldAt length_at flags_offset) (load_u32 bytes))
                       (\<lambda>flags. Inr (flags AND NOT known_flag_bits = 0))
                else Inr True) (\<lambda>flags_ok.
        if \<not> flags_ok then Inr None
        else bind_r (if IsTrusted length_at create_time_offset trusted_begin then ReadTimes bytes length_at name
                     else Inr (Some name)) (\<lambda>timed.
          case timed of
            None \<Rightarrow> Inr None
          | Some name \<Rightarrow>
              bind_r (if IsTrusted length_at parent_ref_offset trusted_begin then ReadParent bytes length_at name
                      else Inr name) (\<lambda>name. Inr (finish_name units flags_trusted end_pos name)))))"

definition ProbeAt :: "byte list \<Rightarrow> nat \<Rightarrow> nat \<Rightarrow> carve_error + found option" where
  "ProbeAt bytes length_at trusted_begin =
     bind_r (load_byte bytes length_at) (\<lambda>len_byte.
     bind_r (load_byte bytes (length_at + 1)) (\<lambda>name_space.
       let name_length = unat len_byte;
           name_first = length_at + (name_offset - name_length_offset);
           end_pos = name_first + name_length * 2
       in if \<not> IsNameHeader len_byte name_space \<or> end_pos > length bytes then Inr None
          else bind_r (load_units bytes name_first name_length) (\<lambda>units.
            if \<not> IsValidName units then Inr None
            else probe_fields bytes length_at trusted_begin units name_space end_pos)))"

definition SameCarvedName :: "carved_name \<Rightarrow> carved_name \<Rightarrow> bool" where
  "SameCarvedName a b \<longleftrightarrow>
     cn_name a = cn_name b \<and> cn_parent_record a = cn_parent_record b \<and> cn_parent_sequence a = cn_parent_sequence b \<and>
     cn_parent_known a = cn_parent_known b \<and> cn_times_known a = cn_times_known b \<and> cn_name_space a = cn_name_space b \<and>
     cn_partial a = cn_partial b \<and> Ticks (cn_create_time a) = Ticks (cn_create_time b) \<and>
     Ticks (cn_write_time a) = Ticks (cn_write_time b) \<and> Ticks (cn_change_time a) = Ticks (cn_change_time b) \<and>
     Ticks (cn_access_time a) = Ticks (cn_access_time b)"

definition add_new :: "carved_name \<Rightarrow> carved_name list \<Rightarrow> carved_name list" where
  "add_new name carved = (if list_all (\<lambda>seen. \<not> SameCarvedName seen name) carved then carved @ [name] else carved)"

section \<open>A probe never leaves the bytes\<close>

lemma FieldAt_trusted:
  "IsTrusted length_at field_offset trusted_begin \<Longrightarrow>
     \<exists>p. FieldAt length_at field_offset = Inr p \<and> trusted_begin \<le> p \<and> p + (name_length_offset - field_offset) = length_at"
  by (auto simp: IsTrusted_def FieldAt_def)

lemma load_field_trusted:
  assumes "IsTrusted length_at field_offset trusted_begin" "field_offset + 8 \<le> name_length_offset" "length_at \<le> length bytes"
  shows "\<exists>v. load_field bytes length_at field_offset = Inr v"
proof -
  from FieldAt_trusted [OF assms(1)] obtain p where
    "FieldAt length_at field_offset = Inr p" "p + (name_length_offset - field_offset) = length_at" by blast
  then show ?thesis using assms(2,3) by (simp add: load_field_def load_u64_def)
qed

lemma trusted_times:
  assumes "IsTrusted length_at create_time_offset trusted_begin"
  shows "IsTrusted length_at alter_time_offset trusted_begin" "IsTrusted length_at mft_time_offset trusted_begin"
    "IsTrusted length_at read_time_offset trusted_begin" "IsTrusted length_at flags_offset trusted_begin"
  using assms by (simp_all add: IsTrusted_def filename_offsets)

lemma ReadTimes_total:
  assumes "IsTrusted length_at create_time_offset trusted_begin" "length_at \<le> length bytes"
  shows "\<exists>r. ReadTimes bytes length_at name = Inr r"
proof -
  obtain a b c d where "load_field bytes length_at create_time_offset = Inr a"
    "load_field bytes length_at alter_time_offset = Inr b" "load_field bytes length_at mft_time_offset = Inr c"
    "load_field bytes length_at read_time_offset = Inr d"
    using load_field_trusted [OF assms(1) _ assms(2)] load_field_trusted [OF trusted_times(1) [OF assms(1)] _ assms(2)]
      load_field_trusted [OF trusted_times(2) [OF assms(1)] _ assms(2)]
      load_field_trusted [OF trusted_times(3) [OF assms(1)] _ assms(2)]
    by (auto simp: filename_offsets)
  then show ?thesis by (simp add: ReadTimes_def)
qed

lemma ReadParent_total:
  assumes "IsTrusted length_at parent_ref_offset trusted_begin" "length_at \<le> length bytes"
  shows "\<exists>r. ReadParent bytes length_at name = Inr r"
  using load_field_trusted [OF assms(1) _ assms(2)] by (auto simp: ReadParent_def filename_offsets Let_def)

lemma bind_r_total: "\<exists>x. m = Inr x \<Longrightarrow> (\<And>x. m = Inr x \<Longrightarrow> \<exists>y. f x = Inr y) \<Longrightarrow> \<exists>y. bind_r m f = Inr y"
  by auto

lemma probe_fields_total:
  assumes "length_at \<le> length bytes"
  shows "\<exists>r. probe_fields bytes length_at trusted_begin units name_space end_pos = Inr r"
proof -
  have flags: "\<exists>ok. (if IsTrusted length_at flags_offset trusted_begin
      then bind_r (bind_r (FieldAt length_at flags_offset) (load_u32 bytes)) (\<lambda>flags. Inr (flags AND NOT known_flag_bits = 0))
      else Inr True) = Inr ok"
    using FieldAt_trusted [of length_at flags_offset trusted_begin] assms
    by (auto simp: filename_offsets load_u32_def)
  show ?thesis
    unfolding probe_fields_def Let_def
    by (rule bind_r_total [OF flags])
      (auto intro!: bind_r_total ReadTimes_total [OF _ assms] ReadParent_total [OF _ assms] split: option.splits)
qed

lemma ProbeAt_total:
  assumes "at_pos + 4 \<le> length bytes"
  shows "\<exists>r. ProbeAt bytes at_pos trusted_begin = Inr r"
  using assms probe_fields_total [of at_pos bytes]
  by (auto simp: ProbeAt_def load_byte_def Let_def load_units_def filename_offsets)

lemma ProbeAt_end:
  assumes "ProbeAt bytes at_pos trusted_begin = Inr (Some f)"
  shows "at_pos + 4 \<le> f_end f \<and> f_end f \<le> length bytes"
proof -
  from assms obtain n s units where n: "load_byte bytes at_pos = Inr n" "IsNameHeader n s"
    "at_pos + 2 + unat n * 2 \<le> length bytes"
    "probe_fields bytes at_pos trusted_begin units s (at_pos + 2 + unat n * 2) = Inr (Some f)"
    unfolding ProbeAt_def Let_def by (auto simp: bind_r_eq_Inr filename_offsets split: if_splits)
  from n(4) have "f_end f = at_pos + 2 + unat n * 2"
    unfolding probe_fields_def finish_name_def Let_def
    by (auto simp: bind_r_eq_Inr split: if_splits option.splits)
  moreover have "0 < unat n" using n(2) by (simp add: IsNameHeader_def unat_gt_0)
  ultimately show ?thesis using n(3) by simp
qed

section \<open>The scan\<close>

lemma first_header_ge: "at_pos \<le> length bytes \<Longrightarrow> at_pos \<le> first_header bytes at_pos"
proof (induction bytes at_pos rule: first_header.induct)
  case (1 bytes at_pos)
  then show ?case by (subst first_header.simps) auto
qed

function carve_loop :: "byte list \<Rightarrow> nat \<Rightarrow> nat \<Rightarrow> carved_name list \<Rightarrow> carve_error + carved_name list" where
  "carve_loop bytes trusted_begin at_pos carved =
    (if at_pos + shortest_core \<le> length bytes then
       case FindNameHeader bytes at_pos of
         Inl e \<Rightarrow> Inl e
       | Inr at_pos \<Rightarrow>
           if at_pos + shortest_core > length bytes then Inr carved
           else
             (case ProbeAt bytes at_pos trusted_begin of
                Inl e \<Rightarrow> Inl e
              | Inr None \<Rightarrow> carve_loop bytes trusted_begin (at_pos + scan_step) carved
              | Inr (Some f) \<Rightarrow> carve_loop bytes trusted_begin (f_end f) (add_new (f_name f) carved))
     else Inr carved)"
  by pat_completeness auto
termination
proof (relation "measure (\<lambda>(bytes, t, a, c). Suc (length bytes) - a)", goal_cases)
  case (2 bytes t a c a')
  then show ?case using first_header_ge [of a bytes] by (simp add: FindNameHeader_first search_consts)
next
  case (3 bytes t a c a' r f)
  then have "a \<le> a'" using first_header_ge [of a bytes] by (simp add: FindNameHeader_first search_consts)
  moreover have "a' + 4 \<le> f_end f" "f_end f \<le> length bytes" using ProbeAt_end 3 by simp_all
  ultimately show ?case by simp
qed simp

declare carve_loop.simps [simp del]

text \<open>CarveFrom(): the scan starts at the even offset at or after \<open>scan_begin\<close>.\<close>

definition CarveFrom :: "byte list \<Rightarrow> nat \<Rightarrow> nat \<Rightarrow> carve_error + carved_name list" where
  "CarveFrom bytes scan_begin trusted_begin = carve_loop bytes trusted_begin ((scan_begin + 1) div 2 * 2) []"

definition CarveFileNames :: "byte list \<Rightarrow> nat \<Rightarrow> carve_error + carved_name list" where
  "CarveFileNames bytes marker_offset =
    (if marker_offset > length bytes \<or> length bytes - marker_offset < end_marker_size then Inr []
     else CarveFrom bytes (marker_offset + end_marker_size) (min (marker_offset + live_terminator_size) (length bytes)))"

definition CarveFileNamesFrom :: "byte list \<Rightarrow> nat \<Rightarrow> carve_source \<Rightarrow> carve_error + carved_name list" where
  "CarveFileNamesFrom bytes slack_begin source =
    (if slack_begin > length bytes then Inr []
     else bind_r (CarveFrom bytes slack_begin slack_begin) (\<lambda>carved. Inr (map (\<lambda>name. name\<lparr>cn_source := source\<rparr>) carved)))"

section \<open>The scan is the plain one\<close>

text \<open>The names the probe accepts, every even offset tried, each name skipped once it is found.\<close>

function names_from :: "byte list \<Rightarrow> nat \<Rightarrow> nat \<Rightarrow> carved_name list" where
  "names_from bytes trusted_begin at_pos =
    (if length bytes < at_pos + 4 then []
     else
       case ProbeAt bytes at_pos trusted_begin of
         Inr (Some f) \<Rightarrow> f_name f # names_from bytes trusted_begin (f_end f)
       | _ \<Rightarrow> names_from bytes trusted_begin (at_pos + 2))"
  by pat_completeness auto
termination
proof (relation "measure (\<lambda>(bytes, t, a). Suc (length bytes) - a)", goal_cases)
  case (4 bytes t a r f)
  have "a + 4 \<le> f_end f" "f_end f \<le> length bytes" using ProbeAt_end 4 by simp_all
  then show ?case by simp
qed auto

declare names_from.simps [simp del]

definition keep_new :: "carved_name list \<Rightarrow> carved_name list" where
  "keep_new names = fold add_new names []"

lemma not_header_no_name:
  assumes "at_pos + 4 \<le> length bytes" "\<not> IsNameHeader (bytes ! at_pos) (bytes ! (at_pos + 1))"
  shows "ProbeAt bytes at_pos trusted_begin = Inr None"
  using assms by (simp add: ProbeAt_def load_byte_def Let_def)

lemma names_from_first: "names_from bytes trusted_begin (first_header bytes at_pos) = names_from bytes trusted_begin at_pos"
proof (induction bytes at_pos rule: first_header.induct)
  case (1 bytes at_pos)
  show ?case
  proof (cases "length bytes < at_pos + 4")
    case True
    then show ?thesis by (simp add: first_header_stop names_from.simps)
  next
    case False
    show ?thesis
    proof (cases "IsNameHeader (bytes ! at_pos) (bytes ! (at_pos + 1))")
      case True
      then show ?thesis using False by (simp add: first_header_hit)
    next
      case no: False
      then have "names_from bytes trusted_begin at_pos = names_from bytes trusted_begin (at_pos + 2)"
        using False not_header_no_name [OF _ no] by (subst names_from.simps) simp
      then show ?thesis using 1 False no by (simp add: first_header_miss)
    qed
  qed
qed

lemma carve_loop_result:
  "carve_loop bytes trusted_begin at_pos carved = Inr (fold add_new (names_from bytes trusted_begin at_pos) carved)"
proof (induction bytes trusted_begin at_pos carved rule: carve_loop.induct)
  case (1 bytes trusted_begin at_pos carved)
  show ?case
  proof (cases "at_pos + shortest_core \<le> length bytes")
    case False
    then show ?thesis by (subst carve_loop.simps, subst names_from.simps) (simp add: shortest_core_def)
  next
    case True
    let ?p = "first_header bytes at_pos"
    note find = FindNameHeader_first [of bytes at_pos]
    show ?thesis
    proof (cases "?p + shortest_core > length bytes")
      case stop: True
      then have "names_from bytes trusted_begin ?p = []" by (subst names_from.simps) (simp add: shortest_core_def)
      then have "names_from bytes trusted_begin at_pos = []" by (simp only: names_from_first)
      then show ?thesis using True stop find by (subst carve_loop.simps) simp
    next
      case False
      then have room: "?p + 4 \<le> length bytes" by (simp add: shortest_core_def)
      from ProbeAt_total [OF room] obtain r where r: "ProbeAt bytes ?p trusted_begin = Inr r" by blast
      show ?thesis
      proof (cases r)
        case None
        then have "carve_loop bytes trusted_begin at_pos carved = carve_loop bytes trusted_begin (?p + scan_step) carved"
          using True False find r by (subst carve_loop.simps) simp
        moreover have "names_from bytes trusted_begin ?p = names_from bytes trusted_begin (?p + 2)"
          using room r None by (subst names_from.simps) simp
        ultimately show ?thesis
          using 1(1) [OF True find False] r None by (simp add: names_from_first scan_step_def)
      next
        case (Some f)
        then have "carve_loop bytes trusted_begin at_pos carved =
            carve_loop bytes trusted_begin (f_end f) (add_new (f_name f) carved)"
          using True False find r by (subst carve_loop.simps) simp
        moreover have "names_from bytes trusted_begin ?p = f_name f # names_from bytes trusted_begin (f_end f)"
          using room r Some by (subst names_from.simps) simp
        ultimately show ?thesis
          using 1(2) [OF True find False] r Some by (simp add: names_from_first [symmetric, of _ _ at_pos])
      qed
    qed
  qed
qed

lemma CarveFrom_names:
  "CarveFrom bytes scan_begin trusted_begin =
     Inr (keep_new (names_from bytes trusted_begin ((scan_begin + 1) div 2 * 2)))"
  by (simp add: CarveFrom_def carve_loop_result keep_new_def)

section \<open>Each name once\<close>

lemma Ticks_unat: "unat (Ticks t) = unat (ft_low t) + 4294967296 * unat (ft_high t)"
proof -
  let ?h = "ucast (ft_high t) :: u64" and ?l = "ucast (ft_low t) :: u64"
  have h: "unat ?h = unat (ft_high t)" "unat ?l = unat (ft_low t)" 
    using unat_u32_bound [of "ft_high t"] unat_u32_bound [of "ft_low t"] by (simp_all add: unsigned_ucast_eq take_bit_eq_mod)
  have "push_bit 32 ?h AND ?l = 0"
  proof (rule bit_word_eqI)
    fix k
    show "bit (push_bit 32 ?h AND ?l) k \<longleftrightarrow> bit (0 :: u64) k" by (auto simp: bit_simps dest: bit_imp_le_length)
  qed
  then have "Ticks t = push_bit 32 ?h + ?l" unfolding Ticks_def by (rule disjunctive_add_eq_or [symmetric])
  moreover have "unat (push_bit 32 ?h) = 4294967296 * unat (ft_high t)"
    using unat_u32_bound [of "ft_high t"] h by (simp add: push_bit_eq_mult unat_u64_mult)
  ultimately show ?thesis
    using h unat_u32_bound [of "ft_high t"] unat_u32_bound [of "ft_low t"] by (simp add: unat_u64_add)
qed

lemma Ticks_inj: "Ticks a = Ticks b \<longleftrightarrow> a = b"
proof
  assume "Ticks a = Ticks b"
  then have eq: "unat (ft_low a) + 4294967296 * unat (ft_high a) = unat (ft_low b) + 4294967296 * unat (ft_high b)"
    by (simp only: Ticks_unat [symmetric])
  have "unat (ft_low a) < 4294967296" "unat (ft_low b) < 4294967296" by (rule unat_u32_bound)+
  then have parts: "(unat (ft_low t) + 4294967296 * unat (ft_high t)) mod 4294967296 = unat (ft_low t)"
      "(unat (ft_low t) + 4294967296 * unat (ft_high t)) div 4294967296 = unat (ft_high t)" if "t = a \<or> t = b" for t
    using that by auto
  have "unat (ft_low a) = unat (ft_low b) \<and> unat (ft_high a) = unat (ft_high b)"
    using parts [of a] parts [of b] unfolding eq by simp
  then show "a = b" by (simp add: word_unat_eq_iff)
qed simp

lemma SameCarvedName_eq: "SameCarvedName a b \<longleftrightarrow> a\<lparr>cn_source := source\<rparr> = b\<lparr>cn_source := source\<rparr>"
  by (cases a; cases b) (auto simp: SameCarvedName_def Ticks_inj)

lemma bind_r_InrE: "bind_r m f = Inr y \<Longrightarrow> (\<And>x. m = Inr x \<Longrightarrow> f x = Inr y \<Longrightarrow> thesis) \<Longrightarrow> thesis"
  by (auto simp: bind_r_eq_Inr)

lemma probe_fields_facts:
  assumes "probe_fields bytes at_pos trusted_begin units name_space end_pos = Inr (Some f)"
  defines "n \<equiv> f_name f"
  shows "cn_source n = RecordSlack \<and> cn_name n = Utf16ToWide_32 units \<and> cn_name_space n = name_space \<and>
    (cn_partial n \<longleftrightarrow> \<not> (cn_parent_known n \<and> cn_times_known n)) \<and>
    (cn_partial n \<longrightarrow> 5 \<le> length units) \<and>
    (cn_parent_known n \<longrightarrow> 0 < cn_parent_record n \<and> cn_parent_record n < first_impossible_parent) \<and>
    (cn_times_known n \<longrightarrow> (\<forall>t \<in> {cn_create_time n, cn_write_time n, cn_change_time n, cn_access_time n}.
       \<exists>ticks. IsPlausibleTime ticks \<and> t = ToFileTime ticks))"
proof -
  let ?blank = "blank_name\<lparr>cn_name_space := name_space\<rparr>"
  let ?timed = "if IsTrusted at_pos create_time_offset trusted_begin then ReadTimes bytes at_pos ?blank else Inr (Some ?blank)"
  let ?named = "\<lambda>m. if IsTrusted at_pos parent_ref_offset trusted_begin then ReadParent bytes at_pos m else Inr m"
  let ?last = "finish_name units (IsTrusted at_pos flags_offset trusted_begin) end_pos"
  let ?rest = "\<lambda>timed. case timed of None \<Rightarrow> Inr None | Some m \<Rightarrow> bind_r (?named m) (\<lambda>p. Inr (?last p))"
  obtain ok where ok: "(if \<not> ok then Inr None else bind_r ?timed ?rest) = Inr (Some f)"
    using assms(1) unfolding probe_fields_def Let_def by (rule bind_r_InrE)
  then have "ok" by (cases ok) simp_all
  with ok have "bind_r ?timed ?rest = Inr (Some f)" by simp
  then obtain timed where timed: "?timed = Inr timed" "?rest timed = Inr (Some f)" by (rule bind_r_InrE)
  then obtain m where m: "?timed = Inr (Some m)" "bind_r (?named m) (\<lambda>p. Inr (?last p)) = Inr (Some f)"
    by (cases timed) simp_all
  from m(2) obtain p where p: "?named m = Inr p" "?last p = Some f" by (rule bind_r_InrE) simp
  have n: "n = p\<lparr>cn_partial := (\<not> cn_parent_known p \<or> \<not> cn_times_known p), cn_name := Utf16ToWide_32 units\<rparr>"
    and short: "\<not> cn_parent_known p \<or> \<not> cn_times_known p \<longrightarrow> 5 \<le> length units"
    using p(2) by (auto simp: n_def finish_name_def Let_def min_partial_name_length_def split: if_splits)
  have m_facts: "cn_source m = RecordSlack \<and> cn_name_space m = name_space \<and> \<not> cn_parent_known m \<and>
      (cn_times_known m \<longrightarrow> (\<forall>t \<in> {cn_create_time m, cn_write_time m, cn_change_time m, cn_access_time m}.
         \<exists>ticks. IsPlausibleTime ticks \<and> t = ToFileTime ticks))"
    using m(1) by (auto simp: ReadTimes_def bind_r_eq_Inr blank_name_def split: if_splits)
  have "cn_source p = RecordSlack \<and> cn_name_space p = name_space \<and>
      (cn_parent_known p \<longrightarrow> 0 < cn_parent_record p \<and> cn_parent_record p < first_impossible_parent) \<and>
      (cn_times_known p \<longrightarrow> (\<forall>t \<in> {cn_create_time p, cn_write_time p, cn_change_time p, cn_access_time p}.
         \<exists>ticks. IsPlausibleTime ticks \<and> t = ToFileTime ticks))"
    using p(1) m_facts by (auto simp: ReadParent_def bind_r_eq_Inr Let_def word_gt_0 split: if_splits)
  then show ?thesis using short unfolding n by auto
qed

lemma ProbeAt_fields:
  assumes "ProbeAt bytes at_pos trusted_begin = Inr (Some f)"
  shows "\<exists>units. IsValidName units \<and> unat (bytes ! at_pos) = length units \<and>
    probe_fields bytes at_pos trusted_begin units (bytes ! (at_pos + 1)) (f_end f) = Inr (Some f)"
proof -
  from assms obtain units e where u: "load_units bytes (at_pos + 2) (unat (bytes ! at_pos)) = Inr units" "IsValidName units"
    "probe_fields bytes at_pos trusted_begin units (bytes ! (at_pos + 1)) e = Inr (Some f)"
    unfolding ProbeAt_def Let_def by (auto simp: bind_r_eq_Inr filename_offsets load_byte_def split: if_splits)
  from u(3) have "e = f_end f"
    unfolding probe_fields_def finish_name_def Let_def by (auto simp: bind_r_eq_Inr split: if_splits option.splits)
  then show ?thesis using u by (auto simp: load_units_def split: if_splits)
qed

lemma names_from_sources: "n \<in> set (names_from bytes trusted_begin at_pos) \<Longrightarrow> cn_source n = RecordSlack"
proof (induction bytes trusted_begin at_pos rule: names_from.induct)
  case (1 bytes trusted_begin at_pos)
  show ?case
  proof (cases "length bytes < at_pos + 4")
    case True
    then show ?thesis using 1(4) by (subst (asm) names_from.simps) simp
  next
    case False
    then obtain r where r: "ProbeAt bytes at_pos trusted_begin = Inr r" using ProbeAt_total by (meson not_less)
    show ?thesis
    proof (cases r)
      case None
      then have "n \<in> set (names_from bytes trusted_begin (at_pos + 2))"
        using 1(4) False r by (subst (asm) names_from.simps) simp
      then show ?thesis using 1(2) [OF False r None] by simp
    next
      case (Some f)
      then have "n = f_name f \<or> n \<in> set (names_from bytes trusted_begin (f_end f))"
        using 1(4) False r by (subst (asm) names_from.simps) simp
      then show ?thesis
        using 1(3) [OF False r Some] ProbeAt_fields probe_fields_facts r Some by metis
    qed
  qed
qed

lemma keep_new_first:
  assumes "\<forall>n \<in> set names. cn_source n = RecordSlack"
  shows "keep_new names = rev (remdups (rev names))"
  using assms
proof (induction names rule: rev_induct)
  case (snoc n names)
  then have ih: "fold add_new names [] = rev (remdups (rev names))" by (simp add: keep_new_def)
  have "SameCarvedName m n \<longleftrightarrow> m = n" if "m \<in> set names" for m
  proof -
    have "m\<lparr>cn_source := RecordSlack\<rparr> = m" "n\<lparr>cn_source := RecordSlack\<rparr> = n" using snoc.prems that by auto
    then show ?thesis using SameCarvedName_eq [of m n RecordSlack] by simp
  qed
  then have "list_all (\<lambda>seen. \<not> SameCarvedName seen n) (rev (remdups (rev names))) \<longleftrightarrow> n \<notin> set names"
    by (auto simp: list_all_iff)
  then show ?case by (simp add: keep_new_def ih add_new_def)
qed (simp add: keep_new_def)

text \<open>
  C39. The carver reports, for every record and every place to start from, exactly the names a
  plain scan finds that tests every even offset and jumps past each name it accepts: in the order
  they sit in the bytes, each once. It always ends, and never reads outside the bytes.
\<close>

theorem carve_exact:
  "CarveFrom bytes scan_begin trusted_begin =
     Inr (rev (remdups (rev (names_from bytes trusted_begin ((scan_begin + 1) div 2 * 2)))))"
  unfolding CarveFrom_names using names_from_sources by (subst keep_new_first) auto

section \<open>What is left alone\<close>

text \<open>Two spans agree from an offset on.\<close>

definition agree_from :: "nat \<Rightarrow> byte list \<Rightarrow> byte list \<Rightarrow> bool" where
  "agree_from b xs ys \<longleftrightarrow> length xs = length ys \<and> drop b xs = drop b ys"

lemma agree_drop:
  assumes "agree_from b xs ys" "b \<le> p"
  shows "drop p xs = drop p ys"
proof -
  have "drop p zs = drop (p - b) (drop b zs)" for zs :: "byte list" using assms(2) by simp
  then show ?thesis using assms(1) by (metis agree_from_def)
qed

lemma agree_nth: "agree_from b xs ys \<Longrightarrow> b \<le> p \<Longrightarrow> p < length xs \<Longrightarrow> xs ! p = ys ! p"
  using agree_drop [of b xs ys p] by (metis agree_from_def hd_drop_conv_nth)

lemma agree_length: "agree_from b xs ys \<Longrightarrow> length xs = length ys"
  by (simp add: agree_from_def)

lemma agree_load:
  assumes "agree_from b xs ys" "b \<le> p"
  shows "load_byte xs p = load_byte ys p" "load_u32 xs p = load_u32 ys p" "load_u64 xs p = load_u64 ys p"
    "load_units xs p n = load_units ys p n"
proof -
  show "load_byte xs p = load_byte ys p"
    using assms agree_nth [OF assms] by (simp add: load_byte_def agree_from_def)
  show "load_u32 xs p = load_u32 ys p" "load_u64 xs p = load_u64 ys p"
    using agree_drop [OF assms] agree_length [OF assms(1)]
    by (simp_all add: load_u32_def load_u64_def u32_at_def u64_at_def read_le_def)
  have "u16_at xs (p + 2 * i) = u16_at ys (p + 2 * i)" for i
    using agree_drop [OF assms(1), of "p + 2 * i"] assms(2) by (simp add: u16_at_def read_le_def)
  then show "load_units xs p n = load_units ys p n" using agree_length [OF assms(1)] by (simp add: load_units_def)
qed

lemma agree_field:
  assumes "agree_from b xs ys" "b \<le> trusted_begin" "IsTrusted at_pos field_offset trusted_begin"
  shows "load_field xs at_pos field_offset = load_field ys at_pos field_offset"
    "bind_r (FieldAt at_pos field_offset) (load_u32 xs) = bind_r (FieldAt at_pos field_offset) (load_u32 ys)"
proof -
  from FieldAt_trusted [OF assms(3)] obtain p where "FieldAt at_pos field_offset = Inr p" "trusted_begin \<le> p" by blast
  then show "load_field xs at_pos field_offset = load_field ys at_pos field_offset"
    "bind_r (FieldAt at_pos field_offset) (load_u32 xs) = bind_r (FieldAt at_pos field_offset) (load_u32 ys)"
    using agree_load [OF assms(1), of p] assms(2) by (simp_all add: load_field_def)
qed

lemma ProbeAt_agree:
  assumes "agree_from b xs ys" "b \<le> trusted_begin" "b \<le> at_pos"
  shows "ProbeAt xs at_pos trusted_begin = ProbeAt ys at_pos trusted_begin"
proof -
  note field = agree_field [OF assms(1,2)]
  have times: "ReadTimes xs at_pos n = ReadTimes ys at_pos n" if "IsTrusted at_pos create_time_offset trusted_begin" for n
    unfolding ReadTimes_def field(1) [OF that] field(1) [OF trusted_times(1) [OF that]]
      field(1) [OF trusted_times(2) [OF that]] field(1) [OF trusted_times(3) [OF that]] ..
  have parent: "ReadParent xs at_pos n = ReadParent ys at_pos n" if "IsTrusted at_pos parent_ref_offset trusted_begin" for n
    unfolding ReadParent_def field(1) [OF that] ..
  have flags: "(if IsTrusted at_pos flags_offset trusted_begin
        then bind_r (bind_r (FieldAt at_pos flags_offset) (load_u32 xs)) k else r) =
      (if IsTrusted at_pos flags_offset trusted_begin
        then bind_r (bind_r (FieldAt at_pos flags_offset) (load_u32 ys)) k else r)" for k :: "u32 \<Rightarrow> carve_error + bool" and r
    using field(2) [of at_pos flags_offset] by auto
  have fields: "probe_fields xs at_pos trusted_begin = probe_fields ys at_pos trusted_begin"
    unfolding fun_eq_iff probe_fields_def Let_def flags using times parent by (simp cong: if_cong)
  have le: "b \<le> at_pos + 1" "b \<le> at_pos + (name_offset - name_length_offset)" using assms(3) by simp_all
  show ?thesis
    unfolding ProbeAt_def Let_def agree_load(1) [OF assms(1,3)] agree_load(1) [OF assms(1) le(1)]
      agree_load(4) [OF assms(1) le(2)] agree_length [OF assms(1)] fields ..
qed

lemma names_from_agree:
  "agree_from b xs ys \<Longrightarrow> b \<le> trusted_begin \<Longrightarrow> b \<le> at_pos \<Longrightarrow>
     names_from xs trusted_begin at_pos = names_from ys trusted_begin at_pos"
proof (induction xs trusted_begin at_pos rule: names_from.induct)
  case (1 xs t at_pos)
  note same = ProbeAt_agree [OF 1(4-6)]
  have len: "length ys = length xs" using 1(4) by (simp add: agree_from_def)
  show ?case
  proof (cases "length xs < at_pos + 4")
    case True
    then show ?thesis using len by (subst (1 2) names_from.simps) simp
  next
    case False
    then obtain r where r: "ProbeAt xs at_pos t = Inr r" using ProbeAt_total by (meson not_less)
    show ?thesis
    proof (cases r)
      case None
      have "names_from xs t (at_pos + 2) = names_from ys t (at_pos + 2)"
        using 1(2) [OF False r None 1(4,5)] 1(6) by simp
      then show ?thesis using False len r None same by (subst (1 2) names_from.simps) simp
    next
      case (Some f)
      have "b \<le> f_end f" using ProbeAt_end r Some 1(6) by fastforce
      then have "names_from xs t (f_end f) = names_from ys t (f_end f)"
        using 1(3) [OF False r Some 1(4,5)] by simp
      then show ?thesis using False len r Some same by (subst (1 2) names_from.simps) simp
    qed
  qed
qed

text \<open>
  Nothing before the leftover bytes is read: two containers of one size whose bytes agree from
  the first leftover byte on give the same candidates, whatever the live part holds. So do two
  records that agree from the end of the end marker on.
\<close>

theorem carve_ignores_live_part:
  assumes "length xs = length ys"
  shows "(drop slack_begin xs = drop slack_begin ys \<longrightarrow>
      CarveFileNamesFrom xs slack_begin source = CarveFileNamesFrom ys slack_begin source) \<and>
    (drop (marker + 4) xs = drop (marker + 4) ys \<longrightarrow> CarveFileNames xs marker = CarveFileNames ys marker)"
proof (intro conjI impI)
  have even_up: "b \<le> (b + 1) div 2 * 2" for b :: nat by linarith
  show "CarveFileNamesFrom xs slack_begin source = CarveFileNamesFrom ys slack_begin source"
    if "drop slack_begin xs = drop slack_begin ys"
  proof -
    have "agree_from slack_begin xs ys" using assms that by (simp add: agree_from_def)
    then show ?thesis
      using names_from_agree [OF _ order_refl even_up] assms by (simp add: CarveFileNamesFrom_def CarveFrom_names)
  qed
  show "CarveFileNames xs marker = CarveFileNames ys marker" if "drop (marker + 4) xs = drop (marker + 4) ys"
  proof (cases "marker > length xs \<or> length xs - marker < end_marker_size")
    case True
    then show ?thesis using assms by (simp add: CarveFileNames_def)
  next
    case False
    have agree: "agree_from (marker + 4) xs ys" using assms that by (simp add: agree_from_def)
    have "marker + 4 \<le> min (marker + live_terminator_size) (length xs)"
      using False by (auto simp: end_marker_size_def live_terminator_size_def)
    from names_from_agree [OF agree this even_up] show ?thesis
      using False assms by (simp add: CarveFileNames_def CarveFrom_names end_marker_size_def)
  qed
qed

section \<open>A name left whole\<close>

text \<open>The bytes of a $FILE_NAME; \<open>sizes\<close> and \<open>er\<close> are the fields the carver does not read.\<close>

record file_name =
  fn_parent :: u64
  fn_create :: u64
  fn_alter :: u64
  fn_mft :: u64
  fn_read :: u64
  fn_sizes :: "byte list"
  fn_flags :: u32
  fn_er :: "byte list"
  fn_space :: byte
  fn_units :: "u16 list"

definition filename_bytes :: "file_name \<Rightarrow> byte list" where
  "filename_bytes n =
     to_le 8 (unat (fn_parent n)) @ to_le 8 (unat (fn_create n)) @ to_le 8 (unat (fn_alter n)) @ to_le 8 (unat (fn_mft n)) @
     to_le 8 (unat (fn_read n)) @ fn_sizes n @ to_le 4 (unat (fn_flags n)) @ fn_er n @
     [of_nat (length (fn_units n)), fn_space n] @ concat (map (\<lambda>u. to_le 2 (unat u)) (fn_units n))"

definition plausible_name :: "file_name \<Rightarrow> bool" where
  "plausible_name n \<longleftrightarrow>
     length (fn_sizes n) = 16 \<and> length (fn_er n) = 4 \<and> fn_space n \<le> 3 \<and> fn_units n \<noteq> [] \<and> length (fn_units n) \<le> 255 \<and>
     IsValidName (fn_units n) \<and> fn_flags n AND NOT known_flag_bits = 0 \<and>
     list_all IsPlausibleTime [fn_create n, fn_alter n, fn_mft n, fn_read n] \<and>
     0 < fn_parent n AND mft_record_number_mask \<and> fn_parent n AND mft_record_number_mask < first_impossible_parent"

definition carved_from :: "file_name \<Rightarrow> carved_name" where
  "carved_from n =
     \<lparr>cn_name = Utf16ToWide_32 (fn_units n), cn_parent_record = fn_parent n AND mft_record_number_mask,
      cn_parent_sequence = ucast (drop_bit mft_sequence_shift (fn_parent n)), cn_parent_known = True,
      cn_create_time = ToFileTime (fn_create n), cn_write_time = ToFileTime (fn_alter n),
      cn_change_time = ToFileTime (fn_mft n), cn_access_time = ToFileTime (fn_read n), cn_times_known = True,
      cn_name_space = fn_space n, cn_partial = False, cn_source = RecordSlack\<rparr>"

lemma probe_whole_name:
  assumes ok: "plausible_name n"
  shows "ProbeAt (pre @ filename_bytes n @ post) (length pre + 64) (length pre) =
    Inr (Some \<lparr>f_name = carved_from n, f_end = length pre + length (filename_bytes n)\<rparr>)"
proof -
  define xs where "xs = pre @ filename_bytes n @ post"
  define p where "p = length pre"
  define chars where "chars = concat (map (\<lambda>u. to_le 2 (unat u)) (fn_units n))"
  have sizes: "length (fn_sizes n) = 16" "length (fn_er n) = 4" "length (fn_units n) \<le> 255" "fn_units n \<noteq> []"
    using ok by (simp_all add: plausible_name_def)
  have chars: "length chars = 2 * length (fn_units n)" by (simp add: chars_def length_units_bytes)
  have len: "length (filename_bytes n) = 66 + 2 * length (fn_units n)"
    unfolding filename_bytes_def chars_def [symmetric] using sizes chars by simp
  have xs: "xs = pre @ to_le 8 (unat (fn_parent n)) @ to_le 8 (unat (fn_create n)) @ to_le 8 (unat (fn_alter n)) @
      to_le 8 (unat (fn_mft n)) @ to_le 8 (unat (fn_read n)) @ fn_sizes n @ to_le 4 (unat (fn_flags n)) @ fn_er n @
      [of_nat (length (fn_units n)), fn_space n] @ chars @ post"
    by (simp add: xs_def filename_bytes_def chars_def)
  have room: "p + 66 + 2 * length (fn_units n) \<le> length xs" by (simp add: xs_def p_def len)
  have parent: "u64_at xs p = fn_parent n" by (rule u64_field [of _ pre]) (simp_all add: xs p_def)
  have create: "u64_at xs (p + 8) = fn_create n"
    by (rule u64_field [of _ "pre @ to_le 8 (unat (fn_parent n))"]) (simp_all add: xs p_def)
  have alter: "u64_at xs (p + 16) = fn_alter n"
    by (rule u64_field [of _ "pre @ to_le 8 (unat (fn_parent n)) @ to_le 8 (unat (fn_create n))"]) (simp_all add: xs p_def)
  have mft: "u64_at xs (p + 24) = fn_mft n"
    by (rule u64_field [of _ "pre @ to_le 8 (unat (fn_parent n)) @ to_le 8 (unat (fn_create n)) @ to_le 8 (unat (fn_alter n))"])
      (simp_all add: xs p_def)
  have read: "u64_at xs (p + 32) = fn_read n"
    by (rule u64_field [of _ "pre @ to_le 8 (unat (fn_parent n)) @ to_le 8 (unat (fn_create n)) @ to_le 8 (unat (fn_alter n)) @
        to_le 8 (unat (fn_mft n))"]) (simp_all add: xs p_def)
  have flags: "u32_at xs (p + 56) = fn_flags n"
    by (rule u32_field [of _ "pre @ to_le 8 (unat (fn_parent n)) @ to_le 8 (unat (fn_create n)) @ to_le 8 (unat (fn_alter n)) @
        to_le 8 (unat (fn_mft n)) @ to_le 8 (unat (fn_read n)) @ fn_sizes n"]) (simp_all add: xs p_def sizes)
  define before where "before = pre @ to_le 8 (unat (fn_parent n)) @ to_le 8 (unat (fn_create n)) @
      to_le 8 (unat (fn_alter n)) @ to_le 8 (unat (fn_mft n)) @ to_le 8 (unat (fn_read n)) @ fn_sizes n @
      to_le 4 (unat (fn_flags n)) @ fn_er n"
  have bl: "length before = p + 64" by (simp add: before_def p_def sizes)
  have split: "xs = before @ of_nat (length (fn_units n)) # fn_space n # chars @ post" by (simp add: xs before_def)
  have len_byte: "xs ! (p + 64) = of_nat (length (fn_units n))" "xs ! (p + 65) = fn_space n"
    unfolding split using bl by (simp_all add: nth_append)
  have units: "map (\<lambda>i. u16_at xs (p + 66 + 2 * i)) [0..<length (fn_units n)] = fn_units n"
    by (rule units_field [of _ "before @ [of_nat (length (fn_units n)), fn_space n]" _ post])
      (simp_all add: split chars_def bl)
  have count: "unat (of_nat (length (fn_units n)) :: byte) = length (fn_units n)" using sizes(3) by (simp add: unat_of_nat)
  then have nonzero: "(of_nat (length (fn_units n)) :: byte) \<noteq> 0" using sizes(4) by (metis length_0_conv unat_0)
  have trusted: "IsTrusted (p + 64) field p" if "field \<le> 64" for field
    using that by (simp add: IsTrusted_def name_length_offset_def)
  have at: "FieldAt (p + 64) field = Inr (p + field)" if "field \<le> 64" for field
    using that by (simp add: FieldAt_def name_length_offset_def)
  have fields: "load_field xs (p + 64) 0 = Inr (fn_parent n)" "load_field xs (p + 64) 8 = Inr (fn_create n)"
    "load_field xs (p + 64) 16 = Inr (fn_alter n)" "load_field xs (p + 64) 24 = Inr (fn_mft n)"
    "load_field xs (p + 64) 32 = Inr (fn_read n)"
    using room by (simp_all add: load_field_def at load_u64_def parent create alter mft read)
  have flags_ok: "bind_r (FieldAt (p + 64) 56) (load_u32 xs) = Inr (fn_flags n)"
    using room by (simp add: at load_u32_def flags)
  have "probe_fields xs (p + 64) p (fn_units n) (fn_space n) e = Inr (Some \<lparr>f_name = carved_from n, f_end = e\<rparr>)" for e
    using ok
    by (simp add: probe_fields_def Let_def trusted flags_ok plausible_name_def ReadTimes_def ReadParent_def fields
        finish_name_def blank_name_def carved_from_def word_gt_0 not_le filename_offsets(1-6))
  moreover have "IsNameHeader (of_nat (length (fn_units n))) (fn_space n)" "IsValidName (fn_units n)"
    using ok nonzero by (simp_all add: IsNameHeader_def max_name_space_def plausible_name_def)
  ultimately show ?thesis
    using room units count unfolding xs_def [symmetric] p_def [symmetric] len
    by (simp add: ProbeAt_def load_byte_def len_byte Let_def load_units_def name_offset_def name_length_offset_def
        mult.commute add.commute)
qed

text \<open>
  C36. A $FILE_NAME that lies whole in the leftover bytes, with fields a live one can have, is
  recognised with exactly its name, parent reference, times and namespace, and the scan goes on
  right after its last character.
\<close>

theorem probe_reads_back:
  assumes "plausible_name n"
  shows "ProbeAt (live @ filename_bytes n @ rest) (length live + 64) (length live) =
    Inr (Some \<lparr>f_name = carved_from n, f_end = length live + length (filename_bytes n)\<rparr>)"
  by (rule probe_whole_name [OF assms])

section \<open>Candidates\<close>

definition carved_ok :: "carved_name \<Rightarrow> bool" where
  "carved_ok n \<longleftrightarrow>
     (cn_partial n \<longleftrightarrow> \<not> (cn_parent_known n \<and> cn_times_known n)) \<and> cn_name_space n \<le> max_name_space \<and>
     (cn_parent_known n \<longrightarrow> 0 < cn_parent_record n \<and> cn_parent_record n < first_impossible_parent) \<and>
     (cn_times_known n \<longrightarrow>
        list_all (IsPlausibleTime \<circ> Ticks) [cn_create_time n, cn_write_time n, cn_change_time n, cn_access_time n]) \<and>
     (\<exists>units. IsValidName units \<and> cn_name n = Utf16ToWide_32 units \<and> 0 < length units \<and> length units \<le> 255 \<and>
        (cn_partial n \<longrightarrow> 5 \<le> length units))"

lemma Ticks_ToFileTime: "Ticks (ToFileTime v) = v"
proof (rule unat_u64_inj)
  have l: "unat (ucast v :: u32) = unat v mod 4294967296" by (simp add: unsigned_ucast_eq take_bit_eq_mod)
  have "unat (drop_bit 32 v) = unat v div 4294967296" unfolding drop_bit_eq_div by (simp add: unat_div)
  moreover have "unat v div 4294967296 < 4294967296" using unat_u64_bound [of v] by simp
  ultimately have "unat (ucast (drop_bit 32 v) :: u32) = unat v div 4294967296"
    by (simp add: unsigned_ucast_eq take_bit_eq_mod)
  with l show "unat (Ticks (ToFileTime v)) = unat v" by (simp add: Ticks_unat ToFileTime_def)
qed

lemma ProbeAt_ok:
  assumes probe: "ProbeAt bytes at_pos trusted_begin = Inr (Some f)" and room: "at_pos + 4 \<le> length bytes"
  shows "carved_ok (f_name f)"
proof -
  from ProbeAt_fields [OF probe] obtain units where u: "IsValidName units" "unat (bytes ! at_pos) = length units"
    "probe_fields bytes at_pos trusted_begin units (bytes ! (at_pos + 1)) (f_end f) = Inr (Some f)" by blast
  have header: "IsNameHeader (bytes ! at_pos) (bytes ! (at_pos + 1))"
    using not_header_no_name [OF room, of trusted_begin] probe by fastforce
  then have len: "0 < length units" using u(2) by (simp add: IsNameHeader_def unat_gt_0 flip: u(2))
  have le: "length units \<le> 255" using unat_byte_bound [of "bytes ! at_pos"] u(2) by simp
  show ?thesis
    using probe_fields_facts [OF u(3)] u(1) header len le
    by (auto simp: carved_ok_def IsNameHeader_def Ticks_ToFileTime)
qed

lemma names_from_ok: "list_all carved_ok (names_from bytes trusted_begin at_pos)"
proof (induction bytes trusted_begin at_pos rule: names_from.induct)
  case (1 bytes trusted_begin at_pos)
  show ?case
  proof (cases "length bytes < at_pos + 4")
    case True
    then show ?thesis by (subst names_from.simps) simp
  next
    case False
    then have room: "at_pos + 4 \<le> length bytes" by simp
    from ProbeAt_total [OF this] obtain r where r: "ProbeAt bytes at_pos trusted_begin = Inr r" by blast
    show ?thesis
    proof (cases r)
      case None
      then show ?thesis using 1(2) [OF False r None] False r by (subst names_from.simps) simp
    next
      case (Some f)
      then show ?thesis using 1(3) [OF False r Some] False r ProbeAt_ok [OF _ room] by (subst names_from.simps) simp
    qed
  qed
qed

lemma restamp_inj: "a\<lparr>cn_source := s\<rparr> = b\<lparr>cn_source := s\<rparr> \<Longrightarrow> cn_source a = cn_source b \<Longrightarrow> a = b"
  by (cases a; cases b) simp

text \<open>
  Every candidate CarveFileNamesFrom() reports, whatever the bytes: it is stamped with the
  source and no two are the same; its name is valid UTF-16 of 1 to 255 units without control
  characters or separators, and of 5 or more when the parent or the times are missing; a known parent
  is a possible record number and known times lie between 1980 and 2100.
\<close>

theorem carved_names_plausible:
  "CarveFileNamesFrom bytes slack_begin source = Inr carved \<Longrightarrow>
     distinct carved \<and> (\<forall>n \<in> set carved. carved_ok n \<and> cn_source n = source)"
proof -
  assume run: "CarveFileNamesFrom bytes slack_begin source = Inr carved"
  show "distinct carved \<and> (\<forall>n \<in> set carved. carved_ok n \<and> cn_source n = source)"
  proof (cases "slack_begin > length bytes")
    case True
    then show ?thesis using run by (auto simp: CarveFileNamesFrom_def)
  next
    case False
    let ?names = "names_from bytes slack_begin ((slack_begin + 1) div 2 * 2)"
    let ?stamp = "\<lambda>n. n\<lparr>cn_source := source\<rparr>"
    have carved: "carved = map ?stamp (rev (remdups (rev ?names)))"
      using run False keep_new_first [of ?names] names_from_sources
      by (auto simp: CarveFileNamesFrom_def CarveFrom_names)
    have "inj_on ?stamp (set ?names)"
    proof (rule inj_onI)
      fix a b
      assume "a \<in> set ?names" "b \<in> set ?names" "?stamp a = ?stamp b"
      moreover from this(1,2) have "cn_source a = cn_source b" using names_from_sources by metis
      ultimately show "a = b" using restamp_inj by blast
    qed
    moreover have "carved_ok (?stamp n) \<longleftrightarrow> carved_ok n" for n by (simp add: carved_ok_def)
    ultimately show ?thesis using names_from_ok [of bytes slack_begin] by (auto simp: carved distinct_map list_all_iff)
  qed
qed

section \<open>Leftovers the theorems apply to\<close>

definition sample_file_name :: file_name where
  "sample_file_name = \<lparr>fn_parent = 0x0003000000000005, fn_create = 0x01D0000000000000, fn_alter = 0x01D0000000000001,
     fn_mft = 0x01D0000000000002, fn_read = 0x01D0000000000003, fn_sizes = replicate 16 0, fn_flags = 0x20,
     fn_er = replicate 4 0, fn_space = 1, fn_units = [0x61, 0x2E, 0x62]\<rparr>"

lemma sample_plausible: "plausible_name sample_file_name"
  by (simp add: plausible_name_def sample_file_name_def known_flag_bits_def IsPlausibleTime_def min_plausible_time_def
      max_plausible_time_def mft_record_number_mask_def first_impossible_parent_def IsHighSurrogate_def IsLowSurrogate_def
      IsNameUnit_def IsC0Control_def IsDeleteOrC1Control_def IsPathSeparator_def IsNoncharacter_def)

lemma probe_reads_back_witness:
  "ProbeAt ([1, 2, 3] @ filename_bytes sample_file_name @ [0]) 67 3 =
     Inr (Some \<lparr>f_name = carved_from sample_file_name, f_end = 75\<rparr>)"
proof -
  have "length (filename_bytes sample_file_name) = 72" by (simp add: filename_bytes_def sample_file_name_def)
  then show ?thesis
    using probe_reads_back [OF sample_plausible, of "[1, 2, 3]" "[0]"] by (simp add: numeral_eq_Suc)
qed

lemma carve_ignores_live_part_witness:
  "CarveFileNamesFrom ([1, 2] @ filename_bytes sample_file_name) 2 IndexSlack =
     CarveFileNamesFrom ([9, 9] @ filename_bytes sample_file_name) 2 IndexSlack"
  using carve_ignores_live_part
    [of "[1, 2] @ filename_bytes sample_file_name" "[9, 9] @ filename_bytes sample_file_name" 2 IndexSlack 0]
  by simp

lemma carved_names_plausible_witness:
  "\<exists>carved. CarveFileNamesFrom (filename_bytes sample_file_name) 0 IndexSlack = Inr carved \<and> distinct carved \<and>
     list_all carved_ok carved"
proof -
  obtain carved where c: "CarveFileNamesFrom (filename_bytes sample_file_name) 0 IndexSlack = Inr carved"
    by (simp add: CarveFileNamesFrom_def CarveFrom_names)
  from carved_names_plausible [OF c] c show ?thesis by (auto simp: list_all_iff)
qed

end
