(* ===== verification/UpCaseRuns.thy ===== *)
theory UpCaseRuns
  imports NtfsPrelude
begin

text \<open>
  The compiled-in uppercase mapping of src/upcase/upcase.cpp: the runs of code units, as the source
  lists them, and the facts about them that evaluation establishes: every run has a step, its images
  are UTF-16 units, and no image is itself mapped. The list is cut into blocks of nineteen runs, so
  that the last fact is checked against the blocks an image can fall into only.
\<close>

section \<open>Model\<close>

text \<open>UpCaseRun: first and last unit, step, and the distance to the upper case.\<close>

datatype upcase_run = UpCaseRun (ur_first: u16) (ur_last: u16) (ur_step: byte) (ur_delta: int)

definition runs_1 :: "upcase_run list" where
  "runs_1 =
    [UpCaseRun 0x0061 0x007A 1 (- 32), UpCaseRun 0x00B5 0x00B5 1 743, UpCaseRun 0x00E0 0x00F6 1 (- 32),
     UpCaseRun 0x00F8 0x00FE 1 (- 32), UpCaseRun 0x00FF 0x00FF 1 121, UpCaseRun 0x0101 0x012F 2 (- 1),
     UpCaseRun 0x0131 0x0131 1 (- 232), UpCaseRun 0x0133 0x0137 2 (- 1), UpCaseRun 0x013A 0x0148 2 (- 1),
     UpCaseRun 0x014B 0x0177 2 (- 1), UpCaseRun 0x017A 0x017E 2 (- 1), UpCaseRun 0x017F 0x017F 1 (- 300),
     UpCaseRun 0x0180 0x0180 1 195, UpCaseRun 0x0183 0x0185 2 (- 1), UpCaseRun 0x0188 0x0188 1 (- 1),
     UpCaseRun 0x018C 0x018C 1 (- 1), UpCaseRun 0x0192 0x0192 1 (- 1), UpCaseRun 0x0195 0x0195 1 97,
     UpCaseRun 0x0199 0x0199 1 (- 1)]"

definition runs_2 :: "upcase_run list" where
  "runs_2 =
    [UpCaseRun 0x019A 0x019A 1 163, UpCaseRun 0x019E 0x019E 1 130, UpCaseRun 0x01A1 0x01A5 2 (- 1),
     UpCaseRun 0x01A8 0x01A8 1 (- 1), UpCaseRun 0x01AD 0x01AD 1 (- 1), UpCaseRun 0x01B0 0x01B0 1 (- 1),
     UpCaseRun 0x01B4 0x01B6 2 (- 1), UpCaseRun 0x01B9 0x01B9 1 (- 1), UpCaseRun 0x01BD 0x01BD 1 (- 1),
     UpCaseRun 0x01BF 0x01BF 1 56, UpCaseRun 0x01C5 0x01C5 1 (- 1), UpCaseRun 0x01C6 0x01C6 1 (- 2),
     UpCaseRun 0x01C8 0x01C8 1 (- 1), UpCaseRun 0x01C9 0x01C9 1 (- 2), UpCaseRun 0x01CB 0x01CB 1 (- 1),
     UpCaseRun 0x01CC 0x01CC 1 (- 2), UpCaseRun 0x01CE 0x01DC 2 (- 1), UpCaseRun 0x01DD 0x01DD 1 (- 79),
     UpCaseRun 0x01DF 0x01EF 2 (- 1)]"

definition runs_3 :: "upcase_run list" where
  "runs_3 =
    [UpCaseRun 0x01F2 0x01F2 1 (- 1), UpCaseRun 0x01F3 0x01F3 1 (- 2), UpCaseRun 0x01F5 0x01F5 1 (- 1),
     UpCaseRun 0x01F9 0x021F 2 (- 1), UpCaseRun 0x0223 0x0233 2 (- 1), UpCaseRun 0x023C 0x023C 1 (- 1),
     UpCaseRun 0x023F 0x0240 1 10815, UpCaseRun 0x0242 0x0242 1 (- 1), UpCaseRun 0x0247 0x024F 2 (- 1),
     UpCaseRun 0x0250 0x0250 1 10783, UpCaseRun 0x0251 0x0251 1 10780, UpCaseRun 0x0252 0x0252 1 10782,
     UpCaseRun 0x0253 0x0253 1 (- 210), UpCaseRun 0x0254 0x0254 1 (- 206), UpCaseRun 0x0256 0x0257 1 (- 205),
     UpCaseRun 0x0259 0x0259 1 (- 202), UpCaseRun 0x025B 0x025B 1 (- 203), UpCaseRun 0x025C 0x025C 1 42319,
     UpCaseRun 0x0260 0x0260 1 (- 205)]"

definition runs_4 :: "upcase_run list" where
  "runs_4 =
    [UpCaseRun 0x0261 0x0261 1 42315, UpCaseRun 0x0263 0x0263 1 (- 207), UpCaseRun 0x0265 0x0265 1 42280,
     UpCaseRun 0x0266 0x0266 1 42308, UpCaseRun 0x0268 0x0268 1 (- 209), UpCaseRun 0x0269 0x0269 1 (- 211),
     UpCaseRun 0x026A 0x026A 1 42308, UpCaseRun 0x026B 0x026B 1 10743, UpCaseRun 0x026C 0x026C 1 42305,
     UpCaseRun 0x026F 0x026F 1 (- 211), UpCaseRun 0x0271 0x0271 1 10749, UpCaseRun 0x0272 0x0272 1 (- 213),
     UpCaseRun 0x0275 0x0275 1 (- 214), UpCaseRun 0x027D 0x027D 1 10727, UpCaseRun 0x0280 0x0280 1 (- 218),
     UpCaseRun 0x0282 0x0282 1 42307, UpCaseRun 0x0283 0x0283 1 (- 218), UpCaseRun 0x0287 0x0287 1 42282,
     UpCaseRun 0x0288 0x0288 1 (- 218)]"

definition runs_5 :: "upcase_run list" where
  "runs_5 =
    [UpCaseRun 0x0289 0x0289 1 (- 69), UpCaseRun 0x028A 0x028B 1 (- 217), UpCaseRun 0x028C 0x028C 1 (- 71),
     UpCaseRun 0x0292 0x0292 1 (- 219), UpCaseRun 0x029D 0x029D 1 42261, UpCaseRun 0x029E 0x029E 1 42258,
     UpCaseRun 0x0345 0x0345 1 84, UpCaseRun 0x0371 0x0373 2 (- 1), UpCaseRun 0x0377 0x0377 1 (- 1),
     UpCaseRun 0x037B 0x037D 1 130, UpCaseRun 0x03AC 0x03AC 1 (- 38), UpCaseRun 0x03AD 0x03AF 1 (- 37),
     UpCaseRun 0x03B1 0x03C1 1 (- 32), UpCaseRun 0x03C2 0x03C2 1 (- 31), UpCaseRun 0x03C3 0x03CB 1 (- 32),
     UpCaseRun 0x03CC 0x03CC 1 (- 64), UpCaseRun 0x03CD 0x03CE 1 (- 63), UpCaseRun 0x03D0 0x03D0 1 (- 62),
     UpCaseRun 0x03D1 0x03D1 1 (- 57)]"

definition runs_6 :: "upcase_run list" where
  "runs_6 =
    [UpCaseRun 0x03D5 0x03D5 1 (- 47), UpCaseRun 0x03D6 0x03D6 1 (- 54), UpCaseRun 0x03D7 0x03D7 1 (- 8),
     UpCaseRun 0x03D9 0x03EF 2 (- 1), UpCaseRun 0x03F0 0x03F0 1 (- 86), UpCaseRun 0x03F1 0x03F1 1 (- 80),
     UpCaseRun 0x03F2 0x03F2 1 7, UpCaseRun 0x03F3 0x03F3 1 (- 116), UpCaseRun 0x03F5 0x03F5 1 (- 96),
     UpCaseRun 0x03F8 0x03F8 1 (- 1), UpCaseRun 0x03FB 0x03FB 1 (- 1), UpCaseRun 0x0430 0x044F 1 (- 32),
     UpCaseRun 0x0450 0x045F 1 (- 80), UpCaseRun 0x0461 0x0481 2 (- 1), UpCaseRun 0x048B 0x04BF 2 (- 1),
     UpCaseRun 0x04C2 0x04CE 2 (- 1), UpCaseRun 0x04CF 0x04CF 1 (- 15), UpCaseRun 0x04D1 0x052F 2 (- 1),
     UpCaseRun 0x0561 0x0586 1 (- 48)]"

definition runs_7 :: "upcase_run list" where
  "runs_7 =
    [UpCaseRun 0x10D0 0x10FA 1 3008, UpCaseRun 0x10FD 0x10FF 1 3008, UpCaseRun 0x13F8 0x13FD 1 (- 8),
     UpCaseRun 0x1C80 0x1C80 1 (- 6254), UpCaseRun 0x1C81 0x1C81 1 (- 6253), UpCaseRun 0x1C82 0x1C82 1 (- 6244),
     UpCaseRun 0x1C83 0x1C84 1 (- 6242), UpCaseRun 0x1C85 0x1C85 1 (- 6243), UpCaseRun 0x1C86 0x1C86 1 (- 6236),
     UpCaseRun 0x1C87 0x1C87 1 (- 6181), UpCaseRun 0x1C88 0x1C88 1 35266, UpCaseRun 0x1D79 0x1D79 1 35332,
     UpCaseRun 0x1D7D 0x1D7D 1 3814, UpCaseRun 0x1D8E 0x1D8E 1 35384, UpCaseRun 0x1E01 0x1E95 2 (- 1),
     UpCaseRun 0x1E9B 0x1E9B 1 (- 59), UpCaseRun 0x1EA1 0x1EFF 2 (- 1), UpCaseRun 0x1F00 0x1F07 1 8,
     UpCaseRun 0x1F10 0x1F15 1 8]"

definition runs_8 :: "upcase_run list" where
  "runs_8 =
    [UpCaseRun 0x1F20 0x1F27 1 8, UpCaseRun 0x1F30 0x1F37 1 8, UpCaseRun 0x1F40 0x1F45 1 8,
     UpCaseRun 0x1F51 0x1F57 2 8, UpCaseRun 0x1F60 0x1F67 1 8, UpCaseRun 0x1F70 0x1F71 1 74,
     UpCaseRun 0x1F72 0x1F75 1 86, UpCaseRun 0x1F76 0x1F77 1 100, UpCaseRun 0x1F78 0x1F79 1 128,
     UpCaseRun 0x1F7A 0x1F7B 1 112, UpCaseRun 0x1F7C 0x1F7D 1 126, UpCaseRun 0x1F80 0x1F87 1 8,
     UpCaseRun 0x1F90 0x1F97 1 8, UpCaseRun 0x1FA0 0x1FA7 1 8, UpCaseRun 0x1FB0 0x1FB1 1 8,
     UpCaseRun 0x1FB3 0x1FB3 1 9, UpCaseRun 0x1FBE 0x1FBE 1 (- 7205), UpCaseRun 0x1FC3 0x1FC3 1 9,
     UpCaseRun 0x1FD0 0x1FD1 1 8]"

definition runs_9 :: "upcase_run list" where
  "runs_9 =
    [UpCaseRun 0x1FE0 0x1FE1 1 8, UpCaseRun 0x1FE5 0x1FE5 1 7, UpCaseRun 0x1FF3 0x1FF3 1 9,
     UpCaseRun 0x214E 0x214E 1 (- 28), UpCaseRun 0x2170 0x217F 1 (- 16), UpCaseRun 0x2184 0x2184 1 (- 1),
     UpCaseRun 0x24D0 0x24E9 1 (- 26), UpCaseRun 0x2C30 0x2C5F 1 (- 48), UpCaseRun 0x2C61 0x2C61 1 (- 1),
     UpCaseRun 0x2C65 0x2C65 1 (- 10795), UpCaseRun 0x2C66 0x2C66 1 (- 10792), UpCaseRun 0x2C68 0x2C6C 2 (- 1),
     UpCaseRun 0x2C73 0x2C73 1 (- 1), UpCaseRun 0x2C76 0x2C76 1 (- 1), UpCaseRun 0x2C81 0x2CE3 2 (- 1),
     UpCaseRun 0x2CEC 0x2CEE 2 (- 1), UpCaseRun 0x2CF3 0x2CF3 1 (- 1), UpCaseRun 0x2D00 0x2D25 1 (- 7264),
     UpCaseRun 0x2D27 0x2D27 1 (- 7264)]"

definition runs_10 :: "upcase_run list" where
  "runs_10 =
    [UpCaseRun 0x2D2D 0x2D2D 1 (- 7264), UpCaseRun 0xA641 0xA66D 2 (- 1), UpCaseRun 0xA681 0xA69B 2 (- 1),
     UpCaseRun 0xA723 0xA72F 2 (- 1), UpCaseRun 0xA733 0xA76F 2 (- 1), UpCaseRun 0xA77A 0xA77C 2 (- 1),
     UpCaseRun 0xA77F 0xA787 2 (- 1), UpCaseRun 0xA78C 0xA78C 1 (- 1), UpCaseRun 0xA791 0xA793 2 (- 1),
     UpCaseRun 0xA794 0xA794 1 48, UpCaseRun 0xA797 0xA7A9 2 (- 1), UpCaseRun 0xA7B5 0xA7C3 2 (- 1),
     UpCaseRun 0xA7C8 0xA7CA 2 (- 1), UpCaseRun 0xA7D1 0xA7D1 1 (- 1), UpCaseRun 0xA7D7 0xA7D9 2 (- 1),
     UpCaseRun 0xA7F6 0xA7F6 1 (- 1), UpCaseRun 0xAB53 0xAB53 1 (- 928), UpCaseRun 0xAB70 0xABBF 1 (- 38864),
     UpCaseRun 0xFF41 0xFF5A 1 (- 32)]"

definition built_in_runs :: "upcase_run list" where
  "built_in_runs =
    concat [runs_1, runs_2, runs_3, runs_4, runs_5, runs_6, runs_7, runs_8, runs_9, runs_10]"

lemmas runs_defs = runs_1_def runs_2_def runs_3_def runs_4_def runs_5_def 
  runs_6_def runs_7_def runs_8_def runs_9_def runs_10_def

section \<open>Checks\<close>

type_synonym int_run = "int \<times> int \<times> int \<times> int"

fun int_run :: "upcase_run \<Rightarrow> int_run" where
  "int_run (UpCaseRun f l st d) = (uint f, uint l, uint st, d)"

text \<open>A run the loop of MakeBuiltInMap() expands: it has a step and its images are 16-bit units.\<close>

fun sound_run :: "int_run \<Rightarrow> bool" where
  "sound_run (f, l, st, d) \<longleftrightarrow> (st = 1 \<or> st = 2) \<and> f \<le> l \<and> 0 \<le> f + d \<and> l + d < 65536"

fun within :: "int \<Rightarrow> int \<Rightarrow> int_run \<Rightarrow> bool" where
  "within a b (f, l, st, d) \<longleftrightarrow> a \<le> f \<and> l \<le> b"

text \<open>No image of the first run is a unit the second run maps.\<close>

fun apart :: "int_run \<Rightarrow> int_run \<Rightarrow> bool" where
  "apart (f, l, st, d) (f', l', st', d') \<longleftrightarrow>
     l + d < f' \<or> l' < f + d \<or> st' = 2 \<and> (f = l \<or> st = 2) \<and> (f + d - f') mod 2 \<noteq> 0"

fun apart_block :: "int_run \<Rightarrow> int \<times> int \<times> upcase_run list \<Rightarrow> bool" where
  "apart_block (f, l, st, d) (a, b, block) \<longleftrightarrow>
     l + d < a \<or> b < f + d \<or> list_all (apart (f, l, st, d)) (map int_run block)"

definition run_blocks :: "(int \<times> int \<times> upcase_run list) list" where
  "run_blocks =
    [(0x61, 0x199, runs_1),
     (0x19A, 0x1EF, runs_2),
     (0x1F2, 0x260, runs_3),
     (0x261, 0x288, runs_4),
     (0x289, 0x3D1, runs_5),
     (0x3D5, 0x586, runs_6),
     (0x10D0, 0x1F15, runs_7),
     (0x1F20, 0x1FD1, runs_8),
     (0x1FE0, 0x2D27, runs_9),
     (0x2D2D, 0xFF5A, runs_10)]"

definition free_of_blocks :: "upcase_run list \<Rightarrow> bool" where
  "free_of_blocks rs \<longleftrightarrow> list_all (\<lambda>r. list_all (apart_block r) run_blocks) (map int_run rs)"

lemma runs_of_blocks: "built_in_runs = concat (map (\<lambda>(a, b, block). block) run_blocks)"
  by (simp add: built_in_runs_def run_blocks_def)

lemma blocks_within: "list_all (\<lambda>(a, b, block). list_all (within a b) (map int_run block)) run_blocks"
  by (simp add: run_blocks_def runs_defs)

lemma sound_runs: "list_all sound_run (map int_run built_in_runs)"
  by (simp add: built_in_runs_def runs_defs)

lemma free_1: "free_of_blocks runs_1"
  unfolding free_of_blocks_def runs_1_def run_blocks_def by (simp, (simp add: runs_defs)?)

lemma free_2: "free_of_blocks runs_2"
  unfolding free_of_blocks_def runs_2_def run_blocks_def by (simp, (simp add: runs_defs)?)

lemma free_3: "free_of_blocks runs_3"
  unfolding free_of_blocks_def runs_3_def run_blocks_def by (simp, (simp add: runs_defs)?)

lemma free_4: "free_of_blocks runs_4"
  unfolding free_of_blocks_def runs_4_def run_blocks_def by (simp, (simp add: runs_defs)?)

lemma free_5: "free_of_blocks runs_5"
  unfolding free_of_blocks_def runs_5_def run_blocks_def by (simp, (simp add: runs_defs)?)

lemma free_6: "free_of_blocks runs_6"
  unfolding free_of_blocks_def runs_6_def run_blocks_def by (simp, (simp add: runs_defs)?)

lemma free_7: "free_of_blocks runs_7"
  unfolding free_of_blocks_def runs_7_def run_blocks_def by (simp, (simp add: runs_defs)?)

lemma free_8: "free_of_blocks runs_8"
  unfolding free_of_blocks_def runs_8_def run_blocks_def by (simp, (simp add: runs_defs)?)

lemma free_9: "free_of_blocks runs_9"
  unfolding free_of_blocks_def runs_9_def run_blocks_def by (simp, (simp add: runs_defs)?)

lemma free_10: "free_of_blocks runs_10"
  unfolding free_of_blocks_def runs_10_def run_blocks_def by (simp, (simp add: runs_defs)?)

lemmas free_runs = free_1 free_2 free_3 free_4 free_5 free_6 free_7 free_8 free_9 free_10

section \<open>What the checks give\<close>

text \<open>The units the inner loop visits for a run.\<close>

definition run_covers :: "upcase_run \<Rightarrow> int \<Rightarrow> bool" where
  "run_covers r u \<longleftrightarrow>
    uint (ur_first r) \<le> u \<and> u \<le> uint (ur_last r) \<and> (u - uint (ur_first r)) mod uint (ur_step r) = 0"

lemma int_run_fields: "int_run r = (uint (ur_first r), uint (ur_last r), uint (ur_step r), ur_delta r)"
  by (cases r) simp

lemma sound_run_in:
  assumes "r \<in> set built_in_runs"
  shows "uint (ur_step r) = 1 \<or> uint (ur_step r) = 2" "uint (ur_first r) \<le> uint (ur_last r)"
    "0 \<le> uint (ur_first r) + ur_delta r" "uint (ur_last r) + ur_delta r < 65536"
  using sound_runs assms by (simp_all add: list_all_iff int_run_fields)

lemma all_free: "(a, b, block) \<in> set run_blocks \<Longrightarrow> free_of_blocks block"
  using free_runs by (auto simp: run_blocks_def)

lemma apart_in:
  assumes "r \<in> set built_in_runs" "s \<in> set built_in_runs"
  shows "apart (int_run r) (int_run s)"
proof -
  obtain a b block where rb: "(a, b, block) \<in> set run_blocks" "r \<in> set block"
    using assms(1) by (auto simp: runs_of_blocks)
  obtain a' b' block' where sb: "(a', b', block') \<in> set run_blocks" "s \<in> set block'"
    using assms(2) by (auto simp: runs_of_blocks)
  have "apart_block (int_run r) (a', b', block')"
    using all_free [OF rb(1)] rb(2) sb(1) by (auto simp: free_of_blocks_def list_all_iff)
  moreover have "within a' b' (int_run s)"
    using blocks_within sb by (auto simp: list_all_iff)
  ultimately show ?thesis
    using sb(2) by (auto simp: int_run_fields list_all_iff)
qed

lemma images_free:
  assumes "r \<in> set built_in_runs" "s \<in> set built_in_runs" "run_covers r u"
  shows "\<not> run_covers s (u + ur_delta r)"
proof -
  have "uint (ur_last r) + ur_delta r < uint (ur_first s) \<or> uint (ur_last s) < uint (ur_first r) + ur_delta r \<or>
      uint (ur_step s) = 2 \<and> (uint (ur_first r) = uint (ur_last r) \<or> uint (ur_step r) = 2) \<and>
      (uint (ur_first r) + ur_delta r - uint (ur_first s)) mod 2 \<noteq> 0"
    using apart_in [OF assms(1,2)] by (simp add: int_run_fields)
  moreover have "uint (ur_step s) = 2 \<Longrightarrow> uint (ur_first r) = uint (ur_last r) \<or> uint (ur_step r) = 2 \<Longrightarrow>
      (uint (ur_first r) + ur_delta r - uint (ur_first s)) mod 2 \<noteq> 0 \<Longrightarrow>
      (u + ur_delta r - uint (ur_first s)) mod uint (ur_step s) \<noteq> 0"
    using assms(3) by (auto simp: run_covers_def; presburger)
  ultimately show ?thesis
    using assms(3) by (auto simp: run_covers_def)
qed

end
