(* ===== verification/UpCase.thy ===== *)
theory UpCase
  imports UpCaseRuns "HOL-Library.List_Lexorder"
begin

text \<open>
  The case mapping NTFS collates names by: class Table of src/upcase/upcase.cpp. The built-in table
  expands the runs of UpCaseRuns, FromBytes() parses a volume's own $UpCase stream, and Compare()
  orders two names. Whether wchar_t is 16 bits wide (the source's if constexpr) is the argument
  wide16; the characters of a wide string are 32-bit words either way. A loop that might not end
  gives None, an exception gives Inl.
\<close>

section \<open>Model\<close>

datatype upcase_error = NarrowingError | MapOutOfRange

record upcase_table =
  ut_map :: "u16 list"
  ut_built_in :: bool

definition unit_count :: nat where "unit_count = 65536"
definition byte_count :: nat where "byte_count = unit_count * 2"
definition lower_a :: u16 where "lower_a = 0x61"
definition lower_z :: u16 where "lower_z = 0x7A"
definition case_distance :: u16 where "case_distance = 0x20"
definition bits_per_byte_up :: nat where "bits_per_byte_up = 8"
definition high_surrogate_first_up :: u32 where "high_surrogate_first_up = 0xD800"
definition low_surrogate_first_up :: u32 where "low_surrogate_first_up = 0xDC00"
definition max_code_point_up :: u32 where "max_code_point_up = 0x10FFFF"
definition replacement_character_up :: u16 where "replacement_character_up = 0xFFFD"
definition supplementary_base :: u32 where "supplementary_base = 0x10000"
definition surrogate_shift_up :: nat where "surrogate_shift_up = 10"
definition surrogate_mask_up :: u32 where "surrogate_mask_up = 0x3FF"

lemmas upcase_consts = high_surrogate_first_up_def low_surrogate_first_up_def max_code_point_up_def replacement_character_up_def
  supplementary_base_def surrogate_shift_up_def surrogate_mask_up_def

text \<open>gsl::narrow<char16_t>() of a 32-bit signed value.\<close>

definition narrow_unit :: "int \<Rightarrow> upcase_error + u16" where
  "narrow_unit v = (if 0 \<le> v \<and> v < 65536 then Inr (of_int v) else Inl NarrowingError)"

text \<open>The inner loop of MakeBuiltInMap(): a run with step 0 would never end.\<close>

partial_function (option) fill_run :: "upcase_run \<Rightarrow> nat \<Rightarrow> u16 list \<Rightarrow> (upcase_error + u16 list) option" where
  "fill_run run unit m =
    (if unit \<le> unat (ur_last run) then
       case narrow_unit (int unit + ur_delta run) of
         Inl e \<Rightarrow> Some (Inl e)
       | Inr v \<Rightarrow>
           if unit < length m then fill_run run (unit + unat (ur_step run)) (m[unit := v])
           else Some (Inl MapOutOfRange)
     else Some (Inr m))"

primrec expand_runs :: "upcase_run list \<Rightarrow> u16 list \<Rightarrow> (upcase_error + u16 list) option" where
  "expand_runs [] m = Some (Inr m)"
| "expand_runs (run # runs) m =
    (case fill_run run (unat (ur_first run)) m of
       None \<Rightarrow> None
     | Some (Inl e) \<Rightarrow> Some (Inl e)
     | Some (Inr m') \<Rightarrow> expand_runs runs m')"

definition MakeBuiltInMap :: "(upcase_error + u16 list) option" where
  "MakeBuiltInMap = expand_runs built_in_runs (map of_nat [0..<unit_count])"

definition BuiltIn :: "(upcase_error + upcase_table) option" where
  "BuiltIn = map_option (map_sum id (\<lambda>m. \<lparr>ut_map = m, ut_built_in = True\<rparr>)) MakeBuiltInMap"

definition entry_of :: "byte list \<Rightarrow> nat \<Rightarrow> u16" where
  "entry_of bytes unit =
    (let offset = unit * 2; low = bytes ! offset; high = bytes ! (offset + 1)
     in ucast ((ucast low :: u32) OR push_bit bits_per_byte_up (ucast high)))"

text \<open>The letters whose entry is not the letter case_distance below.\<close>

definition maps_letters :: "u16 list \<Rightarrow> bool" where
  "maps_letters m \<longleftrightarrow>
    list_all (\<lambda>unit. m ! unit = of_nat unit - case_distance) [unat lower_a..<unat lower_z + 1]"

definition FromBytes :: "byte list \<Rightarrow> upcase_table option" where
  "FromBytes bytes =
    (if length bytes < byte_count then None
     else let m = map (entry_of bytes) [0..<unit_count]
       in if maps_letters m then Some \<lparr>ut_map = m, ut_built_in = False\<rparr> else None)"

definition IsBuiltIn :: "upcase_table \<Rightarrow> bool" where
  "IsBuiltIn t = ut_built_in t"

definition Map :: "upcase_table \<Rightarrow> u16 \<Rightarrow> u16" where
  "Map t unit = ut_map t ! unat unit"

subsection \<open>Utf16Cursor\<close>

record utf16_cursor =
  cu_text :: "u32 list"
  cu_index :: nat
  cu_pending_low :: u16

definition cursor_of :: "u32 list \<Rightarrow> utf16_cursor" where
  "cursor_of text = \<lparr>cu_text = text, cu_index = 0, cu_pending_low = 0\<rparr>"

definition AtEnd :: "utf16_cursor \<Rightarrow> bool" where
  "AtEnd c \<longleftrightarrow> cu_pending_low c = 0 \<and> cu_index c \<ge> length (cu_text c)"

definition Next :: "bool \<Rightarrow> utf16_cursor \<Rightarrow> u16 \<times> utf16_cursor" where
  "Next wide16 c =
    (if cu_pending_low c \<noteq> 0 then (cu_pending_low c, c\<lparr>cu_pending_low := 0\<rparr>)
     else let value = cu_text c ! cu_index c; c = c\<lparr>cu_index := cu_index c + 1\<rparr>
       in if wide16 then (ucast value, c)
          else if value < supplementary_base then (ucast value, c)
          else if value > max_code_point_up then (replacement_character_up, c)
          else let offset = value - supplementary_base
            in (ucast (high_surrogate_first_up + drop_bit surrogate_shift_up offset),
                c\<lparr>cu_pending_low := ucast (low_surrogate_first_up + (offset AND surrogate_mask_up))\<rparr>))"

definition cursor_measure :: "utf16_cursor \<Rightarrow> nat" where
  "cursor_measure c = 2 * (length (cu_text c) - cu_index c) + (if cu_pending_low c = 0 then 0 else 1)"

lemma Next_measure: "\<not> AtEnd c \<Longrightarrow> cursor_measure (snd (Next wide16 c)) < cursor_measure c"
  by (auto simp: AtEnd_def Next_def cursor_measure_def Let_def)

function compare_loop :: "bool \<Rightarrow> upcase_table \<Rightarrow> utf16_cursor \<Rightarrow> utf16_cursor \<Rightarrow> int" where
  "compare_loop wide16 t left right =
    (if \<not> AtEnd left \<and> \<not> AtEnd right then
       let left_unit = Map t (fst (Next wide16 left)); right_unit = Map t (fst (Next wide16 right))
       in if left_unit \<noteq> right_unit then (if left_unit < right_unit then - 1 else 1)
          else compare_loop wide16 t (snd (Next wide16 left)) (snd (Next wide16 right))
     else if AtEnd left \<and> AtEnd right then 0
     else if AtEnd left then - 1 else 1)"
  by pat_completeness auto
termination
  by (relation "measure (\<lambda>(w, t, left, right). cursor_measure left)") (auto simp: Next_measure)

declare compare_loop.simps [simp del]

definition Compare :: "bool \<Rightarrow> upcase_table \<Rightarrow> u32 list \<Rightarrow> u32 list \<Rightarrow> int" where
  "Compare wide16 t first second = compare_loop wide16 t (cursor_of first) (cursor_of second)"

section \<open>The built-in mapping\<close>

text \<open>What a list of runs makes of a unit: the last run that covers it decides.\<close>

definition upper_in :: "upcase_run list \<Rightarrow> int \<Rightarrow> u16 \<Rightarrow> u16" where
  "upper_in runs u v = foldl (\<lambda>v r. if run_covers r u then of_int (u + ur_delta r) else v) v runs"

definition upper :: "u16 \<Rightarrow> u16" where
  "upper u = upper_in built_in_runs (uint u) u"

lemma upper_in_simps [simp]:
  "upper_in [] u v = v"
  "upper_in (r # rs) u v = upper_in rs u (if run_covers r u then of_int (u + ur_delta r) else v)"
  by (simp_all add: upper_in_def)

lemma upper_in_free: "(\<And>r. r \<in> set rs \<Longrightarrow> \<not> run_covers r u) \<Longrightarrow> upper_in rs u v = v"
  by (induction rs arbitrary: v) simp_all

lemma upper_in_cases: "upper_in rs u v = v \<or> (\<exists>r\<in>set rs. run_covers r u \<and> upper_in rs u v = of_int (u + ur_delta r))"
proof (induction rs arbitrary: v)
  case (Cons r rs)
  show ?case
    using Cons [of "of_int (u + ur_delta r)"] Cons [of v] by (cases "run_covers r u") auto
qed simp

text \<open>The rest of a run, from the unit the inner loop has reached.\<close>

definition covers_from :: "upcase_run \<Rightarrow> nat \<Rightarrow> nat \<Rightarrow> bool" where
  "covers_from r from u \<longleftrightarrow> from \<le> u \<and> u \<le> unat (ur_last r) \<and> (u - from) mod unat (ur_step r) = 0"

lemma covers_from_start: "covers_from r (unat (ur_first r)) u \<longleftrightarrow> run_covers r (int u)"
proof (cases "unat (ur_first r) \<le> u")
  case True
  then have "int u - uint (ur_first r) = int (u - unat (ur_first r))" by (simp add: of_nat_diff)
  then have "(int u - uint (ur_first r)) mod uint (ur_step r) = int ((u - unat (ur_first r)) mod unat (ur_step r))"
    by (simp add: zmod_int)
  moreover have "uint (ur_first r) \<le> int u"
    using True by (metis of_nat_le_iff uint_nat)
  moreover have "int u \<le> uint (ur_last r) \<longleftrightarrow> u \<le> unat (ur_last r)"
    by (metis of_nat_le_iff uint_nat)
  ultimately show ?thesis
    using True by (simp add: covers_from_def run_covers_def)
next
  case False
  then have "\<not> uint (ur_first r) \<le> int u" by (metis of_nat_le_iff uint_nat)
  with False show ?thesis by (simp add: covers_from_def run_covers_def)
qed

lemma covers_from_step:
  assumes "from \<le> unat (ur_last r)" "0 < unat (ur_step r)"
  shows "covers_from r from u \<longleftrightarrow> u = from \<or> covers_from r (from + unat (ur_step r)) u"
proof (cases "from + unat (ur_step r) \<le> u")
  case True
  then have "u - from = (u - (from + unat (ur_step r))) + unat (ur_step r)" by simp
  then have "(u - from) mod unat (ur_step r) = (u - (from + unat (ur_step r))) mod unat (ur_step r)"
    by simp
  with True assms show ?thesis by (auto simp: covers_from_def)
next
  case False
  with assms show ?thesis by (auto simp: covers_from_def)
qed

definition filled :: "upcase_run \<Rightarrow> nat \<Rightarrow> u16 list \<Rightarrow> u16 list" where
  "filled r from m =
    map (\<lambda>u. if covers_from r from u then of_int (int u + ur_delta r) else m ! u) [0..<length m]"

lemma fill_run_exact:
  assumes "0 < unat (ur_step r)" "unat (ur_last r) < length m" "0 \<le> uint (ur_first r) + ur_delta r"
    "uint (ur_last r) + ur_delta r < 65536" "unat (ur_first r) \<le> from"
  shows "fill_run r from m = Some (Inr (filled r from m))"
  using assms(2,5)
proof (induction "Suc (unat (ur_last r)) - from" arbitrary: "from" m rule: less_induct)
  case less
  show ?case
  proof (cases "from \<le> unat (ur_last r)")
    case False
    then have "filled r from m = m"
      by (intro nth_equalityI) (auto simp: filled_def covers_from_def)
    with False show ?thesis by (subst fill_run.simps) simp
  next
    case True
    let ?v = "of_int (int from + ur_delta r) :: u16"
    have "uint (ur_first r) \<le> int from" "int from \<le> uint (ur_last r)"
      using less.prems(2) True by (metis of_nat_le_iff uint_nat)+
    then have n: "narrow_unit (int from + ur_delta r) = Inr ?v"
      using assms(3,4) by (simp add: narrow_unit_def)
    have "fill_run r (from + unat (ur_step r)) (m[from := ?v]) =
        Some (Inr (filled r (from + unat (ur_step r)) (m[from := ?v])))"
      using less.hyps [of "from + unat (ur_step r)" "m[from := ?v]"] less.prems True assms(1) by simp
    moreover have "filled r (from + unat (ur_step r)) (m[from := ?v]) = filled r from m"
      using True assms(1) less.prems
      by (intro nth_equalityI) (auto simp: filled_def covers_from_step nth_list_update)
    ultimately show ?thesis
      using n True less.prems by (subst fill_run.simps) simp
  qed
qed

lemma expand_runs_exact:
  assumes "set runs \<subseteq> set built_in_runs" "length m = 65536"
  shows "expand_runs runs m = Some (Inr (map (\<lambda>u. upper_in runs (int u) (m ! u)) [0..<65536]))"
  using assms
proof (induction runs arbitrary: m)
  case Nil
  then show ?case by (simp add: map_nth [of m, simplified Nil.prems(2)])
next
  case (Cons r rs)
  then have "r \<in> set built_in_runs" by simp
  note s = sound_run_in [OF this]
  have "0 < unat (ur_step r)"
    using s(1) by (auto simp: unat_gt_0)
  then have f: "fill_run r (unat (ur_first r)) m = Some (Inr (filled r (unat (ur_first r)) m))"
    using s Cons.prems(2) unat_u16_bound [of "ur_last r"] by (intro fill_run_exact) simp_all
  show ?case
    using Cons f by (simp add: filled_def covers_from_start)
qed

lemma MakeBuiltInMap_exact: "MakeBuiltInMap = Some (Inr (map (\<lambda>u. upper (of_nat u)) [0..<65536]))"
proof -
  have "upper_in built_in_runs (int u) (of_nat u) = upper (of_nat u)" if "u < 65536" for u
    using that by (simp add: upper_def uint_nat unat_of_nat_u16)
  then show ?thesis
    by (simp add: MakeBuiltInMap_def unit_count_def expand_runs_exact cong: map_cong)
qed

definition built_in_table :: upcase_table where
  "built_in_table = \<lparr>ut_map = map (\<lambda>u. upper (of_nat u)) [0..<65536], ut_built_in = True\<rparr>"

lemma BuiltIn_exact: "BuiltIn = Some (Inr built_in_table)"
  by (simp add: BuiltIn_def MakeBuiltInMap_exact built_in_table_def)

lemma Map_built_in: "Map built_in_table u = upper u"
  using unat_u16_bound [of u] by (simp add: Map_def built_in_table_def)

lemma uint_u16: "0 \<le> v \<Longrightarrow> v < 65536 \<Longrightarrow> uint (of_int v :: u16) = v"
  by (simp add: uint_word_of_int)

lemma upper_idempotent: "upper (upper u) = upper u"
proof (cases "upper u = u")
  case False
  then obtain r where r: "r \<in> set built_in_runs" "run_covers r (uint u)" "upper u = of_int (uint u + ur_delta r)"
    using upper_in_cases [of built_in_runs "uint u" u] by (auto simp: upper_def)
  have "0 \<le> uint u + ur_delta r" "uint u + ur_delta r < 65536"
    using sound_run_in [OF r(1)] r(2) by (auto simp: run_covers_def)
  then have "uint (upper u) = uint u + ur_delta r"
    unfolding r(3) by (rule uint_u16)
  then have "\<not> run_covers s (uint (upper u))" if "s \<in> set built_in_runs" for s
    using images_free [OF r(1) that r(2)] by simp
  then show ?thesis
    unfolding upper_def [of "upper u"] by (rule upper_in_free)
qed simp

section \<open>The stored mapping\<close>

text \<open>A mapping written as the $UpCase stream holds it: the entries in order, lowest byte first.\<close>

definition stream :: "u16 list \<Rightarrow> byte list" where
  "stream m = concat (map (\<lambda>u. to_le 2 (unat u)) m)"

lemma length_stream: "length (stream m) = 2 * length m"
  by (simp add: stream_def length_units_bytes)

lemma entry_of_u16: "unit * 2 + 1 < length bytes \<Longrightarrow> entry_of bytes unit = u16_at bytes (2 * unit)"
proof -
  assume b: "unit * 2 + 1 < length bytes"
  let ?low = "bytes ! (2 * unit)" and ?high = "bytes ! (2 * unit + 1)"
  have "(ucast ?low :: u32) AND push_bit 8 (ucast ?high) = 0"
    by (rule bit_word_eqI) (auto simp: bit_simps dest: bit_imp_le_length)
  then have "(ucast ?low :: u32) OR push_bit 8 (ucast ?high) = ucast ?low + push_bit 8 (ucast ?high)"
    by (rule disjunctive_add_eq_or [symmetric])
  then have e: "entry_of bytes unit = ucast ((ucast ?low :: u32) + push_bit 8 (ucast ?high))"
    by (simp add: entry_of_def bits_per_byte_up_def mult.commute Let_def)
  have "unat ((ucast ?low :: u32) + push_bit 8 (ucast ?high)) = unat ?low + 256 * unat ?high"
    using unat_byte_bound [of ?low] unat_byte_bound [of ?high]
    by (simp add: push_bit_eq_mult unat_word_ariths unsigned_ucast_eq take_bit_eq_mod)
  then have "ucast ((ucast ?low :: u32) + push_bit 8 (ucast ?high)) = (of_nat (unat ?low + 256 * unat ?high) :: u16)"
    by (metis of_nat_unat)
  with e have e: "entry_of bytes unit = of_nat (unat ?low + 256 * unat ?high)" by simp
  have "take 2 (drop (2 * unit) bytes) = [?low, ?high]"
    using b by (simp add: list_eq_iff_nth_eq less_Suc_eq numeral_2_eq_2)
  then have "of_nat (unat ?low + 256 * unat ?high) = u16_at bytes (2 * unit)"
    by (simp add: u16_at_def read_le_def)
  with e show ?thesis by simp
qed

lemma to_le_le_nat: "to_le (length bs) (le_nat bs) = bs"
proof (induction bs)
  case (Cons b bs)
  have "(unat b + 256 * le_nat bs) div 256 = le_nat bs" "(unat b + 256 * le_nat bs) mod 256 = unat b"
    using unat_byte_bound [of b] by simp_all
  with Cons show ?case by simp
qed simp

lemma u16_at_to_le: "off + 2 \<le> length bytes \<Longrightarrow> to_le 2 (unat (u16_at bytes off)) = take 2 (drop off bytes)"
proof -
  assume "off + 2 \<le> length bytes"
  then have l: "length (take 2 (drop off bytes)) = 2" by simp
  then show ?thesis
    using to_le_le_nat [of "take 2 (drop off bytes)"] le_nat_bound [of "take 2 (drop off bytes)"]
    by (simp only: u16_at_def read_le_def) (simp add: unat_of_nat_u16 del: length_take)
qed

lemma stream_append [simp]: "stream (a @ b) = stream a @ stream b"
  by (simp add: stream_def)

lemma stream_of_entries: "2 * n \<le> length bytes \<Longrightarrow> stream (map (entry_of bytes) [0..<n]) = take (2 * n) bytes"
proof (induction n)
  case (Suc n)
  then have "take (2 * Suc n) bytes = take (2 * n) bytes @ take 2 (drop (2 * n) bytes)"
    by (metis add.commute mult_Suc_right take_add)
  with Suc show ?case
    by (simp add: stream_def entry_of_u16 u16_at_to_le)
qed (simp add: stream_def)

lemma entries_of_stream:
  assumes "bytes = stream m @ rest"
  shows "map (entry_of bytes) [0..<length m] = m"
proof -
  have "map (\<lambda>i. u16_at bytes (0 + 2 * i)) [0..<length m] = m"
    by (rule units_field [where pre = "[]" and post = rest]) (simp_all add: assms stream_def)
  moreover have "map (entry_of bytes) [0..<length m] = map (\<lambda>i. u16_at bytes (0 + 2 * i)) [0..<length m]"
    by (rule map_cong) (simp_all add: assms entry_of_u16 length_stream)
  ultimately show ?thesis by simp
qed

text \<open>a to z map to A to Z.\<close>

definition letters :: "u16 list" where
  "letters = map of_nat [97..<123]"

definition upper_letters :: "upcase_table \<Rightarrow> bool" where
  "upper_letters t \<longleftrightarrow> map (Map t) letters = map of_nat [65..<91]"

lemma maps_letters_iff: "maps_letters (ut_map t) \<longleftrightarrow> upper_letters t"
proof -
  have r: "[unat lower_a..<unat lower_z + 1] = [97..<123]" by (simp add: lower_a_def lower_z_def)
  have "maps_letters (ut_map t) \<longleftrightarrow> (\<forall>i\<in>set [97..<123]. ut_map t ! i = of_nat i - 32)"
    unfolding maps_letters_def r list_all_iff case_distance_def by simp
  moreover have "upper_letters t \<longleftrightarrow> (\<forall>i\<in>set [97..<123]. ut_map t ! i = of_nat i - 32)"
  proof -
    have "map of_nat [65..<91] = map (\<lambda>i. of_nat i - 32 :: u16) [97..<123]"
      by (simp add: upt_rec_numeral)
    moreover have "map (Map t) letters = map (\<lambda>i. ut_map t ! i) [97..<123]"
      by (simp add: letters_def Map_def unat_of_nat_u16)
    ultimately show ?thesis by (simp add: upper_letters_def)
  qed
  ultimately show ?thesis by simp
qed

lemma FromBytes_Some:
  "FromBytes bytes = Some t \<longleftrightarrow>
     131072 \<le> length bytes \<and> stream (ut_map t) = take 131072 bytes \<and> \<not> IsBuiltIn t \<and> upper_letters t"
  (is "_ \<longleftrightarrow> ?R")
proof
  assume f: "FromBytes bytes = Some t"
  then have "131072 \<le> length bytes" "ut_map t = map (entry_of bytes) [0..<65536]"
      "maps_letters (ut_map t)" "\<not> IsBuiltIn t"
    by (auto simp: FromBytes_def byte_count_def unit_count_def IsBuiltIn_def Let_def split: if_splits)
  then show ?R
    using stream_of_entries [of 65536 bytes] maps_letters_iff [of t] by simp
next
  assume r: ?R
  then have "length (ut_map t) = 65536"
    using length_stream [of "ut_map t"] by simp
  moreover have "bytes = stream (ut_map t) @ drop 131072 bytes" using r by simp
  ultimately have "map (entry_of bytes) [0..<65536] = ut_map t"
    using entries_of_stream by metis
  with r show "FromBytes bytes = Some t"
    by (cases t) (simp add: FromBytes_def byte_count_def unit_count_def IsBuiltIn_def Let_def
        maps_letters_iff [symmetric])
qed

text \<open>
  C31. FromBytes() accepts a $UpCase stream exactly when it has the 128 KiB of a table and maps a to z
  to A to Z; the table it gives holds the stream's entries, nothing else, and is not the built-in one.
\<close>

theorem from_bytes_exact:
  "FromBytes bytes = Some t \<longleftrightarrow>
     131072 \<le> length bytes \<and> stream (ut_map t) = take 131072 bytes \<and> \<not> IsBuiltIn t \<and> upper_letters t"
  by (rule FromBytes_Some)

lemma built_in_letters: "upper_letters built_in_table"
proof -
  have "upper (of_nat i) = of_nat i - 32" if "i \<in> set [97..<123]" for i
  proof -
    have i: "97 \<le> i" "i < 123" using that by auto
    let ?r = "UpCaseRun 0x61 0x7A 1 (- 32)"
    obtain rs where rs: "built_in_runs = ?r # rs" by (simp add: built_in_runs_def runs_1_def)
    have "list_all (\<lambda>r. 122 < uint (ur_first r)) (tl built_in_runs)"
      by (simp add: built_in_runs_def runs_defs)
    then have "\<not> run_covers r (int i)" if "r \<in> set rs" for r
      using that i by (auto simp: rs list_all_iff run_covers_def)
    then have "upper_in rs (int i) v = v" for v
      by (rule upper_in_free)
    then show ?thesis
      using i by (simp add: upper_def rs uint_nat unat_of_nat_u16 run_covers_def)
  qed
  then have "map (Map built_in_table) letters = map (\<lambda>i. of_nat i - 32) [97..<123]"
    unfolding letters_def map_map by (intro map_cong refl) (simp only: comp_def Map_built_in)
  then show ?thesis
    by (simp add: upper_letters_def upt_rec_numeral)
qed

text \<open>
  C29. The built-in mapping is always made: the loops over the compiled-in runs end, no narrowing
  throws and no index is out of range. It covers every unit, its upper case of an upper case is the
  same unit, and written as a $UpCase stream FromBytes() takes it back with the same entries.
\<close>

theorem built_in_table_made:
  "\<exists>t. BuiltIn = Some (Inr t) \<and> IsBuiltIn t \<and> length (ut_map t) = 65536 \<and>
     (\<forall>unit. Map t (Map t unit) = Map t unit) \<and>
     FromBytes (stream (ut_map t)) = Some (t\<lparr>ut_built_in := False\<rparr>)"
proof (intro exI conjI allI)
  show "BuiltIn = Some (Inr built_in_table)" by (rule BuiltIn_exact)
  show "IsBuiltIn built_in_table" "length (ut_map built_in_table) = 65536"
    by (simp_all add: built_in_table_def IsBuiltIn_def)
  show "Map built_in_table (Map built_in_table unit) = Map built_in_table unit" for unit
    by (simp add: Map_built_in upper_idempotent)
  have "upper_letters (built_in_table\<lparr>ut_built_in := False\<rparr>)"
    using built_in_letters by (simp add: upper_letters_def Map_def cong: map_cong)
  then show "FromBytes (stream (ut_map built_in_table)) = Some (built_in_table\<lparr>ut_built_in := False\<rparr>)"
    by (simp add: FromBytes_Some length_stream IsBuiltIn_def) (simp add: built_in_table_def length_stream)
qed

section \<open>Collation\<close>

text \<open>The UTF-16 code units of a character of a 32-bit wide string, by the arithmetic of UTF-16.\<close>

definition code_units :: "nat \<Rightarrow> nat list" where
  "code_units v =
    (if v < 0x10000 then [v]
     else if v > 0x10FFFF then [0xFFFD]
     else [0xD800 + (v - 0x10000) div 1024, 0xDC00 + (v - 0x10000) mod 1024])"

definition utf16_of :: "bool \<Rightarrow> u32 list \<Rightarrow> u16 list" where
  "utf16_of wide16 text =
    (if wide16 then map ucast text else map of_nat (concat (map (\<lambda>v. code_units (unat v)) text)))"

text \<open>What Compare() orders: the units of a name, each through the table.\<close>

definition folded :: "bool \<Rightarrow> upcase_table \<Rightarrow> u32 list \<Rightarrow> u16 list" where
  "folded wide16 t text = map (Map t) (utf16_of wide16 text)"

lemma utf16_of_simps [simp]:
  "utf16_of w [] = []"
  "utf16_of True (v # vs) = ucast v # utf16_of True vs"
  "utf16_of False (v # vs) = map of_nat (code_units (unat v)) @ utf16_of False vs"
  by (cases w; simp add: utf16_of_def) (simp_all add: utf16_of_def)

text \<open>The units a cursor has still to give.\<close>

definition units_left :: "bool \<Rightarrow> utf16_cursor \<Rightarrow> u16 list" where
  "units_left wide16 c =
    (if cu_pending_low c = 0 then [] else [cu_pending_low c]) @ utf16_of wide16 (drop (cu_index c) (cu_text c))"

lemma ucast_u16_nat: "(ucast (v :: u32) :: u16) = of_nat (unat v)"
  by (simp add: of_nat_unat)

lemma unat_and_low_mask: "unat ((v :: u32) AND 0x3FF) = unat v mod 1024"
proof -
  have "v AND 0x3FF = take_bit 10 v" by (simp add: take_bit_eq_mask mask_eq_exp_minus_1)
  then show ?thesis by (simp add: unat_mod take_bit_eq_mod)
qed

lemma Next_supplementary:
  assumes "\<not> v < 0x10000" "\<not> 0x10FFFF < (v :: u32)"
  shows "ucast (high_surrogate_first_up + drop_bit 10 (v - 0x10000)) = (of_nat (0xD800 + (unat v - 0x10000) div 1024) :: u16)"
    and "ucast (low_surrogate_first_up + ((v - 0x10000) AND 0x3FF)) = (of_nat (0xDC00 + (unat v - 0x10000) mod 1024) :: u16)"
    and "(of_nat (0xDC00 + (unat v - 0x10000) mod 1024) :: u16) \<noteq> 0"
proof -
  have d: "unat (v - 0x10000) = unat v - 0x10000"
    using assms(1) by (simp add: unat_sub not_less)
  have b: "unat v \<le> 0x10FFFF" using assms(2) by (simp add: word_less_nat_alt)
  have "(unat v - 0x10000) div 1024 < 1024" using b by simp
  then have "unat (high_surrogate_first_up + drop_bit 10 (v - 0x10000)) = 0xD800 + (unat v - 0x10000) div 1024"
    by (simp add: upcase_consts unat_word_ariths unat_drop_bit_eq drop_bit_eq_div d)
  then show "ucast (high_surrogate_first_up + drop_bit 10 (v - 0x10000)) = (of_nat (0xD800 + (unat v - 0x10000) div 1024) :: u16)"
    by (simp only: ucast_u16_nat)
  have "(unat v - 0x10000) mod 1024 < 1024" by simp
  then have "unat (low_surrogate_first_up + ((v - 0x10000) AND 0x3FF)) = 0xDC00 + (unat v - 0x10000) mod 1024"
    by (simp add: upcase_consts unat_word_ariths unat_and_low_mask d)
  then show "ucast (low_surrogate_first_up + ((v - 0x10000) AND 0x3FF)) = (of_nat (0xDC00 + (unat v - 0x10000) mod 1024) :: u16)"
    by (simp only: ucast_u16_nat)
  have "unat (of_nat (0xDC00 + (unat v - 0x10000) mod 1024) :: u16) = 0xDC00 + (unat v - 0x10000) mod 1024"
    by (rule unat_of_nat_u16) (use \<open>(unat v - 0x10000) mod 1024 < 1024\<close> in linarith)
  then show "(of_nat (0xDC00 + (unat v - 0x10000) mod 1024) :: u16) \<noteq> 0"
    by (metis add_is_0 unsigned_0 zero_neq_numeral)
qed

lemma AtEnd_units: "AtEnd c \<Longrightarrow> units_left w c = []"
  by (simp add: AtEnd_def units_left_def)

lemma Next_units:
  assumes "\<not> AtEnd c"
  shows "units_left w c = fst (Next w c) # units_left w (snd (Next w c))"
proof (cases "cu_pending_low c = 0")
  case True
  then have i: "cu_index c < length (cu_text c)" using assms by (simp add: AtEnd_def)
  then have d: "drop (cu_index c) (cu_text c) = cu_text c ! cu_index c # drop (Suc (cu_index c)) (cu_text c)"
    by (rule Cons_nth_drop_Suc [symmetric])
  define v where "v = cu_text c ! cu_index c"
  define c' where "c' = c\<lparr>cu_index := cu_index c + 1\<rparr>"
  have u: "units_left w c = utf16_of w (v # drop (Suc (cu_index c)) (cu_text c))"
    using True d by (simp add: units_left_def v_def)
  have u': "units_left w c' = utf16_of w (drop (Suc (cu_index c)) (cu_text c))"
    using True by (simp add: units_left_def c'_def)
  have n: "Next w c =
      (if w \<or> v < 0x10000 then (ucast v, c')
       else if 0x10FFFF < v then (0xFFFD, c')
       else (ucast (high_surrogate_first_up + drop_bit 10 (v - 0x10000)),
             c'\<lparr>cu_pending_low := ucast (low_surrogate_first_up + ((v - 0x10000) AND 0x3FF))\<rparr>))"
    unfolding Next_def Let_def v_def [symmetric] c'_def [symmetric] supplementary_base_def max_code_point_up_def
      replacement_character_up_def surrogate_shift_up_def surrogate_mask_up_def
    using True by simp
  have lt: "unat v < 0x10000 \<longleftrightarrow> v < 0x10000" "0x10FFFF < unat v \<longleftrightarrow> 0x10FFFF < v"
    by (simp_all add: word_less_nat_alt)
  consider "w" | "\<not> w" "v < 0x10000" | "\<not> w" "\<not> v < 0x10000" "0x10FFFF < v"
    | "\<not> w" "\<not> v < 0x10000" "\<not> 0x10FFFF < v" by blast
  then show ?thesis
  proof cases
    case 1
    then show ?thesis unfolding n u using u' by simp
  next
    case 2
    then show ?thesis unfolding n u using u' lt by (simp add: code_units_def of_nat_unat)
  next
    case 3
    then show ?thesis unfolding n u using u' lt by (simp add: code_units_def)
  next
    case 4
    have c: "code_units (unat v) = [0xD800 + (unat v - 0x10000) div 1024, 0xDC00 + (unat v - 0x10000) mod 1024]"
      unfolding code_units_def using 4 lt by presburger
    show ?thesis
      unfolding n u using 4 Next_supplementary [OF 4(2,3)] u'
      by (simp only: utf16_of_simps c list.map append.simps if_False simp_thms fst_conv snd_conv)
        (simp add: units_left_def c'_def)
  qed
qed (simp add: units_left_def Next_def)

lemma compare_loop_units:
  "compare_loop w t left right =
    (if map (Map t) (units_left w left) < map (Map t) (units_left w right) then - 1
     else if map (Map t) (units_left w left) = map (Map t) (units_left w right) then 0 else 1)"
proof (induction w t left right rule: compare_loop.induct)
  case (1 w t left right)
  show ?case
  proof (cases "AtEnd left \<or> AtEnd right")
    case True
    then show ?thesis
      by (subst compare_loop.simps) (auto simp: AtEnd_units Next_units)
  next
    case False
    then show ?thesis
      using "1.IH" by (subst compare_loop.simps) (auto simp: Next_units Let_def)
  qed
qed

lemma Compare_folded:
  "Compare w t a b = (if folded w t a < folded w t b then - 1 else if folded w t a = folded w t b then 0 else 1)"
  by (simp add: Compare_def compare_loop_units units_left_def cursor_of_def folded_def)

text \<open>
  C15. Compare() always ends, and orders names by the lexicographic order of their UTF-16 units after
  the mapping, the shorter first on a common prefix: negative, zero or positive as the first name is
  before, equal to or after the second.
\<close>

theorem compare_is_lexicographic:
  "Compare w t a b = (if folded w t a < folded w t b then - 1 else if folded w t a = folded w t b then 0 else 1)"
  by (rule Compare_folded)

section \<open>What a sorted index relies on\<close>

text \<open>
  A comparison that orders keys: the contract of the B+ tree search of DirectoryIndex, which only looks
  where a sorted list of keys can hold one that compares equal.
\<close>

locale collation =
  fixes cmp :: "'a \<Rightarrow> 'a \<Rightarrow> int"
  assumes antisym: "cmp b a = - cmp a b"
    and trans_le: "cmp a b \<le> 0 \<Longrightarrow> cmp b c \<le> 0 \<Longrightarrow> cmp a c \<le> 0"
begin

definition ordered :: "'a list \<Rightarrow> bool" where
  "ordered keys \<longleftrightarrow> sorted_wrt (\<lambda>a b. cmp a b \<le> 0) keys"

lemma refl: "cmp a a = 0"
  using antisym [of a a] by simp

lemma before_later: "cmp x a < 0 \<Longrightarrow> cmp a b \<le> 0 \<Longrightarrow> cmp x b < 0"
  using trans_le [of x a b] trans_le [of a b x] antisym [of x b] antisym [of x a] by linarith

lemma after_earlier: "0 < cmp x b \<Longrightarrow> cmp a b \<le> 0 \<Longrightarrow> 0 < cmp x a"
  using trans_le [of x a b] antisym [of x b] by linarith

lemma ordered_append: "ordered (xs @ ys) \<longleftrightarrow> ordered xs \<and> ordered ys \<and> (\<forall>a\<in>set xs. \<forall>b\<in>set ys. cmp a b \<le> 0)"
  by (simp add: ordered_def sorted_wrt_append)

lemma ordered_Cons: "ordered (x # ys) \<longleftrightarrow> (\<forall>b\<in>set ys. cmp x b \<le> 0) \<and> ordered ys"
  by (simp add: ordered_def)

text \<open>Past a key greater than x, and before a smaller one, no key compares equal to x.\<close>

lemma none_after: "ordered (xs @ a # ys) \<Longrightarrow> cmp x a < 0 \<Longrightarrow> b \<in> set ys \<Longrightarrow> cmp x b < 0"
  by (auto simp: ordered_append ordered_Cons intro: before_later)

lemma none_before: "ordered (xs @ a # ys) \<Longrightarrow> 0 < cmp x a \<Longrightarrow> b \<in> set xs \<Longrightarrow> 0 < cmp x b"
  by (auto simp: ordered_append ordered_Cons intro: after_earlier)

end

interpretation names: collation "Compare w t" for w t
proof
  show "Compare w t b a = - Compare w t a b" for a b
    by (auto simp: Compare_folded)
  show "Compare w t a b \<le> 0 \<Longrightarrow> Compare w t b c \<le> 0 \<Longrightarrow> Compare w t a c \<le> 0" for a b c
    by (auto simp: Compare_folded split: if_splits)
qed

lemma ucast_up_down: "(ucast (ucast (u :: u16) :: u32) :: u16) = u"
  by (rule bit_word_eqI) (simp add: bit_simps)

lemma utf16_of_wide: "utf16_of True (map ucast us) = us"
  by (simp add: utf16_of_def comp_def ucast_up_down)

text \<open>
  The order does not depend on the width of wchar_t: two names of 32-bit characters compare as
  their UTF-16 strings do where wchar_t is 16 bits wide.
\<close>

lemma compare_width_independent:
  "Compare False t a b = Compare True t (map ucast (utf16_of False a)) (map ucast (utf16_of False b))"
  by (simp add: Compare_folded folded_def utf16_of_wide)

end
