(* ===== verification/IndexEntries.thy ===== *)
theory IndexEntries
  imports UpdateSequence SlackCarver UpCase
begin

text \<open>
  The entries of a directory index: IndexEntryView of src/index-entry.cpp with the on-disk layout of
  src/data/index-entry.h and src/data/filename.h, the file name of src/filename.cpp, the walks over
  the entries of an index block (src/attr/index-alloc.cpp) and of the index root
  (src/attr/index-root.cpp). An entry is the bytes a view may read: its size, and at least its fixed
  part. Every read of an entry during a parse is checked, and a read outside is an error value. A wide
  name holds 32-bit characters.
\<close>

section \<open>Model\<close>

datatype index_error = IndexOutOfBounds

datatype index_defect = StreamExceedsEntry | StreamTooSmall | NameExceedsEntry | SubNodeTooSmall

record index_entry =
  ie_raw :: "byte list"
  ie_filename :: bool
  ie_name :: "u32 list"

definition SubNode :: byte where "SubNode = 0x01"
definition Last :: byte where "Last = 0x02"

text \<open>offsetof(Data::IndexEntry, stream), offsetof(Data::Filename, name) and name_length.\<close>

definition stream_at :: nat where "stream_at = 16"
definition name_at :: nat where "name_at = 66"
definition name_length_at :: nat where "name_length_at = 64"

lemmas entry_consts = stream_at_def name_at_def name_length_at_def SubNode_def Last_def

definition load_at :: "nat \<Rightarrow> byte list \<Rightarrow> nat \<Rightarrow> index_error + nat" where
  "load_at n bs off = (if off + n \<le> length bs then Inr (read_le n bs off) else Inl IndexOutOfBounds)"

definition ReadIndexEntryHeader :: "byte list \<Rightarrow> index_error + byte list" where
  "ReadIndexEntryHeader bytes = (if stream_at \<le> length bytes then Inr (take stream_at bytes) else Inl IndexOutOfBounds)"

text \<open>The bytes of the entry, in place or in an aligned copy: the fixed part is read even from a smaller entry.\<close>

definition AlignIndexEntry :: "byte list \<Rightarrow> nat \<Rightarrow> index_error + byte list" where
  "AlignIndexEntry bytes sz =
    (let copied = max sz stream_at
     in if copied \<le> length bytes then Inr (take copied bytes) else Inl IndexOutOfBounds)"

definition ValidateIndexEntry :: "byte list \<Rightarrow> index_error + index_defect option" where
  "ValidateIndexEntry e =
    bind_r (load_at 2 e 10) (\<lambda>stream_size.
    bind_r (load_at 2 e 8) (\<lambda>size.
    bind_r (load_at 1 e 12) (\<lambda>flags.
      let sub_node =
            (if (of_nat flags AND SubNode) = SubNode \<and> size < stream_at + 8 then Some SubNodeTooSmall else None)
      in if stream_size \<noteq> 0 then
           if size \<le> stream_at then Inr (Some StreamExceedsEntry)
           else let available = size_sub size stream_at
             in if available < name_at then Inr (Some StreamTooSmall)
                else bind_r (load_at 1 e (stream_at + name_length_at)) (\<lambda>name_length.
                  if available < name_at + name_length * 2 then Inr (Some NameExceedsEntry) else Inr sub_node)
         else Inr sub_node)))"

fun load_words :: "byte list \<Rightarrow> nat \<Rightarrow> nat \<Rightarrow> index_error + u16 list" where
  "load_words bs off 0 = Inr []"
| "load_words bs off (Suc n) =
    bind_r (load_at 2 bs off) (\<lambda>w. bind_r (load_words bs (off + 2) n) (\<lambda>ws. Inr (of_nat w # ws)))"

text \<open>SetFilename() and GetFilenameWUC(): the name is decoded once.\<close>

definition SetFilename :: "byte list \<Rightarrow> index_error + index_entry" where
  "SetFilename e =
    bind_r (load_at 1 e (stream_at + name_length_at)) (\<lambda>name_length.
    bind_r (load_words e (stream_at + name_at) name_length) (\<lambda>units.
      Inr \<lparr>ie_raw = e, ie_filename = True, ie_name = Utf16ToWide_32 units\<rparr>))"

definition new_view :: "byte list \<Rightarrow> index_error + index_entry" where
  "new_view e =
    bind_r (load_at 2 e 10) (\<lambda>stream_size.
      if stream_size = 0 then Inr \<lparr>ie_raw = e, ie_filename = False, ie_name = []\<rparr>
      else bind_r (ValidateIndexEntry e) (\<lambda>defect.
        case defect of
          Some _ \<Rightarrow> Inr \<lparr>ie_raw = e, ie_filename = False, ie_name = []\<rparr>
        | None \<Rightarrow> SetFilename e))"

subsection \<open>What a view gives\<close>

definition entry_size :: "index_entry \<Rightarrow> nat" where
  "entry_size v = unat (u16_at (ie_raw v) 8)"

definition GetFileReference :: "index_entry \<Rightarrow> u64" where
  "GetFileReference v = u64_at (ie_raw v) 0 AND mft_record_number_mask"

definition GetSequenceNumber :: "index_entry \<Rightarrow> u16" where
  "GetSequenceNumber v = ucast (drop_bit mft_sequence_shift (u64_at (ie_raw v) 0))"

definition IsSubNodePtr :: "index_entry \<Rightarrow> bool" where
  "IsSubNodePtr v \<longleftrightarrow> (ie_raw v ! 12 AND SubNode) = SubNode \<and> entry_size v \<ge> stream_at + 8"

definition GetSubNodeVCN :: "index_entry \<Rightarrow> u64" where
  "GetSubNodeVCN v = u64_at (ie_raw v) (size_sub (entry_size v) 8)"

definition GetFilename :: "index_entry \<Rightarrow> u32 list" where
  "GetFilename v = (if ie_filename v then ie_name v else [])"

definition HasName :: "index_entry \<Rightarrow> bool" where
  "HasName v \<longleftrightarrow> ie_name v \<noteq> []"

definition GetParentReference :: "index_entry \<Rightarrow> u64" where
  "GetParentReference v = (if ie_filename v then u64_at (ie_raw v) stream_at AND mft_record_number_mask else 0)"

definition GetParentSequenceNumber :: "index_entry \<Rightarrow> u16" where
  "GetParentSequenceNumber v =
    (if ie_filename v then ucast (drop_bit mft_sequence_shift (u64_at (ie_raw v) stream_at)) else 0)"

definition CompareName :: "index_entry \<Rightarrow> u32 list \<Rightarrow> upcase_table \<Rightarrow> int" where
  "CompareName v file_name upcase = Compare False upcase file_name (ie_name v)"

subsection \<open>The entries of an index block\<close>

record index_block =
  ib_entries :: "index_entry list"
  ib_bytes :: "byte list"
  ib_used_end :: "nat option"

definition entry_offset_pos :: nat where "entry_offset_pos = 24"

text \<open>Whether the block is rejected whole, and the entries that are left.\<close>

definition RejectOnDefect :: "bool \<Rightarrow> index_entry list \<Rightarrow> bool \<times> index_entry list" where
  "RejectOnDefect recover entries = (if recover then (False, entries) else (True, []))"

definition UsedEndOf :: "nat \<Rightarrow> nat \<Rightarrow> nat \<Rightarrow> nat" where
  "UsedEndOf total_entry_size block_size entries_end =
    min (max entries_end (entry_offset_pos + total_entry_size)) block_size"

definition stop_on_defect :: "bool \<Rightarrow> index_entry list \<Rightarrow> bool \<times> index_entry list \<times> nat option" where
  "stop_on_defect recover entries =
    (let (reject, entries) = RejectOnDefect recover entries in (\<not> reject, entries, None))"

text \<open>
  The loop of ParseIndexEntries(). \<open>cur\<close> is where the span still to walk starts: a span that starts
  past the end of the block, which the unchecked \<open>subspan\<close> would give, is out of bounds.
\<close>

function entries_loop ::
  "bool \<Rightarrow> byte list \<Rightarrow> u32 \<Rightarrow> nat \<Rightarrow> u32 \<Rightarrow> bool \<Rightarrow> index_entry list \<Rightarrow>
     index_error + bool \<times> index_entry list \<times> nat option" where
  "entries_loop recover block total_entry_size cur ie_total clean entries =
    (let remaining = size_sub (length block) cur
     in if cur > length block then Inl IndexOutOfBounds
        else if remaining < stream_at then Inr (stop_on_defect recover entries)
        else bind_r (ReadIndexEntryHeader (drop cur block)) (\<lambda>head.
          let size = unat (u16_at head 8)
          in if size = 0 \<or> size > remaining then Inr (stop_on_defect recover entries)
             else if ie_total + of_nat size > total_entry_size then Inr (stop_on_defect recover entries)
             else bind_r (AlignIndexEntry (drop cur block) size) (\<lambda>aligned.
                  bind_r (ValidateIndexEntry aligned) (\<lambda>defect.
                  if defect \<noteq> None \<and> fst (RejectOnDefect recover entries) then Inr (False, [], None)
                  else bind_r (new_view aligned) (\<lambda>v.
                    let entries = entries @ [v]; clean = (clean \<and> defect = None)
                    in if (head ! 12 AND Last) = Last
                       then Inr (True, entries,
                         if clean then Some (UsedEndOf (unat total_entry_size) (length block) (size_sub (length block) remaining + size))
                         else None)
                       else entries_loop recover block total_entry_size (cur + size) (ie_total + of_nat size) clean entries)))))"
  by pat_completeness auto
termination
  by (relation "measure (\<lambda>(recover, block, t, cur, rest). length block - cur)") (auto simp: stream_at_def)

declare entries_loop.simps [simp del]

definition ParseIndexEntries :: "bool \<Rightarrow> byte list \<Rightarrow> index_error + bool \<times> index_block" where
  "ParseIndexEntries recover block =
    bind_r (load_at 4 block entry_offset_pos) (\<lambda>entry_offset.
    bind_r (load_at 4 block (entry_offset_pos + 4)) (\<lambda>total_entry_size.
      if entry_offset > size_sub (length block) entry_offset_pos
      then Inr (False, \<lparr>ib_entries = [], ib_bytes = block, ib_used_end = None\<rparr>)
      else bind_r (entries_loop recover block (of_nat total_entry_size) (entry_offset_pos + entry_offset) 0 True [])
        (\<lambda>(good, entries, used_end).
          Inr (good, \<lparr>ib_entries = entries, ib_bytes = block, ib_used_end = used_end\<rparr>))))"

subsection \<open>The entries of the index root\<close>

datatype root_error = RootTooSmall | RootMalformed | RootOutOfBounds

record index_root =
  ir_entries :: "index_entry list"
  ir_data :: "byte list"

definition sizeof_index_root :: nat where "sizeof_index_root = 32"
definition root_entry_offset_pos :: nat where "root_entry_offset_pos = 16"
definition type_file_name :: u32 where "type_file_name = 0x30"

function root_loop ::
  "bool \<Rightarrow> byte list \<Rightarrow> u32 \<Rightarrow> nat \<Rightarrow> u32 \<Rightarrow> index_entry list \<Rightarrow> index_error + bool \<times> index_entry list" where
  "root_loop recover data total_entry_size cur ie_total entries =
    (let remaining = size_sub (length data) cur; stop = (let (reject, es) = RejectOnDefect recover entries in (\<not> reject, es))
     in if cur > length data then Inl IndexOutOfBounds
        else if remaining < stream_at then Inr stop
        else bind_r (ReadIndexEntryHeader (drop cur data)) (\<lambda>head.
          let size = unat (u16_at head 8)
          in if size = 0 \<or> size > remaining then Inr stop
             else if ie_total + of_nat size > total_entry_size then Inr stop
             else bind_r (AlignIndexEntry (drop cur data) size) (\<lambda>aligned.
                  bind_r (ValidateIndexEntry aligned) (\<lambda>defect.
                  if defect \<noteq> None \<and> fst (RejectOnDefect recover entries) then Inr (False, [])
                  else bind_r (new_view aligned) (\<lambda>v.
                    let entries = entries @ [v]
                    in if (head ! 12 AND Last) = Last then Inr (True, entries)
                       else root_loop recover data total_entry_size (cur + size) (ie_total + of_nat size) entries)))))"
  by pat_completeness auto
termination
  by (relation "measure (\<lambda>(recover, data, t, cur, rest). length data - cur)") (auto simp: stream_at_def)

declare root_loop.simps [simp del]

definition ParseRootEntries :: "bool \<Rightarrow> byte list \<Rightarrow> index_error + bool \<times> index_entry list" where
  "ParseRootEntries recover data =
    (if length data < root_entry_offset_pos then Inr (recover, [])
     else bind_r (load_at 4 data root_entry_offset_pos) (\<lambda>entry_offset.
       if entry_offset > size_sub (length data) root_entry_offset_pos then Inr (recover, [])
       else bind_r (load_at 4 data (root_entry_offset_pos + 4)) (\<lambda>total_entry_size.
         root_loop recover data (of_nat total_entry_size) (root_entry_offset_pos + entry_offset) 0 [])))"

definition IsFileName :: "index_root \<Rightarrow> bool" where
  "IsFileName r \<longleftrightarrow> u32_at (ir_data r) 0 = type_file_name"

text \<open>The constructor; the type that IsFileName() reads is a checked read of the data.\<close>

definition new_index_root :: "bool \<Rightarrow> byte list \<Rightarrow> root_error + index_root" where
  "new_index_root recover data =
    (let root = \<lparr>ir_entries = [], ir_data = data\<rparr>
     in if length data < sizeof_index_root then Inl RootTooSmall
        else case load_at 4 data 0 of
            Inl _ \<Rightarrow> Inl RootOutOfBounds
          | Inr _ \<Rightarrow>
            if \<not> IsFileName root then Inr root
            else case ParseRootEntries recover data of
                Inl _ \<Rightarrow> Inl RootOutOfBounds
              | Inr (good, entries) \<Rightarrow> if \<not> good then Inl RootMalformed else Inr (root\<lparr>ir_entries := entries\<rparr>))"

section \<open>Reads stay inside\<close>

lemma load_at_Inr: "off + n \<le> length bs \<Longrightarrow> load_at n bs off = Inr (read_le n bs off)"
  by (simp add: load_at_def)

lemma load_words_Inr:
  "off + 2 * n \<le> length bs \<Longrightarrow> load_words bs off n = Inr (map (\<lambda>i. u16_at bs (off + 2 * i)) [0..<n])"
proof (induction n arbitrary: off)
  case (Suc n)
  have "map (\<lambda>i. u16_at bs (off + 2 * i)) [0..<Suc n] =
      u16_at bs off # map (\<lambda>i. u16_at bs (off + 2 + 2 * i)) [0..<n]"
    by (simp add: upt_conv_Cons map_Suc_upt [symmetric] comp_def del: upt_Suc map_Suc_upt)
  with Suc show ?case
    by (simp add: load_at_Inr u16_at_def)
qed simp

lemma read_1: "off < length bs \<Longrightarrow> read_le 1 bs off = unat (bs ! off)"
  by (simp add: read_le_def take_Suc_conv_app_nth numeral_1_eq_Suc_0 hd_drop_conv_nth take_Suc Cons_nth_drop_Suc [symmetric])

lemma unat_u16_at [simp]: "unat (u16_at bs off) = read_le 2 bs off"
proof -
  have "(256 :: nat) ^ length (take 2 (drop off bs)) \<le> 256 ^ 2" by (rule power_increasing) simp_all
  then have "le_nat (take 2 (drop off bs)) < 65536" using le_nat_bound [of "take 2 (drop off bs)"] by simp
  then show ?thesis by (simp add: u16_at_def read_le_def unat_of_nat_u16)
qed

text \<open>The size, stream size and name length fields of an entry.\<close>

abbreviation size_field :: "byte list \<Rightarrow> nat" where "size_field e \<equiv> read_le 2 e 8"
abbreviation stream_field :: "byte list \<Rightarrow> nat" where "stream_field e \<equiv> read_le 2 e 10"
abbreviation name_length_field :: "byte list \<Rightarrow> nat" where "name_length_field e \<equiv> unat (e ! 80)"

text \<open>The bytes a view is made on: as many as the size says, and the fixed part.\<close>

definition entry_span :: "byte list \<Rightarrow> bool" where
  "entry_span e \<longleftrightarrow> length e = max (size_field e) 16"

definition sub_node_room :: "byte list \<Rightarrow> bool" where
  "sub_node_room e \<longleftrightarrow> (e ! 12 AND SubNode) \<noteq> SubNode \<or> 24 \<le> size_field e"

definition sound_entry :: "byte list \<Rightarrow> bool" where
  "sound_entry e \<longleftrightarrow> sub_node_room e \<and>
     (stream_field e = 0 \<or> 82 \<le> size_field e \<and> 82 + 2 * name_length_field e \<le> size_field e)"

lemma Validate_exact:
  assumes "entry_span e"
  shows "\<exists>defect. ValidateIndexEntry e = Inr defect \<and> (defect = None \<longleftrightarrow> sound_entry e)"
proof -
  have l: "16 \<le> length e" "12 < length e" "length e = max (size_field e) 16" using assms by (simp_all add: entry_span_def)
  have f: "load_at 2 e 10 = Inr (stream_field e)" "load_at 2 e 8 = Inr (size_field e)"
      "load_at (Suc 0) e 12 = Inr (unat (e ! 12))"
    using l read_1 [of 12 e] by (simp_all add: load_at_Inr)
  have n: "load_at (Suc 0) e 80 = Inr (name_length_field e)" if "82 \<le> size_field e"
    using l that read_1 [of 80 e] by (simp add: load_at_Inr)
  show ?thesis
    unfolding ValidateIndexEntry_def
    using l n by (auto simp: f Let_def entry_consts sound_entry_def sub_node_room_def)
qed

text \<open>What the constructor makes of an entry.\<close>

definition view_of :: "byte list \<Rightarrow> index_entry" where
  "view_of e =
    (if stream_field e = 0 \<or> \<not> sound_entry e then \<lparr>ie_raw = e, ie_filename = False, ie_name = []\<rparr>
     else \<lparr>ie_raw = e, ie_filename = True,
       ie_name = Utf16ToWide_32 (map (\<lambda>i. u16_at e (82 + 2 * i)) [0..<name_length_field e])\<rparr>)"

lemma new_view_exact:
  assumes "entry_span e"
  shows "new_view e = Inr (view_of e)"
proof -
  have l: "16 \<le> length e" "length e = max (size_field e) 16" using assms by (simp_all add: entry_span_def)
  have s: "load_at 2 e 10 = Inr (stream_field e)" using l(1) by (simp add: load_at_Inr)
  obtain defect where d: "ValidateIndexEntry e = Inr defect" "defect = None \<longleftrightarrow> sound_entry e"
    using Validate_exact [OF assms] by blast
  have "SetFilename e = Inr (view_of e)" if "stream_field e \<noteq> 0" "sound_entry e"
    using that l read_1 [of 80 e]
    by (simp add: SetFilename_def entry_consts load_at_Inr load_words_Inr view_of_def sound_entry_def)
  with s d show ?thesis
    by (cases defect) (auto simp: new_view_def view_of_def)
qed

text \<open>The entry that starts at an offset of a buffer, and one pass of the loop over it.\<close>

definition entry_at :: "byte list \<Rightarrow> nat \<Rightarrow> byte list" where
  "entry_at block cur = take (max (read_le 2 block (cur + 8)) 16) (drop cur block)"

definition is_last :: "byte list \<Rightarrow> bool" where
  "is_last e \<longleftrightarrow> (e ! 12 AND Last) = Last"

lemma entry_at_fields:
  assumes "cur + 16 \<le> length block" "cur + read_le 2 block (cur + 8) \<le> length block"
  shows "entry_span (entry_at block cur)" "size_field (entry_at block cur) = read_le 2 block (cur + 8)"
    "is_last (entry_at block cur) \<longleftrightarrow> (block ! (cur + 12) AND Last) = Last"
proof -
  let ?n = "max (read_le 2 block (cur + 8)) 16"
  have l: "length (entry_at block cur) = ?n" using assms by (simp add: entry_at_def)
  have "read_le 2 (take ?n (drop cur block)) 8 = read_le 2 (drop cur block) 8" by (rule read_le_take) simp
  then show size: "size_field (entry_at block cur) = read_le 2 block (cur + 8)"
    by (simp add: entry_at_def read_le_def add.commute)
  show "entry_span (entry_at block cur)" using l by (simp add: entry_span_def size)
  have "entry_at block cur ! 12 = block ! (cur + 12)" using assms by (simp add: entry_at_def)
  then show "is_last (entry_at block cur) \<longleftrightarrow> (block ! (cur + 12) AND Last) = Last" by (simp add: is_last_def)
qed

lemma entries_loop_end:
  "cur \<le> length block \<Longrightarrow> length block < cur + 16 \<Longrightarrow>
     entries_loop recover block limit cur ie_total clean entries = Inr (stop_on_defect recover entries)"
  by (subst entries_loop.simps) (auto simp: stream_at_def Let_def)

lemma header_read:
  assumes "cur + 16 \<le> length block"
  shows "ReadIndexEntryHeader (drop cur block) = Inr (take 16 (drop cur block))"
    "size_field (take 16 (drop cur block)) = read_le 2 block (cur + 8)"
    "take 16 (drop cur block) ! 12 = block ! (cur + 12)"
    "length block - (length block - cur) = cur"
  using assms by (simp_all add: ReadIndexEntryHeader_def stream_at_def read_le_take)
    (simp add: read_le_def add.commute)

lemma entry_read:
  assumes "cur + 16 \<le> length block" "cur + read_le 2 block (cur + 8) \<le> length block"
  shows "AlignIndexEntry (drop cur block) (read_le 2 block (cur + 8)) = Inr (entry_at block cur)"
    "\<not> length block - cur < read_le 2 block (cur + 8)" "\<not> length block - cur < 16"
    "\<not> length block < cur + read_le 2 block (cur + 8)"
proof -
  show n: "\<not> length block - cur < read_le 2 block (cur + 8)" "\<not> length block - cur < 16"
      "\<not> length block < cur + read_le 2 block (cur + 8)"
    using assms by linarith+
  then show "AlignIndexEntry (drop cur block) (read_le 2 block (cur + 8)) = Inr (entry_at block cur)"
    by (simp add: AlignIndexEntry_def stream_at_def entry_at_def)
qed

lemma entries_loop_step:
  assumes "cur + 16 \<le> length block"
  shows "entries_loop recover block limit cur ie_total clean entries =
    (let size = read_le 2 block (cur + 8); e = entry_at block cur
     in if size = 0 \<or> length block < cur + size \<or> limit < ie_total + of_nat size then Inr (stop_on_defect recover entries)
        else if \<not> sound_entry e \<and> \<not> recover then Inr (False, [], None)
        else if is_last e
        then Inr (True, entries @ [view_of e],
          if clean \<and> sound_entry e then Some (UsedEndOf (unat limit) (length block) (cur + size)) else None)
        else entries_loop recover block limit (cur + size) (ie_total + of_nat size) (clean \<and> sound_entry e)
          (entries @ [view_of e]))"
proof -
  let ?size = "read_le 2 block (cur + 8)" and ?e = "entry_at block cur"
  note h = header_read [OF assms]
  show ?thesis
  proof (cases "?size = 0 \<or> length block < cur + ?size \<or> limit < ie_total + of_nat ?size")
    case True
    then show ?thesis
      using assms by (subst entries_loop.simps) (auto simp: Let_def h stream_at_def)
  next
    case False
    then have fit: "cur + ?size \<le> length block" by simp
    note f = entry_at_fields [OF assms fit] and a = entry_read [OF assms fit]
    obtain defect where d: "ValidateIndexEntry ?e = Inr defect" "defect = None \<longleftrightarrow> sound_entry ?e"
      using Validate_exact [OF f(1)] by blast
    show ?thesis
      using False assms d(2)
      by (subst entries_loop.simps, cases defect)
        (simp_all add: Let_def h stream_at_def a d(1) new_view_exact [OF f(1)] f(3) RejectOnDefect_def)
  qed
qed

text \<open>A view that stands for the bytes it was made on.\<close>

definition view_ok :: "index_entry \<Rightarrow> bool" where
  "view_ok v \<longleftrightarrow> entry_span (ie_raw v) \<and> v = view_of (ie_raw v)"

lemma ie_raw_view_of [simp]: "ie_raw (view_of e) = e"
  by (simp add: view_of_def)

lemma view_of_ok: "entry_span e \<Longrightarrow> view_ok (view_of e)"
  by (simp add: view_ok_def)

lemma entries_loop_sound:
  assumes "cur \<le> length block" "list_all view_ok entries" "recover \<or> list_all (sound_entry \<circ> ie_raw) entries"
  shows "\<exists>good es u. entries_loop recover block limit cur ie_total clean entries = Inr (good, es, u) \<and>
    list_all view_ok es \<and> (recover \<or> list_all (sound_entry \<circ> ie_raw) es) \<and> (good \<or> \<not> recover \<and> es = []) \<and>
    (case u of None \<Rightarrow> True | Some n \<Rightarrow> good \<and> n \<le> length block \<and> cur < n)"
  using assms
proof (induction "length block - cur" arbitrary: cur ie_total clean entries rule: less_induct)
  case less
  show ?case
  proof (cases "cur + 16 \<le> length block")
    case False
    with less.prems show ?thesis
      by (auto simp: entries_loop_end stop_on_defect_def RejectOnDefect_def)
  next
    case True
    let ?size = "read_le 2 block (cur + 8)" and ?e = "entry_at block cur"
    consider "?size = 0 \<or> length block < cur + ?size \<or> limit < ie_total + of_nat ?size"
      | "?size \<noteq> 0" "cur + ?size \<le> length block" "\<not> limit < ie_total + of_nat ?size"
      by linarith
    then show ?thesis
    proof cases
      case 1
      with less.prems show ?thesis
        by (auto simp: entries_loop_step [OF True] Let_def stop_on_defect_def RejectOnDefect_def)
    next
      case 2
      then have v: "view_ok (view_of ?e)"
        using entry_at_fields(1) [OF True] by (simp add: view_of_ok)
      show ?thesis
      proof (cases "\<not> sound_entry ?e \<and> \<not> recover")
        case True
        with 2 have "entries_loop recover block limit cur ie_total clean entries = Inr (False, [], None)"
          by (simp add: entries_loop_step [OF \<open>cur + 16 \<le> length block\<close>] Let_def)
        with True show ?thesis by auto
      next
        case False
        show ?thesis
        proof (cases "is_last ?e")
          case True
          then have "entries_loop recover block limit cur ie_total clean entries =
              Inr (True, entries @ [view_of ?e],
                if clean \<and> sound_entry ?e then Some (UsedEndOf (unat limit) (length block) (cur + ?size)) else None)"
            using 2 False by (simp add: entries_loop_step [OF \<open>cur + 16 \<le> length block\<close>] Let_def)
          then show ?thesis
            using less.prems v False 2 \<open>cur + 16 \<le> length block\<close> by (auto simp: UsedEndOf_def)
        next
          case nl: False
          have "length block - (cur + ?size) < length block - cur"
            using 2 \<open>cur + 16 \<le> length block\<close> by linarith
          moreover have "entries_loop recover block limit cur ie_total clean entries =
              entries_loop recover block limit (cur + ?size) (ie_total + of_nat ?size) (clean \<and> sound_entry ?e)
                (entries @ [view_of ?e])"
            using 2 False nl by (auto simp: entries_loop_step [OF \<open>cur + 16 \<le> length block\<close>] Let_def)
          moreover have "list_all view_ok (entries @ [view_of ?e])"
              "recover \<or> list_all (sound_entry \<circ> ie_raw) (entries @ [view_of ?e])"
            using less.prems v False by auto
          moreover have "cur + ?size \<le> length block" by (rule 2(2))
          ultimately show ?thesis
            using less.hyps [of "cur + ?size" "entries @ [view_of ?e]" "ie_total + of_nat ?size" "clean \<and> sound_entry ?e"]
            by (fastforce split: option.splits)
        qed
      qed
    qed
  qed
qed

lemma parse_entries_sound:
  assumes "40 \<le> length block"
  shows "\<exists>good b. ParseIndexEntries recover block = Inr (good, b) \<and> ib_bytes b = block \<and>
    list_all view_ok (ib_entries b) \<and> (recover \<or> list_all (sound_entry \<circ> ie_raw) (ib_entries b)) \<and>
    (good \<or> ib_entries b = []) \<and> (case ib_used_end b of None \<Rightarrow> True | Some n \<Rightarrow> good \<and> 24 < n \<and> n \<le> length block)"
proof -
  have l: "load_at 4 block 24 = Inr (read_le 4 block 24)" "load_at 4 block 28 = Inr (read_le 4 block 28)"
    using assms by (simp_all add: load_at_Inr)
  have shut: "size_sub (length block) 24 = length block - 24" using assms by simp
  show ?thesis
  proof (cases "read_le 4 block 24 > length block - 24")
    case True
    with l shut have "ParseIndexEntries recover block = Inr (False, \<lparr>ib_entries = [], ib_bytes = block, ib_used_end = None\<rparr>)"
      by (simp add: ParseIndexEntries_def entry_offset_pos_def)
    then show ?thesis by auto
  next
    case False
    then have "24 + read_le 4 block 24 \<le> length block" using assms by linarith
    then obtain good es u where
        "entries_loop recover block (of_nat (read_le 4 block 28)) (24 + read_le 4 block 24) 0 True [] = Inr (good, es, u)"
        "list_all view_ok es" "recover \<or> list_all (sound_entry \<circ> ie_raw) es" "good \<or> \<not> recover \<and> es = []"
        "case u of None \<Rightarrow> True | Some n \<Rightarrow> good \<and> n \<le> length block \<and> 24 + read_le 4 block 24 < n"
      using entries_loop_sound [of "24 + read_le 4 block 24" block "[]" recover "of_nat (read_le 4 block 28)" 0 True]
      by auto
    with l shut False show ?thesis
      by (auto simp: ParseIndexEntries_def entry_offset_pos_def split: option.splits)
  qed
qed

text \<open>
  C60. Whatever the bytes of an index block, parsing its entries never reads outside it. The views
  it keeps cover exactly the entries' own bytes, a strict parse keeps sound entries only or nothing,
  a recovering one never refuses the entries, and slack starts inside the block.
\<close>

theorem parse_entries_safe:
  assumes "40 \<le> length block"
  shows "\<exists>good b. ParseIndexEntries recover block = Inr (good, b) \<and> ib_bytes b = block \<and>
    list_all view_ok (ib_entries b) \<and> (recover \<or> list_all (sound_entry \<circ> ie_raw) (ib_entries b)) \<and>
    (good \<or> ib_entries b = []) \<and> (case ib_used_end b of None \<Rightarrow> True | Some n \<Rightarrow> good \<and> 24 < n \<and> n \<le> length block)"
  by (rule parse_entries_sound [OF assms])

section \<open>Reading back what a directory holds\<close>

definition whole_entry :: "byte list \<Rightarrow> bool" where
  "whole_entry e \<longleftrightarrow> 16 \<le> length e \<and> size_field e = length e \<and> sound_entry e"

lemma entry_at_middle:
  assumes "block = pre @ e @ tail" "cur = length pre" "whole_entry e"
  shows "read_le 2 block (cur + 8) = length e" "entry_at block cur = e"
proof -
  have l: "16 \<le> length e" "size_field e = length e" using assms(3) by (simp_all add: whole_entry_def)
  have "read_le 2 block (cur + 8) = read_le 2 (e @ tail) 8"
    by (simp add: assms(1,2) read_le_def)
  also have "\<dots> = length e" using l read_le_append [of 8 2 e tail] by simp
  finally show r: "read_le 2 block (cur + 8) = length e" .
  show "entry_at block cur = e"
    using l(1) unfolding entry_at_def r by (simp add: assms(1,2) max_def)
qed

lemma entries_loop_reads:
  assumes "block = pre @ concat es @ rest" "cur = length pre" "es \<noteq> []" "list_all whole_entry es"
    "list_all (\<lambda>e. \<not> is_last e) (butlast es)" "is_last (last es)"
    "unat ie_total + length (concat es) \<le> unat limit"
  shows "entries_loop recover block limit cur ie_total clean entries =
    Inr (True, entries @ map view_of es,
      if clean then Some (UsedEndOf (unat limit) (length block) (cur + length (concat es))) else None)"
  using assms
proof (induction es arbitrary: pre cur ie_total entries)
  case (Cons e es)
  have w: "whole_entry e" using Cons.prems(4) by simp
  have b: "block = pre @ e @ (concat es @ rest)" using Cons.prems(1) by simp
  note m = entry_at_middle [OF b Cons.prems(2) w]
  have l: "16 \<le> length e" "sound_entry e" using w by (simp_all add: whole_entry_def)
  have in_block: "cur + 16 \<le> length block" "\<not> length block < cur + length e"
    using l(1) by (simp_all add: b Cons.prems(2))
  have small: "length e < 4294967296" using Cons.prems(7) unat_u32_bound [of limit] by simp
  have t: "unat (ie_total + of_nat (length e)) = unat ie_total + length e"
    using Cons.prems(7) unat_u32_bound [of limit] small by (simp add: unat_word_ariths unat_of_nat)
  then have fit: "\<not> limit < ie_total + of_nat (length e)"
    using Cons.prems(7) by (simp add: word_less_nat_alt)
  have ne: "e \<noteq> []" using l(1) by auto
  show ?case
  proof (cases "es = []")
    case True
    then show ?thesis
      using Cons.prems(6) l fit in_block m ne by (simp add: entries_loop_step [OF in_block(1)] Let_def)
  next
    case False
    then have "\<not> is_last e" using Cons.prems(5) by simp
    then have "entries_loop recover block limit cur ie_total clean entries =
        entries_loop recover block limit (cur + length e) (ie_total + of_nat (length e)) clean (entries @ [view_of e])"
      using l fit in_block m ne by (simp add: entries_loop_step [OF in_block(1)] Let_def)
    also have "\<dots> = Inr (True, (entries @ [view_of e]) @ map view_of es,
        if clean then Some (UsedEndOf (unat limit) (length block) (cur + length e + length (concat es))) else None)"
      by (rule Cons.IH [of "pre @ e"]) (use Cons.prems False t in auto)
    finally show ?thesis by (simp add: add.assoc)
  qed
qed simp

text \<open>A directory entry as NTFS writes it: a reference, a name, the block below, and the end flag.\<close>

record dir_entry =
  de_reference :: u64
  de_name :: "file_name option"
  de_child :: "u64 option"
  de_last :: bool

definition stream_bytes :: "dir_entry \<Rightarrow> byte list" where
  "stream_bytes d = (case de_name d of None \<Rightarrow> [] | Some n \<Rightarrow> filename_bytes n)"

definition entry_tail :: "dir_entry \<Rightarrow> byte list" where
  "entry_tail d = (case de_child d of None \<Rightarrow> [] | Some vcn \<Rightarrow> to_le 8 (unat vcn))"

definition entry_padding :: "dir_entry \<Rightarrow> byte list" where
  "entry_padding d = replicate ((8 - length (stream_bytes d) mod 8) mod 8) 0"

definition entry_flags :: "dir_entry \<Rightarrow> byte" where
  "entry_flags d = (if de_child d = None then 0 else SubNode) OR (if de_last d then Last else 0)"

definition entry_length :: "dir_entry \<Rightarrow> nat" where
  "entry_length d = 16 + length (stream_bytes d) + length (entry_padding d) + length (entry_tail d)"

definition entry_bytes :: "dir_entry \<Rightarrow> byte list" where
  "entry_bytes d =
    to_le 8 (unat (de_reference d)) @ to_le 2 (entry_length d) @ to_le 2 (length (stream_bytes d)) @
    [entry_flags d] @ [0, 0, 0] @ stream_bytes d @ entry_padding d @ entry_tail d"

text \<open>The fields of a name have their sizes, and the name is not empty.\<close>

definition writable_entry :: "dir_entry \<Rightarrow> bool" where
  "writable_entry d \<longleftrightarrow>
    (case de_name d of None \<Rightarrow> True
     | Some n \<Rightarrow> length (fn_sizes n) = 16 \<and> length (fn_er n) = 4 \<and> fn_units n \<noteq> [] \<and> length (fn_units n) \<le> 255)"

text \<open>What a view shows of an entry.\<close>

definition shows_entry :: "index_entry \<Rightarrow> dir_entry \<Rightarrow> bool" where
  "shows_entry v d \<longleftrightarrow>
    GetFileReference v = de_reference d AND mft_record_number_mask \<and>
    GetSequenceNumber v = ucast (drop_bit mft_sequence_shift (de_reference d)) \<and>
    (HasName v \<longleftrightarrow> de_name d \<noteq> None) \<and>
    GetFilename v = (case de_name d of None \<Rightarrow> [] | Some n \<Rightarrow> Utf16ToWide_32 (fn_units n)) \<and>
    (case de_name d of None \<Rightarrow> True
     | Some n \<Rightarrow> GetParentReference v = fn_parent n AND mft_record_number_mask \<and>
         GetParentSequenceNumber v = ucast (drop_bit mft_sequence_shift (fn_parent n))) \<and>
    (IsSubNodePtr v \<longleftrightarrow> de_child d \<noteq> None) \<and>
    (case de_child d of None \<Rightarrow> True | Some vcn \<Rightarrow> GetSubNodeVCN v = vcn)"

lemma length_filename_bytes:
  "length (fn_sizes n) = 16 \<Longrightarrow> length (fn_er n) = 4 \<Longrightarrow> length (filename_bytes n) = 66 + 2 * length (fn_units n)"
  by (simp add: filename_bytes_def length_units_bytes)

lemma length_stream_bytes:
  assumes "writable_entry d"
  shows "length (stream_bytes d) = (case de_name d of None \<Rightarrow> 0 | Some n \<Rightarrow> 66 + 2 * length (fn_units n))"
    "length (stream_bytes d) < 1000"
  using assms by (auto simp: stream_bytes_def writable_entry_def length_filename_bytes split: option.splits)

lemma length_entry_bytes: "length (entry_bytes d) = entry_length d"
  by (simp add: entry_bytes_def entry_length_def)

lemma entry_length_bound: "writable_entry d \<Longrightarrow> entry_length d < 65536"
  using length_stream_bytes(2) [of d]
  by (auto simp: entry_length_def entry_padding_def entry_tail_def split: option.splits
      intro!: le_less_trans [OF add_le_mono [OF mod_less_divisor [THEN less_imp_le] order_refl]])

lemma entry_flags_tests:
  "(entry_flags d AND SubNode) = SubNode \<longleftrightarrow> de_child d \<noteq> None"
  "(entry_flags d AND Last) = Last \<longleftrightarrow> de_last d"
  by (auto simp: entry_flags_def SubNode_def Last_def)

lemma entry_fields:
  assumes "writable_entry d"
  shows "u64_at (entry_bytes d) 0 = de_reference d" "size_field (entry_bytes d) = length (entry_bytes d)"
    "stream_field (entry_bytes d) = length (stream_bytes d)" "entry_bytes d ! 12 = entry_flags d"
proof -
  show "u64_at (entry_bytes d) 0 = de_reference d"
    by (rule u64_field [where pre = "[]"]) (simp_all add: entry_bytes_def)
  have "read_le 2 (entry_bytes d) 8 = entry_length d"
    by (rule read_le_field [where pre = "to_le 8 (unat (de_reference d))"])
      (use entry_length_bound [OF assms] in \<open>simp_all add: entry_bytes_def\<close>)
  then show "size_field (entry_bytes d) = length (entry_bytes d)"
    by (simp add: length_entry_bytes)
  show "stream_field (entry_bytes d) = length (stream_bytes d)"
    by (rule read_le_field [where pre = "to_le 8 (unat (de_reference d)) @ to_le 2 (entry_length d)"])
      (use length_stream_bytes(2) [OF assms] in \<open>simp_all add: entry_bytes_def\<close>)
  show "entry_bytes d ! 12 = entry_flags d"
    by (simp add: entry_bytes_def nth_append)
qed

lemma entry_child_field:
  assumes "de_child d = Some vcn"
  shows "u64_at (entry_bytes d) (size_sub (entry_length d) 8) = vcn"
proof (rule u64_field [where post = "[]"])
  let ?pre = "to_le 8 (unat (de_reference d)) @ to_le 2 (entry_length d) @ to_le 2 (length (stream_bytes d)) @
      [entry_flags d] @ [0, 0, 0] @ stream_bytes d @ entry_padding d"
  show "entry_bytes d = ?pre @ to_le 8 (unat vcn) @ []"
    using assms by (simp add: entry_bytes_def entry_tail_def)
  show "size_sub (entry_length d) 8 = length ?pre"
    using assms by (simp add: entry_length_def entry_tail_def)
qed

lemma entry_name_fields:
  assumes "writable_entry d" "de_name d = Some n"
  shows "u64_at (entry_bytes d) 16 = fn_parent n" "name_length_field (entry_bytes d) = length (fn_units n)"
    "map (\<lambda>i. u16_at (entry_bytes d) (82 + 2 * i)) [0..<length (fn_units n)] = fn_units n"
    "82 + 2 * length (fn_units n) \<le> entry_length d"
proof -
  let ?head = "to_le 8 (unat (de_reference d)) @ to_le 2 (entry_length d) @ to_le 2 (length (stream_bytes d)) @
      [entry_flags d] @ [0, 0, 0]"
  let ?post = "entry_padding d @ entry_tail d"
  let ?times = "to_le 8 (unat (fn_create n)) @ to_le 8 (unat (fn_alter n)) @ to_le 8 (unat (fn_mft n)) @
      to_le 8 (unat (fn_read n)) @ fn_sizes n @ to_le 4 (unat (fn_flags n)) @ fn_er n"
  let ?units = "concat (map (\<lambda>u. to_le 2 (unat u)) (fn_units n))"
  have w: "length (fn_sizes n) = 16" "length (fn_er n) = 4" "length (fn_units n) \<le> 255"
    using assms by (simp_all add: writable_entry_def)
  have e: "entry_bytes d = ?head @ (to_le 8 (unat (fn_parent n)) @ ?times @
      [of_nat (length (fn_units n)), fn_space n] @ ?units) @ ?post"
    by (simp add: entry_bytes_def stream_bytes_def assms(2) filename_bytes_def)
  show "u64_at (entry_bytes d) 16 = fn_parent n"
    by (rule u64_field [where pre = ?head]) (simp_all add: e)
  have "entry_bytes d = (?head @ to_le 8 (unat (fn_parent n)) @ ?times) @ of_nat (length (fn_units n)) #
      (fn_space n # ?units @ ?post)" by (simp add: e)
  moreover have "length (?head @ to_le 8 (unat (fn_parent n)) @ ?times) = 80" using w by simp
  ultimately have "entry_bytes d ! 80 = of_nat (length (fn_units n))" by (metis nth_append_len)
  then show "name_length_field (entry_bytes d) = length (fn_units n)"
    using w(3) by (simp add: unat_of_nat)
  show "map (\<lambda>i. u16_at (entry_bytes d) (82 + 2 * i)) [0..<length (fn_units n)] = fn_units n"
    by (rule units_field [where pre = "?head @ to_le 8 (unat (fn_parent n)) @ ?times @
        [of_nat (length (fn_units n)), fn_space n]" and post = ?post]) (use w in \<open>simp_all add: e\<close>)
  show "82 + 2 * length (fn_units n) \<le> entry_length d"
    using w by (simp add: entry_length_def stream_bytes_def assms(2) length_filename_bytes)
qed

lemma entry_sound:
  assumes "writable_entry d"
  shows "whole_entry (entry_bytes d)"
proof -
  have "sub_node_room (entry_bytes d)"
    by (cases "de_child d")
      (auto simp: sub_node_room_def entry_fields [OF assms] length_entry_bytes entry_flags_tests entry_length_def entry_tail_def)
  moreover have "stream_field (entry_bytes d) = 0 \<or> 82 \<le> size_field (entry_bytes d) \<and>
      82 + 2 * name_length_field (entry_bytes d) \<le> size_field (entry_bytes d)"
  proof (cases "de_name d")
    case None
    then show ?thesis by (simp add: entry_fields [OF assms] stream_bytes_def)
  next
    case (Some n)
    then show ?thesis
      using entry_name_fields(2,4) [OF assms Some] by (simp add: entry_fields [OF assms] length_entry_bytes)
  qed
  ultimately show ?thesis
    by (simp add: whole_entry_def sound_entry_def entry_fields [OF assms] length_entry_bytes)
      (simp add: entry_length_def)
qed

lemma Utf16ToWide_32_Nil: "Utf16ToWide_32 us = [] \<longleftrightarrow> us = []"
  by (cases "map ucast us :: u32 list" rule: merged.cases)
    (auto simp: Utf16ToWide_32_def utf16_to_wide_merged)

lemma view_of_shows:
  assumes "writable_entry d"
  shows "shows_entry (view_of (entry_bytes d)) d"
proof -
  note f = entry_fields [OF assms]
  have size: "entry_size v = entry_length d" if "ie_raw v = entry_bytes d" for v
    using that by (simp add: entry_size_def f length_entry_bytes)
  have sound: "sound_entry (entry_bytes d)" using entry_sound [OF assms] by (simp add: whole_entry_def)
  have sub: "IsSubNodePtr v \<longleftrightarrow> de_child d \<noteq> None" if "ie_raw v = entry_bytes d" for v
    using size [OF that] that
    by (cases "de_child d") (simp_all add: IsSubNodePtr_def f entry_flags_tests entry_consts(1) entry_length_def entry_tail_def)
  have child: "case de_child d of None \<Rightarrow> True | Some vcn \<Rightarrow> GetSubNodeVCN v = vcn" if "ie_raw v = entry_bytes d" for v
    using size [OF that] that by (auto simp: GetSubNodeVCN_def entry_child_field split: option.splits)
  show ?thesis
  proof (cases "de_name d")
    case None
    then have "view_of (entry_bytes d) = \<lparr>ie_raw = entry_bytes d, ie_filename = False, ie_name = []\<rparr>"
      by (simp add: view_of_def f stream_bytes_def)
    with sub child f None show ?thesis
      by (simp add: shows_entry_def GetFileReference_def GetSequenceNumber_def HasName_def GetFilename_def)
  next
    case (Some n)
    note nf = entry_name_fields [OF assms Some]
    have "stream_field (entry_bytes d) \<noteq> 0" "fn_units n \<noteq> []"
      using assms Some by (simp_all add: f length_stream_bytes(1) [OF assms] writable_entry_def)
    moreover from this have "view_of (entry_bytes d) =
        \<lparr>ie_raw = entry_bytes d, ie_filename = True, ie_name = Utf16ToWide_32 (fn_units n)\<rparr>"
      using sound nf by (simp add: view_of_def)
    ultimately show ?thesis
      using sub child f Some nf(1)
      by (simp add: shows_entry_def GetFileReference_def GetSequenceNumber_def HasName_def GetFilename_def
          GetParentReference_def GetParentSequenceNumber_def Utf16ToWide_32_Nil stream_at_def)
  qed
qed

lemma last_flag: "writable_entry d \<Longrightarrow> is_last (entry_bytes d) \<longleftrightarrow> de_last d"
  by (simp add: is_last_def entry_fields entry_flags_tests)

text \<open>The entries of a node: all writable, and the last one only has the end flag.\<close>

definition writable_node :: "dir_entry list \<Rightarrow> bool" where
  "writable_node ds \<longleftrightarrow> ds \<noteq> [] \<and> list_all writable_entry ds \<and> list_all (\<lambda>d. \<not> de_last d) (butlast ds) \<and> de_last (last ds)"

lemma node_loop:
  assumes "writable_node ds" "block = pre @ concat (map entry_bytes ds) @ rest"
    "length (concat (map entry_bytes ds)) \<le> limit" "limit < 4294967296"
  shows "entries_loop recover block (of_nat limit) (length pre) 0 True [] =
    Inr (True, map (view_of \<circ> entry_bytes) ds,
      Some (UsedEndOf limit (length block) (length pre + length (concat (map entry_bytes ds)))))"
proof -
  let ?es = "map entry_bytes ds"
  have n: "unat (of_nat limit :: u32) = limit" using assms(4) by (simp add: unat_of_nat)
  have w: "list_all writable_entry ds" "ds \<noteq> []" using assms(1) by (simp_all add: writable_node_def)
  have "list_all whole_entry ?es" using w(1) by (simp add: list_all_iff entry_sound)
  moreover have "list_all (\<lambda>e. \<not> is_last e) (butlast ?es)"
    using assms(1) w(1)
    by (auto simp: writable_node_def list_all_iff map_butlast [symmetric]) (metis in_set_butlastD last_flag)
  moreover have "is_last (last ?es)"
    using assms(1) w by (simp add: writable_node_def last_map last_flag list_all_iff)
  ultimately show ?thesis
    using assms(2,3) w(2) n entries_loop_reads [of block pre ?es rest "length pre" 0 "of_nat limit" recover True "[]"]
    by simp
qed

lemma shows_views: "writable_node ds \<Longrightarrow> list_all2 shows_entry (map (view_of \<circ> entry_bytes) ds) ds"
  by (auto simp: writable_node_def list_all_iff view_of_shows list_all2_conv_all_nth)

lemma parse_written_block:
  assumes "writable_node ds" "block = pre @ concat (map entry_bytes ds) @ rest" "40 \<le> length pre"
    "read_le 4 pre 24 = length pre - 24" "read_le 4 pre 28 = limit" "length (concat (map entry_bytes ds)) \<le> limit"
  shows "ParseIndexEntries recover block =
    Inr (True, \<lparr>ib_entries = map (view_of \<circ> entry_bytes) ds, ib_bytes = block, ib_used_end =
      Some (min (max (length pre + length (concat (map entry_bytes ds))) (24 + limit)) (length block))\<rparr>)"
proof -
  have "limit < 4294967296"
    using le_nat_bound [of "take 4 (drop 28 pre)"] assms(3,5) by (simp add: read_le_def)
  note loop = node_loop [OF assms(1,2,6) this, of recover]
  have "load_at 4 block 24 = Inr (length pre - 24)" "load_at 4 block 28 = Inr limit"
    using assms(3,4,5) by (simp_all add: load_at_def assms(2) read_le_append)
  then show ?thesis
    using loop assms(2,3) by (simp add: ParseIndexEntries_def entry_offset_pos_def UsedEndOf_def)
qed

text \<open>
  C9. A block that holds the entries of a node is read back whole, in either mode: the views show the
  references, names, parents, sub-node pointers and their VCNs that were written, in order, and slack
  starts where the entries end, or where the header says the used part ends.
\<close>

theorem index_block_read_back:
  assumes "writable_node ds" "block = pre @ concat (map entry_bytes ds) @ rest" "40 \<le> length pre"
    "read_le 4 pre 24 = length pre - 24" "read_le 4 pre 28 = limit" "length (concat (map entry_bytes ds)) \<le> limit"
  shows "\<exists>views. ParseIndexEntries recover block =
      Inr (True, \<lparr>ib_entries = views, ib_bytes = block, ib_used_end =
        Some (min (max (length pre + length (concat (map entry_bytes ds))) (24 + limit)) (length block))\<rparr>) \<and>
    list_all2 shows_entry views ds"
  using parse_written_block [OF assms] shows_views [OF assms(1)] by blast

section \<open>The root and a block are parsed alike\<close>

lemma root_loop_end:
  "cur \<le> length data \<Longrightarrow> length data < cur + 16 \<Longrightarrow>
     root_loop recover data limit cur ie_total entries =
       Inr (fst (stop_on_defect recover entries), fst (snd (stop_on_defect recover entries)))"
  by (subst root_loop.simps) (auto simp: stream_at_def Let_def stop_on_defect_def RejectOnDefect_def)

lemma root_loop_step:
  assumes "cur + 16 \<le> length data"
  shows "root_loop recover data limit cur ie_total entries =
    (let size = read_le 2 data (cur + 8); e = entry_at data cur
     in if size = 0 \<or> length data < cur + size \<or> limit < ie_total + of_nat size
        then Inr (fst (stop_on_defect recover entries), fst (snd (stop_on_defect recover entries)))
        else if \<not> sound_entry e \<and> \<not> recover then Inr (False, [])
        else if is_last e then Inr (True, entries @ [view_of e])
        else root_loop recover data limit (cur + size) (ie_total + of_nat size) (entries @ [view_of e]))"
proof -
  let ?size = "read_le 2 data (cur + 8)" and ?e = "entry_at data cur"
  note h = header_read [OF assms]
  show ?thesis
  proof (cases "?size = 0 \<or> length data < cur + ?size \<or> limit < ie_total + of_nat ?size")
    case True
    then show ?thesis
      using assms
      by (subst root_loop.simps) (auto simp: Let_def h stream_at_def stop_on_defect_def RejectOnDefect_def)
  next
    case False
    then have fit: "cur + ?size \<le> length data" by simp
    note f = entry_at_fields [OF assms fit] and a = entry_read [OF assms fit]
    obtain defect where d: "ValidateIndexEntry ?e = Inr defect" "defect = None \<longleftrightarrow> sound_entry ?e"
      using Validate_exact [OF f(1)] by blast
    show ?thesis
      using False assms d(2)
      by (subst root_loop.simps, cases defect)
        (simp_all add: Let_def h stream_at_def a d(1) new_view_exact [OF f(1)] f(3) RejectOnDefect_def)
  qed
qed

lemma root_loop_entries:
  "root_loop recover data limit cur ie_total entries =
     map_sum id (\<lambda>(good, es, u). (good, es)) (entries_loop recover data limit cur ie_total clean entries)"
proof (induction "length data - cur" arbitrary: cur ie_total clean entries rule: less_induct)
  case less
  show ?case
  proof (cases "cur + 16 \<le> length data")
    case False
    show ?thesis
    proof (cases "cur \<le> length data")
      case True
      with False show ?thesis by (simp add: entries_loop_end root_loop_end split: prod.split)
    next
      case False
      then show ?thesis by (subst root_loop.simps, subst entries_loop.simps) (simp add: Let_def split: prod.split)
    qed
  next
    case True
    let ?size = "read_le 2 data (cur + 8)"
    have "?size \<noteq> 0 \<Longrightarrow> length data - (cur + ?size) < length data - cur" using True by linarith
    from less.hyps [OF this] show ?thesis
      by (auto simp: entries_loop_step [OF True] root_loop_step [OF True] Let_def split: prod.splits)
  qed
qed

text \<open>
  The index root is parsed as an index block is: the two walks over entries give the same entries
  and the same verdict on the same bytes.
\<close>

lemma root_walk_is_block_walk:
  "root_loop recover bytes limit cur ie_total entries =
     map_sum id (\<lambda>(good, es, used_end). (good, es)) (entries_loop recover bytes limit cur ie_total clean entries)"
  by (rule root_loop_entries)

text \<open>
  C63. An index root attribute is read back: the views of its entries show what was written, in either
  mode. An index of anything but file names gives no entries.
\<close>

theorem index_root_read_back:
  assumes "data = pre @ concat (map entry_bytes ds) @ rest" "32 \<le> length pre" "writable_node ds"
    "read_le 4 pre 16 = length pre - 16" "length (concat (map entry_bytes ds)) \<le> read_le 4 pre 20"
  shows "\<exists>views. new_index_root recover data =
      Inr \<lparr>ir_entries = if u32_at pre 0 = type_file_name then views else [], ir_data = data\<rparr> \<and>
    list_all2 shows_entry views ds"
proof -
  let ?limit = "read_le 4 pre 20"
  have "?limit < 4294967296"
    using le_nat_bound [of "take 4 (drop 20 pre)"] assms(2) by (simp add: read_le_def)
  note loop = node_loop [OF assms(3,1,5) this, of recover]
  have n: "\<not> length data < 16" "\<not> length data - 16 < length pre - 16" using assms(2) by (simp_all add: assms(1))
  have "load_at 4 data 16 = Inr (length pre - 16)" "load_at 4 data 20 = Inr ?limit"
    using assms(2,4) by (simp_all add: load_at_def assms(1) read_le_append)
  then have "ParseRootEntries recover data = Inr (True, map (view_of \<circ> entry_bytes) ds)"
    using loop assms(2) n
    by (simp add: ParseRootEntries_def root_entry_offset_pos_def root_loop_entries [where clean = True])
  moreover have "u32_at data 0 = u32_at pre 0" using assms(2) by (simp add: assms(1) u32_at_def read_le_append)
  moreover have type_read: "load_at 4 data 0 = Inr (read_le 4 data 0)" using assms(2) by (simp add: assms(1) load_at_Inr)
  ultimately have "new_index_root recover data =
      Inr \<lparr>ir_entries = if u32_at pre 0 = type_file_name then map (view_of \<circ> entry_bytes) ds else [], ir_data = data\<rparr>"
    using assms(1,2) type_read by (simp add: new_index_root_def Let_def sizeof_index_root_def IsFileName_def)
  with shows_views [OF assms(3)] show ?thesis by blast
qed

section \<open>Index blocks\<close>

text \<open>
  AttrIndexAlloc as the parse of a block sees it. ReadData() of the attribute gives the bytes it could
  read at an offset, or nothing; its first and last VCN and the clusters its run lists map are fields
  of the attribute. The block source, where there is one, gives the bytes it holds for a
  VCN, none when it holds no such block.
\<close>

record index_alloc =
  ia_block_size :: u32
  ia_cluster_size :: u32
  ia_block_count :: u64
  ia_start_vcn :: u64
  ia_last_vcn :: u64
  ia_total_clusters :: u64
  ia_recover :: bool
  ia_read :: "u64 \<Rightarrow> byte list option"
  ia_source :: "(u64 \<Rightarrow> byte list) option"

text \<open>GetIndexBlockCount(), as the constructor computes it from the size of the stream.\<close>

definition block_count_of :: "u64 \<Rightarrow> u32 \<Rightarrow> u64" where
  "block_count_of total_size index_block_size =
    (if total_size mod ucast index_block_size \<noteq> 0 then 0 else total_size div ucast index_block_size)"

definition ReadBlockBytes :: "index_alloc \<Rightarrow> u64 \<Rightarrow> byte list option" where
  "ReadBlockBytes a offset =
    (case ia_read a offset of
       None \<Rightarrow> None
     | Some bytes \<Rightarrow> if length bytes = unat (ia_block_size a) then Some bytes else None)"

definition CopyHeldBlock :: "index_alloc \<Rightarrow> u64 \<Rightarrow> byte list option" where
  "CopyHeldBlock a vcn =
    (case ia_source a of
       None \<Rightarrow> None
     | Some source \<Rightarrow> let held = source vcn in if length held \<noteq> unat (ia_block_size a) then None else Some held)"

text \<open>FixupIndexBlock() then ParseIndexEntries(), the end of both parses.\<close>

definition parse_fixed :: "index_alloc \<Rightarrow> byte list \<Rightarrow> index_error + index_block option" where
  "parse_fixed a block =
    (case FixupIndexBlock (unat (ia_block_size a)) block of
       Inl _ \<Rightarrow> Inl IndexOutOfBounds
     | Inr (good, fixed) \<Rightarrow>
         if \<not> good then Inr None
         else bind_r (ParseIndexEntries (ia_recover a) fixed) (\<lambda>(good, b). Inr (if good then Some b else None)))"

definition ParseIndexBlock :: "index_alloc \<Rightarrow> u64 \<Rightarrow> index_error + index_block option" where
  "ParseIndexBlock a vcn =
    (case BlockOffset (ia_block_size a) (ia_cluster_size a) (ia_block_count a) vcn of
       None \<Rightarrow> Inr None
     | Some byte_offset \<Rightarrow>
         (case CopyHeldBlock a vcn of
            Some block \<Rightarrow> parse_fixed a block
          | None \<Rightarrow>
              (case ReadBlockBytes a byte_offset of
                 None \<Rightarrow> Inr None
               | Some block \<Rightarrow> parse_fixed a block)))"

definition ParseHeldIndexBlock :: "index_alloc \<Rightarrow> u64 \<Rightarrow> index_error + index_block option" where
  "ParseHeldIndexBlock a vcn =
    (case CopyHeldBlock a vcn of
       None \<Rightarrow> Inr None
     | Some block \<Rightarrow>
         if BlockOffset (ia_block_size a) (ia_cluster_size a) (ia_block_count a) vcn = None then Inr None
         else parse_fixed a block)"

lemma parse_fixed_sound:
  assumes "40 \<le> ia_block_size a" "length block = unat (ia_block_size a)"
  shows "\<exists>r. parse_fixed a block = Inr r \<and>
    (case r of None \<Rightarrow> True
     | Some b \<Rightarrow> length (ib_bytes b) = unat (ia_block_size a) \<and> list_all view_ok (ib_entries b) \<and>
         (ia_recover a \<or> list_all (sound_entry \<circ> ie_raw) (ib_entries b)))"
proof -
  have l: "40 \<le> length block" using assms by (simp add: word_le_nat_alt)
  then obtain good fixed where f: "FixupIndexBlock (length block) block = Inr (good, fixed)" "length fixed = length block"
    using FixupIndexBlock_exact [of block] by (auto simp: index_block_header_size_def)
  then have "40 \<le> length fixed" using l by simp
  from parse_entries_sound [OF this, of "ia_recover a"] obtain g b where
      "ParseIndexEntries (ia_recover a) fixed = Inr (g, b)" "ib_bytes b = fixed" "list_all view_ok (ib_entries b)"
      "ia_recover a \<or> list_all (sound_entry \<circ> ie_raw) (ib_entries b)"
    by blast
  with f assms(2) show ?thesis
    by (cases good; cases g) (simp_all add: parse_fixed_def)
qed

text \<open>
  C21. Parsing a block of the index always gives a verdict, and never reads outside the block: a
  block that is not addressable, not read whole, or that fails its checks gives nothing, another one
  its entries. A block the source holds is parsed without a read, to the same result.
\<close>

theorem parse_index_block_total:
  assumes "40 \<le> ia_block_size a"
  shows "\<exists>r. ParseIndexBlock a vcn = Inr r \<and>
    ParseHeldIndexBlock a vcn = Inr (if CopyHeldBlock a vcn = None then None else r) \<and>
    (case r of None \<Rightarrow> True
     | Some b \<Rightarrow> length (ib_bytes b) = unat (ia_block_size a) \<and> list_all view_ok (ib_entries b) \<and>
         (ia_recover a \<or> list_all (sound_entry \<circ> ie_raw) (ib_entries b)))"
proof -
  have h: "length block = unat (ia_block_size a)" if "CopyHeldBlock a vcn = Some block" for block
    using that by (auto simp: CopyHeldBlock_def Let_def split: option.splits if_splits)
  have r: "length block = unat (ia_block_size a)" if "ReadBlockBytes a off = Some block" for block off
    using that by (auto simp: ReadBlockBytes_def split: option.splits if_splits)
  show ?thesis
  proof (cases "BlockOffset (ia_block_size a) (ia_cluster_size a) (ia_block_count a) vcn")
    case None
    then show ?thesis by (auto simp: ParseIndexBlock_def ParseHeldIndexBlock_def split: option.splits)
  next
    case (Some off)
    show ?thesis
    proof (cases "CopyHeldBlock a vcn")
      case (Some block)
      from parse_fixed_sound [OF assms h [OF this]] Some show ?thesis
        using \<open>BlockOffset _ _ _ _ = Some off\<close> by (simp add: ParseIndexBlock_def ParseHeldIndexBlock_def)
    next
      case None
      show ?thesis
      proof (cases "ReadBlockBytes a off")
        case (Some block)
        from parse_fixed_sound [OF assms r [OF this]] Some None show ?thesis
          using \<open>BlockOffset _ _ _ _ = Some off\<close> by (simp add: ParseIndexBlock_def ParseHeldIndexBlock_def)
      qed (use None \<open>BlockOffset _ _ _ _ = Some off\<close> in \<open>simp add: ParseIndexBlock_def ParseHeldIndexBlock_def\<close>)
    qed
  qed
qed

section \<open>Blocks the theorems apply to\<close>

definition sample_node :: "dir_entry list" where
  "sample_node =
    [\<lparr>de_reference = 0x0007000000000040, de_name = Some sample_file_name, de_child = Some 3, de_last = False\<rparr>,
     \<lparr>de_reference = 0, de_name = None, de_child = Some 4, de_last = True\<rparr>]"

definition sample_block_head :: "byte list" where
  "sample_block_head = replicate 24 0 @ to_le 4 16 @ to_le 4 120 @ replicate 8 0"

definition sample_index_block :: "byte list" where
  "sample_index_block = sample_block_head @ concat (map entry_bytes sample_node) @ replicate 8 0"

definition sample_root_head :: "byte list" where
  "sample_root_head = to_le 4 0x30 @ replicate 12 0 @ to_le 4 16 @ to_le 4 120 @ replicate 8 0"

definition sample_index_root :: "byte list" where
  "sample_index_root = sample_root_head @ concat (map entry_bytes sample_node)"

definition sample_alloc :: index_alloc where
  "sample_alloc = \<lparr>ia_block_size = 4096, ia_cluster_size = 4096, ia_block_count = 4,
     ia_start_vcn = 0, ia_last_vcn = 3, ia_total_clusters = 4, ia_recover = False,
     ia_read = (\<lambda>offset. Some (replicate 4096 0)), ia_source = None\<rparr>"

lemma sample_node_writable: "writable_node sample_node"
  by (simp add: writable_node_def sample_node_def writable_entry_def sample_file_name_def)

lemma length_sample_node: "length (concat (map entry_bytes sample_node)) = 120"
  by (simp add: sample_node_def length_entry_bytes entry_length_def entry_padding_def entry_tail_def stream_bytes_def
      length_filename_bytes sample_file_name_def)

lemma parse_entries_safe_witness:
  "\<exists>good b. ParseIndexEntries True sample_index_block = Inr (good, b) \<and> ib_bytes b = sample_index_block \<and> list_all view_ok (ib_entries b)"
proof -
  have "40 \<le> length sample_index_block" by (simp add: sample_index_block_def sample_block_head_def)
  from parse_entries_safe [OF this, of True] show ?thesis by blast
qed

lemma index_block_read_back_witness:
  "\<exists>views. ParseIndexEntries False sample_index_block =
      Inr (True, \<lparr>ib_entries = views, ib_bytes = sample_index_block, ib_used_end = Some 160\<rparr>) \<and>
    list_all2 shows_entry views sample_node"
proof -
  have "read_le 4 sample_block_head 24 = length sample_block_head - 24" "read_le 4 sample_block_head 28 = 120"
      "length sample_block_head = 40"
    by (simp_all add: sample_block_head_def read_le_def le_nat_to_le)
  then show ?thesis
    using index_block_read_back [OF sample_node_writable sample_index_block_def, of 120 False]
    by (simp add: length_sample_node sample_index_block_def)
qed

lemma index_root_read_back_witness:
  "\<exists>views. new_index_root False sample_index_root = Inr \<lparr>ir_entries = views, ir_data = sample_index_root\<rparr> \<and>
    list_all2 shows_entry views sample_node"
proof -
  have r: "read_le 4 sample_root_head 16 = length sample_root_head - 16" "read_le 4 sample_root_head 20 = 120"
      "length sample_root_head = 32" "u32_at sample_root_head 0 = type_file_name"
    by (simp_all add: sample_root_head_def read_le_def u32_at_def type_file_name_def le_nat_to_le)
  have "sample_index_root = sample_root_head @ concat (map entry_bytes sample_node) @ []"
    by (simp add: sample_index_root_def)
  from index_root_read_back [OF this _ sample_node_writable, of False] r length_sample_node show ?thesis
    by simp
qed

lemma parse_index_block_total_witness:
  "\<exists>r. ParseIndexBlock sample_alloc 2 = Inr r \<and> ParseHeldIndexBlock sample_alloc 2 = Inr None"
  using parse_index_block_total [of sample_alloc 2] by (auto simp: sample_alloc_def CopyHeldBlock_def)

end
