(* ===== verification/DirectoryIndex.thy ===== *)
theory DirectoryIndex
  imports IndexEntries
begin

text \<open>
  The B+ tree of a directory: class DirectoryIndex of src/io/file-record-index.cpp. It searches a name
  down the $INDEX_ROOT and the blocks of $INDEX_ALLOCATION, walks every entry in collation order,
  reports the blocks no pointer leads to, and carves deleted names from the blocks' slack. The blocks
  are those of IndexEntries. What the file record of an entry looks like is the function dir_probe of
  the directory: the parse of a file record is not modelled here. A walk is batched when it reports
  the standing of each record; the prober only groups the reads, so it answers what dir_probe does.
\<close>

section \<open>Model\<close>

text \<open>NamedState of src/io/entry-prober.h, RecordStanding of include/ntfs-browser/io/record-standing.h.\<close>

record named_state =
  ns_parsed :: bool
  ns_deleted :: bool
  ns_sequence :: u16

datatype record_standing = Live | Deleted | Reused | Unreadable

text \<open>The record of a directory, as DirectoryIndex sees it: its attributes, identity and options.\<close>

record directory =
  dir_root :: "index_root option"
  dir_alloc :: "index_alloc option"
  dir_probe :: "u64 \<Rightarrow> named_state"
  dir_recover :: bool
  dir_include_deleted :: bool
  dir_bypass_deleted_gate :: bool
  dir_file_ref :: "u64 option"
  dir_sequence :: u16
  dir_in_use :: bool

definition max_index_block_depth :: nat where "max_index_block_depth = 64"
definition max_orphan_scan_blocks :: u64 where "max_orphan_scan_blocks = 65536"
definition max_index_slack_candidates :: nat where "max_index_slack_candidates = 1048576"

text \<open>The block at a sub-node VCN, where there is a $INDEX_ALLOCATION and the block parses.\<close>

definition block_at :: "directory \<Rightarrow> u64 \<Rightarrow> index_block option" where
  "block_at d vcn =
    (case dir_alloc d of
       None \<Rightarrow> None
     | Some a \<Rightarrow> (case ParseIndexBlock a vcn of Inl _ \<Rightarrow> None | Inr r \<Rightarrow> r))"

subsection \<open>Which entries are reported\<close>

definition IsHiddenGiven :: "directory \<Rightarrow> named_state \<Rightarrow> index_entry \<Rightarrow> bool" where
  "IsHiddenGiven d named e =
    (if \<not> ns_parsed named then \<not> dir_recover d
     else if dir_include_deleted d \<or> dir_bypass_deleted_gate d then False
     else ns_deleted named \<or> ns_sequence named \<noteq> GetSequenceNumber e)"

definition IsEntryHidden :: "directory \<Rightarrow> index_entry \<Rightarrow> bool" where
  "IsEntryHidden d e = IsHiddenGiven d (dir_probe d (GetFileReference e)) e"

definition StandingOf :: "named_state \<Rightarrow> index_entry \<Rightarrow> record_standing" where
  "StandingOf named e =
    (if \<not> ns_parsed named then Unreadable
     else if ns_deleted named then Deleted
     else if GetSequenceNumber e \<noteq> 0 \<and> GetSequenceNumber e \<noteq> ns_sequence named then Reused
     else Live)"

record orphan_owner =
  oo_file_ref :: "u64 option"
  oo_sequence :: u16
  oo_in_use :: bool

definition OwnerOf :: "directory \<Rightarrow> orphan_owner" where
  "OwnerOf d = \<lparr>oo_file_ref = dir_file_ref d, oo_sequence = dir_sequence d, oo_in_use = dir_in_use d\<rparr>"

definition IsFiledUnder :: "u64 \<Rightarrow> u16 \<Rightarrow> orphan_owner \<Rightarrow> bool" where
  "IsFiledUnder parent_record parent_sequence owner \<longleftrightarrow>
    (case oo_file_ref owner of
       None \<Rightarrow> True
     | Some file_ref \<Rightarrow> parent_record = file_ref \<and>
         IsSameRecordGeneration parent_sequence (oo_sequence owner) (oo_in_use owner))"

definition IsOrphanEntryReportable :: "index_entry \<Rightarrow> orphan_owner \<Rightarrow> bool" where
  "IsOrphanEntryReportable e owner \<longleftrightarrow> IsFiledUnder (GetParentReference e) (GetParentSequenceNumber e) owner"

subsection \<open>The walk\<close>

text \<open>An entry handed to the callback, with the standing of its record in a batched walk.\<close>

datatype delivery = Delivery (dl_entry: index_entry) (dl_standing: "record_standing option")

record walk =
  wk_visited :: "u64 set"
  wk_out :: "delivery list"

definition Deliver :: "directory \<Rightarrow> bool \<Rightarrow> index_entry \<Rightarrow> walk \<Rightarrow> walk" where
  "Deliver d batched e w =
    (if \<not> batched then
       if \<not> IsEntryHidden d e then w\<lparr>wk_out := wk_out w @ [Delivery e None]\<rparr> else w
     else
       let named = dir_probe d (GetFileReference e)
       in if \<not> IsHiddenGiven d named e then w\<lparr>wk_out := wk_out w @ [Delivery e (Some (StandingOf named e))]\<rparr>
          else w)"

function (sequential)
  TraverseSubNode :: "directory \<Rightarrow> bool \<Rightarrow> u64 \<Rightarrow> walk \<Rightarrow> nat \<Rightarrow> walk" and
  traverse_entries :: "directory \<Rightarrow> bool \<Rightarrow> index_entry list \<Rightarrow> walk \<Rightarrow> nat \<Rightarrow> walk" where
  "TraverseSubNode d batched vcn w depth =
    (if max_index_block_depth \<le> depth then w
     else if vcn \<in> wk_visited w then w
     else
       let w = w\<lparr>wk_visited := insert vcn (wk_visited w)\<rparr>
       in case block_at d vcn of
            None \<Rightarrow> w
          | Some b \<Rightarrow> traverse_entries d batched (ib_entries b) w (depth + 1))"
| "traverse_entries d batched [] w child_depth = w"
| "traverse_entries d batched (e # es) w child_depth =
    (let w = (if IsSubNodePtr e then TraverseSubNode d batched (GetSubNodeVCN e) w child_depth else w);
         w = (if HasName e then Deliver d batched e w else w)
     in traverse_entries d batched es w child_depth)"
  by pat_completeness auto
termination
  by (relation "inv_image (less_than <*lex*> less_than)
      (\<lambda>x. case x of Inl (d, batched, vcn, w, depth) \<Rightarrow> (64 - depth, 0)
         | Inr (d, batched, es, w, depth) \<Rightarrow> (64 - depth, Suc (length es)))")
    (auto simp: max_index_block_depth_def)

declare TraverseSubNode.simps [simp del]

record orphan_scan_plan =
  op_clusters_per_block :: u64
  op_declared_blocks :: u64
  op_scan_limit :: u64
  op_capped :: bool

definition MappedIndexBlocks :: "u64 \<Rightarrow> u32 \<Rightarrow> u32 \<Rightarrow> u64" where
  "MappedIndexBlocks mapped_clusters cluster_size index_block_size =
    (let mapped_bytes =
           (if cluster_size \<noteq> 0 \<and> mapped_clusters > u64_max div ucast cluster_size then u64_max
            else mapped_clusters * ucast cluster_size)
     in mapped_bytes div ucast index_block_size)"

definition ClustersPerIndexBlock :: "u32 \<Rightarrow> u32 \<Rightarrow> u64" where
  "ClustersPerIndexBlock index_block_size cluster_size =
    (if cluster_size \<noteq> 0 \<and> index_block_size \<ge> cluster_size then ucast (index_block_size div cluster_size) else 1)"

definition PlanOrphanScan :: "index_alloc \<Rightarrow> orphan_scan_plan" where
  "PlanOrphanScan a =
    (let mapped_clusters = (if ia_last_vcn a \<ge> ia_start_vcn a then ia_total_clusters a else 0);
         mapped_block_count = MappedIndexBlocks mapped_clusters (ia_cluster_size a) (ia_block_size a);
         declared_block_count = ia_block_count a;
         block_count = (if declared_block_count < mapped_block_count then declared_block_count else mapped_block_count)
     in \<lparr>op_clusters_per_block = ClustersPerIndexBlock (ia_block_size a) (ia_cluster_size a),
         op_declared_blocks = declared_block_count,
         op_scan_limit = (if block_count < max_orphan_scan_blocks then block_count else max_orphan_scan_blocks),
         op_capped = (declared_block_count > max_orphan_scan_blocks \<or> declared_block_count > mapped_block_count)\<rparr>)"

definition ReportOrphanedBlock :: "directory \<Rightarrow> bool \<Rightarrow> u64 \<Rightarrow> walk \<Rightarrow> walk" where
  "ReportOrphanedBlock d batched vcn w =
    (case block_at d vcn of
       None \<Rightarrow> w
     | Some b \<Rightarrow>
         fold (\<lambda>e w. if HasName e \<and> IsOrphanEntryReportable e (OwnerOf d) then Deliver d batched e w else w)
           (ib_entries b) w)"

definition block_vcn :: "orphan_scan_plan \<Rightarrow> nat \<Rightarrow> u64" where
  "block_vcn plan block_index = of_nat block_index * op_clusters_per_block plan"

definition ScanOrphanedIndexBlocks :: "directory \<Rightarrow> bool \<Rightarrow> walk \<Rightarrow> walk" where
  "ScanOrphanedIndexBlocks d batched w =
    (case dir_alloc d of
       None \<Rightarrow> w
     | Some a \<Rightarrow>
         let plan = PlanOrphanScan a
         in fold (\<lambda>block_index w.
              let vcn = block_vcn plan block_index
              in if vcn \<in> wk_visited w then w
                 else ReportOrphanedBlock d batched vcn (w\<lparr>wk_visited := insert vcn (wk_visited w)\<rparr>))
            [0..<unat (op_scan_limit plan)] w)"

definition Walk :: "directory \<Rightarrow> bool \<Rightarrow> delivery list" where
  "Walk d batched =
    (let w = \<lparr>wk_visited = {}, wk_out = []\<rparr>
     in case dir_root d of
          None \<Rightarrow> wk_out (if dir_recover d then ScanOrphanedIndexBlocks d batched w else w)
        | Some root \<Rightarrow>
            if \<not> IsFileName root then wk_out w
            else
              let w = traverse_entries d batched (ir_entries root) w 0
              in wk_out (if dir_recover d then ScanOrphanedIndexBlocks d batched w else w))"

definition Traverse :: "directory \<Rightarrow> index_entry list" where
  "Traverse d = map dl_entry (Walk d False)"

definition TraverseWithStanding :: "directory \<Rightarrow> (index_entry \<times> record_standing option) list" where
  "TraverseWithStanding d = map (\<lambda>x. (dl_entry x, dl_standing x)) (Walk d True)"

subsection \<open>The blocks and records a walk will need\<close>

text \<open>RootChildBlocks(): the VCNs the root points to, each once, in the order the walk meets them.\<close>

fun root_children :: "index_entry list \<Rightarrow> u64 set \<Rightarrow> u64 list \<Rightarrow> u64 list" where
  "root_children [] seen vcns = vcns"
| "root_children (e # es) seen vcns =
    (if IsSubNodePtr e \<and> GetSubNodeVCN e \<notin> seen
     then root_children es (insert (GetSubNodeVCN e) seen) (vcns @ [GetSubNodeVCN e])
     else root_children es seen vcns)"

definition RootChildBlocks :: "directory \<Rightarrow> (index_alloc \<times> u64 list) option" where
  "RootChildBlocks d =
    (case (dir_root d, dir_alloc d) of
       (Some root, Some a) \<Rightarrow>
         if \<not> IsFileName root then None
         else let vcns = root_children (ir_entries root) {} [] in if vcns = [] then None else Some (a, vcns)
     | _ \<Rightarrow> None)"

definition NamedRecordsOf :: "index_entry list \<Rightarrow> u64 list" where
  "NamedRecordsOf entries = map GetFileReference (filter HasName entries)"

definition held_block_at :: "directory \<Rightarrow> u64 \<Rightarrow> index_block option" where
  "held_block_at d vcn =
    (case dir_alloc d of
       None \<Rightarrow> None
     | Some a \<Rightarrow> (case ParseHeldIndexBlock a vcn of Inl _ \<Rightarrow> None | Inr r \<Rightarrow> r))"

definition push_group :: "u64 list \<Rightarrow> u64 list list \<Rightarrow> u64 list list" where
  "push_group records groups = (if records \<noteq> [] then groups @ [records] else groups)"

function (sequential)
  CollectProbeGroups :: "directory \<Rightarrow> u64 \<Rightarrow> u64 set \<times> u64 list list \<Rightarrow> nat \<Rightarrow> u64 set \<times> u64 list list" and
  collect_entries :: "directory \<Rightarrow> index_entry list \<Rightarrow> u64 set \<times> u64 list list \<Rightarrow> nat \<Rightarrow> u64 set \<times> u64 list list" where
  "CollectProbeGroups d vcn (visited, groups) depth =
    (if max_index_block_depth \<le> depth \<or> vcn \<in> visited then (visited, groups)
     else case held_block_at d vcn of
         None \<Rightarrow> (insert vcn visited, groups)
       | Some b \<Rightarrow>
           collect_entries d (ib_entries b)
             (insert vcn visited, push_group (NamedRecordsOf (ib_entries b)) groups) (depth + 1))"
| "collect_entries d [] state child_depth = state"
| "collect_entries d (e # es) state child_depth =
    collect_entries d es
      (if IsSubNodePtr e then CollectProbeGroups d (GetSubNodeVCN e) state child_depth else state) child_depth"
  by pat_completeness auto
termination
  by (relation "inv_image (less_than <*lex*> less_than)
      (\<lambda>x. case x of Inl (d, vcn, state, depth) \<Rightarrow> (64 - depth, 0)
         | Inr (d, es, state, depth) \<Rightarrow> (64 - depth, Suc (length es)))")
    (auto simp: max_index_block_depth_def)

declare CollectProbeGroups.simps [simp del]

definition HeldProbeGroups :: "directory \<Rightarrow> u64 list list" where
  "HeldProbeGroups d =
    (case dir_root d of
       None \<Rightarrow> []
     | Some root \<Rightarrow>
         if \<not> IsFileName root then []
         else snd (collect_entries d (ir_entries root) ({}, push_group (NamedRecordsOf (ir_entries root)) []) 0))"

subsection \<open>The search\<close>

record index_search =
  is_file_name :: "u32 list"
  is_upcase :: upcase_table
  is_visited_vcns :: "u64 set"
  is_fallback :: "index_entry option"
  is_fallback_at_root :: bool
  is_met_equal :: bool

text \<open>
  A result of the search: the entry found, and the state. An IndexEntry made from a view owns the same
  bytes, so it is the view.
\<close>

type_synonym search_result = "index_entry option \<times> index_search"

function (sequential)
  VisitIndexBlock :: "directory \<Rightarrow> u64 \<Rightarrow> index_search \<Rightarrow> nat \<Rightarrow> search_result" and
  MatchEqualEntry :: "directory \<Rightarrow> index_entry \<Rightarrow> index_search \<Rightarrow> nat \<Rightarrow> bool \<Rightarrow> search_result" and
  SearchIndexEntries :: "directory \<Rightarrow> index_entry list \<Rightarrow> index_search \<Rightarrow> nat \<Rightarrow> bool \<Rightarrow> search_result" where
  "VisitIndexBlock d vcn s depth =
    (if max_index_block_depth \<le> depth then (None, s)
     else if vcn \<in> is_visited_vcns s then (None, s)
     else
       let s = s\<lparr>is_visited_vcns := insert vcn (is_visited_vcns s)\<rparr>
       in case block_at d vcn of
            None \<Rightarrow> (None, s)
          | Some b \<Rightarrow> SearchIndexEntries d (ib_entries b) s (depth + 1) False)"
| "MatchEqualEntry d e s child_depth at_root =
    (let hidden = IsEntryHidden d e; s = s\<lparr>is_met_equal := True\<rparr>
     in if \<not> hidden \<and> GetFilename e = is_file_name s then (Some e, s)
        else case (if IsSubNodePtr e then VisitIndexBlock d (GetSubNodeVCN e) s child_depth else (None, s)) of
            (Some twin, s) \<Rightarrow> (Some twin, s)
          | (None, s) \<Rightarrow>
              (None, if \<not> hidden \<and> is_fallback s = None
                     then s\<lparr>is_fallback := Some e, is_fallback_at_root := at_root\<rparr> else s))"
| "SearchIndexEntries d [] s child_depth at_root = (None, s)"
| "SearchIndexEntries d (e # es) s child_depth at_root =
    (let comparison = CompareName e (is_file_name s) (is_upcase s)
     in if HasName e \<and> comparison = 0 then
          (case MatchEqualEntry d e s child_depth at_root of
             (Some found, s) \<Rightarrow> (Some found, s)
           | (None, s) \<Rightarrow> SearchIndexEntries d es s child_depth at_root)
        else if HasName e \<and> comparison > 0 then SearchIndexEntries d es s child_depth at_root
        else if HasName e \<and> \<not> IsSubNodePtr e then (None, s)
        else if \<not> IsSubNodePtr e then SearchIndexEntries d es s child_depth at_root
        else case VisitIndexBlock d (GetSubNodeVCN e) s child_depth of
            (Some found, s) \<Rightarrow> (Some found, s)
          | (None, s) \<Rightarrow> if is_met_equal s then (None, s) else SearchIndexEntries d es s child_depth at_root)"
  by pat_completeness auto
termination
  by (relation "inv_image (less_than <*lex*> less_than)
      (\<lambda>x. case x of Inl (d, vcn, s, depth) \<Rightarrow> (64 - depth, 0)
         | Inr (Inl (d, e, s, depth, root)) \<Rightarrow> (64 - depth, 1)
         | Inr (Inr (d, es, s, depth, root)) \<Rightarrow> (64 - depth, Suc (length es)))")
    (auto simp: max_index_block_depth_def)

declare VisitIndexBlock.simps [simp del] MatchEqualEntry.simps [simp del] SearchIndexEntries.simps(2) [simp del]

definition FindSubEntryInOrder :: "directory \<Rightarrow> u32 list \<Rightarrow> upcase_table \<Rightarrow> index_entry option" where
  "FindSubEntryInOrder d file_name upcase =
    (case dir_root d of
       None \<Rightarrow> None
     | Some root \<Rightarrow>
         if \<not> IsFileName root then None
         else
           let s = \<lparr>is_file_name = file_name, is_upcase = upcase, is_visited_vcns = {}, is_fallback = None,
                    is_fallback_at_root = False, is_met_equal = False\<rparr>
           in case SearchIndexEntries d (ir_entries root) s 0 True of
                (Some exact, s) \<Rightarrow> Some exact
              | (None, s) \<Rightarrow> is_fallback s)"

definition scan_callback :: "u32 list \<Rightarrow> upcase_table \<Rightarrow> index_entry \<Rightarrow> index_entry option \<Rightarrow> index_entry option" where
  "scan_callback file_name upcase e found =
    (if CompareName e file_name upcase \<noteq> 0 then found
     else
       let exact = (GetFilename e = file_name)
       in case found of
            None \<Rightarrow> Some e
          | Some f \<Rightarrow> if exact \<and> GetFilename f \<noteq> file_name then Some e else found)"

definition Find :: "directory \<Rightarrow> u32 list \<Rightarrow> upcase_table \<Rightarrow> index_entry option" where
  "Find d file_name upcase =
    (let found = FindSubEntryInOrder d file_name upcase
     in if found \<noteq> None \<or> \<not> IsBuiltIn upcase then found
        else fold (scan_callback file_name upcase) (Traverse d) found)"

subsection \<open>Deleted names in the slack\<close>

record slack_findings =
  sf_live_names :: "u32 list set"
  sf_candidates :: "carved_name list"
  sf_capped :: bool

definition IsRepeatedCandidate :: "slack_findings \<Rightarrow> carved_name \<Rightarrow> bool" where
  "IsRepeatedCandidate findings candidate =
    list_ex (\<lambda>seen. cn_name seen = cn_name candidate \<and> SameCarvedName seen candidate) (sf_candidates findings)"

fun KeepSlackCandidates :: "carved_name list \<Rightarrow> orphan_owner \<Rightarrow> slack_findings \<Rightarrow> slack_findings" where
  "KeepSlackCandidates [] owner findings = findings"
| "KeepSlackCandidates (candidate # carved) owner findings =
    (if \<not> cn_parent_known candidate \<or>
        \<not> IsFiledUnder (cn_parent_record candidate) (cn_parent_sequence candidate) owner \<or>
        IsRepeatedCandidate findings candidate
     then KeepSlackCandidates carved owner findings
     else if length (sf_candidates findings) \<ge> max_index_slack_candidates then findings\<lparr>sf_capped := True\<rparr>
     else KeepSlackCandidates carved owner (findings\<lparr>sf_candidates := sf_candidates findings @ [candidate]\<rparr>))"

definition live_names :: "index_entry list \<Rightarrow> u32 list set" where
  "live_names entries = set (map GetFilename (filter HasName entries))"

definition CarveBlockSlack :: "directory \<Rightarrow> u64 \<Rightarrow> orphan_owner \<Rightarrow> slack_findings \<Rightarrow> slack_findings" where
  "CarveBlockSlack d vcn owner findings =
    (case block_at d vcn of
       None \<Rightarrow> findings
     | Some b \<Rightarrow>
         (case ib_used_end b of
            None \<Rightarrow> findings
          | Some used_end \<Rightarrow>
              let findings = findings\<lparr>sf_live_names := sf_live_names findings \<union> live_names (ib_entries b)\<rparr>
              in case CarveFileNamesFrom (ib_bytes b) used_end IndexSlack of
                   Inl _ \<Rightarrow> findings
                 | Inr carved \<Rightarrow> KeepSlackCandidates carved owner findings))"

fun carve_blocks :: "directory \<Rightarrow> orphan_scan_plan \<Rightarrow> orphan_owner \<Rightarrow> nat list \<Rightarrow> slack_findings \<Rightarrow> slack_findings" where
  "carve_blocks d plan owner [] findings = findings"
| "carve_blocks d plan owner (block_index # rest) findings =
    (if sf_capped findings then findings
     else carve_blocks d plan owner rest (CarveBlockSlack d (block_vcn plan block_index) owner findings))"

text \<open>What every block of the plan adds to the findings, from the names of the root's entries.\<close>

definition slack_findings_of :: "directory \<Rightarrow> index_alloc \<Rightarrow> u32 list set \<Rightarrow> slack_findings" where
  "slack_findings_of d a names =
    (let plan = PlanOrphanScan a
     in carve_blocks d plan (OwnerOf d) [0..<unat (op_scan_limit plan)]
          \<lparr>sf_live_names = names, sf_candidates = [], sf_capped = False\<rparr>)"

definition forget_live :: "slack_findings \<Rightarrow> carved_name list" where
  "forget_live findings = filter (\<lambda>c. cn_name c \<notin> sf_live_names findings) (sf_candidates findings)"

definition CarveSlackNames :: "directory \<Rightarrow> carved_name list" where
  "CarveSlackNames d =
    (case dir_alloc d of
       None \<Rightarrow> []
     | Some a \<Rightarrow>
         if \<not> dir_recover d \<or> \<not> dir_include_deleted d \<or> oo_file_ref (OwnerOf d) = None then []
         else
           case dir_root d of
             None \<Rightarrow> forget_live (slack_findings_of d a {})
           | Some root \<Rightarrow>
               if \<not> IsFileName root then []
               else forget_live (slack_findings_of d a (live_names (ir_entries root))))"

section \<open>A sound tree\<close>

text \<open>
  A node of a B+ tree as a list of entries: an entry without a block below, or with one, then the rest
  of the node.
\<close>

datatype btree = End | Leaf index_entry btree | Inner index_entry btree btree

fun entries_of :: "btree \<Rightarrow> index_entry list" where
  "entries_of End = []"
| "entries_of (Leaf e rest) = e # entries_of rest"
| "entries_of (Inner e below rest) = e # entries_of rest"

definition named :: "index_entry \<Rightarrow> index_entry list" where
  "named e = (if HasName e then [e] else [])"

text \<open>The named entries in index order, the blocks, and the number of levels below the node.\<close>

fun inorder :: "btree \<Rightarrow> index_entry list" where
  "inorder End = []"
| "inorder (Leaf e rest) = named e @ inorder rest"
| "inorder (Inner e below rest) = inorder below @ named e @ inorder rest"

fun vcns :: "btree \<Rightarrow> u64 list" where
  "vcns End = []"
| "vcns (Leaf e rest) = vcns rest"
| "vcns (Inner e below rest) = GetSubNodeVCN e # vcns below @ vcns rest"

fun height :: "btree \<Rightarrow> nat" where
  "height End = 0"
| "height (Leaf e rest) = height rest"
| "height (Inner e below rest) = max (Suc (height below)) (height rest)"

text \<open>The directory stores the tree: each block holds the node below the entry that points to it.\<close>

fun stored :: "directory \<Rightarrow> btree \<Rightarrow> bool" where
  "stored d End \<longleftrightarrow> True"
| "stored d (Leaf e rest) \<longleftrightarrow> \<not> IsSubNodePtr e \<and> stored d rest"
| "stored d (Inner e below rest) \<longleftrightarrow>
     IsSubNodePtr e \<and> map_option ib_entries (block_at d (GetSubNodeVCN e)) = Some (entries_of below) \<and>
     stored d below \<and> stored d rest"

text \<open>Only the end entry of a node has no name.\<close>

fun end_nameless :: "btree \<Rightarrow> bool" where
  "end_nameless End \<longleftrightarrow> True"
| "end_nameless (Leaf e rest) \<longleftrightarrow> (HasName e \<or> rest = End) \<and> end_nameless rest"
| "end_nameless (Inner e below rest) \<longleftrightarrow> (HasName e \<or> rest = End) \<and> end_nameless below \<and> end_nameless rest"

definition sound_tree :: "directory \<Rightarrow> btree \<Rightarrow> bool" where
  "sound_tree d t \<longleftrightarrow> stored d t \<and> distinct (vcns t) \<and> height t \<le> max_index_block_depth"

text \<open>The root of the directory is the top node of the tree.\<close>

definition rooted :: "directory \<Rightarrow> btree \<Rightarrow> bool" where
  "rooted d t \<longleftrightarrow> (case dir_root d of None \<Rightarrow> False | Some root \<Rightarrow> IsFileName root \<and> ir_entries root = entries_of t)"

section \<open>The search on a sound tree\<close>

text \<open>The visible entries of the tree that collate like the name.\<close>

definition equals :: "directory \<Rightarrow> u32 list \<Rightarrow> upcase_table \<Rightarrow> index_entry list \<Rightarrow> index_entry list" where
  "equals d x upcase es = filter (\<lambda>e. \<not> IsEntryHidden d e \<and> CompareName e x upcase = 0) es"

definition first_of :: "index_entry option \<Rightarrow> index_entry list \<Rightarrow> index_entry option" where
  "first_of f es = (case f of Some e \<Rightarrow> Some e | None \<Rightarrow> (case es of [] \<Rightarrow> None | e # _ \<Rightarrow> Some e))"

lemma equals_append [simp]: "equals d x up (xs @ ys) = equals d x up xs @ equals d x up ys"
  by (simp add: equals_def)

lemma equals_named: "equals d x up (named e) = (if HasName e \<and> \<not> IsEntryHidden d e \<and> CompareName e x up = 0 then [e] else [])"
  by (simp add: equals_def named_def)

lemma equals_none: "(\<And>e. e \<in> set es \<Longrightarrow> CompareName e x up \<noteq> 0) \<Longrightarrow> equals d x up es = []"
  by (simp add: equals_def)

lemma first_of_simps [simp]:
  "first_of (Some e) es = Some e"
  "first_of f [] = f"
  "first_of (first_of f es) es' = first_of f (es @ es')"
  "first_of None (e # es) = Some e"
  by (auto simp: first_of_def split: option.splits list.splits)

text \<open>What a search of entries in index order does to the state.\<close>

definition searched :: "directory \<Rightarrow> index_entry list \<Rightarrow> u64 set \<Rightarrow> index_search \<Rightarrow> search_result \<Rightarrow> bool" where
  "searched d es vs s r \<longleftrightarrow>
    (let eq = equals d (is_file_name s) (is_upcase s) es
     in is_file_name (snd r) = is_file_name s \<and> is_upcase (snd r) = is_upcase s \<and>
        is_visited_vcns (snd r) \<subseteq> is_visited_vcns s \<union> vs \<and>
        (case fst r of
           Some e \<Rightarrow> e \<in> set eq \<and> GetFilename e = is_file_name s
         | None \<Rightarrow> (\<forall>e\<in>set eq. GetFilename e \<noteq> is_file_name s) \<and> is_fallback (snd r) = first_of (is_fallback s) eq))"

definition key_order :: "upcase_table \<Rightarrow> btree \<Rightarrow> bool" where
  "key_order up t \<longleftrightarrow> names.ordered False up (map ie_name (inorder t))"

lemma key_order_later:
  assumes "names.ordered False up (map ie_name (xs @ e # ys))" "CompareName e x up < 0" "b \<in> set ys"
  shows "CompareName b x up < 0"
  using names.none_after [of False up "map ie_name xs" "ie_name e" "map ie_name ys" x "ie_name b"] assms
  by (auto simp: CompareName_def)

lemma key_order_earlier:
  assumes "names.ordered False up (map ie_name (xs @ e # ys))" "0 < CompareName e x up" "b \<in> set xs"
  shows "0 < CompareName b x up"
  using names.none_before [of False up "map ie_name xs" "ie_name e" "map ie_name ys" x "ie_name b"] assms
  by (auto simp: CompareName_def)

lemma searched_append:
  assumes "searched d es vs s (None, s')" "searched d es' vs' s' r"
  shows "searched d (es @ es') (vs \<union> vs') s r"
  using assms by (auto simp: searched_def Let_def split: option.splits)

lemma searched_found:
  assumes "searched d es vs s (Some e, s')"
  shows "searched d (ds @ es @ es') (us \<union> vs \<union> vs') s (Some e, s')"
  using assms by (auto simp: searched_def Let_def)

lemma searched_skip:
  assumes "searched d es vs s r" "\<And>e. e \<in> set ds \<Longrightarrow> CompareName e (is_file_name s) (is_upcase s) \<noteq> 0"
  shows "searched d (ds @ es) (us \<union> vs) s r"
  using assms equals_none [of ds "is_file_name s" "is_upcase s" d] by (auto simp: searched_def Let_def split: option.splits)

lemma searched_none: "(\<And>e. e \<in> set es \<Longrightarrow> CompareName e (is_file_name s) (is_upcase s) \<noteq> 0) \<Longrightarrow> searched d es vs s (None, s)"
  using equals_none [of es "is_file_name s" "is_upcase s" d] by (auto simp: searched_def)

lemma named_set: "e' \<in> set (named e) \<longleftrightarrow> HasName e \<and> e' = e"
  by (auto simp: named_def)

text \<open>The state a search starts from, for the part of the tree it is about to read.\<close>

definition ready :: "directory \<Rightarrow> btree \<Rightarrow> index_search \<Rightarrow> nat \<Rightarrow> bool" where
  "ready d t s depth \<longleftrightarrow>
    stored d t \<and> end_nameless t \<and> key_order (is_upcase s) t \<and> distinct (vcns t) \<and>
    set (vcns t) \<inter> is_visited_vcns s = {} \<and> depth + height t \<le> max_index_block_depth"

lemma key_order_parts:
  "key_order up (Leaf e rest) \<Longrightarrow> key_order up rest"
  "key_order up (Inner e below rest) \<Longrightarrow> key_order up below \<and> key_order up rest"
  by (simp_all add: key_order_def names.ordered_append)

lemma visit_sound:
  assumes "ready d (Inner e below rest) s depth"
    and "\<And>s depth at_root. ready d below s depth \<Longrightarrow>
      searched d (inorder below) (set (vcns below)) s (SearchIndexEntries d (entries_of below) s depth at_root)"
  shows "searched d (inorder below) (insert (GetSubNodeVCN e) (set (vcns below))) s
    (VisitIndexBlock d (GetSubNodeVCN e) s depth)"
proof -
  let ?vcn = "GetSubNodeVCN e" and ?s = "s\<lparr>is_visited_vcns := insert (GetSubNodeVCN e) (is_visited_vcns s)\<rparr>"
  from assms(1) obtain b where b: "block_at d ?vcn = Some b" "ib_entries b = entries_of below"
    by (auto simp: ready_def)
  have visit: "VisitIndexBlock d ?vcn s depth = SearchIndexEntries d (entries_of below) ?s (depth + 1) False"
    using assms(1) b by (auto simp: VisitIndexBlock.simps ready_def Let_def)
  have "key_order (is_upcase s) below"
    using assms(1) key_order_parts(2) [of "is_upcase s" e below rest] by (simp add: ready_def)
  moreover have "depth + max (Suc (height below)) (height rest) \<le> max_index_block_depth"
    using assms(1) by (simp add: ready_def)
  then have "Suc (depth + height below) \<le> max_index_block_depth" by linarith
  ultimately have "ready d below ?s (depth + 1)"
    using assms(1) by (simp add: ready_def disjoint_iff)
  then have "searched d (inorder below) (set (vcns below)) ?s (SearchIndexEntries d (entries_of below) ?s (depth + 1) False)"
    by (rule assms(2))
  with visit have "searched d (inorder below) (set (vcns below)) ?s (VisitIndexBlock d ?vcn s depth)"
    by simp
  then show ?thesis
    by (simp add: searched_def Let_def split: option.split_asm option.split)
qed

lemma rest_ready:
  assumes "ready d (Inner e below rest) s depth" "searched d es (insert (GetSubNodeVCN e) (set (vcns below))) s (None, s')"
  shows "ready d rest s' depth"
proof -
  have "key_order (is_upcase s) rest"
    using assms(1) key_order_parts(2) [of "is_upcase s" e below rest] by (simp add: ready_def)
  moreover have "is_upcase s' = is_upcase s"
      "is_visited_vcns s' \<subseteq> is_visited_vcns s \<union> insert (GetSubNodeVCN e) (set (vcns below))"
    using assms(2) by (simp_all add: searched_def Let_def)
  moreover have "set (vcns rest) \<inter> (is_visited_vcns s \<union> insert (GetSubNodeVCN e) (set (vcns below))) = {}"
    using assms(1) by (auto simp: ready_def)
  ultimately show ?thesis
    using assms(1) by (auto simp: ready_def)
qed

lemma rest_ready_leaf:
  assumes "ready d (Leaf e rest) s depth"
  shows "ready d rest s depth"
  using assms key_order_parts(1) [of "is_upcase s" e rest] by (simp add: ready_def)

lemma match_sound:
  fixes s :: index_search
  defines "s0 \<equiv> s\<lparr>is_met_equal := True\<rparr>"
  assumes "CompareName e (is_file_name s) (is_upcase s) = 0" "HasName e"
    and "IsSubNodePtr e \<Longrightarrow> searched d es vs s0 (VisitIndexBlock d (GetSubNodeVCN e) s0 depth)"
    and "\<not> IsSubNodePtr e \<Longrightarrow> es = []"
  shows "searched d (es @ named e) vs s (MatchEqualEntry d e s depth at_root)"
proof (cases "\<not> IsEntryHidden d e \<and> GetFilename e = is_file_name s")
  case True
  then have "MatchEqualEntry d e s depth at_root = (Some e, s0)"
    by (simp add: MatchEqualEntry.simps s0_def)
  with True assms(2,3) show ?thesis
    by (simp add: searched_def equals_named s0_def)
next
  case False
  define below where "below = (if IsSubNodePtr e then VisitIndexBlock d (GetSubNodeVCN e) s0 depth else (None, s0))"
  have sub: "searched d es vs s0 below"
    using assms(4,5) searched_none [of "[]"] by (auto simp: below_def s0_def)
  have n: "is_file_name s0 = is_file_name s" by (simp add: s0_def)
  have m: "MatchEqualEntry d e s depth at_root =
      (case below of (Some twin, s) \<Rightarrow> (Some twin, s)
       | (None, s) \<Rightarrow> (None, if \<not> IsEntryHidden d e \<and> is_fallback s = None
           then s\<lparr>is_fallback := Some e, is_fallback_at_root := at_root\<rparr> else s))"
    unfolding MatchEqualEntry.simps Let_def s0_def [symmetric] below_def [symmetric] n using False by auto
  show ?thesis
  proof (cases "fst below")
    case None
    then obtain s' where b: "below = (None, s')" by (cases below) simp
    then have "is_fallback s' = first_of (is_fallback s) (equals d (is_file_name s) (is_upcase s) es)"
      using sub by (simp add: searched_def s0_def Let_def)
    with False sub b show ?thesis
      using assms(2,3)
      by (auto simp: m searched_def s0_def Let_def equals_named first_of_def split: option.splits list.splits)
  next
    case (Some twin)
    then obtain s' where b: "below = (Some twin, s')" by (cases below) simp
    then have "searched d ([] @ es @ named e) ({} \<union> vs \<union> {}) s0 (Some twin, s')"
      using sub by (intro searched_found) simp
    then show ?thesis
      by (simp add: m b searched_def s0_def Let_def)
  qed
qed

lemma search_step:
  "SearchIndexEntries d (e # es) s depth at_root =
    (if HasName e \<and> CompareName e (is_file_name s) (is_upcase s) = 0 then
       (case MatchEqualEntry d e s depth at_root of
          (Some found, s) \<Rightarrow> (Some found, s)
        | (None, s) \<Rightarrow> SearchIndexEntries d es s depth at_root)
     else if HasName e \<and> CompareName e (is_file_name s) (is_upcase s) > 0 then SearchIndexEntries d es s depth at_root
     else if HasName e \<and> \<not> IsSubNodePtr e then (None, s)
     else if \<not> IsSubNodePtr e then SearchIndexEntries d es s depth at_root
     else case VisitIndexBlock d (GetSubNodeVCN e) s depth of
         (Some found, s) \<Rightarrow> (Some found, s)
       | (None, s) \<Rightarrow> if is_met_equal s then (None, s) else SearchIndexEntries d es s depth at_root)"
  by (simp add: SearchIndexEntries.simps Let_def)

lemma ready_order:
  "ready d (Leaf e rest) s depth \<Longrightarrow> names.ordered False (is_upcase s) (map ie_name (named e @ inorder rest))"
  "ready d (Inner e below rest) s depth \<Longrightarrow>
     names.ordered False (is_upcase s) (map ie_name (inorder below @ named e @ inorder rest))"
  by (simp_all add: ready_def key_order_def)

text \<open>Past an entry greater than the name nothing equal is left, and before a smaller one nothing was.\<close>

lemma rest_greater:
  assumes "names.ordered False up (map ie_name (es @ named e @ inorder rest))" "HasName e \<or> rest = End"
    "HasName e \<Longrightarrow> CompareName e x up < 0" "e' \<in> set (named e @ inorder rest)"
  shows "CompareName e' x up < 0"
proof (cases "HasName e")
  case True
  then have "e' = e \<or> e' \<in> set (inorder rest)" using assms(4) by (auto simp: named_set)
  then show ?thesis
    using key_order_later [of up es e "inorder rest" x e'] assms True by (auto simp: named_def)
next
  case False
  with assms(2,4) show ?thesis by (simp add: named_def)
qed

lemma search_sound:
  "ready d t s depth \<Longrightarrow> searched d (inorder t) (set (vcns t)) s (SearchIndexEntries d (entries_of t) s depth at_root)"
proof (induction t arbitrary: s depth at_root)
  case End
  then show ?case using searched_none [of "[]" s d "{}"] by simp
next
  case (Leaf e rest)
  let ?x = "is_file_name s" and ?up = "is_upcase s"
  have leaf: "\<not> IsSubNodePtr e" "HasName e \<or> rest = End" using Leaf.prems by (auto simp: ready_def)
  note order = ready_order(1) [OF Leaf.prems]
  note rest = rest_ready_leaf [OF Leaf.prems]
  show ?case
  proof (cases "HasName e")
    case False
    then have "rest = End" using leaf by simp
    with False leaf show ?thesis using searched_none [of "[]" s d "{}"] by (simp add: search_step named_def)
  next
    case True
    consider "CompareName e ?x ?up = 0" | "CompareName e ?x ?up < 0" | "CompareName e ?x ?up > 0" by linarith
    then show ?thesis
    proof cases
      case 1
      then have m: "searched d ([] @ named e) {} s (MatchEqualEntry d e s depth at_root)"
        using leaf True by (intro match_sound) simp_all
      show ?thesis
      proof (cases "MatchEqualEntry d e s depth at_root")
        case (Pair r s')
        show ?thesis
        proof (cases r)
          case None
          have "is_upcase s' = is_upcase s" "is_visited_vcns s' \<subseteq> is_visited_vcns s"
            using m Pair by (simp_all add: searched_def Let_def)
          then have "ready d rest s' depth" using rest by (auto simp: ready_def)
          from Leaf.IH [OF this] m have "searched d ((named e) @ inorder rest) ({} \<union> set (vcns rest)) s
              (SearchIndexEntries d (entries_of rest) s' depth at_root)"
            by (intro searched_append) (simp_all add: Pair None)
          then show ?thesis using 1 True Pair None by (simp add: search_step)
        next
          case (Some found)
          then have "searched d ([] @ named e @ inorder rest) ({} \<union> {} \<union> set (vcns rest)) s (Some found, s')"
            using m Pair by (intro searched_found) simp
          then show ?thesis using 1 True Pair Some by (simp add: search_step)
        qed
      qed
    next
      case 2
      have "CompareName e' ?x ?up \<noteq> 0" if "e' \<in> set (named e @ inorder rest)" for e'
        using rest_greater [of ?up "[]" e rest ?x e'] order leaf 2 that by simp
      then have "searched d (named e @ inorder rest) (set (vcns rest)) s (None, s)" by (rule searched_none)
      then show ?thesis using 2 True leaf by (simp add: search_step)
    next
      case 3
      have "searched d (named e @ inorder rest) ({} \<union> set (vcns rest)) s (SearchIndexEntries d (entries_of rest) s depth at_root)"
        using Leaf.IH [OF rest] 3 by (intro searched_skip) (auto simp: named_set)
      then show ?thesis using 3 True by (simp add: search_step)
    qed
  qed
next
  case (Inner e below rest)
  let ?x = "is_file_name s" and ?up = "is_upcase s"
  have inner: "IsSubNodePtr e" "HasName e \<or> rest = End" using Inner.prems by (auto simp: ready_def)
  note order = ready_order(2) [OF Inner.prems]
  let ?vs = "insert (GetSubNodeVCN e) (set (vcns below))"
  have visit: "searched d (inorder below) ?vs s1 (VisitIndexBlock d (GetSubNodeVCN e) s1 depth)"
    if "ready d (Inner e below rest) s1 depth" for s1
    by (rule visit_sound [OF that Inner.IH(1)])
  have blocks: "set (vcns (Inner e below rest)) = ?vs \<union> set (vcns rest)" by auto
  have entries: "inorder (Inner e below rest) = inorder below @ named e @ inorder rest" by simp
  consider (equal) "HasName e" "CompareName e ?x ?up = 0" | (greater) "HasName e" "CompareName e ?x ?up > 0"
    | (less) "HasName e \<Longrightarrow> CompareName e ?x ?up < 0" by linarith
  then show ?case
  proof cases
    case equal
    have "ready d (Inner e below rest) (s\<lparr>is_met_equal := True\<rparr>) depth"
      using Inner.prems by (simp add: ready_def)
    from visit [OF this] have m: "searched d (inorder below @ named e) ?vs s (MatchEqualEntry d e s depth at_root)"
      using equal inner by (intro match_sound) simp_all
    show ?thesis
    proof (cases "MatchEqualEntry d e s depth at_root")
      case (Pair r s')
      show ?thesis
      proof (cases r)
        case None
        from Inner.IH(2) [OF rest_ready [OF Inner.prems m [unfolded Pair None]]] m
        have "searched d ((inorder below @ named e) @ inorder rest) (?vs \<union> set (vcns rest)) s
            (SearchIndexEntries d (entries_of rest) s' depth at_root)"
          by (intro searched_append) (simp_all add: Pair None)
        then show ?thesis using equal Pair None by (simp add: search_step)
      next
        case (Some found)
        then have "searched d ([] @ (inorder below @ named e) @ inorder rest) ({} \<union> ?vs \<union> set (vcns rest)) s (Some found, s')"
          using m Pair by (intro searched_found) simp
        then show ?thesis using equal Pair Some by (simp add: search_step)
      qed
    qed
  next
    case greater
    have "CompareName e' ?x ?up \<noteq> 0" if "e' \<in> set (inorder below @ named e)" for e'
      using that greater key_order_earlier [of ?up "inorder below" e "inorder rest" ?x e'] order
      by (auto simp: named_def)
    moreover have "ready d rest s depth"
      using rest_ready [OF Inner.prems searched_none [of "[]"]] by simp
    ultimately have "searched d ((inorder below @ named e) @ inorder rest) (?vs \<union> set (vcns rest)) s
        (SearchIndexEntries d (entries_of rest) s depth at_root)"
      by (intro searched_skip Inner.IH(2))
    then show ?thesis using greater by (simp add: search_step)
  next
    case less
    have past: "CompareName e' ?x ?up \<noteq> 0" if "e' \<in> set (named e @ inorder rest)" for e'
      using rest_greater [OF order inner(2) less that] by simp
    have step: "SearchIndexEntries d (entries_of (Inner e below rest)) s depth at_root =
        (case VisitIndexBlock d (GetSubNodeVCN e) s depth of
           (Some found, s) \<Rightarrow> (Some found, s)
         | (None, s) \<Rightarrow> if is_met_equal s then (None, s) else SearchIndexEntries d (entries_of rest) s depth at_root)"
      using less inner by (auto simp: search_step)
    note v = visit [OF Inner.prems]
    show ?thesis
    proof (cases "VisitIndexBlock d (GetSubNodeVCN e) s depth")
      case (Pair r s')
      show ?thesis
      proof (cases r)
        case None
        note v' = v [unfolded Pair None]
        have same: "is_file_name s' = ?x" "is_upcase s' = ?up" using v' by (simp_all add: searched_def Let_def)
        have "searched d (named e @ inorder rest) (set (vcns rest)) s' (None, s')"
          using past by (intro searched_none) (simp add: same)
        moreover have "searched d (named e @ inorder rest) ({} \<union> set (vcns rest)) s'
            (SearchIndexEntries d (entries_of rest) s' depth at_root)"
          using past by (intro searched_skip Inner.IH(2) rest_ready [OF Inner.prems v']) (simp add: same)
        ultimately show ?thesis
          unfolding step entries blocks using searched_append [OF v'] Pair None by simp
      next
        case (Some found)
        then have "searched d ([] @ inorder below @ (named e @ inorder rest)) ({} \<union> ?vs \<union> set (vcns rest)) s (Some found, s')"
          using v Pair by (intro searched_found) simp
        then show ?thesis unfolding step entries blocks using Pair Some by simp
      qed
    qed
  qed
qed

lemma find_in_order_sound:
  assumes "rooted d t" "sound_tree d t" "end_nameless t" "key_order up t"
  shows "case FindSubEntryInOrder d x up of
      None \<Rightarrow> equals d x up (inorder t) = []
    | Some e \<Rightarrow> e \<in> set (equals d x up (inorder t)) \<and>
        (GetFilename e = x \<or>
          (\<forall>e'\<in>set (equals d x up (inorder t)). GetFilename e' \<noteq> x) \<and> e = hd (equals d x up (inorder t)))"
proof -
  obtain root where root: "dir_root d = Some root" "IsFileName root" "ir_entries root = entries_of t"
    using assms(1) by (auto simp: rooted_def split: option.splits)
  let ?s = "\<lparr>is_file_name = x, is_upcase = up, is_visited_vcns = {}, is_fallback = None,
      is_fallback_at_root = False, is_met_equal = False\<rparr>"
  have "ready d t ?s 0" using assms by (simp add: ready_def sound_tree_def)
  from search_sound [OF this, of True]
  have "searched d (inorder t) (set (vcns t)) ?s (SearchIndexEntries d (ir_entries root) ?s 0 True)" by (simp add: root)
  then show ?thesis
    by (cases "SearchIndexEntries d (ir_entries root) ?s 0 True"; cases "fst (SearchIndexEntries d (ir_entries root) ?s 0 True)";
        cases "equals d x up (inorder t)")
      (auto simp: FindSubEntryInOrder_def root searched_def Let_def first_of_def)
qed

text \<open>
  C1. On a directory whose tree is sound and sorted by the collation, the search gives a visible entry
  that collates like the name exactly when the tree holds one: one spelled like the name when there is
  one, otherwise the first in index order.
\<close>

theorem find_in_order_exact:
  assumes "rooted d t" "sound_tree d t" "end_nameless t" "key_order up t"
  shows "case FindSubEntryInOrder d x up of
      None \<Rightarrow> equals d x up (inorder t) = []
    | Some e \<Rightarrow> e \<in> set (equals d x up (inorder t)) \<and>
        (GetFilename e = x \<or>
          (\<forall>e'\<in>set (equals d x up (inorder t)). GetFilename e' \<noteq> x) \<and> e = hd (equals d x up (inorder t)))"
  by (rule find_in_order_sound [OF assms])

section \<open>The walk on a sound tree\<close>

text \<open>What a walk hands to its callback for a list of entries.\<close>

definition deliveries :: "directory \<Rightarrow> bool \<Rightarrow> index_entry list \<Rightarrow> delivery list" where
  "deliveries d batched es =
    map (\<lambda>e. Delivery e (if batched then Some (StandingOf (dir_probe d (GetFileReference e)) e) else None))
      (filter (\<lambda>e. \<not> IsEntryHidden d e) es)"

lemma deliveries_simps [simp]:
  "deliveries d batched [] = []"
  "deliveries d batched (xs @ ys) = deliveries d batched xs @ deliveries d batched ys"
  by (simp_all add: deliveries_def)

lemma deliveries_entries: "map dl_entry (deliveries d batched es) = filter (\<lambda>e. \<not> IsEntryHidden d e) es"
  by (simp add: deliveries_def comp_def)

lemma deliveries_set: "dl_entry ` set (deliveries d batched es) = {e \<in> set es. \<not> IsEntryHidden d e}"
  using arg_cong [OF deliveries_entries [of d batched es], of set] by (simp only: set_map set_filter)

lemma Deliver_out: "Deliver d batched e w = w\<lparr>wk_out := wk_out w @ deliveries d batched [e]\<rparr>"
  by (simp add: Deliver_def deliveries_def IsEntryHidden_def Let_def)

lemma deliver_named:
  "(if HasName e then Deliver d batched e w else w) = w\<lparr>wk_out := wk_out w @ deliveries d batched (named e)\<rparr>"
  by (simp add: Deliver_out named_def)

lemma traverse_sound:
  "stored d t \<Longrightarrow> distinct (vcns t) \<Longrightarrow> set (vcns t) \<inter> wk_visited w = {} \<Longrightarrow>
     depth + height t \<le> max_index_block_depth \<Longrightarrow>
     traverse_entries d batched (entries_of t) w depth =
       \<lparr>wk_visited = wk_visited w \<union> set (vcns t), wk_out = wk_out w @ deliveries d batched (inorder t)\<rparr>"
proof (induction t arbitrary: w depth)
  case (Leaf e rest)
  then show ?case by (simp add: deliver_named Let_def)
next
  case (Inner e below rest)
  let ?vcn = "GetSubNodeVCN e" and ?w = "w\<lparr>wk_visited := insert (GetSubNodeVCN e) (wk_visited w)\<rparr>"
  obtain b where b: "block_at d ?vcn = Some b" "ib_entries b = entries_of below" using Inner.prems(1) by auto
  have h: "Suc (depth + height below) \<le> max_index_block_depth" "depth + height rest \<le> max_index_block_depth"
    using Inner.prems(4) by (simp_all add: max_def split: if_splits)
  have "traverse_entries d batched (entries_of below) ?w (depth + 1) =
      \<lparr>wk_visited = wk_visited ?w \<union> set (vcns below), wk_out = wk_out w @ deliveries d batched (inorder below)\<rparr>"
    using Inner.IH(1) [of ?w "depth + 1"] Inner.prems h by (auto simp: disjoint_iff)
  moreover have "TraverseSubNode d batched ?vcn w depth = traverse_entries d batched (entries_of below) ?w (depth + 1)"
    using Inner.prems(3) b h by (simp add: TraverseSubNode.simps Let_def)
  ultimately have sub: "TraverseSubNode d batched ?vcn w depth =
      \<lparr>wk_visited = insert ?vcn (wk_visited w) \<union> set (vcns below), wk_out = wk_out w @ deliveries d batched (inorder below)\<rparr>"
    by simp
  have "traverse_entries d batched (entries_of rest)
      \<lparr>wk_visited = insert ?vcn (wk_visited w) \<union> set (vcns below),
       wk_out = wk_out w @ deliveries d batched (inorder below @ named e)\<rparr> depth =
      \<lparr>wk_visited = (insert ?vcn (wk_visited w) \<union> set (vcns below)) \<union> set (vcns rest),
       wk_out = (wk_out w @ deliveries d batched (inorder below @ named e)) @ deliveries d batched (inorder rest)\<rparr>"
    using Inner.IH(2) [of "\<lparr>wk_visited = insert ?vcn (wk_visited w) \<union> set (vcns below),
       wk_out = wk_out w @ deliveries d batched (inorder below @ named e)\<rparr>" depth] Inner.prems h
    by (auto simp: disjoint_iff)
  then show ?case
    using Inner.prems(1) by (simp add: sub deliver_named Let_def Un_assoc)
qed simp

text \<open>What the recovery scan reports of a block, and which blocks it visits after the walk.\<close>

definition orphans_in :: "directory \<Rightarrow> u64 \<Rightarrow> index_entry list" where
  "orphans_in d vcn =
    (case block_at d vcn of
       None \<Rightarrow> []
     | Some b \<Rightarrow> filter (\<lambda>e. HasName e \<and> IsOrphanEntryReportable e (OwnerOf d)) (ib_entries b))"

lemma report_fold:
  "fold (\<lambda>e w. if HasName e \<and> IsOrphanEntryReportable e (OwnerOf d) then Deliver d batched e w else w) es w =
     w\<lparr>wk_out := wk_out w @ deliveries d batched (filter (\<lambda>e. HasName e \<and> IsOrphanEntryReportable e (OwnerOf d)) es)\<rparr>"
proof (induction es arbitrary: w)
  case (Cons e es)
  let ?rest = "filter (\<lambda>e. HasName e \<and> IsOrphanEntryReportable e (OwnerOf d)) es"
  have "deliveries d batched (e # ?rest) = deliveries d batched [e] @ deliveries d batched ?rest"
    using deliveries_simps(2) [of d batched "[e]" ?rest] by simp
  then show ?case using Cons.IH by (simp add: Deliver_out)
qed simp

lemma ReportOrphanedBlock_out:
  "ReportOrphanedBlock d batched vcn w = w\<lparr>wk_out := wk_out w @ deliveries d batched (orphans_in d vcn)\<rparr>"
  by (simp add: ReportOrphanedBlock_def orphans_in_def report_fold split: option.splits)

lemma scan_fold:
  assumes "distinct (map (block_vcn plan) is)"
  shows "fold (\<lambda>block_index w.
      let vcn = block_vcn plan block_index
      in if vcn \<in> wk_visited w then w
         else ReportOrphanedBlock d batched vcn (w\<lparr>wk_visited := insert vcn (wk_visited w)\<rparr>)) is w =
    \<lparr>wk_visited = wk_visited w \<union> block_vcn plan ` set is,
     wk_out = wk_out w @ deliveries d batched
       (concat (map (orphans_in d) (filter (\<lambda>vcn. vcn \<notin> wk_visited w) (map (block_vcn plan) is))))\<rparr>"
  using assms
proof (induction "is" arbitrary: w)
  case (Cons i "is")
  let ?w = "w\<lparr>wk_visited := insert (block_vcn plan i) (wk_visited w)\<rparr>"
  have same: "filter (\<lambda>vcn. vcn \<notin> wk_visited ?w) (map (block_vcn plan) is) =
      filter (\<lambda>vcn. vcn \<notin> wk_visited w) (map (block_vcn plan) is)"
  proof (rule filter_cong [OF refl])
    fix v
    assume "v \<in> set (map (block_vcn plan) is)"
    moreover have "block_vcn plan i \<notin> set (map (block_vcn plan) is)" using Cons.prems by simp
    ultimately have "v \<noteq> block_vcn plan i" by blast
    then show "(v \<notin> wk_visited ?w) = (v \<notin> wk_visited w)" by simp
  qed
  show ?case
  proof (cases "block_vcn plan i \<in> wk_visited w")
    case True
    then show ?thesis using Cons by (simp add: insert_absorb)
  next
    case False
    then show ?thesis
      using Cons.IH [of "?w\<lparr>wk_out := wk_out w @ deliveries d batched (orphans_in d (block_vcn plan i))\<rparr>"] Cons.prems same
      by (simp add: Let_def ReportOrphanedBlock_out)
  qed
qed simp

subsection \<open>The plan of the recovery scan\<close>

lemma clusters_per_block:
  "0 < unat (op_clusters_per_block (PlanOrphanScan a))" "unat (op_clusters_per_block (PlanOrphanScan a)) < 4294967296"
proof -
  let ?q = "ia_block_size a div ia_cluster_size a"
  have c: "unat (op_clusters_per_block (PlanOrphanScan a)) =
      (if ia_cluster_size a \<noteq> 0 \<and> ia_block_size a \<ge> ia_cluster_size a then unat (ia_block_size a) div unat (ia_cluster_size a)
       else 1)"
    by (simp add: PlanOrphanScan_def Let_def ClustersPerIndexBlock_def unat_div)
  show "0 < unat (op_clusters_per_block (PlanOrphanScan a))"
    by (auto simp: c word_le_nat_alt unat_gt_0 div_greater_zero_iff unat_eq_0)
  show "unat (op_clusters_per_block (PlanOrphanScan a)) < 4294967296"
    using le_less_trans [OF div_le_dividend [of "unat (ia_block_size a)" "unat (ia_cluster_size a)"]
        unat_u32_bound [of "ia_block_size a"]]
    by (simp add: c)
qed

lemma scan_limit_bound: "unat (op_scan_limit (PlanOrphanScan a)) \<le> 65536"
  "unat (op_scan_limit (PlanOrphanScan a)) \<le> unat (ia_block_count a)"
  by (auto simp: PlanOrphanScan_def Let_def max_orphan_scan_blocks_def word_less_nat_alt)

lemma unat_block_vcn:
  assumes "i < unat (op_scan_limit (PlanOrphanScan a))"
  shows "unat (block_vcn (PlanOrphanScan a) i) = i * unat (op_clusters_per_block (PlanOrphanScan a))"
proof -
  let ?c = "unat (op_clusters_per_block (PlanOrphanScan a))"
  have i: "i < 65536" using assms scan_limit_bound(1) [of a] by simp
  then have "i * ?c \<le> 65536 * 4294967296" using clusters_per_block(2) [of a] by (intro mult_le_mono) simp_all
  then have "unat (of_nat i :: u64) * ?c < 18446744073709551616" using i by (simp add: unat_of_nat)
  from unat_u64_mult [OF this] i show ?thesis by (simp add: block_vcn_def unat_of_nat)
qed

lemma block_vcns_distinct:
  "distinct (map (block_vcn (PlanOrphanScan a)) [0..<unat (op_scan_limit (PlanOrphanScan a))])"
proof (intro distinct_map [THEN iffD2] conjI inj_onI)
  fix i j
  assume i: "i \<in> set [0..<unat (op_scan_limit (PlanOrphanScan a))]" and j: "j \<in> set [0..<unat (op_scan_limit (PlanOrphanScan a))]"
    and same: "block_vcn (PlanOrphanScan a) i = block_vcn (PlanOrphanScan a) j"
  have il: "i < unat (op_scan_limit (PlanOrphanScan a))" and jl: "j < unat (op_scan_limit (PlanOrphanScan a))"
    using i j by simp_all
  have "unat (block_vcn (PlanOrphanScan a) i) = i * unat (op_clusters_per_block (PlanOrphanScan a))"
      "unat (block_vcn (PlanOrphanScan a) j) = j * unat (op_clusters_per_block (PlanOrphanScan a))"
    by (rule unat_block_vcn [OF il], rule unat_block_vcn [OF jl])
  then show "i = j" using same clusters_per_block(1) [of a] by (metis mult_cancel2 less_numeral_extra(3))
qed simp

text \<open>The blocks the scan looks at, in order.\<close>

definition scanned_vcns :: "directory \<Rightarrow> u64 list" where
  "scanned_vcns d =
    (case dir_alloc d of
       None \<Rightarrow> []
     | Some a \<Rightarrow> map (block_vcn (PlanOrphanScan a)) [0..<unat (op_scan_limit (PlanOrphanScan a))])"

lemma ScanOrphanedIndexBlocks_out:
  "ScanOrphanedIndexBlocks d batched w =
    \<lparr>wk_visited = wk_visited w \<union> set (scanned_vcns d),
     wk_out = wk_out w @ deliveries d batched
       (concat (map (orphans_in d) (filter (\<lambda>vcn. vcn \<notin> wk_visited w) (scanned_vcns d))))\<rparr>"
  by (auto simp: ScanOrphanedIndexBlocks_def scanned_vcns_def scan_fold [OF block_vcns_distinct, unfolded Let_def] Let_def
      split: option.splits)

lemma walk_sound:
  assumes "rooted d t" "sound_tree d t"
  shows "Walk d batched = deliveries d batched
    (inorder t @ (if dir_recover d then concat (map (orphans_in d) (filter (\<lambda>vcn. vcn \<notin> set (vcns t)) (scanned_vcns d)))
                  else []))"
proof -
  obtain root where root: "dir_root d = Some root" "IsFileName root" "ir_entries root = entries_of t"
    using assms(1) by (auto simp: rooted_def split: option.splits)
  have "traverse_entries d batched (entries_of t) \<lparr>wk_visited = {}, wk_out = []\<rparr> 0 =
      \<lparr>wk_visited = set (vcns t), wk_out = deliveries d batched (inorder t)\<rparr>"
    using traverse_sound [of d t "\<lparr>wk_visited = {}, wk_out = []\<rparr>" 0 batched] assms(2)
    by (simp add: sound_tree_def)
  then show ?thesis
    by (simp add: Walk_def root Let_def ScanOrphanedIndexBlocks_out)
qed

text \<open>
  C5. On a directory whose tree is sound, the walk hands every visible entry to its callback exactly
  once and in index order, with the standing of its record in a batched walk. With recovery on, it
  then reports, block by block, the visible entries filed under this directory of the blocks the tree
  does not hold, as far as the attribute declares and maps them.
\<close>

theorem walk_in_index_order:
  assumes "rooted d t" "sound_tree d t"
  shows "Walk d batched = deliveries d batched
    (inorder t @ (if dir_recover d then concat (map (orphans_in d) (filter (\<lambda>vcn. vcn \<notin> set (vcns t)) (scanned_vcns d)))
                  else []))"
  by (rule walk_sound [OF assms])

section \<open>The recovery walk reaches every block\<close>

text \<open>The entries of the blocks in a set have been handed to the callback.\<close>

definition handed :: "walk \<Rightarrow> index_entry set" where
  "handed w = dl_entry ` set (wk_out w)"

definition covered :: "directory \<Rightarrow> (index_entry \<Rightarrow> bool) \<Rightarrow> u64 set \<Rightarrow> walk \<Rightarrow> bool" where
  "covered d keep blocks w \<longleftrightarrow>
    (\<forall>vcn\<in>blocks. \<forall>b. block_at d vcn = Some b \<longrightarrow>
       (\<forall>e\<in>set (ib_entries b). HasName e \<and> keep e \<and> \<not> IsEntryHidden d e \<longrightarrow> e \<in> handed w))"

text \<open>A step of the walk only adds, and what it visits it covers.\<close>

definition advances :: "directory \<Rightarrow> walk \<Rightarrow> walk \<Rightarrow> bool" where
  "advances d w w' \<longleftrightarrow>
    wk_visited w \<subseteq> wk_visited w' \<and> handed w \<subseteq> handed w' \<and>
    covered d (\<lambda>e. True) (wk_visited w' - wk_visited w) w'"

lemma advances_refl [simp]: "advances d w w"
  by (simp add: advances_def covered_def)

lemma advances_trans:
  assumes "advances d w w'" "advances d w' w''"
  shows "advances d w w''"
proof -
  have "e \<in> handed w''"
    if "vcn \<in> wk_visited w'' - wk_visited w" "block_at d vcn = Some b" "e \<in> set (ib_entries b)" "HasName e"
      "\<not> IsEntryHidden d e" for vcn b e
    using that assms by (cases "vcn \<in> wk_visited w'") (auto simp: advances_def covered_def)
  with assms show ?thesis
    by (auto simp: advances_def covered_def)
qed

lemma advances_deliver: "advances d w (if HasName e then Deliver d batched e w else w)"
  by (auto simp: advances_def covered_def deliver_named handed_def)

lemma deliver_handed: "HasName e \<Longrightarrow> \<not> IsEntryHidden d e \<Longrightarrow> e \<in> handed (Deliver d batched e w)"
  by (simp add: Deliver_out handed_def deliveries_def)

lemma traverse_advances:
  "advances d w (TraverseSubNode d batched vcn w depth)"
  "advances d w (traverse_entries d batched es w depth) \<and>
     (\<forall>e\<in>set es. HasName e \<and> \<not> IsEntryHidden d e \<longrightarrow> e \<in> handed (traverse_entries d batched es w depth))"
proof (induction d batched vcn w depth and d batched es w depth rule: TraverseSubNode_traverse_entries.induct)
  case (1 d batched vcn w depth)
  let ?w = "w\<lparr>wk_visited := insert vcn (wk_visited w)\<rparr>"
  consider "max_index_block_depth \<le> depth \<or> vcn \<in> wk_visited w"
    | "\<not> max_index_block_depth \<le> depth" "vcn \<notin> wk_visited w" "block_at d vcn = None"
    | b where "\<not> max_index_block_depth \<le> depth" "vcn \<notin> wk_visited w" "block_at d vcn = Some b" by fastforce
  then show ?case
  proof cases
    case 1
    then show ?thesis by (auto simp: TraverseSubNode.simps)
  next
    case 2
    then show ?thesis by (auto simp: TraverseSubNode.simps Let_def advances_def covered_def handed_def)
  next
    case 3
    let ?w' = "traverse_entries d batched (ib_entries b) ?w (depth + 1)"
    have ih: "advances d ?w ?w'" "\<forall>e\<in>set (ib_entries b). HasName e \<and> \<not> IsEntryHidden d e \<longrightarrow> e \<in> handed ?w'"
      using "1.IH" [OF 3(1,2) refl 3(3)] by simp_all
    have "TraverseSubNode d batched vcn w depth = ?w'" using 3 by (simp add: TraverseSubNode.simps Let_def)
    moreover have "advances d w ?w'"
      unfolding advances_def covered_def
    proof (intro conjI ballI allI impI)
      show "wk_visited w \<subseteq> wk_visited ?w'" "handed w \<subseteq> handed ?w'"
        using ih(1) by (auto simp: advances_def handed_def)
      fix v c e
      assume v: "v \<in> wk_visited ?w' - wk_visited w" "block_at d v = Some c" "e \<in> set (ib_entries c)"
        "HasName e \<and> True \<and> \<not> IsEntryHidden d e"
      show "e \<in> handed ?w'"
      proof (cases "v = vcn")
        case True
        then show ?thesis using v 3(3) ih(2) by auto
      next
        case False
        then have "v \<in> wk_visited ?w' - wk_visited ?w" using v(1) by simp
        then show ?thesis using v ih(1) unfolding advances_def covered_def by blast
      qed
    qed
    ultimately show ?thesis by simp
  qed
next
  case (2 d batched w child_depth)
  then show ?case by simp
next
  case (3 d batched e es w child_depth)
  let ?w1 = "if IsSubNodePtr e then TraverseSubNode d batched (GetSubNodeVCN e) w child_depth else w"
  let ?w2 = "if HasName e then Deliver d batched e ?w1 else ?w1"
  let ?w3 = "traverse_entries d batched es ?w2 child_depth"
  have a1: "advances d w ?w1" using "3.IH"(1) by auto
  have a2: "advances d ?w1 ?w2" by (rule advances_deliver)
  have a12: "advances d w ?w2" by (rule advances_trans [OF a1 a2])
  have a3: "advances d ?w2 ?w3" "\<forall>e\<in>set es. HasName e \<and> \<not> IsEntryHidden d e \<longrightarrow> e \<in> handed ?w3"
    using "3.IH"(2) [OF refl refl] by simp_all
  have "HasName e \<and> \<not> IsEntryHidden d e \<longrightarrow> e \<in> handed ?w2" by (simp add: deliver_handed)
  moreover have "handed ?w2 \<subseteq> handed ?w3" using a3(1) by (simp add: advances_def)
  ultimately have all: "\<forall>e'\<in>set (e # es). HasName e' \<and> \<not> IsEntryHidden d e' \<longrightarrow> e' \<in> handed ?w3"
    using a3(2) by auto
  have eq: "traverse_entries d batched (e # es) w child_depth = ?w3" by (simp only: traverse_entries.simps Let_def)
  show ?case
    unfolding eq using advances_trans [OF a12 a3(1)] all by (rule conjI)
qed

text \<open>What the walk over the tree, whatever its state, leaves before the recovery scan.\<close>

definition tree_walk :: "directory \<Rightarrow> bool \<Rightarrow> walk" where
  "tree_walk d batched =
    (case dir_root d of
       None \<Rightarrow> \<lparr>wk_visited = {}, wk_out = []\<rparr>
     | Some root \<Rightarrow> traverse_entries d batched (ir_entries root) \<lparr>wk_visited = {}, wk_out = []\<rparr> 0)"

definition file_index :: "directory \<Rightarrow> bool" where
  "file_index d \<longleftrightarrow> (case dir_root d of None \<Rightarrow> True | Some root \<Rightarrow> IsFileName root)"

lemma Walk_tree:
  assumes "file_index d"
  shows "Walk d batched = wk_out (if dir_recover d then ScanOrphanedIndexBlocks d batched (tree_walk d batched)
    else tree_walk d batched)"
  using assms by (simp add: Walk_def tree_walk_def file_index_def Let_def split: option.splits)

lemma tree_walk_covers: "covered d (\<lambda>e. True) (wk_visited (tree_walk d batched)) (tree_walk d batched)"
proof (cases "dir_root d")
  case (Some root)
  let ?w = "\<lparr>wk_visited = {}, wk_out = []\<rparr> :: walk"
  have "advances d ?w (traverse_entries d batched (ir_entries root) ?w 0)"
    using traverse_advances(2) by blast
  then show ?thesis by (simp add: tree_walk_def Some advances_def)
qed (simp add: tree_walk_def covered_def)

lemma walk_reaches_block:
  assumes "file_index d" "dir_recover d" "vcn \<in> set (scanned_vcns d)" "block_at d vcn = Some b"
    "e \<in> set (ib_entries b)" "HasName e" "\<not> IsEntryHidden d e" "IsOrphanEntryReportable e (OwnerOf d)"
  shows "e \<in> dl_entry ` set (Walk d batched)"
proof (cases "vcn \<in> wk_visited (tree_walk d batched)")
  case True
  then have "e \<in> handed (tree_walk d batched)"
    using tree_walk_covers [of d batched] assms(4-7) unfolding covered_def by blast
  then show ?thesis
    using assms(1,2) by (auto simp: Walk_tree ScanOrphanedIndexBlocks_out handed_def)
next
  case False
  have "e \<in> set (orphans_in d vcn)" using assms(4-6,8) by (simp add: orphans_in_def)
  moreover have "vcn \<in> set (filter (\<lambda>vcn. vcn \<notin> wk_visited (tree_walk d batched)) (scanned_vcns d))"
    using False assms(3) by simp
  ultimately have "e \<in> set (concat (map (orphans_in d)
      (filter (\<lambda>vcn. vcn \<notin> wk_visited (tree_walk d batched)) (scanned_vcns d))))" by auto
  then have "e \<in> dl_entry ` set (deliveries d batched (concat (map (orphans_in d)
      (filter (\<lambda>vcn. vcn \<notin> wk_visited (tree_walk d batched)) (scanned_vcns d)))))"
    using assms(7) by (simp only: deliveries_set) simp
  then show ?thesis
    using assms(1,2) by (auto simp: Walk_tree ScanOrphanedIndexBlocks_out)
qed

text \<open>Which blocks that is, in numbers: those declared, wholly inside the mapped clusters, the first 65536.\<close>

lemma MappedIndexBlocks_reach:
  assumes block: "0 < unat block" and cap: "i < 65536" and fits: "(i + 1) * unat block \<le> unat mapped * unat cluster"
  shows "i < unat (MappedIndexBlocks mapped cluster block)"
proof -
  define bytes where "bytes = (if cluster \<noteq> 0 \<and> mapped > u64_max div ucast cluster then u64_max else mapped * ucast cluster)"
  have "(i + 1) * unat block \<le> unat bytes"
  proof (cases "cluster \<noteq> 0 \<and> mapped > u64_max div ucast cluster")
    case True
    have "(i + 1) * unat block \<le> 65536 * 4294967296" using cap unat_u32_bound [of block] by (intro mult_le_mono) simp_all
    then show ?thesis using True by (simp add: bytes_def)
  next
    case False
    have "unat mapped * unat cluster < 18446744073709551616"
    proof (cases "cluster = 0")
      case False
      then have "0 < unat cluster" by (simp add: unat_gt_0)
      moreover have "unat mapped \<le> 18446744073709551615 div unat cluster"
        using \<open>\<not> (cluster \<noteq> 0 \<and> mapped > u64_max div ucast cluster)\<close> False
        by (simp add: not_less u64_le_nat unat_div unat_ucast_u32_u64)
      ultimately show ?thesis by (simp add: less_eq_div_iff_mult_less_eq)
    qed simp
    then have "unat (mapped * ucast cluster) = unat mapped * unat cluster"
      using unat_u64_mult [of mapped "ucast cluster"] by (simp add: unat_ucast_u32_u64)
    moreover have "bytes = mapped * ucast cluster" using False by (auto simp: bytes_def)
    ultimately show ?thesis using fits by (simp only:)
  qed
  then have "i + 1 \<le> unat bytes div unat block" using block by (simp only: less_eq_div_iff_mult_less_eq)
  then show ?thesis by (simp add: MappedIndexBlocks_def bytes_def [symmetric] unat_div unat_ucast_u32_u64)
qed

lemma scanned_reach:
  assumes a: "dir_alloc d = Some a" "ia_start_vcn a \<le> ia_last_vcn a" and block: "0 < unat (ia_block_size a)"
    and i: "i < 65536" "i < unat (ia_block_count a)"
      "(i + 1) * unat (ia_block_size a) \<le> unat (ia_total_clusters a) * unat (ia_cluster_size a)"
    and vcn: "unat vcn = i * max 1 (unat (ia_block_size a) div unat (ia_cluster_size a))"
  shows "vcn \<in> set (scanned_vcns d)"
proof -
  have limit: "i < unat (op_scan_limit (PlanOrphanScan a))"
    using MappedIndexBlocks_reach [OF block i(1,3)] i a(2)
    by (simp add: PlanOrphanScan_def Let_def max_orphan_scan_blocks_def word_less_nat_alt)
  have "unat (op_clusters_per_block (PlanOrphanScan a)) = max 1 (unat (ia_block_size a) div unat (ia_cluster_size a))"
    by (auto simp: PlanOrphanScan_def Let_def ClustersPerIndexBlock_def unat_div unat_ucast_u32_u64 max_def word_le_nat_alt
        not_le div_greater_zero_iff unat_eq_0 Suc_le_eq unat_gt_0)
  then have "unat vcn = unat (block_vcn (PlanOrphanScan a) i)" using vcn unat_block_vcn [OF limit] by simp
  then have "vcn = block_vcn (PlanOrphanScan a) i" by (rule word_unat_eq_iff [THEN iffD2])
  then show ?thesis using limit by (auto simp: scanned_vcns_def a(1))
qed


section \<open>The search on any tree\<close>

text \<open>What a search of any tree may answer: visible entries that collate like the name.\<close>

definition hit :: "directory \<Rightarrow> index_search \<Rightarrow> index_entry \<Rightarrow> bool" where
  "hit d s e \<longleftrightarrow> \<not> IsEntryHidden d e \<and> CompareName e (is_file_name s) (is_upcase s) = 0"

definition honest :: "directory \<Rightarrow> index_search \<Rightarrow> search_result \<Rightarrow> bool" where
  "honest d s r \<longleftrightarrow>
    is_file_name (snd r) = is_file_name s \<and> is_upcase (snd r) = is_upcase s \<and>
    (case fst r of None \<Rightarrow> True | Some e \<Rightarrow> hit d s e) \<and>
    (case is_fallback (snd r) of None \<Rightarrow> True | Some e \<Rightarrow> is_fallback s = Some e \<or> hit d s e)"

lemma honest_refl [simp]: "honest d s (None, s)"
  by (simp add: honest_def split: option.splits)

lemma honest_trans:
  assumes "honest d s (None, s')" "honest d s' r"
  shows "honest d s r"
  using assms by (auto simp: honest_def hit_def split: option.splits)

lemma hit_more [simp]:
  "hit d (s\<lparr>is_visited_vcns := vs\<rparr>) = hit d s" "hit d (s\<lparr>is_met_equal := m\<rparr>) = hit d s"
  by (simp_all add: hit_def fun_eq_iff)

lemma honest_visited: "honest d (s\<lparr>is_visited_vcns := vs\<rparr>) r = honest d s r"
  "honest d (s\<lparr>is_met_equal := m\<rparr>) r = honest d s r"
  by (simp_all add: honest_def hit_more cong: option.case_cong)

lemma search_honest:
  "honest d s (VisitIndexBlock d vcn s depth)"
  "CompareName e (is_file_name s) (is_upcase s) = 0 \<Longrightarrow> honest d s (MatchEqualEntry d e s depth at_root)"
  "honest d s (SearchIndexEntries d es s depth at_root)"
proof (induction d vcn s depth and d e s depth at_root and d es s depth at_root
    rule: VisitIndexBlock_MatchEqualEntry_SearchIndexEntries.induct)
  case (1 d vcn s depth)
  let ?s = "s\<lparr>is_visited_vcns := insert vcn (is_visited_vcns s)\<rparr>"
  show ?case
  proof (cases "max_index_block_depth \<le> depth \<or> vcn \<in> is_visited_vcns s")
    case True
    then show ?thesis by (auto simp: VisitIndexBlock.simps)
  next
    case False
    show ?thesis
    proof (cases "block_at d vcn")
      case None
      have "honest d s (None, ?s)" by (subst honest_visited(1) [symmetric, of d s _ "insert vcn (is_visited_vcns s)"]) simp
      then show ?thesis using False None by (simp add: VisitIndexBlock.simps Let_def)
    next
      case (Some b)
      have "honest d ?s (SearchIndexEntries d (ib_entries b) ?s (depth + 1) False)"
        using False by (intro "1.IH" [OF _ _ refl Some]) auto
      then show ?thesis using False Some by (simp add: VisitIndexBlock.simps Let_def honest_visited)
    qed
  qed
next
  case (2 d e s child_depth at_root)
  let ?s = "s\<lparr>is_met_equal := True\<rparr>"
  show ?case
  proof (cases "\<not> IsEntryHidden d e \<and> GetFilename e = is_file_name s")
    case True
    then have "MatchEqualEntry d e s child_depth at_root = (Some e, ?s)" by (simp add: MatchEqualEntry.simps)
    with True 2(2) show ?thesis by (simp add: honest_def hit_def split: option.splits)
  next
    case False
    define below where "below = (if IsSubNodePtr e then VisitIndexBlock d (GetSubNodeVCN e) ?s child_depth else (None, ?s))"
    have "honest d ?s below"
      using "2.IH" [OF refl refl] False by (auto simp: below_def)
    then have b: "honest d s below" by (simp add: honest_visited)
    have m: "MatchEqualEntry d e s child_depth at_root =
        (case below of (Some twin, s) \<Rightarrow> (Some twin, s)
         | (None, s) \<Rightarrow> (None, if \<not> IsEntryHidden d e \<and> is_fallback s = None
             then s\<lparr>is_fallback := Some e, is_fallback_at_root := at_root\<rparr> else s))"
      using False by (subst MatchEqualEntry.simps) (auto simp: Let_def below_def)
    show ?thesis
      using b 2(2) unfolding m
      by (cases below; cases "fst below") (auto simp: honest_def hit_def split: option.splits)
  qed
next
  case (3 d s child_depth at_root)
  then show ?case by simp
next
  case ih: (4 d e es s child_depth at_root)
  let ?c = "CompareName e (is_file_name s) (is_upcase s)"
  show ?case
  proof (cases "HasName e \<and> ?c = 0")
    case True
    then have m: "honest d s (MatchEqualEntry d e s child_depth at_root)" using ih(1) [OF refl] by simp
    show ?thesis
    proof (cases "MatchEqualEntry d e s child_depth at_root")
      case (Pair r s')
      have "r = None \<Longrightarrow> honest d s' (SearchIndexEntries d es s' child_depth at_root)"
        by (rule ih(2) [OF refl True Pair [symmetric]])
      then show ?thesis
        using True m Pair by (cases r) (auto simp: search_step intro: honest_trans)
    qed
  next
    case ne: False
    consider "HasName e \<and> 0 < ?c" | "\<not> (HasName e \<and> 0 < ?c)" "HasName e \<and> \<not> IsSubNodePtr e"
      | "\<not> (HasName e \<and> 0 < ?c)" "\<not> (HasName e \<and> \<not> IsSubNodePtr e)" "\<not> IsSubNodePtr e"
      | "\<not> (HasName e \<and> 0 < ?c)" "\<not> (HasName e \<and> \<not> IsSubNodePtr e)" "\<not> \<not> IsSubNodePtr e" by blast
    then show ?thesis
    proof cases
      case 1
      with ih(3) [OF refl ne] ne show ?thesis by (auto simp: search_step)
    next
      case 2
      with ne show ?thesis by (auto simp: search_step)
    next
      case 3
      with ih(4) [OF refl ne] ne show ?thesis by (auto simp: search_step)
    next
      case 4
      note v = ih(5) [OF refl ne 4]
      show ?thesis
      proof (cases "VisitIndexBlock d (GetSubNodeVCN e) s child_depth")
        case (Pair r s')
        have "r = None \<Longrightarrow> \<not> is_met_equal s' \<Longrightarrow> honest d s' (SearchIndexEntries d es s' child_depth at_root)"
          by (rule ih(6) [OF refl ne 4 Pair [symmetric]])
        then show ?thesis
          using ne 4 v Pair by (cases r) (auto simp: search_step intro: honest_trans)
      qed
    qed
  qed
qed

lemma find_in_order_honest:
  assumes "FindSubEntryInOrder d x up = Some e"
  shows "\<not> IsEntryHidden d e \<and> CompareName e x up = 0"
proof -
  let ?s = "\<lparr>is_file_name = x, is_upcase = up, is_visited_vcns = {}, is_fallback = None,
      is_fallback_at_root = False, is_met_equal = False\<rparr>"
  obtain root where root: "dir_root d = Some root" "IsFileName root"
    using assms by (auto simp: FindSubEntryInOrder_def split: option.splits if_splits)
  have "honest d ?s (SearchIndexEntries d (ir_entries root) ?s 0 True)" by (rule search_honest)
  with assms root show ?thesis
    by (auto simp: FindSubEntryInOrder_def honest_def hit_def split: option.splits prod.splits)
qed

text \<open>The scan of every entry that stands in for the search when there is no stored collation.\<close>

lemma scan_finds:
  "fold (scan_callback x up) es f = None \<longleftrightarrow> f = None \<and> (\<forall>e\<in>set es. CompareName e x up \<noteq> 0)"
  by (induction es arbitrary: f) (auto simp: scan_callback_def Let_def split: option.splits)

lemma scan_result:
  "fold (scan_callback x up) es f = Some e \<Longrightarrow> f = Some e \<or> e \<in> set es \<and> CompareName e x up = 0"
  by (induction es arbitrary: f) (fastforce simp: scan_callback_def Let_def split: option.splits if_splits)+

lemma scan_keeps_exact:
  "GetFilename f = x \<Longrightarrow> fold (scan_callback x up) es (Some f) = Some f"
  by (induction es) (auto simp: scan_callback_def Let_def)

lemma scan_exact:
  "e \<in> set es \<Longrightarrow> CompareName e x up = 0 \<Longrightarrow> GetFilename e = x \<Longrightarrow> fold (scan_callback x up) es f = Some g \<Longrightarrow>
     GetFilename g = x"
proof (induction es arbitrary: f)
  case (Cons c es)
  show ?case
  proof (cases "c = e")
    case True
    have "\<exists>h. scan_callback x up c f = Some h \<and> GetFilename h = x"
      using True Cons.prems(2,3) by (cases f) (auto simp: scan_callback_def Let_def)
    then obtain h where "scan_callback x up c f = Some h" "GetFilename h = x" by blast
    then show ?thesis using Cons.prems(4) scan_keeps_exact [of h x up es] by simp
  next
    case False
    then show ?thesis using Cons by auto
  qed
qed simp

definition shows_visible :: "directory \<Rightarrow> walk \<Rightarrow> bool" where
  "shows_visible d w \<longleftrightarrow> (\<forall>e\<in>handed w. \<not> IsEntryHidden d e)"

lemma shows_visible_deliver:
  "shows_visible d w \<Longrightarrow> shows_visible d (w\<lparr>wk_out := wk_out w @ deliveries d batched es\<rparr>)"
  by (auto simp: shows_visible_def handed_def image_Un deliveries_set)

lemma traverse_visible:
  "shows_visible d w \<Longrightarrow> shows_visible d (TraverseSubNode d batched vcn w depth)"
  "shows_visible d w \<Longrightarrow> shows_visible d (traverse_entries d batched es w depth)"
proof (induction d batched vcn w depth and d batched es w depth rule: TraverseSubNode_traverse_entries.induct)
  case (1 d batched vcn w depth)
  have "shows_visible d (w\<lparr>wk_visited := insert vcn (wk_visited w)\<rparr>)"
    using "1.prems" by (simp add: shows_visible_def handed_def)
  then show ?case
    using "1.IH" "1.prems" by (auto simp: TraverseSubNode.simps Let_def split: option.splits)
next
  case (3 d batched e es w child_depth)
  let ?w1 = "if IsSubNodePtr e then TraverseSubNode d batched (GetSubNodeVCN e) w child_depth else w"
  let ?w2 = "if HasName e then Deliver d batched e ?w1 else ?w1"
  have "shows_visible d ?w1" using "3.IH"(1) "3.prems" by auto
  then have "shows_visible d ?w2" unfolding deliver_named by (rule shows_visible_deliver)
  then have "shows_visible d (traverse_entries d batched es ?w2 child_depth)" by (rule "3.IH"(2) [OF refl refl])
  then show ?case by (simp only: traverse_entries.simps Let_def)
qed simp

lemma Traverse_visible:
  assumes "e \<in> set (Traverse d)"
  shows "\<not> IsEntryHidden d e"
proof -
  have t: "shows_visible d (tree_walk d False)"
    unfolding tree_walk_def
    by (cases "dir_root d") (simp_all add: traverse_visible(2) shows_visible_def [of d "\<lparr>wk_visited = {}, wk_out = []\<rparr>"] handed_def)
  have "file_index d"
    using assms by (auto simp: Traverse_def Walk_def file_index_def Let_def split: option.splits if_splits)
  moreover from shows_visible_deliver [OF t]
  have "shows_visible d (if dir_recover d then ScanOrphanedIndexBlocks d False (tree_walk d False) else tree_walk d False)"
    using t by (auto simp: ScanOrphanedIndexBlocks_out shows_visible_def handed_def)
  ultimately show ?thesis
    using assms by (auto simp: Traverse_def Walk_tree shows_visible_def handed_def)
qed

text \<open>
  C13. What Find() answers, on any directory however damaged and under any collation, is a visible entry
  that collates like the name: the one the search in order finds, where it finds one. Only where it
  finds none and the volume has no stored collation is the answer from the walk; then it is one the
  walk reports, spelled like the name if the walk reports one such, and none is answered only where
  the walk reports none that collates.
\<close>

theorem find_without_stored_collation:
  "case Find d x up of
      None \<Rightarrow> FindSubEntryInOrder d x up = None \<and>
        (IsBuiltIn up \<longrightarrow> filter (\<lambda>e. CompareName e x up = 0) (Traverse d) = [])
    | Some e \<Rightarrow> \<not> IsEntryHidden d e \<and> CompareName e x up = 0 \<and>
        (FindSubEntryInOrder d x up = Some e \<or>
         FindSubEntryInOrder d x up = None \<and> IsBuiltIn up \<and> e \<in> set (Traverse d) \<and>
         (GetFilename e = x \<or> filter (\<lambda>e. CompareName e x up = 0 \<and> GetFilename e = x) (Traverse d) = []))"
proof (cases "FindSubEntryInOrder d x up")
  case (Some e)
  with find_in_order_honest [OF this] show ?thesis by (simp add: Find_def)
next
  case none: None
  show ?thesis
  proof (cases "IsBuiltIn up")
    case True
    then have f: "Find d x up = fold (scan_callback x up) (Traverse d) None" using none by (simp add: Find_def)
    show ?thesis
    proof (cases "Find d x up")
      case None
      then show ?thesis using scan_finds [of x up "Traverse d" None] f none by (simp add: filter_empty_conv)
    next
      case (Some e)
      then have e: "e \<in> set (Traverse d)" "CompareName e x up = 0" using scan_result [of x up "Traverse d" None e] f by simp_all
      have "GetFilename e = x \<or> filter (\<lambda>e. CompareName e x up = 0 \<and> GetFilename e = x) (Traverse d) = []"
        using scan_exact [of _ "Traverse d" x up None e] Some f by (auto simp: filter_empty_conv)
      then show ?thesis using Some e Traverse_visible [OF e(1)] none True by simp
    qed
  qed (use none in \<open>simp add: Find_def\<close>)
qed

section \<open>The blocks the root points to\<close>

lemma root_children_set:
  "set (root_children es seen vs) = set vs \<union> (GetSubNodeVCN ` {e \<in> set es. IsSubNodePtr e} - seen)"
  by (induction es seen vs rule: root_children.induct) auto

lemma root_children_distinct: "distinct vs \<Longrightarrow> set vs \<subseteq> seen \<Longrightarrow> distinct (root_children es seen vs)"
  by (induction es seen vs rule: root_children.induct) auto

text \<open>RootChildBlocks() names every block the root points to, once.\<close>

lemma RootChildBlocks_exact:
  assumes "RootChildBlocks d = Some (a, vs)"
  shows "dir_alloc d = Some a \<and> distinct vs \<and>
    (\<exists>root. dir_root d = Some root \<and> set vs = GetSubNodeVCN ` {e \<in> set (ir_entries root). IsSubNodePtr e})"
  using assms root_children_distinct [of "[]" "{}"]
  by (auto simp: RootChildBlocks_def Let_def root_children_set split: option.splits if_splits)

section \<open>Names carved from the slack\<close>

text \<open>A candidate that may be kept: it says it was filed under the directory.\<close>

definition filed_candidate :: "directory \<Rightarrow> carved_name \<Rightarrow> bool" where
  "filed_candidate d c \<longleftrightarrow> cn_parent_known c \<and> cn_source c = IndexSlack \<and>
     IsFiledUnder (cn_parent_record c) (cn_parent_sequence c) (OwnerOf d)"

definition findings_ok :: "directory \<Rightarrow> slack_findings \<Rightarrow> bool" where
  "findings_ok d f \<longleftrightarrow> list_all (filed_candidate d) (sf_candidates f) \<and>
     sorted_wrt (\<lambda>a b. \<not> SameCarvedName a b) (sf_candidates f) \<and>
     length (sf_candidates f) \<le> max_index_slack_candidates"

lemma repeated_candidate: "IsRepeatedCandidate f c \<longleftrightarrow> (\<exists>seen\<in>set (sf_candidates f). SameCarvedName seen c)"
  by (auto simp: IsRepeatedCandidate_def list_ex_iff SameCarvedName_def)

lemma keep_ok:
  assumes "findings_ok d f" "list_all (\<lambda>c. cn_source c = IndexSlack) carved"
  shows "findings_ok d (KeepSlackCandidates carved (OwnerOf d) f)"
  using assms
proof (induction carved "OwnerOf d" f rule: KeepSlackCandidates.induct)
  case (2 c carved f)
  let ?skip = "\<not> cn_parent_known c \<or> \<not> IsFiledUnder (cn_parent_record c) (cn_parent_sequence c) (OwnerOf d) \<or>
      IsRepeatedCandidate f c"
  consider ?skip | "\<not> ?skip" "max_index_slack_candidates \<le> length (sf_candidates f)"
    | "\<not> ?skip" "\<not> max_index_slack_candidates \<le> length (sf_candidates f)" by blast
  then show ?case
  proof cases
    case 1
    then show ?thesis using 2 by (simp only: KeepSlackCandidates.simps if_True) simp
  next
    case 2: 2
    then show ?thesis using "2.prems" by (simp add: findings_ok_def)
  next
    case 3
    then have "findings_ok d (f\<lparr>sf_candidates := sf_candidates f @ [c]\<rparr>)"
      using "2.prems" by (auto simp: findings_ok_def filed_candidate_def sorted_wrt_append repeated_candidate)
    then show ?thesis using 3 "2.hyps"(2) [OF 3] "2.prems" by (simp only: KeepSlackCandidates.simps if_False) simp
  qed
qed simp

lemma keep_live [simp]: "sf_live_names (KeepSlackCandidates carved owner f) = sf_live_names f"
  by (induction carved owner f rule: KeepSlackCandidates.induct) simp_all

text \<open>The names the scan learns are live from a block: those of its entries, when it is sound.\<close>

definition live_in :: "directory \<Rightarrow> u64 \<Rightarrow> u32 list set" where
  "live_in d vcn =
    (case block_at d vcn of
       None \<Rightarrow> {}
     | Some b \<Rightarrow> if ib_used_end b = None then {} else live_names (ib_entries b))"

lemma block_slack:
  "findings_ok d f \<Longrightarrow> findings_ok d (CarveBlockSlack d vcn (OwnerOf d) f)"
  "sf_live_names (CarveBlockSlack d vcn owner f) = sf_live_names f \<union> live_in d vcn"
proof -
  have source: "list_all (\<lambda>c. cn_source c = IndexSlack) carved"
    if "CarveFileNamesFrom bytes from IndexSlack = Inr carved" for bytes "from" carved
    using that by (auto simp: CarveFileNamesFrom_def bind_r_eq_Inr list_all_iff split: if_splits)
  have more: "findings_ok d (f\<lparr>sf_live_names := names\<rparr>) = findings_ok d f" for names
    by (simp add: findings_ok_def)
  show "findings_ok d f \<Longrightarrow> findings_ok d (CarveBlockSlack d vcn (OwnerOf d) f)"
    by (auto simp: CarveBlockSlack_def Let_def more keep_ok dest!: source split: option.split sum.split)
  show "sf_live_names (CarveBlockSlack d vcn owner f) = sf_live_names f \<union> live_in d vcn"
    by (simp add: CarveBlockSlack_def live_in_def Let_def split: option.split sum.split)
qed

lemma carve_blocks_ok: "findings_ok d f \<Longrightarrow> findings_ok d (carve_blocks d plan (OwnerOf d) is f)"
  by (induction "is" arbitrary: f) (simp_all add: block_slack(1))

lemma carve_blocks_live: "sf_live_names f \<subseteq> sf_live_names (carve_blocks d plan owner is f)"
proof (induction "is" arbitrary: f)
  case (Cons j "is")
  show ?case
    using Cons.IH [of "CarveBlockSlack d (block_vcn plan j) owner f"] block_slack(2) [of d "block_vcn plan j" owner f] by auto
qed simp

lemma carve_blocks_learn:
  "\<not> sf_capped (carve_blocks d plan owner is f) \<Longrightarrow>
     i \<in> set is \<Longrightarrow> live_in d (block_vcn plan i) \<subseteq> sf_live_names (carve_blocks d plan owner is f)"
proof (induction "is" arbitrary: f)
  case (Cons j "is")
  let ?f = "CarveBlockSlack d (block_vcn plan j) owner f"
  have "\<not> sf_capped f" using Cons.prems(1) by (cases "sf_capped f") simp_all
  with Cons.prems Cons.IH [of ?f] carve_blocks_live [of ?f d plan owner "is"] block_slack(2) [of d "block_vcn plan j" owner f]
  show ?case by auto
qed simp

text \<open>The findings a carve ends with.\<close>

definition root_names :: "directory \<Rightarrow> u32 list set" where
  "root_names d = (case dir_root d of None \<Rightarrow> {} | Some root \<Rightarrow> live_names (ir_entries root))"

definition final_findings :: "directory \<Rightarrow> slack_findings" where
  "final_findings d =
    (case dir_alloc d of
       None \<Rightarrow> \<lparr>sf_live_names = root_names d, sf_candidates = [], sf_capped = False\<rparr>
     | Some a \<Rightarrow> slack_findings_of d a (root_names d))"

lemma CarveSlackNames_final:
  "CarveSlackNames d = [] \<or> CarveSlackNames d = forget_live (final_findings d)"
  by (auto simp: CarveSlackNames_def final_findings_def root_names_def split: option.splits)

lemma final_ok:
  "findings_ok d (final_findings d)"
  "root_names d \<subseteq> sf_live_names (final_findings d)"
  "sf_capped (final_findings d) \<or> \<Union> (live_in d ` set (scanned_vcns d)) \<subseteq> sf_live_names (final_findings d)"
proof -
  let ?f = "\<lparr>sf_live_names = root_names d, sf_candidates = [], sf_capped = False\<rparr>"
  have f: "findings_ok d ?f" by (simp add: findings_ok_def)
  show "findings_ok d (final_findings d)"
    using f by (simp add: final_findings_def slack_findings_of_def Let_def carve_blocks_ok split: option.split)
  show "root_names d \<subseteq> sf_live_names (final_findings d)"
  proof (cases "dir_alloc d")
    case (Some a)
    then show ?thesis
      using carve_blocks_live [of ?f] by (simp add: final_findings_def slack_findings_of_def Let_def)
  qed (simp add: final_findings_def)
  show "sf_capped (final_findings d) \<or> \<Union> (live_in d ` set (scanned_vcns d)) \<subseteq> sf_live_names (final_findings d)"
  proof (cases "dir_alloc d")
    case (Some a)
    let ?plan = "PlanOrphanScan a"
    have "\<not> sf_capped (final_findings d) \<Longrightarrow> live_in d (block_vcn ?plan i) \<subseteq> sf_live_names (final_findings d)"
      if "i \<in> set [0..<unat (op_scan_limit ?plan)]" for i
      using carve_blocks_learn [OF _ that, of d ?plan "OwnerOf d" ?f]
      by (simp add: final_findings_def slack_findings_of_def Let_def Some)
    then show ?thesis by (auto simp: scanned_vcns_def Some subset_eq)
  qed (simp add: scanned_vcns_def)
qed

text \<open>
  C17. The names carved from the slack of a directory's blocks: each says it was filed under this
  directory, no two say the same, none is the name of an entry of the root, nor of a sound block of
  the scan unless the scan stopped at its cap, and there are at most 1048576 of them.
\<close>

theorem carved_slack_names:
  "length (CarveSlackNames d) \<le> 1048576 \<and>
   sorted_wrt (\<lambda>a b. \<not> SameCarvedName a b) (CarveSlackNames d) \<and>
   list_all (\<lambda>c. filed_candidate d c \<and> cn_name c \<notin> root_names d \<and>
     (sf_capped (final_findings d) \<or> list_all (\<lambda>vcn. cn_name c \<notin> live_in d vcn) (scanned_vcns d)))
     (CarveSlackNames d)"
proof -
  consider "CarveSlackNames d = []" | "CarveSlackNames d = forget_live (final_findings d)"
    using CarveSlackNames_final by blast
  then show ?thesis
  proof cases
    case 2
    let ?f = "final_findings d"
    have ok: "list_all (filed_candidate d) (sf_candidates ?f)" "sorted_wrt (\<lambda>a b. \<not> SameCarvedName a b) (sf_candidates ?f)"
        "length (sf_candidates ?f) \<le> 1048576"
      using final_ok(1) [of d] by (simp_all add: findings_ok_def max_index_slack_candidates_def)
    have "length (CarveSlackNames d) \<le> 1048576"
      using ok(3) length_filter_le order_trans unfolding 2 forget_live_def by blast
    moreover have "sorted_wrt (\<lambda>a b. \<not> SameCarvedName a b) (CarveSlackNames d)"
      unfolding 2 forget_live_def by (rule sorted_wrt_filter [OF ok(2)])
    moreover have "filed_candidate d c \<and> cn_name c \<notin> root_names d \<and>
        (sf_capped ?f \<or> list_all (\<lambda>vcn. cn_name c \<notin> live_in d vcn) (scanned_vcns d))"
      if "c \<in> set (CarveSlackNames d)" for c
      using that ok(1) final_ok(2,3) [of d] unfolding 2 forget_live_def by (auto simp: list_all_iff)
    ultimately show ?thesis by (simp add: list_all_iff)
  qed simp
qed

section \<open>A directory the theorems apply to\<close>

text \<open>One block of 512 bytes that holds the entry of one file, and a root that points to it.\<close>

definition sample_file :: dir_entry where
  "sample_file = \<lparr>de_reference = 0x0007000000000040, de_name = Some sample_file_name, de_child = None, de_last = False\<rparr>"

definition sample_end :: dir_entry where
  "sample_end = \<lparr>de_reference = 0, de_name = None, de_child = None, de_last = True\<rparr>"

definition sample_pointer :: dir_entry where
  "sample_pointer = \<lparr>de_reference = 0, de_name = None, de_child = Some 0, de_last = True\<rparr>"

definition tree_block_head :: "byte list" where
  "tree_block_head = to_le 4 0x58444E49 @ to_le 2 40 @ to_le 2 2 @ replicate 16 0 @ to_le 4 24 @ to_le 4 104 @ replicate 16 0"

definition tree_block :: "byte list" where
  "tree_block = tree_block_head @ concat (map entry_bytes [sample_file, sample_end]) @ replicate 360 0"

definition sample_directory :: directory where
  "sample_directory =
    \<lparr>dir_root = Some \<lparr>ir_entries = [view_of (entry_bytes sample_pointer)], ir_data = to_le 4 0x30\<rparr>,
     dir_alloc = Some \<lparr>ia_block_size = 512, ia_cluster_size = 512, ia_block_count = 1, ia_start_vcn = 0,
       ia_last_vcn = 0, ia_total_clusters = 1, ia_recover = True, ia_read = (\<lambda>offset. Some tree_block), ia_source = None\<rparr>,
     dir_probe = (\<lambda>record. \<lparr>ns_parsed = True, ns_deleted = False, ns_sequence = 7\<rparr>),
     dir_recover = True, dir_include_deleted = False, dir_bypass_deleted_gate = False,
     dir_file_ref = Some 5, dir_sequence = 3, dir_in_use = True\<rparr>"

definition sample_tree :: btree where
  "sample_tree = Inner (view_of (entry_bytes sample_pointer))
     (Leaf (view_of (entry_bytes sample_file)) (Leaf (view_of (entry_bytes sample_end)) End)) End"

lemma sample_writable: "writable_entry sample_file" "writable_entry sample_end" "writable_entry sample_pointer"
  by (simp_all add: writable_entry_def sample_file_def sample_end_def sample_pointer_def sample_file_name_def)

lemmas sample_shows = sample_writable [THEN view_of_shows, unfolded shows_entry_def]

lemma length_sample_entries: "length (entry_bytes sample_file) = 88" "length (entry_bytes sample_end) = 16"
  by (simp_all add: length_entry_bytes entry_length_def entry_padding_def entry_tail_def stream_bytes_def
      sample_file_def sample_end_def length_filename_bytes sample_file_name_def)

lemma length_tree_parts: "length tree_block_head = 48" "length (concat (map entry_bytes [sample_file, sample_end])) = 104"
  by (simp_all add: tree_block_head_def length_sample_entries)

lemma tree_block_fields:
  "length tree_block = 512" "u32_at tree_block 0 = index_block_magic" "u16_at tree_block 4 = 40"
  "u16_at tree_block 6 = 2" "u16_at tree_block 40 = 0" "u16_at tree_block 42 = 0" "u16_at tree_block 510 = 0"
proof -
  have head: "read_le n tree_block off = read_le n tree_block_head off" if "off + n \<le> 48" for n off
    using that length_tree_parts(1) by (simp add: tree_block_def read_le_append)
  show "length tree_block = 512" using length_tree_parts by (simp add: tree_block_def)
  show "u32_at tree_block 0 = index_block_magic" "u16_at tree_block 4 = 40" "u16_at tree_block 6 = 2"
      "u16_at tree_block 40 = 0" "u16_at tree_block 42 = 0"
    by (simp_all add: u32_at_def u16_at_def head) (simp_all add: tree_block_head_def read_le_def le_nat_to_le index_block_magic_def)
  show "u16_at tree_block 510 = 0"
    using length_tree_parts by (simp add: tree_block_def u16_at_def read_le_def del: concat.simps list.map)
qed

lemma tree_block_fixed: "FixupIndexBlock 512 tree_block = Inr (True, tree_block)"
proof -
  have "tree_block ! 510 = 0" "tree_block ! 511 = 0"
    using length_tree_parts by (simp_all add: tree_block_def nth_append del: concat.simps list.map)
  then have "put_u16 tree_block 510 0 = tree_block"
    by (simp add: put_u16_def list_update_id) (metis list_update_id)
  then show ?thesis
    by (simp add: FixupIndexBlock_def Let_def tree_block_fields index_block_header_size_def UpdateSequenceBlockCount_def
        update_sequence_stride_def IndexBlockUsOffsetInBounds_def memcpy_u16_def numeral_2_eq_2 [symmetric])
qed

lemma tree_block_parsed:
  "\<exists>b. ParseIndexEntries True tree_block = Inr (True, b) \<and>
     ib_entries b = [view_of (entry_bytes sample_file), view_of (entry_bytes sample_end)]"
proof -
  have n: "writable_node [sample_file, sample_end]"
    using sample_writable by (simp add: writable_node_def sample_file_def sample_end_def)
  have "read_le 4 tree_block_head 24 = length tree_block_head - 24" "read_le 4 tree_block_head 28 = 104"
    by (simp_all add: tree_block_head_def read_le_def le_nat_to_le)
  with parse_written_block [OF n tree_block_def, of 104 True] length_tree_parts show ?thesis
    by (simp del: concat.simps)
qed

lemma sample_block_at:
  "map_option ib_entries (block_at sample_directory 0) = Some [view_of (entry_bytes sample_file), view_of (entry_bytes sample_end)]"
proof -
  obtain b where b: "ParseIndexEntries True tree_block = Inr (True, b)"
      "ib_entries b = [view_of (entry_bytes sample_file), view_of (entry_bytes sample_end)]"
    using tree_block_parsed by blast
  have "BlockOffset 512 512 1 0 = Some 0" by (simp add: BlockOffset_def)
  with b show ?thesis
    by (simp add: block_at_def sample_directory_def ParseIndexBlock_def CopyHeldBlock_def ReadBlockBytes_def
        tree_block_fields parse_fixed_def tree_block_fixed)
qed

lemma sample_views:
  "HasName (view_of (entry_bytes sample_file))" "\<not> HasName (view_of (entry_bytes sample_end))"
  "\<not> HasName (view_of (entry_bytes sample_pointer))"
  "\<not> IsSubNodePtr (view_of (entry_bytes sample_file))" "\<not> IsSubNodePtr (view_of (entry_bytes sample_end))"
  "IsSubNodePtr (view_of (entry_bytes sample_pointer))" "GetSubNodeVCN (view_of (entry_bytes sample_pointer)) = 0"
  "\<not> IsEntryHidden sample_directory (view_of (entry_bytes sample_file))"
  "IsOrphanEntryReportable (view_of (entry_bytes sample_file)) (OwnerOf sample_directory)"
  using sample_shows
  by (simp_all add: sample_file_def sample_end_def sample_pointer_def IsEntryHidden_def IsHiddenGiven_def sample_directory_def
      IsOrphanEntryReportable_def IsFiledUnder_def OwnerOf_def IsSameRecordGeneration_def sample_file_name_def
      mft_sequence_shift_def mft_record_number_mask_def)

lemma sample_tree_ok:
  "rooted sample_directory sample_tree" "sound_tree sample_directory sample_tree" "end_nameless sample_tree"
  "key_order up sample_tree" "inorder sample_tree = [view_of (entry_bytes sample_file)]" "vcns sample_tree = [0]"
  using sample_block_at
  by (simp_all add: rooted_def sound_tree_def sample_tree_def sample_views key_order_def named_def max_index_block_depth_def
      names.ordered_def)
    (simp_all add: sample_directory_def IsFileName_def u32_at_def read_le_def le_nat_to_le type_file_name_def)

lemma sample_name: "GetFilename (view_of (entry_bytes sample_file)) = ie_name (view_of (entry_bytes sample_file))"
  using sample_views(1) by (auto simp: GetFilename_def HasName_def view_of_def split: if_splits)

lemma find_in_order_exact_witness:
  "\<exists>e. FindSubEntryInOrder sample_directory (GetFilename e) built_in_table = Some e \<and> GetFileReference e = 0x40"
proof -
  let ?e = "view_of (entry_bytes sample_file)"
  have "equals sample_directory (GetFilename ?e) built_in_table (inorder sample_tree) = [?e]"
    using sample_views(8) sample_name by (simp add: equals_def sample_tree_ok CompareName_def names.refl)
  then have "FindSubEntryInOrder sample_directory (GetFilename ?e) built_in_table = Some ?e"
    using find_in_order_exact [OF sample_tree_ok(1-4), of "GetFilename ?e" built_in_table]
    by (auto split: option.splits)
  moreover have "GetFileReference ?e = 0x40"
    using sample_shows(1) by (simp add: sample_file_def mft_record_number_mask_def)
  ultimately show ?thesis by blast
qed

lemma sample_scanned: "scanned_vcns sample_directory = [0]"
  by (simp add: scanned_vcns_def sample_directory_def PlanOrphanScan_def Let_def MappedIndexBlocks_def
      ClustersPerIndexBlock_def block_vcn_def max_orphan_scan_blocks_def)

lemma walk_in_index_order_witness:
  "Walk sample_directory True = [Delivery (view_of (entry_bytes sample_file)) (Some Live)]"
  using walk_in_index_order [OF sample_tree_ok(1,2), of True] sample_views(8) sample_shows(1)
  by (simp add: sample_tree_ok sample_scanned deliveries_def StandingOf_def) (simp add: sample_directory_def sample_file_def mft_sequence_shift_def)


lemma find_without_stored_collation_witness:
  "\<exists>e. Find sample_directory (GetFilename (view_of (entry_bytes sample_file))) built_in_table = Some e \<and> \<not> IsEntryHidden sample_directory e"
proof -
  let ?e = "view_of (entry_bytes sample_file)"
  have "Traverse sample_directory = [?e]"
    using walk_sound [OF sample_tree_ok(1,2), of False] sample_views(8)
    by (simp add: Traverse_def sample_tree_ok sample_scanned deliveries_entries)
  then show ?thesis
    using find_without_stored_collation [where up = built_in_table and d = sample_directory and x = "GetFilename ?e"]
    by (simp add: IsBuiltIn_def built_in_table_def [THEN arg_cong [of _ _ ut_built_in]] sample_name CompareName_def names.refl
        split: option.splits)
qed

end
