(* ===== verification/UsnScanner.thy ===== *)
theory UsnScanner
  imports FileReference Utf
begin

text \<open>
  The change journal: class RecordScanner of src/usn/usn-record-scanner.cpp, over the on-disk
  records of src/data/usn-record.h. The scanner decodes the records of a $J stream from its bytes,
  handed over in pieces, and finds the next record again after damage. A read outside the bytes is
  an error value. A wide name holds 32-bit characters. LONGLONG USNs are 64-bit words, read
  signed where they are compared.
\<close>

section \<open>Model\<close>

datatype usn_error = UsnOutOfBounds

record usn_entry =
  ue_file_record :: u64
  ue_file_sequence :: u16
  ue_file_reference_high :: u64
  ue_parent_record :: u64
  ue_parent_sequence :: u16
  ue_parent_reference_high :: u64
  ue_usn :: u64
  ue_time :: filetime
  ue_reason :: u32
  ue_file_attributes :: u32
  ue_name :: "u32 list"
  ue_major_version :: u16

record usn_common =
  uc_record_length :: u32
  uc_major_version :: u16
  uc_minor_version :: u16

record record_scanner =
  rs_pending :: "byte list"
  rs_pending_offset :: u64
  rs_resyncing :: bool
  rs_damaged :: u64
  rs_skipped :: u64

definition max_name_record_length :: nat where "max_name_record_length = 4096"
definition max_range_record_length :: nat where "max_range_record_length = 65536"
definition word_size :: nat where "word_size = 8"
definition v4_extent_bytes :: nat where "v4_extent_bytes = 16"
definition version_2 :: u16 where "version_2 = 2"
definition version_3 :: u16 where "version_3 = 3"
definition version_4 :: u16 where "version_4 = 4"
definition sizeof_v2 :: nat where "sizeof_v2 = 60"
definition sizeof_v3 :: nat where "sizeof_v3 = 76"
definition sizeof_v4 :: nat where "sizeof_v4 = 64"

lemmas usn_consts = max_name_record_length_def max_range_record_length_def word_size_def v4_extent_bytes_def
  version_2_def version_3_def version_4_def sizeof_v2_def sizeof_v3_def sizeof_v4_def

definition MinimumLength :: "u16 \<Rightarrow> nat" where
  "MinimumLength major =
    (if major = version_2 then sizeof_v2 else if major = version_3 then sizeof_v3
     else if major = version_4 then sizeof_v4 else 0)"

definition PlausibleHeader :: "usn_common \<Rightarrow> bool" where
  "PlausibleHeader header =
    (let minimum = MinimumLength (uc_major_version header);
         maximum = (if uc_major_version header = version_4 then max_range_record_length else max_name_record_length);
         len = unat (uc_record_length header)
     in \<not> (minimum = 0 \<or> uc_minor_version header \<noteq> 0) \<and> len mod word_size = 0 \<and> len \<ge> minimum \<and> len \<le> maximum)"

text \<open>The first \<open>word_size\<close> bytes of a window are zero; \<open>judge\<close> checks that there are that many.\<close>

definition IsZeroWord :: "byte list \<Rightarrow> bool" where
  "IsZeroWord window \<longleftrightarrow> list_all (\<lambda>b. b = 0) (take word_size window)"

fun IsWellFormedUtf16 :: "u16 list \<Rightarrow> bool" where
  "IsWellFormedUtf16 [] = True"
| "IsWellFormedUtf16 (unit # units) =
    (if unit \<ge> 0xD800 \<and> unit \<le> 0xDBFF then
       (case units of [] \<Rightarrow> False | low # rest \<Rightarrow> if low < 0xDC00 \<or> low > 0xDFFF then False else IsWellFormedUtf16 rest)
     else if unit \<ge> 0xDC00 \<and> unit \<le> 0xDFFF then False
     else IsWellFormedUtf16 units)"

definition read_common :: "byte list \<Rightarrow> usn_error + usn_common" where
  "read_common window =
    (if 8 \<le> length window
     then Inr \<lparr>uc_record_length = u32_at window 0, uc_major_version = u16_at window 4, uc_minor_version = u16_at window 6\<rparr>
     else Inl UsnOutOfBounds)"

text \<open>ReadAt() of a structure of \<open>n\<close> bytes at the start of a window, or \<open>first(n)\<close>; short of bytes, an error.\<close>

definition read_struct :: "byte list \<Rightarrow> nat \<Rightarrow> usn_error + byte list" where
  "read_struct window n = (if n \<le> length window then Inr (take n window) else Inl UsnOutOfBounds)"

definition SplitReference :: "u64 \<Rightarrow> u64 \<times> u16" where
  "SplitReference reference = (reference AND mft_record_number_mask, ucast (drop_bit mft_sequence_shift reference))"

definition IsNamePlacementValid :: "nat \<Rightarrow> nat \<Rightarrow> nat \<Rightarrow> nat \<Rightarrow> bool" where
  "IsNamePlacementValid window_size fixed_size name_offset name_length =
    (let aligned = (name_offset mod 2 = 0 \<and> name_length mod 2 = 0);
         inside = (name_offset \<le> window_size \<and> name_length \<le> size_sub window_size name_offset)
     in name_offset \<ge> fixed_size \<and> aligned \<and> inside)"

text \<open>ReadName(): None when it returns false.\<close>

definition ReadName :: "byte list \<Rightarrow> nat \<Rightarrow> nat \<Rightarrow> nat \<Rightarrow> usn_error + u32 list option" where
  "ReadName window fixed_size name_offset name_length =
    (if \<not> IsNamePlacementValid (length window) fixed_size name_offset name_length then Inr None
     else if name_offset + name_length > length window then Inl UsnOutOfBounds
     else
       let units = map (\<lambda>i. u16_at window (name_offset + 2 * i)) [0..<name_length div 2]
       in if \<not> IsWellFormedUtf16 units then Inr None else Inr (Some (Utf16ToWide_32 units)))"

definition usn_file_time :: "u64 \<Rightarrow> filetime" where
  "usn_file_time v = \<lparr>ft_low = ucast (v AND (push_bit 32 1 - 1)), ft_high = ucast (drop_bit 32 v)\<rparr>"

text \<open>The result of DecodeRecord(): not a record, a range record to skip, or a named record.\<close>

datatype decoded = NotARecord | SkippedRange nat | NamedRecord nat usn_entry

definition decode_v4 :: "byte list \<Rightarrow> u64 \<Rightarrow> bool \<Rightarrow> usn_common \<Rightarrow> usn_error + decoded" where
  "decode_v4 window offset resyncing header =
     bind_r (read_struct window sizeof_v4) (\<lambda>range.
       let extents_bytes = unat (u16_at range 60) * v4_extent_bytes
       in if extents_bytes > size_sub (length window) sizeof_v4 \<or> (resyncing \<and> sint (u64_at range 40) \<noteq> uint offset)
          then Inr NotARecord
          else Inr (SkippedRange (unat (uc_record_length header))))"

definition decode_v2 :: "byte list \<Rightarrow> u64 \<Rightarrow> bool \<Rightarrow> usn_common \<Rightarrow> usn_error + decoded" where
  "decode_v2 window offset resyncing header =
     bind_r (read_struct window sizeof_v2) (\<lambda>narrow.
       if resyncing \<and> sint (u64_at narrow 24) \<noteq> uint offset then Inr NotARecord
       else bind_r (ReadName window sizeof_v2 (unat (u16_at narrow 58)) (unat (u16_at narrow 56))) (\<lambda>name.
         case name of
           None \<Rightarrow> Inr NotARecord
         | Some name \<Rightarrow>
             Inr (NamedRecord (unat (uc_record_length header))
               \<lparr>ue_file_record = fst (SplitReference (u64_at narrow 8)), ue_file_sequence = snd (SplitReference (u64_at narrow 8)),
                ue_file_reference_high = 0,
                ue_parent_record = fst (SplitReference (u64_at narrow 16)), ue_parent_sequence = snd (SplitReference (u64_at narrow 16)),
                ue_parent_reference_high = 0, ue_usn = u64_at narrow 24, ue_time = usn_file_time (u64_at narrow 32),
                ue_reason = u32_at narrow 40, ue_file_attributes = u32_at narrow 52, ue_name = name,
                ue_major_version = uc_major_version header\<rparr>)))"

definition decode_v3 :: "byte list \<Rightarrow> u64 \<Rightarrow> bool \<Rightarrow> usn_common \<Rightarrow> usn_error + decoded" where
  "decode_v3 window offset resyncing header =
     bind_r (read_struct window sizeof_v3) (\<lambda>wide.
       if resyncing \<and> sint (u64_at wide 40) \<noteq> uint offset then Inr NotARecord
       else bind_r (ReadName window sizeof_v3 (unat (u16_at wide 74)) (unat (u16_at wide 72))) (\<lambda>name.
         case name of
           None \<Rightarrow> Inr NotARecord
         | Some name \<Rightarrow>
             Inr (NamedRecord (unat (uc_record_length header))
               \<lparr>ue_file_record = fst (SplitReference (u64_at wide 8)), ue_file_sequence = snd (SplitReference (u64_at wide 8)),
                ue_file_reference_high = u64_at wide 16,
                ue_parent_record = fst (SplitReference (u64_at wide 24)), ue_parent_sequence = snd (SplitReference (u64_at wide 24)),
                ue_parent_reference_high = u64_at wide 32, ue_usn = u64_at wide 40, ue_time = usn_file_time (u64_at wide 48),
                ue_reason = u32_at wide 56, ue_file_attributes = u32_at wide 68, ue_name = name,
                ue_major_version = uc_major_version header\<rparr>)))"

definition DecodeRecord :: "byte list \<Rightarrow> u64 \<Rightarrow> bool \<Rightarrow> usn_error + decoded" where
  "DecodeRecord window offset resyncing =
     bind_r (read_common window) (\<lambda>header.
       if uc_major_version header = version_4 then decode_v4 window offset resyncing header
       else if uc_major_version header = version_2 then decode_v2 window offset resyncing header
       else decode_v3 window offset resyncing header)"

definition fail_mark :: "record_scanner \<Rightarrow> record_scanner" where
  "fail_mark s = (if \<not> rs_resyncing s then s\<lparr>rs_resyncing := True, rs_damaged := rs_damaged s + 1\<rparr> else s)"

lemma DecodeRecord_length:
  "DecodeRecord window offset resyncing = Inr (SkippedRange n) \<Longrightarrow> read_common window = Inr header \<Longrightarrow> n = unat (uc_record_length header)"
  "DecodeRecord window offset resyncing = Inr (NamedRecord n r) \<Longrightarrow> read_common window = Inr header \<Longrightarrow> n = unat (uc_record_length header)"
  by (auto simp: DecodeRecord_def decode_v2_def decode_v3_def decode_v4_def bind_r_eq_Inr Let_def split: if_splits option.splits)

lemma PlausibleHeader_length: "PlausibleHeader header \<Longrightarrow> 8 \<le> unat (uc_record_length header)"
  by (auto simp: PlausibleHeader_def MinimumLength_def usn_consts Let_def split: if_splits)

lemma read_common_take: "8 \<le> n \<Longrightarrow> read_common window = Inr header \<Longrightarrow> n \<le> length window \<Longrightarrow> read_common (take n window) = Inr header"
  by (auto simp: read_common_def u32_at_def u16_at_def read_le_def drop_take min_def split: if_splits)

text \<open>The bytes at a position of the kept ones, and their offset in the stream.\<close>

definition window_at :: "record_scanner \<Rightarrow> nat \<Rightarrow> byte list" where
  "window_at s pos = drop pos (rs_pending s)"

definition offset_at :: "record_scanner \<Rightarrow> nat \<Rightarrow> u64" where
  "offset_at s pos = rs_pending_offset s + of_nat pos"

text \<open>What one pass of the loop of Drain() decides at a position.\<close>

datatype verdict = WaitForMore | Advance nat | Damage nat | Skip nat | Take nat usn_entry

definition judge :: "bool \<Rightarrow> byte list \<Rightarrow> u64 \<Rightarrow> bool \<Rightarrow> usn_error + verdict" where
  "judge at_end window offset resyncing =
    (if unat offset mod word_size \<noteq> 0 then
       (if window = [] then Inl UsnOutOfBounds else Inr (if hd window \<noteq> 0 then Damage 1 else Advance 1))
     else if length window < word_size then Inl UsnOutOfBounds
     else if IsZeroWord window then Inr (Advance word_size)
     else bind_r (read_common window) (\<lambda>header.
       let plausible = PlausibleHeader header;
           whole = (plausible \<and> unat (uc_record_length header) \<le> length window)
       in if plausible \<and> \<not> whole \<and> \<not> at_end then Inr WaitForMore
          else bind_r (if whole
                       then bind_r (read_struct window (unat (uc_record_length header)))
                              (\<lambda>record. DecodeRecord record offset resyncing)
                       else Inr NotARecord)
            (\<lambda>d. Inr (case d of
               NotARecord \<Rightarrow> Damage word_size
             | SkippedRange n \<Rightarrow> if n = 0 then Damage word_size else Skip n
             | NamedRecord n r \<Rightarrow> if n = 0 then Damage word_size else Take n r))))"

fun verdict_moves :: "verdict \<Rightarrow> bool" where
  "verdict_moves WaitForMore = True"
| "verdict_moves (Advance n) = (0 < n)"
| "verdict_moves (Damage n) = (0 < n)"
| "verdict_moves (Skip n) = (0 < n)"
| "verdict_moves (Take n r) = (0 < n)"

lemma judge_verdict_cases:
  assumes "judge at_end window offset resyncing = Inr v"
  obtains (word) "v = Damage 1 \<or> v = Advance 1 \<or> v = Advance word_size \<or> v = WaitForMore"
  | (decoded) d where "v = (case d of NotARecord \<Rightarrow> Damage word_size
       | SkippedRange n \<Rightarrow> if n = 0 then Damage word_size else Skip n
       | NamedRecord n r \<Rightarrow> if n = 0 then Damage word_size else Take n r)"
  using assms unfolding judge_def Let_def
  by (auto simp only: bind_r_eq_Inr sum.inject split: if_splits)

lemma judge_moves:
  assumes "judge at_end window offset resyncing = Inr v"
  shows "verdict_moves v"
  using assms
proof (cases rule: judge_verdict_cases)
  case word
  then show ?thesis by (auto simp: word_size_def)
next
  case (decoded d)
  then show ?thesis by (cases d) (auto simp: word_size_def)
qed

lemma fail_mark_pending [simp]: "rs_pending (fail_mark s) = rs_pending s" "rs_pending_offset (fail_mark s) = rs_pending_offset s"
  by (simp_all add: fail_mark_def)

function drain_loop :: "bool \<Rightarrow> nat \<Rightarrow> record_scanner \<Rightarrow> usn_entry list \<Rightarrow> usn_error + nat \<times> record_scanner \<times> usn_entry list" where
  "drain_loop at_end pos s out =
    (if length (rs_pending s) - pos \<ge> word_size then
       case judge at_end (window_at s pos) (offset_at s pos) (rs_resyncing s) of
         Inl e \<Rightarrow> Inl e
       | Inr WaitForMore \<Rightarrow> Inr (pos, s, out)
       | Inr (Advance n) \<Rightarrow> drain_loop at_end (pos + n) s out
       | Inr (Damage n) \<Rightarrow> drain_loop at_end (pos + n) (fail_mark s) out
       | Inr (Skip n) \<Rightarrow> drain_loop at_end (pos + n) (s\<lparr>rs_resyncing := False, rs_skipped := rs_skipped s + 1\<rparr>) out
       | Inr (Take n r) \<Rightarrow> drain_loop at_end (pos + n) (s\<lparr>rs_resyncing := False\<rparr>) (out @ [r])
     else Inr (pos, s, out))"
  by pat_completeness auto

termination
  by (relation "measure (\<lambda>(l, pos, s, out). length (rs_pending s) - pos)")
    (auto simp: word_size_def dest: judge_moves)

declare drain_loop.simps [simp del]

definition Drain :: "record_scanner \<Rightarrow> usn_entry list \<Rightarrow> bool \<Rightarrow> usn_error + record_scanner \<times> usn_entry list" where
  "Drain s out at_end =
     bind_r (drain_loop at_end 0 s out) (\<lambda>(pos, s, out).
       let stray = (at_end \<and> \<not> rs_resyncing s \<and> list_ex (\<lambda>b. b \<noteq> 0) (drop pos (rs_pending s)))
       in Inr (s\<lparr>rs_damaged := (if stray then rs_damaged s + 1 else rs_damaged s),
                 rs_pending := drop pos (rs_pending s), rs_pending_offset := rs_pending_offset s + of_nat pos\<rparr>, out))"

definition Reset :: "record_scanner \<Rightarrow> record_scanner" where
  "Reset s = s\<lparr>rs_pending := [], rs_pending_offset := 0, rs_resyncing := False\<rparr>"

definition Feed :: "record_scanner \<Rightarrow> byte list \<Rightarrow> u64 \<Rightarrow> usn_entry list \<Rightarrow> usn_error + record_scanner \<times> usn_entry list" where
  "Feed s bytes stream_offset out =
    (let s = s\<lparr>rs_pending_offset := (if rs_pending s = [] then stream_offset else rs_pending_offset s)\<rparr>
     in Drain (s\<lparr>rs_pending := rs_pending s @ bytes\<rparr>) out False)"

definition Finish :: "record_scanner \<Rightarrow> usn_entry list \<Rightarrow> usn_error + record_scanner \<times> usn_entry list" where
  "Finish s out = bind_r (Drain s out True) (\<lambda>(s, out). Inr (Reset s, out))"

definition new_scanner :: record_scanner where
  "new_scanner = \<lparr>rs_pending = [], rs_pending_offset = 0, rs_resyncing = False, rs_damaged = 0, rs_skipped = 0\<rparr>"

section \<open>The scanner never leaves its bytes\<close>

lemma ReadName_total: "\<exists>r. ReadName window fixed_size name_offset name_length = Inr r"
  by (auto simp: ReadName_def IsNamePlacementValid_def Let_def)

lemma read_struct_total: "n \<le> length window \<Longrightarrow> \<exists>w. read_struct window n = Inr w"
  by (simp add: read_struct_def)

lemma bind_r_Inr: "\<exists>x. m = Inr x \<Longrightarrow> (\<And>x. \<exists>y. f x = Inr y) \<Longrightarrow> \<exists>y. bind_r m f = Inr y"
  by auto

lemma DecodeRecord_total:
  assumes "read_common window = Inr header" "PlausibleHeader header" "length window = unat (uc_record_length header)"
  shows "\<exists>d. DecodeRecord window offset resyncing = Inr d"
proof -
  have min: "MinimumLength (uc_major_version header) \<le> length window" "MinimumLength (uc_major_version header) \<noteq> 0"
    using assms(2,3) by (auto simp: PlausibleHeader_def Let_def)
  have v4: "\<exists>d. decode_v4 window offset resyncing header = Inr d" if "sizeof_v4 \<le> length window"
    unfolding decode_v4_def by (rule bind_r_Inr [OF read_struct_total [OF that]]) (simp add: Let_def)
  have v2: "\<exists>d. decode_v2 window offset resyncing header = Inr d" if "sizeof_v2 \<le> length window"
    unfolding decode_v2_def
    by (rule bind_r_Inr [OF read_struct_total [OF that]])
      (auto intro!: bind_r_Inr ReadName_total split: option.splits)
  have v3: "\<exists>d. decode_v3 window offset resyncing header = Inr d" if "sizeof_v3 \<le> length window"
    unfolding decode_v3_def
    by (rule bind_r_Inr [OF read_struct_total [OF that]])
      (auto intro!: bind_r_Inr ReadName_total split: option.splits)
  show ?thesis
    unfolding DecodeRecord_def assms(1) using min v2 v3 v4
    by (auto simp: MinimumLength_def version_2_def version_3_def version_4_def split: if_splits)
qed

lemma judge_total:
  assumes "8 \<le> length window"
  shows "\<exists>v. judge at_end window offset resyncing = Inr v"
proof -
  obtain header where header: "read_common window = Inr header" using assms by (simp add: read_common_def)
  let ?len = "unat (uc_record_length header)"
  have decode: "\<exists>d. DecodeRecord (take ?len window) offset resyncing = Inr d"
    if "PlausibleHeader header" "?len \<le> length window"
    by (rule DecodeRecord_total [OF read_common_take [OF _ header] that(1)])
      (use that PlausibleHeader_length in auto)
  show ?thesis
    unfolding judge_def header using decode assms by (auto simp: Let_def read_struct_def word_size_def)
qed

lemma drain_loop_total: "\<exists>r. drain_loop at_end pos s out = Inr r"
proof (induction at_end pos s out rule: drain_loop.induct)
  case (1 at_end pos s out)
  show ?case
  proof (cases "length (rs_pending s) - pos \<ge> word_size")
    case False
    then show ?thesis by (subst drain_loop.simps) simp
  next
    case True
    then have "8 \<le> length (window_at s pos)" by (simp add: window_at_def word_size_def)
    then obtain v where v: "judge at_end (window_at s pos) (offset_at s pos) (rs_resyncing s) = Inr v"
      using judge_total by blast
    show ?thesis using True v 1(1,2,3,4) [OF True v] by (cases v) (subst drain_loop.simps, simp)+
  qed
qed

lemma Drain_total: "\<exists>r. Drain s out at_end = Inr r"
  using drain_loop_total [of at_end 0 s out] by (auto simp: Drain_def Let_def split: prod.splits)

lemma Feed_total: "\<exists>r. Feed s bytes offset out = Inr r"
  unfolding Feed_def Let_def by (rule Drain_total)

lemma Finish_total: "\<exists>r. Finish s out = Inr r"
  using Drain_total [of s out True] by (auto simp: Finish_def split: prod.splits)

section \<open>Reading in pieces\<close>

lemma judge_extend:
  assumes "judge False w offset resyncing = Inr v" "v \<noteq> WaitForMore" "8 \<le> length w"
  shows "judge at_end (w @ ys) offset resyncing = Inr v"
proof (cases "unat offset mod word_size \<noteq> 0")
  case True
  then show ?thesis using assms by (cases w) (auto simp: judge_def)
next
  case aligned: False
  have zero: "IsZeroWord (w @ ys) = IsZeroWord w" using assms(3) by (simp add: IsZeroWord_def word_size_def)
  obtain header where header: "read_common w = Inr header" using assms(3) by (simp add: read_common_def)
  have header': "read_common (w @ ys) = Inr header"
    using header assms(3) by (simp add: read_common_def u32_at_def u16_at_def read_le_append)
  let ?len = "unat (uc_record_length header)"
  show ?thesis
  proof (cases "IsZeroWord w")
    case True
    then show ?thesis using assms(1,3) aligned zero by (simp add: judge_def word_size_def)
  next
    case word: False
    show ?thesis
    proof (cases "PlausibleHeader header \<and> ?len \<le> length w")
      case True
      then have "take ?len (w @ ys) = take ?len w" by simp
      then show ?thesis using assms(1,3) aligned zero word header header' True by (simp add: judge_def Let_def read_struct_def word_size_def)
    next
      case False
      then show ?thesis
        using assms aligned zero word header header' by (auto simp: judge_def Let_def read_struct_def word_size_def split: if_splits)
    qed
  qed
qed

definition more :: "record_scanner \<Rightarrow> byte list \<Rightarrow> record_scanner" where
  "more s ys = s\<lparr>rs_pending := rs_pending s @ ys\<rparr>"

lemma more_simps [simp]:
  "rs_pending (more s ys) = rs_pending s @ ys" "rs_pending_offset (more s ys) = rs_pending_offset s"
  "rs_resyncing (more s ys) = rs_resyncing s" "rs_skipped (more s ys) = rs_skipped s"
  "rs_damaged (more s ys) = rs_damaged s" "fail_mark (more s ys) = more (fail_mark s) ys"
  "(more s ys)\<lparr>rs_resyncing := r\<rparr> = more (s\<lparr>rs_resyncing := r\<rparr>) ys"
  "(more s ys)\<lparr>rs_skipped := k\<rparr> = more (s\<lparr>rs_skipped := k\<rparr>) ys"
  by (simp_all add: more_def fail_mark_def)

text \<open>What one piece decoded is decoded again when more bytes follow, and the scan goes on from there.\<close>

lemma drain_loop_extend:
  "drain_loop False pos s out = Inr (p, s', out') \<Longrightarrow>
     drain_loop at_end pos (more s ys) out = drain_loop at_end p (more s' ys) out'"
proof (induction False pos s out rule: drain_loop.induct)
  case (1 pos s out)
  show ?case
  proof (cases "length (rs_pending s) - pos \<ge> word_size")
    case False
    then show ?thesis using 1(5) by (subst (asm) drain_loop.simps) simp
  next
    case True
    then have w: "8 \<le> length (window_at s pos)" by (simp add: window_at_def word_size_def)
    obtain v where v: "judge False (window_at s pos) (offset_at s pos) (rs_resyncing s) = Inr v"
      using judge_total [OF w] by blast
    have win: "window_at (more s ys) pos = window_at s pos @ ys" "offset_at (more s ys) pos = offset_at s pos"
      using True by (simp_all add: window_at_def offset_at_def word_size_def)
    have room: "length (rs_pending (more s ys)) - pos \<ge> word_size" using True by simp
    show ?thesis
    proof (cases "v = WaitForMore")
      case wait: True
      then show ?thesis using 1(5) True v by (subst (asm) drain_loop.simps) simp
    next
      case False
      have v': "judge at_end (window_at (more s ys) pos) (offset_at (more s ys) pos) (rs_resyncing (more s ys)) = Inr v"
        using judge_extend [OF v False w] win by simp
      show ?thesis
      proof (cases v)
        case (Advance n)
        have "drain_loop False (pos + n) s out = Inr (p, s', out')"
          using 1(5) True v Advance by (subst (asm) drain_loop.simps) simp
        from 1(1) [OF True v Advance this] show ?thesis
          using room v' Advance by (subst drain_loop.simps) simp
      next
        case (Damage n)
        have "drain_loop False (pos + n) (fail_mark s) out = Inr (p, s', out')"
          using 1(5) True v Damage by (subst (asm) drain_loop.simps) simp
        from 1(2) [OF True v Damage this] show ?thesis
          using room v' Damage by (subst drain_loop.simps) simp
      next
        case (Skip n)
        have "drain_loop False (pos + n) (s\<lparr>rs_resyncing := False, rs_skipped := rs_skipped s + 1\<rparr>) out = Inr (p, s', out')"
          using 1(5) True v Skip by (subst (asm) drain_loop.simps) simp
        from 1(3) [OF True v Skip this] show ?thesis
          using room v' Skip by (subst drain_loop.simps) simp
      next
        case (Take n r)
        have "drain_loop False (pos + n) (s\<lparr>rs_resyncing := False\<rparr>) (out @ [r]) = Inr (p, s', out')"
          using 1(5) True v Take by (subst (asm) drain_loop.simps) simp
        from 1(4) [OF True v Take this] show ?thesis
          using room v' Take by (subst drain_loop.simps) simp
      qed (use False in simp)
    qed
  qed
qed

fun verdict_size :: "verdict \<Rightarrow> nat" where
  "verdict_size WaitForMore = 0"
| "verdict_size (Advance n) = n"
| "verdict_size (Damage n) = n"
| "verdict_size (Skip n) = n"
| "verdict_size (Take n r) = n"

lemma judge_fits:
  assumes v: "judge at_end window offset resyncing = Inr v" and len: "8 \<le> length window"
  shows "verdict_size v \<le> length window"
proof (cases "unat offset mod word_size \<noteq> 0 \<or> IsZeroWord window")
  case True
  then have "v = Damage 1 \<or> v = Advance 1 \<or> v = Advance 8"
    using v len by (auto simp: judge_def word_size_def split: if_splits)
  then show ?thesis using len by auto
next
  case False
  obtain header where header: "read_common window = Inr header" using len by (simp add: read_common_def)
  let ?len = "unat (uc_record_length header)"
  show ?thesis
  proof (cases "PlausibleHeader header \<and> ?len \<le> length window")
    case True
    have h: "read_common (take ?len window) = Inr header"
      using True PlausibleHeader_length by (intro read_common_take [OF _ header]) auto
    have "length (take ?len window) = ?len" using True by simp
    from DecodeRecord_total [OF h _ this] True obtain d where
      d: "DecodeRecord (take ?len window) offset resyncing = Inr d" by blast
    then have v_eq: "v = (case d of NotARecord \<Rightarrow> Damage word_size
       | SkippedRange n \<Rightarrow> if n = 0 then Damage word_size else Skip n
       | NamedRecord n r \<Rightarrow> if n = 0 then Damage word_size else Take n r)"
      using v False header True len by (simp add: judge_def Let_def read_struct_def word_size_def)
    show ?thesis
    proof (cases d)
      case NotARecord
      then show ?thesis using v_eq len by (simp add: word_size_def)
    next
      case (SkippedRange n)
      then have "n = ?len" using DecodeRecord_length(1) d h by blast
      then show ?thesis using v_eq SkippedRange True len by (simp add: word_size_def)
    next
      case (NamedRecord n r)
      then have "n = ?len" using DecodeRecord_length(2) d h by blast
      then show ?thesis using v_eq NamedRecord True len by (simp add: word_size_def)
    qed
  next
    case nw: False
    then have "v = WaitForMore \<or> v = Damage 8"
      using v False header by (auto simp: judge_def Let_def word_size_def split: if_splits)
    then show ?thesis using len by auto
  qed
qed

lemma drain_loop_keeps:
  "drain_loop at_end pos s out = Inr (p, s', out') \<Longrightarrow> pos \<le> length (rs_pending s) \<Longrightarrow>
     rs_pending s' = rs_pending s \<and> rs_pending_offset s' = rs_pending_offset s \<and> pos \<le> p \<and> p \<le> length (rs_pending s)"
proof (induction at_end pos s out rule: drain_loop.induct)
  case (1 at_end pos s out)
  show ?case
  proof (cases "length (rs_pending s) - pos \<ge> word_size")
    case False
    then show ?thesis using 1(5,6) by (subst (asm) drain_loop.simps) auto
  next
    case True
    then have w: "8 \<le> length (window_at s pos)" by (simp add: window_at_def word_size_def)
    then obtain v where v: "judge at_end (window_at s pos) (offset_at s pos) (rs_resyncing s) = Inr v"
      using judge_total by blast
    have fits: "pos + verdict_size v \<le> length (rs_pending s)"
      using judge_fits [OF v w] 1(6) by (simp add: window_at_def)
    show ?thesis
      using 1(5) True v fits 1(6) 1(1,2,3,4) [OF True v]
      by (cases v) (subst (asm) drain_loop.simps, fastforce)+
  qed
qed

text \<open>The scan does not depend on where the kept bytes were cut.\<close>

definition rebase :: "nat \<Rightarrow> record_scanner \<Rightarrow> record_scanner" where
  "rebase k s = s\<lparr>rs_pending := drop k (rs_pending s), rs_pending_offset := rs_pending_offset s + of_nat k\<rparr>"

lemma rebase_simps [simp]:
  "rs_pending (rebase k s) = drop k (rs_pending s)" "rs_pending_offset (rebase k s) = rs_pending_offset s + of_nat k"
  "rs_resyncing (rebase k s) = rs_resyncing s" "rs_skipped (rebase k s) = rs_skipped s" "rs_damaged (rebase k s) = rs_damaged s"
  "fail_mark (rebase k s) = rebase k (fail_mark s)"
  "(rebase k s)\<lparr>rs_resyncing := r\<rparr> = rebase k (s\<lparr>rs_resyncing := r\<rparr>)"
  "(rebase k s)\<lparr>rs_skipped := n\<rparr> = rebase k (s\<lparr>rs_skipped := n\<rparr>)"
  by (simp_all add: rebase_def fail_mark_def)

definition shifted :: "nat \<Rightarrow> usn_error + nat \<times> record_scanner \<times> usn_entry list \<Rightarrow> usn_error + nat \<times> record_scanner \<times> usn_entry list" where
  "shifted k r = bind_r r (\<lambda>(p, s, out). Inr (p - k, rebase k s, out))"

lemma drain_loop_rebase:
  "k \<le> q \<Longrightarrow> q \<le> length (rs_pending s) \<Longrightarrow>
     drain_loop at_end (q - k) (rebase k s) out = shifted k (drain_loop at_end q s out)"
proof (induction at_end q s out rule: drain_loop.induct)
  case (1 at_end q s out)
  have win: "window_at (rebase k s) (q - k) = window_at s q" using 1(5) by (simp add: window_at_def)
  have off: "offset_at (rebase k s) (q - k) = offset_at s q"
    using 1(5) by (simp add: offset_at_def algebra_simps flip: of_nat_add)
  show ?case
  proof (cases "length (rs_pending s) - q \<ge> word_size")
    case False
    then have "\<not> length (rs_pending (rebase k s)) - (q - k) \<ge> word_size" using 1(5,6) by simp
    then show ?thesis using False by (subst (1 2) drain_loop.simps) (simp add: shifted_def)
  next
    case True
    then have room: "length (rs_pending (rebase k s)) - (q - k) \<ge> word_size" using 1(5) by simp
    have w: "8 \<le> length (window_at s q)" using True by (simp add: window_at_def word_size_def)
    then obtain v where v: "judge at_end (window_at s q) (offset_at s q) (rs_resyncing s) = Inr v"
      using judge_total by blast
    then have v': "judge at_end (window_at (rebase k s) (q - k)) (offset_at (rebase k s) (q - k)) (rs_resyncing (rebase k s)) = Inr v"
      by (simp add: win off)
    have fits: "q + verdict_size v \<le> length (rs_pending s)"
      using judge_fits [OF v w] 1(6) by (simp add: window_at_def)
    have step: "q - k + n = q + n - k" for n using 1(5) by simp
    have more: "k \<le> q + n" for n using 1(5) by simp
    show ?thesis
    proof (cases v)
      case WaitForMore
      then show ?thesis using True room v v' by (subst (1 2) drain_loop.simps) (simp add: shifted_def)
    next
      case (Advance n)
      then show ?thesis using True room v v' 1(1) [OF True v Advance more] fits
        by (subst (1 2) drain_loop.simps) (simp add: step)
    next
      case (Damage n)
      then show ?thesis using True room v v' 1(2) [OF True v Damage more] fits
        by (subst (1 2) drain_loop.simps) (simp add: step)
    next
      case (Skip n)
      then show ?thesis using True room v v' 1(3) [OF True v Skip more] fits
        by (subst (1 2) drain_loop.simps) (simp add: step)
    next
      case (Take n r)
      then show ?thesis using True room v v' 1(4) [OF True v Take more] fits
        by (subst (1 2) drain_loop.simps) (simp add: step)
    qed
  qed
qed

lemma Drain_after:
  assumes "Drain s out False = Inr (s1, out1)"
  shows "Drain (more s1 ys) out1 at_end = Drain (more s ys) out at_end"
proof -
  obtain p s' o' where d: "drain_loop False 0 s out = Inr (p, s', o')" using drain_loop_total [of False 0 s out] by auto
  have keeps: "rs_pending s' = rs_pending s" "p \<le> length (rs_pending s)"
    using drain_loop_keeps [OF d] by simp_all
  have s1: "s1 = rebase p s'" "out1 = o'"
    using assms d by (simp_all add: Drain_def rebase_def Let_def)
  have "more s1 ys = rebase p (more s' ys)"
    using keeps by (simp add: s1 more_def rebase_def)
  moreover have "drain_loop at_end 0 (rebase p (more s' ys)) o' = shifted p (drain_loop at_end p (more s' ys) o')"
    using drain_loop_rebase [of p p "more s' ys" at_end o'] keeps by simp
  moreover have "drain_loop at_end p (more s' ys) o' = drain_loop at_end 0 (more s ys) out"
    using drain_loop_extend [OF d] by simp
  moreover obtain q t r where t: "drain_loop at_end 0 (more s ys) out = Inr (q, t, r)"
    using drain_loop_total [of at_end 0 "more s ys" out] by auto
  moreover have "p \<le> q"
  proof -
    have "drain_loop at_end p (more s' ys) o' = Inr (q, t, r)" using calculation by simp
    from drain_loop_keeps [OF this] keeps show ?thesis by simp
  qed
  ultimately show ?thesis
    unfolding s1(2) by (simp add: Drain_def shifted_def Let_def rebase_def add.assoc flip: of_nat_add)
qed

definition contiguous :: "record_scanner \<Rightarrow> u64 \<Rightarrow> bool" where
  "contiguous s stream_offset \<longleftrightarrow>
     rs_pending s = [] \<or> rs_pending_offset s + of_nat (length (rs_pending s)) = stream_offset"

lemma Feed_contiguous:
  assumes "contiguous s off" "Feed s xs off out = Inr (s1, out1)"
  shows "rs_pending_offset s1 + of_nat (length (rs_pending s1)) = off + of_nat (length xs)"
proof -
  define t where "t = (s\<lparr>rs_pending_offset := (if rs_pending s = [] then off else rs_pending_offset s)\<rparr>)\<lparr>rs_pending := rs_pending s @ xs\<rparr>"
  have sum: "rs_pending_offset t + of_nat (length (rs_pending t)) = off + of_nat (length xs)"
    using assms(1) by (auto simp: t_def contiguous_def algebra_simps)
  obtain p s' o' where d: "drain_loop False 0 t out = Inr (p, s', o')" using drain_loop_total [of False 0 t out] by auto
  have keeps: "rs_pending s' = rs_pending t" "rs_pending_offset s' = rs_pending_offset t" "p \<le> length (rs_pending t)"
    using drain_loop_keeps [OF d] by simp_all
  have "s1 = rebase p s'"
    using assms(2) d by (simp add: Feed_def Let_def Drain_def rebase_def t_def)
  then have "rs_pending_offset s1 + of_nat (length (rs_pending s1)) =
      rs_pending_offset t + of_nat (p + (length (rs_pending t) - p))"
    by (simp add: keeps)
  then show ?thesis using sum keeps(3) by simp
qed

lemma Feed_twice:
  assumes "contiguous s off" "Feed s xs off out = Inr (s1, out1)"
  shows "Feed s1 ys (off + of_nat (length xs)) out1 = Feed s (xs @ ys) off out"
proof -
  define t where "t = (s\<lparr>rs_pending_offset := (if rs_pending s = [] then off else rs_pending_offset s)\<rparr>)\<lparr>rs_pending := rs_pending s @ xs\<rparr>"
  have d: "Drain t out False = Inr (s1, out1)" using assms(2) by (simp add: Feed_def Let_def t_def)
  have "Feed s (xs @ ys) off out = Drain (more t ys) out False"
    by (simp add: Feed_def Let_def t_def more_def)
  moreover have "Feed s1 ys (off + of_nat (length xs)) out1 = Drain (more s1 ys) out1 False"
  proof -
    have "s1\<lparr>rs_pending_offset := (if rs_pending s1 = [] then off + of_nat (length xs) else rs_pending_offset s1)\<rparr> = s1"
      using Feed_contiguous [OF assms] by (cases "rs_pending s1 = []") auto
    then show ?thesis by (simp add: Feed_def Let_def more_def)
  qed
  ultimately show ?thesis using Drain_after [OF d] by simp
qed

text \<open>A caller's loop over the pieces of one range, between Reset() and Finish().\<close>

fun feed_all :: "record_scanner \<Rightarrow> byte list list \<Rightarrow> u64 \<Rightarrow> usn_entry list \<Rightarrow> usn_error + record_scanner \<times> usn_entry list" where
  "feed_all s [] off out = Inr (s, out)"
| "feed_all s (c # cs) off out =
     bind_r (Feed s c off out) (\<lambda>(s, out). feed_all s cs (off + of_nat (length c)) out)"

definition scan_range :: "record_scanner \<Rightarrow> byte list list \<Rightarrow> u64 \<Rightarrow> usn_entry list \<Rightarrow> usn_error + record_scanner \<times> usn_entry list" where
  "scan_range s chunks off out =
     bind_r (feed_all (Reset s) chunks off out) (\<lambda>(s, out). Finish s out)"

lemma feed_all_concat:
  "contiguous s off \<Longrightarrow> feed_all s (c # cs) off out = Feed s (concat (c # cs)) off out"
proof (induction cs arbitrary: s c off out)
  case Nil
  obtain r where "Feed s c off out = Inr r" using Feed_total by blast
  then show ?case by (cases r) simp
next
  case (Cons d ds)
  obtain s1 out1 where f: "Feed s c off out = Inr (s1, out1)" using Feed_total [of s c off out] by auto
  have "contiguous s1 (off + of_nat (length c))" using Feed_contiguous [OF Cons.prems f] by (simp add: contiguous_def)
  then have "feed_all s1 (d # ds) (off + of_nat (length c)) out1 = Feed s1 (concat (d # ds)) (off + of_nat (length c)) out1"
    by (rule Cons.IH)
  also have "\<dots> = Feed s (c @ concat (d # ds)) off out" by (rule Feed_twice [OF Cons.prems f])
  finally show ?case using f by simp
qed

lemma drain_empty: "rs_pending s = [] \<Longrightarrow> drain_loop at_end 0 s out = Inr (0, s, out)"
  by (subst drain_loop.simps) (simp add: word_size_def)

lemma Finish_empty: "rs_pending s = [] \<Longrightarrow> Finish s out = Inr (Reset s, out)"
  by (simp add: Finish_def Drain_def drain_empty Let_def Reset_def)

lemma scan_range_one_piece:
  "\<exists>s' out'. scan_range s chunks stream_offset out = Inr (s', out') \<and>
     scan_range s [concat chunks] stream_offset out = Inr (s', out')"
proof -
  have c: "contiguous (Reset s) stream_offset" by (simp add: contiguous_def Reset_def)
  obtain s1 out1 where f: "Feed (Reset s) (concat chunks) stream_offset out = Inr (s1, out1)"
    using Feed_total [of "Reset s" "concat chunks" stream_offset out] by auto
  obtain s2 out2 where fin: "Finish s1 out1 = Inr (s2, out2)" using Finish_total [of s1 out1] by auto
  have one: "scan_range s [concat chunks] stream_offset out = Inr (s2, out2)" using f fin by (simp add: scan_range_def)
  have "scan_range s chunks stream_offset out = Inr (s2, out2)"
  proof (cases chunks)
    case Nil
    have "s1 = (Reset s)\<lparr>rs_pending_offset := stream_offset\<rparr>" "out1 = out"
      using f Nil by (simp_all add: Feed_def Let_def Drain_def drain_empty Reset_def)
    then have "Finish s1 out1 = Inr (Reset s, out)" by (simp add: Finish_empty Reset_def)
    then have "Finish (Reset s) out = Inr (s2, out2)" using fin by (simp add: Finish_empty Reset_def)
    then show ?thesis using Nil by (simp add: scan_range_def)
  next
    case (Cons d ds)
    then show ?thesis using feed_all_concat [OF c, of d ds out] f fin by (simp add: scan_range_def)
  qed
  then show ?thesis using one by blast
qed

text \<open>
  C19. What is read from a range of the journal does not depend on how its bytes were cut into
  pieces: any list of pieces gives the records, the damage count and the skipped count that the
  whole range gives in one piece, cut records and the search after damage included. It always
  ends, and no read leaves the bytes.
\<close>

theorem scan_ignores_chunking:
  "\<exists>s' out'. scan_range s chunks stream_offset out = Inr (s', out') \<and>
     scan_range s [concat chunks] stream_offset out = Inr (s', out')"
  by (rule scan_range_one_piece)

section \<open>Reading back what a journal holds\<close>

text \<open>
  A change as the journal writes it, in a version 2 record; \<open>jc_source\<close> and \<open>jc_security\<close> are fields
  the scanner does not keep. A reference is six bytes of record number and two of sequence number, a
  time its low and its high four bytes, a name its code points, written in UTF-16 by the arithmetic of
  \<open>units_of\<close>. Records are padded with zeros to a multiple of 8 bytes, and words of zeros may stand
  between them. Nothing here is taken from the decoder.
\<close>

record journal_change =
  jc_file_record :: nat
  jc_file_sequence :: u16
  jc_parent_record :: nat
  jc_parent_sequence :: u16
  jc_usn :: u64
  jc_time_low :: u32
  jc_time_high :: u32
  jc_reason :: u32
  jc_source :: u32
  jc_security :: u32
  jc_attributes :: u32
  jc_name :: "nat list"

datatype journal_item = ZeroWord | Change journal_change

definition name_units :: "journal_change \<Rightarrow> nat list" where
  "name_units c = concat (map units_of (jc_name c))"

definition change_size :: "journal_change \<Rightarrow> nat" where
  "change_size c = (60 + 2 * length (name_units c) + 7) div 8 * 8"

definition change_bytes :: "journal_change \<Rightarrow> byte list" where
  "change_bytes c =
     to_le 4 (change_size c) @ to_le 2 2 @ to_le 2 0 @
     to_le 6 (jc_file_record c) @ to_le 2 (unat (jc_file_sequence c)) @
     to_le 6 (jc_parent_record c) @ to_le 2 (unat (jc_parent_sequence c)) @ to_le 8 (unat (jc_usn c)) @
     to_le 4 (unat (jc_time_low c)) @ to_le 4 (unat (jc_time_high c)) @
     to_le 4 (unat (jc_reason c)) @ to_le 4 (unat (jc_source c)) @ to_le 4 (unat (jc_security c)) @
     to_le 4 (unat (jc_attributes c)) @ to_le 2 (2 * length (name_units c)) @ to_le 2 60 @
     concat (map (to_le 2) (name_units c)) @ replicate (change_size c - (60 + 2 * length (name_units c))) 0"

definition scalar :: "nat \<Rightarrow> bool" where
  "scalar p \<longleftrightarrow> p < 0xD800 \<or> 0xE000 \<le> p \<and> p < 0x110000"

definition change_ok :: "journal_change \<Rightarrow> bool" where
  "change_ok c \<longleftrightarrow> jc_file_record c < 2 ^ 48 \<and> jc_parent_record c < 2 ^ 48 \<and>
     list_all scalar (jc_name c) \<and> length (name_units c) \<le> 255"

definition change_entry :: "journal_change \<Rightarrow> usn_entry" where
  "change_entry c =
     \<lparr>ue_file_record = of_nat (jc_file_record c), ue_file_sequence = jc_file_sequence c, ue_file_reference_high = 0,
      ue_parent_record = of_nat (jc_parent_record c), ue_parent_sequence = jc_parent_sequence c,
      ue_parent_reference_high = 0, ue_usn = jc_usn c, ue_time = \<lparr>ft_low = jc_time_low c, ft_high = jc_time_high c\<rparr>,
      ue_reason = jc_reason c, ue_file_attributes = jc_attributes c, ue_name = map of_nat (jc_name c), ue_major_version = 2\<rparr>"

fun item_bytes :: "journal_item \<Rightarrow> byte list" where
  "item_bytes ZeroWord = replicate 8 0"
| "item_bytes (Change c) = change_bytes c"

fun item_entries :: "journal_item \<Rightarrow> usn_entry list" where
  "item_entries ZeroWord = []"
| "item_entries (Change c) = [change_entry c]"

fun item_ok :: "journal_item \<Rightarrow> bool" where
  "item_ok ZeroWord = True"
| "item_ok (Change c) = change_ok c"

lemma change_size_bounds: "60 + 2 * length (name_units c) \<le> change_size c" "change_size c mod 8 = 0"
    "length (name_units c) \<le> 255 \<Longrightarrow> change_size c \<le> 4096"
proof -
  have "n \<le> (n + 7) div 8 * 8" for n :: nat by linarith
  then show "60 + 2 * length (name_units c) \<le> change_size c" unfolding change_size_def .
  show "change_size c mod 8 = 0" by (simp add: change_size_def)
  have "n \<le> 570 \<Longrightarrow> (n + 7) div 8 * 8 \<le> 4096" for n :: nat by linarith
  then show "length (name_units c) \<le> 255 \<Longrightarrow> change_size c \<le> 4096" unfolding change_size_def by simp
qed

lemma length_chars: "length (concat (map (to_le 2) us)) = 2 * length us"
  by (induction us) simp_all

lemma length_change_bytes: "length (change_bytes c) = change_size c"
  unfolding change_bytes_def length_append length_chars length_to_le length_replicate
  using change_size_bounds(1) [of c] by linarith

subsection \<open>Two fields as one number\<close>

lemma to_le_join: "x < 256 ^ m \<Longrightarrow> to_le m x @ to_le n y = to_le (m + n) (x + 256 ^ m * y)"
proof (induction m arbitrary: x)
  case (Suc m)
  from Suc.prems have "x div 256 < 256 ^ m" by (simp add: less_mult_imp_div_less mult.commute)
  from Suc.IH [OF this] show ?case by (simp add: mult.assoc add.commute)
qed simp

definition packed :: "nat \<Rightarrow> u16 \<Rightarrow> u64" where
  "packed r s = of_nat (r + 2 ^ 48 * unat s)"

lemma unat_packed: "r < 2 ^ 48 \<Longrightarrow> unat (packed r s) = r + 2 ^ 48 * unat s"
  unfolding packed_def using unat_u16_bound [of s] by (intro unat_of_nat_u64) simp

lemma packed_bytes: "r < 2 ^ 48 \<Longrightarrow> to_le 6 r @ to_le 2 (unat s) = to_le 8 (unat (packed r s))"
  using to_le_join [of r 6 2 "unat s"] unat_packed [of r s] by simp

lemma SplitReference_packed: "r < 2 ^ 48 \<Longrightarrow> SplitReference (packed r s) = (of_nat r, s)"
proof -
  assume r: "r < 2 ^ 48"
  have "unat (packed r s AND mft_record_number_mask) = unat (of_nat r :: u64)"
    using r by (simp add: unat_record_number unat_packed unat_of_nat)
  moreover have "unat (ucast (drop_bit mft_sequence_shift (packed r s)) :: u16) = unat s"
    using r by (simp add: unat_sequence unat_packed)
  ultimately show ?thesis by (simp add: SplitReference_def word_unat_eq_iff)
qed

definition packed_time :: "u32 \<Rightarrow> u32 \<Rightarrow> u64" where
  "packed_time low high = of_nat (unat low + 2 ^ 32 * unat high)"

lemma unat_packed_time: "unat (packed_time low high) = unat low + 2 ^ 32 * unat high"
  unfolding packed_time_def using unat_u32_bound [of low] unat_u32_bound [of high] by (intro unat_of_nat_u64) simp

lemma packed_time_bytes: "to_le 4 (unat low) @ to_le 4 (unat high) = to_le 8 (unat (packed_time low high))"
  using to_le_join [of "unat low" 4 4 "unat high"] unat_u32_bound [of low] by (simp add: unat_packed_time)

lemma usn_file_time_packed: "usn_file_time (packed_time low high) = \<lparr>ft_low = low, ft_high = high\<rparr>"
proof -
  have "packed_time low high AND (push_bit 32 1 - 1) = take_bit 32 (packed_time low high)"
    by (simp add: take_bit_eq_mask mask_eq_exp_minus_1 push_bit_eq_mult)
  then have "unat (ucast (packed_time low high AND (push_bit 32 1 - 1)) :: u32) = unat low"
    using unat_u32_bound [of low] by (simp add: unsigned_ucast_eq take_bit_eq_mod unat_mod unat_packed_time)
  moreover have "unat (drop_bit 32 (packed_time low high)) = unat high"
    using unat_u32_bound [of low] by (simp add: drop_bit_eq_div unat_div unat_packed_time)
  then have "unat (ucast (drop_bit 32 (packed_time low high)) :: u32) = unat high"
    using unat_u32_bound [of high] by (simp add: unsigned_ucast_eq take_bit_eq_mod)
  ultimately show ?thesis by (simp add: usn_file_time_def word_unat_eq_iff)
qed

subsection \<open>The name of a change\<close>

lemma scalar_units:
  assumes "scalar p"
  obtains (one) "units_of p = [p]" "p < 65536" "\<not> high_nat p" "\<not> low_nat p"
  | (two) h l where "units_of p = [h, l]" "high_nat h" "low_nat l" "0x10000 + (h - 0xD800) * 1024 + (l - 0xDC00) = p"
proof (cases "p < 65536")
  case True
  then show ?thesis using assms one by (auto simp: units_of_def scalar_def high_nat_def low_nat_def)
next
  case False
  then obtain k where k: "p = 65536 + k" using le_Suc_ex not_less by blast
  then have "k < 1048576" using assms by (auto simp: scalar_def)
  then have "k div 1024 < 1024" by (simp add: div_less_iff_less_mult)
  moreover have "k mod 1024 < 1024" "k div 1024 * 1024 + k mod 1024 = k" by simp_all
  ultimately have "high_nat (0xD800 + k div 1024)" "low_nat (0xDC00 + k mod 1024)"
      "0x10000 + (0xD800 + k div 1024 - 0xD800) * 1024 + (0xDC00 + k mod 1024 - 0xDC00) = p"
    unfolding high_nat_def low_nat_def k by linarith+
  then show ?thesis using two k by (simp add: units_of_def)
qed

lemma units_small: "list_all scalar name \<Longrightarrow> u \<in> set (concat (map units_of name)) \<Longrightarrow> u < 65536"
  by (induction name) (auto elim!: scalar_units simp: high_nat_def low_nat_def)

lemma wide_nat: "u < 65536 \<Longrightarrow> unat (ucast (of_nat u :: u16) :: u32) = u"
  by (simp add: unsigned_ucast_eq unat_of_nat take_bit_eq_mod)

lemma well_formed_name: "list_all scalar name \<Longrightarrow> IsWellFormedUtf16 (map of_nat (concat (map units_of name)))"
proof (induction name)
  case (Cons p name)
  have ih: "IsWellFormedUtf16 (map of_nat (concat (map units_of name)))" and p: "scalar p" using Cons by simp_all
  from p show ?case
  proof (cases rule: scalar_units)
    case one
    then have "unat (of_nat p :: u16) = p" by (simp add: unat_of_nat)
    then show ?thesis using one ih by (auto simp: high_nat_def low_nat_def word_le_nat_alt)
  next
    case (two h l)
    then have "unat (of_nat h :: u16) = h" "unat (of_nat l :: u16) = l" by (simp_all add: unat_of_nat high_nat_def low_nat_def)
    then show ?thesis using two ih by (auto simp: high_nat_def low_nat_def word_le_nat_alt word_less_nat_alt)
  qed
qed simp

lemma merged_single: "\<not> is_high u \<Longrightarrow> merged (u # us) = u # merged us"
  by (cases us) simp_all

lemma name_read: "list_all scalar name \<Longrightarrow> Utf16ToWide_32 (map of_nat (concat (map units_of name))) = map of_nat name"
proof -
  assume "list_all scalar name"
  then have "merged (map ucast (map of_nat (concat (map units_of name)) :: u16 list)) = map of_nat name"
  proof (induction name)
    case (Cons p name)
    have p: "scalar p" using Cons.prems by simp
    have rest: "list_all scalar name" using Cons.prems by simp
    note ih = Cons.IH [OF rest]
    from p show ?case
    proof (cases rule: scalar_units)
      case one
      then have w: "unat (ucast (of_nat p :: u16) :: u32) = p" by (simp add: wide_nat)
      then have "\<not> is_high (ucast (of_nat p :: u16))" using one(3) by (simp add: is_high_nat)
      moreover have "ucast (of_nat p :: u16) = (of_nat p :: u32)"
        using w one(2) by (simp add: word_unat_eq_iff unat_of_nat)
      ultimately show ?thesis using one(1) ih by (simp add: merged_single comp_def)
    next
      case (two h l)
      then have w: "unat (ucast (of_nat h :: u16) :: u32) = h" "unat (ucast (of_nat l :: u16) :: u32) = l"
        by (simp_all add: wide_nat high_nat_def low_nat_def)
      then have pair: "is_high (ucast (of_nat h :: u16))" "is_low (ucast (of_nat l :: u16))"
        using two(2,3) by (simp_all add: is_high_nat is_low_nat)
      have "p < 4294967296" using p by (auto simp: scalar_def)
      then have "combine (ucast (of_nat h :: u16)) (ucast (of_nat l :: u16)) = of_nat p"
        using unat_combine [OF pair] two(4) by (simp add: w word_unat_eq_iff unat_of_nat)
      then show ?thesis using two(1) pair ih by (simp add: comp_def)
    qed
  qed simp
  then show ?thesis by (simp add: Utf16ToWide_32_def utf16_to_wide_merged)
qed

subsection \<open>One change\<close>

lemma decode_change:
  assumes ok: "change_ok c"
  defines "h \<equiv> \<lparr>uc_record_length = of_nat (change_size c), uc_major_version = version_2, uc_minor_version = 0\<rparr>"
  shows "read_common (change_bytes c) = Inr h" and "PlausibleHeader h" and "unat (uc_record_length h) = change_size c"
    and "DecodeRecord (change_bytes c) offset False = Inr (NamedRecord (change_size c) (change_entry c))"
proof -
  define units where "units = (map of_nat (name_units c) :: u16 list)"
  define fref where "fref = packed (jc_file_record c) (jc_file_sequence c)"
  define pref where "pref = packed (jc_parent_record c) (jc_parent_sequence c)"
  define time where "time = packed_time (jc_time_low c) (jc_time_high c)"
  let ?n = "length units"
  let ?b = "change_bytes c"
  have nlen: "length (name_units c) = ?n" by (simp add: units_def)
  have n: "?n \<le> 255" and recs: "jc_file_record c < 2 ^ 48" "jc_parent_record c < 2 ^ 48" and chars: "list_all scalar (jc_name c)"
    using ok by (simp_all add: change_ok_def nlen)
  note split = SplitReference_packed [OF recs(1), of "jc_file_sequence c", folded fref_def]
    SplitReference_packed [OF recs(2), of "jc_parent_sequence c", folded pref_def]
    usn_file_time_packed [of "jc_time_low c" "jc_time_high c", folded time_def]
  have wf: "IsWellFormedUtf16 units" "Utf16ToWide_32 units = map of_nat (jc_name c)"
    using well_formed_name [OF chars] name_read [OF chars] by (simp_all add: units_def name_units_def)
  note size = change_size_bounds [of c, unfolded nlen]
  show len: "unat (uc_record_length h) = change_size c" using size(3) n by (simp add: h_def unat_of_nat)
  have unit_bytes: "concat (map (to_le 2) (name_units c)) = concat (map (\<lambda>u. to_le 2 (unat u)) units)"
    unfolding units_def map_map
    by (intro arg_cong [of _ _ concat] map_cong refl)
      (use units_small [OF chars] in \<open>simp add: name_units_def unat_of_nat\<close>)
  define h1 where "h1 = to_le 4 (unat (of_nat (change_size c) :: u32))"
  define h2 where "h2 = h1 @ to_le 2 (unat version_2) @ to_le 2 (unat (0 :: u16))"
  define f1 where "f1 = to_le 8 (unat fref) @ to_le 8 (unat pref)"
  define f2 where "f2 = to_le 8 (unat (jc_usn c)) @ to_le 8 (unat time)"
  define f3 where "f3 = to_le 4 (unat (jc_reason c)) @ to_le 4 (unat (jc_source c)) @ to_le 4 (unat (jc_security c)) @
      to_le 4 (unat (jc_attributes c))"
  define f4 where "f4 = to_le 2 (unat (of_nat (2 * ?n) :: u16)) @ to_le 2 (unat (of_nat 60 :: u16))"
  define body where "body = concat (map (\<lambda>u. to_le 2 (unat u)) units)"
  define pad where "pad = replicate (change_size c - (60 + 2 * ?n)) (0 :: byte)"
  have "unat (of_nat (change_size c) :: u32) = change_size c" using len by (simp add: h_def)
  moreover have u56: "unat (of_nat (2 * ?n) :: u16) = 2 * ?n" using n by (intro unat_of_nat_u16) simp
  moreover have u58: "unat (of_nat 60 :: u16) = 60" by simp
  moreover have "unat version_2 = 2" by (simp add: version_2_def)
  ultimately have b: "?b = h2 @ f1 @ f2 @ f3 @ f4 @ body @ pad"
    unfolding change_bytes_def h2_def h1_def f1_def f2_def f3_def f4_def body_def pad_def fref_def pref_def time_def
      packed_bytes [OF recs(1), symmetric] packed_bytes [OF recs(2), symmetric] packed_time_bytes [symmetric] unit_bytes nlen
    by simp
  have lens: "length h2 = 8" "length f1 = 16" "length f2 = 16" "length f3 = 16" "length f4 = 4"
    by (simp_all add: h2_def h1_def f1_def f2_def f3_def f4_def)
  have total: "length ?b = change_size c" by (rule length_change_bytes)
  have r0: "u32_at ?b 0 = of_nat (change_size c)" by (rule u32_field [of _ "[]"]) (simp_all add: b h2_def h1_def)
  have r4: "u16_at ?b 4 = version_2" by (rule u16_field [of _ h1]) (simp_all add: b h2_def h1_def)
  have r6: "u16_at ?b 6 = 0"
    by (rule u16_field [of _ "h1 @ to_le 2 (unat version_2)"]) (simp_all only: b h2_def append_assoc, simp_all add: h1_def)
  have r8: "u64_at ?b 8 = fref" by (rule u64_field [of _ h2]) (simp_all add: b f1_def lens)
  have r16: "u64_at ?b 16 = pref"
    by (rule u64_field [of _ "h2 @ to_le 8 (unat fref)"]) (simp_all add: b f1_def lens)
  have r24: "u64_at ?b 24 = jc_usn c" by (rule u64_field [of _ "h2 @ f1"]) (simp_all add: b f2_def lens)
  have r32: "u64_at ?b 32 = time"
    by (rule u64_field [of _ "h2 @ f1 @ to_le 8 (unat (jc_usn c))"]) (simp_all add: b f2_def lens)
  have r40: "u32_at ?b 40 = jc_reason c" by (rule u32_field [of _ "h2 @ f1 @ f2"]) (simp_all add: b f3_def lens)
  have r52: "u32_at ?b 52 = jc_attributes c"
    by (rule u32_field [of _ "h2 @ f1 @ f2 @ to_le 4 (unat (jc_reason c)) @ to_le 4 (unat (jc_source c)) @ to_le 4 (unat (jc_security c))"])
      (simp_all add: b f3_def lens)
  have r56: "u16_at ?b 56 = of_nat (2 * ?n)" by (rule u16_field [of _ "h2 @ f1 @ f2 @ f3"]) (simp_all add: b f4_def lens)
  have r58: "u16_at ?b 58 = of_nat 60"
    by (rule u16_field [of _ "h2 @ f1 @ f2 @ f3 @ to_le 2 (unat (of_nat (2 * ?n) :: u16))"]) (simp_all add: b f4_def lens)
  have read: "map (\<lambda>i. u16_at ?b (60 + 2 * i)) [0..<?n] = units"
    by (rule units_field [of _ "h2 @ f1 @ f2 @ f3 @ f4" _ pad]) (simp_all add: b body_def lens)
  show rc: "read_common ?b = Inr h" using size(1) by (simp add: h_def read_common_def total r0 r4 r6)
  show "PlausibleHeader h"
    using size n len by (simp add: h_def PlausibleHeader_def Let_def MinimumLength_def usn_consts)
  have name: "ReadName ?b sizeof_v2 60 (2 * ?n) = Inr (Some (map of_nat (jc_name c)))"
    using size(1) wf read by (simp add: ReadName_def IsNamePlacementValid_def Let_def total sizeof_v2_def)
  have st: "read_struct ?b sizeof_v2 = Inr (take 60 ?b)" using size(1) by (simp add: read_struct_def sizeof_v2_def total)
  have tk: "u64_at (take 60 ?b) off = u64_at ?b off" if "off + 8 \<le> 60" for off using that by (simp add: u64_at_def read_le_take)
  have tk4: "u32_at (take 60 ?b) off = u32_at ?b off" if "off + 4 \<le> 60" for off using that by (simp add: u32_at_def read_le_take)
  have tk2: "u16_at (take 60 ?b) off = u16_at ?b off" if "off + 2 \<le> 60" for off using that by (simp add: u16_at_def read_le_take)
  have "decode_v2 ?b offset False h = Inr (NamedRecord (change_size c) (change_entry c))"
    unfolding decode_v2_def st bind_r_simps
    by (simp only: tk tk4 tk2 r8 r16 r24 r32 r40 r52 r56 r58 u56 u58 name)
      (simp add: tk tk4 tk2 r8 r16 r24 r32 r40 r52 r56 r58 u56 name change_entry_def len split, simp add: h_def version_2_def)
  then show "DecodeRecord ?b offset False = Inr (NamedRecord (change_size c) (change_entry c))"
    by (simp add: DecodeRecord_def rc, simp add: h_def version_2_def version_4_def)
qed

lemma aligned_add: "unat (x :: u64) mod 8 = 0 \<Longrightarrow> k mod 8 = 0 \<Longrightarrow> unat (x + of_nat k) mod 8 = 0"
proof -
  assume a: "unat x mod 8 = 0" "k mod 8 = 0"
  have "unat (x + of_nat k) mod 8 = (unat x + k) mod 18446744073709551616 mod 8"
    by (simp add: unat_word_ariths unat_of_nat mod_simps)
  also have "\<dots> = (unat x + k) mod 8" by (simp add: mod_mod_cancel)
  also have "\<dots> = 0" using a mod_add_eq [of "unat x" 8 k] by simp
  finally show ?thesis .
qed

lemma judge_zero: "unat offset mod 8 = 0 \<Longrightarrow> judge at_end (replicate 8 0 @ rest) offset resyncing = Inr (Advance 8)"
  by (auto simp: judge_def IsZeroWord_def word_size_def list_all_iff)

lemma judge_change:
  assumes ok: "change_ok c" and aligned: "unat offset mod 8 = 0"
  shows "judge at_end (change_bytes c @ rest) offset False = Inr (Take (change_size c) (change_entry c))"
proof -
  let ?w = "change_bytes c @ rest"
  note d = decode_change [OF ok]
  let ?h = "\<lparr>uc_record_length = of_nat (change_size c), uc_major_version = version_2, uc_minor_version = 0\<rparr>"
  have size: "8 \<le> change_size c" using change_size_bounds(1) [of c] by simp
  have common: "read_common ?w = Inr ?h"
    using d(1) size by (simp add: read_common_def length_change_bytes u32_at_def u16_at_def read_le_append)
  have "\<not> IsZeroWord ?w"
  proof
    assume "IsZeroWord ?w"
    then have "take 8 ?w = replicate 8 0"
      using size by (intro replicate_eqI) (auto simp: IsZeroWord_def word_size_def list_all_iff length_change_bytes)
    then have "u16_at (take 8 ?w) 4 = 0" by (simp add: u16_at_def read_le_def drop_replicate take_replicate)
    moreover have "u16_at (take 8 ?w) 4 = u16_at ?w 4" unfolding u16_at_def by (subst read_le_take) simp_all
    ultimately have "u16_at ?w 4 = 0" by (simp only:)
    then show False using common size by (simp add: read_common_def length_change_bytes version_2_def)
  qed
  moreover have "take (change_size c) ?w = change_bytes c" by (simp add: length_change_bytes)
  ultimately show ?thesis
    using aligned common d(2-4) size
    by (simp add: judge_def word_size_def Let_def length_change_bytes read_struct_def)
qed

lemma length_item_mod8: "item_ok i \<Longrightarrow> length (item_bytes i) mod 8 = 0 \<and> 8 \<le> length (item_bytes i)"
proof (cases i)
  case (Change c)
  then show ?thesis using change_size_bounds(1,2) [of c] by (simp add: length_change_bytes)
qed simp

lemma drain_items:
  "list_all item_ok items \<Longrightarrow> rs_pending s = pre @ concat (map item_bytes items) \<Longrightarrow> \<not> rs_resyncing s \<Longrightarrow>
     unat (rs_pending_offset s + of_nat (length pre)) mod 8 = 0 \<Longrightarrow>
     drain_loop at_end (length pre) s out = Inr (length (rs_pending s), s, out @ concat (map item_entries items))"
proof (induction items arbitrary: pre out)
  case Nil
  then show ?case by (subst drain_loop.simps) (simp add: word_size_def)
next
  case (Cons i items)
  have i: "item_ok i" and len: "length (item_bytes i) mod 8 = 0" "8 \<le> length (item_bytes i)"
    using Cons.prems(1) length_item_mod8 [of i] by simp_all
  have pend: "rs_pending s = (pre @ item_bytes i) @ concat (map item_bytes items)" using Cons.prems(2) by simp
  have "unat (rs_pending_offset s + of_nat (length pre) + of_nat (length (item_bytes i))) mod 8 = 0"
    by (rule aligned_add [OF Cons.prems(4) len(1)])
  then have al: "unat (rs_pending_offset s + of_nat (length (pre @ item_bytes i))) mod 8 = 0" by (simp add: add.assoc)
  have win: "window_at s (length pre) = item_bytes i @ concat (map item_bytes items)"
    by (simp add: window_at_def Cons.prems(2))
  have room: "length (rs_pending s) - length pre \<ge> word_size" using len(2) by (simp add: Cons.prems(2) word_size_def)
  have clear: "rs_resyncing s = False" using Cons.prems(3) by simp
  have same: "s\<lparr>rs_resyncing := False\<rparr> = s" using clear by (cases s) simp
  have "drain_loop at_end (length pre) s out =
      drain_loop at_end (length pre + length (item_bytes i)) s (out @ item_entries i)"
  proof (cases i)
    case ZeroWord
    have "judge at_end (window_at s (length pre)) (offset_at s (length pre)) (rs_resyncing s) = Inr (Advance 8)"
      unfolding win using judge_zero [of "offset_at s (length pre)" at_end] Cons.prems(4) ZeroWord
      by (simp add: offset_at_def)
    then show ?thesis using room ZeroWord by (subst drain_loop.simps) simp
  next
    case (Change c)
    have "judge at_end (window_at s (length pre)) (offset_at s (length pre)) (rs_resyncing s) =
        Inr (Take (change_size c) (change_entry c))"
      unfolding win clear using judge_change [of c "offset_at s (length pre)" at_end] Cons.prems(4) Change i
      by (simp add: offset_at_def)
    then show ?thesis using room Change same by (subst drain_loop.simps) (simp add: length_change_bytes)
  qed
  also have "\<dots> = drain_loop at_end (length (pre @ item_bytes i)) s (out @ item_entries i)" by simp
  also have "\<dots> = Inr (length (rs_pending s), s, (out @ item_entries i) @ concat (map item_entries items))"
    using Cons.prems(1) by (intro Cons.IH [OF _ pend Cons.prems(3) al]) simp
  finally show ?case by simp
qed

text \<open>
  C24. A range of the journal from a multiple of 8 that holds well-formed version 2 records, with words of zeros between
  them, is read back exactly: one entry per record, in order, with the record and the sequence numbers
  of its two references, its USN, both halves of its time, its reason, attributes and the code points
  of its name, nothing counted as damage or skipped, and nothing kept, however the range was cut into
  pieces.
\<close>

theorem journal_read_back:
  assumes "list_all item_ok items" and "unat stream_offset mod 8 = 0" and "concat chunks = concat (map item_bytes items)"
  shows "scan_range s chunks stream_offset out = Inr (Reset s, out @ concat (map item_entries items))"
proof -
  let ?bytes = "concat (map item_bytes items)"
  let ?out = "out @ concat (map item_entries items)"
  define t where "t = (Reset s)\<lparr>rs_pending_offset := stream_offset, rs_pending := ?bytes\<rparr>"
  have t: "rs_pending t = [] @ ?bytes" "\<not> rs_resyncing t" "unat (rs_pending_offset t + of_nat (length [])) mod 8 = 0"
    using assms(2) by (simp_all add: t_def Reset_def)
  have "drain_loop False 0 t out = Inr (length ?bytes, t, ?out)"
    using drain_items [OF assms(1) t, of False out] t(1) by simp
  then have "\<exists>o1. Feed (Reset s) ?bytes stream_offset out = Inr ((Reset s)\<lparr>rs_pending_offset := o1\<rparr>, ?out)"
    by (intro exI [of _ "stream_offset + of_nat (length ?bytes)"])
      (cases s, simp add: Feed_def Drain_def Let_def t_def Reset_def)
  then have "scan_range s [concat chunks] stream_offset out = Inr (Reset s, ?out)"
    using assms(3) by (auto simp: scan_range_def Finish_empty Reset_def)
  then show ?thesis using scan_range_one_piece [of s chunks stream_offset out] by auto
qed

definition sample_change :: journal_change where
  "sample_change = \<lparr>jc_file_record = 0x30, jc_file_sequence = 2, jc_parent_record = 5, jc_parent_sequence = 5, jc_usn = 16,
     jc_time_low = 7, jc_time_high = 0x01D00000, jc_reason = 0x100, jc_source = 0, jc_security = 0, jc_attributes = 0x20,
     jc_name = [0x61, 0x1F600]\<rparr>"

lemma journal_read_back_witness:
  "scan_range new_scanner [take 11 (concat (map item_bytes [ZeroWord, Change sample_change])),
       drop 11 (concat (map item_bytes [ZeroWord, Change sample_change]))] 8 [] =
     Inr (new_scanner, [change_entry sample_change])"
  using journal_read_back [of "[ZeroWord, Change sample_change]" 8
      "[take 11 (concat (map item_bytes [ZeroWord, Change sample_change])),
        drop 11 (concat (map item_bytes [ZeroWord, Change sample_change]))]" new_scanner "[]"]
  by (simp add: change_ok_def scalar_def name_units_def units_of_def sample_change_def Reset_def new_scanner_def)

end
