(* ===== verification/VolumeGeometry.thy ===== *)
theory VolumeGeometry
  imports NtfsPrelude
begin

text \<open>
  The geometry of a volume, decoded from its boot sector: src/volume/volume-geometry.cpp and
  volume-geometry.h, with the layout of src/data/ntfs-bpb.h. The boot sector is an argument;
  every field keeps its width (WORD, DWORD, ULONGLONG) and wraps. Log messages are not modelled,
  so Log::Recoverable() is the answer it leaves to its caller.
\<close>

section \<open>Data\<close>

text \<open>NtfsBpb: the fields the parser reads, at their packed offsets.\<close>

record ntfs_bpb =
  bpb_signature :: "byte list"
  bpb_bytes_per_sector :: u16
  bpb_sectors_per_cluster :: byte
  bpb_reserved_sectors :: "byte list"
  bpb_zeros1 :: "byte list"
  bpb_not_used1 :: "byte list"
  bpb_zeros2 :: "byte list"
  bpb_not_used2 :: "byte list"
  bpb_total_sectors :: u64
  bpb_lcn_mft :: u64
  bpb_lcn_mft_mirr :: u64
  bpb_clusters_per_file_record :: u32
  bpb_clusters_per_index_block :: u32
  bpb_x_aa :: byte
  bpb_x_55 :: byte

definition bpb_field :: "byte list \<Rightarrow> nat \<Rightarrow> nat \<Rightarrow> byte list" where
  "bpb_field boot_sector off n = take n (drop off boot_sector)"

definition bpb_of :: "byte list \<Rightarrow> ntfs_bpb" where
  "bpb_of b =
     \<lparr>bpb_signature = bpb_field b 3 8, bpb_bytes_per_sector = u16_at b 11, bpb_sectors_per_cluster = b ! 13,
      bpb_reserved_sectors = bpb_field b 14 2, bpb_zeros1 = bpb_field b 16 3, bpb_not_used1 = bpb_field b 19 2,
      bpb_zeros2 = bpb_field b 22 2, bpb_not_used2 = bpb_field b 32 4, bpb_total_sectors = u64_at b 40,
      bpb_lcn_mft = u64_at b 48, bpb_lcn_mft_mirr = u64_at b 56, bpb_clusters_per_file_record = u32_at b 64,
      bpb_clusters_per_index_block = u32_at b 68, bpb_x_aa = b ! 510, bpb_x_55 = b ! 511\<rparr>"

definition ntfs_signature :: "byte list" where
  "ntfs_signature = [0x4E, 0x54, 0x46, 0x53, 0x20, 0x20, 0x20, 0x20]"

definition bpb_marker_first :: byte where "bpb_marker_first = 0x55"
definition bpb_marker_second :: byte where "bpb_marker_second = 0xAA"

text \<open>Geometry, with every field zero, and the result of ParseBootSector().\<close>

record geometry =
  geo_sector_size :: u16
  geo_cluster_size :: u32
  geo_file_record_size :: u32
  geo_index_block_size :: u32
  geo_mft_addr :: u64
  geo_mft_mirr_addr :: u64
  geo_mft_mirr_usable :: bool
  geo_cluster_count :: u64

definition new_geometry :: geometry where
  "new_geometry =
     \<lparr>geo_sector_size = 0, geo_cluster_size = 0, geo_file_record_size = 0, geo_index_block_size = 0,
      geo_mft_addr = 0, geo_mft_mirr_addr = 0, geo_mft_mirr_usable = False, geo_cluster_count = 0\<rparr>"

record boot_sector_parse =
  bsp_geometry :: geometry
  bsp_ok :: bool

definition mft_mirror_record_count :: u64 where "mft_mirror_record_count = 4"
definition min_sector_size :: u16 where "min_sector_size = 256"
definition max_sector_size :: u16 where "max_sector_size = 4096"
definition max_sectors_per_cluster_shift :: u32 where "max_sectors_per_cluster_shift = 12"
definition max_size_shift :: int where "max_size_shift = 12"
definition max_size_in_clusters :: int where "max_size_in_clusters = 8"
definition max_literal_sectors_per_cluster :: byte where "max_literal_sectors_per_cluster = 0x80"
definition min_record_size :: u32 where "min_record_size = 48"
definition max_record_size :: u32 where "max_record_size = 4096"
definition sizeof_index_block :: u32 where "sizeof_index_block = 40"

text \<open>std::numeric_limits<LONGLONG>::max() / 2.\<close>

definition max_plausible_addr :: u64 where "max_plausible_addr = 0x3FFFFFFFFFFFFFFF"

named_theorems geometry_consts

lemmas geometry_constants [geometry_consts] =
  mft_mirror_record_count_def min_sector_size_def max_sector_size_def max_sectors_per_cluster_shift_def
  max_size_shift_def max_size_in_clusters_def max_literal_sectors_per_cluster_def
  min_record_size_def max_record_size_def sizeof_index_block_def max_plausible_addr_def

text \<open>std::has_single_bit.\<close>

definition has_single_bit :: "'a::len word \<Rightarrow> bool" where
  "has_single_bit w \<longleftrightarrow> list_ex (\<lambda>k. w = push_bit k 1) [0..<LENGTH('a)]"

section \<open>Decoding the fields\<close>

text \<open>A char is a signed byte.\<close>

definition DecodeBpbSize :: "byte \<Rightarrow> u32 \<Rightarrow> u32 option" where
  "DecodeBpbSize raw cluster_size =
     (if sint raw < - max_size_shift \<or> sint raw > max_size_in_clusters then None
      else if sint raw > 0 then Some (cluster_size * of_int (sint raw))
      else Some (push_bit (unat (- raw)) 1))"

definition DecodeClusterSize :: "byte \<Rightarrow> u16 \<Rightarrow> u32 option" where
  "DecodeClusterSize spc sector_size =
     (if spc \<le> max_literal_sectors_per_cluster then Some (ucast sector_size * ucast spc)
      else
        let shift = 256 - ucast spc
        in if shift > max_sectors_per_cluster_shift then None
           else Some (ucast sector_size * push_bit (unat shift) 1))"

definition all_zero :: "byte list \<Rightarrow> bool" where
  "all_zero = list_all (\<lambda>b. b = 0)"

definition ParseReservedFields :: "ntfs_bpb \<Rightarrow> bool \<Rightarrow> bool" where
  "ParseReservedFields bpb recover =
     (if list_all all_zero [bpb_reserved_sectors bpb, bpb_zeros1 bpb, bpb_not_used1 bpb, bpb_zeros2 bpb, bpb_not_used2 bpb]
      then True else recover)"

definition ParseSectorSize :: "ntfs_bpb \<Rightarrow> geometry \<Rightarrow> bool \<times> geometry" where
  "ParseSectorSize bpb g =
    (let g = g\<lparr>geo_sector_size := bpb_bytes_per_sector bpb\<rparr>
     in if geo_sector_size g < min_sector_size \<or> geo_sector_size g > max_sector_size then (False, g)
        else if \<not> has_single_bit (geo_sector_size g) then (False, g)
        else (True, g))"

definition ParseClusterSize :: "ntfs_bpb \<Rightarrow> geometry \<Rightarrow> bool \<times> geometry" where
  "ParseClusterSize bpb g =
    (case DecodeClusterSize (bpb_sectors_per_cluster bpb) (geo_sector_size g) of
       None \<Rightarrow> (False, g)
     | Some decoded_cluster_size \<Rightarrow>
         let g = g\<lparr>geo_cluster_size := decoded_cluster_size\<rparr>
         in if geo_cluster_size g = 0 then (False, g)
            else if \<not> has_single_bit (geo_cluster_size g) then (False, g)
            else (True, g))"

definition ParseFileRecordSize :: "ntfs_bpb \<Rightarrow> geometry \<Rightarrow> bool \<times> geometry" where
  "ParseFileRecordSize bpb g =
    (case DecodeBpbSize (ucast (bpb_clusters_per_file_record bpb)) (geo_cluster_size g) of
       None \<Rightarrow> (False, g)
     | Some decoded_record_size \<Rightarrow>
         let g = g\<lparr>geo_file_record_size := decoded_record_size\<rparr>
         in if geo_file_record_size g < min_record_size \<or>
               geo_file_record_size g mod ucast (geo_sector_size g) \<noteq> 0 then (False, g)
            else if geo_file_record_size g > max_record_size then (False, g)
            else (True, g))"

definition ParseIndexBlockSize :: "ntfs_bpb \<Rightarrow> geometry \<Rightarrow> bool \<times> geometry" where
  "ParseIndexBlockSize bpb g =
    (case DecodeBpbSize (ucast (bpb_clusters_per_index_block bpb)) (geo_cluster_size g) of
       None \<Rightarrow> (False, g)
     | Some decoded_index_block_size \<Rightarrow>
         let g = g\<lparr>geo_index_block_size := decoded_index_block_size\<rparr>
         in if geo_index_block_size g < sizeof_index_block \<or>
               geo_index_block_size g mod ucast (geo_sector_size g) \<noteq> 0 then (False, g)
            else (True, g))"

definition ParseMftAddress :: "ntfs_bpb \<Rightarrow> geometry \<Rightarrow> bool \<times> geometry" where
  "ParseMftAddress bpb g =
    (let mft_addr_overflows =
           (geo_cluster_size g \<noteq> 0 \<and> bpb_lcn_mft bpb > u64_max div ucast (geo_cluster_size g));
         g = g\<lparr>geo_mft_addr := (if mft_addr_overflows then u64_max
                                else bpb_lcn_mft bpb * ucast (geo_cluster_size g))\<rparr>
     in if mft_addr_overflows \<or> geo_mft_addr g > max_plausible_addr then (False, g) else (True, g))"

definition VolumeBytes :: "ntfs_bpb \<Rightarrow> geometry \<Rightarrow> u64" where
  "VolumeBytes bpb g =
     (if bpb_total_sectors bpb > u64_max div ucast (geo_sector_size g) then u64_max
      else bpb_total_sectors bpb * ucast (geo_sector_size g))"

definition ParseTotalSectors :: "ntfs_bpb \<Rightarrow> geometry \<Rightarrow> bool \<Rightarrow> bool" where
  "ParseTotalSectors bpb g recover =
    (if bpb_total_sectors bpb = 0 then recover
     else
       let volume_bytes = VolumeBytes bpb g
       in if geo_mft_addr g > volume_bytes \<or> ucast (geo_file_record_size g) > volume_bytes - geo_mft_addr g
          then recover else True)"

definition MirrorInsideVolume :: "ntfs_bpb \<Rightarrow> geometry \<Rightarrow> bool" where
  "MirrorInsideVolume bpb g =
    (if bpb_total_sectors bpb = 0 then True
     else
       let copy_bytes = mft_mirror_record_count * ucast (geo_file_record_size g);
           volume_bytes = VolumeBytes bpb g
       in geo_mft_mirr_addr g \<le> volume_bytes \<and> copy_bytes \<le> volume_bytes - geo_mft_mirr_addr g)"

definition MirrorUsable :: "ntfs_bpb \<Rightarrow> geometry \<Rightarrow> bool \<Rightarrow> bool" where
  "MirrorUsable bpb g overflows \<longleftrightarrow>
     bpb_lcn_mft_mirr bpb \<noteq> 0 \<and> \<not> overflows \<and> geo_mft_mirr_addr g \<le> max_plausible_addr \<and>
     geo_mft_mirr_addr g \<noteq> geo_mft_addr g \<and> MirrorInsideVolume bpb g"

definition ParseMftMirrorAddress :: "ntfs_bpb \<Rightarrow> geometry \<Rightarrow> geometry" where
  "ParseMftMirrorAddress bpb g =
    (let overflows = (bpb_lcn_mft_mirr bpb > u64_max div ucast (geo_cluster_size g));
         g = g\<lparr>geo_mft_mirr_addr := (if overflows then u64_max
                                     else bpb_lcn_mft_mirr bpb * ucast (geo_cluster_size g))\<rparr>
     in g\<lparr>geo_mft_mirr_usable := MirrorUsable bpb g overflows\<rparr>)"

text \<open>The first failure stops the rest: the geometry keeps the fields set before it.\<close>

definition and_then :: "bool \<times> geometry \<Rightarrow> (geometry \<Rightarrow> bool \<times> geometry) \<Rightarrow> bool \<times> geometry" where
  "and_then r step = (case r of (ok, g) \<Rightarrow> if ok then step g else (False, g))"

definition ParseGeometryFields :: "ntfs_bpb \<Rightarrow> geometry \<Rightarrow> bool \<Rightarrow> bool \<times> geometry" where
  "ParseGeometryFields bpb g recover =
     and_then (and_then (and_then (and_then (and_then (ParseSectorSize bpb g)
       (ParseClusterSize bpb)) (ParseFileRecordSize bpb)) (ParseIndexBlockSize bpb)) (ParseMftAddress bpb))
       (\<lambda>g. (ParseTotalSectors bpb g recover, g))"

definition ParseBootSector :: "byte list \<Rightarrow> bool \<Rightarrow> boot_sector_parse" where
  "ParseBootSector boot_sector recover =
    (let parse = \<lparr>bsp_geometry = new_geometry, bsp_ok = False\<rparr>;
         bpb = bpb_of boot_sector
     in if bpb_signature bpb \<noteq> ntfs_signature then parse
        else if (bpb_x_aa bpb \<noteq> bpb_marker_first \<or> bpb_x_55 bpb \<noteq> bpb_marker_second) \<and> \<not> recover then parse
        else if \<not> ParseReservedFields bpb recover then parse
        else
          case ParseGeometryFields bpb new_geometry recover of
            (False, g) \<Rightarrow> \<lparr>bsp_geometry = g, bsp_ok = False\<rparr>
          | (True, g) \<Rightarrow>
              let g = ParseMftMirrorAddress bpb g
              in \<lparr>bsp_geometry = g\<lparr>geo_cluster_count :=
                    (if bpb_total_sectors bpb = 0 then 0 else VolumeBytes bpb g div ucast (geo_cluster_size g))\<rparr>,
                  bsp_ok = True\<rparr>)"

section \<open>The geometry that is accepted\<close>

lemma has_single_bit_power: "has_single_bit (w :: 'a::len word) \<longleftrightarrow> (\<exists>k<LENGTH('a). unat w = 2 ^ k)"
proof -
  have "w = push_bit k 1 \<longleftrightarrow> unat w = 2 ^ k" if "k < LENGTH('a)" for k
  proof -
    have "unat (push_bit k 1 :: 'a word) = take_bit LENGTH('a) (push_bit k (unat (1 :: 'a word)))"
      by (rule unsigned_push_bit_eq)
    also have "\<dots> = 2 ^ k" using that by (simp add: take_bit_eq_mod push_bit_eq_mult)
    finally show ?thesis by (simp only: word_unat_eq_iff)
  qed
  then show ?thesis by (auto simp: has_single_bit_def list_ex_iff)
qed

lemma and_then_Pair: "and_then r step = (True, g') \<longleftrightarrow> (\<exists>g. r = (True, g) \<and> step g = (True, g'))"
  by (cases r) (auto simp: and_then_def)

text \<open>The sizes of an accepted geometry, as natural numbers.\<close>

definition sizes_sound :: "geometry \<Rightarrow> bool" where
  "sizes_sound g \<longleftrightarrow>
     (\<exists>s. 8 \<le> s \<and> s \<le> 12 \<and> unat (geo_sector_size g) = 2 ^ s) \<and>
     (\<exists>c. c \<le> 12 \<and> unat (geo_cluster_size g) = unat (geo_sector_size g) * 2 ^ c) \<and>
     48 \<le> unat (geo_file_record_size g) \<and> unat (geo_file_record_size g) \<le> 4096 \<and>
     unat (geo_sector_size g) dvd unat (geo_file_record_size g) \<and>
     40 \<le> unat (geo_index_block_size g) \<and> unat (geo_sector_size g) dvd unat (geo_index_block_size g)"

lemma unat_bit_u32: "k < 32 \<Longrightarrow> unat (push_bit k 1 :: u32) = 2 ^ k"
proof -
  assume k: "k < 32"
  have "unat (push_bit k 1 :: u32) = take_bit LENGTH(32) (push_bit k (unat (1 :: u32)))" by (rule unsigned_push_bit_eq)
  also have "\<dots> = 2 ^ k mod 4294967296" by (simp add: take_bit_eq_mod push_bit_eq_mult)
  also have "\<dots> = 2 ^ k" using power_strict_increasing [OF k, of "2 :: nat"] by simp
  finally show ?thesis .
qed

lemma ParseSectorSize_ok:
  assumes "ParseSectorSize bpb g = (True, g')"
  shows "g' = g\<lparr>geo_sector_size := geo_sector_size g'\<rparr> \<and> geo_sector_size g' = bpb_bytes_per_sector bpb \<and>
    (\<exists>s. 8 \<le> s \<and> s \<le> 12 \<and> unat (geo_sector_size g') = 2 ^ s)"
proof -
  let ?w = "bpb_bytes_per_sector bpb"
  have eq: "g' = g\<lparr>geo_sector_size := ?w\<rparr>" and r: "\<not> ?w < 256" "\<not> ?w > 4096" "has_single_bit ?w"
    using assms by (auto simp: ParseSectorSize_def Let_def geometry_consts split: if_splits)
  obtain k where k: "unat ?w = 2 ^ k" using r(3) by (auto simp: has_single_bit_power)
  have "(2 :: nat) ^ 8 \<le> 2 ^ k" "(2 :: nat) ^ k \<le> 2 ^ 12"
    using r(1,2) k by (simp_all add: word_less_nat_alt word_le_nat_alt)
  then have "8 \<le> k" "k \<le> 12" by (simp_all only: power_increasing_iff)
  then show ?thesis using eq k by auto
qed

lemma power_of_two_factor:
  assumes "2 ^ s * n = (2 :: nat) ^ j" "0 < n"
  shows "n = 2 ^ (j - s)"
proof -
  have "(2 :: nat) ^ s \<le> 2 ^ j" using assms by (metis le_add1 mult.right_neutral mult_le_mono2 Suc_leI One_nat_def)
  then have "s \<le> j" by (simp only: power_increasing_iff)
  then have "(2 :: nat) ^ j = 2 ^ s * 2 ^ (j - s)" by (simp flip: power_add)
  with assms show ?thesis by simp
qed

lemma ParseClusterSize_ok:
  assumes "ParseClusterSize bpb g = (True, g')" and s: "unat (geo_sector_size g) = 2 ^ s" "s \<le> 12"
  shows "g' = g\<lparr>geo_cluster_size := geo_cluster_size g'\<rparr> \<and>
    (\<exists>c. c \<le> 12 \<and> unat (geo_cluster_size g') = unat (geo_sector_size g) * 2 ^ c)"
proof -
  obtain d where dec: "DecodeClusterSize (bpb_sectors_per_cluster bpb) (geo_sector_size g) = Some d"
    and g': "g' = g\<lparr>geo_cluster_size := d\<rparr>" and bit: "has_single_bit d"
    using assms(1) by (auto simp: ParseClusterSize_def Let_def split: option.splits if_splits)
  obtain j where j: "unat d = 2 ^ j" using bit by (auto simp: has_single_bit_power)
  have sector: "unat (geo_sector_size g) \<le> 4096" using s power_increasing [of s 12 "2 :: nat"] by simp
  let ?spc = "bpb_sectors_per_cluster bpb"
  have "\<exists>c. c \<le> 12 \<and> unat d = unat (geo_sector_size g) * 2 ^ c"
  proof (cases "?spc \<le> 0x80")
    case True
    then have spc: "unat ?spc \<le> 128" by (simp add: word_le_nat_alt)
    have "unat (geo_sector_size g) * unat ?spc \<le> 4096 * 128" using sector spc by (rule mult_le_mono)
    then have d: "unat d = unat (geo_sector_size g) * unat ?spc"
      using dec True by (auto simp: DecodeClusterSize_def geometry_consts unat_u32_mult unat_ucast_u16_u32 unat_ucast_byte_u32)
    then have "0 < unat ?spc" using j by (cases "unat ?spc") auto
    then have c: "unat ?spc = 2 ^ (j - s)" using d j s by (intro power_of_two_factor) auto
    have "(2 :: nat) ^ (j - s) \<le> 2 ^ 7" using spc c by simp
    then have "j - s \<le> 7" by (simp only: power_increasing_iff)
    then show ?thesis using d c by (intro exI [of _ "j - s"]) simp
  next
    case False
    then obtain shift :: u32 where shift: "\<not> shift > 12" "d = ucast (geo_sector_size g) * push_bit (unat shift) 1"
      using dec by (auto simp: DecodeClusterSize_def Let_def geometry_consts split: if_splits)
    then have small: "unat shift \<le> 12" by (simp add: word_less_nat_alt)
    have "(2 :: nat) ^ unat shift \<le> 2 ^ 12" using small by (intro power_increasing) simp_all
    then have "unat (geo_sector_size g) * 2 ^ unat shift \<le> 4096 * 4096" using sector by (intro mult_le_mono) simp_all
    moreover have "unat (push_bit (unat shift) 1 :: u32) = 2 ^ unat shift" using small by (intro unat_bit_u32) simp
    ultimately have "unat d = unat (geo_sector_size g) * 2 ^ unat shift"
      unfolding shift(2) by (subst unat_u32_mult) (simp_all add: unat_ucast_u16_u32)
    then show ?thesis using small by blast
  qed
  then show ?thesis using g' by auto
qed

lemma VolumeBytes_value:
  assumes "0 < unat (geo_sector_size g)"
  shows "unat (VolumeBytes bpb g) = min (unat (bpb_total_sectors bpb) * unat (geo_sector_size g)) 18446744073709551615"
  using checked_mult [of "ucast (geo_sector_size g)" "bpb_total_sectors bpb"] assms
  by (auto simp: VolumeBytes_def unat_ucast_u16_u64 unat_u64_mult)

lemma ParseFileRecordSize_ok:
  assumes "ParseFileRecordSize bpb g = (True, g')"
  shows "g' = g\<lparr>geo_file_record_size := geo_file_record_size g'\<rparr> \<and> 48 \<le> unat (geo_file_record_size g') \<and>
    unat (geo_file_record_size g') \<le> 4096 \<and> unat (geo_sector_size g) dvd unat (geo_file_record_size g')"
proof -
  obtain d where g': "g' = g\<lparr>geo_file_record_size := d\<rparr>" and d: "\<not> d < 48" "\<not> d > 4096" "d mod ucast (geo_sector_size g) = 0"
    using assms by (auto simp: ParseFileRecordSize_def Let_def geometry_consts
        del: mod_0_imp_dvd split: option.splits if_splits)
  from d(3) have "unat (d mod ucast (geo_sector_size g)) = 0" by simp
  then have "unat d mod unat (geo_sector_size g) = 0" by (simp add: unat_mod unat_ucast_u16_u32)
  then show ?thesis using g' d(1,2) by (auto simp: word_less_nat_alt)
qed

lemma ParseIndexBlockSize_ok:
  assumes "ParseIndexBlockSize bpb g = (True, g')"
  shows "g' = g\<lparr>geo_index_block_size := geo_index_block_size g'\<rparr> \<and> 40 \<le> unat (geo_index_block_size g') \<and>
    unat (geo_sector_size g) dvd unat (geo_index_block_size g')"
proof -
  obtain d where g': "g' = g\<lparr>geo_index_block_size := d\<rparr>" and d: "\<not> d < 40" "d mod ucast (geo_sector_size g) = 0"
    using assms by (auto simp: ParseIndexBlockSize_def Let_def geometry_consts
        del: mod_0_imp_dvd split: option.splits if_splits)
  from d(2) have "unat (d mod ucast (geo_sector_size g)) = 0" by simp
  then have "unat d mod unat (geo_sector_size g) = 0" by (simp add: unat_mod unat_ucast_u16_u32)
  then show ?thesis using g' d(1) by (auto simp: word_less_nat_alt)
qed

lemma ParseMftAddress_ok:
  assumes "ParseMftAddress bpb g = (True, g')" "0 < unat (geo_cluster_size g)"
  shows "g' = g\<lparr>geo_mft_addr := geo_mft_addr g'\<rparr> \<and>
    unat (geo_mft_addr g') = unat (bpb_lcn_mft bpb) * unat (geo_cluster_size g) \<and> unat (geo_mft_addr g') < 2 ^ 62"
proof -
  let ?c = "ucast (geo_cluster_size g) :: u64"
  have nz: "geo_cluster_size g \<noteq> 0" using assms(2) by auto
  have eq: "g' = g\<lparr>geo_mft_addr := bpb_lcn_mft bpb * ?c\<rparr>" and "\<not> bpb_lcn_mft bpb > u64_max div ?c"
    and top: "\<not> bpb_lcn_mft bpb * ?c > max_plausible_addr"
    using assms nz by (auto simp: ParseMftAddress_def Let_def split: if_splits)
  then have "unat (bpb_lcn_mft bpb) * unat (geo_cluster_size g) < 2 ^ 64"
    using checked_mult [of ?c "bpb_lcn_mft bpb"] assms(2) by (simp add: unat_ucast_u32_u64)
  then have "unat (bpb_lcn_mft bpb * ?c) = unat (bpb_lcn_mft bpb) * unat (geo_cluster_size g)"
    by (subst unat_u64_mult) (simp_all add: unat_ucast_u32_u64)
  then show ?thesis using eq top by (auto simp: u64_nat geometry_consts)
qed

text \<open>
  What an accepted boot sector promises, in natural numbers: no address and no size wrapped. The
  addresses are those the BPB declares; a strict parse also holds the first record in the volume;
  the mirror is usable exactly when a copy of the first four records can lie there.
\<close>

definition geometry_sound :: "ntfs_bpb \<Rightarrow> bool \<Rightarrow> geometry \<Rightarrow> bool" where
  "geometry_sound bpb recover g \<longleftrightarrow>
    (let sector = unat (geo_sector_size g); cluster = unat (geo_cluster_size g);
         rec_size = unat (geo_file_record_size g); volume = unat (bpb_total_sectors bpb) * sector;
         mirror = unat (bpb_lcn_mft_mirr bpb) * cluster
     in sizes_sound g \<and> geo_sector_size g = bpb_bytes_per_sector bpb \<and>
        unat (geo_mft_addr g) = unat (bpb_lcn_mft bpb) * cluster \<and> unat (geo_mft_addr g) < 2 ^ 62 \<and>
        (\<not> recover \<longrightarrow> bpb_total_sectors bpb \<noteq> 0 \<and> unat (geo_mft_addr g) + rec_size \<le> volume) \<and>
        (geo_mft_mirr_usable g \<longleftrightarrow> bpb_lcn_mft_mirr bpb \<noteq> 0 \<and> mirror < 2 ^ 62 \<and> mirror \<noteq> unat (geo_mft_addr g) \<and>
           (bpb_total_sectors bpb = 0 \<or> mirror + 4 * rec_size \<le> volume)) \<and>
        (geo_mft_mirr_usable g \<longrightarrow> unat (geo_mft_mirr_addr g) = mirror) \<and>
        unat (geo_cluster_count g) = min volume (2 ^ 64 - 1) div cluster)"

lemma ParseGeometryFields_ok:
  assumes "ParseGeometryFields bpb new_geometry recover = (True, g)"
  shows "sizes_sound g \<and> geo_sector_size g = bpb_bytes_per_sector bpb \<and>
    unat (geo_mft_addr g) = unat (bpb_lcn_mft bpb) * unat (geo_cluster_size g) \<and> unat (geo_mft_addr g) < 2 ^ 62 \<and>
    ParseTotalSectors bpb g recover"
proof -
  obtain g1 g2 g3 g4 where g1: "ParseSectorSize bpb new_geometry = (True, g1)" and g2: "ParseClusterSize bpb g1 = (True, g2)"
    and g3: "ParseFileRecordSize bpb g2 = (True, g3)" and g4: "ParseIndexBlockSize bpb g3 = (True, g4)"
    and g5: "ParseMftAddress bpb g4 = (True, g)" and total: "ParseTotalSectors bpb g recover"
    using assms unfolding ParseGeometryFields_def by (auto simp: and_then_Pair)
  note s = ParseSectorSize_ok [OF g1]
  then obtain k where k: "8 \<le> k" "k \<le> 12" "unat (geo_sector_size g1) = 2 ^ k" by blast
  note c = ParseClusterSize_ok [OF g2 k(3,2)]
  then obtain j where j: "j \<le> 12" "unat (geo_cluster_size g2) = unat (geo_sector_size g1) * 2 ^ j" by blast
  note r = ParseFileRecordSize_ok [OF g3]
  note i = ParseIndexBlockSize_ok [OF g4]
  have same: "geo_sector_size g2 = geo_sector_size g1" "geo_sector_size g3 = geo_sector_size g1"
      "geo_sector_size g4 = geo_sector_size g1" "geo_cluster_size g3 = geo_cluster_size g2"
      "geo_cluster_size g4 = geo_cluster_size g2" "geo_file_record_size g4 = geo_file_record_size g3"
    using c r i by (metis geometry.select_convs geometry.update_convs geometry.surjective)+
  have "0 < unat (geo_cluster_size g4)" using j k same by simp
  note m = ParseMftAddress_ok [OF g5 this]
  have fin: "geo_sector_size g = geo_sector_size g1" "geo_cluster_size g = geo_cluster_size g2"
      "geo_file_record_size g = geo_file_record_size g3" "geo_index_block_size g = geo_index_block_size g4"
    using m same by (metis geometry.select_convs geometry.update_convs geometry.surjective)+
  show ?thesis unfolding sizes_sound_def fin
    using s r i m k j same total by (auto simp: fin)
qed

text \<open>The mirror is usable as its declared address says.\<close>

lemma mirror_exact:
  assumes sizes: "sizes_sound g" and g': "g' = ParseMftMirrorAddress bpb g"
  shows "geo_mft_mirr_usable g' \<longleftrightarrow> bpb_lcn_mft_mirr bpb \<noteq> 0 \<and>
      unat (bpb_lcn_mft_mirr bpb) * unat (geo_cluster_size g) < 2 ^ 62 \<and>
      unat (bpb_lcn_mft_mirr bpb) * unat (geo_cluster_size g) \<noteq> unat (geo_mft_addr g) \<and>
      (bpb_total_sectors bpb = 0 \<or> unat (bpb_lcn_mft_mirr bpb) * unat (geo_cluster_size g) +
         4 * unat (geo_file_record_size g) \<le> unat (bpb_total_sectors bpb) * unat (geo_sector_size g))"
    and "geo_mft_mirr_usable g' \<Longrightarrow> unat (geo_mft_mirr_addr g') = unat (bpb_lcn_mft_mirr bpb) * unat (geo_cluster_size g)"
proof -
  define mirror where "mirror = unat (bpb_lcn_mft_mirr bpb) * unat (geo_cluster_size g)"
  let ?c = "ucast (geo_cluster_size g) :: u64"
  let ?over = "bpb_lcn_mft_mirr bpb > u64_max div ?c"
  let ?g = "g\<lparr>geo_mft_mirr_addr := (if ?over then u64_max else bpb_lcn_mft_mirr bpb * ?c)\<rparr>"
  have pos: "0 < unat (geo_cluster_size g)" "0 < unat (geo_sector_size g)" and rec_size: "unat (geo_file_record_size g) \<le> 4096"
    using sizes by (auto simp: sizes_sound_def)
  have over: "?over \<longleftrightarrow> 2 ^ 64 \<le> mirror"
    using checked_mult [of ?c "bpb_lcn_mft_mirr bpb"] pos by (simp add: mirror_def unat_ucast_u32_u64)
  have addr: "unat (bpb_lcn_mft_mirr bpb * ?c) = mirror" if "mirror < 2 ^ 64"
    using that by (simp add: mirror_def unat_u64_mult unat_ucast_u32_u64)
  have usable: "geo_mft_mirr_usable g' = MirrorUsable bpb ?g ?over"
    and kept: "geo_mft_mirr_addr g' = geo_mft_mirr_addr ?g"
    by (simp_all add: g' ParseMftMirrorAddress_def Let_def)
  have copies: "unat (mft_mirror_record_count * ucast (geo_file_record_size g) :: u64) = 4 * unat (geo_file_record_size g)"
    using rec_size by (subst unat_u64_mult) (simp_all add: mft_mirror_record_count_def unat_ucast_u32_u64)
  have inside: "MirrorInsideVolume bpb ?g \<longleftrightarrow>
      bpb_total_sectors bpb = 0 \<or> mirror + 4 * unat (geo_file_record_size g) \<le> unat (bpb_total_sectors bpb) * unat (geo_sector_size g)"
    if "mirror < 2 ^ 62"
  proof -
    define v where "v = unat (VolumeBytes bpb ?g)"
    have v: "v = min (unat (bpb_total_sectors bpb) * unat (geo_sector_size g)) 18446744073709551615"
      using VolumeBytes_value [of ?g bpb] pos(2) by (simp add: v_def)
    have "mirror < 2 ^ 64" using that by simp
    then have at: "\<not> ?over" "unat (geo_mft_mirr_addr ?g) = mirror" using over addr by simp_all
    have "MirrorInsideVolume bpb ?g \<longleftrightarrow> bpb_total_sectors bpb = 0 \<or>
        (mirror \<le> v \<and> 4 * unat (geo_file_record_size g) \<le> v - mirror)"
      unfolding MirrorInsideVolume_def Let_def using at copies
      by (auto simp: u64_le_nat v_def unat_u64_sub)
    also have "\<dots> \<longleftrightarrow> bpb_total_sectors bpb = 0 \<or> mirror + 4 * unat (geo_file_record_size g) \<le>
        unat (bpb_total_sectors bpb) * unat (geo_sector_size g)"
      using that rec_size unfolding v by (auto simp: min_def)
    finally show ?thesis .
  qed
  have top: "\<not> ?over \<and> geo_mft_mirr_addr ?g \<le> max_plausible_addr \<longleftrightarrow> mirror < 2 ^ 62"
    using over addr by (auto simp: u64_le_nat max_plausible_addr_def)
  have differ: "geo_mft_mirr_addr ?g \<noteq> geo_mft_addr g \<longleftrightarrow> mirror \<noteq> unat (geo_mft_addr g)" if "mirror < 2 ^ 62"
    using that over addr by (auto simp: word_unat_eq_iff)
  show "geo_mft_mirr_usable g' \<longleftrightarrow> bpb_lcn_mft_mirr bpb \<noteq> 0 \<and>
      unat (bpb_lcn_mft_mirr bpb) * unat (geo_cluster_size g) < 2 ^ 62 \<and>
      unat (bpb_lcn_mft_mirr bpb) * unat (geo_cluster_size g) \<noteq> unat (geo_mft_addr g) \<and>
      (bpb_total_sectors bpb = 0 \<or> unat (bpb_lcn_mft_mirr bpb) * unat (geo_cluster_size g) +
         4 * unat (geo_file_record_size g) \<le> unat (bpb_total_sectors bpb) * unat (geo_sector_size g))"
    unfolding usable MirrorUsable_def mirror_def [symmetric]
    using top differ inside by (auto simp del: geometry.update_convs)
  show "geo_mft_mirr_usable g' \<Longrightarrow> unat (geo_mft_mirr_addr g') = unat (bpb_lcn_mft_mirr bpb) * unat (geo_cluster_size g)"
    unfolding usable MirrorUsable_def kept mirror_def [symmetric] using top over addr by auto
qed

lemma strict_volume_holds_mft:
  assumes "sizes_sound g" "ParseTotalSectors bpb g False"
  shows "bpb_total_sectors bpb \<noteq> 0 \<and>
    unat (geo_mft_addr g) + unat (geo_file_record_size g) \<le> unat (bpb_total_sectors bpb) * unat (geo_sector_size g)"
proof -
  define v where "v = unat (VolumeBytes bpb g)"
  have "0 < unat (geo_sector_size g)" using assms(1) by (auto simp: sizes_sound_def)
  then have v: "v \<le> unat (bpb_total_sectors bpb) * unat (geo_sector_size g)"
    using VolumeBytes_value [of g bpb] by (simp add: v_def)
  have "bpb_total_sectors bpb \<noteq> 0" "geo_mft_addr g \<le> VolumeBytes bpb g"
    "ucast (geo_file_record_size g) \<le> VolumeBytes bpb g - geo_mft_addr g"
    using assms(2) by (auto simp: ParseTotalSectors_def Let_def split: if_splits)
  then have "bpb_total_sectors bpb \<noteq> 0" "unat (geo_mft_addr g) + unat (geo_file_record_size g) \<le> v"
    by (auto simp: u64_le_nat v_def unat_u64_sub unat_ucast_u32_u64)
  then show ?thesis using v by linarith
qed

text \<open>
  C11. A boot sector that is accepted, in either mode, has a sound geometry: the sector size is a
  power of two from 256 to 4096, the cluster a power-of-two count of sectors, records and index
  blocks are whole sectors within their bounds, and every address is the declared one with no
  overflow. A strict parse also places the first $MFT record inside the volume. The mirror is
  usable exactly when its declared address is not null, stays a plausible address, differs from
  that of the $MFT and leaves room for four records.
\<close>

theorem accepted_geometry_sound:
  assumes "ParseBootSector boot_sector recover = \<lparr>bsp_geometry = g, bsp_ok = True\<rparr>"
  shows "geometry_sound (bpb_of boot_sector) recover g"
proof -
  let ?bpb = "bpb_of boot_sector"
  obtain g1 where fields: "ParseGeometryFields ?bpb new_geometry recover = (True, g1)"
    and g: "g = (ParseMftMirrorAddress ?bpb g1)\<lparr>geo_cluster_count :=
      (if bpb_total_sectors ?bpb = 0 then 0
       else VolumeBytes ?bpb (ParseMftMirrorAddress ?bpb g1) div ucast (geo_cluster_size (ParseMftMirrorAddress ?bpb g1)))\<rparr>"
    using assms by (auto simp: ParseBootSector_def Let_def split: if_splits prod.splits bool.splits)
  note ok = ParseGeometryFields_ok [OF fields]
  then have sizes: "sizes_sound g1" by simp
  let ?g2 = "ParseMftMirrorAddress ?bpb g1"
  have same: "geo_sector_size ?g2 = geo_sector_size g1" "geo_cluster_size ?g2 = geo_cluster_size g1"
      "geo_file_record_size ?g2 = geo_file_record_size g1" "geo_index_block_size ?g2 = geo_index_block_size g1"
      "geo_mft_addr ?g2 = geo_mft_addr g1"
    by (simp_all add: ParseMftMirrorAddress_def Let_def)
  have fin: "geo_sector_size g = geo_sector_size g1" "geo_cluster_size g = geo_cluster_size g1"
      "geo_file_record_size g = geo_file_record_size g1" "geo_index_block_size g = geo_index_block_size g1"
      "geo_mft_addr g = geo_mft_addr g1" "geo_mft_mirr_usable g = geo_mft_mirr_usable ?g2"
      "geo_mft_mirr_addr g = geo_mft_mirr_addr ?g2"
    by (simp_all add: g same)
  have "0 < unat (geo_sector_size ?g2)" using sizes same by (auto simp: sizes_sound_def)
  from VolumeBytes_value [OF this, of ?bpb]
  have count: "unat (geo_cluster_count g) =
      min (unat (bpb_total_sectors ?bpb) * unat (geo_sector_size g1)) (2 ^ 64 - 1) div unat (geo_cluster_size g1)"
    by (simp add: g same unat_div unat_ucast_u32_u64)
  have "sizes_sound g" using sizes by (simp add: sizes_sound_def fin)
  moreover have "\<not> recover \<longrightarrow> bpb_total_sectors ?bpb \<noteq> 0 \<and>
      unat (geo_mft_addr g1) + unat (geo_file_record_size g1) \<le> unat (bpb_total_sectors ?bpb) * unat (geo_sector_size g1)"
    using strict_volume_holds_mft [OF sizes] ok by (cases recover) auto
  ultimately show ?thesis
    unfolding geometry_sound_def Let_def fin
    using ok mirror_exact(1) [OF sizes refl] mirror_exact(2) [OF sizes refl] count by blast
qed

text \<open>
  Recovery only accepts more: a boot sector the strict parse accepts gives the same geometry
  when recovering, and what recovering rejects the strict parse rejects.
\<close>

theorem recover_extends_strict:
  "bsp_ok (ParseBootSector boot_sector False) \<Longrightarrow>
     ParseBootSector boot_sector True = ParseBootSector boot_sector False"
proof -
  let ?bpb = "bpb_of boot_sector"
  assume ok: "bsp_ok (ParseBootSector boot_sector False)"
  then obtain g where strict: "ParseGeometryFields ?bpb new_geometry False = (True, g)"
    and gates: "bpb_signature ?bpb = ntfs_signature" "bpb_x_aa ?bpb = bpb_marker_first" "bpb_x_55 ?bpb = bpb_marker_second"
      "ParseReservedFields ?bpb False"
    by (auto simp: ParseBootSector_def Let_def split: if_splits prod.splits bool.splits)
  have "ParseTotalSectors ?bpb h True" for h
    by (simp add: ParseTotalSectors_def Let_def)
  then have "ParseGeometryFields ?bpb new_geometry True = (True, g)"
    using strict unfolding ParseGeometryFields_def by (auto simp: and_then_Pair)
  moreover have "ParseReservedFields ?bpb True" by (simp add: ParseReservedFields_def)
  ultimately show ?thesis using gates strict by (simp add: ParseBootSector_def Let_def)
qed

section \<open>A boot sector\<close>

text \<open>512-byte sectors, 8 of them per cluster, 4096 sectors, $MFT at cluster 4 and its mirror at 2.\<close>

definition sample_boot_sector :: "byte list" where
  "sample_boot_sector =
     [0xEB, 0x52, 0x90] @ ntfs_signature @ to_le 2 512 @ [8] @ replicate 26 0 @ to_le 8 4096 @ to_le 8 4 @ to_le 8 2 @
     to_le 4 0xF6 @ to_le 4 1 @ replicate 438 0 @ [0x55, 0xAA]"

definition sample_geometry :: geometry where
  "sample_geometry =
     \<lparr>geo_sector_size = 512, geo_cluster_size = 4096, geo_file_record_size = 1024, geo_index_block_size = 4096,
      geo_mft_addr = 16384, geo_mft_mirr_addr = 8192, geo_mft_mirr_usable = True, geo_cluster_count = 512\<rparr>"

lemma parse_sample_boot: "ParseBootSector sample_boot_sector False = \<lparr>bsp_geometry = sample_geometry, bsp_ok = True\<rparr>"
  by code_simp

lemma accepted_geometry_sound_witness: "geometry_sound (bpb_of sample_boot_sector) False sample_geometry"
  by (rule accepted_geometry_sound [OF parse_sample_boot])

lemma recover_extends_strict_witness:
  "ParseBootSector sample_boot_sector True = \<lparr>bsp_geometry = sample_geometry, bsp_ok = True\<rparr>"
  using recover_extends_strict [of sample_boot_sector] by (simp add: parse_sample_boot)

end
