(* ===== verification/BlockCache.thy ===== *)
theory BlockCache
  imports NtfsPrelude
begin

text \<open>
  The cache of volume blocks: src/cache/block-cache.cpp and block-cache.h, with the views of
  src/cache/view.cpp that keep its bytes alive. The unordered_map of blocks is an association list,
  the std::list of least recent uses a list of indexes. The use count of a shared_ptr is the number
  of holders beside the cache itself (a live View, or the read that is using the block). Indexes are
  natural numbers: they are addresses below 2^63 over the block size. Failed allocations are not
  modelled.
\<close>

section \<open>Data\<close>

record cached_block =
  cb_bytes :: "byte list"
  cb_holders :: nat

record block_cache =
  bc_block_bytes :: nat
  bc_ceiling :: u64
  bc_blocks :: "(nat \<times> cached_block) list"
  bc_order :: "nat list"
  bc_stitched_bytes :: u64

definition new_block_cache :: "nat \<Rightarrow> u64 \<Rightarrow> block_cache" where
  "new_block_cache block_bytes ceiling =
     \<lparr>bc_block_bytes = block_bytes, bc_ceiling = ceiling, bc_blocks = [], bc_order = [], bc_stitched_bytes = 0\<rparr>"

definition SaturatingAdd :: "u64 \<Rightarrow> u64 \<Rightarrow> u64" where
  "SaturatingAdd a b = (if b > u64_max - a then u64_max else a + b)"

section \<open>Operations\<close>

definition block_of :: "block_cache \<Rightarrow> nat \<Rightarrow> cached_block option" where
  "block_of c = map_of (bc_blocks c)"

text \<open>A hit moves the index to the end of the order: it is the most recently used.\<close>

definition FindBlock :: "block_cache \<Rightarrow> nat \<Rightarrow> cached_block option \<times> block_cache" where
  "FindBlock c index =
    (case block_of c index of
       None \<Rightarrow> (None, c)
     | Some b \<Rightarrow> (Some b, c\<lparr>bc_order := filter (\<lambda>i. i \<noteq> index) (bc_order c) @ [index]\<rparr>))"

definition ContainsBlock :: "block_cache \<Rightarrow> nat \<Rightarrow> bool" where
  "ContainsBlock c index \<longleftrightarrow> block_of c index \<noteq> None"

definition InsertBlock :: "block_cache \<Rightarrow> nat \<Rightarrow> byte list \<Rightarrow> block_cache" where
  "InsertBlock c index bytes =
    (if ContainsBlock c index then c
     else c\<lparr>bc_order := bc_order c @ [index],
            bc_blocks := (index, \<lparr>cb_bytes = bytes, cb_holders = 0\<rparr>) # bc_blocks c\<rparr>)"

text \<open>GetOrLoad(): the block at index, loaded through fill on a miss.\<close>

definition GetOrLoad :: "block_cache \<Rightarrow> nat \<Rightarrow> byte list option \<Rightarrow> byte list option \<times> block_cache" where
  "GetOrLoad c index filled =
    (case FindBlock c index of
       (Some b, c) \<Rightarrow> (Some (cb_bytes b), c)
     | (None, c) \<Rightarrow>
         (case filled of
            None \<Rightarrow> (None, c)
          | Some bytes \<Rightarrow> (Some bytes, InsertBlock c index bytes)))"

definition HeldBytes :: "block_cache \<Rightarrow> u64" where
  "HeldBytes c = SaturatingAdd (of_nat (bc_block_bytes c) * of_nat (length (bc_blocks c))) (bc_stitched_bytes c)"

definition InUseBytes :: "block_cache \<Rightarrow> u64" where
  "InUseBytes c =
     fold (\<lambda>(i, b) in_use. if cb_holders b > 0 then SaturatingAdd in_use (of_nat (bc_block_bytes c)) else in_use)
       (bc_blocks c) (bc_stitched_bytes c)"

definition erase_block :: "nat \<Rightarrow> block_cache \<Rightarrow> block_cache" where
  "erase_block index c =
     c\<lparr>bc_blocks := filter (\<lambda>e. fst e \<noteq> index) (bc_blocks c), bc_order := filter (\<lambda>i. i \<noteq> index) (bc_order c)\<rparr>"

definition in_use :: "block_cache \<Rightarrow> nat \<Rightarrow> bool" where
  "in_use c index \<longleftrightarrow> (case block_of c index of None \<Rightarrow> False | Some b \<Rightarrow> cb_holders b > 0)"

text \<open>
  The walk of Trim() over the order, least recently used first: it stops at the ceiling and steps
  over a block that is in use.
\<close>

fun trim_from :: "nat list \<Rightarrow> block_cache \<Rightarrow> block_cache" where
  "trim_from [] c = c"
| "trim_from (index # rest) c =
     (if \<not> HeldBytes c > bc_ceiling c then c
      else if in_use c index then trim_from rest c
      else trim_from rest (erase_block index c))"

definition Trim :: "block_cache \<Rightarrow> block_cache" where
  "Trim c = trim_from (bc_order c) c"

fun minify_from :: "nat list \<Rightarrow> block_cache \<Rightarrow> block_cache" where
  "minify_from [] c = c"
| "minify_from (index # rest) c =
     (if in_use c index then minify_from rest c else minify_from rest (erase_block index c))"

definition Minify :: "block_cache \<Rightarrow> block_cache" where
  "Minify c = minify_from (bc_order c) c"

definition GetStats :: "block_cache \<Rightarrow> u64 \<times> u64" where
  "GetStats c = (HeldBytes c, InUseBytes c)"

text \<open>A stitched buffer is counted from its allocation to its destruction.\<close>

definition NewStitched :: "nat \<Rightarrow> block_cache \<Rightarrow> block_cache" where
  "NewStitched n c = c\<lparr>bc_stitched_bytes := SaturatingAdd (bc_stitched_bytes c) (of_nat n)\<rparr>"

definition DropStitched :: "nat \<Rightarrow> block_cache \<Rightarrow> block_cache" where
  "DropStitched n c =
     c\<lparr>bc_stitched_bytes := (if bc_stitched_bytes c \<ge> of_nat n then bc_stitched_bytes c - of_nat n else 0)\<rparr>"

section \<open>Views\<close>

text \<open>What a view owns: nothing, a block of the cache, or a buffer of its own.\<close>

datatype view_owner = OwnsNothing | OwnsBlock nat | OwnsBuffer nat

record cache_view =
  vw_bytes :: "byte list"
  vw_owner :: view_owner

definition set_holders :: "(nat \<Rightarrow> nat) \<Rightarrow> nat \<Rightarrow> block_cache \<Rightarrow> block_cache" where
  "set_holders f index c =
     c\<lparr>bc_blocks := map (\<lambda>(i, b). (i, if i = index then b\<lparr>cb_holders := f (cb_holders b)\<rparr> else b)) (bc_blocks c)\<rparr>"

definition HoldBlock :: "nat \<Rightarrow> block_cache \<Rightarrow> block_cache" where
  "HoldBlock = set_holders Suc"

definition ReleaseBlock :: "nat \<Rightarrow> block_cache \<Rightarrow> block_cache" where
  "ReleaseBlock = set_holders (\<lambda>n. n - 1)"

text \<open>The destructor of a view, the last one that holds its owner in the case of a buffer.\<close>

definition DropView :: "cache_view \<Rightarrow> block_cache \<Rightarrow> block_cache" where
  "DropView v c =
    (case vw_owner v of
       OwnsNothing \<Rightarrow> c
     | OwnsBlock index \<Rightarrow> Trim (ReleaseBlock index c)
     | OwnsBuffer n \<Rightarrow> Trim (DropStitched n c))"

definition CopyView :: "cache_view \<Rightarrow> block_cache \<Rightarrow> block_cache" where
  "CopyView v c = (case vw_owner v of OwnsBlock index \<Rightarrow> HoldBlock index c | _ \<Rightarrow> c)"

section \<open>The cache is a consistent part of the medium\<close>

text \<open>
  The bytes of a medium: None where a byte cannot be read. A read of a range gives its bytes when
  all of them can be read.
\<close>

definition medium_range :: "(nat \<Rightarrow> byte option) \<Rightarrow> nat \<Rightarrow> nat \<Rightarrow> byte list option" where
  "medium_range content a n = those (map content [a..<a + n])"

lemma medium_range_Some:
  "medium_range content a n = Some bytes \<longleftrightarrow> length bytes = n \<and> (\<forall>k<n. content (a + k) = Some (bytes ! k))"
proof (induction n arbitrary: a bytes)
  case (Suc n)
  have "medium_range content a (Suc n) =
      (case content a of None \<Rightarrow> None | Some b \<Rightarrow> map_option (Cons b) (medium_range content (Suc a) n))"
    by (cases "content a") (simp_all add: medium_range_def upt_conv_Cons del: upt_Suc)
  then show ?case using Suc.IH [of "Suc a"]
    by (cases bytes) (auto simp: All_less_Suc2 split: option.splits)
qed (auto simp: medium_range_def)

lemma medium_range_None: "medium_range content a n = None \<longleftrightarrow> (\<exists>k<n. content (a + k) = None)"
proof -
  have "(\<exists>bytes. length bytes = n \<and> (\<forall>k<n. content (a + k) = Some (bytes ! k))) \<longleftrightarrow> (\<forall>k<n. content (a + k) \<noteq> None)"
  proof
    assume "\<forall>k<n. content (a + k) \<noteq> None"
    then show "\<exists>bytes. length bytes = n \<and> (\<forall>k<n. content (a + k) = Some (bytes ! k))"
      by (intro exI [of _ "map (\<lambda>k. the (content (a + k))) [0..<n]"]) auto
  qed auto
  then show ?thesis using medium_range_Some [of content a n] by (metis not_None_eq)
qed

lemma medium_range_part:
  "medium_range content a n = Some bytes \<Longrightarrow> off + m \<le> n \<Longrightarrow>
     medium_range content (a + off) m = Some (take m (drop off bytes))"
  by (auto simp: medium_range_Some add.assoc)

lemma medium_range_append:
  "medium_range content a n = Some xs \<Longrightarrow> medium_range content (a + n) m = Some ys \<Longrightarrow>
     medium_range content a (n + m) = Some (xs @ ys)"
  by (auto simp: medium_range_Some nth_append) (metis le_add_diff_inverse2 less_diff_conv2 not_less add.assoc add.commute)

definition blocks_consistent :: "block_cache \<Rightarrow> bool" where
  "blocks_consistent c \<longleftrightarrow>
     distinct (map fst (bc_blocks c)) \<and> distinct (bc_order c) \<and> set (bc_order c) = set (map fst (bc_blocks c))"

definition blocks_true :: "(nat \<Rightarrow> byte option) \<Rightarrow> block_cache \<Rightarrow> bool" where
  "blocks_true content c \<longleftrightarrow>
     (\<forall>(i, b) \<in> set (bc_blocks c). medium_range content (i * bc_block_bytes c) (bc_block_bytes c) = Some (cb_bytes b))"

definition cache_ok :: "(nat \<Rightarrow> byte option) \<Rightarrow> block_cache \<Rightarrow> bool" where
  "cache_ok content c \<longleftrightarrow> blocks_consistent c \<and> blocks_true content c"

lemma block_of_mem: "block_of c i = Some b \<Longrightarrow> (i, b) \<in> set (bc_blocks c)"
  by (simp add: block_of_def map_of_SomeD)

lemma contains_iff: "ContainsBlock c i \<longleftrightarrow> i \<in> set (map fst (bc_blocks c))"
  by (simp add: ContainsBlock_def block_of_def map_of_eq_None_iff)

lemma cache_ok_new: "cache_ok content (new_block_cache block_bytes ceiling)"
  by (simp add: cache_ok_def blocks_consistent_def blocks_true_def new_block_cache_def)

lemma FindBlock_ok:
  assumes "FindBlock c i = (r, c')" "cache_ok content c"
  shows "cache_ok content c'" "bc_block_bytes c' = bc_block_bytes c"
    "r = Some b \<Longrightarrow> medium_range content (i * bc_block_bytes c) (bc_block_bytes c) = Some (cb_bytes b)"
    "r = None \<longleftrightarrow> \<not> ContainsBlock c i" "r = None \<Longrightarrow> c' = c"
    "map fst (bc_blocks c') = map fst (bc_blocks c)"
proof -
  have order: "set (bc_order c) = set (map fst (bc_blocks c))" using assms(2) by (simp add: cache_ok_def blocks_consistent_def)
  then have "i \<in> set (bc_order c)" if "block_of c i \<noteq> None"
    using that contains_iff [of c i] by (simp add: ContainsBlock_def)
  then have "insert i (set (bc_order c) - {i}) = set (bc_order c)" if "block_of c i \<noteq> None" using that by blast
  then show "cache_ok content c'"
    using assms order
    by (auto simp: FindBlock_def cache_ok_def blocks_consistent_def blocks_true_def simp del: set_map split: option.splits)
  show "bc_block_bytes c' = bc_block_bytes c" "r = None \<longleftrightarrow> \<not> ContainsBlock c i" "r = None \<Longrightarrow> c' = c"
    "map fst (bc_blocks c') = map fst (bc_blocks c)"
    using assms(1) by (auto simp: FindBlock_def ContainsBlock_def split: option.splits)
  show "medium_range content (i * bc_block_bytes c) (bc_block_bytes c) = Some (cb_bytes b)" if "r = Some b"
    using that assms block_of_mem [of c i b]
    by (auto simp: FindBlock_def cache_ok_def blocks_true_def split: option.splits)
qed

lemma InsertBlock_ok:
  assumes "cache_ok content c" "medium_range content (i * bc_block_bytes c) (bc_block_bytes c) = Some bytes"
  shows "cache_ok content (InsertBlock c i bytes)"
  using assms contains_iff [of c i]
  by (auto simp: InsertBlock_def cache_ok_def blocks_consistent_def blocks_true_def)

lemma erase_block_ok: "cache_ok content c \<Longrightarrow> cache_ok content (erase_block i c)"
proof -
  assume "cache_ok content c"
  moreover have "map fst (filter (\<lambda>e. fst e \<noteq> i) xs) = filter (\<lambda>j. j \<noteq> i) (map fst xs)"
    for xs :: "(nat \<times> cached_block) list"
    by (induction xs) auto
  ultimately show ?thesis
    by (auto simp: erase_block_def cache_ok_def blocks_consistent_def blocks_true_def)
qed

lemma trim_from_ok: "cache_ok content c \<Longrightarrow> cache_ok content (trim_from order c)"
  by (induction order c rule: trim_from.induct) (simp_all add: erase_block_ok)

lemma minify_from_ok: "cache_ok content c \<Longrightarrow> cache_ok content (minify_from order c)"
  by (induction order c rule: minify_from.induct) (simp_all add: erase_block_ok)

lemma set_holders_ok: "cache_ok content (set_holders f i c) \<longleftrightarrow> cache_ok content c"
proof -
  have "map fst (bc_blocks (set_holders f i c)) = map fst (bc_blocks c)"
    by (auto simp: set_holders_def)
  moreover have "bc_order (set_holders f i c) = bc_order c" by (simp add: set_holders_def)
  moreover have "blocks_true content (set_holders f i c) \<longleftrightarrow> blocks_true content c"
    by (auto simp: blocks_true_def set_holders_def split: if_splits)
  ultimately show ?thesis by (simp only: cache_ok_def blocks_consistent_def)
qed

text \<open>Every operation keeps the cache a consistent part of the medium.\<close>

lemmas cache_ok_ops =
  cache_ok_new InsertBlock_ok erase_block_ok trim_from_ok minify_from_ok set_holders_ok

lemma cache_ok_steps [simp]:
  "cache_ok content c \<Longrightarrow> cache_ok content (Trim c)"
  "cache_ok content c \<Longrightarrow> cache_ok content (Minify c)"
  "cache_ok content (HoldBlock i c) \<longleftrightarrow> cache_ok content c"
  "cache_ok content (ReleaseBlock i c) \<longleftrightarrow> cache_ok content c"
  by (simp_all add: Trim_def Minify_def HoldBlock_def ReleaseBlock_def cache_ok_ops)

lemma cache_ok_stitched [simp]:
  "cache_ok content (NewStitched n c) \<longleftrightarrow> cache_ok content c"
  "cache_ok content (DropStitched n c) \<longleftrightarrow> cache_ok content c"
  by (simp_all add: NewStitched_def DropStitched_def cache_ok_def blocks_consistent_def blocks_true_def)

lemma DropView_ok: "cache_ok content c \<Longrightarrow> cache_ok content (DropView v c)"
  by (simp add: DropView_def split: view_owner.split)

lemma CopyView_ok: "cache_ok content c \<Longrightarrow> cache_ok content (CopyView v c)"
  by (simp add: CopyView_def split: view_owner.split)

section \<open>Which blocks are freed\<close>

text \<open>The cache without the unused blocks among the k least recently used.\<close>

definition kept_order :: "block_cache \<Rightarrow> nat \<Rightarrow> nat list" where
  "kept_order c k = filter (in_use c) (take k (bc_order c)) @ drop k (bc_order c)"

definition evicted :: "block_cache \<Rightarrow> nat \<Rightarrow> block_cache" where
  "evicted c k = c\<lparr>bc_order := kept_order c k,
     bc_blocks := filter (\<lambda>e. fst e \<in> set (kept_order c k)) (bc_blocks c)\<rparr>"

lemma evicted_0: "blocks_consistent c \<Longrightarrow> evicted c 0 = c"
proof -
  assume "blocks_consistent c"
  then have "filter (\<lambda>e. fst e \<in> set (bc_order c)) (bc_blocks c) = bc_blocks c"
    by (force simp: blocks_consistent_def filter_id_conv)
  then show ?thesis by (simp add: evicted_def kept_order_def)
qed

lemma map_of_filter_keys: "map_of (filter (\<lambda>e. P (fst e)) xs) j = (if P j then map_of xs j else None)"
  by (induction xs) auto

lemma evicted_in_use: "in_use (evicted c k) i \<longleftrightarrow> in_use c i \<and> i \<in> set (kept_order c k)"
  by (simp add: in_use_def block_of_def evicted_def map_of_filter_keys [of "\<lambda>i. i \<in> set (kept_order c k)"] split: option.split)

lemma kept_order_Suc:
  assumes "blocks_consistent c" "k < length (bc_order c)"
  shows "kept_order c (Suc k) = (if in_use c (bc_order c ! k) then kept_order c k
           else filter (\<lambda>i. i \<noteq> bc_order c ! k) (kept_order c k))"
    and "bc_order c ! k \<in> set (kept_order c k)"
proof -
  let ?o = "bc_order c"
  have drop_k: "drop k ?o = ?o ! k # drop (Suc k) ?o" using assms(2) by (simp add: Cons_nth_drop_Suc)
  have d: "distinct ?o" using assms(1) by (simp add: blocks_consistent_def)
  have "?o = take k ?o @ ?o ! k # drop (Suc k) ?o" using drop_k by (metis append_take_drop_id)
  with d have "distinct (take k ?o @ ?o ! k # drop (Suc k) ?o)" by simp
  then have out: "?o ! k \<notin> set (take k ?o)" "?o ! k \<notin> set (drop (Suc k) ?o)" by auto
  have "filter (\<lambda>i. i \<noteq> ?o ! k) (filter (in_use c) (take k ?o)) = filter (in_use c) (take k ?o)"
    using out(1) by (auto intro: filter_cong simp: filter_filter)
  moreover have "filter (\<lambda>i. i \<noteq> ?o ! k) (drop (Suc k) ?o) = drop (Suc k) ?o"
    using out(2) by (auto simp: filter_id_conv)
  ultimately show "kept_order c (Suc k) = (if in_use c (?o ! k) then kept_order c k
      else filter (\<lambda>i. i \<noteq> ?o ! k) (kept_order c k))"
    using assms(2) unfolding kept_order_def drop_k by (simp add: take_Suc_conv_app_nth)
  show "?o ! k \<in> set (kept_order c k)" unfolding kept_order_def drop_k by simp
qed

lemma evicted_Suc:
  assumes "blocks_consistent c" "k < length (bc_order c)"
  shows "evicted c (Suc k) = (if in_use (evicted c k) (bc_order c ! k) then evicted c k
           else erase_block (bc_order c ! k) (evicted c k))"
proof (cases "in_use c (bc_order c ! k)")
  case True
  then have "evicted c (Suc k) = evicted c k" using kept_order_Suc [OF assms] by (simp add: evicted_def)
  then show ?thesis using True kept_order_Suc(2) [OF assms] by (simp add: evicted_in_use)
next
  case False
  then have "evicted c (Suc k) = erase_block (bc_order c ! k) (evicted c k)"
    using kept_order_Suc [OF assms] by (auto simp: evicted_def erase_block_def intro!: filter_cong)
  then show ?thesis using False by (simp add: evicted_in_use)
qed

text \<open>
  C14. Trim() frees the least recently used blocks that no view holds, and no more than it must: it
  looks at the first k of the order, frees those not in use, and stops there exactly because the
  rest fits the ceiling, or because it has looked at every block.
\<close>

theorem trim_exact:
  assumes "blocks_consistent c"
  shows "\<exists>k \<le> length (bc_order c). Trim c = evicted c k \<and>
    (\<forall>j < k. HeldBytes (evicted c j) > bc_ceiling c) \<and>
    (HeldBytes (Trim c) \<le> bc_ceiling c \<or> k = length (bc_order c))"
proof -
  have "\<exists>k. j \<le> k \<and> k \<le> length (bc_order c) \<and> trim_from (drop j (bc_order c)) (evicted c j) = evicted c k \<and>
      (\<forall>m. j \<le> m \<and> m < k \<longrightarrow> HeldBytes (evicted c m) > bc_ceiling c) \<and>
      (HeldBytes (evicted c k) \<le> bc_ceiling c \<or> k = length (bc_order c))" if "j \<le> length (bc_order c)" for j
    using that
  proof (induction "length (bc_order c) - j" arbitrary: j)
    case 0
    then show ?case by (intro exI [of _ j]) auto
  next
    case (Suc n)
    then have j: "j < length (bc_order c)" by simp
    then have d: "drop j (bc_order c) = bc_order c ! j # drop (Suc j) (bc_order c)" by (simp add: Cons_nth_drop_Suc)
    have ceiling: "bc_ceiling (evicted c j) = bc_ceiling c" by (simp add: evicted_def)
    show ?case
    proof (cases "HeldBytes (evicted c j) > bc_ceiling c")
      case False
      then show ?thesis using j d ceiling by (intro exI [of _ j]) (auto simp: not_less)
    next
      case True
      have step: "trim_from (drop j (bc_order c)) (evicted c j) = trim_from (drop (Suc j) (bc_order c)) (evicted c (Suc j))"
        using True unfolding d evicted_Suc [OF assms j] by (simp add: ceiling)
      have "n = length (bc_order c) - Suc j" "Suc j \<le> length (bc_order c)" using Suc.hyps(2) j by auto
      from Suc.hyps(1) [OF this] obtain k where k: "Suc j \<le> k" "k \<le> length (bc_order c)"
        "trim_from (drop (Suc j) (bc_order c)) (evicted c (Suc j)) = evicted c k"
        "\<forall>m. Suc j \<le> m \<and> m < k \<longrightarrow> HeldBytes (evicted c m) > bc_ceiling c"
        "HeldBytes (evicted c k) \<le> bc_ceiling c \<or> k = length (bc_order c)"
        by blast
      have "\<forall>m. j \<le> m \<and> m < k \<longrightarrow> HeldBytes (evicted c m) > bc_ceiling c"
        using k(4) True by (metis le_eq_less_or_eq Suc_leI)
      then show ?thesis using k step by (intro exI [of _ k]) auto
    qed
  qed
  from this [of 0] show ?thesis by (auto simp: evicted_0 [OF assms] Trim_def)
qed

section \<open>A small cache\<close>

text \<open>Three blocks of four bytes over a ceiling of eight: block 1 is the oldest, and a view holds it.\<close>

definition sample_cache :: block_cache where
  "sample_cache =
     \<lparr>bc_block_bytes = 4, bc_ceiling = 8,
      bc_blocks = [(3, \<lparr>cb_bytes = [0, 0, 0, 0], cb_holders = 0\<rparr>), (2, \<lparr>cb_bytes = [0, 0, 0, 0], cb_holders = 0\<rparr>),
                   (1, \<lparr>cb_bytes = [0, 0, 0, 0], cb_holders = 1\<rparr>)],
      bc_order = [1, 2, 3], bc_stitched_bytes = 0\<rparr>"

lemma trim_exact_witness: "Trim sample_cache = evicted sample_cache 2"
proof -
  have c: "blocks_consistent sample_cache" by (auto simp: blocks_consistent_def sample_cache_def)
  have held: "HeldBytes (evicted sample_cache 0) = 12" "HeldBytes (evicted sample_cache 1) = 12"
    "HeldBytes (evicted sample_cache 2) = 8" by code_simp+
  have init: "bc_ceiling sample_cache = 8" "length (bc_order sample_cache) = 3" by (simp_all add: sample_cache_def)
  obtain k where k: "k \<le> 3" "Trim sample_cache = evicted sample_cache k"
    "\<forall>j < k. HeldBytes (evicted sample_cache j) > 8" "HeldBytes (evicted sample_cache k) \<le> 8 \<or> k = 3"
    using trim_exact [OF c] unfolding init by auto
  have "k \<noteq> 0" using k(4) held(1) by (intro notI) simp
  moreover have "k \<noteq> 1" using k(4) held(2) by (intro notI) simp
  moreover have "k \<noteq> 3" using k(3) [rule_format, of 2] held(3) by (intro notI) simp
  ultimately have "k = 2" using k(1) by linarith
  then show ?thesis using k(2) by simp
qed

end
