(* ===== verification/FileReader.thy ===== *)
theory FileReader
  imports BlockCache
begin

text \<open>
  Reads of the volume: src/io/file-reader.cpp and file-reader.h, class FileReader, without a cache
  (NoCache) and through the block cache (FullCache). The disk reader behind it (IDiskReader) is the
  parameter \<open>disk\<close>: the bytes of a read, or None when it fails. Addresses are natural numbers once
  the guard of Read() has placed them below 2^63. The benchmark session, which only times the
  reads, and the log are not modelled.
\<close>

section \<open>Data\<close>

type_synonym disk_reader = "int \<Rightarrow> nat \<Rightarrow> byte list option"

text \<open>The fields of Tuning::CacheTuning the reader is built from.\<close>

record cache_tuning =
  ct_block_bytes :: nat
  ct_max_run_bytes :: nat

definition min_block_bytes :: nat where "min_block_bytes = 4096"

definition dword_max :: nat where "dword_max = 4294967295"

definition llong_top :: nat where "llong_top = 9223372036854775807"

definition BlockBytesOf :: "cache_tuning \<Rightarrow> nat" where
  "BlockBytesOf tuning = max (ct_block_bytes tuning) min_block_bytes"

definition MaxRunBytesOf :: "cache_tuning \<Rightarrow> nat" where
  "MaxRunBytesOf tuning = max (min (ct_max_run_bytes tuning) dword_max) (BlockBytesOf tuning)"

text \<open>RunBlockLoader: the run of missing blocks that one disk read brought in.\<close>

record run_loader =
  ld_last_index :: nat
  ld_run_first :: nat
  ld_run_count :: nat
  ld_run_bytes :: "byte list"
  ld_failed :: bool

definition new_loader :: "nat \<Rightarrow> run_loader" where
  "new_loader last_index =
     \<lparr>ld_last_index = last_index, ld_run_first = 0, ld_run_count = 0, ld_run_bytes = [], ld_failed = False\<rparr>"

section \<open>Blocks\<close>

text \<open>The loop of ReadRun(): how many missing blocks follow each other from index on.\<close>

function missing_run :: "block_cache \<Rightarrow> nat \<Rightarrow> nat \<Rightarrow> nat \<Rightarrow> nat \<Rightarrow> nat" where
  "missing_run c max_run_blocks last_index index count =
     (if count < max_run_blocks \<and> index + count \<le> last_index \<and> \<not> ContainsBlock c (index + count)
      then missing_run c max_run_blocks last_index index (count + 1) else count)"
  by pat_completeness auto
termination
  by (relation "measure (\<lambda>(c, max_run_blocks, last_index, index, count). max_run_blocks - count)") auto

declare missing_run.simps [simp del]

definition ReadRun :: "disk_reader \<Rightarrow> cache_tuning \<Rightarrow> nat \<Rightarrow> block_cache \<Rightarrow> run_loader \<Rightarrow> bool \<times> run_loader" where
  "ReadRun disk tuning index c ld =
    (let bb = BlockBytesOf tuning;
         count = missing_run c (MaxRunBytesOf tuning div bb) (ld_last_index ld) index 1
     in if count = 1 \<or> ld_failed ld then (False, ld)
        else
          case disk (int (index * bb)) (count * bb) of
            None \<Rightarrow> (False, ld\<lparr>ld_failed := True\<rparr>)
          | Some bytes \<Rightarrow> (True, ld\<lparr>ld_run_first := index, ld_run_count := count, ld_run_bytes := bytes\<rparr>))"

text \<open>RunBlockLoader::Get(), for the block at index.\<close>

definition take_from_run :: "cache_tuning \<Rightarrow> nat \<Rightarrow> run_loader \<Rightarrow> block_cache \<Rightarrow> byte list option \<times> run_loader \<times> block_cache" where
  "take_from_run tuning index ld c =
    (let bb = BlockBytesOf tuning;
         block = take bb (drop ((index - ld_run_first ld) * bb) (ld_run_bytes ld));
         c = InsertBlock c index block
     in (Some block, (if index - ld_run_first ld + 1 = ld_run_count ld then ld\<lparr>ld_run_count := 0\<rparr> else ld), c))"

definition GetBlock :: "disk_reader \<Rightarrow> cache_tuning \<Rightarrow> nat \<Rightarrow> run_loader \<Rightarrow> block_cache \<Rightarrow> byte list option \<times> run_loader \<times> block_cache" where
  "GetBlock disk tuning index ld c =
    (let bb = BlockBytesOf tuning
     in case FindBlock c index of
          (Some hit, c) \<Rightarrow> (Some (cb_bytes hit), ld, c)
        | (None, c) \<Rightarrow>
            if ld_run_count ld \<noteq> 0 \<and> index \<ge> ld_run_first ld \<and> index - ld_run_first ld < ld_run_count ld
            then take_from_run tuning index ld c
            else
              case ReadRun disk tuning index c ld of
                (True, ld) \<Rightarrow> take_from_run tuning index ld c
              | (False, ld) \<Rightarrow>
                  (case GetOrLoad c index (disk (int (index * bb)) bb) of (block, c) \<Rightarrow> (block, ld, c)))"

section \<open>Read\<close>

definition ReadNoCache :: "disk_reader \<Rightarrow> int \<Rightarrow> nat \<Rightarrow> byte list option" where
  "ReadNoCache disk addr len = disk addr len"

definition ReadUncached :: "disk_reader \<Rightarrow> int \<Rightarrow> nat \<Rightarrow> block_cache \<Rightarrow> cache_view option \<times> block_cache" where
  "ReadUncached disk addr len c =
    (let c = NewStitched len c
     in case disk addr len of
          None \<Rightarrow> (None, DropStitched len c)
        | Some bytes \<Rightarrow> (Some \<lparr>vw_bytes = bytes, vw_owner = OwnsBuffer len\<rparr>, Trim c))"

text \<open>
  The slow path of Read(): the range, one block at a time. A block is held while it is copied and
  while the cache is trimmed after it.
\<close>

function stitch_loop ::
  "disk_reader \<Rightarrow> cache_tuning \<Rightarrow> nat \<Rightarrow> nat \<Rightarrow> byte list \<Rightarrow> run_loader \<Rightarrow> block_cache \<Rightarrow> byte list option \<times> block_cache" where
  "stitch_loop disk tuning cur remaining out ld c =
    (if remaining = 0 then (Some out, c)
     else
       case GetBlock disk tuning (cur div BlockBytesOf tuning) ld c of
         (None, ld, c) \<Rightarrow> (None, c)
       | (Some block, ld, c) \<Rightarrow>
           let offset_in_block = cur mod BlockBytesOf tuning;
               chunk = min (BlockBytesOf tuning - offset_in_block) remaining;
               index = cur div BlockBytesOf tuning
           in stitch_loop disk tuning (cur + chunk) (remaining - chunk)
                (out @ take chunk (drop offset_in_block block)) ld (ReleaseBlock index (Trim (HoldBlock index c))))"
  by pat_completeness auto
termination
  by (relation "measure (\<lambda>(disk, tuning, cur, remaining, out, ld, c). remaining)")
    (auto simp: BlockBytesOf_def min_block_bytes_def mod_less_divisor)

declare stitch_loop.simps [simp del]

definition ReadFullCache :: "disk_reader \<Rightarrow> cache_tuning \<Rightarrow> int \<Rightarrow> nat \<Rightarrow> block_cache \<Rightarrow> cache_view option \<times> block_cache" where
  "ReadFullCache disk tuning addr len c =
    (if len = 0 then (Some \<lparr>vw_bytes = [], vw_owner = OwnsNothing\<rparr>, c)
     else if addr < 0 \<or> addr > int llong_top - int len then (None, c)
     else
       let bb = BlockBytesOf tuning;
           a = nat addr;
           last_index = (a + len - 1) div bb;
           ld = new_loader last_index
       in if a div bb = (a + len - 1) div bb then
            case GetBlock disk tuning (a div bb) ld c of
              (None, ld, c) \<Rightarrow> ReadUncached disk addr len c
            | (Some block, ld, c) \<Rightarrow>
                (Some \<lparr>vw_bytes = take len (drop (a mod bb) block), vw_owner = OwnsBlock (a div bb)\<rparr>,
                 Trim (HoldBlock (a div bb) c))
          else
            case stitch_loop disk tuning a len [] ld (NewStitched len c) of
              (None, c) \<Rightarrow>
                (case ReadUncached disk addr len c of (view, c) \<Rightarrow> (view, DropStitched len c))
            | (Some out, c) \<Rightarrow> (Some \<lparr>vw_bytes = out, vw_owner = OwnsBuffer len\<rparr>, Trim c))"

section \<open>The reads a volume makes\<close>

text \<open>
  MakeCache() and NtfsVolume::Read(): the cache is null under NoCache. The caller of Read() copies
  the bytes out and lets the view go.
\<close>

definition MakeCache :: "bool \<Rightarrow> cache_tuning \<Rightarrow> u64 \<Rightarrow> block_cache option" where
  "MakeCache full_cache tuning max_cache_bytes =
     (if full_cache then Some (new_block_cache (BlockBytesOf tuning) max_cache_bytes) else None)"

definition ReadVolume :: "disk_reader \<Rightarrow> cache_tuning \<Rightarrow> block_cache option \<Rightarrow> int \<Rightarrow> nat \<Rightarrow> byte list option \<times> block_cache option" where
  "ReadVolume disk tuning cache addr len =
    (case cache of
       None \<Rightarrow> (ReadNoCache disk addr len, None)
     | Some c \<Rightarrow>
         (case ReadFullCache disk tuning addr len c of
            (None, c) \<Rightarrow> (None, Some c)
          | (Some view, c) \<Rightarrow> (Some (vw_bytes view), Some (DropView view c))))"

section \<open>Announcements\<close>

text \<open>
  Prefetch(), PrefetchStanding() and CancelStanding(): the ranges handed to the reader as hints, in
  order. The bounds of AnnounceRuns() keep every address below 2^63. \<open>None\<close> for the cache is
  NoCache.
\<close>

type_synonym byte_range = "nat \<times> nat"

definition max_checked_blocks :: nat where "max_checked_blocks = 4096"

text \<open>The loop of AnnounceUncachedBlocks() over the blocks from at to end, with the run it has open.\<close>

fun uncached_runs :: "nat \<Rightarrow> block_cache \<Rightarrow> nat list \<Rightarrow> nat \<Rightarrow> nat option \<Rightarrow> byte_range list" where
  "uncached_runs block c [] end_addr run_start =
     (case run_start of None \<Rightarrow> [] | Some s \<Rightarrow> [(s, end_addr - s)])"
| "uncached_runs block c (at # rest) end_addr run_start =
     (let cached = ContainsBlock c (at div block)
      in case run_start of
           Some s \<Rightarrow> if cached then (s, at - s) # uncached_runs block c rest end_addr None
                     else uncached_runs block c rest end_addr (Some s)
         | None \<Rightarrow> uncached_runs block c rest end_addr (if cached then None else Some at))"

text \<open>The addresses a loop visits from first on, by steps of a block, below end.\<close>

definition block_addresses :: "nat \<Rightarrow> nat \<Rightarrow> nat \<Rightarrow> nat list" where
  "block_addresses block first end_addr = map (\<lambda>k. first + k * block) [0..<(end_addr - first + block - 1) div block]"

definition AnnounceUncachedBlocks :: "nat \<Rightarrow> block_cache \<Rightarrow> nat \<Rightarrow> nat \<Rightarrow> byte_range list" where
  "AnnounceUncachedBlocks block c first end_addr = uncached_runs block c (block_addresses block first end_addr) end_addr None"

definition AnnounceRuns :: "cache_tuning \<Rightarrow> block_cache option \<Rightarrow> u64 \<Rightarrow> u64 \<Rightarrow> byte_range list" where
  "AnnounceRuns tuning cache offset len =
    (if len = 0 then []
     else
       case cache of
         None \<Rightarrow> [(unat offset, unat len)]
       | Some c \<Rightarrow>
           let block = BlockBytesOf tuning;
               max_end = llong_top - block
           in if unat offset > max_end \<or> unat len > max_end - unat offset then []
              else
                let first = unat offset - unat offset mod block;
                    last_addr = unat offset + unat len + block - 1;
                    end_addr = last_addr - last_addr mod block
                in if (end_addr - first) div block > max_checked_blocks then [(first, end_addr - first)]
                   else AnnounceUncachedBlocks block c first end_addr)"

definition CancelStanding :: "cache_tuning \<Rightarrow> bool \<Rightarrow> u64 \<Rightarrow> u64 \<Rightarrow> byte_range option" where
  "CancelStanding tuning full_cache offset len =
    (if len = 0 then None
     else if full_cache then
       let max_value = 18446744073709551615;
           block = BlockBytesOf tuning;
           first = unat offset - unat offset mod block;
           end_addr = (if unat offset \<le> max_value - (block - 1) \<and> unat len \<le> max_value - (block - 1) - unat offset
                       then (let last_addr = unat offset + unat len + block - 1 in last_addr - last_addr mod block)
                       else max_value)
       in Some (first, end_addr - first)
     else Some (unat offset, unat len))"

section \<open>The cache does not change what a read answers\<close>

text \<open>The reader of a medium: a read gives the bytes of its range when all of them can be read.\<close>

definition reads_medium :: "disk_reader \<Rightarrow> (nat \<Rightarrow> byte option) \<Rightarrow> bool" where
  "reads_medium disk content \<longleftrightarrow> (\<forall>a n. 0 < n \<longrightarrow> disk (int a) n = medium_range content a n)"

definition run_true :: "(nat \<Rightarrow> byte option) \<Rightarrow> cache_tuning \<Rightarrow> run_loader \<Rightarrow> bool" where
  "run_true content tuning ld \<longleftrightarrow> ld_run_count ld \<noteq> 0 \<longrightarrow>
     medium_range content (ld_run_first ld * BlockBytesOf tuning) (ld_run_count ld * BlockBytesOf tuning) = Some (ld_run_bytes ld)"

text \<open>The state between two blocks of one read.\<close>

definition reading_ok :: "(nat \<Rightarrow> byte option) \<Rightarrow> cache_tuning \<Rightarrow> run_loader \<Rightarrow> block_cache \<Rightarrow> bool" where
  "reading_ok content tuning ld c \<longleftrightarrow>
     cache_ok content c \<and> bc_block_bytes c = BlockBytesOf tuning \<and> run_true content tuning ld"

lemma BlockBytes_pos [simp]: "0 < BlockBytesOf tuning"
  by (simp add: BlockBytesOf_def min_block_bytes_def)

lemma take_from_run_ok:
  assumes "reading_ok content tuning ld c" "take_from_run tuning index ld c = (block, ld', c')"
    and "ld_run_count ld \<noteq> 0" "ld_run_first ld \<le> index" "index - ld_run_first ld < ld_run_count ld"
  shows "reading_ok content tuning ld' c' \<and>
    block = medium_range content (index * BlockBytesOf tuning) (BlockBytesOf tuning) \<and> block \<noteq> None"
proof -
  let ?bb = "BlockBytesOf tuning"
  let ?off = "(index - ld_run_first ld) * ?bb"
  have run: "medium_range content (ld_run_first ld * ?bb) (ld_run_count ld * ?bb) = Some (ld_run_bytes ld)"
    and bytes: "bc_block_bytes c = ?bb" and ok: "cache_ok content c"
    using assms(1,3) by (auto simp: reading_ok_def run_true_def)
  have "Suc (index - ld_run_first ld) * ?bb \<le> ld_run_count ld * ?bb" using assms(5) by (intro mult_le_mono1) simp
  then have "?off + ?bb \<le> ld_run_count ld * ?bb" by simp
  from medium_range_part [OF run this]
  have part: "medium_range content (index * ?bb) ?bb = Some (take ?bb (drop ?off (ld_run_bytes ld)))"
    using assms(4) by (simp flip: add_mult_distrib)
  have "cache_ok content (InsertBlock c index (take ?bb (drop ?off (ld_run_bytes ld))))"
    using InsertBlock_ok [OF ok] part bytes by simp
  moreover have "bc_block_bytes (InsertBlock c index block') = bc_block_bytes c" for block'
    by (simp add: InsertBlock_def)
  moreover have "run_true content tuning ld'" "block = Some (take ?bb (drop ?off (ld_run_bytes ld)))"
    "c' = InsertBlock c index (take ?bb (drop ?off (ld_run_bytes ld)))"
    using assms(1,2) by (auto simp: take_from_run_def Let_def reading_ok_def run_true_def)
  ultimately show ?thesis using part bytes by (simp add: reading_ok_def)
qed

lemma ReadRun_ok:
  assumes "reads_medium disk content" "reading_ok content tuning ld c" "ReadRun disk tuning index c ld = (done_run, ld')"
  shows "reading_ok content tuning ld' c \<and>
    (done_run \<longrightarrow> ld_run_first ld' = index \<and> ld_run_count ld' \<noteq> 0)"
proof -
  have pos: "1 \<le> missing_run c m l index k" if "1 \<le> k" for m l k
    using that by (induction c m l index k rule: missing_run.induct) (subst missing_run.simps, simp)
  then have "missing_run c m l index 1 \<noteq> 0" for m l by (metis le_refl not_one_le_zero)
  then show ?thesis
    using assms
    by (auto simp: ReadRun_def Let_def reads_medium_def reading_ok_def run_true_def simp del: of_nat_mult
        split: if_splits option.splits)
qed

lemma GetBlock_ok:
  assumes "reads_medium disk content" "reading_ok content tuning ld c" "GetBlock disk tuning index ld c = (block, ld', c')"
  shows "reading_ok content tuning ld' c' \<and> block = medium_range content (index * BlockBytesOf tuning) (BlockBytesOf tuning)"
proof -
  have c: "cache_ok content c" "bc_block_bytes c = BlockBytesOf tuning" using assms(2) by (auto simp: reading_ok_def)
  obtain hit c1 where f: "FindBlock c index = (hit, c1)" by (cases "FindBlock c index")
  note found = FindBlock_ok [OF f c(1)]
  show ?thesis
  proof (cases hit)
    case (Some b)
    then show ?thesis using assms(2,3) f found(1,2) found(3) [OF Some] c(2) by (auto simp: GetBlock_def reading_ok_def)
  next
    case None
    then have same: "c1 = c" using found(5) by simp
    show ?thesis
    proof (cases "ld_run_count ld \<noteq> 0 \<and> index \<ge> ld_run_first ld \<and> index - ld_run_first ld < ld_run_count ld")
      case True
      then have "take_from_run tuning index ld c = (block, ld', c')" using assms(3) f None same by (simp add: GetBlock_def)
      from take_from_run_ok [OF assms(2) this] True show ?thesis by simp
    next
      case False
      obtain run ld1 where r: "ReadRun disk tuning index c ld = (run, ld1)" by (cases "ReadRun disk tuning index c ld")
      note rr = ReadRun_ok [OF assms(1,2) r]
      show ?thesis
      proof (cases run)
        case True
        then have "take_from_run tuning index ld1 c = (block, ld', c')"
          using assms(3) f None same False r by (auto simp: GetBlock_def)
        from take_from_run_ok [OF _ this] rr True show ?thesis by simp
      next
        case run: False
        define rd where "rd = disk (int (index * BlockBytesOf tuning)) (BlockBytesOf tuning)"
        have load: "GetOrLoad c index rd = (block, c')" "ld' = ld1"
          using assms(3) f None same False r run
          by (auto simp: GetBlock_def Let_def rd_def simp del: of_nat_mult split: prod.splits)
        have rd: "rd = medium_range content (index * BlockBytesOf tuning) (BlockBytesOf tuning)"
          using assms(1) unfolding reads_medium_def rd_def by (simp del: of_nat_mult)
        have "reading_ok content tuning ld1 c' \<and> block = rd"
        proof (cases rd)
          case no: None
          then show ?thesis using load(1) f None same rr by (simp add: GetOrLoad_def)
        next
          case (Some bytes)
          then have "c' = InsertBlock c index bytes" "block = rd" using load(1) f None same by (auto simp: GetOrLoad_def)
          moreover have "cache_ok content (InsertBlock c index bytes)"
            using InsertBlock_ok [OF c(1), of index bytes] Some rd c(2) by simp
          moreover have "bc_block_bytes (InsertBlock c index bytes) = bc_block_bytes c" by (simp add: InsertBlock_def)
          ultimately show ?thesis using rr by (simp add: reading_ok_def)
        qed
        then show ?thesis using load(2) rd by simp
      qed
    qed
  qed
qed

lemma reading_ok_steps:
  "reading_ok content tuning ld c \<Longrightarrow> reading_ok content tuning ld (ReleaseBlock i (Trim (HoldBlock i c)))"
proof -
  have trim: "bc_block_bytes (trim_from order d) = bc_block_bytes d" for order d
    by (induction order d rule: trim_from.induct) (simp_all add: erase_block_def)
  show "reading_ok content tuning ld c \<Longrightarrow> reading_ok content tuning ld (ReleaseBlock i (Trim (HoldBlock i c)))"
    by (simp add: reading_ok_def) (simp add: Trim_def trim ReleaseBlock_def HoldBlock_def set_holders_def)
qed

lemma Trim_block_bytes [simp]: "bc_block_bytes (Trim c) = bc_block_bytes c"
proof -
  have "bc_block_bytes (trim_from order d) = bc_block_bytes d" for order d
    by (induction order d rule: trim_from.induct) (simp_all add: erase_block_def)
  then show ?thesis by (simp add: Trim_def)
qed

lemma block_bytes_steps [simp]:
  "bc_block_bytes (HoldBlock i c) = bc_block_bytes c"
  "bc_block_bytes (ReleaseBlock i c) = bc_block_bytes c"
  "bc_block_bytes (NewStitched n c) = bc_block_bytes c"
  "bc_block_bytes (DropStitched n c) = bc_block_bytes c"
  by (simp_all add: HoldBlock_def ReleaseBlock_def set_holders_def NewStitched_def DropStitched_def)

lemma ReadUncached_ok:
  assumes "cache_ok content c" "ReadUncached disk addr len c = (r, c')"
  shows "cache_ok content c' \<and> bc_block_bytes c' = bc_block_bytes c \<and> map_option vw_bytes r = disk addr len"
  using assms by (auto simp: ReadUncached_def Let_def split: option.splits)

lemma part_of_block:
  assumes "medium_range content (cur div bb * bb) bb = Some block" "0 < bb" "m \<le> bb - cur mod bb"
  shows "medium_range content cur m = Some (take m (drop (cur mod bb) block))"
proof -
  have "cur mod bb + m \<le> bb" using assms(2,3) mod_less_divisor [of bb cur] by linarith
  from medium_range_part [OF assms(1) this] show ?thesis by simp
qed

lemma stitch_loop_ok:
  "reads_medium disk content \<Longrightarrow> reading_ok content tuning ld c \<Longrightarrow> medium_range content a (cur - a) = Some out \<Longrightarrow>
     a \<le> cur \<Longrightarrow> stitch_loop disk tuning cur remaining out ld c = (r, c') \<Longrightarrow>
     cache_ok content c' \<and> bc_block_bytes c' = bc_block_bytes c \<and>
     (case r of None \<Rightarrow> True | Some bytes \<Rightarrow> medium_range content a (cur - a + remaining) = Some bytes)"
proof (induction disk tuning cur remaining out ld c rule: stitch_loop.induct)
  case (1 disk tuning cur remaining out ld c)
  note eq = "1.prems"(5) [unfolded stitch_loop.simps [of disk tuning cur remaining out ld c]]
  show ?case
  proof (cases "remaining = 0")
    case True
    then have "r = Some out" "c' = c" using eq by simp_all
    then show ?thesis using True "1.prems"(2,3) by (simp add: reading_ok_def)
  next
    case False
    let ?bb = "BlockBytesOf tuning"
    obtain b ld1 c1 where g: "GetBlock disk tuning (cur div ?bb) ld c = (b, ld1, c1)"
      by (cases "GetBlock disk tuning (cur div ?bb) ld c") auto
    note got = GetBlock_ok [OF "1.prems"(1,2) g]
    have bytes: "bc_block_bytes c1 = bc_block_bytes c" "cache_ok content c1"
      using got "1.prems"(2) by (simp_all add: reading_ok_def)
    show ?thesis
    proof (cases b)
      case None
      then show ?thesis using eq False g bytes by simp
    next
      case (Some block)
      define chunk where "chunk = min (?bb - cur mod ?bb) remaining"
      let ?out = "out @ take chunk (drop (cur mod ?bb) block)"
      let ?c = "ReleaseBlock (cur div ?bb) (Trim (HoldBlock (cur div ?bb) c1))"
      have rest: "stitch_loop disk tuning (cur + chunk) (remaining - chunk) ?out ld1 ?c = (r, c')"
        using eq False g Some by (simp add: Let_def chunk_def)
      have "medium_range content (cur div ?bb * ?bb) ?bb = Some block" using got Some by simp
      from part_of_block [OF this] have "medium_range content cur chunk = Some (take chunk (drop (cur mod ?bb) block))"
        by (simp add: chunk_def)
      then have "medium_range content a (cur + chunk - a) = Some ?out"
        using medium_range_append [OF "1.prems"(3), of chunk] "1.prems"(4) by simp
      note grown = this
      have "cache_ok content c' \<and> bc_block_bytes c' = bc_block_bytes ?c \<and>
          (case r of None \<Rightarrow> True | Some bytes \<Rightarrow> medium_range content a (cur + chunk - a + (remaining - chunk)) = Some bytes)"
        using "1.prems"(4) reading_ok_steps got
        by (intro "1.IH" [OF False g [symmetric] Some refl refl chunk_def refl "1.prems"(1) _ grown _ rest]) simp_all
      moreover have "cur + chunk - a + (remaining - chunk) = cur - a + remaining"
        using "1.prems"(4) by (simp add: chunk_def)
      ultimately show ?thesis using bytes by (auto split: option.splits)
    qed
  qed
qed

text \<open>What a read of the medium answers, whatever the cache: FullCache refuses a range past 2^63.\<close>

definition read_answer :: "(nat \<Rightarrow> byte option) \<Rightarrow> nat \<Rightarrow> nat \<Rightarrow> byte list option" where
  "read_answer content a len = (if len \<noteq> 0 \<and> a + len > llong_top then None else medium_range content a len)"

lemma ReadFullCache_ok:
  assumes disk: "reads_medium disk content" and c: "cache_ok content c" "bc_block_bytes c = BlockBytesOf tuning"
    and read: "ReadFullCache disk tuning (int a) len c = (r, c')"
  shows "cache_ok content c' \<and> bc_block_bytes c' = bc_block_bytes c \<and> map_option vw_bytes r = read_answer content a len"
proof (cases "len = 0 \<or> a + len > llong_top")
  case True
  then show ?thesis using read c by (auto simp: ReadFullCache_def read_answer_def medium_range_def)
next
  case False
  let ?bb = "BlockBytesOf tuning"
  let ?ld = "new_loader ((a + len - 1) div ?bb)"
  have guard: "\<not> len = 0" "\<not> (int a < 0 \<or> int a > int llong_top - int len)" using False by auto
  have exact: "disk (int a) len = medium_range content a len" using disk False by (simp add: reads_medium_def)
  have answer: "read_answer content a len = medium_range content a len" using False by (auto simp: read_answer_def)
  have start: "reading_ok content tuning ?ld d" if "cache_ok content d" "bc_block_bytes d = ?bb" for d
    using that by (simp add: reading_ok_def run_true_def new_loader_def)
  note eq = read [unfolded ReadFullCache_def Let_def if_not_P [OF guard(1)] if_not_P [OF guard(2)] nat_int]
  show ?thesis
  proof (cases "a div ?bb = (a + len - 1) div ?bb")
    case one: True
    obtain b ld1 c1 where g: "GetBlock disk tuning (a div ?bb) ?ld c = (b, ld1, c1)"
      by (cases "GetBlock disk tuning (a div ?bb) ?ld c") auto
    note got = GetBlock_ok [OF disk start [OF c] g]
    show ?thesis
    proof (cases b)
      case None
      then have "ReadUncached disk (int a) len c1 = (r, c')" using eq one g by simp
      from ReadUncached_ok [OF _ this, of content] show ?thesis using got c exact answer by (simp add: reading_ok_def)
    next
      case (Some block)
      then have r: "r = Some \<lparr>vw_bytes = take len (drop (a mod ?bb) block), vw_owner = OwnsBlock (a div ?bb)\<rparr>"
        "c' = Trim (HoldBlock (a div ?bb) c1)" using eq one g by simp_all
      have "a + len - 1 < ((a + len - 1) div ?bb + 1) * ?bb"
        using dividend_less_div_times [of ?bb "a + len - 1"] by simp
      then have "a + len \<le> (a div ?bb) * ?bb + ?bb" using one guard(1) by simp
      then have "len \<le> ?bb - a mod ?bb" using div_mult_mod_eq [of a ?bb] by linarith
      from part_of_block [OF _ BlockBytes_pos this] got Some
      have "medium_range content a len = Some (take len (drop (a mod ?bb) block))" by simp
      then show ?thesis using r got c answer by (simp add: reading_ok_def)
    qed
  next
    case many: False
    obtain s c1 where g: "stitch_loop disk tuning a len [] ?ld (NewStitched len c) = (s, c1)"
      by (cases "stitch_loop disk tuning a len [] ?ld (NewStitched len c)")
    have "medium_range content a (a - a) = Some []" by (simp add: medium_range_def)
    from stitch_loop_ok [OF disk start this _ g] c
    have got: "cache_ok content c1" "bc_block_bytes c1 = ?bb"
      "s = Some bytes \<Longrightarrow> medium_range content a len = Some bytes" for bytes
      by simp_all
    show ?thesis
    proof (cases s)
      case None
      obtain v c2 where u: "ReadUncached disk (int a) len c1 = (v, c2)" by (cases "ReadUncached disk (int a) len c1")
      from ReadUncached_ok [OF got(1) u] show ?thesis
        using eq many g None u c got(2) exact answer by auto
    next
      case (Some out)
      then show ?thesis using eq many g c got answer by auto
    qed
  qed
qed

text \<open>The caches a volume can have: reads, views that go or are copied, and Minify(), in any order.\<close>

inductive cache_reached :: "disk_reader \<Rightarrow> cache_tuning \<Rightarrow> u64 \<Rightarrow> block_cache \<Rightarrow> bool"
  for disk :: disk_reader and tuning :: cache_tuning and ceiling :: u64 where
  fresh: "cache_reached disk tuning ceiling (new_block_cache (BlockBytesOf tuning) ceiling)"
| read: "cache_reached disk tuning ceiling c \<Longrightarrow> ReadFullCache disk tuning addr len c = (view, c') \<Longrightarrow>
    cache_reached disk tuning ceiling c'"
| drop: "cache_reached disk tuning ceiling c \<Longrightarrow> cache_reached disk tuning ceiling (DropView view c)"
| copy: "cache_reached disk tuning ceiling c \<Longrightarrow> cache_reached disk tuning ceiling (CopyView view c)"
| minify: "cache_reached disk tuning ceiling c \<Longrightarrow> cache_reached disk tuning ceiling (Minify c)"

lemma cache_reached_ok:
  assumes "reads_medium disk content"
  shows "cache_reached disk tuning ceiling c \<Longrightarrow> cache_ok content c \<and> bc_block_bytes c = BlockBytesOf tuning"
proof (induction rule: cache_reached.induct)
  case fresh
  then show ?case by (simp add: cache_ok_new) (simp add: new_block_cache_def)
next
  case (read c addr len view c')
  show ?case
  proof (cases "addr < 0")
    case True
    then have "c' = c" using read.hyps(2) by (auto simp: ReadFullCache_def split: if_splits)
    then show ?thesis using read.IH by simp
  next
    case False
    then have "ReadFullCache disk tuning (int (nat addr)) len c = (view, c')" using read.hyps(2) by simp
    from ReadFullCache_ok [OF assms _ _ this] read.IH show ?thesis by simp
  qed
next
  case (drop c view)
  then show ?case using DropView_ok [of content c view] by (simp add: DropView_def split: view_owner.split)
next
  case (copy c view)
  then show ?case using CopyView_ok [of content c view] by (simp add: CopyView_def split: view_owner.split)
next
  case (minify c)
  have "bc_block_bytes (minify_from order d) = bc_block_bytes d" for order d
    by (induction order d rule: minify_from.induct) (simp_all add: erase_block_def)
  then show ?case using minify by simp (simp add: Minify_def)
qed

text \<open>
  C12. The cache never changes what a read answers: after any history of reads, of views dropped or
  copied and of Minify(), whatever the ceiling and the tuning, a read below 2^63 through the cache
  gives the bytes of the uncached read, and fails exactly where the uncached read fails.
\<close>

theorem cached_read_exact:
  assumes "reads_medium disk content" "cache_reached disk tuning ceiling c" "0 < len" "a + len \<le> llong_top"
  shows "map_option vw_bytes (fst (ReadFullCache disk tuning (int a) len c)) = ReadNoCache disk (int a) len"
proof -
  obtain r c' where read: "ReadFullCache disk tuning (int a) len c = (r, c')"
    by (cases "ReadFullCache disk tuning (int a) len c")
  note ok = cache_reached_ok [OF assms(1,2)]
  from ReadFullCache_ok [OF assms(1) _ _ read] ok
  have "map_option vw_bytes r = read_answer content a len" by blast
  moreover have "disk (int a) len = medium_range content a len" using assms(1,3) by (simp add: reads_medium_def)
  ultimately show ?thesis using assms(4) read by (simp add: ReadNoCache_def read_answer_def)
qed

section \<open>The contract of a volume\<close>

text \<open>
  What the streams of a volume rely on: while \<open>inv\<close> holds of the state of the reader, a read answers
  the bytes of a fixed medium, which ends below 2^63, and keeps \<open>inv\<close>.
\<close>

locale volume_reader =
  fixes vread :: "'v \<Rightarrow> int \<Rightarrow> nat \<Rightarrow> byte list option \<times> 'v"
    and inv :: "'v \<Rightarrow> bool"
    and content :: "nat \<Rightarrow> byte option"
  assumes read_exact: "inv v \<Longrightarrow> 0 < n \<Longrightarrow> vread v (int a) n = (r, v') \<Longrightarrow> inv v' \<and> r = medium_range content a n"
    and content_ends: "llong_top \<le> a \<Longrightarrow> content a = None"

text \<open>A medium cut at 2^63 - 1 bytes, its reader, and the caches that hold a part of it.\<close>

definition below_top :: "(nat \<Rightarrow> byte option) \<Rightarrow> nat \<Rightarrow> byte option" where
  "below_top content a = (if a < llong_top then content a else None)"

definition medium_disk :: "(nat \<Rightarrow> byte option) \<Rightarrow> disk_reader" where
  "medium_disk content addr n = (if addr < 0 then None else medium_range (below_top content) (nat addr) n)"

definition reader_ok :: "(nat \<Rightarrow> byte option) \<Rightarrow> cache_tuning \<Rightarrow> block_cache option \<Rightarrow> bool" where
  "reader_ok content tuning cache \<longleftrightarrow>
     (case cache of None \<Rightarrow> True
      | Some c \<Rightarrow> cache_ok (below_top content) c \<and> bc_block_bytes c = BlockBytesOf tuning)"

lemma medium_disk_reads: "reads_medium (medium_disk content) (below_top content)"
  by (simp add: reads_medium_def medium_disk_def)

lemma read_answer_below: "0 < n \<Longrightarrow> read_answer (below_top content) a n = medium_range (below_top content) a n"
proof -
  have "medium_range (below_top content) a n = None" if "0 < n" "llong_top < a + n"
    unfolding medium_range_None using that by (intro exI [of _ "n - 1"]) (auto simp: below_top_def)
  then show "0 < n \<Longrightarrow> ?thesis" by (auto simp: read_answer_def)
qed

lemma ReadVolume_ok:
  assumes "reader_ok content tuning cache" "0 < n" "ReadVolume (medium_disk content) tuning cache (int a) n = (r, cache')"
  shows "reader_ok content tuning cache' \<and> r = medium_range (below_top content) a n"
proof (cases cache)
  case None
  then show ?thesis using assms medium_disk_reads [of content]
    by (auto simp: ReadVolume_def ReadNoCache_def reader_ok_def reads_medium_def)
next
  case (Some c)
  obtain v c1 where read: "ReadFullCache (medium_disk content) tuning (int a) n c = (v, c1)"
    by (cases "ReadFullCache (medium_disk content) tuning (int a) n c")
  have c: "cache_ok (below_top content) c" "bc_block_bytes c = BlockBytesOf tuning"
    using assms(1) Some by (simp_all add: reader_ok_def)
  note ok = ReadFullCache_ok [OF medium_disk_reads c read] read_answer_below [OF assms(2), of content a]
  have drop: "bc_block_bytes (DropView view d) = bc_block_bytes d" for view d
    by (simp add: DropView_def split: view_owner.split)
  show ?thesis using assms(3) Some read ok DropView_ok c
    by (auto simp: ReadVolume_def reader_ok_def drop split: option.splits)
qed

interpretation vol: volume_reader "ReadVolume (medium_disk content) tuning" "reader_ok content tuning" "below_top content"
  for content tuning
  by unfold_locales (auto simp: below_top_def dest: ReadVolume_ok)

section \<open>What is announced\<close>

lemma uncached_runs_cover:
  assumes "0 < block"
  shows "ats = map (\<lambda>k. at + k * block) [0..<n] \<Longrightarrow> end_addr = at + n * block \<Longrightarrow>
    (\<forall>s. run_start = Some s \<longrightarrow> s < at) \<Longrightarrow> block dvd at \<Longrightarrow>
    (\<exists>(start, len) \<in> set (uncached_runs block c ats end_addr run_start). start \<le> x \<and> x < start + len) \<longleftrightarrow>
      (\<exists>s. run_start = Some s \<and> s \<le> x \<and> x < at) \<or> (at \<le> x \<and> x < end_addr \<and> \<not> ContainsBlock c (x div block))"
proof (induction ats arbitrary: at n run_start)
  case Nil
  then have "n = 0" by simp
  then show ?case using Nil by (auto split: option.splits)
next
  case (Cons a rest)
  then obtain m where n: "n = Suc m" by (cases n) auto
  have up: "[0..<Suc m] = 0 # map Suc [0..<m]" by (simp add: map_Suc_upt upt_conv_Cons del: upt_Suc)
  have a: "a = at" and rest: "rest = map (\<lambda>k. (at + block) + k * block) [0..<m]"
    using Cons.prems(1) unfolding n up by (simp_all add: comp_def algebra_simps)
  have fin: "end_addr = (at + block) + m * block" using Cons.prems(2) n by (simp add: algebra_simps)
  have dvd: "block dvd at + block" using Cons.prems(4) by simp
  have here: "ContainsBlock c (x div block) \<longleftrightarrow> ContainsBlock c (at div block)" if "at \<le> x" "x < at + block"
  proof -
    obtain q where q: "at = block * q" using Cons.prems(4) by blast
    then have "x div block = q" using that assms by (intro div_nat_eqI) (simp_all add: algebra_simps)
    then show ?thesis using q assms by simp
  qed
  have IH: "(\<exists>(start, len) \<in> set (uncached_runs block c rest end_addr r). start \<le> x \<and> x < start + len) \<longleftrightarrow>
      (\<exists>s. r = Some s \<and> s \<le> x \<and> x < at + block) \<or> (at + block \<le> x \<and> x < end_addr \<and> \<not> ContainsBlock c (x div block))"
    if "\<forall>s. r = Some s \<longrightarrow> s < at + block" for r
    by (rule Cons.IH [OF rest fin that dvd])
  have top: "at + block \<le> end_addr" using fin by simp
  show ?case
  proof (cases run_start)
    case None
    show ?thesis
      using IH [of None] IH [of "Some at"] None here top assms
      by (cases "ContainsBlock c (at div block)") (auto simp: a)
  next
    case (Some s)
    then have s: "s < at" using Cons.prems(3) by simp
    show ?thesis
      using IH [of None] IH [of "Some s"] Some here top assms s
      by (cases "ContainsBlock c (at div block)") (auto simp: a)
  qed
qed

lemma round_up_block:
  assumes "0 < (b :: nat)" "0 < n"
  shows "n + b - 1 - (n + b - 1) mod b = ((n - 1) div b + 1) * b"
proof -
  have "n + b - 1 = (n - 1) + b" using assms by simp
  then have "n + b - 1 - (n + b - 1) mod b = (n - 1 + b) div b * b" by (simp only: minus_mod_eq_div_mult)
  also have "(n - 1 + b) div b * b = ((n - 1) div b + 1) * b" using assms(1) by (subst div_add_self2) simp_all
  finally show ?thesis .
qed

text \<open>
  What a FullCache volume announces for a range: exactly the bytes of the blocks the range touches
  that the cache does not hold, so that no byte is read for nothing.
\<close>

lemma announced_exact:
  assumes "unat offset + unat len + BlockBytesOf tuning \<le> llong_top" "len \<noteq> 0"
    and few: "(unat offset + unat len - 1) div BlockBytesOf tuning - unat offset div BlockBytesOf tuning < max_checked_blocks"
  shows "(\<exists>(start, n) \<in> set (AnnounceRuns tuning (Some c) offset len). start \<le> x \<and> x < start + n) \<longleftrightarrow>
    unat offset div BlockBytesOf tuning \<le> x div BlockBytesOf tuning \<and>
    x div BlockBytesOf tuning \<le> (unat offset + unat len - 1) div BlockBytesOf tuning \<and>
    \<not> ContainsBlock c (x div BlockBytesOf tuning)"
proof -
  define b where "b = BlockBytesOf tuning"
  define i where "i = unat offset div b"
  define j where "j = (unat offset + unat len - 1) div b"
  have b: "0 < b" by (simp add: b_def)
  have len: "0 < unat len" using assms(2) by (simp add: unat_gt_0)
  have ij: "i \<le> j" unfolding i_def j_def using len by (intro div_le_mono) simp
  have first: "unat offset - unat offset mod b = i * b" by (simp add: i_def minus_mod_eq_div_mult)
  have fin: "unat offset + unat len + b - 1 - (unat offset + unat len + b - 1) mod b = (j + 1) * b"
    using round_up_block [OF b, of "unat offset + unat len"] len by (simp add: j_def)
  have count: "(j + 1) * b - i * b = (j + 1 - i) * b" by (simp add: diff_mult_distrib)
  have guard: "\<not> (unat offset > llong_top - b \<or> unat len > llong_top - b - unat offset)"
    using assms(1) by (auto simp: b_def)
  have "AnnounceRuns tuning (Some c) offset len = uncached_runs b c (block_addresses b (i * b) ((j + 1) * b)) ((j + 1) * b) None"
    using assms(2) few [folded b_def, folded i_def j_def] ij guard b
    unfolding AnnounceRuns_def Let_def b_def [symmetric] option.case first fin count AnnounceUncachedBlocks_def
    by (simp add: i_def [symmetric] j_def [symmetric] b_def [symmetric] Suc_diff_le)
  moreover have "block_addresses b (i * b) ((j + 1) * b) = map (\<lambda>k. i * b + k * b) [0..<j + 1 - i]"
  proof -
    have "(k * b + (b - 1)) div b = k" for k using b by (intro div_nat_eqI) (simp_all add: mult.commute [of k b])
    then have "((j + 1 - i) * b + (b - 1)) div b = j + 1 - i" .
    moreover have "(j + 1) * b - i * b + b - 1 = (j + 1 - i) * b + (b - 1)" unfolding count using b by simp
    ultimately show ?thesis unfolding block_addresses_def by (simp only:)
  qed
  moreover have "(j + 1) * b = i * b + (j + 1 - i) * b" using ij by (simp flip: add_mult_distrib)
  ultimately have "(\<exists>(start, n) \<in> set (AnnounceRuns tuning (Some c) offset len). start \<le> x \<and> x < start + n) \<longleftrightarrow>
      i * b \<le> x \<and> x < (j + 1) * b \<and> \<not> ContainsBlock c (x div b)"
    using uncached_runs_cover [OF b, of _ "i * b" "j + 1 - i" "(j + 1) * b" None c x] by simp
  also have "\<dots> \<longleftrightarrow> i \<le> x div b \<and> x div b \<le> j \<and> \<not> ContainsBlock c (x div b)"
    using less_eq_div_iff_mult_less_eq [OF b, of i x] div_less_iff_less_mult [OF b, of x "j + 1"]
    by (simp only: less_Suc_eq_le Suc_eq_plus1 [symmetric])
  finally show ?thesis by (simp only: b_def i_def j_def)
qed

section \<open>A small medium\<close>

text \<open>Ten thousand readable bytes; the read crosses from the first block to the second.\<close>

definition sample_content :: "nat \<Rightarrow> byte option" where
  "sample_content i = (if i < 10000 then Some (of_nat i) else None)"

definition sample_disk :: disk_reader where
  "sample_disk addr n = (if addr < 0 then None else medium_range sample_content (nat addr) n)"

definition sample_tuning :: cache_tuning where
  "sample_tuning = \<lparr>ct_block_bytes = 4096, ct_max_run_bytes = 1048576\<rparr>"

lemma sample_reads: "reads_medium sample_disk sample_content"
  by (simp add: reads_medium_def sample_disk_def)

lemma cached_read_exact_witness:
  "map_option vw_bytes (fst (ReadFullCache sample_disk sample_tuning (int 4000) 200 (new_block_cache (BlockBytesOf sample_tuning) 8192))) =
     ReadNoCache sample_disk (int 4000) 200"
  by (rule cached_read_exact [OF sample_reads cache_reached.fresh]) (simp_all add: llong_top_def)

end
