(* ===== verification/RunListSpec.thy ===== *)
theory RunListSpec
  imports RunList
begin

text \<open>
  What the queries of RunList answer. A list of runs is a partial map from VCNs to clusters or
  holes (\<open>cluster_at\<close>); the queries of theory RunList are characterised over it, for lists
  whose runs are in VCN order and hold no degenerate run (\<open>runs_sorted\<close>). A decoded list is one
  unless its declared bound is the largest VCN; there ExtentsBetween() may not return, which is
  shown at the end.
\<close>

section \<open>Runs in VCN order\<close>

definition covers :: "run_entry \<Rightarrow> nat \<Rightarrow> bool" where
  "covers r v \<longleftrightarrow> unat (re_start_vcn r) \<le> v \<and> v < unat (re_start_vcn r) + unat (re_clusters r)"

definition run_plain :: "run_entry \<Rightarrow> bool" where
  "run_plain r \<longleftrightarrow> unat (re_start_vcn r) + unat (re_clusters r) < 2 ^ 64 \<and>
     unat (re_last_vcn r) + 1 = unat (re_start_vcn r) + unat (re_clusters r)"

fun runs_sorted :: "nat \<Rightarrow> run_entry list \<Rightarrow> bool" where
  "runs_sorted v [] = True"
| "runs_sorted v (r # rs) =
     (v \<le> unat (re_start_vcn r) \<and> run_plain r \<and> runs_sorted (unat (re_start_vcn r) + unat (re_clusters r)) rs)"

definition cluster_at :: "run_entry list \<Rightarrow> nat \<Rightarrow> nat option option" where
  "cluster_at rs v =
     (case find (\<lambda>r. covers r v) rs of
        None \<Rightarrow> None
      | Some r \<Rightarrow> Some (map_option (\<lambda>l. unat l + (v - unat (re_start_vcn r))) (re_lcn r)))"

lemma run_plain_holds: "run_plain r \<Longrightarrow> holds_vcn vcn r \<longleftrightarrow> covers r (unat vcn)"
  unfolding run_plain_def holds_vcn_def covers_def u64_nat by arith

lemma runs_sorted_plain: "runs_sorted v rs \<Longrightarrow> r \<in> set rs \<Longrightarrow> run_plain r"
  by (induction rs arbitrary: v) auto

lemma runs_sorted_starts: "runs_sorted v rs \<Longrightarrow> r \<in> set rs \<Longrightarrow> v \<le> unat (re_start_vcn r)"
proof (induction rs arbitrary: v)
  case (Cons a rs)
  show ?case
  proof (cases "r = a")
    case False
    with Cons have "unat (re_start_vcn a) + unat (re_clusters a) \<le> unat (re_start_vcn r)" "v \<le> unat (re_start_vcn a)"
      by auto
    then show ?thesis by linarith
  qed (use Cons in simp)
qed simp

lemma runs_sorted_not_below: "runs_sorted v rs \<Longrightarrow> r \<in> set rs \<Longrightarrow> w < v \<Longrightarrow> \<not> covers r w"
  using runs_sorted_starts [of v rs r] by (simp add: covers_def)

lemma runs_sorted_disjoint:
  "runs_sorted v rs \<Longrightarrow> r \<in> set rs \<Longrightarrow> r' \<in> set rs \<Longrightarrow> covers r w \<Longrightarrow> covers r' w \<Longrightarrow> r = r'"
proof (induction rs arbitrary: v)
  case (Cons a rs)
  have below: "\<not> covers b w" if "b \<in> set rs" "covers a w" for b
    using runs_sorted_not_below [of "unat (re_start_vcn a) + unat (re_clusters a)" rs b w] Cons.prems(1) that
    by (auto simp: covers_def)
  show ?case
  proof (cases "r = a \<or> r' = a")
    case True
    then show ?thesis using Cons.prems below by auto
  next
    case False
    then show ?thesis using Cons by auto
  qed
qed simp

lemma runs_sorted_weaken: "runs_sorted v rs \<Longrightarrow> w \<le> v \<Longrightarrow> runs_sorted w rs"
  by (cases rs) auto

lemma runs_from_sorted:
  "runs_from v rs \<Longrightarrow> (\<forall>r \<in> set rs. re_last_vcn r \<noteq> u64_max) \<Longrightarrow> runs_sorted v rs"
proof (induction rs arbitrary: v)
  case (Cons r rs)
  then have "re_last_vcn r \<noteq> u64_max" and
    "re_last_vcn r = (if v + unat (re_clusters r) = 0 then u64_max else of_nat (v + unat (re_clusters r) - 1))"
    by simp_all
  then have nz: "v + unat (re_clusters r) \<noteq> 0" by metis
  from Cons.prems have "v + unat (re_clusters r) < 18446744073709551616" by simp
  then have "v + unat (re_clusters r) - 1 < 18446744073709551616" by linarith
  with Cons.prems nz have "unat (re_last_vcn r) = v + unat (re_clusters r) - 1"
    by (simp add: unat_of_nat_u64)
  with nz have "unat (re_last_vcn r) + 1 = v + unat (re_clusters r)" by linarith
  with Cons show ?case by (simp add: run_plain_def)
qed simp

lemma find_covers_eq:
  "runs_sorted v rs \<Longrightarrow> find (holds_vcn vcn) rs = find (\<lambda>r. covers r (unat vcn)) rs"
  using runs_sorted_plain run_plain_holds by (intro find_cong) auto

lemma find_covers_Some:
  "runs_sorted v rs \<Longrightarrow> find (\<lambda>r. covers r w) rs = Some r \<longleftrightarrow> r \<in> set rs \<and> covers r w"
proof
  assume "find (\<lambda>r. covers r w) rs = Some r"
  then show "r \<in> set rs \<and> covers r w" by (metis find_Some_iff nth_mem)
next
  assume s: "runs_sorted v rs" and r: "r \<in> set rs \<and> covers r w"
  then obtain r' where f: "find (\<lambda>r. covers r w) rs = Some r'"
    by (cases "find (\<lambda>r. covers r w) rs") (auto simp: find_None_iff)
  then have "r' \<in> set rs \<and> covers r' w" by (metis find_Some_iff nth_mem)
  with runs_sorted_disjoint [OF s] r f show "find (\<lambda>r. covers r w) rs = Some r" by metis
qed

lemma runs_end_ge: "v \<le> runs_end v rs"
  by (induction rs arbitrary: v) (auto intro: add_leD1)

lemma runs_from_cover:
  "runs_from v rs \<Longrightarrow> (\<exists>r \<in> set rs. covers r w) \<longleftrightarrow> v \<le> w \<and> w < runs_end v rs"
proof (induction rs arbitrary: v)
  case (Cons r rs)
  define v' where "v' = v + unat (re_clusters r)"
  have "(\<exists>r \<in> set rs. covers r w) \<longleftrightarrow> v' \<le> w \<and> w < runs_end v' rs"
    using Cons by (simp add: v'_def)
  moreover have "covers r w \<longleftrightarrow> v \<le> w \<and> w < v'" using Cons.prems by (simp add: covers_def v'_def)
  moreover have "v \<le> v'" "v' \<le> runs_end v' rs" using runs_end_ge by (simp_all add: v'_def)
  moreover have "runs_end v (r # rs) = runs_end v' rs" by (simp add: v'_def)
  ultimately show ?case by auto
qed simp

lemma parsed_sorted:
  assumes "ParseRuns run_bytes vcn_bound recover (new_run_list clusters) = Inr rl" and "vcn_bound < u64_max"
  shows "runs_sorted 0 (rl_runs rl)"
proof -
  note shape = parsed_shape [OF assms(1)]
  have "re_last_vcn r \<noteq> u64_max" if "r \<in> set (rl_runs rl)" for r
    using shape that assms(2) by (auto simp: run_ok_def)
  then show ?thesis using shape runs_from_sorted by blast
qed

text \<open>
  FindRun() on a decoded list (declared bound below the largest VCN): it answers the one run
  whose VCN range holds the VCN, and answers nothing exactly past the runs.
\<close>

theorem find_run_exact:
  assumes "ParseRuns run_bytes vcn_bound recover (new_run_list clusters) = Inr rl" and "vcn_bound < u64_max"
  shows "(FindRun rl vcn = Some r \<longleftrightarrow> r \<in> set (rl_runs rl) \<and> covers r (unat vcn)) \<and>
    (FindRun rl vcn = None \<longleftrightarrow> runs_end 0 (rl_runs rl) \<le> unat vcn)"
proof -
  note shape = parsed_shape [OF assms(1)]
  note s = parsed_sorted [OF assms]
  have "FindRun rl vcn = Some r \<longleftrightarrow> r \<in> set (rl_runs rl) \<and> covers r (unat vcn)"
    using find_covers_eq [OF s] find_covers_Some [OF s] by (simp add: FindRun_def)
  moreover have "FindRun rl vcn = None \<longleftrightarrow> runs_end 0 (rl_runs rl) \<le> unat vcn"
    using find_covers_eq [OF s] runs_from_cover [of 0 "rl_runs rl" "unat vcn"] shape
    by (auto simp: FindRun_def find_None_iff not_le)
  ultimately show ?thesis by blast
qed

section \<open>ExtentsBetween\<close>

text \<open>The clusters of an extent, and the real clusters of a VCN range, in order.\<close>

definition extent_clusters :: "extent \<Rightarrow> nat list" where
  "extent_clusters e = [unat (ex_lcn e)..<unat (ex_lcn e) + unat (ex_clusters e)]"

definition real_clusters_between :: "run_entry list \<Rightarrow> nat \<Rightarrow> nat \<Rightarrow> nat list" where
  "real_clusters_between rs a b =
     concat (map (\<lambda>v. case cluster_at rs v of Some (Some l) \<Rightarrow> [l] | _ \<Rightarrow> []) [a..<b])"

lemma real_clusters_split:
  "a \<le> m \<Longrightarrow> m \<le> b \<Longrightarrow> real_clusters_between rs a b = real_clusters_between rs a m @ real_clusters_between rs m b"
  unfolding real_clusters_between_def using upt_add_eq_append [of a m "b - m"] by simp

lemma cluster_at_covered:
  assumes "runs_sorted v rs" "r \<in> set rs" "covers r w"
  shows "cluster_at rs w = Some (map_option (\<lambda>l. unat l + (w - unat (re_start_vcn r))) (re_lcn r))"
  using find_covers_Some [OF assms(1), of w r] assms(2,3) by (simp add: cluster_at_def)

lemma real_clusters_of_run:
  assumes s: "runs_sorted v rs" "r \<in> set rs"
    and in_run: "unat (re_start_vcn r) \<le> a" "b \<le> unat (re_start_vcn r) + unat (re_clusters r)"
  shows "real_clusters_between rs a b =
    (case re_lcn r of None \<Rightarrow> []
     | Some l \<Rightarrow> [unat l + (a - unat (re_start_vcn r))..<unat l + (a - unat (re_start_vcn r)) + (b - a)])"
proof -
  have at: "cluster_at rs w = Some (map_option (\<lambda>l. unat l + (w - unat (re_start_vcn r))) (re_lcn r))"
    if "w \<in> set [a..<b]" for w
    by (rule cluster_at_covered [OF s]) (use that in_run in \<open>auto simp: covers_def\<close>)
  show ?thesis
  proof (cases "re_lcn r")
    case None
    then show ?thesis using at by (auto simp: real_clusters_between_def)
  next
    case (Some l)
    have "real_clusters_between rs a b = concat (map (\<lambda>w. [unat l + (w - unat (re_start_vcn r))]) [a..<b])"
      unfolding real_clusters_between_def using at Some by (intro arg_cong [where f = concat] map_cong) auto
    also have "\<dots> = map (\<lambda>w. unat l + (w - unat (re_start_vcn r))) [a..<b]"
      by (simp add: concat_map_singleton)
    also have "\<dots> = [unat l + (a - unat (re_start_vcn r))..<unat l + (a - unat (re_start_vcn r)) + (b - a)]"
      by (rule nth_equalityI) (use in_run in auto)
    finally show ?thesis using Some by simp
  qed
qed

text \<open>Where the walk may stop before the end of the range asked for.\<close>

definition walk_stops :: "run_entry list \<Rightarrow> nat \<Rightarrow> nat \<Rightarrow> nat \<Rightarrow> bool" where
  "walk_stops rs k end_vcn max_lcn \<longleftrightarrow>
     k = end_vcn \<or> cluster_at rs k = None \<or>
     (\<exists>r \<in> set rs. covers r k \<and> (\<exists>l. re_lcn r = Some l \<and>
        unat l + (min (unat (re_start_vcn r) + unat (re_clusters r)) end_vcn - unat (re_start_vcn r)) > max_lcn))"

lemma extents_between_loop_run:
  assumes s: "runs_sorted lo (rl_runs rl)" and le: "vcn \<le> end_vcn"
  shows "\<exists>k exts. extents_between_loop rl vcn end_vcn max_lcn acc = Some (acc @ exts) \<and>
    unat vcn \<le> k \<and> k \<le> unat end_vcn \<and>
    concat (map extent_clusters exts) = real_clusters_between (rl_runs rl) (unat vcn) k \<and>
    (\<forall>e \<in> set exts. unat (ex_lcn e) + unat (ex_clusters e) \<le> unat max_lcn \<and> ex_clusters e \<noteq> 0) \<and>
    walk_stops (rl_runs rl) k (unat end_vcn) (unat max_lcn)"
  using le
proof (induction "unat end_vcn - unat vcn" arbitrary: vcn acc rule: less_induct)
  case less
  let ?rs = "rl_runs rl"
  show ?case
  proof (cases "vcn < end_vcn")
    case False
    with less.prems have eq: "vcn = end_vcn" by simp
    show ?thesis
      by (rule exI [of _ "unat vcn"], rule exI [of _ "[]"])
        (simp add: extents_between_loop.simps eq real_clusters_between_def walk_stops_def)
  next
    case lt: True
    show ?thesis
    proof (cases "FindRun rl vcn")
      case None
      then have "cluster_at ?rs (unat vcn) = None"
        using find_covers_eq [OF s] by (simp add: FindRun_def cluster_at_def)
      then show ?thesis
        by (intro exI [of _ "unat vcn"] exI [of _ "[]"])
          (use lt None less.prems in \<open>simp add: extents_between_loop.simps real_clusters_between_def walk_stops_def u64_nat\<close>)
    next
      case (Some r)
      then have r: "r \<in> set ?rs" "covers r (unat vcn)"
        using find_covers_eq [OF s] find_covers_Some [OF s] by (auto simp: FindRun_def)
      have plain: "run_plain r" by (rule runs_sorted_plain [OF s r(1)])
      define st where "st = unat (re_start_vcn r)"
      define en where "en = st + unat (re_clusters r)"
      define stop where "stop = min (re_last_vcn r + 1) end_vcn"
      define n where "n = stop - vcn"
      have en: "unat (re_last_vcn r + 1) = en"
        using plain by (subst unat_u64_add) (simp_all add: run_plain_def en_def st_def)
      have within: "st \<le> unat vcn" "unat vcn < en" using r(2) by (simp_all add: covers_def st_def en_def)
      have stop: "unat stop = min en (unat end_vcn)" unfolding stop_def unat_min_u64 en ..
      have gt: "unat vcn < unat stop" using within lt by (simp add: stop u64_nat)
      then have n: "unat n = unat stop - unat vcn" unfolding n_def by (intro unat_u64_sub) (simp add: u64_nat)
      have next_vcn: "vcn + n = stop" by (simp add: n_def)
      have smaller: "unat end_vcn - unat stop < unat end_vcn - unat vcn" using gt stop by linarith
      have le': "stop \<le> end_vcn" by (simp add: stop_def)
      have part: "real_clusters_between ?rs (unat vcn) (unat stop) =
          (case re_lcn r of None \<Rightarrow> []
           | Some l \<Rightarrow> [unat l + (unat vcn - st)..<unat l + (unat vcn - st) + (unat stop - unat vcn)])"
        unfolding st_def by (rule real_clusters_of_run [OF s r(1)]) (use within stop in \<open>simp_all add: st_def en_def\<close>)
      have join: "real_clusters_between ?rs (unat vcn) k =
          real_clusters_between ?rs (unat vcn) (unat stop) @ real_clusters_between ?rs (unat stop) k"
        if "unat stop \<le> k" for k
        by (rule real_clusters_split) (use gt that in simp_all)
      note unfold = extents_between_loop.simps [of rl vcn] stop_def [symmetric] n_def [symmetric] next_vcn
      show ?thesis
      proof (cases "re_lcn r")
        case None
        obtain k exts where ih: "extents_between_loop rl stop end_vcn max_lcn acc = Some (acc @ exts)"
          "unat stop \<le> k" "k \<le> unat end_vcn"
          "concat (map extent_clusters exts) = real_clusters_between ?rs (unat stop) k"
          "\<forall>e \<in> set exts. unat (ex_lcn e) + unat (ex_clusters e) \<le> unat max_lcn \<and> ex_clusters e \<noteq> 0"
          "walk_stops ?rs k (unat end_vcn) (unat max_lcn)"
          using less.hyps [OF smaller le'] by blast
        show ?thesis
          by (rule exI [of _ k], rule exI [of _ exts])
            (use ih lt Some None gt join part in \<open>simp add: unfold\<close>)
      next
        case lcn: (Some l)
        define skipped where "skipped = vcn - re_start_vcn r"
        have sk: "unat skipped = unat vcn - st"
          unfolding skipped_def st_def by (rule unat_u64_sub) (use within in \<open>simp add: u64_nat st_def\<close>)
        show ?thesis
        proof (cases "l > max_lcn \<or> skipped > max_lcn - l \<or> n > max_lcn - l - skipped")
          case True
          have over: "unat l + (min en (unat end_vcn) - st) > unat max_lcn"
          proof (rule ccontr)
            assume "\<not> ?thesis"
            then have "unat l + (unat vcn - st) + (unat stop - unat vcn) \<le> unat max_lcn"
              using within gt stop by linarith
            then have fit: "unat l + unat skipped + unat n \<le> unat max_lcn" by (simp add: sk n)
            then have 1: "l \<le> max_lcn" by (simp add: u64_nat)
            then have d1: "unat (max_lcn - l) = unat max_lcn - unat l" by (rule unat_u64_sub)
            have 2: "skipped \<le> max_lcn - l" unfolding u64_nat d1 using fit by linarith
            then have d2: "unat (max_lcn - l - skipped) = unat max_lcn - unat l - unat skipped"
              using unat_u64_sub [OF 2] d1 by simp
            have 3: "n \<le> max_lcn - l - skipped" unfolding u64_nat d2 using fit by linarith
            from True 1 2 3 show False by auto
          qed
          have "walk_stops ?rs (unat vcn) (unat end_vcn) (unat max_lcn)"
            using over r lcn unfolding walk_stops_def en_def st_def by blast
          then show ?thesis
            by (intro exI [of _ "unat vcn"] exI [of _ "[]"])
              (use lt Some lcn True less.prems in \<open>simp add: unfold skipped_def real_clusters_between_def u64_nat\<close>)
        next
          case False
          then have g: "l \<le> max_lcn" "skipped \<le> max_lcn - l" "n \<le> max_lcn - l - skipped" by auto
          have d1: "unat (max_lcn - l) = unat max_lcn - unat l" by (rule unat_u64_sub [OF g(1)])
          have d2: "unat (max_lcn - l - skipped) = unat max_lcn - unat l - unat skipped"
            using unat_u64_sub [OF g(2)] d1 by simp
          have fit: "unat l + unat skipped + unat n \<le> unat max_lcn"
            using g unfolding u64_nat d1 d2 by linarith
          define e where "e = \<lparr>ex_lcn = l + skipped, ex_clusters = n\<rparr>"
          have el: "unat (l + skipped) = unat l + unat skipped"
            by (rule unat_u64_add) (use fit unat_u64_bound [of max_lcn] in linarith)
          have "extent_clusters e = [unat l + (unat vcn - st)..<unat l + (unat vcn - st) + (unat stop - unat vcn)]"
            by (simp add: extent_clusters_def e_def el sk n)
          then have ec: "extent_clusters e = real_clusters_between ?rs (unat vcn) (unat stop)"
            using part lcn by simp
          have ne: "n \<noteq> 0"
          proof
            assume "n = 0"
            then have "unat n = 0" by simp
            then show False using n gt by linarith
          qed
          obtain k exts where ih: "extents_between_loop rl stop end_vcn max_lcn (acc @ [e]) = Some ((acc @ [e]) @ exts)"
            "unat stop \<le> k" "k \<le> unat end_vcn"
            "concat (map extent_clusters exts) = real_clusters_between ?rs (unat stop) k"
            "\<forall>e \<in> set exts. unat (ex_lcn e) + unat (ex_clusters e) \<le> unat max_lcn \<and> ex_clusters e \<noteq> 0"
            "walk_stops ?rs k (unat end_vcn) (unat max_lcn)"
            using less.hyps [OF smaller le', of "acc @ [e]"] by blast
          have "extents_between_loop rl vcn end_vcn max_lcn acc = Some (acc @ e # exts)"
            using lt Some lcn False ih(1) by (simp add: unfold skipped_def [symmetric] e_def [symmetric])
          moreover have "concat (map extent_clusters (e # exts)) = real_clusters_between ?rs (unat vcn) k"
            using join [OF ih(2)] ec ih(4) by simp
          moreover have "unat vcn \<le> k" using ih(2) gt by simp
          moreover have "unat (ex_lcn e) + unat (ex_clusters e) \<le> unat max_lcn \<and> ex_clusters e \<noteq> 0"
            using fit ne el by (simp add: e_def)
          ultimately show ?thesis using ih(3,5,6) by (metis set_ConsD)
        qed
      qed
    qed
  qed
qed

text \<open>
  C25. ExtentsBetween() on a list decoded under a declared bound below the largest VCN returns, for
  every range whose first VCN is not past its end: its extents are, in order and with nothing skipped or repeated, the real clusters
  of the VCNs from the first up to some VCN k of the range; none is empty or reaches past
  max_lcn; and k is the end of the range, a VCN no run holds, or a VCN of a run that, over the
  range, reaches past max_lcn.
\<close>

theorem extents_between_exact:
  assumes "ParseRuns run_bytes vcn_bound recover (new_run_list clusters) = Inr rl" and "vcn_bound < u64_max"
    and "first_vcn \<le> end_vcn"
  shows "\<exists>k exts. ExtentsBetween rl first_vcn end_vcn max_lcn = Some exts \<and>
    unat first_vcn \<le> k \<and> k \<le> unat end_vcn \<and>
    concat (map extent_clusters exts) = real_clusters_between (rl_runs rl) (unat first_vcn) k \<and>
    (\<forall>e \<in> set exts. unat (ex_lcn e) + unat (ex_clusters e) \<le> unat max_lcn \<and> ex_clusters e \<noteq> 0) \<and>
    walk_stops (rl_runs rl) k (unat end_vcn) (unat max_lcn)"
  using extents_between_loop_run [OF parsed_sorted [OF assms(1,2)] assms(3), of max_lcn "[]"]
  by (auto simp: ExtentsBetween_def)

text \<open>A list whose only run is an empty one at VCN 0, as the decoder keeps it.\<close>

definition empty_run_list :: "u64 \<Rightarrow> run_list" where
  "empty_run_list lcn =
     \<lparr>rl_runs = [\<lparr>re_lcn = Some lcn, re_clusters = 0, re_start_vcn = 0, re_last_vcn = u64_max\<rparr>], rl_clusters = 0\<rparr>"

lemma extents_between_loop_diverges:
  assumes "0 < end_vcn" "lcn \<le> max_lcn"
  shows "extents_between_loop (empty_run_list lcn) 0 end_vcn max_lcn acc \<noteq> Some y"
proof
  assume ret: "extents_between_loop (empty_run_list lcn) 0 end_vcn max_lcn acc = Some y"
  define P where "P = (\<lambda>rl (vcn :: u64) en m (acc :: extent list) (y :: extent list).
    \<not> (rl = empty_run_list lcn \<and> vcn = 0 \<and> en = end_vcn \<and> m = max_lcn))"
  have "P (empty_run_list lcn) 0 end_vcn max_lcn acc y"
  proof (rule extents_between_loop.raw_induct [where P = P, OF _ ret])
    fix f rl vcn en m acc y
    assume IH: "\<And>rl vcn en m acc y. f rl vcn en m acc = Some y \<Longrightarrow> P rl vcn en m acc y"
      and eq: "(if vcn < en then
        case FindRun rl vcn of None \<Rightarrow> Some acc
        | Some r \<Rightarrow> (case re_lcn r of
            None \<Rightarrow> f rl (vcn + (min (re_last_vcn r + 1) en - vcn)) en m acc
          | Some lcn \<Rightarrow>
              if m < lcn \<or> m - lcn < vcn - re_start_vcn r \<or>
                 m - lcn - (vcn - re_start_vcn r) < min (re_last_vcn r + 1) en - vcn
              then Some acc
              else f rl (vcn + (min (re_last_vcn r + 1) en - vcn)) en m
                 (acc @ [\<lparr>ex_lcn = lcn + (vcn - re_start_vcn r),
                          ex_clusters = min (re_last_vcn r + 1) en - vcn\<rparr>]))
        else Some acc) = Some y"
    show "P rl vcn en m acc y"
    proof (cases "rl = empty_run_list lcn \<and> vcn = 0 \<and> en = end_vcn \<and> m = max_lcn")
      case True
      then have "rl = empty_run_list lcn" "vcn = 0" "en = end_vcn" "m = max_lcn" by simp_all
      moreover have le: "(max_lcn < lcn) = False" using assms(2) by (simp add: not_less)
      ultimately have "f rl 0 en m (acc @ [\<lparr>ex_lcn = lcn, ex_clusters = 0\<rparr>]) = Some y"
        using eq assms(1)
        by (simp add: empty_run_list_def FindRun_def holds_vcn_def le)
      from IH [OF this] True show ?thesis by (simp add: P_def)
    qed (simp add: P_def)
  qed
  then show False by (simp add: P_def)
qed

text \<open>
  C28. Where the declared bound is the largest VCN (an attribute that declares itself empty), the
  decoder keeps a leading run of zero clusters, and ExtentsBetween() never returns on that list:
  four bytes of run list are enough. Io::FileRecord::AttributeListExtents() makes this call on a
  header it only requires to start at VCN 0.
\<close>

theorem extents_between_may_not_return:
  "ParseRuns [0x11, 0x00, 0x05, 0x00] u64_max True (new_run_list 0) = Inr (empty_run_list 5) \<and>
   (\<forall>end_vcn max_lcn. 0 < end_vcn \<longrightarrow> 5 \<le> max_lcn \<longrightarrow> ExtentsBetween (empty_run_list 5) 0 end_vcn max_lcn = None)"
proof (intro conjI allI impI)
  show "ParseRuns [0x11, 0x00, 0x05, 0x00] u64_max True (new_run_list 0) = Inr (empty_run_list 5)"
    by (simp add: ParseRuns_def new_run_list_def empty_run_list_def parse_loop.simps PickData_def subspan_def subspan_from_def Let_def
        sign_extended_def AppendDataRun_def add_llong_def llong_max_def llong_min_def)
  show "ExtentsBetween (empty_run_list 5) 0 end_vcn max_lcn = None" if "0 < end_vcn" "5 \<le> max_lcn" for end_vcn max_lcn
    using extents_between_loop_diverges [OF that] by (cases "ExtentsBetween (empty_run_list 5) 0 end_vcn max_lcn")
      (auto simp: ExtentsBetween_def)
qed

section \<open>LeadingRealClusters\<close>

text \<open>From VCN a to b: real clusters up to k, then holes, and every VCN mapped.\<close>

definition leads :: "run_entry list \<Rightarrow> nat \<Rightarrow> nat \<Rightarrow> nat \<Rightarrow> bool" where
  "leads rs a b k \<longleftrightarrow> a \<le> k \<and> k \<le> b \<and> (\<forall>w. a \<le> w \<and> w < k \<longrightarrow> (\<exists>l. cluster_at rs w = Some (Some l))) \<and>
     (\<forall>w. k \<le> w \<and> w < b \<longrightarrow> cluster_at rs w = Some None)"

lemma leads_cong: "(\<And>w. a \<le> w \<Longrightarrow> w < b \<Longrightarrow> cluster_at rs w = cluster_at rs' w) \<Longrightarrow> leads rs a b k = leads rs' a b k"
  unfolding leads_def by (intro conj_cong refl) (auto simp: less_le_trans)

lemma leads_empty: "leads rs a a k \<longleftrightarrow> k = a"
  by (auto simp: leads_def)

lemma cluster_at_Cons:
  "cluster_at (r # rs) w = (if covers r w then Some (map_option (\<lambda>l. unat l + (w - unat (re_start_vcn r))) (re_lcn r))
     else cluster_at rs w)"
  by (simp add: cluster_at_def)

lemma cluster_at_below: "runs_sorted v rs \<Longrightarrow> w < v \<Longrightarrow> cluster_at rs w = None"
  using runs_sorted_not_below [of v rs _ w] by (auto simp: cluster_at_def find_None_iff split: option.splits
      dest: find_Some_iff [THEN iffD1])

lemma leads_real_step:
  assumes "a \<le> s" "s \<le> b" and "\<And>w. a \<le> w \<Longrightarrow> w < s \<Longrightarrow> \<exists>l. cluster_at rs w = Some (Some l)" and "a < s"
  shows "leads rs a b k \<longleftrightarrow> s \<le> k \<and> leads rs s b k"
proof
  assume l: "leads rs a b k"
  have "s \<le> k"
  proof (rule ccontr)
    assume "\<not> s \<le> k"
    with l assms(2) have "cluster_at rs k = Some None" "a \<le> k" "k < s" by (auto simp: leads_def)
    with assms(3) [of k] show False by auto
  qed
  with l assms(1) show "s \<le> k \<and> leads rs s b k" by (auto simp: leads_def)
next
  assume r: "s \<le> k \<and> leads rs s b k"
  then show "leads rs a b k"
    unfolding leads_def using assms(1,3) by (metis le_trans linorder_not_less)
qed

lemma leads_hole_step:
  assumes "a < s" "s \<le> b" and "\<And>w. a \<le> w \<Longrightarrow> w < s \<Longrightarrow> cluster_at rs w = Some None"
  shows "leads rs a b k \<longleftrightarrow> k = a \<and> leads rs s b s"
proof
  assume l: "leads rs a b k"
  have "k = a"
  proof (rule ccontr)
    assume "k \<noteq> a"
    with l have "\<exists>l. cluster_at rs a = Some (Some l)" by (auto simp: leads_def)
    with assms show False by auto
  qed
  with l assms show "k = a \<and> leads rs s b s" by (auto simp: leads_def)
next
  assume r: "k = a \<and> leads rs s b s"
  then show "leads rs a b k"
    unfolding leads_def using assms by (metis less_imp_le_nat linorder_not_less order_trans)
qed

lemma leading_loop_iff:
  assumes "runs_sorted lo rs" "vcn \<le> unit_end"
  shows "leading_loop rs unit_end vcn real_clusters saw_hole = Some n \<longleftrightarrow>
    (\<exists>k. leads rs (unat vcn) (unat unit_end) k \<and> (saw_hole \<longrightarrow> k = unat vcn) \<and>
         n = real_clusters + of_nat (k - unat vcn))"
  using assms
proof (induction rs arbitrary: lo vcn real_clusters saw_hole)
  case Nil
  have "leads [] (unat vcn) (unat unit_end) k \<longleftrightarrow> k = unat vcn \<and> vcn = unit_end" for k
  proof (cases "vcn = unit_end")
    case True
    then show ?thesis by (simp add: leads_empty)
  next
    case False
    then have "unat vcn \<noteq> unat unit_end" using unat_u64_inj by blast
    with Nil.prems have "unat vcn < unat unit_end" by (simp add: u64_nat)
    then have "\<not> leads [] (unat vcn) (unat unit_end) k"
      unfolding leads_def cluster_at_def by (metis find.simps(1) leI le_neq_implies_less option.simps(3,4) order_refl)
    with False show ?thesis by simp
  qed
  then show ?case by auto
next
  case (Cons r rs)
  define st where "st = unat (re_start_vcn r)"
  define en where "en = st + unat (re_clusters r)"
  have plain: "run_plain r" and rs: "runs_sorted en rs"
    using Cons.prems(1) by (simp_all add: en_def st_def)
  have last: "unat (re_last_vcn r) + 1 = en" using plain by (simp add: run_plain_def en_def st_def)
  have cov: "covers r w \<longleftrightarrow> st \<le> w \<and> w < en" for w by (simp add: covers_def st_def en_def)
  show ?case
  proof (cases "vcn \<ge> unit_end")
    case True
    with Cons.prems(2) have "vcn = unit_end" by simp
    then show ?thesis by (auto simp: leads_empty)
  next
    case lt: False
    then have lt': "unat vcn < unat unit_end" by (simp add: u64_nat)
    consider (before) "re_last_vcn r < vcn" | (after) "\<not> re_last_vcn r < vcn" "re_start_vcn r > vcn"
      | (at) "\<not> re_last_vcn r < vcn" "\<not> re_start_vcn r > vcn" by blast
    then show ?thesis
    proof cases
      case before
      then have "en \<le> unat vcn" using last by (simp add: u64_nat)
      then have "cluster_at (r # rs) w = cluster_at rs w" if "unat vcn \<le> w" for w
        using that by (simp add: cluster_at_Cons cov)
      then have "leads (r # rs) (unat vcn) (unat unit_end) k = leads rs (unat vcn) (unat unit_end) k" for k
        by (intro leads_cong) simp
      then show ?thesis using lt before Cons.IH [OF rs Cons.prems(2)] by simp
    next
      case after
      then have "unat vcn < st" by (simp add: st_def u64_nat)
      then have "cluster_at (r # rs) (unat vcn) = None"
        using Cons.prems(1) by (intro cluster_at_below [of st]) (auto simp: st_def)
      then have "\<not> leads (r # rs) (unat vcn) (unat unit_end) k" for k
        using lt' unfolding leads_def by (metis leI le_neq_implies_less option.distinct(1) order_refl)
      then show ?thesis using lt after by simp
    next
      case at
      define m where "m = (if re_last_vcn r - vcn + 1 < unit_end - vcn then re_last_vcn r - vcn + 1 else unit_end - vcn)"
      define stop where "stop = min en (unat unit_end)"
      have within: "st \<le> unat vcn" "unat vcn < en" using at last by (auto simp: st_def u64_nat)
      have d1: "unat (re_last_vcn r - vcn) = unat (re_last_vcn r) - unat vcn" by (rule unat_u64_sub) (use at in simp)
      have d2: "unat (unit_end - vcn) = unat unit_end - unat vcn" by (rule unat_u64_sub) (use lt in simp)
      have d3: "unat (re_last_vcn r - vcn + 1) = en - unat vcn"
        using plain last within d1 by (subst unat_u64_add) (auto simp: run_plain_def en_def st_def)
      have m: "unat m = stop - unat vcn" by (auto simp: m_def u64_nat d2 d3 stop_def)
      have stop_gt: "unat vcn < stop" using within lt' by (simp add: stop_def)
      have "stop \<le> unat unit_end" by (simp add: stop_def)
      then have next_vcn: "unat (vcn + m) = stop"
        using m stop_gt unat_u64_bound [of unit_end] by (subst unat_u64_add) auto
      then have le': "vcn + m \<le> unit_end" by (simp add: u64_nat stop_def)
      have rest: "cluster_at (r # rs) w = cluster_at rs w" if "stop \<le> w" "w < unat unit_end" for w
        using that by (auto simp: cluster_at_Cons cov stop_def)
      have rest_leads: "leads (r # rs) stop (unat unit_end) k = leads rs stop (unat unit_end) k" for k
        by (intro leads_cong rest)
      have here: "cluster_at (r # rs) w = Some (map_option (\<lambda>l. unat l + (w - st)) (re_lcn r))"
        if "unat vcn \<le> w" "w < stop" for w
        using that within by (simp add: cluster_at_Cons cov st_def stop_def)
      note IH = Cons.IH [OF rs le', unfolded next_vcn]
      note unfold = m_def [symmetric] Let_def
      show ?thesis
      proof (cases "re_lcn r")
        case None
        have "leads (r # rs) (unat vcn) (unat unit_end) k \<longleftrightarrow> k = unat vcn \<and> leads rs stop (unat unit_end) stop" for k
          unfolding rest_leads [symmetric]
          by (rule leads_hole_step) (use stop_gt here None in \<open>auto simp: stop_def\<close>)
        then show ?thesis using lt at None IH [of real_clusters True] by (auto simp: unfold)
      next
        case (Some l)
        have step: "leads (r # rs) (unat vcn) (unat unit_end) k \<longleftrightarrow> stop \<le> k \<and> leads rs stop (unat unit_end) k" for k
          unfolding rest_leads [symmetric]
          by (rule leads_real_step) (use stop_gt here Some in \<open>auto simp: stop_def\<close>)
        show ?thesis
        proof (cases saw_hole)
          case True
          then show ?thesis using lt at Some step stop_gt by (auto simp: unfold)
        next
          case False
          have num: "real_clusters + m + of_nat (k - stop) = real_clusters + of_nat (k - unat vcn)" if "stop \<le> k" for k
          proof -
            have "m = of_nat (stop - unat vcn)" unfolding m [symmetric] by simp
            moreover have "k - unat vcn = (stop - unat vcn) + (k - stop)" using that stop_gt by linarith
            ultimately show ?thesis by (simp only: of_nat_add add.assoc)
          qed
          have "leading_loop (r # rs) unit_end vcn real_clusters saw_hole =
              leading_loop rs unit_end (vcn + m) (real_clusters + m) False"
            using lt at Some False by (simp add: unfold)
          then show ?thesis using IH [of "real_clusters + m" False] step num False
            by (auto simp: leads_def)
        qed
      qed
    qed
  qed
qed

text \<open>
  LeadingRealClusters() of a compression unit, on a decoded list (declared bound below the
  largest VCN) and a unit whose end does not wrap: it answers n exactly where the first n VCNs
  of the unit are real clusters and every other VCN of it is a hole of a run; a unit with a real
  cluster after a hole, or with a VCN no run holds, is refused.
\<close>

theorem leading_real_clusters_exact:
  assumes "ParseRuns run_bytes vcn_bound recover (new_run_list clusters) = Inr rl" and "vcn_bound < u64_max"
    and "unat unit_first_vcn + unat unit_clusters < 2 ^ 64"
  shows "LeadingRealClusters rl unit_first_vcn unit_clusters = Some n \<longleftrightarrow>
    leads (rl_runs rl) (unat unit_first_vcn) (unat unit_first_vcn + unat unit_clusters) (unat unit_first_vcn + unat n)"
proof -
  define a where "a = unat unit_first_vcn"
  define b where "b = a + unat unit_clusters"
  have en: "unat (unit_first_vcn + unit_clusters) = b"
    using assms(3) by (subst unat_u64_add) (simp_all add: a_def b_def)
  then have "unit_first_vcn \<le> unit_first_vcn + unit_clusters" by (simp add: u64_nat a_def b_def)
  note iff = leading_loop_iff [OF parsed_sorted [OF assms(1,2)] this, of 0 False n, unfolded en a_def [symmetric]]
  have "(\<exists>k. leads (rl_runs rl) a b k \<and> n = of_nat (k - a)) \<longleftrightarrow> leads (rl_runs rl) a b (a + unat n)"
  proof
    assume "\<exists>k. leads (rl_runs rl) a b k \<and> n = of_nat (k - a)"
    then obtain k where k: "leads (rl_runs rl) a b k" "n = of_nat (k - a)" by blast
    then have "a \<le> k" "k - a \<le> unat unit_clusters" by (auto simp: leads_def b_def)
    note \<open>k - a \<le> unat unit_clusters\<close>
    then have "k - a < 18446744073709551616" using unat_u64_bound [of unit_clusters] by linarith
    then have "unat n = k - a" unfolding k(2) by (rule unat_of_nat_u64)
    with \<open>a \<le> k\<close> have "a + unat n = k" by linarith
    with k(1) show "leads (rl_runs rl) a b (a + unat n)" by simp
  next
    assume "leads (rl_runs rl) a b (a + unat n)"
    then show "\<exists>k. leads (rl_runs rl) a b k \<and> n = of_nat (k - a)" by (intro exI [of _ "a + unat n"]) simp
  qed
  then show ?thesis using iff unfolding LeadingRealClusters_def a_def [symmetric] b_def [symmetric] by simp
qed

section \<open>A decoded list\<close>

text \<open>Four clusters at LCN 10, then a hole of two.\<close>

definition sample_runs :: run_list where
  "sample_runs =
     \<lparr>rl_runs = [\<lparr>re_lcn = Some 10, re_clusters = 4, re_start_vcn = 0, re_last_vcn = 3\<rparr>,
                 \<lparr>re_lcn = None, re_clusters = 2, re_start_vcn = 4, re_last_vcn = 5\<rparr>],
      rl_clusters = 6\<rparr>"

lemma parse_sample: "ParseRuns [0x11, 0x04, 0x0A, 0x01, 0x02, 0x00] 5 False (new_run_list 6) = Inr sample_runs"
  by (simp add: ParseRuns_def new_run_list_def sample_runs_def parse_loop.simps PickData_def subspan_def subspan_from_def Let_def
      sign_extended_def AppendDataRun_def add_llong_def llong_max_def llong_min_def)

lemma parse_runs_shape_witness:
  "runs_from 0 (rl_runs sample_runs) \<and> list_all (run_ok 5) (rl_runs sample_runs) \<and> TotalClusters sample_runs = 6"
  unfolding list_all_iff by (rule parse_runs_shape [OF parse_sample])

lemma find_run_exact_witness:
  "FindRun sample_runs 4 = Some \<lparr>re_lcn = None, re_clusters = 2, re_start_vcn = 4, re_last_vcn = 5\<rparr> \<and>
   FindRun sample_runs 6 = None"
proof -
  have "FindRun sample_runs 4 = Some \<lparr>re_lcn = None, re_clusters = 2, re_start_vcn = 4, re_last_vcn = 5\<rparr>"
    using find_run_exact [OF parse_sample, of 4 "\<lparr>re_lcn = None, re_clusters = 2, re_start_vcn = 4, re_last_vcn = 5\<rparr>"]
    by (simp add: sample_runs_def covers_def)
  moreover have "FindRun sample_runs 6 = None"
    using find_run_exact [OF parse_sample, of 6] by (simp add: sample_runs_def)
  ultimately show ?thesis by blast
qed

lemma extents_between_exact_witness:
  "\<exists>k exts. ExtentsBetween sample_runs 1 6 100 = Some exts \<and> unat (1 :: u64) \<le> k \<and> k \<le> unat (6 :: u64) \<and>
    concat (map extent_clusters exts) = real_clusters_between (rl_runs sample_runs) (unat (1 :: u64)) k \<and>
    list_all (\<lambda>e. unat (ex_lcn e) + unat (ex_clusters e) \<le> unat (100 :: u64) \<and> ex_clusters e \<noteq> 0) exts \<and>
    walk_stops (rl_runs sample_runs) k (unat (6 :: u64)) (unat (100 :: u64))"
  unfolding list_all_iff by (rule extents_between_exact [OF parse_sample]) simp_all

lemma leading_real_clusters_exact_witness:
  "LeadingRealClusters sample_runs 0 6 = Some 4 \<and>
   leads (rl_runs sample_runs) (unat (0 :: u64)) (unat (0 :: u64) + unat (6 :: u64)) (unat (0 :: u64) + unat (4 :: u64))"
proof -
  have "LeadingRealClusters sample_runs 0 6 = Some 4"
    by (simp add: LeadingRealClusters_def sample_runs_def Let_def)
  with leading_real_clusters_exact [OF parse_sample, of 0 6 4] show ?thesis by simp
qed

lemma extents_between_may_not_return_witness: "ExtentsBetween (empty_run_list 5) 0 1 5 = None"
  using extents_between_may_not_return by simp

end
