(* ===== verification/NonResident.thy ===== *)
theory NonResident
  imports FileReader RunListSpec BadClusters Lznt1Format "HOL-Library.Monad_Syntax"
begin

text \<open>
  Non-resident attributes: src/attr/non-resident.cpp and non-resident.h, class AttrNonResident, with
  src/data/header-non-resident.h. The volume is a record of the operations the attribute calls
  (Read() and GetRangeStates()) over a state of its own; decryption of an EFS stream is the
  parameter \<open>na_decrypt\<close>. A buffer given as a span is passed by value and comes back written. The
  loops over the runs have no bound of their own, so every read is an option whose None is "does
  not return"; an answer of the code that is empty is an inner None. The log and failed
  allocations are not modelled; a thrown gsl::narrowing_error is \<open>Throws\<close>, or the failure of the read
  where the code catches it.
\<close>

section \<open>Data\<close>

record header_non_resident =
  hn_type :: u32
  hn_total_size :: u32
  hn_flags :: u16
  hn_start_vcn :: u64
  hn_last_vcn :: u64
  hn_data_run_offset :: u16
  hn_comp_unit_size :: u16
  hn_alloc_size :: u64
  hn_real_size :: u64
  hn_ini_size :: u64

definition VcnSpan :: "header_non_resident \<Rightarrow> u64" where
  "VcnSpan h =
     (if hn_last_vcn h \<ge> hn_start_vcn h then hn_last_vcn h - hn_start_vcn h
      else u64_max - (hn_start_vcn h - hn_last_vcn h) + 1)"

definition SpannedClusters :: "header_non_resident \<Rightarrow> u64" where
  "SpannedClusters h = (let span = VcnSpan h in if span = u64_max then 0 else span + 1)"

definition HasCompressedSizeField :: "header_non_resident \<Rightarrow> bool" where
  "HasCompressedSizeField h \<longleftrightarrow> hn_comp_unit_size h \<noteq> 0"

text \<open>The volume: its cluster size, its options and the calls an attribute makes to it.\<close>

record 'v volume =
  vol_cluster_size :: u32
  vol_full_cache :: bool
  vol_recover_errors :: bool
  vol_read :: "'v \<Rightarrow> int \<Rightarrow> nat \<Rightarrow> byte list option \<times> 'v"
  vol_range_states :: "'v \<Rightarrow> extent list \<Rightarrow> (u64 \<times> u64) list option \<times> 'v"

text \<open>What an attribute is once constructed, and what its reads change.\<close>

record nr_attr =
  na_header :: header_non_resident
  na_runs :: run_list
  na_comp_unit_clusters :: u64
  na_decrypt :: "(u64 \<Rightarrow> byte list \<Rightarrow> bool \<times> byte list) option"
  na_record_deleted :: bool
  na_record_number :: "u64 option"

record 'v nr_state =
  ns_volume :: 'v
  ns_cluster_buffer :: "byte list"
  ns_units :: "u64 \<Rightarrow> byte list option"
  ns_alloc_checked :: bool

datatype run_read = RunDone | ShortRead | RunFailed

datatype nr_error =
    UnitSizeOutOfRange | UnitSizeImplausible | StartNotAligned | BadRuns run_error

datatype read_end = Throws | Answers "u64 option"

definition max_comp_unit_size_shift :: u16 where "max_comp_unit_size_shift = 16"
definition max_compression_unit_size :: u64 where "max_compression_unit_size = 1048576"
definition flag_encrypted :: u16 where "flag_encrypted = 0x4000"
definition attr_type_data :: u32 where "attr_type_data = 0x80"
definition first_user_record :: u64 where "first_user_record = 16"
definition nr_record_number_mask :: u64 where "nr_record_number_mask = 0x0000FFFFFFFFFFFF"

definition cluster_bytes_of :: "'v volume \<Rightarrow> u64" where
  "cluster_bytes_of V = ucast (vol_cluster_size V)"

definition write_front :: "byte list \<Rightarrow> byte list \<Rightarrow> byte list" where
  "write_front bytes out = bytes @ drop (length bytes) out"

section \<open>Construction\<close>

text \<open>ParseDataRun(): the runs sit in the attribute's own bytes.\<close>

definition ParseDataRun :: "header_non_resident \<Rightarrow> byte list \<Rightarrow> bool \<Rightarrow> nr_error + run_list" where
  "ParseDataRun h attr_bytes recover =
     bind_r (if unat (hn_data_run_offset h) < length attr_bytes
             then subspan_from (BadRuns RunOutOfBounds) attr_bytes (unat (hn_data_run_offset h)) else Inr []) (\<lambda>data_run.
     case ParseRuns data_run (VcnSpan h) recover (new_run_list (SpannedClusters h)) of
       Inl e \<Rightarrow> Inl (BadRuns e)
     | Inr runs \<Rightarrow> Inr runs)"

lemma ParseDataRun_inside:
  "ParseDataRun h attr_bytes recover =
     (case ParseRuns (drop (unat (hn_data_run_offset h)) attr_bytes) (VcnSpan h) recover (new_run_list (SpannedClusters h)) of
        Inl e \<Rightarrow> Inl (BadRuns e)
      | Inr runs \<Rightarrow> Inr runs)"
  by (simp add: ParseDataRun_def subspan_from_def)

text \<open>The constructor, with decompression compiled in.\<close>

definition AttrNonResident ::
  "'v volume \<Rightarrow> header_non_resident \<Rightarrow> byte list \<Rightarrow> bool \<Rightarrow> u64 option \<Rightarrow> nr_error + nr_attr" where
  "AttrNonResident V h attr_bytes record_deleted record_number =
    (let comp_unit_clusters = (if HasCompressedSizeField h then push_bit (unat (hn_comp_unit_size h)) 1 else 0);
         unit_size = comp_unit_clusters * cluster_bytes_of V
     in if HasCompressedSizeField h \<and> hn_comp_unit_size h > max_comp_unit_size_shift then Inl UnitSizeOutOfRange
        else if HasCompressedSizeField h \<and> (unit_size = 0 \<or> unit_size > max_compression_unit_size) then Inl UnitSizeImplausible
        else if HasCompressedSizeField h \<and> hn_start_vcn h mod comp_unit_clusters \<noteq> 0 then Inl StartNotAligned
        else
          bind_r (ParseDataRun h attr_bytes (vol_recover_errors V)) (\<lambda>runs.
            Inr \<lparr>na_header = h, na_runs = runs, na_comp_unit_clusters = comp_unit_clusters, na_decrypt = None,
                 na_record_deleted = record_deleted, na_record_number = record_number\<rparr>))"

definition SetEfsContext :: "(u64 \<Rightarrow> byte list \<Rightarrow> bool \<times> byte list) option \<Rightarrow> nr_attr \<Rightarrow> nr_attr" where
  "SetEfsContext context a = a\<lparr>na_decrypt := context\<rparr>"

definition AttrAppendRuns :: "nr_attr \<Rightarrow> nr_attr \<Rightarrow> nr_attr" where
  "AttrAppendRuns a other = a\<lparr>na_runs := AppendRuns (na_runs a) (na_runs other)\<rparr>"

definition AttrTotalClusters :: "nr_attr \<Rightarrow> u64" where
  "AttrTotalClusters a = TotalClusters (na_runs a)"

definition AttrMappedClusters :: "nr_attr \<Rightarrow> u64" where
  "AttrMappedClusters a = MappedClusters (na_runs a)"

definition GetDataSize :: "nr_attr \<Rightarrow> u64" where "GetDataSize a = hn_real_size (na_header a)"
definition GetAllocatedSize :: "nr_attr \<Rightarrow> u64" where "GetAllocatedSize a = hn_alloc_size (na_header a)"
definition GetStartVcn :: "nr_attr \<Rightarrow> u64" where "GetStartVcn a = hn_start_vcn (na_header a)"
definition GetLastVcn :: "nr_attr \<Rightarrow> u64" where "GetLastVcn a = hn_last_vcn (na_header a)"

section \<open>Clusters of the disk\<close>

definition ReadClusters :: "'v volume \<Rightarrow> u64 \<Rightarrow> u64 \<Rightarrow> u64 \<Rightarrow> 'v nr_state \<Rightarrow> byte list option \<times> 'v nr_state" where
  "ReadClusters V clusters start_lcn offset st =
    (let max_lcn = 0x7FFFFFFFFFFFFFFF div cluster_bytes_of V
     in if start_lcn > max_lcn \<or> offset > max_lcn - start_lcn then (None, st)
        else
          let lcn = start_lcn + offset;
              addr = lcn * cluster_bytes_of V;
              len = clusters * cluster_bytes_of V
          in if len > 0xFFFFFFFF then (None, st)
             else case vol_read V (ns_volume st) (int (unat addr)) (unat len) of
                    (r, v) \<Rightarrow> (r, st\<lparr>ns_volume := v\<rparr>))"

text \<open>ReadRunClusters(): into the front of \<open>out\<close>, decrypting the copy there.\<close>

definition ReadRunClusters ::
  "'v volume \<Rightarrow> nr_attr \<Rightarrow> run_entry \<Rightarrow> u64 \<Rightarrow> u64 \<Rightarrow> byte list \<Rightarrow> 'v nr_state \<Rightarrow> run_read \<times> byte list \<times> 'v nr_state" where
  "ReadRunClusters V a data_run vcn clusters_to_read out st =
    (case re_lcn data_run of
       None \<Rightarrow> (RunDone, write_front (replicate (unat (clusters_to_read * cluster_bytes_of V)) 0) out, st)
     | Some lcn \<Rightarrow>
         (case ReadClusters V clusters_to_read lcn (vcn - re_start_vcn data_run) st of
            (None, st) \<Rightarrow> (ShortRead, out, st)
          | (Some bytes, st) \<Rightarrow>
              (case na_decrypt a of
                 None \<Rightarrow> (RunDone, write_front bytes out, st)
               | Some decrypt \<Rightarrow>
                   (case decrypt (vcn * cluster_bytes_of V) bytes of
                      (ok, plain) \<Rightarrow> (if ok then RunDone else RunFailed, write_front plain out, st)))))"

text \<open>The loop of ReadVirtualClustersRaw(): what is written so far, and the rest of the buffer.\<close>

partial_function (option) raw_loop ::
  "'v volume \<Rightarrow> nr_attr \<Rightarrow> u64 \<Rightarrow> u64 \<Rightarrow> u64 \<Rightarrow> byte list \<Rightarrow> byte list \<Rightarrow> 'v nr_state \<Rightarrow>
     (u64 option \<times> byte list \<times> 'v nr_state) option" where
  "raw_loop V a vcn clusters actural written out st =
    (if clusters = 0 then Some (Some (actural * cluster_bytes_of V), written @ out, st)
     else
       case FindRun (na_runs a) vcn of
         None \<Rightarrow> Some (Some (actural * cluster_bytes_of V), written @ out, st)
       | Some data_run \<Rightarrow>
           let vcns = re_last_vcn data_run - vcn + 1;
               clusters_to_read = (if clusters > vcns then vcns else clusters);
               advance = unat (clusters_to_read * cluster_bytes_of V)
           in case ReadRunClusters V a data_run vcn clusters_to_read out st of
                (ShortRead, out, st) \<Rightarrow> Some (Some (actural * cluster_bytes_of V), written @ out, st)
              | (RunFailed, out, st) \<Rightarrow> Some (None, written @ out, st)
              | (RunDone, out, st) \<Rightarrow>
                  raw_loop V a (vcn + clusters_to_read) (clusters - clusters_to_read) (actural + clusters_to_read)
                    (written @ take advance out) (drop advance out) st)"

definition ReadVirtualClustersRaw ::
  "'v volume \<Rightarrow> nr_attr \<Rightarrow> u64 \<Rightarrow> u64 \<Rightarrow> byte list \<Rightarrow> 'v nr_state \<Rightarrow> (u64 option \<times> byte list \<times> 'v nr_state) option" where
  "ReadVirtualClustersRaw V a vcn clusters buffer st =
    (if vcn + clusters > AttrTotalClusters a then Some (None, buffer, st)
     else raw_loop V a vcn clusters 0 [] buffer st)"

section \<open>Compression units\<close>

definition UnitClusters :: "nr_attr \<Rightarrow> u64 \<Rightarrow> u64" where
  "UnitClusters a unit_first_vcn =
    (let remaining = AttrTotalClusters a - unit_first_vcn
     in if remaining < na_comp_unit_clusters a then remaining else na_comp_unit_clusters a)"

text \<open>How many bytes of a unit must come out of the decompressor: those below the data size.\<close>

definition required_size :: "'v volume \<Rightarrow> nr_attr \<Rightarrow> u64 \<Rightarrow> nat \<Rightarrow> nat" where
  "required_size V a unit_first_vcn unit_bytes =
    (let unit_first_byte = unit_first_vcn * cluster_bytes_of V
     in if hn_real_size (na_header a) > unit_first_byte
        then min (unat (hn_real_size (na_header a) - unit_first_byte)) unit_bytes else 0)"

text \<open>DecompressUnit(): the unit filled, or None where the code answers false.\<close>

definition DecompressUnit ::
  "'v volume \<Rightarrow> nr_attr \<Rightarrow> u64 \<Rightarrow> u64 \<Rightarrow> byte list \<Rightarrow> 'v nr_state \<Rightarrow> (byte list option \<times> 'v nr_state) option" where
  "DecompressUnit V a unit_first_vcn real_clusters comp_unit st =
    do {
      let compressed = replicate (unat (real_clusters * cluster_bytes_of V)) 0;
      (len, compressed, st) \<leftarrow> ReadVirtualClustersRaw V a unit_first_vcn real_clusters compressed st;
      if len \<noteq> Some (of_nat (length compressed)) then Some (None, st)
      else
        case Decompress compressed comp_unit of
          Inl e \<Rightarrow> Some (None, st)
        | Inr (produced, comp_unit) \<Rightarrow>
            if produced < required_size V a unit_first_vcn (length comp_unit) then Some (None, st)
            else Some (Some comp_unit, st)
    }"

definition FillCompressionUnit ::
  "'v volume \<Rightarrow> nr_attr \<Rightarrow> u64 \<Rightarrow> u64 \<Rightarrow> u64 \<Rightarrow> byte list \<Rightarrow> 'v nr_state \<Rightarrow> (byte list option \<times> 'v nr_state) option" where
  "FillCompressionUnit V a unit_first_vcn unit_clusters real_clusters comp_unit st =
    (if real_clusters = 0 then Some (Some comp_unit, st)
     else if real_clusters = unit_clusters then
       do {
         (len, comp_unit, st) \<leftarrow> ReadVirtualClustersRaw V a unit_first_vcn unit_clusters comp_unit st;
         Some (if len \<noteq> Some (unit_clusters * cluster_bytes_of V) then None else Some comp_unit, st)
       }
     else DecompressUnit V a unit_first_vcn real_clusters comp_unit st)"

definition GetCompressionUnit ::
  "'v volume \<Rightarrow> nr_attr \<Rightarrow> u64 \<Rightarrow> 'v nr_state \<Rightarrow> (byte list option \<times> 'v nr_state) option" where
  "GetCompressionUnit V a unit_index st =
    (case ns_units st unit_index of
       Some cached \<Rightarrow> Some (Some cached, st)
     | None \<Rightarrow>
         let unit_first_vcn = unit_index * na_comp_unit_clusters a;
             unit_clusters = UnitClusters a unit_first_vcn;
             unit_size = unit_clusters * cluster_bytes_of V
         in case LeadingRealClusters (na_runs a) unit_first_vcn unit_clusters of
              None \<Rightarrow> Some (None, st)
            | Some real_clusters \<Rightarrow>
                do {
                  (filled, st) \<leftarrow> FillCompressionUnit V a unit_first_vcn unit_clusters real_clusters (replicate (unat unit_size) 0) st;
                  case filled of
                    None \<Rightarrow> Some (None, st)
                  | Some comp_unit \<Rightarrow>
                      let units = (if vol_full_cache V then ns_units st else Map.empty)
                      in Some (Some comp_unit, st\<lparr>ns_units := units(unit_index \<mapsto> comp_unit)\<rparr>)
                })"

partial_function (option) compressed_loop ::
  "'v volume \<Rightarrow> nr_attr \<Rightarrow> u64 \<Rightarrow> u64 \<Rightarrow> u64 \<Rightarrow> byte list \<Rightarrow> byte list \<Rightarrow> 'v nr_state \<Rightarrow>
     (u64 option \<times> byte list \<times> 'v nr_state) option" where
  "compressed_loop V a vcn clusters actural written out st =
    (if clusters = 0 then Some (Some (actural * cluster_bytes_of V), written @ out, st)
     else
       do {
         (got, st) \<leftarrow> GetCompressionUnit V a (vcn div na_comp_unit_clusters a) st;
         case got of
           None \<Rightarrow> Some (Some (actural * cluster_bytes_of V), written @ out, st)
         | Some comp_unit \<Rightarrow>
             let offset_in_unit = vcn - vcn div na_comp_unit_clusters a * na_comp_unit_clusters a;
                 unit_clusters = of_nat (length comp_unit) div cluster_bytes_of V;
                 available = unit_clusters - offset_in_unit;
                 to_copy = (if clusters < available then clusters else available);
                 byte_count = unat (to_copy * cluster_bytes_of V);
                 source = take byte_count (drop (unat (offset_in_unit * cluster_bytes_of V)) comp_unit)
             in if offset_in_unit \<ge> unit_clusters
                then Some (Some (actural * cluster_bytes_of V), written @ out, st)
                else compressed_loop V a (vcn + to_copy) (clusters - to_copy) (actural + to_copy)
                       (written @ source) (drop byte_count out) st
       })"

definition ReadVirtualClustersCompressed ::
  "'v volume \<Rightarrow> nr_attr \<Rightarrow> u64 \<Rightarrow> u64 \<Rightarrow> byte list \<Rightarrow> 'v nr_state \<Rightarrow> (u64 option \<times> byte list \<times> 'v nr_state) option" where
  "ReadVirtualClustersCompressed V a vcn clusters buffer st =
    (if vcn + clusters > AttrTotalClusters a then Some (None, buffer, st)
     else compressed_loop V a vcn clusters 0 [] buffer st)"

definition ReadVirtualClusters ::
  "'v volume \<Rightarrow> nr_attr \<Rightarrow> u64 \<Rightarrow> u64 \<Rightarrow> byte list \<Rightarrow> 'v nr_state \<Rightarrow> (u64 option \<times> byte list \<times> 'v nr_state) option" where
  "ReadVirtualClusters V a vcn clusters buffer st =
    (if na_comp_unit_clusters a \<noteq> 0 then ReadVirtualClustersCompressed V a vcn clusters buffer st
     else ReadVirtualClustersRaw V a vcn clusters buffer st)"

section \<open>Bytes of the stream\<close>

definition ReadClusterPart ::
  "'v volume \<Rightarrow> nr_attr \<Rightarrow> u64 \<Rightarrow> nat \<Rightarrow> byte list \<Rightarrow> 'v nr_state \<Rightarrow> (bool \<times> byte list \<times> 'v nr_state) option" where
  "ReadClusterPart V a vcn from_byte out st =
    (if out = [] then Some (True, out, st)
     else
       do {
         (lenc, cluster, st) \<leftarrow> ReadVirtualClusters V a vcn 1 (ns_cluster_buffer st) st;
         let st = st\<lparr>ns_cluster_buffer := cluster\<rparr>;
         if lenc \<noteq> Some (cluster_bytes_of V) then Some (False, out, st)
         else Some (True, write_front (take (length out) (drop from_byte cluster)) out, st)
       })"

text \<open>The count of bytes copied, None where the code answers nothing.\<close>

definition ReadLeadingPart ::
  "'v volume \<Rightarrow> nr_attr \<Rightarrow> u64 \<Rightarrow> byte list \<Rightarrow> 'v nr_state \<Rightarrow> (nat option \<times> byte list \<times> 'v nr_state) option" where
  "ReadLeadingPart V a offset out st =
    (let cluster_size = unat (cluster_bytes_of V);
         in_cluster = unat (offset mod cluster_bytes_of V);
         len = min (cluster_size - in_cluster) (length out)
     in if in_cluster = 0 then Some (Some 0, out, st)
        else
          do {
            (ok, part, st) \<leftarrow> ReadClusterPart V a (offset div cluster_bytes_of V) in_cluster (take len out) st;
            Some (if ok then Some len else None, part @ drop len out, st)
          })"

definition ReadFromClusterStart ::
  "'v volume \<Rightarrow> nr_attr \<Rightarrow> u64 \<Rightarrow> byte list \<Rightarrow> 'v nr_state \<Rightarrow> (bool \<times> byte list \<times> 'v nr_state) option" where
  "ReadFromClusterStart V a vcn out st =
    (let aligned_clusters = of_nat (length out) div cluster_bytes_of V;
         aligned_size = unat (aligned_clusters * cluster_bytes_of V)
     in do {
          (ok, head, st) \<leftarrow>
            (if aligned_clusters \<noteq> 0 then
               do {
                 (lenc, head, st) \<leftarrow> ReadVirtualClusters V a vcn aligned_clusters (take aligned_size out) st;
                 Some (lenc = Some (of_nat aligned_size), head, st)
               }
             else Some (True, take aligned_size out, st));
          if \<not> ok then Some (False, head @ drop aligned_size out, st)
          else
            do {
              (ok, tail, st) \<leftarrow> ReadClusterPart V a (vcn + aligned_clusters) 0 (drop aligned_size out) st;
              Some (ok, head @ tail, st)
            }
        })"

text \<open>ReadDataBounded(): the sum is a ULONGLONG; a cut past 4 GiB throws out of the call.\<close>

definition ReadDataBounded ::
  "'v volume \<Rightarrow> nr_attr \<Rightarrow> u64 \<Rightarrow> byte list \<Rightarrow> u64 \<Rightarrow> 'v nr_state \<Rightarrow> (read_end \<times> byte list \<times> 'v nr_state) option" where
  "ReadDataBounded V a offset buffer limit st =
    (let st = (if vol_full_cache V then st else st\<lparr>ns_units := Map.empty\<rparr>);
         cut = (offset + of_nat (length buffer) > limit)
     in if buffer = [] then Some (Answers (Some 0), buffer, st)
        else if offset > limit then Some (Answers None, buffer, st)
        else if cut \<and> limit - offset > 0xFFFFFFFF then Some (Throws, buffer, st)
        else
          let n = (if cut then unat (limit - offset) else length buffer);
              rest = drop n buffer
          in do {
               (head, out, st) \<leftarrow> ReadLeadingPart V a offset (take n buffer) st;
               case head of
                 None \<Rightarrow> Some (Answers None, out @ rest, st)
               | Some h \<Rightarrow>
                   do {
                     (ok, tail, st) \<leftarrow>
                       ReadFromClusterStart V a ((offset + of_nat h) div cluster_bytes_of V) (drop h out) st;
                     Some (Answers (if ok then Some (of_nat n) else None), take h out @ tail @ rest, st)
                   }
             })"

text \<open>The clusters of one kind, and the LCN of the first run that holds some.\<close>

record cluster_tally =
  tally_clusters :: u64
  tally_first_lcn :: "u64 option"

definition new_tally :: cluster_tally where
  "new_tally = \<lparr>tally_clusters = 0, tally_first_lcn = None\<rparr>"

definition tally_add :: "u64 \<Rightarrow> u64 \<Rightarrow> cluster_tally \<Rightarrow> cluster_tally" where
  "tally_add run_clusters lcn t =
    (if run_clusters = 0 then t
     else \<lparr>tally_clusters = tally_clusters t + run_clusters,
           tally_first_lcn = (if tally_first_lcn t = None then Some lcn else tally_first_lcn t)\<rparr>)"

definition clusters_for :: "u64 \<Rightarrow> u64 \<Rightarrow> u64" where
  "clusters_for bytes cluster_size = bytes div cluster_size + (if bytes mod cluster_size \<noteq> 0 then 1 else 0)"

definition GetExtents :: "'v volume \<Rightarrow> nr_attr \<Rightarrow> stream_extents" where
  "GetExtents V a =
    (let l = RunExtents (na_runs a);
         needed = clusters_for (hn_alloc_size (na_header a)) (cluster_bytes_of V)
     in \<lparr>se_extents = el_extents l,
         se_complete = (if cluster_bytes_of V \<noteq> 0 \<and> el_covered l < needed then False else el_well_formed l)\<rparr>)"

text \<open>
  CheckClusterAllocation(): what it reports (the free and the bad clusters found), when it looks;
  a call that throws reports nothing.
\<close>

definition CheckClusterAllocation ::
  "'v volume \<Rightarrow> nr_attr \<Rightarrow> 'v nr_state \<Rightarrow> (cluster_tally \<times> cluster_tally) option \<times> 'v nr_state" where
  "CheckClusterAllocation V a st =
    (if ns_alloc_checked st then (None, st)
     else
       let st = st\<lparr>ns_alloc_checked := True\<rparr>
       in if \<not> vol_recover_errors V \<or> na_record_deleted a \<or> hn_type (na_header a) \<noteq> attr_type_data then (None, st)
          else
            case na_record_number a of
              None \<Rightarrow> (None, st)
            | Some r \<Rightarrow>
                if r AND nr_record_number_mask < first_user_record then (None, st)
                else
                  let queries = se_extents (GetExtents V a)
                  in case vol_range_states V (ns_volume st) queries of
                       (answers, v) \<Rightarrow>
                         (map_option (\<lambda>found.
                            (fold (\<lambda>(q, free, bad). tally_add free (ex_lcn q)) (zip queries found) new_tally,
                             fold (\<lambda>(q, free, bad). tally_add bad (ex_lcn q)) (zip queries found) new_tally)) answers,
                          st\<lparr>ns_volume := v\<rparr>))"

definition ReadData :: "'v volume \<Rightarrow> nr_attr \<Rightarrow> u64 \<Rightarrow> byte list \<Rightarrow> 'v nr_state \<Rightarrow> (read_end \<times> byte list \<times> 'v nr_state) option" where
  "ReadData V a offset buffer st =
    (let st = snd (CheckClusterAllocation V a st);
         real_size = hn_real_size (na_header a);
         wanted = min (of_nat (length buffer)) (real_size - offset);
         init_size = min (hn_ini_size (na_header a)) real_size;
         initialized = (if offset < init_size then min wanted (init_size - offset) else 0);
         n = unat initialized;
         fill = (\<lambda>buffer. take n buffer @ replicate (unat wanted - n) 0 @ drop (unat wanted) buffer)
     in if buffer = [] then Some (Answers (Some 0), buffer, st)
        else if offset > real_size then Some (Answers None, buffer, st)
        else if initialized = 0 then Some (Answers (Some wanted), fill buffer, st)
        else
          do {
            (len, head, st) \<leftarrow> ReadDataBounded V a offset (take n buffer) real_size st;
            let buffer = head @ drop n buffer;
            case len of
              Throws \<Rightarrow> Some (Throws, buffer, st)
            | Answers l \<Rightarrow>
                if l \<noteq> Some initialized then Some (Answers None, buffer, st)
                else Some (Answers (Some wanted), fill buffer, st)
          })"

definition ReadExtentData :: "'v volume \<Rightarrow> nr_attr \<Rightarrow> u64 \<Rightarrow> byte list \<Rightarrow> 'v nr_state \<Rightarrow> (read_end \<times> byte list \<times> 'v nr_state) option" where
  "ReadExtentData V a offset buffer st =
    (let clusters = AttrTotalClusters a;
         cluster_size = cluster_bytes_of V
     in if cluster_size \<noteq> 0 \<and> clusters > u64_max div cluster_size then Some (Answers None, buffer, st)
        else ReadDataBounded V a offset buffer (clusters * cluster_size) st)"

section \<open>Where the stream lies\<close>

definition ExtentsOfRange :: "'v volume \<Rightarrow> nr_attr \<Rightarrow> u64 \<Rightarrow> u64 \<Rightarrow> extent list option" where
  "ExtentsOfRange V a offset len =
    (let cluster_size = cluster_bytes_of V
     in if len = 0 \<or> cluster_size = 0 \<or> na_comp_unit_clusters a \<noteq> 0 \<or> offset > u64_max - len then Some []
        else
          let vcn = offset div cluster_size;
              end_vcn = (offset + len - 1) div cluster_size + 1;
              max_lcn = 0x7FFFFFFFFFFFFFFF div cluster_size
          in ExtentsBetween (na_runs a) vcn end_vcn max_lcn)"

record stream_ranges =
  sr_ranges :: "(u64 \<times> u64) list"
  sr_complete :: bool

definition real_range_step :: "u64 \<Rightarrow> u64 \<Rightarrow> vcn_run \<Rightarrow> stream_ranges \<Rightarrow> stream_ranges" where
  "real_range_step cluster_size data_size run result =
    (if vr_start_vcn run > u64_max div cluster_size \<or> vr_clusters run > u64_max div cluster_size
     then result\<lparr>sr_complete := False\<rparr>
     else
       let offset = vr_start_vcn run * cluster_size
       in if offset \<ge> data_size then result
          else result\<lparr>sr_ranges := sr_ranges result @ [(offset, min (vr_clusters run * cluster_size) (data_size - offset))]\<rparr>)"

definition GetRealRanges :: "'v volume \<Rightarrow> nr_attr \<Rightarrow> stream_ranges" where
  "GetRealRanges V a =
    (let l = RealRanges (na_runs a);
         cluster_size = cluster_bytes_of V;
         needed = clusters_for (hn_alloc_size (na_header a)) cluster_size
     in if cluster_size = 0 then \<lparr>sr_ranges = [], sr_complete = False\<rparr>
        else fold (real_range_step cluster_size (GetDataSize a)) (vl_runs l)
               \<lparr>sr_ranges = [], sr_complete = (if vl_covered l < needed then False else vl_well_formed l)\<rparr>)"

record layout_run =
  lr_vcn :: u64
  lr_clusters :: u64
  lr_lcn :: "u64 option"

record stream_layout =
  sl_runs :: "layout_run list"
  sl_declared_clusters :: u64
  sl_covered_end :: u64
  sl_initialized_clusters :: u64
  sl_data_size :: u64
  sl_initialized_size :: u64
  sl_unit_clusters :: u64
  sl_encrypted :: bool
  sl_well_formed :: bool

definition layout_step :: "u64 \<Rightarrow> run_entry \<Rightarrow> layout_run list \<times> u64 \<times> bool \<Rightarrow> layout_run list \<times> u64 \<times> bool" where
  "layout_step shift e = (\<lambda>(runs, covered, well_formed).
     if re_clusters e = 0 then (runs, covered, False)
     else
       (runs @ [\<lparr>lr_vcn = shift + re_start_vcn e, lr_clusters = re_clusters e, lr_lcn = re_lcn e\<rparr>],
        shift + re_last_vcn e + 1,
        (case re_lcn e of None \<Rightarrow> well_formed
         | Some lcn \<Rightarrow> if re_clusters e > u64_max - lcn then False else well_formed)))"

definition GetLayout :: "'v volume \<Rightarrow> nr_attr \<Rightarrow> stream_layout" where
  "GetLayout V a =
    (let h = na_header a;
         shift = hn_start_vcn h;
         cluster_size = cluster_bytes_of V;
         sized = (cluster_size \<noteq> 0 \<and> hn_start_vcn h = 0);
         initialized_size = min (hn_ini_size h) (hn_real_size h)
     in case fold (layout_step shift) (rl_runs (na_runs a)) ([], shift, True) of
          (runs, covered, well_formed) \<Rightarrow>
            \<lparr>sl_runs = runs,
             sl_declared_clusters = (if sized then clusters_for (hn_alloc_size h) cluster_size else 0),
             sl_covered_end = covered,
             sl_initialized_clusters = (if sized then clusters_for initialized_size cluster_size else u64_max),
             sl_data_size = hn_real_size h, sl_initialized_size = initialized_size,
             sl_unit_clusters = na_comp_unit_clusters a, sl_encrypted = (hn_flags h AND flag_encrypted \<noteq> 0),
             sl_well_formed = well_formed\<rparr>)"

end
