(* ===== verification/NonResidentSpec.thy ===== *)
theory NonResidentSpec
  imports NonResident
begin

text \<open>
  What the reads of a non-resident attribute answer. The runs of a stream over the medium of a
  volume give a medium of their own, the bytes of the stream (\<open>runs_medium\<close>); a compressed stream
  gives another, through its units (\<open>unit_stream\<close>). Every read is a range of it, whatever the
  cache of the volume and of the units hold.
\<close>

section \<open>Ranges of a medium\<close>

lemma medium_range_cong: "(\<And>k. k < n \<Longrightarrow> f (a + k) = g (b + k)) \<Longrightarrow> medium_range f a n = medium_range g b n"
proof (cases "medium_range g b n")
  case None
  assume "\<And>k. k < n \<Longrightarrow> f (a + k) = g (b + k)"
  then have "\<exists>k<n. f (a + k) = None" using None unfolding medium_range_None by metis
  then show ?thesis unfolding None medium_range_None .
next
  case (Some bytes)
  assume "\<And>k. k < n \<Longrightarrow> f (a + k) = g (b + k)"
  then have "medium_range f a n = Some bytes" using Some unfolding medium_range_Some by simp
  then show ?thesis using Some by simp
qed

lemma medium_range_split:
  "medium_range f a (n + m) =
     (case medium_range f a n of None \<Rightarrow> None
      | Some xs \<Rightarrow> (case medium_range f (a + n) m of None \<Rightarrow> None | Some ys \<Rightarrow> Some (xs @ ys)))"
proof (cases "medium_range f a n")
  case None
  then have "\<exists>k<n + m. f (a + k) = None" unfolding medium_range_None by (meson trans_less_add1)
  then have "medium_range f a (n + m) = None" unfolding medium_range_None .
  then show ?thesis using None by simp
next
  case (Some xs)
  show ?thesis
  proof (cases "medium_range f (a + n) m")
    case None
    then obtain k where "k < m" "f (a + n + k) = None" unfolding medium_range_None by auto
    then have "medium_range f a (n + m) = None" unfolding medium_range_None by (intro exI [of _ "n + k"]) (simp add: add.assoc)
    then show ?thesis using Some None by simp
  next
    case ys: (Some ys)
    then show ?thesis using medium_range_append [OF Some ys] Some by simp
  qed
qed

lemma medium_range_0 [simp]: "medium_range f a 0 = Some []"
  by (simp add: medium_range_def)

lemma medium_range_length: "medium_range f a n = Some bytes \<Longrightarrow> length bytes = n"
  by (simp add: medium_range_Some)

lemma medium_range_const: "(\<And>k. k < n \<Longrightarrow> f (a + k) = Some b) \<Longrightarrow> medium_range f a n = Some (replicate n b)"
  by (simp add: medium_range_Some)

lemma count_fits: "a * cs < 18446744073709551616 \<Longrightarrow> 256 \<le> cs \<Longrightarrow> a + 1 < (18446744073709551616 :: nat)"
proof -
  assume small: "a * cs < 18446744073709551616" and "256 \<le> cs"
  then have "a * 256 \<le> a * cs" by (intro mult_le_mono2)
  then have "a * 256 < 18446744073709551616" using small by (rule le_less_trans)
  then show "a + 1 < 18446744073709551616" by simp
qed

section \<open>The bytes of a stream\<close>

text \<open>A medium read by whole clusters: a byte can be read when its cluster can.\<close>

definition whole :: "(nat \<Rightarrow> byte option) \<Rightarrow> nat \<Rightarrow> nat \<Rightarrow> byte option" where
  "whole content cs i = (if medium_range content (i div cs * cs) cs = None then None else content i)"

definition runs_medium :: "(nat \<Rightarrow> byte option) \<Rightarrow> nat \<Rightarrow> run_entry list \<Rightarrow> nat \<Rightarrow> byte option" where
  "runs_medium content cs rs i =
     (case cluster_at rs (i div cs) of
        None \<Rightarrow> None
      | Some None \<Rightarrow> Some 0
      | Some (Some l) \<Rightarrow> whole content cs (l * cs + i mod cs))"

lemma medium_range_whole:
  assumes "0 < cs"
  shows "medium_range (whole content cs) (b * cs) (n * cs) = medium_range content (b * cs) (n * cs)"
proof (cases "medium_range content (b * cs) (n * cs)")
  case (Some bytes)
  have "whole content cs (b * cs + k) = content (b * cs + k)" if "k < n * cs" for k
  proof -
    have "(b * cs + k) div cs * cs = b * cs + k div cs * cs" using assms by (simp add: add_mult_distrib)
    moreover have "k div cs * cs + cs \<le> n * cs"
      using that assms mult_le_mono1 [of "Suc (k div cs)" n cs] by (simp add: div_less_iff_less_mult Suc_leI)
    ultimately have "medium_range content ((b * cs + k) div cs * cs) cs \<noteq> None"
      using medium_range_part [OF Some, of "k div cs * cs" cs] by simp
    then show ?thesis by (auto simp: whole_def)
  qed
  then show ?thesis by (rule medium_range_cong)
next
  case None
  then obtain k where k: "k < n * cs" "content (b * cs + k) = None" unfolding medium_range_None by auto
  then have "whole content cs (b * cs + k) = None" by (simp add: whole_def)
  then show ?thesis using None k unfolding None medium_range_None by blast
qed

text \<open>The stretch of the stream that one run maps.\<close>

lemma stream_range_of_run:
  assumes sorted: "runs_sorted 0 rs" and r: "r \<in> set rs" and cs: "0 < cs"
    and inside: "unat (re_start_vcn r) \<le> v" "v + n \<le> unat (re_start_vcn r) + unat (re_clusters r)"
  shows "medium_range (runs_medium content cs rs) (v * cs) (n * cs) =
    (case re_lcn r of None \<Rightarrow> Some (replicate (n * cs) 0)
     | Some l \<Rightarrow> medium_range content ((unat l + (v - unat (re_start_vcn r))) * cs) (n * cs))"
proof -
  have at: "cluster_at rs ((v * cs + k) div cs) =
      Some (map_option (\<lambda>l. unat l + (v + k div cs - unat (re_start_vcn r))) (re_lcn r))" if "k < n * cs" for k
  proof -
    have d: "(v * cs + k) div cs = v + k div cs" using cs by simp
    have "k div cs < n" using that cs by (simp add: div_less_iff_less_mult)
    then have "covers r (v + k div cs)" using inside by (simp add: covers_def)
    then show ?thesis unfolding d using sorted r find_covers_Some [of 0 rs "v + k div cs" r] by (simp add: cluster_at_def)
  qed
  show ?thesis
  proof (cases "re_lcn r")
    case None
    have "runs_medium content cs rs (v * cs + k) = Some 0" if "k < n * cs" for k
      using at [OF that] None by (simp add: runs_medium_def)
    then show ?thesis using None by (simp add: medium_range_const)
  next
    case (Some l)
    let ?b = "unat l + (v - unat (re_start_vcn r))"
    have "runs_medium content cs rs (v * cs + k) = whole content cs (?b * cs + k)" if "k < n * cs" for k
    proof -
      have "(unat l + (v + k div cs - unat (re_start_vcn r))) * cs + (v * cs + k) mod cs = ?b * cs + k"
      proof -
        have "unat l + (v + k div cs - unat (re_start_vcn r)) = ?b + k div cs" using inside(1) by simp
        then show ?thesis by (simp add: add_mult_distrib)
      qed
      then show ?thesis using at [OF that] Some by (simp add: runs_medium_def)
    qed
    then have "medium_range (runs_medium content cs rs) (v * cs) (n * cs) = medium_range (whole content cs) (?b * cs) (n * cs)"
      by (rule medium_range_cong)
    then show ?thesis using Some medium_range_whole [OF cs] by simp
  qed
qed

section \<open>Reads over the runs\<close>

abbreviation cluster_size :: "'v volume \<Rightarrow> nat" where
  "cluster_size V \<equiv> unat (vol_cluster_size V)"

lemma unat_cluster_bytes [simp]: "unat (cluster_bytes_of V) = cluster_size V"
  by (simp add: cluster_bytes_of_def unat_ucast_u32_u64)

text \<open>Products of a count of clusters and the cluster size that fit a ULONGLONG.\<close>

lemma unat_clusters: "unat n * cluster_size V < 18446744073709551616 \<Longrightarrow> unat (n * cluster_bytes_of V) = unat n * cluster_size V"
  using unat_u64_mult [of n "cluster_bytes_of V"] by simp

definition geometry_ok :: "'v volume \<Rightarrow> bool" where
  "geometry_ok V \<longleftrightarrow> 256 \<le> cluster_size V \<and> cluster_size V \<le> 16777216"

definition plain_stream :: "(nat \<Rightarrow> byte option) \<Rightarrow> 'v volume \<Rightarrow> nr_attr \<Rightarrow> nat \<Rightarrow> byte option" where
  "plain_stream content V a i =
     (if i div cluster_size V < unat (AttrTotalClusters a)
      then runs_medium content (cluster_size V) (rl_runs (na_runs a)) i else None)"

section \<open>Compression units over the medium\<close>

text \<open>
  What a unit holds, as a function of the medium alone: zeros for a hole, the clusters as they are
  when every one is real, what the leading real clusters decompress to otherwise. Nothing when the
  layout is refused, a cluster cannot be read, or the data is too short.
\<close>

definition unit_first :: "nr_attr \<Rightarrow> nat \<Rightarrow> nat" where
  "unit_first a u = u * unat (na_comp_unit_clusters a)"

definition unit_length :: "nr_attr \<Rightarrow> nat \<Rightarrow> nat" where
  "unit_length a u = min (unat (AttrTotalClusters a) - unit_first a u) (unat (na_comp_unit_clusters a))"

definition unit_content :: "(nat \<Rightarrow> byte option) \<Rightarrow> 'v volume \<Rightarrow> nr_attr \<Rightarrow> nat \<Rightarrow> byte list option" where
  "unit_content content V a u =
    (let cs = cluster_size V; first = unit_first a u; n = unit_length a u
     in case LeadingRealClusters (na_runs a) (of_nat first) (of_nat n) of
          None \<Rightarrow> None
        | Some real_clusters \<Rightarrow>
            if real_clusters = 0 then Some (replicate (n * cs) 0)
            else if unat real_clusters = n then medium_range (plain_stream content V a) (first * cs) (n * cs)
            else
              case medium_range (plain_stream content V a) (first * cs) (unat real_clusters * cs) of
                None \<Rightarrow> None
              | Some compressed \<Rightarrow>
                  (case Decompress compressed (replicate (n * cs) 0) of
                     Inl e \<Rightarrow> None
                   | Inr (produced, bytes) \<Rightarrow>
                       if produced < min (unat (hn_real_size (na_header a)) - first * cs) (n * cs) then None else Some bytes))"

definition unit_stream :: "(nat \<Rightarrow> byte option) \<Rightarrow> 'v volume \<Rightarrow> nr_attr \<Rightarrow> nat \<Rightarrow> byte option" where
  "unit_stream content V a i =
    (let u = i div cluster_size V div unat (na_comp_unit_clusters a)
     in if i div cluster_size V < unat (AttrTotalClusters a)
        then map_option (\<lambda>bytes. bytes ! (i - unit_first a u * cluster_size V)) (unit_content content V a u)
        else None)"

definition units_true :: "(nat \<Rightarrow> byte option) \<Rightarrow> 'v volume \<Rightarrow> nr_attr \<Rightarrow> 'v nr_state \<Rightarrow> bool" where
  "units_true content V a st \<longleftrightarrow> (\<forall>w bytes. ns_units st w = Some bytes \<longrightarrow> unit_content content V a (unat w) = Some bytes)"

text \<open>The attributes the theorems are about: runs in order, and units of at most 1 MiB.\<close>

definition attr_ok :: "'v volume \<Rightarrow> nr_attr \<Rightarrow> bool" where
  "attr_ok V a \<longleftrightarrow> na_decrypt a = None \<and>
     (AttrTotalClusters a = 0 \<or> runs_sorted 0 (rl_runs (na_runs a))) \<and>
     unat (na_comp_unit_clusters a) * cluster_size V \<le> 1048576"

lemma unit_content_length: "unit_content content V a u = Some bytes \<Longrightarrow> length bytes = unit_length a u * cluster_size V"
  by (auto simp: unit_content_def Let_def dest!: decompress_writes_prefix medium_range_length
      split: option.splits if_splits sum.splits prod.splits)

lemma LeadingRealClusters_le:
  assumes "runs_sorted 0 (rl_runs rl)" "unat first + unat n < 18446744073709551616" "LeadingRealClusters rl first n = Some r"
  shows "unat r \<le> unat n"
proof -
  have fin: "unat (first + n) = unat first + unat n" using assms(2) by (rule unat_u64_add)
  then have le: "first \<le> first + n" by (simp add: u64_nat)
  from leading_loop_iff [OF assms(1) le, of 0 False r] assms(3) fin
  obtain k where k: "unat first \<le> k" "k \<le> unat first + unat n" "r = of_nat (k - unat first)"
    by (auto simp: LeadingRealClusters_def leads_def)
  have "k - unat first \<le> unat n" using k(2) by simp
  moreover have "unat n < 18446744073709551616" by (rule unat_u64_bound)
  ultimately have "unat r = k - unat first" unfolding k(3) by (intro unat_of_nat_u64) linarith
  then show ?thesis using \<open>k - unat first \<le> unat n\<close> by simp
qed

lemma unit_stream_range:
  assumes cs: "0 < cluster_size V" and v: "v < unat (AttrTotalClusters a)" and cuc: "0 < unat (na_comp_unit_clusters a)"
  defines "u \<equiv> v div unat (na_comp_unit_clusters a)"
  shows "v - unit_first a u < unit_length a u" "unit_first a u \<le> v"
    and "unit_content content V a u = None \<Longrightarrow> unit_stream content V a (v * cluster_size V) = None"
    and "unit_content content V a u = Some bytes \<Longrightarrow> m \<le> unit_length a u - (v - unit_first a u) \<Longrightarrow>
      medium_range (unit_stream content V a) (v * cluster_size V) (m * cluster_size V) =
        Some (take (m * cluster_size V) (drop ((v - unit_first a u) * cluster_size V) bytes))"
proof -
  let ?cuc = "unat (na_comp_unit_clusters a)" and ?cs = "cluster_size V"
  have first: "unit_first a u = v - v mod ?cuc" by (simp add: unit_first_def u_def minus_mod_eq_div_mult)
  have off: "v - unit_first a u = v mod ?cuc" "unit_first a u \<le> v" by (simp_all add: first)
  have small: "v mod ?cuc < ?cuc" using cuc by simp
  show inside: "v - unit_first a u < unit_length a u" unfolding unit_length_def using off small v by simp
  show "unit_first a u \<le> v" by (rule off(2))
  show "unit_stream content V a (v * ?cs) = None" if "unit_content content V a u = None"
    using that cs by (simp add: unit_stream_def Let_def u_def)
  show "medium_range (unit_stream content V a) (v * ?cs) (m * ?cs) =
      Some (take (m * ?cs) (drop ((v - unit_first a u) * ?cs) bytes))"
    if bytes: "unit_content content V a u = Some bytes" and m: "m \<le> unit_length a u - (v - unit_first a u)"
  proof -
    have fit: "(v - unit_first a u) + m \<le> unit_length a u" using m inside by linarith
    have "((v - unit_first a u) + m) * ?cs \<le> length bytes"
      unfolding unit_content_length [OF bytes] using fit by (rule mult_le_mono1)
    then have len: "(v - unit_first a u) * ?cs + m * ?cs \<le> length bytes" by (simp add: add_mult_distrib)
    have "unit_stream content V a (v * ?cs + k) = Some (bytes ! ((v - unit_first a u) * ?cs + k))" if k: "k < m * ?cs" for k
    proof -
      have d: "(v * ?cs + k) div ?cs = v + k div ?cs" using cs by simp
      have "k div ?cs < m" using k cs by (simp add: div_less_iff_less_mult)
      then have in_unit: "v + k div ?cs < unit_first a u + unit_length a u" using fit off(2) by linarith
      then have total: "v + k div ?cs < unat (AttrTotalClusters a)" using v off(2) by (simp add: unit_length_def)
      have "(v + k div ?cs) div ?cuc = u"
        using in_unit off(2) cuc by (intro div_nat_eqI) (simp_all add: unit_first_def unit_length_def algebra_simps)
      moreover have "v * ?cs + k - unit_first a u * ?cs = (v - unit_first a u) * ?cs + k"
        using mult_le_mono1 [OF off(2), of ?cs] by (simp add: diff_mult_distrib)
      ultimately show ?thesis using total bytes by (simp add: unit_stream_def Let_def d)
    qed
    then show ?thesis unfolding medium_range_Some using len by simp
  qed
qed

section \<open>The attributes the code makes\<close>

text \<open>
  An attribute as constructed, or the merge of two parts of a stream that both span clusters and
  whose counts do not wrap.
\<close>

inductive built :: "'v volume \<Rightarrow> nr_attr \<Rightarrow> bool" for V :: "'v volume" where
  made: "AttrNonResident V h attr_bytes record_deleted record_number = Inr a \<Longrightarrow> built V a"
| merged: "built V a \<Longrightarrow> built V b \<Longrightarrow> AttrTotalClusters a \<noteq> 0 \<Longrightarrow> AttrTotalClusters b \<noteq> 0 \<Longrightarrow>
    unat (AttrTotalClusters a) + unat (AttrTotalClusters b) < 18446744073709551616 \<Longrightarrow> built V (AttrAppendRuns a b)"

definition runs_within :: "nr_attr \<Rightarrow> bool" where
  "runs_within a \<longleftrightarrow> AttrTotalClusters a = 0 \<or>
     (runs_sorted 0 (rl_runs (na_runs a)) \<and> (\<forall>r \<in> set (rl_runs (na_runs a)). unat (re_last_vcn r) < unat (AttrTotalClusters a)))"

lemma runs_sorted_append:
  "runs_sorted v xs \<Longrightarrow> \<forall>r \<in> set xs. unat (re_start_vcn r) + unat (re_clusters r) \<le> m \<Longrightarrow> v \<le> m \<Longrightarrow>
     runs_sorted m ys \<Longrightarrow> runs_sorted v (xs @ ys)"
  by (induction xs arbitrary: v) (auto intro: runs_sorted_weaken)

lemma runs_sorted_shift:
  "runs_sorted v ys \<Longrightarrow> \<forall>r \<in> set ys. unat (re_start_vcn r) + unat (re_clusters r) + unat t < 18446744073709551616 \<Longrightarrow>
     runs_sorted (v + unat t) (map (\<lambda>r. r\<lparr>re_start_vcn := re_start_vcn r + t, re_last_vcn := re_last_vcn r + t\<rparr>) ys)"
proof (induction ys arbitrary: v)
  case (Cons r ys)
  have plain: "run_plain r" using Cons.prems(1) by simp
  have start: "unat (re_start_vcn r + t) = unat (re_start_vcn r) + unat t"
    using Cons.prems(2) by (intro unat_u64_add) simp
  have fin: "unat (re_last_vcn r + t) = unat (re_last_vcn r) + unat t"
    using Cons.prems(2) plain by (intro unat_u64_add) (simp add: run_plain_def)
  have "runs_sorted (unat (re_start_vcn r) + unat (re_clusters r) + unat t)
      (map (\<lambda>r. r\<lparr>re_start_vcn := re_start_vcn r + t, re_last_vcn := re_last_vcn r + t\<rparr>) ys)"
    using Cons.prems by (intro Cons.IH) simp_all
  moreover have "unat (re_start_vcn r) + unat (re_clusters r) + unat t = unat (re_start_vcn r) + unat t + unat (re_clusters r)"
    by simp
  ultimately have "runs_sorted (unat (re_start_vcn r) + unat t + unat (re_clusters r))
      (map (\<lambda>r. r\<lparr>re_start_vcn := re_start_vcn r + t, re_last_vcn := re_last_vcn r + t\<rparr>) ys)"
    by (simp only:)
  moreover have "unat (re_start_vcn r) + unat (re_clusters r) + unat t < 18446744073709551616" using Cons.prems(2) by simp
  ultimately show ?case using Cons.prems(1) plain by (simp add: run_plain_def start fin)
qed simp

lemma AttrAppendRuns_within:
  assumes "runs_within a" "runs_within b" "AttrTotalClusters a \<noteq> 0" "AttrTotalClusters b \<noteq> 0"
    and sum: "unat (AttrTotalClusters a) + unat (AttrTotalClusters b) < 18446744073709551616"
  shows "runs_within (AttrAppendRuns a b)"
proof -
  let ?xs = "rl_runs (na_runs a)" and ?ys = "rl_runs (na_runs b)" and ?t = "AttrTotalClusters a"
  let ?shift = "\<lambda>r. r\<lparr>re_start_vcn := re_start_vcn r + ?t, re_last_vcn := re_last_vcn r + ?t\<rparr>"
  have xs: "runs_sorted 0 ?xs" "\<forall>r \<in> set ?xs. unat (re_last_vcn r) < unat ?t"
    and ys: "runs_sorted 0 ?ys" "\<forall>r \<in> set ?ys. unat (re_last_vcn r) < unat (AttrTotalClusters b)"
    using assms(1-4) by (auto simp: runs_within_def)
  have ends: "unat (re_start_vcn r) + unat (re_clusters r) = unat (re_last_vcn r) + 1" if "r \<in> set ?xs \<union> set ?ys" for r
    using that runs_sorted_plain [OF xs(1)] runs_sorted_plain [OF ys(1)] by (auto simp: run_plain_def)
  have "unat (re_start_vcn r) + unat (re_clusters r) + unat ?t < 18446744073709551616" if "r \<in> set ?ys" for r
  proof -
    have "unat (re_last_vcn r) < unat (AttrTotalClusters b)" using ys(2) that by blast
    then show ?thesis using ends [of r] that sum by simp
  qed
  then have "runs_sorted (0 + unat ?t) (map ?shift ?ys)" by (intro runs_sorted_shift [OF ys(1)] ballI)
  then have sorted: "runs_sorted 0 (?xs @ map ?shift ?ys)"
    using ends xs(2) by (intro runs_sorted_append [OF xs(1), of "unat ?t"]) (auto simp: Suc_leI)
  have total: "unat (AttrTotalClusters (AttrAppendRuns a b)) = unat ?t + unat (AttrTotalClusters b)"
    using unat_u64_add [OF sum] by (simp add: AttrTotalClusters_def TotalClusters_def AttrAppendRuns_def AppendRuns_def)
  have "unat (re_last_vcn r + ?t) = unat (re_last_vcn r) + unat ?t" if "r \<in> set ?ys" for r
    using ys(2) that sum by (intro unat_u64_add) fastforce
  then have "\<forall>r \<in> set (?xs @ map ?shift ?ys). unat (re_last_vcn r) < unat ?t + unat (AttrTotalClusters b)"
    using xs(2) ys(2) by (auto intro: trans_less_add1)
  moreover have "rl_runs (na_runs (AttrAppendRuns a b)) = ?xs @ map ?shift ?ys"
    by (simp add: AttrAppendRuns_def AppendRuns_def AttrTotalClusters_def TotalClusters_def)
  ultimately show ?thesis using sorted total by (simp add: runs_within_def)
qed

lemma AttrNonResident_ok:
  assumes "AttrNonResident V h attr_bytes record_deleted record_number = Inr a" "geometry_ok V"
  shows "na_decrypt a = None \<and> runs_within a \<and> unat (na_comp_unit_clusters a) * cluster_size V \<le> 1048576"
proof -
  let ?cuc = "na_comp_unit_clusters a"
  obtain runs where runs: "ParseDataRun h attr_bytes (vol_recover_errors V) = Inr runs" and a: "na_runs a = runs" "na_decrypt a = None"
    and cuc: "?cuc = (if HasCompressedSizeField h then push_bit (unat (hn_comp_unit_size h)) 1 else 0)"
    and size: "HasCompressedSizeField h \<Longrightarrow> \<not> hn_comp_unit_size h > 16 \<and> \<not> ?cuc * cluster_bytes_of V > 1048576"
    using assms(1)
    by (auto simp: AttrNonResident_def Let_def bind_r_eq_Inr max_comp_unit_size_shift_def max_compression_unit_size_def split: if_splits)
  obtain data_run where parse: "ParseRuns data_run (VcnSpan h) (vol_recover_errors V) (new_run_list (SpannedClusters h)) = Inr runs"
    using runs by (auto simp: ParseDataRun_inside Let_def split: sum.splits)
  note shape = parsed_shape [OF parse]
  have total: "AttrTotalClusters a = SpannedClusters h" using shape by (simp add: AttrTotalClusters_def a)
  have "runs_within a"
  proof (cases "VcnSpan h = u64_max")
    case True
    then show ?thesis by (simp add: runs_within_def total SpannedClusters_def)
  next
    case False
    then have less: "VcnSpan h < u64_max" by (simp add: less_le)
    then have "unat (VcnSpan h) + 1 < 18446744073709551616" by (simp add: u64_less_nat)
    then have "unat (SpannedClusters h) = unat (VcnSpan h) + 1"
      using False unat_u64_add [of "VcnSpan h" 1] by (simp add: SpannedClusters_def Let_def)
    moreover have "unat (re_last_vcn r) \<le> unat (VcnSpan h)" if "r \<in> set (rl_runs runs)" for r
      using shape that by (auto simp: run_ok_def u64_le_nat)
    ultimately show ?thesis using parsed_sorted [OF parse less] by (auto simp: runs_within_def total a less_Suc_eq_le)
  qed
  moreover have "unat ?cuc * cluster_size V \<le> 1048576"
  proof (cases "HasCompressedSizeField h")
    case True
    then have "unat (hn_comp_unit_size h) \<le> 16" using size by (simp add: word_less_nat_alt not_less)
    then have "(2 :: nat) ^ unat (hn_comp_unit_size h) \<le> 2 ^ 16" by (intro power_increasing) simp_all
    moreover have "unat ?cuc = 2 ^ unat (hn_comp_unit_size h)"
    proof -
      have "unat ?cuc = take_bit LENGTH(64) (push_bit (unat (hn_comp_unit_size h)) (unat (1 :: u64)))"
        using True by (simp only: cuc if_True unsigned_push_bit_eq)
      also have "\<dots> = 2 ^ unat (hn_comp_unit_size h) mod 18446744073709551616" by (simp add: take_bit_eq_mod push_bit_eq_mult)
      also have "\<dots> = 2 ^ unat (hn_comp_unit_size h)" using calculation \<open>(2 :: nat) ^ unat (hn_comp_unit_size h) \<le> 2 ^ 16\<close> by simp
      finally show ?thesis .
    qed
    ultimately have "unat ?cuc * cluster_size V \<le> 2 ^ 16 * 16777216"
      using assms(2) by (intro mult_le_mono) (simp_all add: geometry_ok_def)
    then have "unat (?cuc * cluster_bytes_of V) = unat ?cuc * cluster_size V" by (intro unat_clusters) simp
    then show ?thesis using size [OF True] by (simp add: u64_less_nat)
  next
    case False
    then show ?thesis by (simp add: cuc)
  qed
  ultimately show ?thesis using a by blast
qed

text \<open>Every attribute the code makes is one the theorems are about.\<close>

lemma built_ok:
  assumes "geometry_ok V"
  shows "built V a \<Longrightarrow> attr_ok V a \<and> runs_within a"
proof (induction rule: built.induct)
  case (made h attr_bytes record_deleted record_number a)
  then show ?case using AttrNonResident_ok [OF made assms] by (auto simp: attr_ok_def runs_within_def)
next
  case (merged a b)
  have "runs_within (AttrAppendRuns a b)" using merged by (intro AttrAppendRuns_within) blast+
  moreover have "na_decrypt (AttrAppendRuns a b) = na_decrypt a" "na_comp_unit_clusters (AttrAppendRuns a b) = na_comp_unit_clusters a"
    by (simp_all add: AttrAppendRuns_def)
  ultimately show ?case using merged.IH by (auto simp: attr_ok_def runs_within_def)
qed

section \<open>The stream, plain or compressed\<close>

definition stream_medium :: "(nat \<Rightarrow> byte option) \<Rightarrow> 'v volume \<Rightarrow> nr_attr \<Rightarrow> nat \<Rightarrow> byte option" where
  "stream_medium content V a =
     (if na_comp_unit_clusters a \<noteq> 0 then unit_stream content V a else plain_stream content V a)"

text \<open>The data: the stream below the initialized size, zeros from there on.\<close>

definition data_bytes :: "(nat \<Rightarrow> byte option) \<Rightarrow> 'v volume \<Rightarrow> nr_attr \<Rightarrow> nat \<Rightarrow> byte option" where
  "data_bytes content V a i =
     (if i < min (unat (hn_ini_size (na_header a))) (unat (hn_real_size (na_header a)))
      then stream_medium content V a i else Some 0)"

definition state_ok :: "('v \<Rightarrow> bool) \<Rightarrow> (nat \<Rightarrow> byte option) \<Rightarrow> 'v volume \<Rightarrow> nr_attr \<Rightarrow> 'v nr_state \<Rightarrow> bool" where
  "state_ok reader_inv content V a st \<longleftrightarrow>
     reader_inv (ns_volume st) \<and> units_true content V a st \<and> length (ns_cluster_buffer st) = cluster_size V"

text \<open>A byte of the stream can be read exactly when its whole cluster can.\<close>

lemma stream_whole_clusters:
  assumes cs: "0 < cluster_size V" and byte: "stream_medium content V a i \<noteq> None"
  shows "medium_range (stream_medium content V a) (i div cluster_size V * cluster_size V) (cluster_size V) \<noteq> None"
proof -
  let ?cs = "cluster_size V"
  have d: "(i div ?cs * ?cs + k) div ?cs = i div ?cs" "(i div ?cs * ?cs + k) mod ?cs = k" if "k < ?cs" for k
    using that cs by simp_all
  have "stream_medium content V a (i div ?cs * ?cs + k) \<noteq> None" if k: "k < ?cs" for k
  proof (cases "na_comp_unit_clusters a = 0")
    case False
    then show ?thesis using byte d [OF k] by (auto simp: stream_medium_def unit_stream_def Let_def split: if_splits)
  next
    case True
    show ?thesis
    proof (cases "cluster_at (rl_runs (na_runs a)) (i div ?cs)")
      case None
      then show ?thesis using byte True by (simp add: stream_medium_def plain_stream_def runs_medium_def split: if_splits)
    next
      case (Some c)
      show ?thesis
      proof (cases c)
        case None
        then show ?thesis using byte True Some d [OF k]
          by (simp add: stream_medium_def plain_stream_def runs_medium_def split: if_splits)
      next
        case l: (Some l)
        have "whole content ?cs (l * ?cs + i mod ?cs) \<noteq> None"
          using byte True Some l by (simp add: stream_medium_def plain_stream_def runs_medium_def split: if_splits)
        then have "medium_range content (l * ?cs) ?cs \<noteq> None" using cs by (auto simp: whole_def split: if_splits)
        then obtain bytes where bytes: "medium_range content (l * ?cs) ?cs = Some bytes" by blast
        then have "content (l * ?cs + k) = Some (bytes ! k)" using k unfolding medium_range_Some by blast
        then have "whole content ?cs (l * ?cs + k) \<noteq> None" using k cs bytes by (simp add: whole_def)
        then show ?thesis using byte True Some l d [OF k]
          by (simp add: stream_medium_def plain_stream_def runs_medium_def split: if_splits)
      qed
    qed
  qed
  then show ?thesis unfolding medium_range_None by blast
qed

text \<open>A part of a cluster: it can be read when its cluster can, and is cut out of it.\<close>

lemma stream_part:
  assumes cs: "0 < cluster_size V" and m: "0 < m" "from_byte + m \<le> cluster_size V"
  shows "medium_range (stream_medium content V a) (v * cluster_size V + from_byte) m =
    map_option (\<lambda>cluster. take m (drop from_byte cluster)) (medium_range (stream_medium content V a) (v * cluster_size V) (cluster_size V))"
proof (cases "medium_range (stream_medium content V a) (v * cluster_size V) (cluster_size V)")
  case (Some cluster)
  then show ?thesis using medium_range_part [OF Some m(2)] by simp
next
  case None
  have d: "(v * cluster_size V + from_byte) div cluster_size V = v" using m cs by (simp add: div_nat_eqI)
  have "stream_medium content V a (v * cluster_size V + from_byte) = None"
    using stream_whole_clusters [OF cs, of content a "v * cluster_size V + from_byte"] None unfolding d by blast
  then have "medium_range (stream_medium content V a) (v * cluster_size V + from_byte) m = None"
    unfolding medium_range_None using m(1) by (intro exI [of _ 0]) simp
  then show ?thesis using None by simp
qed

context volume_reader
begin

lemma ReadClusters_ok:
  assumes V: "vol_read V = vread" "geometry_ok V" and inv: "inv (ns_volume st)"
    and n: "0 < unat clusters" "unat clusters * cluster_size V < 4294967296"
    and read: "ReadClusters V clusters start_lcn offset st = (r, st')"
  shows "inv (ns_volume st') \<and> st' = st\<lparr>ns_volume := ns_volume st'\<rparr> \<and>
    r = medium_range content ((unat start_lcn + unat offset) * cluster_size V) (unat clusters * cluster_size V)"
proof -
  let ?cs = "cluster_size V"
  let ?max = "0x7FFFFFFFFFFFFFFF div cluster_bytes_of V"
  let ?l = "unat start_lcn + unat offset"
  have cs: "0 < ?cs" using V(2) by (simp add: geometry_ok_def)
  have max: "unat ?max = llong_top div ?cs" by (simp add: unat_div llong_top_def)
  have bound: "llong_top div ?cs * ?cs \<le> llong_top" by simp
  show ?thesis
  proof (cases "start_lcn > ?max \<or> offset > ?max - start_lcn")
    case True
    have "llong_top div ?cs < ?l"
    proof (cases "start_lcn > ?max")
      case False
      then have "offset > ?max - start_lcn" "start_lcn \<le> ?max" using True by (blast, simp add: not_less)
      then show ?thesis using max unat_u64_sub [of start_lcn ?max] by (simp add: u64_nat)
    qed (use max in \<open>simp add: u64_nat\<close>)
    then have "Suc (llong_top div ?cs) * ?cs \<le> ?l * ?cs" by (intro mult_le_mono1) simp
    then have "llong_top \<le> ?l * ?cs" using dividend_less_div_times [OF cs, of llong_top] by simp
    then have "content (?l * ?cs + 0) = None" by (intro content_ends) simp
    then have "medium_range content (?l * ?cs) (unat clusters * ?cs) = None"
      unfolding medium_range_None using n(1) cs by (intro exI [of _ 0]) simp
    then show ?thesis using True read inv by (simp add: ReadClusters_def Let_def)
  next
    case False
    then have l: "?l \<le> llong_top div ?cs" using max by (auto simp: u64_nat unat_u64_sub not_less)
    have "?l * ?cs \<le> llong_top" using mult_le_mono1 [OF l, of ?cs] bound by linarith
    then have small: "?l * ?cs < 18446744073709551616" by (simp add: llong_top_def)
    have "llong_top < 18446744073709551616" by (simp add: llong_top_def)
    then have "?l < 18446744073709551616" using l div_le_dividend [of llong_top ?cs] by linarith
    then have lcn: "unat (start_lcn + offset) = ?l" by (rule unat_u64_add)
    have addr: "unat ((start_lcn + offset) * cluster_bytes_of V) = ?l * ?cs"
      using unat_clusters [of "start_lcn + offset" V] small lcn by simp
    have len: "unat (clusters * cluster_bytes_of V) = unat clusters * ?cs" using n(2) by (intro unat_clusters) simp
    then have "\<not> clusters * cluster_bytes_of V > 0xFFFFFFFF" using n(2) by (simp add: u64_nat)
    then have "ReadClusters V clusters start_lcn offset st =
        (case vread (ns_volume st) (int (?l * ?cs)) (unat clusters * ?cs) of (r, v) \<Rightarrow> (r, st\<lparr>ns_volume := v\<rparr>))"
      using False by (simp only: ReadClusters_def Let_def if_False addr len V(1))
    moreover obtain r0 v where rv: "vread (ns_volume st) (int (?l * ?cs)) (unat clusters * ?cs) = (r0, v)"
      by (cases "vread (ns_volume st) (int (?l * ?cs)) (unat clusters * ?cs)")
    moreover have "0 < unat clusters * ?cs" using n(1) cs by simp
    ultimately show ?thesis using read read_exact [OF inv _ rv] by simp
  qed
qed

lemma ReadRunClusters_ok:
  assumes V: "vol_read V = vread" "geometry_ok V" and a: "na_decrypt a = None" "runs_sorted 0 (rl_runs (na_runs a))"
    and r: "r \<in> set (rl_runs (na_runs a))" "inv (ns_volume st)"
    and n: "0 < unat n" "unat n * cluster_size V < 4294967296" "unat n * cluster_size V \<le> length out"
    and inside: "unat (re_start_vcn r) \<le> unat vcn" "unat vcn + unat n \<le> unat (re_start_vcn r) + unat (re_clusters r)"
    and read: "ReadRunClusters V a r vcn n out st = (status, out', st')"
  shows "inv (ns_volume st') \<and> st' = st\<lparr>ns_volume := ns_volume st'\<rparr> \<and>
    (case medium_range (runs_medium content (cluster_size V) (rl_runs (na_runs a))) (unat vcn * cluster_size V) (unat n * cluster_size V) of
       None \<Rightarrow> status = ShortRead \<and> out' = out
     | Some bytes \<Rightarrow> status = RunDone \<and> out' = write_front bytes out)"
proof -
  let ?cs = "cluster_size V"
  have cs: "0 < ?cs" using V(2) by (simp add: geometry_ok_def)
  have len: "unat (n * cluster_bytes_of V) = unat n * ?cs" using n(2) by (intro unat_clusters) simp
  note range = stream_range_of_run [OF a(2) r(1) cs inside, of content]
  show ?thesis
  proof (cases "re_lcn r")
    case None
    then show ?thesis using read range r(2) len by (simp add: ReadRunClusters_def)
  next
    case (Some l)
    obtain b st1 where rc: "ReadClusters V n l (vcn - re_start_vcn r) st = (b, st1)"
      by (cases "ReadClusters V n l (vcn - re_start_vcn r) st")
    have "unat (vcn - re_start_vcn r) = unat vcn - unat (re_start_vcn r)"
      using inside(1) by (intro unat_u64_sub) (simp add: u64_nat)
    with ReadClusters_ok [OF V r(2) n(1,2) rc] range Some
    have "inv (ns_volume st1)" "st1 = st\<lparr>ns_volume := ns_volume st1\<rparr>"
      "b = medium_range (runs_medium content ?cs (rl_runs (na_runs a))) (unat vcn * ?cs) (unat n * ?cs)"
      by simp_all
    then show ?thesis using read rc Some a(1) by (auto simp: ReadRunClusters_def split: option.splits)
  qed
qed

lemma raw_loop_ok:
  fixes V :: "'v volume"
  assumes V: "vol_read V = vread" "geometry_ok V" and a: "na_decrypt a = None" "runs_sorted 0 (rl_runs (na_runs a))"
  defines "S \<equiv> runs_medium content (cluster_size V) (rl_runs (na_runs a))"
  shows "inv (ns_volume st) \<Longrightarrow> length out = unat clusters * cluster_size V \<Longrightarrow>
     (unat actural + unat clusters) * cluster_size V < 4294967296 \<Longrightarrow> unat vcn + unat clusters < 18446744073709551616 \<Longrightarrow>
     \<exists>act buf st'. raw_loop V a vcn clusters actural written out st = Some (Some (act * cluster_bytes_of V), buf, st') \<and>
       inv (ns_volume st') \<and> st' = st\<lparr>ns_volume := ns_volume st'\<rparr> \<and> length buf = length written + length out \<and>
       (case medium_range S (unat vcn * cluster_size V) (unat clusters * cluster_size V) of
          None \<Rightarrow> unat act < unat actural + unat clusters
        | Some bytes \<Rightarrow> unat act = unat actural + unat clusters \<and> buf = written @ bytes)"
proof (induction "unat clusters" arbitrary: vcn clusters actural written out st rule: less_induct)
  case less
  let ?cs = "cluster_size V"
  have cs: "0 < ?cs" using V(2) by (simp add: geometry_ok_def)
  show ?case
  proof (cases "clusters = 0")
    case True
    then show ?thesis using less.prems by (auto simp: raw_loop.simps)
  next
    case False
    then have pos: "0 < unat clusters" by (simp add: unat_gt_0)
    show ?thesis
    proof (cases "FindRun (na_runs a) vcn")
      case None
      then have "find (\<lambda>r. covers r (unat vcn)) (rl_runs (na_runs a)) = None"
        using find_covers_eq [OF a(2)] by (simp add: FindRun_def)
      then have "S (unat vcn * ?cs + 0) = None" using cs by (simp add: S_def runs_medium_def cluster_at_def)
      then have "medium_range S (unat vcn * ?cs) (unat clusters * ?cs) = None"
        unfolding medium_range_None using pos cs by (intro exI [of _ 0]) simp
      then show ?thesis using None False less.prems pos
        by (subst raw_loop.simps) auto
    next
      case (Some r)
      then have r: "r \<in> set (rl_runs (na_runs a))" "covers r (unat vcn)"
        using find_covers_eq [OF a(2)] find_covers_Some [OF a(2)] by (simp_all add: FindRun_def)
      then have plain: "run_plain r" using runs_sorted_plain [OF a(2)] by blast
      define vcns where "vcns = re_last_vcn r - vcn + 1"
      have le: "vcn \<le> re_last_vcn r" using r(2) plain by (simp add: covers_def run_plain_def u64_nat)
      have top: "unat (re_last_vcn r) + 1 < 18446744073709551616" using plain by (simp add: run_plain_def)
      have "unat (re_last_vcn r - vcn) = unat (re_last_vcn r) - unat vcn" using le by (rule unat_u64_sub)
      then have vcns: "unat vcns = unat (re_last_vcn r) - unat vcn + 1"
        unfolding vcns_def using top by (subst unat_u64_add) simp_all
      define n where "n = (if clusters > vcns then vcns else clusters)"
      have n: "0 < unat n" "unat n \<le> unat clusters" "unat n \<le> unat vcns"
        using pos vcns by (auto simp: n_def u64_nat)
      have inside: "unat (re_start_vcn r) \<le> unat vcn" "unat vcn + unat n \<le> unat (re_start_vcn r) + unat (re_clusters r)"
        using r(2) plain n(3) vcns le [unfolded u64_le_nat] unfolding covers_def run_plain_def by linarith+
      have room: "unat n * ?cs \<le> length out" using less.prems(2) mult_le_mono1 [OF n(2), of ?cs] by simp
      have "unat clusters * ?cs < 4294967296" using less.prems(3) by (simp add: add_mult_distrib)
      then have small: "unat n * ?cs < 4294967296" using mult_le_mono1 [OF n(2), of ?cs] by linarith
      obtain status out1 st1 where rr: "ReadRunClusters V a r vcn n out st = (status, out1, st1)"
        by (cases "ReadRunClusters V a r vcn n out st") auto
      note step = ReadRunClusters_ok [OF V a r(1) less.prems(1) n(1) small room inside rr, folded S_def]
      have adv: "unat (n * cluster_bytes_of V) = unat n * ?cs" using small by (intro unat_clusters) simp
      have split: "unat clusters = unat n + (unat clusters - unat n)" using n(2) by simp
      note range = medium_range_split [of S "unat vcn * ?cs" "unat n * ?cs" "(unat clusters - unat n) * ?cs",
          folded add_mult_distrib, folded split]
      note unfolded = raw_loop.simps [of V a vcn clusters actural written out st, unfolded Some, simplified False if_False Let_def option.case,
          folded vcns_def, folded n_def]
      show ?thesis
      proof (cases "medium_range S (unat vcn * ?cs) (unat n * ?cs)")
        case None
        then have "status = ShortRead" "out1 = out" using step by simp_all
        then show ?thesis using None range unfolded rr step pos by (auto split: option.splits)
      next
        case bytes: (Some bytes)
        then have st: "status = RunDone" "out1 = write_front bytes out" and len: "length bytes = unat n * ?cs"
          using step medium_range_length [OF bytes] by simp_all
        define rest where "rest = clusters - n"
        have rest: "unat rest = unat clusters - unat n" unfolding rest_def using n(2) by (intro unat_u64_sub) (simp add: u64_nat)
        have vn: "unat (vcn + n) = unat vcn + unat n" using less.prems(4) n(2) by (intro unat_u64_add) linarith
        have "unat actural + unat clusters \<le> (unat actural + unat clusters) * ?cs" using cs by simp
        then have an: "unat (actural + n) = unat actural + unat n" using less.prems(3) n(2) by (intro unat_u64_add) linarith
        have "raw_loop V a vcn clusters actural written out st =
            raw_loop V a (vcn + n) rest (actural + n) (written @ bytes) (drop (unat n * ?cs) out) st1"
          unfolding unfolded rr st using len by (simp add: adv write_front_def rest_def)
        note jump = this
        have "\<exists>act buf st'. raw_loop V a (vcn + n) rest (actural + n) (written @ bytes) (drop (unat n * ?cs) out) st1 =
            Some (Some (act * cluster_bytes_of V), buf, st') \<and>
            inv (ns_volume st') \<and> st' = st1\<lparr>ns_volume := ns_volume st'\<rparr> \<and>
            length buf = length (written @ bytes) + length (drop (unat n * ?cs) out) \<and>
            (case medium_range S (unat (vcn + n) * ?cs) (unat rest * ?cs) of
               None \<Rightarrow> unat act < unat (actural + n) + unat rest
             | Some bytes' \<Rightarrow> unat act = unat (actural + n) + unat rest \<and> buf = (written @ bytes) @ bytes')"
        proof (rule less.hyps)
          show "unat rest < unat clusters" using rest n pos by linarith
          show "inv (ns_volume st1)" using step by blast
          show "length (drop (unat n * ?cs) out) = unat rest * ?cs" using less.prems(2) rest by (simp add: diff_mult_distrib)
          show "(unat (actural + n) + unat rest) * ?cs < 4294967296" using less.prems(3) an rest n(2) by simp
          show "unat (vcn + n) + unat rest < 18446744073709551616" using less.prems(4) vn rest n(2) by simp
        qed
        then obtain act buf st' where go: "raw_loop V a (vcn + n) rest (actural + n) (written @ bytes) (drop (unat n * ?cs) out) st1 =
            Some (Some (act * cluster_bytes_of V), buf, st')" "inv (ns_volume st')" "st' = st1\<lparr>ns_volume := ns_volume st'\<rparr>"
            "length buf = length (written @ bytes) + length (drop (unat n * ?cs) out)"
            "case medium_range S (unat (vcn + n) * ?cs) (unat rest * ?cs) of
               None \<Rightarrow> unat act < unat (actural + n) + unat rest
             | Some bytes' \<Rightarrow> unat act = unat (actural + n) + unat rest \<and> buf = (written @ bytes) @ bytes'"
          by blast
        have keep: "st' = st\<lparr>ns_volume := ns_volume st'\<rparr>"
        proof -
          obtain v1 where "st1 = st\<lparr>ns_volume := v1\<rparr>" using step by blast
          moreover obtain v2 where "st' = st1\<lparr>ns_volume := v2\<rparr>" using go(3) by blast
          ultimately have "st' = st\<lparr>ns_volume := v2\<rparr>" by simp
          then show ?thesis by simp
        qed
        have tail: "medium_range S (unat (vcn + n) * ?cs) (unat rest * ?cs) =
            medium_range S ((unat vcn + unat n) * ?cs) ((unat clusters - unat n) * ?cs)" using vn rest by simp
        have count: "unat (actural + n) + unat rest = unat actural + unat clusters" using an rest n(2) by simp
        have "length buf = length written + length out" using go(4) len room by simp
        moreover have "case medium_range S (unat vcn * ?cs) (unat clusters * ?cs) of
            None \<Rightarrow> unat act < unat actural + unat clusters
          | Some bytes \<Rightarrow> unat act = unat actural + unat clusters \<and> buf = written @ bytes"
        proof (cases "medium_range S ((unat vcn + unat n) * ?cs) ((unat clusters - unat n) * ?cs)")
          case None
          then show ?thesis using go(5) range bytes unfolding tail count by simp
        next
          case (Some bytes')
          then show ?thesis using go(5) range bytes unfolding tail count by simp
        qed
        moreover note trans [OF jump go(1)]
        ultimately show ?thesis using go(2) keep by blast
      qed
    qed
  qed
qed

lemma ReadVirtualClustersRaw_ok:
  fixes V :: "'v volume"
  assumes V: "vol_read V = vread" "geometry_ok V" and a: "na_decrypt a = None"
      "AttrTotalClusters a = 0 \<or> runs_sorted 0 (rl_runs (na_runs a))"
    and n: "clusters \<noteq> 0" "unat clusters * cluster_size V < 4294967296" "unat vcn + unat clusters < 18446744073709551616"
    and st: "inv (ns_volume st)" and buffer: "length buffer = unat clusters * cluster_size V"
  shows "\<exists>len buf st'. ReadVirtualClustersRaw V a vcn clusters buffer st = Some (len, buf, st') \<and>
      inv (ns_volume st') \<and> st' = st\<lparr>ns_volume := ns_volume st'\<rparr> \<and> length buf = length buffer \<and>
      (case medium_range (plain_stream content V a) (unat vcn * cluster_size V) (unat clusters * cluster_size V) of
         None \<Rightarrow> len \<noteq> Some (clusters * cluster_bytes_of V)
       | Some bytes \<Rightarrow> len = Some (clusters * cluster_bytes_of V) \<and> buf = bytes)"
proof -
  let ?cs = "cluster_size V"
  let ?total = "unat (AttrTotalClusters a)"
  have cs: "0 < ?cs" using V(2) by (simp add: geometry_ok_def)
  have pos: "0 < unat clusters" using n(1) by (simp add: unat_gt_0)
  have fin: "unat (vcn + clusters) = unat vcn + unat clusters" using n(3) by (rule unat_u64_add)
  have div: "(unat vcn * ?cs + k) div ?cs = unat vcn + k div ?cs" for k using cs by simp
  show ?thesis
  proof (cases "vcn + clusters > AttrTotalClusters a")
    case True
    then have past: "?total < unat vcn + unat clusters" by (simp add: u64_less_nat fin)
    have "(unat clusters - 1) * ?cs < unat clusters * ?cs" using pos cs by simp
    moreover have "plain_stream content V a (unat vcn * ?cs + (unat clusters - 1) * ?cs) = None"
    proof -
      have "\<not> unat vcn + (unat clusters - 1) < ?total" using past pos by linarith
      then show ?thesis using cs by (simp only: plain_stream_def div nonzero_mult_div_cancel_right if_False neq0_conv)
    qed
    ultimately have "medium_range (plain_stream content V a) (unat vcn * ?cs) (unat clusters * ?cs) = None"
      unfolding medium_range_None by blast
    then show ?thesis using True st by (simp add: ReadVirtualClustersRaw_def)
  next
    case False
    then have inside: "unat vcn + unat clusters \<le> ?total" by (simp add: u64_less_nat fin)
    then have sorted: "runs_sorted 0 (rl_runs (na_runs a))" using a(2) pos by auto
    have same: "medium_range (plain_stream content V a) (unat vcn * ?cs) (unat clusters * ?cs) =
        medium_range (runs_medium content ?cs (rl_runs (na_runs a))) (unat vcn * ?cs) (unat clusters * ?cs)"
    proof (rule medium_range_cong)
      fix k
      assume "k < unat clusters * ?cs"
      then have "k div ?cs < unat clusters" using cs by (simp add: div_less_iff_less_mult)
      then show "plain_stream content V a (unat vcn * ?cs + k) =
          runs_medium content ?cs (rl_runs (na_runs a)) (unat vcn * ?cs + k)"
        using inside by (simp add: plain_stream_def div)
    qed
    obtain act buf st' where go: "raw_loop V a vcn clusters 0 [] buffer st = Some (Some (act * cluster_bytes_of V), buf, st')"
      "inv (ns_volume st')" "st' = st\<lparr>ns_volume := ns_volume st'\<rparr>" "length buf = length buffer"
      "case medium_range (runs_medium content ?cs (rl_runs (na_runs a))) (unat vcn * ?cs) (unat clusters * ?cs) of
         None \<Rightarrow> unat act < unat clusters | Some bytes \<Rightarrow> unat act = unat clusters \<and> buf = bytes"
      using raw_loop_ok [OF V a(1) sorted st buffer, of 0 vcn "[]", unfolded unat_0 add_0 append_Nil list.size, OF n(2,3)]
      by blast
    have "act * cluster_bytes_of V \<noteq> clusters * cluster_bytes_of V" if "unat act < unat clusters"
    proof -
      have "unat act * ?cs < unat clusters * ?cs" using that cs by simp
      then have "unat (act * cluster_bytes_of V) \<noteq> unat (clusters * cluster_bytes_of V)"
        using n(2) unat_clusters [of act V] unat_clusters [of clusters V] by linarith
      then show ?thesis by metis
    qed
    moreover have "act = clusters" if "unat act = unat clusters" using that by (rule unat_u64_inj)
    ultimately have "case medium_range (plain_stream content V a) (unat vcn * ?cs) (unat clusters * ?cs) of
         None \<Rightarrow> Some (act * cluster_bytes_of V) \<noteq> Some (clusters * cluster_bytes_of V)
       | Some bytes \<Rightarrow> Some (act * cluster_bytes_of V) = Some (clusters * cluster_bytes_of V) \<and> buf = bytes"
      using go(5) unfolding same by (cases "medium_range (runs_medium content ?cs (rl_runs (na_runs a))) (unat vcn * ?cs) (unat clusters * ?cs)") simp_all
    moreover have "ReadVirtualClustersRaw V a vcn clusters buffer st = Some (Some (act * cluster_bytes_of V), buf, st')"
      using False go(1) by (simp add: ReadVirtualClustersRaw_def)
    ultimately show ?thesis using go(2,3,4) by blast
  qed
qed

lemma raw_into_zeros:
  fixes V :: "'v volume"
  assumes V: "vol_read V = vread" "geometry_ok V" and a: "attr_ok V a"
    and n: "clusters \<noteq> 0" "unat clusters * cluster_size V < 4294967296" "unat vcn + unat clusters < 18446744073709551616"
    and st: "inv (ns_volume st)"
  shows "\<exists>len buf st'. ReadVirtualClustersRaw V a vcn clusters (replicate (unat (clusters * cluster_bytes_of V)) 0) st = Some (len, buf, st') \<and>
      inv (ns_volume st') \<and> st' = st\<lparr>ns_volume := ns_volume st'\<rparr> \<and> of_nat (length buf) = clusters * cluster_bytes_of V \<and>
      (case medium_range (plain_stream content V a) (unat vcn * cluster_size V) (unat clusters * cluster_size V) of
         None \<Rightarrow> len \<noteq> Some (clusters * cluster_bytes_of V)
       | Some bytes \<Rightarrow> len = Some (clusters * cluster_bytes_of V) \<and> buf = bytes)"
proof -
  have len: "unat (clusters * cluster_bytes_of V) = unat clusters * cluster_size V" using n(2) by (intro unat_clusters) simp
  have "of_nat (unat clusters * cluster_size V) = clusters * cluster_bytes_of V"
    unfolding len [symmetric] by (simp add: of_nat_unat)
  then show ?thesis
    using ReadVirtualClustersRaw_ok [OF V _ _ n st, of a "replicate (unat clusters * cluster_size V) 0"] a
    unfolding len by (auto simp: attr_ok_def)
qed

lemma FillCompressionUnit_ok:
  fixes V :: "'v volume"
  assumes V: "vol_read V = vread" "geometry_ok V" and a: "attr_ok V a" and st: "inv (ns_volume st)"
    and n: "unat unit_clusters * cluster_size V \<le> 1048576" "unat first + unat unit_clusters < 18446744073709551616"
      "unat real_clusters \<le> unat unit_clusters" "unat first * cluster_size V < 18446744073709551616"
  shows "\<exists>got st'. FillCompressionUnit V a first unit_clusters real_clusters (replicate (unat (unit_clusters * cluster_bytes_of V)) 0) st = Some (got, st') \<and>
      inv (ns_volume st') \<and> st' = st\<lparr>ns_volume := ns_volume st'\<rparr> \<and>
      got = (if real_clusters = 0 then Some (replicate (unat unit_clusters * cluster_size V) 0)
             else if real_clusters = unit_clusters then
               medium_range (plain_stream content V a) (unat first * cluster_size V) (unat unit_clusters * cluster_size V)
             else
               case medium_range (plain_stream content V a) (unat first * cluster_size V) (unat real_clusters * cluster_size V) of
                 None \<Rightarrow> None
               | Some compressed \<Rightarrow>
                   (case Decompress compressed (replicate (unat unit_clusters * cluster_size V) 0) of
                      Inl e \<Rightarrow> None
                    | Inr (produced, bytes) \<Rightarrow>
                        if produced < min (unat (hn_real_size (na_header a)) - unat first * cluster_size V) (unat unit_clusters * cluster_size V)
                        then None else Some bytes))"
proof -
  let ?cs = "cluster_size V"
  have size: "unat (unit_clusters * cluster_bytes_of V) = unat unit_clusters * ?cs" using n(1) by (intro unat_clusters) simp
  have first_byte: "unat (first * cluster_bytes_of V) = unat first * ?cs" using n(4) by (rule unat_clusters)
  have real_small: "unat real_clusters * ?cs < 4294967296" using mult_le_mono1 [OF n(3), of ?cs] n(1) by linarith
  have required: "required_size V a first m = min (unat (hn_real_size (na_header a)) - unat first * ?cs) m" for m
  proof (cases "hn_real_size (na_header a) > first * cluster_bytes_of V")
    case True
    then show ?thesis using unat_u64_sub [of "first * cluster_bytes_of V" "hn_real_size (na_header a)"] first_byte
      by (simp add: required_size_def)
  next
    case False
    then show ?thesis using first_byte by (simp add: required_size_def u64_nat)
  qed
  consider "real_clusters = 0" | "real_clusters \<noteq> 0" "real_clusters = unit_clusters"
    | "real_clusters \<noteq> 0" "real_clusters \<noteq> unit_clusters" by blast
  then show ?thesis
  proof cases
    case 1
    then show ?thesis using st size by (simp add: FillCompressionUnit_def)
  next
    case 2
    obtain len buf st' where go: "ReadVirtualClustersRaw V a first unit_clusters (replicate (unat (unit_clusters * cluster_bytes_of V)) 0) st =
        Some (len, buf, st')" "inv (ns_volume st')" "st' = st\<lparr>ns_volume := ns_volume st'\<rparr>"
      "case medium_range (plain_stream content V a) (unat first * ?cs) (unat unit_clusters * ?cs) of
         None \<Rightarrow> len \<noteq> Some (unit_clusters * cluster_bytes_of V)
       | Some bytes \<Rightarrow> len = Some (unit_clusters * cluster_bytes_of V) \<and> buf = bytes"
      using raw_into_zeros [OF V a _ _ _ st, of unit_clusters first] 2 n(1,2) by force
    have "FillCompressionUnit V a first unit_clusters real_clusters (replicate (unat (unit_clusters * cluster_bytes_of V)) 0) st =
        Some (medium_range (plain_stream content V a) (unat first * ?cs) (unat unit_clusters * ?cs), st')"
      using 2 go(1,4) by (auto simp: FillCompressionUnit_def split: option.splits)
    then show ?thesis using 2 go(2,3) by simp
  next
    case 3
    define k where "k = unat unit_clusters * ?cs"
    have sum: "unat first + unat real_clusters < 18446744073709551616" using n(2,3) by linarith
    obtain len buf st' where go: "ReadVirtualClustersRaw V a first real_clusters (replicate (unat (real_clusters * cluster_bytes_of V)) 0) st =
        Some (len, buf, st')" "inv (ns_volume st')" "st' = st\<lparr>ns_volume := ns_volume st'\<rparr>" "of_nat (length buf) = real_clusters * cluster_bytes_of V"
      "case medium_range (plain_stream content V a) (unat first * ?cs) (unat real_clusters * ?cs) of
         None \<Rightarrow> len \<noteq> Some (real_clusters * cluster_bytes_of V)
       | Some bytes \<Rightarrow> len = Some (real_clusters * cluster_bytes_of V) \<and> buf = bytes"
      using raw_into_zeros [OF V a 3(1) real_small sum st] by blast
    have same_length: "length bytes = k" if "Decompress compressed (replicate k 0) = Inr (produced, bytes)" for compressed produced bytes
      using decompress_writes_prefix [OF that] by simp
    have "FillCompressionUnit V a first unit_clusters real_clusters (replicate (unat (unit_clusters * cluster_bytes_of V)) 0) st =
        DecompressUnit V a first real_clusters (replicate k 0) st"
      using 3 size by (simp add: FillCompressionUnit_def k_def)
    also have "\<dots> = Some (case medium_range (plain_stream content V a) (unat first * ?cs) (unat real_clusters * ?cs) of
                 None \<Rightarrow> None
               | Some compressed \<Rightarrow>
                   (case Decompress compressed (replicate k 0) of
                      Inl e \<Rightarrow> None
                    | Inr (produced, bytes) \<Rightarrow>
                        if produced < min (unat (hn_real_size (na_header a)) - unat first * ?cs) k then None else Some bytes), st')"
      using go(1,4,5)
      by (auto simp: DecompressUnit_def Let_def required dest: same_length split: option.splits sum.splits)
    finally show ?thesis using 3 go(2,3) unfolding k_def by simp
  qed
qed

lemma GetCompressionUnit_ok:
  fixes V :: "'v volume"
  assumes V: "vol_read V = vread" "geometry_ok V" and a: "attr_ok V a"
    and st: "inv (ns_volume st)" "units_true content V a st"
    and u: "unit_first a (unat w) < unat (AttrTotalClusters a)" "unit_first a (unat w) * cluster_size V < 18446744073709551616"
  shows "\<exists>st'. GetCompressionUnit V a w st = Some (unit_content content V a (unat w), st') \<and>
      inv (ns_volume st') \<and> units_true content V a st' \<and> ns_cluster_buffer st' = ns_cluster_buffer st"
proof (cases "ns_units st w")
  case (Some bytes)
  then show ?thesis using st by (auto simp: GetCompressionUnit_def units_true_def)
next
  case None
  let ?cs = "cluster_size V" and ?cuc = "na_comp_unit_clusters a"
  define first where "first = w * ?cuc"
  define n where "n = UnitClusters a first"
  have bound: "unat (AttrTotalClusters a) < 18446744073709551616" by (rule unat_u64_bound)
  then have first: "unat first = unit_first a (unat w)"
    using u(1) unfolding first_def unit_first_def by (intro unat_u64_mult) linarith
  then have "first \<le> AttrTotalClusters a" using u(1) by (simp add: u64_nat)
  then have "unat (AttrTotalClusters a - first) = unat (AttrTotalClusters a) - unat first" by (rule unat_u64_sub)
  then have n: "unat n = unit_length a (unat w)"
    by (auto simp: n_def UnitClusters_def Let_def unit_length_def first u64_less_nat)
  have small: "unat n * ?cs \<le> 1048576"
  proof -
    have "unat n \<le> unat ?cuc" by (simp add: n unit_length_def)
    then have "unat n * ?cs \<le> unat ?cuc * ?cs" by (rule mult_le_mono1)
    also have "\<dots> \<le> 1048576" using a unfolding attr_ok_def by blast
    finally show ?thesis .
  qed
  have sum: "unat first + unat n < 18446744073709551616" using u(1) bound by (simp add: first n unit_length_def)
  have words: "of_nat (unit_first a (unat w)) = first" "of_nat (unit_length a (unat w)) = n"
    by (simp_all add: first [symmetric] n [symmetric] of_nat_unat)
  have sorted: "runs_sorted 0 (rl_runs (na_runs a))" using a u(1) by (auto simp: attr_ok_def)
  show ?thesis
  proof (cases "LeadingRealClusters (na_runs a) first n")
    case none: None
    then show ?thesis using None st by (simp add: GetCompressionUnit_def Let_def first_def [symmetric] n_def [symmetric] unit_content_def words)
  next
    case (Some r)
    have r: "unat r \<le> unat n" using LeadingRealClusters_le [OF sorted sum Some] .
    have addr: "unat first * ?cs < 18446744073709551616" using u(2) by (simp add: first)
    obtain got st1 where fill: "FillCompressionUnit V a first n r (replicate (unat (n * cluster_bytes_of V)) 0) st = Some (got, st1)"
      "inv (ns_volume st1)" "st1 = st\<lparr>ns_volume := ns_volume st1\<rparr>"
      and got: "got = (if r = 0 then Some (replicate (unat n * ?cs) 0)
             else if r = n then medium_range (plain_stream content V a) (unat first * ?cs) (unat n * ?cs)
             else
               case medium_range (plain_stream content V a) (unat first * ?cs) (unat r * ?cs) of
                 None \<Rightarrow> None
               | Some compressed \<Rightarrow>
                   (case Decompress compressed (replicate (unat n * ?cs) 0) of
                      Inl e \<Rightarrow> None
                    | Inr (produced, bytes) \<Rightarrow>
                        if produced < min (unat (hn_real_size (na_header a)) - unat first * ?cs) (unat n * ?cs)
                        then None else Some bytes))"
      using FillCompressionUnit_ok [OF V a st(1) small sum r addr] by blast
    have "unat r = unat n \<longleftrightarrow> r = n" using unat_u64_inj by metis
    then have content: "got = unit_content content V a (unat w)"
      using Some unfolding unit_content_def Let_def words got first n [symmetric] by simp
    obtain v1 where st1: "st1 = st\<lparr>ns_volume := v1\<rparr>" using fill(3) by blast
    have keep: "ns_units st1 = ns_units st" "ns_cluster_buffer st1 = ns_cluster_buffer st" by (simp_all add: st1)
    have go: "GetCompressionUnit V a w st =
        (case got of None \<Rightarrow> Some (None, st1)
         | Some comp_unit \<Rightarrow> Some (Some comp_unit,
             st1\<lparr>ns_units := (if vol_full_cache V then ns_units st1 else Map.empty)(w \<mapsto> comp_unit)\<rparr>))"
      using None Some fill(1) by (simp add: GetCompressionUnit_def Let_def first_def [symmetric] n_def [symmetric] split: option.splits)
    show ?thesis
    proof (cases got)
      case no: None
      then show ?thesis using go content fill(2) keep st(2) by (simp add: units_true_def)
    next
      case bytes: (Some bytes)
      then show ?thesis using go content fill(2) keep st(2) by (simp add: units_true_def)
    qed
  qed
qed

lemma compressed_loop_ok:
  fixes V :: "'v volume"
  assumes V: "vol_read V = vread" "geometry_ok V" and a: "attr_ok V a" "na_comp_unit_clusters a \<noteq> 0"
  defines "S \<equiv> unit_stream content V a"
  shows "inv (ns_volume st) \<Longrightarrow> units_true content V a st \<Longrightarrow> length out = unat clusters * cluster_size V \<Longrightarrow>
     (unat actural + unat clusters) * cluster_size V < 4294967296 \<Longrightarrow> unat vcn + unat clusters \<le> unat (AttrTotalClusters a) \<Longrightarrow>
     (unat vcn + unat clusters - 1) * cluster_size V < 18446744073709551616 \<Longrightarrow>
     \<exists>act buf st'. compressed_loop V a vcn clusters actural written out st = Some (Some (act * cluster_bytes_of V), buf, st') \<and>
       inv (ns_volume st') \<and> units_true content V a st' \<and> ns_cluster_buffer st' = ns_cluster_buffer st \<and>
       length buf = length written + length out \<and>
       (case medium_range S (unat vcn * cluster_size V) (unat clusters * cluster_size V) of
          None \<Rightarrow> unat act < unat actural + unat clusters
        | Some bytes \<Rightarrow> unat act = unat actural + unat clusters \<and> buf = written @ bytes)"
proof (induction "unat clusters" arbitrary: vcn clusters actural written out st rule: less_induct)
  case less
  let ?cs = "cluster_size V" and ?cuc = "na_comp_unit_clusters a"
  have cs: "0 < ?cs" using V(2) by (simp add: geometry_ok_def)
  have cuc: "0 < unat ?cuc" using a(2) by (simp add: unat_gt_0)
  show ?case
  proof (cases "clusters = 0")
    case True
    then show ?thesis using less.prems by (auto simp: compressed_loop.simps)
  next
    case False
    then have pos: "0 < unat clusters" by (simp add: unat_gt_0)
    define w where "w = vcn div ?cuc"
    have w: "unat w = unat vcn div unat ?cuc" by (simp add: w_def unat_div)
    have below: "unat vcn < unat (AttrTotalClusters a)" using less.prems(5) pos by linarith
    note chunk = unit_stream_range(1,2) [OF cs below cuc, folded w]
      unit_stream_range(3,4) [OF cs below cuc, where content = content, folded w, folded S_def]
    have first: "unit_first a (unat w) < unat (AttrTotalClusters a)" using chunk(2) below by linarith
    have "unat vcn \<le> unat vcn + unat clusters - 1" using pos by linarith
    then have "unit_first a (unat w) \<le> unat vcn + unat clusters - 1" using chunk(2) by linarith
    then have "unit_first a (unat w) * ?cs \<le> (unat vcn + unat clusters - 1) * ?cs" by (rule mult_le_mono1)
    then have addr: "unit_first a (unat w) * ?cs < 18446744073709551616" using less.prems(6) by linarith
    obtain st1 where get: "GetCompressionUnit V a w st = Some (unit_content content V a (unat w), st1)"
      "inv (ns_volume st1)" "units_true content V a st1" "ns_cluster_buffer st1 = ns_cluster_buffer st"
      using GetCompressionUnit_ok [OF V a(1) less.prems(1,2) first addr] by blast
    note unfolded = compressed_loop.simps [of V a vcn clusters actural written out st, simplified False if_False, folded w_def, unfolded get(1),
        simplified]
    show ?thesis
    proof (cases "unit_content content V a (unat w)")
      case None
      then have "S (unat vcn * ?cs + 0) = None" using chunk(3) by simp
      then have "medium_range S (unat vcn * ?cs) (unat clusters * ?cs) = None"
        unfolding medium_range_None using pos cs by (intro exI [of _ 0]) simp
      then show ?thesis using unfolded None get(2,3,4) pos by auto
    next
      case (Some comp_unit)
      define off where "off = vcn - w * ?cuc"
      define units where "units = (of_nat (length comp_unit) div cluster_bytes_of V :: u64)"
      have bound: "unat (AttrTotalClusters a) < 18446744073709551616" by (rule unat_u64_bound)
      have wc: "unat (w * ?cuc) = unit_first a (unat w)" unfolding unit_first_def
        using first bound by (intro unat_u64_mult) (simp add: unit_first_def)
      have off: "unat off = unat vcn - unit_first a (unat w)"
        unfolding off_def using chunk(2) wc by (subst unat_u64_sub) (simp_all add: u64_nat)
      have ul: "unit_length a (unat w) \<le> unat ?cuc" by (simp add: unit_length_def)
      have "unit_length a (unat w) * ?cs \<le> unat ?cuc * ?cs" using ul by (rule mult_le_mono1)
      also have "\<dots> \<le> 1048576" using a(1) unfolding attr_ok_def by blast
      finally have "unit_length a (unat w) * ?cs < 18446744073709551616" by simp
      then have units: "unat units = unit_length a (unat w)"
        unfolding units_def unit_content_length [OF Some] unat_div unat_cluster_bytes
        using cs by (subst unat_of_nat_u64) simp_all
      have inside: "\<not> off \<ge> units" using chunk(1) off units by (simp add: u64_nat)
      define n where "n = (if clusters < units - off then clusters else units - off)"
      have room: "unat (units - off) = unit_length a (unat w) - (unat vcn - unit_first a (unat w))"
        using inside off units by (subst unat_u64_sub) simp_all
      have n: "0 < unat n" "unat n \<le> unat clusters" "unat n \<le> unit_length a (unat w) - (unat vcn - unit_first a (unat w))"
        using pos room chunk(1) by (auto simp: n_def u64_nat)
      have "unat clusters * ?cs < 4294967296" using less.prems(4) by (simp add: add_mult_distrib)
      then have small: "unat n * ?cs < 4294967296" using mult_le_mono1 [OF n(2), of ?cs] by linarith
      have fit: "unat n * ?cs \<le> length out" using less.prems(3) mult_le_mono1 [OF n(2), of ?cs] by simp
      have adv: "unat (n * cluster_bytes_of V) = unat n * ?cs" using small by (intro unat_clusters) simp
      have "unat off * ?cs \<le> unat vcn * ?cs" using off by (intro mult_le_mono1) simp
      also have "\<dots> \<le> (unat vcn + unat clusters - 1) * ?cs" using pos by (intro mult_le_mono1) linarith
      finally have src: "unat (off * cluster_bytes_of V) = unat off * ?cs"
        using less.prems(6) by (intro unat_clusters) linarith
      define bytes where "bytes = take (unat n * ?cs) (drop ((unat vcn - unit_first a (unat w)) * ?cs) comp_unit)"
      have range_n: "medium_range S (unat vcn * ?cs) (unat n * ?cs) = Some bytes"
        using chunk(4) [OF Some n(3)] by (simp add: bytes_def)
      have len: "length bytes = unat n * ?cs" by (rule medium_range_length [OF range_n])
      have split: "unat clusters = unat n + (unat clusters - unat n)" using n(2) by simp
      note range = medium_range_split [of S "unat vcn * ?cs" "unat n * ?cs" "(unat clusters - unat n) * ?cs",
          folded add_mult_distrib, folded split]
      define rest where "rest = clusters - n"
      have rest: "unat rest = unat clusters - unat n" unfolding rest_def using n(2) by (intro unat_u64_sub) (simp add: u64_nat)
      have vn: "unat (vcn + n) = unat vcn + unat n" using less.prems(5) bound n(2) by (intro unat_u64_add) linarith
      have "unat actural + unat clusters \<le> (unat actural + unat clusters) * ?cs" using cs by simp
      then have an: "unat (actural + n) = unat actural + unat n" using less.prems(4) n(2) by (intro unat_u64_add) linarith
      have jump: "compressed_loop V a vcn clusters actural written out st =
          compressed_loop V a (vcn + n) rest (actural + n) (written @ bytes) (drop (unat n * ?cs) out) st1"
        using unfolded Some inside
        by (simp add: Let_def off_def [symmetric] units_def [symmetric] n_def [symmetric] adv src off bytes_def rest_def)
      have "\<exists>act buf st'. compressed_loop V a (vcn + n) rest (actural + n) (written @ bytes) (drop (unat n * ?cs) out) st1 =
          Some (Some (act * cluster_bytes_of V), buf, st') \<and>
          inv (ns_volume st') \<and> units_true content V a st' \<and> ns_cluster_buffer st' = ns_cluster_buffer st1 \<and>
          length buf = length (written @ bytes) + length (drop (unat n * ?cs) out) \<and>
          (case medium_range S (unat (vcn + n) * ?cs) (unat rest * ?cs) of
             None \<Rightarrow> unat act < unat (actural + n) + unat rest
           | Some bytes' \<Rightarrow> unat act = unat (actural + n) + unat rest \<and> buf = (written @ bytes) @ bytes')"
      proof (rule less.hyps)
        show "unat rest < unat clusters" using rest n pos by linarith
        show "inv (ns_volume st1)" "units_true content V a st1" by (rule get)+
        show "length (drop (unat n * ?cs) out) = unat rest * ?cs" using less.prems(3) rest by (simp add: diff_mult_distrib)
        show "(unat (actural + n) + unat rest) * ?cs < 4294967296" using less.prems(4) an rest n(2) by simp
        show "unat (vcn + n) + unat rest \<le> unat (AttrTotalClusters a)" using less.prems(5) vn rest n(2) by simp
        show "(unat (vcn + n) + unat rest - 1) * ?cs < 18446744073709551616" using less.prems(6) vn rest n(2) by simp
      qed
      then obtain act buf st' where go: "compressed_loop V a (vcn + n) rest (actural + n) (written @ bytes) (drop (unat n * ?cs) out) st1 =
          Some (Some (act * cluster_bytes_of V), buf, st')" "inv (ns_volume st')" "units_true content V a st'"
          "ns_cluster_buffer st' = ns_cluster_buffer st1"
          "length buf = length (written @ bytes) + length (drop (unat n * ?cs) out)"
          "case medium_range S (unat (vcn + n) * ?cs) (unat rest * ?cs) of
             None \<Rightarrow> unat act < unat (actural + n) + unat rest
           | Some bytes' \<Rightarrow> unat act = unat (actural + n) + unat rest \<and> buf = (written @ bytes) @ bytes'"
        by blast
      have tail: "medium_range S (unat (vcn + n) * ?cs) (unat rest * ?cs) =
          medium_range S ((unat vcn + unat n) * ?cs) ((unat clusters - unat n) * ?cs)" using vn rest by simp
      have count: "unat (actural + n) + unat rest = unat actural + unat clusters" using an rest n(2) by simp
      have "length buf = length written + length out" using go(5) len fit by simp
      moreover have "case medium_range S (unat vcn * ?cs) (unat clusters * ?cs) of
          None \<Rightarrow> unat act < unat actural + unat clusters
        | Some bytes \<Rightarrow> unat act = unat actural + unat clusters \<and> buf = written @ bytes"
      proof (cases "medium_range S ((unat vcn + unat n) * ?cs) ((unat clusters - unat n) * ?cs)")
        case None
        then show ?thesis using go(6) range range_n unfolding tail count by simp
      next
        case (Some bytes')
        then show ?thesis using go(6) range range_n unfolding tail count by simp
      qed
      moreover note trans [OF jump go(1)]
      moreover have "ns_cluster_buffer st' = ns_cluster_buffer st" using go(4) get(4) by simp
      ultimately show ?thesis using go(2,3) by blast
    qed
  qed
qed

lemma ReadVirtualClusters_ok:
  fixes V :: "'v volume"
  assumes V: "vol_read V = vread" "geometry_ok V" and a: "attr_ok V a" and st: "state_ok inv content V a st"
    and n: "clusters \<noteq> 0" "unat clusters * cluster_size V < 4294967296" "unat vcn + unat clusters < 18446744073709551616"
      "(unat vcn + unat clusters - 1) * cluster_size V < 18446744073709551616"
    and buffer: "length buffer = unat clusters * cluster_size V"
  shows "\<exists>len buf st'. ReadVirtualClusters V a vcn clusters buffer st = Some (len, buf, st') \<and>
      state_ok inv content V a st' \<and> length buf = length buffer \<and>
      (case medium_range (stream_medium content V a) (unat vcn * cluster_size V) (unat clusters * cluster_size V) of
         None \<Rightarrow> len \<noteq> Some (clusters * cluster_bytes_of V)
       | Some bytes \<Rightarrow> len = Some (clusters * cluster_bytes_of V) \<and> buf = bytes)"
proof (cases "na_comp_unit_clusters a = 0")
  case True
  have plain: "na_decrypt a = None" "AttrTotalClusters a = 0 \<or> runs_sorted 0 (rl_runs (na_runs a))" "inv (ns_volume st)"
    using a st by (simp_all add: attr_ok_def state_ok_def)
  obtain len buf st' where go: "ReadVirtualClustersRaw V a vcn clusters buffer st = Some (len, buf, st')" "inv (ns_volume st')"
      "st' = st\<lparr>ns_volume := ns_volume st'\<rparr>" "length buf = length buffer"
      "case medium_range (plain_stream content V a) (unat vcn * cluster_size V) (unat clusters * cluster_size V) of
         None \<Rightarrow> len \<noteq> Some (clusters * cluster_bytes_of V)
       | Some bytes \<Rightarrow> len = Some (clusters * cluster_bytes_of V) \<and> buf = bytes"
    using ReadVirtualClustersRaw_ok [OF V plain(1,2) n(1,2,3) plain(3) buffer] by blast
  obtain v where "st' = st\<lparr>ns_volume := v\<rparr>" using go(3) by blast
  then have "state_ok inv content V a st'" using st go(2) by (simp add: state_ok_def units_true_def)
  then show ?thesis using go(1,4,5) True by (simp add: ReadVirtualClusters_def stream_medium_def)
next
  case False
  let ?cs = "cluster_size V" and ?S = "unit_stream content V a"
  have cs: "0 < ?cs" using V(2) by (simp add: geometry_ok_def)
  have pos: "0 < unat clusters" using n(1) by (simp add: unat_gt_0)
  have fin: "unat (vcn + clusters) = unat vcn + unat clusters" using n(3) by (rule unat_u64_add)
  have S: "stream_medium content V a = ?S" using False by (simp add: stream_medium_def)
  show ?thesis
  proof (cases "vcn + clusters > AttrTotalClusters a")
    case True
    then have "\<not> unat vcn + (unat clusters - 1) < unat (AttrTotalClusters a)" using pos by (simp add: u64_less_nat fin)
    moreover have "(unat vcn * ?cs + (unat clusters - 1) * ?cs) div ?cs = unat vcn + (unat clusters - 1)" using cs by simp
    ultimately have "?S (unat vcn * ?cs + (unat clusters - 1) * ?cs) = None" by (simp only: unit_stream_def Let_def if_False)
    moreover have "(unat clusters - 1) * ?cs < unat clusters * ?cs" using pos cs by simp
    ultimately have "medium_range ?S (unat vcn * ?cs) (unat clusters * ?cs) = None" unfolding medium_range_None by blast
    then show ?thesis using True False st by (simp add: ReadVirtualClusters_def ReadVirtualClustersCompressed_def S)
  next
    case inside: False
    then have total: "unat vcn + unat clusters \<le> unat (AttrTotalClusters a)" by (simp add: u64_less_nat fin)
    obtain act buf st' where go: "compressed_loop V a vcn clusters 0 [] buffer st = Some (Some (act * cluster_bytes_of V), buf, st')"
      "inv (ns_volume st')" "units_true content V a st'" "ns_cluster_buffer st' = ns_cluster_buffer st" "length buf = length buffer"
      "case medium_range ?S (unat vcn * ?cs) (unat clusters * ?cs) of
         None \<Rightarrow> unat act < unat clusters | Some bytes \<Rightarrow> unat act = unat clusters \<and> buf = bytes"
      using compressed_loop_ok [OF V a False, of st buffer clusters 0 vcn "[]", unfolded unat_0 add_0 append_Nil list.size,
          OF _ _ buffer n(2) total n(4)] st unfolding state_ok_def by blast
    have "act * cluster_bytes_of V \<noteq> clusters * cluster_bytes_of V" if "unat act < unat clusters"
    proof -
      have "unat act * ?cs < unat clusters * ?cs" using that cs by simp
      then have "unat (act * cluster_bytes_of V) \<noteq> unat (clusters * cluster_bytes_of V)"
        using n(2) unat_clusters [of act V] unat_clusters [of clusters V] by linarith
      then show ?thesis by metis
    qed
    moreover have "act = clusters" if "unat act = unat clusters" using that by (rule unat_u64_inj)
    ultimately have "case medium_range ?S (unat vcn * ?cs) (unat clusters * ?cs) of
         None \<Rightarrow> Some (act * cluster_bytes_of V) \<noteq> Some (clusters * cluster_bytes_of V)
       | Some bytes \<Rightarrow> Some (act * cluster_bytes_of V) = Some (clusters * cluster_bytes_of V) \<and> buf = bytes"
      using go(6) by (cases "medium_range ?S (unat vcn * ?cs) (unat clusters * ?cs)") simp_all
    moreover have "ReadVirtualClusters V a vcn clusters buffer st = Some (Some (act * cluster_bytes_of V), buf, st')"
      using False inside go(1) by (simp add: ReadVirtualClusters_def ReadVirtualClustersCompressed_def)
    moreover have "state_ok inv content V a st'" using st go(2,3,4) by (simp add: state_ok_def)
    ultimately show ?thesis using go(5) unfolding S by blast
  qed
qed

lemma ReadClusterPart_ok:
  fixes V :: "'v volume"
  assumes V: "vol_read V = vread" "geometry_ok V" and a: "attr_ok V a" and st: "state_ok inv content V a st"
    and fit: "from_byte + length out \<le> cluster_size V" and addr: "unat vcn * cluster_size V < 18446744073709551616"
  shows "\<exists>ok out' st'. ReadClusterPart V a vcn from_byte out st = Some (ok, out', st') \<and> state_ok inv content V a st' \<and>
      length out' = length out \<and>
      (case medium_range (stream_medium content V a) (unat vcn * cluster_size V + from_byte) (length out) of
         None \<Rightarrow> \<not> ok | Some bytes \<Rightarrow> ok \<and> out' = bytes)"
proof (cases "out = []")
  case True
  then show ?thesis using st by (auto simp: ReadClusterPart_def)
next
  case False
  let ?cs = "cluster_size V" and ?S = "stream_medium content V a"
  have cs: "0 < ?cs" "256 \<le> ?cs" "?cs \<le> 16777216" using V(2) by (simp_all add: geometry_ok_def)
  have next_vcn: "unat vcn + unat (1 :: u64) < 18446744073709551616" using count_fits [OF addr cs(2)] by simp
  have one: "(1 :: u64) * cluster_bytes_of V = cluster_bytes_of V" by simp
  have pre: "(1 :: u64) \<noteq> 0" "unat (1 :: u64) * ?cs < 4294967296"
    "(unat vcn + unat (1 :: u64) - 1) * ?cs < 18446744073709551616"
    "length (ns_cluster_buffer st) = unat (1 :: u64) * ?cs"
    using cs addr st by (simp_all add: state_ok_def)
  obtain len buf st' where go: "ReadVirtualClusters V a vcn 1 (ns_cluster_buffer st) st = Some (len, buf, st')"
    "state_ok inv content V a st'" "length buf = length (ns_cluster_buffer st)"
    "case medium_range ?S (unat vcn * ?cs) (unat (1 :: u64) * ?cs) of
       None \<Rightarrow> len \<noteq> Some (1 * cluster_bytes_of V)
     | Some bytes \<Rightarrow> len = Some (1 * cluster_bytes_of V) \<and> buf = bytes"
    using ReadVirtualClusters_ok [OF V a st pre(1,2) next_vcn pre(3,4)] by blast
  have "length out \<noteq> 0" using False by simp
  then have part: "medium_range ?S (unat vcn * ?cs + from_byte) (length out) =
      map_option (\<lambda>cluster. take (length out) (drop from_byte cluster)) (medium_range ?S (unat vcn * ?cs) ?cs)"
    using fit by (intro stream_part [OF cs(1)]) simp_all
  have keep: "state_ok inv content V a (st'\<lparr>ns_cluster_buffer := buf\<rparr>)"
    using go(2,3) st by (simp add: state_ok_def units_true_def)
  show ?thesis
  proof (cases "medium_range ?S (unat vcn * ?cs) ?cs")
    case None
    then have "len \<noteq> Some (cluster_bytes_of V)" using go(4) by simp
    then show ?thesis using False go(1) keep part None by (auto simp: ReadClusterPart_def Let_def)
  next
    case (Some bytes)
    then have "len = Some (cluster_bytes_of V)" "buf = bytes" using go(4) by simp_all
    then have "ReadClusterPart V a vcn from_byte out st =
        Some (True, write_front (take (length out) (drop from_byte bytes)) out, st'\<lparr>ns_cluster_buffer := buf\<rparr>)"
      using False go(1) by (simp add: ReadClusterPart_def Let_def)
    moreover have "write_front (take (length out) (drop from_byte bytes)) out = take (length out) (drop from_byte bytes)"
      using medium_range_length [OF Some] fit by (simp add: write_front_def)
    ultimately show ?thesis using keep part Some medium_range_length [OF Some] fit by auto
  qed
qed

lemma ReadLeadingPart_ok:
  fixes V :: "'v volume"
  assumes V: "vol_read V = vread" "geometry_ok V" and a: "attr_ok V a" and st: "state_ok inv content V a st"
  shows "\<exists>h out' st'. ReadLeadingPart V a offset out st = Some (h, out', st') \<and> state_ok inv content V a st' \<and>
      length out' = length out \<and>
      (let n = (if unat offset mod cluster_size V = 0 then 0
                else min (cluster_size V - unat offset mod cluster_size V) (length out))
       in case medium_range (stream_medium content V a) (unat offset) n of
            None \<Rightarrow> h = None | Some bytes \<Rightarrow> h = Some n \<and> out' = bytes @ drop n out)"
proof -
  let ?cs = "cluster_size V" and ?S = "stream_medium content V a"
  have cs: "0 < ?cs" using V(2) by (simp add: geometry_ok_def)
  have words: "unat (offset mod cluster_bytes_of V) = unat offset mod ?cs" "unat (offset div cluster_bytes_of V) = unat offset div ?cs"
    by (simp_all add: unat_mod unat_div)
  show ?thesis
  proof (cases "unat offset mod ?cs = 0")
    case True
    then show ?thesis using st by (simp add: ReadLeadingPart_def Let_def words)
  next
    case False
    define n where "n = min (?cs - unat offset mod ?cs) (length out)"
    have fit: "unat offset mod ?cs + length (take n out) \<le> ?cs"
      using mod_less_divisor [OF cs, of "unat offset"] by (simp add: n_def)
    have "unat offset div ?cs * ?cs \<le> unat offset" by simp
    then have addr: "unat (offset div cluster_bytes_of V) * ?cs < 18446744073709551616"
      using unat_u64_bound [of offset] unfolding words by linarith
    have at: "unat (offset div cluster_bytes_of V) * ?cs + unat offset mod ?cs = unat offset" by (simp add: words)
    have len: "length (take n out) = n" by (simp add: n_def)
    obtain ok part st' where go: "ReadClusterPart V a (offset div cluster_bytes_of V) (unat offset mod ?cs) (take n out) st = Some (ok, part, st')"
      "state_ok inv content V a st'" "length part = n"
      "case medium_range ?S (unat offset) n of None \<Rightarrow> \<not> ok | Some bytes \<Rightarrow> ok \<and> part = bytes"
      using ReadClusterPart_ok [OF V a st fit addr] unfolding at len by blast
    have "ReadLeadingPart V a offset out st = Some (if ok then Some n else None, part @ drop n out, st')"
      using False go(1) by (simp add: ReadLeadingPart_def Let_def words n_def)
    moreover have "length (part @ drop n out) = length out" using go(3) by (simp add: n_def)
    ultimately show ?thesis using go(2,4) False by (auto simp: Let_def n_def [symmetric] split: option.splits)
  qed
qed

lemma ReadFromClusterStart_ok:
  fixes V :: "'v volume"
  assumes V: "vol_read V = vread" "geometry_ok V" and a: "attr_ok V a" and st: "state_ok inv content V a st"
    and size: "length out < 4294967296" "unat vcn * cluster_size V + length out < 18446744073709551616"
  shows "\<exists>ok out' st'. ReadFromClusterStart V a vcn out st = Some (ok, out', st') \<and> state_ok inv content V a st' \<and>
      length out' = length out \<and>
      (case medium_range (stream_medium content V a) (unat vcn * cluster_size V) (length out) of
         None \<Rightarrow> \<not> ok | Some bytes \<Rightarrow> ok \<and> out' = bytes)"
proof -
  let ?cs = "cluster_size V" and ?S = "stream_medium content V a"
  have cs: "0 < ?cs" "256 \<le> ?cs" using V(2) by (simp_all add: geometry_ok_def)
  define q where "q = (of_nat (length out) div cluster_bytes_of V :: u64)"
  have q: "unat q = length out div ?cs" unfolding q_def using size(1) by (simp add: unat_div unat_of_nat_u64)
  have q_size: "unat q * ?cs + length out mod ?cs = length out" by (simp add: q)
  then have q_le: "unat q * ?cs \<le> length out" by linarith
  have aligned: "unat (q * cluster_bytes_of V) = unat q * ?cs" using q_le size(1) by (intro unat_clusters) linarith
  have word: "of_nat (unat q * ?cs) = q * cluster_bytes_of V" unfolding aligned [symmetric] by (simp add: of_nat_unat)
  have prod: "(unat vcn + unat q) * ?cs \<le> unat vcn * ?cs + length out" using q_le by (simp add: add_mult_distrib)
  have sum: "unat vcn + unat q < 18446744073709551616"
    using count_fits [OF le_less_trans [OF prod size(2)] cs(2)] by linarith
  then have vq: "unat (vcn + q) = unat vcn + unat q" by (rule unat_u64_add)
  have step: "\<exists>ok head st1. (if q \<noteq> 0 then
          do { (lenc, head, st) \<leftarrow> ReadVirtualClusters V a vcn q (take (unat q * ?cs) out) st;
               Some (lenc = Some (of_nat (unat q * ?cs)), head, st) }
        else Some (True, take (unat q * ?cs) out, st)) = Some (ok, head, st1) \<and> state_ok inv content V a st1 \<and>
      length head = unat q * ?cs \<and>
      (case medium_range ?S (unat vcn * ?cs) (unat q * ?cs) of None \<Rightarrow> \<not> ok | Some bytes \<Rightarrow> ok \<and> head = bytes)"
  proof (cases "q = 0")
    case True
    then show ?thesis using st by (simp only: unat_0 mult_0 medium_range_0 option.case) auto
  next
    case False
    have "(unat vcn + unat q - 1) * ?cs \<le> (unat vcn + unat q) * ?cs" by (intro mult_le_mono1) simp
    then have "(unat vcn + unat q - 1) * ?cs < 18446744073709551616" using prod size(2) by linarith
    moreover have "unat q * ?cs < 4294967296" using q_le size(1) by linarith
    moreover have "length (take (unat q * ?cs) out) = unat q * ?cs" using q_le by simp
    ultimately obtain len buf st1 where go: "ReadVirtualClusters V a vcn q (take (unat q * ?cs) out) st = Some (len, buf, st1)"
      "state_ok inv content V a st1" "length buf = unat q * ?cs"
      "case medium_range ?S (unat vcn * ?cs) (unat q * ?cs) of
         None \<Rightarrow> len \<noteq> Some (q * cluster_bytes_of V)
       | Some bytes \<Rightarrow> len = Some (q * cluster_bytes_of V) \<and> buf = bytes"
      using ReadVirtualClusters_ok [OF V a st False _ sum] by metis
    then show ?thesis using False unfolding word by (auto split: option.splits)
  qed
  obtain ok head st1 where one: "(if q \<noteq> 0 then
          do { (lenc, head, st) \<leftarrow> ReadVirtualClusters V a vcn q (take (unat q * ?cs) out) st;
               Some (lenc = Some (of_nat (unat q * ?cs)), head, st) }
        else Some (True, take (unat q * ?cs) out, st)) = Some (ok, head, st1)" "state_ok inv content V a st1"
      "length head = unat q * ?cs"
      "case medium_range ?S (unat vcn * ?cs) (unat q * ?cs) of None \<Rightarrow> \<not> ok | Some bytes \<Rightarrow> ok \<and> head = bytes"
    using step by blast
  note unfolded = ReadFromClusterStart_def [of V a vcn out st, unfolded Let_def, folded q_def, unfolded aligned one(1), simplified]
  note range = medium_range_split [of ?S "unat vcn * ?cs" "unat q * ?cs" "length out mod ?cs", unfolded q_size,
      folded add_mult_distrib]
  show ?thesis
  proof (cases "medium_range ?S (unat vcn * ?cs) (unat q * ?cs)")
    case None
    then have "\<not> ok" using one(4) by simp
    then show ?thesis using unfolded one(2,3) range None q_le by auto
  next
    case (Some bytes)
    then have ok: "ok" "head = bytes" using one(4) by simp_all
    have drop_len: "length (drop (unat q * ?cs) out) = length out mod ?cs" using q_size by simp
    have "0 + length (drop (unat q * ?cs) out) \<le> ?cs" unfolding drop_len using mod_less_divisor [OF cs(1), of "length out"] by simp
    moreover have "unat (vcn + q) * ?cs < 18446744073709551616" unfolding vq using prod size(2) by linarith
    ultimately obtain ok2 tail st2 where two: "ReadClusterPart V a (vcn + q) 0 (drop (unat q * ?cs) out) st1 = Some (ok2, tail, st2)"
      "state_ok inv content V a st2" "length tail = length out mod ?cs"
      "case medium_range ?S ((unat vcn + unat q) * ?cs) (length out mod ?cs) of None \<Rightarrow> \<not> ok2 | Some bytes \<Rightarrow> ok2 \<and> tail = bytes"
      using ReadClusterPart_ok [OF V a one(2), of 0 "drop (unat q * ?cs) out" "vcn + q"] unfolding vq drop_len add_0_right by blast
    have "ReadFromClusterStart V a vcn out st = Some (ok2, head @ tail, st2)"
      using unfolded two(1) ok(1) by simp
    moreover have "length (head @ tail) = length out" using one(3) two(3) q_size by simp
    ultimately show ?thesis using two(2,4) range Some ok(2)
      by (cases "medium_range ?S ((unat vcn + unat q) * ?cs) (length out mod ?cs)") auto
  qed
qed

lemma ReadDataBounded_ok:
  fixes V :: "'v volume"
  assumes V: "vol_read V = vread" "geometry_ok V" and a: "attr_ok V a" and st: "state_ok inv content V a st"
    and buffer: "buffer \<noteq> []" "length buffer < 4294967296" "unat offset + length buffer < 18446744073709551616"
    and limit: "offset \<le> limit"
  defines "n \<equiv> min (length buffer) (unat limit - unat offset)"
  shows "\<exists>r out st'. ReadDataBounded V a offset buffer limit st = Some (Answers r, out, st') \<and> state_ok inv content V a st' \<and>
      length out = length buffer \<and>
      (case medium_range (stream_medium content V a) (unat offset) n of
         None \<Rightarrow> r = None | Some bytes \<Rightarrow> r = Some (of_nat n) \<and> out = bytes @ drop n buffer)"
proof -
  let ?cs = "cluster_size V" and ?S = "stream_medium content V a"
  have cs: "0 < ?cs" using V(2) by (simp add: geometry_ok_def)
  define st0 where "st0 = (if vol_full_cache V then st else st\<lparr>ns_units := Map.empty\<rparr>)"
  have st0: "state_ok inv content V a st0" using st by (simp add: st0_def state_ok_def units_true_def)
  have le: "unat offset \<le> unat limit" using limit by (simp add: u64_nat)
  have len: "unat (of_nat (length buffer) :: u64) = length buffer" using buffer(2) by (intro unat_of_nat_u64) simp
  have fin: "unat (offset + of_nat (length buffer)) = unat offset + length buffer"
    using buffer(3) len by (subst unat_u64_add) simp_all
  have cut: "offset + of_nat (length buffer) > limit \<longleftrightarrow> unat limit < unat offset + length buffer"
    by (simp add: u64_less_nat fin)
  have diff: "unat (limit - offset) = unat limit - unat offset" using limit by (rule unat_u64_sub)
  have n: "(if offset + of_nat (length buffer) > limit then unat (limit - offset) else length buffer) = n"
    using le unfolding cut diff n_def by auto
  have narrow: "\<not> (offset + of_nat (length buffer) > limit \<and> limit - offset > 0xFFFFFFFF)"
    using buffer(2) le by (auto simp: u64_less_nat fin diff)
  define n1 where "n1 = (if unat offset mod ?cs = 0 then 0 else min (?cs - unat offset mod ?cs) n)"
  have take_len: "length (take n buffer) = n" by (simp add: n_def)
  obtain h out1 st1 where lead: "ReadLeadingPart V a offset (take n buffer) st0 = Some (h, out1, st1)" "state_ok inv content V a st1"
    "length out1 = n"
    "case medium_range ?S (unat offset) n1 of None \<Rightarrow> h = None | Some bytes \<Rightarrow> h = Some n1 \<and> out1 = bytes @ drop n1 (take n buffer)"
    using ReadLeadingPart_ok [OF V a st0, of offset "take n buffer"] unfolding take_len Let_def n1_def [symmetric] by blast
  note unfolded = ReadDataBounded_def [of V a offset buffer limit st, unfolded Let_def, folded st0_def, unfolded n if_not_P [OF narrow],
      unfolded if_not_P [OF buffer(1)] lead(1)]
  have not_past: "\<not> offset > limit" using limit by simp
  have n1_le: "n1 \<le> n" by (simp add: n1_def)
  have n_le: "n \<le> length buffer" by (simp add: n_def)
  note range = medium_range_split [of ?S "unat offset" n1 "n - n1", unfolded le_add_diff_inverse [OF n1_le]]
  show ?thesis
  proof (cases "medium_range ?S (unat offset) n1")
    case None
    then have "h = None" using lead(4) by simp
    then show ?thesis using unfolded not_past lead(2,3) range None n_le by auto
  next
    case (Some bytes1)
    then have h: "h = Some n1" "out1 = bytes1 @ drop n1 (take n buffer)" using lead(4) by simp_all
    have len1: "length bytes1 = n1" by (rule medium_range_length [OF Some])
    have "unat (of_nat n1 :: u64) = n1" using n1_le n_le buffer(2) by (intro unat_of_nat_u64) linarith
    then have at: "unat (offset + of_nat n1) = unat offset + n1" using n1_le n_le buffer(3) by (subst unat_u64_add) simp_all
    define vcn where "vcn = (offset + of_nat n1) div cluster_bytes_of V"
    have vcn: "unat vcn = (unat offset + n1) div ?cs" by (simp add: vcn_def unat_div at)
    have start: "unat vcn * ?cs = unat offset + n1" if "n1 \<noteq> n"
    proof -
      have "(unat offset + n1) mod ?cs = 0"
      proof (cases "unat offset mod ?cs = 0")
        case False
        then have "n1 = ?cs - unat offset mod ?cs" using that by (auto simp: n1_def)
        moreover have "unat offset mod ?cs < ?cs" using cs by simp
        moreover have "unat offset = unat offset div ?cs * ?cs + unat offset mod ?cs" by simp
        ultimately have "unat offset + n1 = unat offset div ?cs * ?cs + ?cs" by linarith
        then show ?thesis by (metis add.commute mod_mult_self2_is_0 mod_add_self1 mult.commute)
      qed (simp add: n1_def)
      then show ?thesis unfolding vcn by (simp add: mod_0_imp_dvd)
    qed
    have rest_len: "length (drop n1 out1) = n - n1" using lead(3) by simp
    have "(unat offset + n1) div ?cs * ?cs \<le> unat offset + n1" by simp
    then have "unat vcn * ?cs + length (drop n1 out1) < 18446744073709551616" "length (drop n1 out1) < 4294967296"
      using n1_le n_le buffer(2,3) unfolding vcn rest_len by linarith+
    then obtain ok tail st2 where rest: "ReadFromClusterStart V a vcn (drop n1 out1) st1 = Some (ok, tail, st2)"
      "state_ok inv content V a st2" "length tail = n - n1"
      "case medium_range ?S (unat vcn * ?cs) (n - n1) of None \<Rightarrow> \<not> ok | Some bytes \<Rightarrow> ok \<and> tail = bytes"
      using ReadFromClusterStart_ok [OF V a lead(2), of "drop n1 out1" vcn] unfolding rest_len by blast
    have same: "medium_range ?S (unat vcn * ?cs) (n - n1) = medium_range ?S (unat offset + n1) (n - n1)"
      using start by (cases "n1 = n") simp_all
    have go: "ReadDataBounded V a offset buffer limit st =
        Some (Answers (if ok then Some (of_nat n) else None), bytes1 @ tail @ drop n buffer, st2)"
      using unfolded not_past h rest(1) len1 by (simp add: vcn_def)
    moreover have "length (bytes1 @ tail @ drop n buffer) = length buffer" using len1 rest(3) n1_le n_le by simp
    ultimately show ?thesis using rest(2,4) range Some unfolding same
      by (cases "medium_range ?S (unat offset + n1) (n - n1)") auto
  qed
qed

text \<open>
  ReadData(): the bytes below the initialized size come from the stream, zeros up to the data size.
  Every call returns; past the data size nothing is answered, and a part that cannot be read makes
  the whole read answer nothing.
\<close>

lemma CheckClusterAllocation_ok:
  assumes states: "\<And>v queries. inv v \<Longrightarrow> inv (snd (vol_range_states V v queries))" and st: "state_ok inv content V a st"
  shows "state_ok inv content V a (snd (CheckClusterAllocation V a st))"
proof -
  let ?queries = "se_extents (GetExtents V a)"
  obtain answers v where asked: "vol_range_states V (ns_volume st) ?queries = (answers, v)"
    by (cases "vol_range_states V (ns_volume st) ?queries")
  then have "inv v" using states [of "ns_volume st" ?queries] st by (simp add: state_ok_def)
  then show ?thesis using st asked
    by (cases "na_record_number a") (simp_all add: CheckClusterAllocation_def Let_def state_ok_def units_true_def)
qed

lemma ReadData_ok:
  fixes V :: "'v volume" and offset :: u64
  assumes V: "vol_read V = vread" "geometry_ok V" and a: "attr_ok V a" and st: "state_ok inv content V a st"
    and states: "\<And>v queries. inv v \<Longrightarrow> inv (snd (vol_range_states V v queries))"
    and buffer: "length buffer < 4294967296"
  defines "n \<equiv> min (length buffer) (unat (hn_real_size (na_header a)) - unat offset)"
  shows "\<exists>r out st'. ReadData V a offset buffer st = Some (Answers r, out, st') \<and> state_ok inv content V a st' \<and>
      length out = length buffer \<and>
      (if buffer = [] then r = Some 0
       else if hn_real_size (na_header a) < offset then r = None \<and> out = buffer
       else case medium_range (data_bytes content V a) (unat offset) n of
              None \<Rightarrow> r = None
            | Some bytes \<Rightarrow> r = Some (of_nat n) \<and> out = bytes @ drop n buffer)"
proof -
  let ?real = "hn_real_size (na_header a)" and ?S = "stream_medium content V a" and ?D = "data_bytes content V a"
  define st0 where "st0 = snd (CheckClusterAllocation V a st)"
  have st0: "state_ok inv content V a st0" unfolding st0_def by (rule CheckClusterAllocation_ok [OF states st])
  consider "buffer = []" | "buffer \<noteq> []" "?real < offset" | "buffer \<noteq> []" "offset \<le> ?real" by (meson leI)
  then show ?thesis
  proof cases
    case 3
    define wanted where "wanted = min (of_nat (length buffer)) (?real - offset)"
    define init where "init = min (hn_ini_size (na_header a)) ?real"
    define k where "k = (if offset < init then min wanted (init - offset) else 0)"
    have np: "\<not> ?real < offset" using 3(2) by simp
    have le: "unat offset \<le> unat ?real" using 3(2) by (simp add: u64_le_nat)
    have len: "unat (of_nat (length buffer) :: u64) = length buffer" using buffer by (intro unat_of_nat_u64) simp
    have "unat (?real - offset) = unat ?real - unat offset" using 3(2) by (rule unat_u64_sub)
    then have wanted: "unat wanted = n" using len by (auto simp: wanted_def n_def min_def u64_le_nat)
    then have word: "wanted = of_nat n" by (metis of_nat_unat ucast_id)
    have init: "unat init = min (unat (hn_ini_size (na_header a))) (unat ?real)" by (auto simp: init_def min_def u64_le_nat)
    have k: "unat k = min n (unat init - unat offset)"
    proof (cases "offset < init")
      case True
      then have "unat (init - offset) = unat init - unat offset" by (intro unat_u64_sub) simp
      then show ?thesis using True wanted by (auto simp: k_def min_def u64_le_nat)
    next
      case False
      then show ?thesis by (simp add: k_def u64_less_nat)
    qed
    have k_le: "unat k \<le> n" "n \<le> length buffer" unfolding k n_def by (rule min.cobounded1)+
    have data: "?D i = (if i < unat init then ?S i else Some 0)" for i unfolding data_bytes_def init by (rule refl)
    have inside: "unat offset + i < unat init \<longleftrightarrow> i < unat k" if "i < n" for i using that unfolding k by linarith
    have front: "medium_range ?D (unat offset) (unat k) = medium_range ?S (unat offset) (unat k)"
    proof (rule medium_range_cong)
      show "?D (unat offset + i) = ?S (unat offset + i)" if "i < unat k" for i
        unfolding data using inside [of i] that k_le(1) by simp
    qed
    have zeros: "medium_range ?D (unat offset + unat k) (n - unat k) = Some (replicate (n - unat k) 0)"
    proof -
      have "?D (unat offset + unat k + i) = Some 0" if "i < n - unat k" for i
        unfolding data using inside [of "unat k + i"] that by (simp add: add.assoc)
      then show ?thesis unfolding medium_range_Some by simp
    qed
    have range: "medium_range ?D (unat offset) n =
        (case medium_range ?S (unat offset) (unat k) of None \<Rightarrow> None | Some bytes \<Rightarrow> Some (bytes @ replicate (n - unat k) 0))"
      using medium_range_split [of ?D "unat offset" "unat k" "n - unat k"] k_le(1) front zeros by (simp split: option.splits)
    note unfolded = ReadData_def [of V a offset buffer st, unfolded Let_def, folded st0_def wanted_def, folded init_def, folded k_def, unfolded wanted]
    show ?thesis
    proof (cases "k = 0")
      case True
      then show ?thesis using unfolded 3(1) np st0 range k_le(2) word by simp
    next
      case False
      then have pos: "0 < unat k" by (simp add: unat_gt_0)
      have part: "take (unat k) buffer \<noteq> []" "length (take (unat k) buffer) = unat k" using pos k_le by auto
      have "unat offset + n \<le> unat ?real" using le by (simp add: n_def)
      moreover have "unat ?real < 18446744073709551616" by (rule unat_u64_bound)
      ultimately have room: "unat offset + unat k < 18446744073709551616" "unat k \<le> unat ?real - unat offset" using k_le(1) by linarith+
      have k32: "unat k < 4294967296" using k_le buffer by linarith
      obtain r head st1 where go: "ReadDataBounded V a offset (take (unat k) buffer) ?real st0 = Some (Answers r, head, st1)"
        "state_ok inv content V a st1" "length head = unat k"
        "case medium_range ?S (unat offset) (unat k) of None \<Rightarrow> r = None | Some bytes \<Rightarrow> r = Some k \<and> head = bytes"
        using ReadDataBounded_ok [OF V a st0 part(1), of offset ?real, unfolded part(2), OF k32 room(1) 3(2)]
        unfolding min_absorb1 [OF room(2)] by (auto simp: of_nat_unat split: option.splits)
      note run = unfolded [unfolded if_not_P [OF 3(1)] if_not_P [OF False] go(1), simplified]
      show ?thesis
      proof (cases "medium_range ?S (unat offset) (unat k)")
        case None
        then show ?thesis using run 3(1) np go k_le range by auto
      next
        case (Some bytes)
        have "length bytes = unat k" by (rule medium_range_length [OF Some])
        then show ?thesis using run 3(1) np go k_le range Some word by auto
      qed
    qed
  qed (use st0 in \<open>simp_all add: ReadData_def Let_def st0_def [symmetric]\<close>)
qed

end

end
