(* ===== verification/StreamReads.thy ===== *)
theory StreamReads
  imports NonResidentSpec
begin

text \<open>
  What a read of a stream answers on a volume read through the block cache: the contract
  \<open>volume_reader\<close> of NonResidentSpec, at the reader of FileReader. And the one attribute layout on
  which such a read does not return.
\<close>

section \<open>Reads on a volume\<close>

text \<open>A stream no read of which was made yet.\<close>

definition fresh_state :: "'v volume \<Rightarrow> 'v \<Rightarrow> 'v nr_state" where
  "fresh_state V v = \<lparr>ns_volume = v, ns_cluster_buffer = replicate (cluster_size V) 0, ns_units = Map.empty, ns_alloc_checked = False\<rparr>"

lemma fresh_state_ok: "reader_inv v \<Longrightarrow> state_ok reader_inv content V a (fresh_state V v)"
  by (simp add: fresh_state_def state_ok_def units_true_def)

text \<open>
  C3. ReadData() of an attribute that the constructor makes (plain or compressed), or that is merged of
  parts that each span a cluster and together span fewer than 2^64, into a buffer smaller than 4 GiB,
  on a volume with a cluster size the code accepts, after any reads before it, with any state of the
  block cache and of the unit cache: it returns; past the data size it answers nothing; else it answers the bytes of the stream's runs over the
  medium (decompressed, unit by unit), zeros from the initialized size to the data size, cut at
  the data size, and nothing where one of those clusters cannot be read.
\<close>

theorem read_data_exact:
  fixes V :: "block_cache option volume" and offset :: u64
  assumes "vol_read V = ReadVolume (medium_disk content) tuning" "geometry_ok V" "built V a"
    and "\<And>v queries. reader_ok content tuning v \<Longrightarrow> reader_ok content tuning (snd (vol_range_states V v queries))"
    and "state_ok (reader_ok content tuning) (below_top content) V a st" "length buffer < 4294967296"
  defines "n \<equiv> min (length buffer) (unat (GetDataSize a) - unat offset)"
  shows "\<exists>r out st'. ReadData V a offset buffer st = Some (Answers r, out, st') \<and>
      state_ok (reader_ok content tuning) (below_top content) V a st' \<and> length out = length buffer \<and>
      (if buffer = [] then r = Some 0
       else if GetDataSize a < offset then r = None \<and> out = buffer
       else case medium_range (data_bytes (below_top content) V a) (unat offset) n of
              None \<Rightarrow> r = None
            | Some bytes \<Rightarrow> r = Some (of_nat n) \<and> out = bytes @ drop n buffer)"
  unfolding n_def GetDataSize_def
  using vol.ReadData_ok [OF assms(1,2) conjunct1 [OF built_ok [OF assms(2,3)]] assms(5) assms(4) assms(6), of offset] .

text \<open>A stream of two clusters at LCN 3, 300 bytes of which 260 are initialized.\<close>

definition sample_stream_header :: header_non_resident where
  "sample_stream_header = \<lparr>hn_type = 0x80, hn_total_size = 72, hn_flags = 0, hn_start_vcn = 0, hn_last_vcn = 1, hn_data_run_offset = 0,
     hn_comp_unit_size = 0, hn_alloc_size = 512, hn_real_size = 300, hn_ini_size = 260\<rparr>"

definition sample_volume :: "block_cache option volume" where
  "sample_volume = \<lparr>vol_cluster_size = 256, vol_full_cache = False, vol_recover_errors = False,
     vol_read = ReadVolume (medium_disk sample_content) sample_tuning, vol_range_states = (\<lambda>v queries. (Some [], v))\<rparr>"

definition sample_attr :: nr_attr where
  "sample_attr = \<lparr>na_header = sample_stream_header,
     na_runs = \<lparr>rl_runs = [\<lparr>re_lcn = Some 3, re_clusters = 2, re_start_vcn = 0, re_last_vcn = 1\<rparr>], rl_clusters = 2\<rparr>,
     na_comp_unit_clusters = 0, na_decrypt = None, na_record_deleted = False, na_record_number = None\<rparr>"

lemma sample_attr_made: "AttrNonResident sample_volume sample_stream_header [0x11, 2, 3, 0] False None = Inr sample_attr"
proof -
  have "ParseDataRun sample_stream_header [0x11, 2, 3, 0] False = Inr (na_runs sample_attr)" by code_simp
  then show ?thesis
    by (simp add: AttrNonResident_def sample_attr_def sample_stream_header_def sample_volume_def HasCompressedSizeField_def)
qed

lemma read_data_exact_witness:
  "\<exists>out st'. ReadData sample_volume sample_attr 258 [7, 7, 7, 7] (fresh_state sample_volume None) = Some (Answers (Some 4), out, st') \<and>
     out = [2, 3, 0, 0]"
proof -
  have "whole (below_top sample_content) 256 (1024 + k) = Some (of_nat (1024 + k))" if "k < 256" for k
  proof -
    have "medium_range (below_top sample_content) 1024 256 \<noteq> None"
      by (simp add: medium_range_None below_top_def llong_top_def sample_content_def)
    moreover have "(1024 + k) div 256 * 256 = 1024" using that by simp
    ultimately show ?thesis using that by (simp add: whole_def below_top_def llong_top_def sample_content_def)
  qed
  from this [of 2] this [of 3]
  have data: "medium_range (data_bytes (below_top sample_content) sample_volume sample_attr) 258 4 = Some [2, 3, 0, 0]"
    by (simp add: medium_range_def upt_rec [of "258 + _"] upt_rec data_bytes_def stream_medium_def plain_stream_def runs_medium_def cluster_at_def
        covers_def AttrTotalClusters_def TotalClusters_def sample_attr_def sample_stream_header_def sample_volume_def)
  have size: "GetDataSize sample_attr = 300" by (simp add: GetDataSize_def sample_attr_def sample_stream_header_def)
  then have cut: "min (length [7, 7, 7, 7 :: byte]) (unat (GetDataSize sample_attr) - unat (258 :: u64)) = 4" by simp
  have "vol_read sample_volume = ReadVolume (medium_disk sample_content) sample_tuning" "geometry_ok sample_volume"
    by (simp_all add: sample_volume_def geometry_ok_def)
  moreover have "reader_ok sample_content sample_tuning (snd (vol_range_states sample_volume v queries))"
    if "reader_ok sample_content sample_tuning v" for v queries using that by (simp add: sample_volume_def)
  moreover have "state_ok (reader_ok sample_content sample_tuning) (below_top sample_content) sample_volume sample_attr (fresh_state sample_volume None)"
    by (rule fresh_state_ok) (simp add: reader_ok_def)
  ultimately have read: "\<exists>r out st'. ReadData sample_volume sample_attr 258 [7, 7, 7, 7] (fresh_state sample_volume None) = Some (Answers r, out, st') \<and>
      r = Some 4 \<and> out = [2, 3, 0, 0]"
    using read_data_exact [of sample_volume sample_content sample_tuning sample_attr "fresh_state sample_volume None" "[7, 7, 7, 7]" 258]
      built.made [OF sample_attr_made] unfolding cut by (auto simp: size data)
  then show ?thesis by blast
qed

section \<open>A merge that hides a stream\<close>

text \<open>
  A part whose header declares it empty (VCN 0 to 2^64 - 1) may keep one run of zero clusters that
  covers every VCN. Io::FileRecord's merge takes a part that starts at VCN 0 as its continuation.
\<close>

definition hollow_runs :: run_list where
  "hollow_runs = \<lparr>rl_runs = [\<lparr>re_lcn = None, re_clusters = 0, re_start_vcn = 0, re_last_vcn = u64_max\<rparr>], rl_clusters = 0\<rparr>"

lemma hollow_runs_made: "ParseRuns [0x01, 0x00, 0x00] u64_max True (new_run_list 0) = Inr hollow_runs"
  by (simp add: ParseRuns_def new_run_list_def hollow_runs_def parse_loop.simps PickData_def subspan_def subspan_from_def Let_def
      sign_extended_def AppendDataRun_def add_llong_def llong_max_def llong_min_def)

lemma hollow_find: "rl_runs (na_runs a) = rl_runs hollow_runs @ rest \<Longrightarrow> FindRun (na_runs a) vcn =
    Some \<lparr>re_lcn = None, re_clusters = 0, re_start_vcn = 0, re_last_vcn = u64_max\<rparr>"
  by (simp add: FindRun_def hollow_runs_def holds_vcn_def)

lemma hollow_loop:
  fixes V :: "'v volume"
  assumes "rl_runs (na_runs a) = rl_runs hollow_runs @ rest" "clusters \<noteq> 0"
  shows "raw_loop V a 0 clusters actural written out st = None"
proof -
  have "raw_loop V a 0 clusters actural written out st \<noteq> Some y" for y :: "u64 option \<times> byte list \<times> 'v nr_state"
  proof
    assume ret: "raw_loop V a 0 clusters actural written out st = Some y"
    define P where "P = (\<lambda>(V :: 'v volume) b (vcn :: u64) n (actural :: u64) (written :: byte list) (out :: byte list) (st :: 'v nr_state)
        (y :: u64 option \<times> byte list \<times> 'v nr_state).
      \<not> (b = a \<and> vcn = 0 \<and> n = clusters))"
    have "P V a 0 clusters actural written out st y"
    proof (rule raw_loop.raw_induct [where P = P, OF _ ret])
      fix f V b vcn n actural written out st y
      assume IH: "\<And>V b vcn n actural written out st y. f V b vcn n actural written out st = Some y \<Longrightarrow> P V b vcn n actural written out st y"
        and eq: "(if n = 0 then Some (Some (actural * cluster_bytes_of V), written @ out, st)
           else case FindRun (na_runs b) vcn of
             None \<Rightarrow> Some (Some (actural * cluster_bytes_of V), written @ out, st)
           | Some data_run \<Rightarrow>
               let vcns = re_last_vcn data_run - vcn + 1;
                   clusters_to_read = (if vcns < n then vcns else n);
                   advance = unat (clusters_to_read * cluster_bytes_of V)
               in case ReadRunClusters V b data_run vcn clusters_to_read out st of
                    (RunDone, out, st) \<Rightarrow>
                      f V b (vcn + clusters_to_read) (n - clusters_to_read) (actural + clusters_to_read)
                        (written @ take advance out) (drop advance out) st
                  | (ShortRead, out, st) \<Rightarrow> Some (Some (actural * cluster_bytes_of V), written @ out, st)
                  | (RunFailed, out, st) \<Rightarrow> Some (None, written @ out, st)) = Some y"
      show "P V b vcn n actural written out st y"
      proof (cases "b = a \<and> vcn = 0 \<and> n = clusters")
        case True
        then have "b = a" "vcn = 0" "n = clusters" by simp_all
        moreover have "0 < clusters" using assms(2) by (simp add: word_neq_0_conv)
        ultimately have "f V a 0 clusters actural written out st = Some y"
          using eq assms(2) by (simp add: hollow_find [OF assms(1)] ReadRunClusters_def write_front_def)
        from IH [OF this] show ?thesis using True by (simp add: P_def)
      qed (simp add: P_def)
    qed
    then show False by (simp add: P_def)
  qed
  then show ?thesis by (cases "raw_loop V a 0 clusters actural written out st") auto
qed

end
