(* ===== verification/Attributes.thy ===== *)
theory Attributes
  imports NonResident IndexEntries
begin

text \<open>
  The attributes of a file record: the headers of include/ntfs-browser/attr/header-common.h,
  src/data/header-resident.h and src/data/header-non-resident.h as they lie in the record, class
  AttrBase (src/attr/base.cpp), resident bodies (src/attr/resident.cpp) and the classes that wrap one
  type each: src/attr/std-info.cpp, file-name.cpp, vol-name.cpp, vol-info.cpp, index-root.cpp,
  index-alloc.cpp, bitmap.cpp and data.h. An attribute is built over the bytes from its header to the
  end of its record; a read past them, as any undefined behaviour, is the error value \<open>AttrUndefined\<close>,
  every exception another value. A wide name holds 32-bit characters; times stay in UTC, as on every host but Windows.
\<close>

section \<open>Types, masks and slots\<close>

definition attr_nums :: nat where "attr_nums = 16"

definition AttrIndex :: "u32 \<Rightarrow> u32" where
  "AttrIndex type = drop_bit 4 type - 1"

definition AttrMask :: "u32 \<Rightarrow> u32" where
  "AttrMask type = push_bit (unat (AttrIndex type)) 1"

definition IsValidAttrType :: "u32 \<Rightarrow> bool" where
  "IsValidAttrType type \<longleftrightarrow> type \<noteq> 0 \<and> type AND 0xF = 0 \<and> type \<le> 0x100"

definition type_std_info :: u32 where "type_std_info = 0x10"
definition type_attr_list :: u32 where "type_attr_list = 0x20"
definition type_volume_name :: u32 where "type_volume_name = 0x60"
definition type_volume_info :: u32 where "type_volume_info = 0x70"
definition type_index_root :: u32 where "type_index_root = 0x90"
definition type_index_alloc :: u32 where "type_index_alloc = 0xA0"
definition type_bitmap :: u32 where "type_bitmap = 0xB0"
definition type_utility :: u32 where "type_utility = 0x100"
definition type_all :: u32 where "type_all = 0xFFFFFFFF"

lemmas attr_types = type_std_info_def type_attr_list_def type_file_name_def type_volume_name_def type_volume_info_def
  attr_type_data_def type_index_root_def type_index_alloc_def type_bitmap_def type_utility_def type_all_def

section \<open>Headers\<close>

datatype attr_throw =
    MustBeResident | MustBeNonResident | BodyExceedsAttribute
  | StdInfoTooSmall | FileNameTooSmall | FileNameExceedsAttribute | VolInfoTooSmall
  | RootThrows root_error | NonResidentThrows nr_error
  | ListEndlessLoop | ListBadType | ListTruncated | ListNamesForeignRecord | ListRecordUnparsed | ListAttrsUnparsed
  | NarrowingError

datatype attr_error = AttrUndefined | AttrThrows attr_throw

record header_common =
  hc_type :: u32
  hc_total_size :: u32
  hc_non_resident :: byte
  hc_name_length :: byte
  hc_name_offset :: u16
  hc_flags :: u16
  hc_id :: u16

definition sizeof_header_common :: nat where "sizeof_header_common = 16"
definition sizeof_header_resident :: nat where "sizeof_header_resident = 24"
definition header_non_resident_base_size :: nat where "header_non_resident_base_size = 64"
definition compressed_size_field_size :: nat where "compressed_size_field_size = 8"

lemmas header_sizes = sizeof_header_common_def sizeof_header_resident_def header_non_resident_base_size_def
  compressed_size_field_size_def

definition byte_at :: "byte list \<Rightarrow> nat \<Rightarrow> byte" where
  "byte_at bs off = of_nat (read_le 1 bs off)"

definition ReadHeaderCommon :: "byte list \<Rightarrow> attr_error + header_common" where
  "ReadHeaderCommon cur =
    (if length cur < sizeof_header_common then Inl AttrUndefined
     else Inr \<lparr>hc_type = u32_at cur 0, hc_total_size = u32_at cur 4, hc_non_resident = byte_at cur 8,
               hc_name_length = byte_at cur 9, hc_name_offset = u16_at cur 10, hc_flags = u16_at cur 12, hc_id = u16_at cur 14\<rparr>)"

definition ReadHeaderNonResident :: "byte list \<Rightarrow> attr_error + header_non_resident" where
  "ReadHeaderNonResident cur =
    (if length cur < header_non_resident_base_size then Inl AttrUndefined
     else Inr \<lparr>hn_type = u32_at cur 0, hn_total_size = u32_at cur 4, hn_flags = u16_at cur 12,
               hn_start_vcn = u64_at cur 16, hn_last_vcn = u64_at cur 24, hn_data_run_offset = u16_at cur 32,
               hn_comp_unit_size = u16_at cur 34, hn_alloc_size = u64_at cur 40, hn_real_size = u64_at cur 48,
               hn_ini_size = u64_at cur 56\<rparr>)"

text \<open>The bytes of an attribute, total_size of them.\<close>

definition attr_span :: "header_common \<Rightarrow> byte list \<Rightarrow> attr_error + byte list" where
  "attr_span h cur =
    (if unat (hc_total_size h) \<le> length cur then Inr (take (unat (hc_total_size h)) cur) else Inl AttrUndefined)"

section \<open>Attributes\<close>

datatype attr_body = ResidentBody "byte list" | NonResidentBody nr_attr

datatype attr_class =
    PlainAttr | StdInfoAttr | FileNameAttr "u32 list" | VolNameAttr "u32 list" | VolInfoAttr
  | IndexRootAttr index_root | IndexAllocAttr u64 | ListAttr | DataAttr | BitmapAttr

record attribute =
  at_header :: header_common
  at_bytes :: "byte list"
  at_body :: attr_body
  at_class :: attr_class

definition GetAttrType :: "attribute \<Rightarrow> u32" where "GetAttrType a = hc_type (at_header a)"
definition GetAttrTotalSize :: "attribute \<Rightarrow> u32" where "GetAttrTotalSize a = hc_total_size (at_header a)"
definition IsNonResident :: "attribute \<Rightarrow> bool" where "IsNonResident a \<longleftrightarrow> hc_non_resident (at_header a) \<noteq> 0"
definition GetAttrFlags :: "attribute \<Rightarrow> u16" where "GetAttrFlags a = hc_flags (at_header a)"
definition IsUnNamed :: "attribute \<Rightarrow> bool" where "IsUnNamed a \<longleftrightarrow> hc_name_length (at_header a) = 0"

text \<open>NameExceedsBounds: the check of GetAttrName() and of the attribute walk.\<close>

definition name_exceeds_bounds :: "header_common \<Rightarrow> bool" where
  "name_exceeds_bounds h \<longleftrightarrow>
     hc_name_length h \<noteq> 0 \<and> unat (hc_name_offset h) + unat (hc_name_length h) * 2 > unat (hc_total_size h)"

definition GetAttrName :: "attribute \<Rightarrow> attr_error + u32 list" where
  "GetAttrName a =
    (let h = at_header a
     in if hc_name_length h = 0 \<or> name_exceeds_bounds h then Inr []
        else case load_words (at_bytes a) (unat (hc_name_offset h)) (unat (hc_name_length h)) of
               Inl _ \<Rightarrow> Inl AttrUndefined
             | Inr units \<Rightarrow> Inr (Utf16ToWide_32 units))"

section \<open>Resident bodies\<close>

definition ResidentBodyOf :: "header_common \<Rightarrow> byte list \<Rightarrow> attr_error + byte list" where
  "ResidentBodyOf h cur =
    (if length cur < sizeof_header_resident then Inl AttrUndefined
     else
       let attr_size = unat (u32_at cur 16); attr_offset = unat (u16_at cur 20)
       in if attr_offset + attr_size > unat (hc_total_size h) then Inl (AttrThrows BodyExceedsAttribute)
          else bind_r (attr_span h cur) (\<lambda>span. subspan AttrUndefined span attr_offset attr_size))"

definition ResidentAllocatedSize :: "attribute \<Rightarrow> u64" where
  "ResidentAllocatedSize a = ucast (hc_total_size (at_header a) - ucast (u16_at (at_bytes a) 20))"

text \<open>ReadData() of a resident attribute; the memcpy stays inside the body and inside the buffer, or is undefined.\<close>

definition ResidentReadData :: "byte list \<Rightarrow> u64 \<Rightarrow> byte list \<Rightarrow> (attr_error + read_end) \<times> byte list" where
  "ResidentReadData body offset buffer =
    (let buf_len = of_nat (length buffer) :: u64;
         data_size = of_nat (length body) :: u64;
         actural = (if offset + buf_len > data_size then data_size - offset else buf_len)
     in if buf_len = 0 then (Inr (Answers (Some buf_len)), buffer)
        else if offset \<ge> data_size then (Inr (Answers None), buffer)
        else if offset + buf_len > data_size \<and> data_size - offset > 0xFFFFFFFF then (Inr Throws, buffer)
        else if unat actural > length buffer then (Inl AttrUndefined, buffer)
        else case subspan AttrUndefined body (unat offset) (unat actural) of
               Inl e \<Rightarrow> (Inl e, buffer)
             | Inr bytes \<Rightarrow> (Inr (Answers (Some actural)), write_front bytes buffer))"

definition AttrDataSize :: "attribute \<Rightarrow> u64" where
  "AttrDataSize a = (case at_body a of ResidentBody body \<Rightarrow> of_nat (length body) | NonResidentBody n \<Rightarrow> GetDataSize n)"

definition AttrAllocatedSize :: "attribute \<Rightarrow> u64" where
  "AttrAllocatedSize a = (case at_body a of ResidentBody _ \<Rightarrow> ResidentAllocatedSize a | NonResidentBody n \<Rightarrow> GetAllocatedSize n)"

definition AttrExtents :: "'v volume \<Rightarrow> attribute \<Rightarrow> stream_extents" where
  "AttrExtents V a = (case at_body a of ResidentBody _ \<Rightarrow> \<lparr>se_extents = [], se_complete = True\<rparr> | NonResidentBody n \<Rightarrow> GetExtents V n)"

definition AttrRealRanges :: "'v volume \<Rightarrow> attribute \<Rightarrow> stream_ranges" where
  "AttrRealRanges V a =
    (case at_body a of
       ResidentBody _ \<Rightarrow> \<lparr>sr_ranges = (if AttrDataSize a = 0 then [] else [(0, AttrDataSize a)]), sr_complete = True\<rparr>
     | NonResidentBody n \<Rightarrow> GetRealRanges V n)"

definition AttrLayout :: "'v volume \<Rightarrow> attribute \<Rightarrow> stream_layout" where
  "AttrLayout V a =
    (case at_body a of
       ResidentBody _ \<Rightarrow>
         \<lparr>sl_runs = [], sl_declared_clusters = 0, sl_covered_end = 0, sl_initialized_clusters = 0, sl_data_size = 0,
          sl_initialized_size = 0, sl_unit_clusters = 0, sl_encrypted = False, sl_well_formed = True\<rparr>
     | NonResidentBody n \<Rightarrow> GetLayout V n)"

section \<open>The classes\<close>

text \<open>$STANDARD_INFORMATION.\<close>

definition std_info_owner_id_at :: nat where "std_info_owner_id_at = 48"

definition CheckedStdInfo :: "byte list \<Rightarrow> attr_error + unit" where
  "CheckedStdInfo body = (if length body < std_info_owner_id_at then Inl (AttrThrows StdInfoTooSmall) else Inr ())"

definition std_info_permission :: "byte list \<Rightarrow> u32" where "std_info_permission body = u32_at body 32"

definition std_info_flag :: "u32 \<Rightarrow> byte list \<Rightarrow> bool" where
  "std_info_flag flag body \<longleftrightarrow> std_info_permission body AND flag \<noteq> 0"

definition IsReadOnly :: "byte list \<Rightarrow> bool" where "IsReadOnly = std_info_flag 0x1"
definition IsHidden :: "byte list \<Rightarrow> bool" where "IsHidden = std_info_flag 0x2"
definition IsSystem :: "byte list \<Rightarrow> bool" where "IsSystem = std_info_flag 0x4"
definition IsArchive :: "byte list \<Rightarrow> bool" where "IsArchive = std_info_flag 0x20"
definition IsDevice :: "byte list \<Rightarrow> bool" where "IsDevice = std_info_flag 0x40"
definition IsNormal :: "byte list \<Rightarrow> bool" where "IsNormal = std_info_flag 0x80"
definition IsTemporary :: "byte list \<Rightarrow> bool" where "IsTemporary = std_info_flag 0x100"
definition IsSparse :: "byte list \<Rightarrow> bool" where "IsSparse = std_info_flag 0x200"
definition IsReparsePoint :: "byte list \<Rightarrow> bool" where "IsReparsePoint = std_info_flag 0x400"
definition IsCompressed :: "byte list \<Rightarrow> bool" where "IsCompressed = std_info_flag 0x800"
definition IsOffline :: "byte list \<Rightarrow> bool" where "IsOffline = std_info_flag 0x1000"
definition IsNotContentIndexed :: "byte list \<Rightarrow> bool" where "IsNotContentIndexed = std_info_flag 0x2000"
definition IsEncrypted :: "byte list \<Rightarrow> bool" where "IsEncrypted = std_info_flag 0x4000"

definition UTC2Local :: "u64 \<Rightarrow> filetime" where
  "UTC2Local ultm = \<lparr>ft_low = ucast (ultm AND 0xFFFFFFFF), ft_high = ucast (drop_bit 32 ultm)\<rparr>"

text \<open>GetFileTime(): the times of the last write, of creation, of the last access and of the MFT change.\<close>

definition StdInfoFileTime :: "byte list \<Rightarrow> filetime \<times> filetime \<times> filetime \<times> filetime" where
  "StdInfoFileTime body = (UTC2Local (u64_at body 8), UTC2Local (u64_at body 0), UTC2Local (u64_at body 24), UTC2Local (u64_at body 16))"

text \<open>$FILE_NAME, $VOLUME_NAME (with the trailing NUL its view covers) and $VOLUME_INFORMATION.\<close>

definition FileNameOf :: "byte list \<Rightarrow> attr_error + u32 list" where
  "FileNameOf body =
    (if length body < name_at then Inl (AttrThrows FileNameTooSmall)
     else case load_at 1 body name_length_at of
            Inl _ \<Rightarrow> Inl AttrUndefined
          | Inr name_length \<Rightarrow>
              if length body < name_at + name_length * 2 then Inl (AttrThrows FileNameExceedsAttribute)
              else case load_words body name_at name_length of
                     Inl _ \<Rightarrow> Inl AttrUndefined
                   | Inr units \<Rightarrow> Inr (Utf16ToWide_32 units))"

definition VolNameOf :: "byte list \<Rightarrow> attr_error + u32 list" where
  "VolNameOf body =
    (case load_words body 0 (length body div 2) of
       Inl _ \<Rightarrow> Inl AttrUndefined
     | Inr units \<Rightarrow> Inr (Utf16ToWide_32 units @ [0]))"

definition sizeof_volume_information :: nat where "sizeof_volume_information = 12"

definition CheckedVolInfo :: "byte list \<Rightarrow> attr_error + unit" where
  "CheckedVolInfo body = (if length body < sizeof_volume_information then Inl (AttrThrows VolInfoTooSmall) else Inr ())"

definition GetVersion :: "byte list \<Rightarrow> byte \<times> byte" where "GetVersion body = (byte_at body 8, byte_at body 9)"
definition VolInfoFlags :: "byte list \<Rightarrow> u16" where "VolInfoFlags body = u16_at body 10"

definition IndexRootOf :: "bool \<Rightarrow> byte list \<Rightarrow> attr_error + index_root" where
  "IndexRootOf recover body =
    (case new_index_root recover body of
       Inl RootOutOfBounds \<Rightarrow> Inl AttrUndefined
     | Inl e \<Rightarrow> Inl (AttrThrows (RootThrows e))
     | Inr r \<Rightarrow> Inr r)"

end
