(* ===== verification/RecordAttrs.thy ===== *)
theory RecordAttrs
  imports Attributes VolumeGeometry
begin

text \<open>
  From the bytes of a file record to its attributes: src/io/file-record-attrs.cpp (the walk over the
  attribute headers, the class each one gets, the merge of a stream's parts), src/attr/list.cpp
  ($ATTRIBUTE_LIST), src/io/file-record-attr-list.cpp (the attributes imported from extension
  records), src/io/file-record-read.cpp (the record's own bytes) and src/io/file-record-efs.cpp as
  built without a decryption backend. A parse opens extension records, whose parses open others:
  each operation below takes the parse of an extension as an argument, and the knot is tied by
  \<open>ParseAttrsWithin\<close>, whose first argument bounds the nesting. None is "does not return", or a nesting
  past that bound. What the caller of a parse supplies (held records, base references, callbacks)
  are arguments; log lines, and the salvage flag that counts them, are not modelled.
\<close>

section \<open>State\<close>

record record_setup =
  rs_mask :: u32
  rs_claim_mask :: u32
  rs_resolve :: bool
  rs_bypass :: bool
  rs_refuses :: bool
  rs_callbacks :: "u32 \<Rightarrow> (header_common \<Rightarrow> bool) option"
  rs_extension_source :: "(u64 \<Rightarrow> byte list) option"
  rs_base_source :: "(u64 \<Rightarrow> u64 option) option"
  rs_record_source :: "(u64 \<Rightarrow> byte list) option"

record file_record =
  fr_setup :: record_setup
  fr_header :: "record_header option"
  fr_reference :: "u64 option"
  fr_attrs :: "attribute list list"
  fr_claimed :: "stream_layout list"
  fr_end_marker :: "nat option"
  fr_failed_fixup :: bool
  fr_header_salvaged :: bool
  fr_reused :: "u64 list"
  fr_overwritten :: bool

text \<open>The volume as a record sees it; its state is that of its reads.\<close>

record 'v record_volume =
  rv_volume :: "'v volume"
  rv_record_size :: u32
  rv_index_block_size :: u32
  rv_include_deleted :: bool
  rv_mft_addr :: u64
  rv_has_mft_base :: bool
  rv_mirror_addr :: "u64 option"
  rv_read_into :: "'v \<Rightarrow> int \<Rightarrow> nat \<Rightarrow> byte list option \<times> 'v"
  rv_mft_data :: "'v \<Rightarrow> u64 \<Rightarrow> nat \<Rightarrow> (byte list option \<times> 'v) option"
  rv_callbacks :: "u32 \<Rightarrow> (header_common \<Rightarrow> bool) option"

record 'v parse_state =
  ps_volume :: 'v
  ps_buffer :: "byte list"
  ps_chain :: "u64 set"
  ps_refused :: bool

abbreviation rv_recover :: "'v record_volume \<Rightarrow> bool" where
  "rv_recover V \<equiv> vol_recover_errors (rv_volume V)"

definition new_file_record :: "record_setup \<Rightarrow> file_record" where
  "new_file_record setup =
     \<lparr>fr_setup = setup, fr_header = None, fr_reference = None, fr_attrs = replicate attr_nums [], fr_claimed = [],
      fr_end_marker = None, fr_failed_fixup = False, fr_header_salvaged = False, fr_reused = [], fr_overwritten = False\<rparr>"

section \<open>What a record answers about itself\<close>

definition flag_in_use :: byte where "flag_in_use = 0x01"
definition flag_dir :: byte where "flag_dir = 0x02"

definition IsDeleted :: "file_record \<Rightarrow> bool" where
  "IsDeleted fr = (case fr_header fr of None \<Rightarrow> False | Some h \<Rightarrow> byte_at (rh_data h) 22 AND flag_in_use = 0)"

definition IsDirectory :: "file_record \<Rightarrow> bool" where
  "IsDirectory fr = (case fr_header fr of None \<Rightarrow> False | Some h \<Rightarrow> byte_at (rh_data h) 22 AND flag_dir \<noteq> 0)"

definition RecordSequenceNumber :: "file_record \<Rightarrow> u16" where
  "RecordSequenceNumber fr = (case fr_header fr of None \<Rightarrow> 0 | Some h \<Rightarrow> u16_at (rh_data h) 16)"

definition GetLogSequenceNumber :: "file_record \<Rightarrow> u64" where
  "GetLogSequenceNumber fr = (case fr_header fr of None \<Rightarrow> 0 | Some h \<Rightarrow> u64_at (rh_data h) 8)"

definition GetBaseRecordReference :: "file_record \<Rightarrow> u64" where
  "GetBaseRecordReference fr =
     (case fr_header fr of None \<Rightarrow> 0 | Some h \<Rightarrow> u64_at (rh_data h) 32 AND mft_record_number_mask)"

definition IsExtensionRecord :: "file_record \<Rightarrow> bool" where
  "IsExtensionRecord fr = (case fr_header fr of None \<Rightarrow> False | Some h \<Rightarrow> u64_at (rh_data h) 32 \<noteq> 0)"

text \<open>The accessors above read fields of a Data::FileRecordHeader: undefined where the data is shorter.\<close>

definition header_readable :: "file_record \<Rightarrow> attr_error + unit" where
  "header_readable fr =
     (case fr_header fr of None \<Rightarrow> Inr ()
      | Some h \<Rightarrow> if min_file_record_header_size \<le> length (rh_data h) then Inr () else Inl AttrUndefined)"

definition self_ref_of :: "file_record \<Rightarrow> u64" where
  "self_ref_of fr = (case fr_reference fr of None \<Rightarrow> 0 | Some r \<Rightarrow> r)"

definition GetAttr :: "u32 \<Rightarrow> file_record \<Rightarrow> attribute list" where
  "GetAttr type fr = (if unat (AttrIndex type) \<ge> attr_nums then [] else fr_attrs fr ! unat (AttrIndex type))"

text \<open>The slot of a type in the arrays of attributes and of callbacks: an index outside them is undefined.\<close>

definition slot_of :: "u32 \<Rightarrow> attr_error + nat" where
  "slot_of type = (if unat (AttrIndex type) < attr_nums then Inr (unat (AttrIndex type)) else Inl AttrUndefined)"

definition push_attrs :: "u32 \<Rightarrow> attribute list \<Rightarrow> file_record \<Rightarrow> file_record" where
  "push_attrs type as fr =
     fr\<lparr>fr_attrs := (fr_attrs fr)[unat (AttrIndex type) := fr_attrs fr ! unat (AttrIndex type) @ as]\<rparr>"

definition ClearAttrs :: "file_record \<Rightarrow> file_record" where
  "ClearAttrs fr = fr\<lparr>fr_attrs := replicate attr_nums [], fr_claimed := [], fr_end_marker := None\<rparr>"

definition NoteOverwrittenAttrList :: "file_record \<Rightarrow> file_record" where
  "NoteOverwrittenAttrList fr = fr\<lparr>fr_overwritten := True\<rparr>"

text \<open>RefuseRead(): whether the caller refuses a volume read, told in the state.\<close>

definition RefuseRead :: "file_record \<Rightarrow> 'v parse_state \<Rightarrow> bool \<times> 'v parse_state" where
  "RefuseRead fr st = (if rs_refuses (fr_setup fr) then (True, st\<lparr>ps_refused := True\<rparr>) else (False, st))"

text \<open>UserCallBack(): the record's own callback, else the volume's.\<close>

definition UserCallBack :: "'v record_volume \<Rightarrow> file_record \<Rightarrow> u32 \<Rightarrow> header_common \<Rightarrow> bool" where
  "UserCallBack V fr index ahc =
    (case rs_callbacks (fr_setup fr) index of
       Some callback \<Rightarrow> callback ahc
     | None \<Rightarrow> (case rv_callbacks V index of Some callback \<Rightarrow> callback ahc | None \<Rightarrow> False))"

section \<open>Reading an attribute header\<close>

datatype attr_walk = WalkNext header_common | WalkEndMarker | WalkRanOut | WalkAbort

text \<open>\<open>cur\<close> is the record from the header on, \<open>data_ptr\<close> its offset.\<close>

definition ReadAttrHeader :: "byte list \<Rightarrow> nat \<Rightarrow> nat \<Rightarrow> attr_error + attr_walk" where
  "ReadAttrHeader cur data_ptr record_size =
    (if data_ptr + 4 > record_size then Inr WalkRanOut
     else if length cur < 4 then Inl AttrUndefined
     else if u32_at cur 0 = type_all then Inr WalkEndMarker
     else if data_ptr + sizeof_header_common > record_size then Inr WalkRanOut
     else
       bind_r (ReadHeaderCommon cur) (\<lambda>head.
         let total_size = unat (hc_total_size head);
             min_total_size = (if hc_non_resident head \<noteq> 0 then header_non_resident_base_size else sizeof_header_resident)
         in if data_ptr + total_size > record_size then Inr WalkRanOut
            else if total_size < min_total_size then Inr WalkAbort
            else if hc_non_resident head \<noteq> 0 then
              bind_r (ReadHeaderNonResident cur) (\<lambda>non_resident.
                if HasCompressedSizeField non_resident \<and> total_size < min_total_size + compressed_size_field_size
                then Inr WalkAbort else Inr (WalkNext head))
            else Inr (WalkNext head)))"

section \<open>Building an attribute\<close>

definition MakeNonResident :: "'v record_volume \<Rightarrow> file_record \<Rightarrow> header_common \<Rightarrow> byte list \<Rightarrow> attr_error + nr_attr" where
  "MakeNonResident V fr ahc cur =
    bind_r (ReadHeaderNonResident cur) (\<lambda>h.
    bind_r (attr_span ahc cur) (\<lambda>span.
      case AttrNonResident (rv_volume V) h span (IsDeleted fr) (fr_reference fr) of
        Inl (BadRuns SignedOverflow) \<Rightarrow> Inl AttrUndefined
      | Inl (BadRuns RunOutOfBounds) \<Rightarrow> Inl AttrUndefined
      | Inl e \<Rightarrow> Inl (AttrThrows (NonResidentThrows e))
      | Inr a \<Rightarrow> Inr a))"

definition MakeBody :: "'v record_volume \<Rightarrow> file_record \<Rightarrow> header_common \<Rightarrow> byte list \<Rightarrow> attr_error + attr_body" where
  "MakeBody V fr ahc cur =
    (if hc_non_resident ahc \<noteq> 0 then bind_r (MakeNonResident V fr ahc cur) (\<lambda>a. Inr (NonResidentBody a))
     else bind_r (ResidentBodyOf ahc cur) (\<lambda>b. Inr (ResidentBody b)))"

text \<open>An attribute of any body, whose class is computed from it.\<close>

definition MakeAttr ::
  "'v record_volume \<Rightarrow> file_record \<Rightarrow> header_common \<Rightarrow> byte list \<Rightarrow> (attr_body \<Rightarrow> attr_error + attr_class) \<Rightarrow> attr_error + attribute" where
  "MakeAttr V fr ahc cur wrap =
    bind_r (MakeBody V fr ahc cur) (\<lambda>body.
    bind_r (attr_span ahc cur) (\<lambda>span.
    bind_r (wrap body) (\<lambda>class.
      Inr \<lparr>at_header = ahc, at_bytes = span, at_body = body, at_class = class\<rparr>)))"

definition of_resident :: "(byte list \<Rightarrow> attr_error + attr_class) \<Rightarrow> attr_body \<Rightarrow> attr_error + attr_class" where
  "of_resident wrap body = (case body of ResidentBody b \<Rightarrow> wrap b | NonResidentBody _ \<Rightarrow> Inl AttrUndefined)"

definition MakeResidentOnly ::
  "'v record_volume \<Rightarrow> file_record \<Rightarrow> header_common \<Rightarrow> byte list \<Rightarrow> (byte list \<Rightarrow> attr_error + attr_class) \<Rightarrow> attr_error + attribute" where
  "MakeResidentOnly V fr ahc cur wrap =
    (if hc_non_resident ahc \<noteq> 0 then Inl (AttrThrows MustBeResident) else MakeAttr V fr ahc cur (of_resident wrap))"

text \<open>AllocResidentOnly(): None for a type with no class of its own that is always resident.\<close>

definition AllocResidentOnly ::
  "'v record_volume \<Rightarrow> file_record \<Rightarrow> header_common \<Rightarrow> byte list \<Rightarrow> (attr_error + attribute) option" where
  "AllocResidentOnly V fr ahc cur =
    (if hc_type ahc = type_std_info then
       Some (MakeResidentOnly V fr ahc cur (\<lambda>b. bind_r (CheckedStdInfo b) (\<lambda>_. Inr StdInfoAttr)))
     else if hc_type ahc = type_file_name then
       Some (MakeResidentOnly V fr ahc cur (\<lambda>b. bind_r (FileNameOf b) (\<lambda>name. Inr (FileNameAttr name))))
     else if hc_type ahc = type_volume_name then
       Some (MakeResidentOnly V fr ahc cur (\<lambda>b. bind_r (VolNameOf b) (\<lambda>name. Inr (VolNameAttr name))))
     else if hc_type ahc = type_volume_info then
       Some (MakeResidentOnly V fr ahc cur (\<lambda>b. bind_r (CheckedVolInfo b) (\<lambda>_. Inr VolInfoAttr)))
     else if hc_type ahc = type_index_root then
       Some (MakeResidentOnly V fr ahc cur (\<lambda>b. bind_r (IndexRootOf (rv_recover V) b) (\<lambda>root. Inr (IndexRootAttr root))))
     else None)"

definition index_alloc_class :: "'v record_volume \<Rightarrow> attr_body \<Rightarrow> attr_error + attr_class" where
  "index_alloc_class V body =
    (case body of
       ResidentBody _ \<Rightarrow> Inl AttrUndefined
     | NonResidentBody a \<Rightarrow>
         if rv_index_block_size V = 0 then Inl AttrUndefined
         else Inr (IndexAllocAttr (block_count_of (GetDataSize a) (rv_index_block_size V))))"

definition MakeIndexAlloc :: "'v record_volume \<Rightarrow> file_record \<Rightarrow> header_common \<Rightarrow> byte list \<Rightarrow> attr_error + attribute" where
  "MakeIndexAlloc V fr ahc cur =
    (if hc_non_resident ahc = 0 then Inl (AttrThrows MustBeNonResident)
     else MakeAttr V fr ahc cur (index_alloc_class V))"

text \<open>AllocAttr() for every type but $ATTRIBUTE_LIST.\<close>

definition AllocOther :: "'v record_volume \<Rightarrow> file_record \<Rightarrow> header_common \<Rightarrow> byte list \<Rightarrow> attr_error + attribute" where
  "AllocOther V fr ahc cur =
    (case AllocResidentOnly V fr ahc cur of
       Some r \<Rightarrow> r
     | None \<Rightarrow>
         if hc_type ahc = attr_type_data then MakeAttr V fr ahc cur (\<lambda>_. Inr DataAttr)
         else if hc_type ahc = type_index_alloc then MakeIndexAlloc V fr ahc cur
         else if hc_type ahc = type_bitmap then MakeAttr V fr ahc cur (\<lambda>_. Inr BitmapAttr)
         else MakeAttr V fr ahc cur (\<lambda>_. Inr PlainAttr))"

section \<open>The entries of an attribute list\<close>

definition max_buffered_list_bytes :: u64 where "max_buffered_list_bytes = 262144"
definition attribute_list_entry_header_size :: nat where "attribute_list_entry_header_size = 26"
definition chain_key_type_bits :: nat where "chain_key_type_bits = 16"
definition chain_key_type_mask :: u64 where "chain_key_type_mask = 0xFFFF"

definition MakeChainKey :: "u64 \<Rightarrow> u32 \<Rightarrow> u64" where
  "MakeChainKey record_ref type = push_bit chain_key_type_bits record_ref OR (ucast type AND chain_key_type_mask)"

record list_entry =
  le_type :: u32
  le_record_size :: u16
  le_segment_number :: u64
  le_sequence_number :: u16

definition list_entry_of :: "byte list \<Rightarrow> list_entry" where
  "list_entry_of bs =
     \<lparr>le_type = u32_at bs 0, le_record_size = u16_at bs 4, le_segment_number = u64_at bs 16 AND mft_record_number_mask,
      le_sequence_number = ucast (drop_bit mft_sequence_shift (u64_at bs 16))\<rparr>"

text \<open>One walk over a list: the bytes read so far, and what the reads of the attribute itself keep.\<close>

record list_walk =
  lw_bytes :: "byte list"
  lw_loaded :: "bool list"
  lw_units :: "u64 \<Rightarrow> byte list option"
  lw_alloc_checked :: bool
  lw_truncated :: bool

definition MakeListCache :: "'v record_volume \<Rightarrow> attr_body \<Rightarrow> list_walk" where
  "MakeListCache V body =
    (let empty = \<lparr>lw_bytes = [], lw_loaded = [], lw_units = Map.empty, lw_alloc_checked = False, lw_truncated = False\<rparr>
     in case body of
          ResidentBody _ \<Rightarrow> empty
        | NonResidentBody a \<Rightarrow>
            let size = GetDataSize a; cluster_size = cluster_bytes_of (rv_volume V)
            in if size \<noteq> 0 \<and> size \<le> max_buffered_list_bytes \<and> cluster_size \<noteq> 0
               then empty\<lparr>lw_bytes := replicate (unat size) 0, lw_loaded := replicate (unat ((size + cluster_size - 1) div cluster_size)) False\<rparr>
               else empty)"

definition body_size :: "attr_body \<Rightarrow> u64" where
  "body_size body = (case body of ResidentBody b \<Rightarrow> of_nat (length b) | NonResidentBody a \<Rightarrow> GetDataSize a)"

text \<open>ReadData() of the list's own attribute.\<close>

definition read_body ::
  "'v record_volume \<Rightarrow> attr_body \<Rightarrow> u64 \<Rightarrow> byte list \<Rightarrow> list_walk \<Rightarrow> 'v parse_state \<Rightarrow>
     ((attr_error + read_end) \<times> byte list \<times> list_walk \<times> 'v parse_state) option" where
  "read_body V body offset out w st =
    (case body of
       ResidentBody b \<Rightarrow> (case ResidentReadData b offset out of (r, out) \<Rightarrow> Some (r, out, w, st))
     | NonResidentBody a \<Rightarrow>
         do {
           (r, out, s) \<leftarrow> ReadData (rv_volume V) a offset out
             \<lparr>ns_volume = ps_volume st, ns_cluster_buffer = ps_buffer st, ns_units = lw_units w, ns_alloc_checked = lw_alloc_checked w\<rparr>;
           Some (Inr r, out, w\<lparr>lw_units := ns_units s, lw_alloc_checked := ns_alloc_checked s\<rparr>,
                 st\<lparr>ps_volume := ns_volume s, ps_buffer := ns_cluster_buffer s\<rparr>)
         })"

text \<open>The bytes of the cache once a span of it from \<open>first\<close> on was handed out and came back as \<open>out\<close>.\<close>

definition write_span :: "nat \<Rightarrow> byte list \<Rightarrow> byte list \<Rightarrow> byte list" where
  "write_span first out bytes =
     map (\<lambda>i. if first \<le> i \<and> i - first < length out then out ! (i - first) else bytes ! i) [0..<length bytes]"

datatype load_end = Loaded | LoadFailed | LoadThrows | LoadUndefined

fun load_clusters ::
  "'v record_volume \<Rightarrow> attr_body \<Rightarrow> nat \<Rightarrow> nat list \<Rightarrow> list_walk \<Rightarrow> 'v parse_state \<Rightarrow>
     (load_end \<times> list_walk \<times> 'v parse_state) option" where
  "load_clusters V body cluster_size [] w st = Some (Loaded, w, st)"
| "load_clusters V body cluster_size (index # rest) w st =
    (if index \<ge> length (lw_loaded w) then Some (LoadThrows, w, st)
     else if lw_loaded w ! index then load_clusters V body cluster_size rest w st
     else
       let first = index * cluster_size;
           count = min cluster_size (size_sub (length (lw_bytes w)) first)
       in case subspan AttrUndefined (lw_bytes w) first count of
            Inl e \<Rightarrow> Some (LoadUndefined, w, st)
          | Inr part \<Rightarrow>
              do {
                (r, out, w, st) \<leftarrow> read_body V body (of_nat first) part w st;
                let w = w\<lparr>lw_bytes := write_span first out (lw_bytes w)\<rparr>;
                case r of
                  Inl e \<Rightarrow> Some (LoadUndefined, w, st)
                | Inr Throws \<Rightarrow> Some (LoadThrows, w, st)
                | Inr (Answers l) \<Rightarrow>
                    if l \<noteq> Some (of_nat count) then Some (LoadFailed, w, st)
                    else load_clusters V body cluster_size rest (w\<lparr>lw_loaded := (lw_loaded w)[index := True]\<rparr>) st
              })"

definition ReadListBytes ::
  "'v record_volume \<Rightarrow> attr_body \<Rightarrow> u64 \<Rightarrow> byte list \<Rightarrow> list_walk \<Rightarrow> 'v parse_state \<Rightarrow>
     ((attr_error + read_end) \<times> byte list \<times> list_walk \<times> 'v parse_state) option" where
  "ReadListBytes V body offset out w st =
    (if lw_bytes w = [] then read_body V body offset out w st
     else
       let size = length (lw_bytes w)
       in if unat offset > size then Some (Inr (Answers None), out, w, st)
          else
            let len = min (length out) (size_sub size (unat offset));
                cluster_size = unat (cluster_bytes_of (rv_volume V));
                clusters = [unat offset div cluster_size ..< (unat offset + len + cluster_size - 1) div cluster_size]
            in do {
                 (r, w, st) \<leftarrow> load_clusters V body cluster_size clusters w st;
                 Some (case r of
                     LoadUndefined \<Rightarrow> (Inl AttrUndefined, out, w, st)
                   | LoadThrows \<Rightarrow> (Inr Throws, out, w, st)
                   | LoadFailed \<Rightarrow> (Inr (Answers None), out, w, st)
                   | Loaded \<Rightarrow>
                       (case subspan AttrUndefined (lw_bytes w) (unat offset) len of
                          Inl e \<Rightarrow> (Inl e, out, w, st)
                        | Inr bytes \<Rightarrow> (Inr (Answers (Some (of_nat len))), write_front bytes out, w, st)))
               })"

datatype entry_read = EntryUndefined | EntryThrows | NoMoreEntries | Entry list_entry

definition ReadEntryHeader ::
  "'v record_volume \<Rightarrow> attr_body \<Rightarrow> u64 \<Rightarrow> list_walk \<Rightarrow> 'v parse_state \<Rightarrow> (entry_read \<times> list_walk \<times> 'v parse_state) option" where
  "ReadEntryHeader V body offset w st =
    do {
      (r, out, w, st) \<leftarrow> ReadListBytes V body offset (replicate attribute_list_entry_header_size 0) w st;
      Some (case r of
          Inl e \<Rightarrow> (EntryUndefined, w, st)
        | Inr Throws \<Rightarrow> (EntryThrows, w, st)
        | Inr (Answers None) \<Rightarrow> (NoMoreEntries, w, st)
        | Inr (Answers (Some len)) \<Rightarrow>
            if len = of_nat attribute_list_entry_header_size then (Entry (list_entry_of out), w, st)
            else (NoMoreEntries, w\<lparr>lw_truncated := lw_truncated w \<or> len \<noteq> 0 \<or> offset \<noteq> body_size body\<rparr>, st))
    }"

text \<open>The end of the walk, once it stopped at \<open>offset\<close>.\<close>

definition list_walk_end ::
  "bool \<Rightarrow> bool \<Rightarrow> attr_body \<Rightarrow> u64 \<Rightarrow> list_walk \<Rightarrow> file_record \<Rightarrow> (attr_error + unit) \<times> file_record" where
  "list_walk_end recover overwritable body offset w fr =
    (let truncated = lw_truncated w \<or> offset \<noteq> body_size body
     in if truncated \<and> overwritable then (Inr (), NoteOverwrittenAttrList fr)
        else if truncated \<and> \<not> recover then (Inl (AttrThrows ListTruncated), fr)
        else (Inr (), fr))"

partial_function (option) list_loop ::
  "'v record_volume \<Rightarrow>
   (u64 \<Rightarrow> u16 \<Rightarrow> u32 \<Rightarrow> file_record \<Rightarrow> 'v parse_state \<Rightarrow> ((attr_error + unit) \<times> file_record \<times> 'v parse_state) option) \<Rightarrow>
   bool \<Rightarrow> attr_body \<Rightarrow> u64 \<Rightarrow> list_walk \<Rightarrow> file_record \<Rightarrow> 'v parse_state \<Rightarrow>
   ((attr_error + unit) \<times> file_record \<times> 'v parse_state) option" where
  "list_loop V import overwritable body offset w fr st =
    do {
      (r, w, st) \<leftarrow> ReadEntryHeader V body offset w st;
      case r of
        EntryUndefined \<Rightarrow> Some (Inl AttrUndefined, fr, st)
      | EntryThrows \<Rightarrow> Some (Inl (AttrThrows NarrowingError), fr, st)
      | NoMoreEntries \<Rightarrow> (case list_walk_end (rv_recover V) overwritable body offset w fr of (r, fr) \<Rightarrow> Some (r, fr, st))
      | Entry e \<Rightarrow>
          if \<not> IsValidAttrType (le_type e) then
            (if overwritable then Some (Inr (), NoteOverwrittenAttrList fr, st)
             else Some (Inl (AttrThrows ListBadType), fr, st))
          else do {
            (r, fr, st) \<leftarrow> import (le_segment_number e) (le_sequence_number e) (le_type e) fr st;
            case r of
              Inl err \<Rightarrow> Some (Inl err, fr, st)
            | Inr _ \<Rightarrow>
                if overwritable \<and> unat (le_record_size e) < attribute_list_entry_header_size
                then Some (Inr (), NoteOverwrittenAttrList fr, st)
                else if le_record_size e = 0 then Some (Inl (AttrThrows ListEndlessLoop), fr, st)
                else if unat (le_record_size e) < attribute_list_entry_header_size then
                  (case list_walk_end (rv_recover V) overwritable body offset (w\<lparr>lw_truncated := True\<rparr>) fr of
                     (r, fr) \<Rightarrow> Some (r, fr, st))
                else list_loop V import overwritable body (offset + ucast (le_record_size e)) w fr st
          }
    }"

section \<open>The record's own bytes\<close>

definition DirectRecordAddress :: "'v record_volume \<Rightarrow> u64 \<Rightarrow> u64 option" where
  "DirectRecordAddress V file_ref =
    (case RecordOffset (rv_record_size V) file_ref of
       None \<Rightarrow> None
     | Some offset \<Rightarrow> if rv_mft_addr V + offset > 0x7FFFFFFFFFFFFFFF then None else Some (rv_mft_addr V + offset))"

definition ReadDirectRecord :: "'v record_volume \<Rightarrow> u64 \<Rightarrow> 'v \<Rightarrow> byte list option \<times> 'v" where
  "ReadDirectRecord V file_ref v =
    (case DirectRecordAddress V file_ref of
       None \<Rightarrow> (None, v)
     | Some addr \<Rightarrow> rv_read_into V v (int (unat addr)) (unat (rv_record_size V)))"

definition ReadRecordFromMft :: "'v record_volume \<Rightarrow> file_record \<Rightarrow> u64 \<Rightarrow> 'v \<Rightarrow> (byte list option \<times> 'v) option" where
  "ReadRecordFromMft V fr file_ref v =
    (case RecordOffset (rv_record_size V) file_ref of
       None \<Rightarrow> Some (None, v)
     | Some fr_addr \<Rightarrow>
         let held = (case rs_record_source (fr_setup fr) of None \<Rightarrow> [] | Some source \<Rightarrow> source file_ref)
         in if rs_record_source (fr_setup fr) \<noteq> None \<and> length held = unat (rv_record_size V) then Some (Some held, v)
            else rv_mft_data V v fr_addr (unat (rv_record_size V)))"

text \<open>ParseHeader(): None where the constructor throws.\<close>

definition ParseHeader :: "'v record_volume \<Rightarrow> byte list \<Rightarrow> attr_error + record_header option" where
  "ParseHeader V record_buffer =
    (case new_record_header (if vol_full_cache (rv_volume V) then FullCache else NoCache) record_buffer of
       Inl UsOutOfBounds \<Rightarrow> Inl AttrUndefined
     | Inl _ \<Rightarrow> Inr None
     | Inr h \<Rightarrow> Inr (Some h))"

definition first_user_idx :: u64 where "first_user_idx = 16"

definition ReadFileRecord ::
  "'v record_volume \<Rightarrow> file_record \<Rightarrow> u64 \<Rightarrow> byte list \<Rightarrow> 'v \<Rightarrow> ((attr_error + record_header option) \<times> 'v) option" where
  "ReadFileRecord V fr file_ref preread v =
    do {
      (filled, v) \<leftarrow>
        (if preread \<noteq> [] then Some (if length preread \<noteq> unat (rv_record_size V) then None else Some preread, v)
         else if file_ref < first_user_idx \<or> \<not> rv_has_mft_base V then Some (ReadDirectRecord V file_ref v)
         else ReadRecordFromMft V fr file_ref v);
      Some (case filled of None \<Rightarrow> Inr None | Some record_buffer \<Rightarrow> ParseHeader V record_buffer, v)
    }"

definition ReadMftMirrorRecord :: "'v record_volume \<Rightarrow> u64 \<Rightarrow> 'v \<Rightarrow> byte list option \<times> 'v" where
  "ReadMftMirrorRecord V file_ref v =
    (case rv_mirror_addr V of
       None \<Rightarrow> (None, v)
     | Some mirr_addr \<Rightarrow>
         if \<not> rv_recover V \<or> file_ref \<ge> mft_mirror_record_count then (None, v)
         else rv_read_into V v (int (unat (mirr_addr + file_ref * ucast (rv_record_size V)))) (unat (rv_record_size V)))"

definition ReadMirrorRecord :: "'v record_volume \<Rightarrow> u64 \<Rightarrow> 'v \<Rightarrow> (attr_error + record_header option) \<times> 'v" where
  "ReadMirrorRecord V file_ref v =
    (case ReadMftMirrorRecord V file_ref v of
       (None, v) \<Rightarrow> (Inr None, v)
     | (Some record_buffer, v) \<Rightarrow> (ParseHeader V record_buffer, v))"

text \<open>JudgeRecordHeader() on a header read, or the verdict where there is none.\<close>

definition judge_read ::
  "'v record_volume \<Rightarrow> record_header option \<Rightarrow> attr_error + header_verdict \<times> bool \<times> record_header option" where
  "judge_read V header =
    (case header of
       None \<Rightarrow> Inr (Rejected, False, None)
     | Some h \<Rightarrow>
         (case JudgeRecordHeader h (rv_recover V) False of
            Inl _ \<Rightarrow> Inl AttrUndefined
          | Inr (verdict, failed, h) \<Rightarrow> Inr (verdict, failed, Some h)))"

text \<open>The end of ParseRecord(), once a header is chosen.\<close>

definition keep_header ::
  "u64 \<Rightarrow> bool \<Rightarrow> header_verdict \<Rightarrow> bool \<Rightarrow> bool \<Rightarrow> record_header option \<Rightarrow> file_record \<Rightarrow> bool \<times> file_record" where
  "keep_header file_ref read_ok verdict failed salvaged header fr =
    (let accepted = (verdict \<noteq> Rejected)
     in (accepted,
         fr\<lparr>fr_failed_fixup := failed, fr_header_salvaged := (salvaged \<or> verdict = Salvaged),
            fr_reference := (if read_ok \<or> accepted then Some file_ref else None),
            fr_header := (if accepted then header else None)\<rparr>))"

definition ParseRecord ::
  "'v record_volume \<Rightarrow> u64 \<Rightarrow> byte list \<Rightarrow> file_record \<Rightarrow> 'v parse_state \<Rightarrow>
     ((attr_error + bool) \<times> file_record \<times> 'v parse_state) option" where
  "ParseRecord V file_ref preread fr st =
    (let fr = (ClearAttrs fr)\<lparr>fr_header := None, fr_failed_fixup := False, fr_header_salvaged := False,
                            fr_reused := [], fr_overwritten := False\<rparr>;
         failed_read = (\<lambda>e v. Some (Inl e, fr, st\<lparr>ps_volume := v\<rparr>));
         kept = (\<lambda>read_ok verdict failed salvaged header v.
                  case keep_header file_ref read_ok verdict failed salvaged header fr of
                    (accepted, fr) \<Rightarrow> Some (Inr accepted, fr, st\<lparr>ps_volume := v\<rparr>))
     in do {
          (read, v) \<leftarrow> ReadFileRecord V fr file_ref preread (ps_volume st);
          case bind_r read (\<lambda>h. bind_r (judge_read V h) (\<lambda>j. Inr (h \<noteq> None, j))) of
            Inl e \<Rightarrow> failed_read e v
          | Inr (read_ok, verdict, failed, header) \<Rightarrow>
              if verdict = Accepted \<or> preread \<noteq> [] then kept read_ok verdict failed False header v
              else
                (case ReadMirrorRecord V file_ref v of
                   (mirror, v) \<Rightarrow>
                     (case bind_r mirror (judge_read V) of
                        Inl e \<Rightarrow> failed_read e v
                      | Inr (mirror_verdict, mirror_failed, mirror_header) \<Rightarrow>
                          if mirror_verdict = Accepted then kept read_ok Accepted failed failed mirror_header v
                          else if verdict = Salvaged then
                            do {
                              (again, v) \<leftarrow> ReadFileRecord V fr file_ref preread v;
                              case bind_r again (judge_read V) of
                                Inl e \<Rightarrow> failed_read e v
                              | Inr (verdict, again_failed, header) \<Rightarrow> kept read_ok verdict failed False header v
                            }
                          else kept read_ok verdict failed False mirror_header v))
        })"

section \<open>Extension records\<close>

definition NamesOtherBase :: "file_record \<Rightarrow> u64 \<Rightarrow> u64 \<Rightarrow> bool" where
  "NamesOtherBase fr record_number listing_record =
    (case rs_base_source (fr_setup fr) of
       None \<Rightarrow> False
     | Some base_source \<Rightarrow> (case base_source record_number of None \<Rightarrow> False | Some base \<Rightarrow> base \<noteq> listing_record))"

definition SkipForeignExtension :: "bool \<Rightarrow> u64 \<Rightarrow> file_record \<Rightarrow> (attr_error + unit) \<times> file_record" where
  "SkipForeignExtension recover record_number fr =
    (if IsDeleted fr then
       (Inr (), if record_number \<in> set (fr_reused fr) then fr else fr\<lparr>fr_reused := fr_reused fr @ [record_number]\<rparr>)
     else if \<not> recover then (Inl (AttrThrows ListNamesForeignRecord), fr)
     else (Inr (), fr))"

text \<open>The bytes held for the record where it is wanted (none: read it), None where it is not.\<close>

definition WantsExtension ::
  "'v record_volume \<Rightarrow> u64 \<Rightarrow> u32 \<Rightarrow> bool \<Rightarrow> file_record \<Rightarrow> 'v parse_state \<Rightarrow>
     (attr_error + byte list option) \<times> file_record \<times> 'v parse_state" where
  "WantsExtension V record_number type claim_only fr st =
    (let self_ref = self_ref_of fr; key = MakeChainKey record_number type
     in if record_number = self_ref \<or> (AttrMask type AND rs_mask (fr_setup fr) = 0 \<and> \<not> claim_only) then (Inr None, fr, st)
        else if key \<in> ps_chain st then (Inr None, fr, st)
        else
          let st = st\<lparr>ps_chain := insert key (ps_chain st)\<rparr>;
              held = (case rs_extension_source (fr_setup fr) of None \<Rightarrow> [] | Some source \<Rightarrow> source record_number)
          in if held = [] \<and> NamesOtherBase fr record_number (self_ref AND mft_record_number_mask) then
               (if claim_only then (Inr None, fr, st)
                else case SkipForeignExtension (rv_recover V) record_number fr of
                       (r, fr) \<Rightarrow> (bind_r r (\<lambda>_. Inr None), fr, st))
             else if held \<noteq> [] then (Inr (Some held), fr, st)
             else case RefuseRead fr st of (refused, st) \<Rightarrow> (Inr (if refused then None else Some []), fr, st))"

definition extension_setup :: "record_setup \<Rightarrow> u32 \<Rightarrow> bool \<Rightarrow> record_setup" where
  "extension_setup s entry_mask claim_only =
     \<lparr>rs_mask = (if claim_only then 0 else entry_mask), rs_claim_mask = (if claim_only then entry_mask else 0),
      rs_resolve = True, rs_bypass = False, rs_refuses = rs_refuses s, rs_callbacks = rs_callbacks s,
      rs_extension_source = rs_extension_source s, rs_base_source = rs_base_source s, rs_record_source = None\<rparr>"

definition IsGenuineExtension :: "file_record \<Rightarrow> file_record \<Rightarrow> u16 \<Rightarrow> bool" where
  "IsGenuineExtension fr extension sequence_number =
    (let listing_record = self_ref_of fr AND mft_record_number_mask
     in if IsDeleted fr then
          IsGenuineFreedExtensionRecord sequence_number (RecordSequenceNumber extension) (\<not> IsDeleted extension)
            (GetBaseRecordReference extension) listing_record
        else IsGenuineExtensionRecord sequence_number (RecordSequenceNumber extension) (GetBaseRecordReference extension) listing_record)"

text \<open>
  ImportAttrListEntry(), with OpenExtension(); \<open>parse\<close> parses the attributes of an extension. Its
  steps from the end: the extension's attributes were parsed, its record was, the entry was met.
\<close>

definition import_parsed :: "u32 \<Rightarrow> bool \<Rightarrow> file_record \<Rightarrow> attr_error + bool \<Rightarrow> file_record \<Rightarrow> (attr_error + unit) \<times> file_record" where
  "import_parsed type claim_only fr parsed ext =
    (case parsed of
       Inl e \<Rightarrow> (Inl e, fr)
     | Inr ok \<Rightarrow>
         if claim_only then (Inr (), fr\<lparr>fr_claimed := fr_claimed fr @ fr_claimed ext\<rparr>)
         else if \<not> ok then (Inl (AttrThrows ListAttrsUnparsed), fr)
         else
           (case slot_of type of
              Inl e \<Rightarrow> (Inl e, fr)
            | Inr _ \<Rightarrow> (Inr (), push_attrs type (GetAttr type ext) (if fr_overwritten ext then NoteOverwrittenAttrList fr else fr))))"

definition import_opened ::
  "'v record_volume \<Rightarrow>
   (file_record \<Rightarrow> 'v parse_state \<Rightarrow> ((attr_error + bool) \<times> file_record \<times> 'v parse_state) option) \<Rightarrow>
   u64 \<Rightarrow> u16 \<Rightarrow> u32 \<Rightarrow> bool \<Rightarrow> file_record \<Rightarrow> attr_error + bool \<Rightarrow> file_record \<Rightarrow> 'v parse_state \<Rightarrow>
   ((attr_error + unit) \<times> file_record \<times> 'v parse_state) option" where
  "import_opened V parse record_number sequence_number type claim_only fr opened ext st =
    (case opened of
       Inl e \<Rightarrow> Some (Inl e, fr, st)
     | Inr ok \<Rightarrow>
         if \<not> ok then Some (if claim_only then Inr () else Inl (AttrThrows ListRecordUnparsed), fr, st)
         else if bind_r (header_readable fr) (\<lambda>_. header_readable ext) \<noteq> Inr () then Some (Inl AttrUndefined, fr, st)
         else if \<not> IsGenuineExtension fr ext sequence_number then
           (if claim_only then Some (Inr (), fr, st)
            else case SkipForeignExtension (rv_recover V) record_number fr of (r, fr) \<Rightarrow> Some (r, fr, st))
         else do {
           (parsed, ext, st) \<leftarrow> parse ext st;
           Some (case import_parsed type claim_only fr parsed ext of (r, fr) \<Rightarrow> (r, fr, st))
         })"

definition ImportAttrListEntry ::
  "'v record_volume \<Rightarrow>
   (file_record \<Rightarrow> 'v parse_state \<Rightarrow> ((attr_error + bool) \<times> file_record \<times> 'v parse_state) option) \<Rightarrow>
   u64 \<Rightarrow> u16 \<Rightarrow> u32 \<Rightarrow> file_record \<Rightarrow> 'v parse_state \<Rightarrow> ((attr_error + unit) \<times> file_record \<times> 'v parse_state) option" where
  "ImportAttrListEntry V parse record_number sequence_number type fr st =
    (let entry_mask = AttrMask type;
         claim_only = (entry_mask AND rs_mask (fr_setup fr) = 0 \<and> entry_mask AND rs_claim_mask (fr_setup fr) \<noteq> 0)
     in case WantsExtension V record_number type claim_only fr st of
          (Inl e, fr, st) \<Rightarrow> Some (Inl e, fr, st)
        | (Inr None, fr, st) \<Rightarrow> Some (Inr (), fr, st)
        | (Inr (Some held), fr, st) \<Rightarrow>
            do {
              (opened, ext, st) \<leftarrow>
                ParseRecord V record_number held (new_file_record (extension_setup (fr_setup fr) entry_mask claim_only)) st;
              import_opened V parse record_number sequence_number type claim_only fr opened ext st
            })"

section \<open>One attribute of the walk\<close>

text \<open>The constructor of AttrList, after that of the attribute it derives from.\<close>

definition AttrList ::
  "'v record_volume \<Rightarrow>
   (file_record \<Rightarrow> 'v parse_state \<Rightarrow> ((attr_error + bool) \<times> file_record \<times> 'v parse_state) option) \<Rightarrow>
   header_common \<Rightarrow> byte list \<Rightarrow> file_record \<Rightarrow> 'v parse_state \<Rightarrow>
   ((attr_error + attribute) \<times> file_record \<times> 'v parse_state) option" where
  "AttrList V parse ahc cur fr st =
    (case MakeAttr V fr ahc cur (\<lambda>_. Inr ListAttr) of
       Inl e \<Rightarrow> Some (Inl e, fr, st)
     | Inr a \<Rightarrow>
         let overwritable = (hc_non_resident ahc \<noteq> 0 \<and> IsDeleted fr);
             st = st\<lparr>ps_chain := insert (MakeChainKey (self_ref_of fr) type_attr_list) (ps_chain st)\<rparr>
         in do {
              (r, fr, st) \<leftarrow> list_loop V (ImportAttrListEntry V parse) overwritable (at_body a) 0 (MakeListCache V (at_body a)) fr st;
              Some (bind_r r (\<lambda>_. Inr a), fr, st)
            })"

definition MakeAttributeList ::
  "'v record_volume \<Rightarrow>
   (file_record \<Rightarrow> 'v parse_state \<Rightarrow> ((attr_error + bool) \<times> file_record \<times> 'v parse_state) option) \<Rightarrow>
   header_common \<Rightarrow> byte list \<Rightarrow> file_record \<Rightarrow> 'v parse_state \<Rightarrow>
   ((attr_error + attribute) \<times> file_record \<times> 'v parse_state) option" where
  "MakeAttributeList V parse ahc cur fr st =
    (let (refused, st) = (if rs_resolve (fr_setup fr) \<and> hc_non_resident ahc \<noteq> 0 then RefuseRead fr st else (False, st))
     in if \<not> rs_resolve (fr_setup fr) \<or> refused then Some (MakeAttr V fr ahc cur (\<lambda>_. Inr PlainAttr), fr, st)
        else AttrList V parse ahc cur fr st)"

definition AllocAttr ::
  "'v record_volume \<Rightarrow>
   (file_record \<Rightarrow> 'v parse_state \<Rightarrow> ((attr_error + bool) \<times> file_record \<times> 'v parse_state) option) \<Rightarrow>
   header_common \<Rightarrow> byte list \<Rightarrow> file_record \<Rightarrow> 'v parse_state \<Rightarrow>
   ((attr_error + attribute) \<times> file_record \<times> 'v parse_state) option" where
  "AllocAttr V parse ahc cur fr st =
    (if hc_type ahc = type_attr_list then MakeAttributeList V parse ahc cur fr st
     else Some (AllocOther V fr ahc cur, fr, st))"

text \<open>ParseAttr(): an exception becomes the answer false.\<close>

definition ParseAttr ::
  "'v record_volume \<Rightarrow>
   (file_record \<Rightarrow> 'v parse_state \<Rightarrow> ((attr_error + bool) \<times> file_record \<times> 'v parse_state) option) \<Rightarrow>
   header_common \<Rightarrow> byte list \<Rightarrow> file_record \<Rightarrow> 'v parse_state \<Rightarrow>
   ((attr_error + bool) \<times> file_record \<times> 'v parse_state) option" where
  "ParseAttr V parse ahc cur fr st =
    (if slot_of (hc_type ahc) = Inl AttrUndefined then Some (Inl AttrUndefined, fr, st)
     else if UserCallBack V fr (AttrIndex (hc_type ahc)) ahc then Some (Inr True, fr, st)
     else do {
       (r, fr, st) \<leftarrow> AllocAttr V parse ahc cur fr st;
       Some (case r of
           Inl AttrUndefined \<Rightarrow> (Inl AttrUndefined, fr, st)
         | Inl (AttrThrows e) \<Rightarrow> (Inr False, fr, st)
         | Inr a \<Rightarrow> (Inr True, push_attrs (hc_type ahc) [a] fr, st))
     })"

definition ClaimLayout :: "'v record_volume \<Rightarrow> header_common \<Rightarrow> byte list \<Rightarrow> file_record \<Rightarrow> (attr_error + unit) \<times> file_record" where
  "ClaimLayout V ahc cur fr =
    (case MakeNonResident V fr ahc cur of
       Inl AttrUndefined \<Rightarrow> (Inl AttrUndefined, fr)
     | Inl (AttrThrows e) \<Rightarrow> (Inr (), fr)
     | Inr a \<Rightarrow> (Inr (), fr\<lparr>fr_claimed := fr_claimed fr @ [GetLayout (rv_volume V) a]\<rparr>))"

definition VisitAttr ::
  "'v record_volume \<Rightarrow>
   (file_record \<Rightarrow> 'v parse_state \<Rightarrow> ((attr_error + bool) \<times> file_record \<times> 'v parse_state) option) \<Rightarrow>
   byte list \<Rightarrow> header_common \<Rightarrow> file_record \<Rightarrow> 'v parse_state \<Rightarrow>
   ((attr_error + bool) \<times> file_record \<times> 'v parse_state) option" where
  "VisitAttr V parse cur head fr st =
    (let valid = IsValidAttrType (hc_type head)
     in if \<not> valid \<or> AttrMask (hc_type head) AND rs_mask (fr_setup fr) = 0 then
          (if valid \<and> hc_non_resident head \<noteq> 0 \<and> AttrMask (hc_type head) AND rs_claim_mask (fr_setup fr) \<noteq> 0 then
             (case ClaimLayout V head cur fr of (r, fr) \<Rightarrow> Some (bind_r r (\<lambda>_. Inr True), fr, st))
           else Some (Inr True, fr, st))
        else if name_exceeds_bounds head \<and> \<not> rv_recover V then Some (Inr False, fr, st)
        else ParseAttr V parse head cur fr st)"

section \<open>The walk\<close>

datatype walk_end = EndMarkerReached | RanOut | Aborted

lemma ReadAttrHeader_next:
  "ReadAttrHeader cur data_ptr record_size = Inr (WalkNext head) \<Longrightarrow>
     ReadHeaderCommon cur = Inr head \<and> data_ptr + unat (hc_total_size head) \<le> record_size \<and>
     (if hc_non_resident head \<noteq> 0 then 64 else 24) \<le> unat (hc_total_size head)"
  by (auto simp: ReadAttrHeader_def Let_def bind_r_eq_Inr header_sizes split: if_splits)

text \<open>WalkAttrHeaders(): how it ended, and whether an attribute was skipped.\<close>

function WalkAttrHeaders ::
  "'v record_volume \<Rightarrow>
   (byte list \<Rightarrow> header_common \<Rightarrow> file_record \<Rightarrow> 'v parse_state \<Rightarrow> ((attr_error + bool) \<times> file_record \<times> 'v parse_state) option) \<Rightarrow>
   byte list \<Rightarrow> nat \<Rightarrow> bool \<Rightarrow> file_record \<Rightarrow> 'v parse_state \<Rightarrow>
   ((attr_error + walk_end \<times> bool) \<times> file_record \<times> 'v parse_state) option" where
  "WalkAttrHeaders V visit cur data_ptr skipped fr st =
    (case ReadAttrHeader cur data_ptr (unat (rv_record_size V)) of
       Inl e \<Rightarrow> Some (Inl e, fr, st)
     | Inr WalkEndMarker \<Rightarrow> Some (Inr (EndMarkerReached, skipped), fr\<lparr>fr_end_marker := Some data_ptr\<rparr>, st)
     | Inr WalkRanOut \<Rightarrow> Some (Inr (RanOut, skipped), fr, st)
     | Inr WalkAbort \<Rightarrow> Some (Inr (Aborted, skipped), fr, st)
     | Inr (WalkNext head) \<Rightarrow>
         (case visit cur head fr st of
            None \<Rightarrow> None
          | Some (Inl e, fr, st) \<Rightarrow> Some (Inl e, fr, st)
          | Some (Inr ok, fr, st) \<Rightarrow>
              if \<not> ok \<and> \<not> rv_recover V then Some (Inr (Aborted, skipped), fr, st)
              else WalkAttrHeaders V visit (drop (unat (hc_total_size head)) cur) (data_ptr + unat (hc_total_size head))
                     (skipped \<or> \<not> ok) fr st))"
  by pat_completeness auto
termination
  by (relation "measure (\<lambda>(V, visit, cur, data_ptr, rest). unat (rv_record_size V) - data_ptr)")
    (auto dest!: ReadAttrHeader_next split: if_splits)

declare WalkAttrHeaders.simps [simp del]

section \<open>Merging the parts of a stream\<close>

definition stream_of :: "attribute \<Rightarrow> nr_attr option" where
  "stream_of a = (case at_body a of NonResidentBody n \<Rightarrow> Some n | ResidentBody _ \<Rightarrow> None)"

text \<open>GroupNonResidentByName(): the indexes of each name, in the order the names are met.\<close>

fun add_to_group :: "u32 list \<Rightarrow> nat \<Rightarrow> (u32 list \<times> nat list) list \<Rightarrow> (u32 list \<times> nat list) list" where
  "add_to_group key i [] = [(key, [i])]"
| "add_to_group key i ((k, is) # groups) = (if k = key then (k, is @ [i]) # groups else (k, is) # add_to_group key i groups)"

fun group_from :: "nat \<Rightarrow> attribute list \<Rightarrow> (u32 list \<times> nat list) list \<Rightarrow> attr_error + (u32 list \<times> nat list) list" where
  "group_from i [] groups = Inr groups"
| "group_from i (a # as) groups =
    (if IsNonResident a then
       bind_r (if IsUnNamed a then Inr [] else GetAttrName a) (\<lambda>key. group_from (i + 1) as (add_to_group key i groups))
     else group_from (i + 1) as groups)"

definition GroupNonResidentByName :: "attribute list \<Rightarrow> attr_error + (u32 list \<times> nat list) list" where
  "GroupNonResidentByName attrs = group_from 0 attrs []"

text \<open>The streams at the indexes of a group, sorted by start VCN (the source sorts them in place).\<close>

definition start_vcn_of :: "attribute list \<Rightarrow> nat \<Rightarrow> u64" where
  "start_vcn_of attrs i = (case stream_of (attrs ! i) of Some n \<Rightarrow> GetStartVcn n | None \<Rightarrow> 0)"

fun chain_contiguous :: "u64 \<Rightarrow> nr_attr list \<Rightarrow> bool" where
  "chain_contiguous expected_start_vcn [] = True"
| "chain_contiguous expected_start_vcn (n # ns) =
     (GetStartVcn n = expected_start_vcn \<and> chain_contiguous (GetLastVcn n + 1) ns)"

definition set_stream :: "nr_attr \<Rightarrow> attribute \<Rightarrow> attribute" where
  "set_stream n a = a\<lparr>at_body := NonResidentBody n\<rparr>"

text \<open>
  MergeStreamChain(): the attributes, and the indexes to erase. \<open>std::ranges::sort\<close> may leave instances
  with one start VCN in any order, and \<open>sort_key\<close> keeps theirs. Two instances with one start are only
  ever chained where one of them ends at the largest VCN, so that the expected VCN wraps.
\<close>

definition MergeStreamChain :: "attribute list \<Rightarrow> nat list \<Rightarrow> nat list \<Rightarrow> attr_error + attribute list \<times> nat list" where
  "MergeStreamChain attrs indices to_erase =
    (let indices = sort_key (start_vcn_of attrs) indices
     in case those (map (\<lambda>i. stream_of (attrs ! i)) indices) of
          None \<Rightarrow> Inl AttrUndefined
        | Some [] \<Rightarrow> Inl AttrUndefined
        | Some (keeper # rest) \<Rightarrow>
            if \<not> chain_contiguous 0 (keeper # rest) then Inr (attrs, to_erase)
            else Inr (attrs[hd indices := set_stream (foldl AttrAppendRuns keeper rest) (attrs ! hd indices)], to_erase @ tl indices))"

fun merge_groups :: "(u32 list \<times> nat list) list \<Rightarrow> attribute list \<Rightarrow> nat list \<Rightarrow> attr_error + attribute list \<times> nat list" where
  "merge_groups [] attrs to_erase = Inr (attrs, to_erase)"
| "merge_groups ((name, indices) # groups) attrs to_erase =
    (if length indices \<ge> 2 then
       bind_r (MergeStreamChain attrs indices to_erase) (\<lambda>(attrs, to_erase). merge_groups groups attrs to_erase)
     else merge_groups groups attrs to_erase)"

definition erase_at :: "nat \<Rightarrow> 'a list \<Rightarrow> 'a list" where
  "erase_at i xs = take i xs @ drop (Suc i) xs"

definition MergeSlot :: "attribute list \<Rightarrow> attr_error + attribute list" where
  "MergeSlot attrs =
    (if length (filter IsNonResident attrs) < 2 then Inr attrs
     else
       bind_r (GroupNonResidentByName attrs) (\<lambda>groups.
       bind_r (merge_groups groups attrs []) (\<lambda>(attrs, to_erase).
         Inr (fold erase_at (rev (sort to_erase)) attrs))))"

fun merge_slots :: "attribute list list \<Rightarrow> attr_error + attribute list list" where
  "merge_slots [] = Inr []"
| "merge_slots (as # slots) = bind_r (MergeSlot as) (\<lambda>as. bind_r (merge_slots slots) (\<lambda>slots. Inr (as # slots)))"

definition MergeAttributeContinuations :: "file_record \<Rightarrow> attr_error + file_record" where
  "MergeAttributeContinuations fr = bind_r (merge_slots (fr_attrs fr)) (\<lambda>slots. Inr (fr\<lparr>fr_attrs := slots\<rparr>))"

section \<open>The parse\<close>

definition flag_compressed :: u16 where "flag_compressed = 0x0001"

text \<open>AttachEfsContext() without a decryption backend: the anomalies it rejects when strict.\<close>

definition AttachEfsContext :: "'v record_volume \<Rightarrow> file_record \<Rightarrow> bool" where
  "AttachEfsContext V fr \<longleftrightarrow>
     rv_recover V \<or>
     (\<forall>a \<in> set (GetAttr attr_type_data fr).
        GetAttrFlags a AND flag_encrypted \<noteq> 0 \<longrightarrow> GetAttrFlags a AND flag_compressed = 0 \<and> stream_of a \<noteq> None)"

definition FirstAttrToWalk :: "'v record_volume \<Rightarrow> file_record \<Rightarrow> attr_error + nat option" where
  "FirstAttrToWalk V fr =
    bind_r (header_readable fr) (\<lambda>_.
    if \<not> rs_bypass (fr_setup fr) \<and> IsDeleted fr \<and> \<not> rv_include_deleted V then Inr None
    else case fr_header fr of
           None \<Rightarrow> Inr None
         | Some h \<Rightarrow> (case HeaderCommon h of Inl _ \<Rightarrow> Inl AttrUndefined | Inr first \<Rightarrow> Inr first))"

text \<open>AttrParser::Parse(), over \<open>parse\<close> for the extension records: what follows the walk, then all of it.\<close>

definition parse_end :: "'v record_volume \<Rightarrow> attr_error + walk_end \<times> bool \<Rightarrow> file_record \<Rightarrow> (attr_error + bool) \<times> file_record" where
  "parse_end V walked fr =
    (case walked of
       Inl e \<Rightarrow> (Inl e, fr)
     | Inr (walk_end, skipped) \<Rightarrow>
         if \<not> rv_recover V \<and> walk_end \<noteq> EndMarkerReached then (Inr False, ClearAttrs fr)
         else
           (case MergeAttributeContinuations fr of
              Inl e \<Rightarrow> (Inl e, fr)
            | Inr fr \<Rightarrow>
                if walk_end = Aborted then (Inr False, fr)
                else if \<not> AttachEfsContext V fr then (Inr False, ClearAttrs fr)
                else (Inr (\<not> skipped), fr)))"

definition Parse ::
  "'v record_volume \<Rightarrow>
   (file_record \<Rightarrow> 'v parse_state \<Rightarrow> ((attr_error + bool) \<times> file_record \<times> 'v parse_state) option) \<Rightarrow>
   file_record \<Rightarrow> 'v parse_state \<Rightarrow> ((attr_error + bool) \<times> file_record \<times> 'v parse_state) option" where
  "Parse V parse fr st =
    (let fr = (ClearAttrs fr)\<lparr>fr_reused := [], fr_overwritten := False\<rparr>
     in case FirstAttrToWalk V fr of
          Inl e \<Rightarrow> Some (Inl e, fr, st)
        | Inr None \<Rightarrow> Some (Inr False, fr, st)
        | Inr (Some first) \<Rightarrow>
            let data = (case fr_header fr of None \<Rightarrow> [] | Some h \<Rightarrow> rh_data h)
            in case subspan AttrUndefined data first (size_sub (unat (rv_record_size V)) first) of
                 Inl e \<Rightarrow> Some (Inl e, fr, st)
               | Inr cur \<Rightarrow>
                   do {
                     (walked, fr, st) \<leftarrow> WalkAttrHeaders V (VisitAttr V parse) cur first False fr st;
                     Some (case parse_end V walked fr of (r, fr) \<Rightarrow> (r, fr, st))
                   })"

primrec ParseAttrsWithin ::
  "nat \<Rightarrow> 'v record_volume \<Rightarrow> file_record \<Rightarrow> 'v parse_state \<Rightarrow> ((attr_error + bool) \<times> file_record \<times> 'v parse_state) option" where
  "ParseAttrsWithin 0 V fr st = None"
| "ParseAttrsWithin (Suc nesting) V fr st = Parse V (ParseAttrsWithin nesting V) fr st"

text \<open>ParseAttrs() of a record its caller reads: a fresh chain.\<close>

definition ParseAttrs ::
  "nat \<Rightarrow> 'v record_volume \<Rightarrow> file_record \<Rightarrow> 'v parse_state \<Rightarrow> ((attr_error + bool) \<times> file_record \<times> 'v parse_state) option" where
  "ParseAttrs nesting V fr st = ParseAttrsWithin nesting V fr (st\<lparr>ps_chain := {}\<rparr>)"

end
