(* ===== verification/RecordAttrsSpec.thy ===== *)
theory RecordAttrsSpec
  imports RecordAttrs
begin

text \<open>
  What the parse of a record's attributes guarantees: no access outside the bytes of a record,
  whatever they hold; and the nesting of extension records is bounded by the chain of entries
  already resolved, so a parse that reads nothing from the volume returns.
\<close>

section \<open>Nothing is read outside the record\<close>

text \<open>What the volume's reads answer: as many bytes as asked for.\<close>

definition volume_ok :: "'v record_volume \<Rightarrow> bool" where
  "volume_ok V \<longleftrightarrow> rv_index_block_size V \<noteq> 0 \<and>
     (\<forall>v a n bytes v'. rv_read_into V v a n = (Some bytes, v') \<longrightarrow> length bytes = n) \<and>
     (\<forall>v a n bytes v'. rv_mft_data V v a n = Some (Some bytes, v') \<longrightarrow> length bytes = n)"

text \<open>A resident body is a part of the attribute's bytes, and as long as what its class reads of it.\<close>

definition class_room :: "attr_class \<Rightarrow> nat option" where
  "class_room c =
    (case c of StdInfoAttr \<Rightarrow> Some 48 | FileNameAttr name \<Rightarrow> Some 66 | VolInfoAttr \<Rightarrow> Some 12 | VolNameAttr name \<Rightarrow> Some 0
     | IndexRootAttr root \<Rightarrow> Some 32 | _ \<Rightarrow> None)"

definition class_fits :: "attr_class \<Rightarrow> attr_body \<Rightarrow> bool" where
  "class_fits c body \<longleftrightarrow>
    (case class_room c of None \<Rightarrow> True
     | Some n \<Rightarrow> (case body of ResidentBody b \<Rightarrow> n \<le> length b | NonResidentBody _ \<Rightarrow> False))"

definition body_inside :: "byte list \<Rightarrow> attr_body \<Rightarrow> bool" where
  "body_inside bytes body \<longleftrightarrow>
    (case body of ResidentBody b \<Rightarrow> (\<exists>off. off + length b \<le> length bytes \<and> b = take (length b) (drop off bytes))
     | NonResidentBody _ \<Rightarrow> True)"

definition attribute_ok :: "attribute \<Rightarrow> bool" where
  "attribute_ok a \<longleftrightarrow> (IsNonResident a \<longleftrightarrow> stream_of a \<noteq> None) \<and>
     unat (hc_total_size (at_header a)) = length (at_bytes a) \<and>
     body_inside (at_bytes a) (at_body a) \<and> class_fits (at_class a) (at_body a)"

definition record_ok :: "'v record_volume \<Rightarrow> file_record \<Rightarrow> bool" where
  "record_ok V fr \<longleftrightarrow> length (fr_attrs fr) = attr_nums \<and> (\<forall>slot \<in> set (fr_attrs fr). \<forall>a \<in> set slot. attribute_ok a) \<and>
     (case fr_header fr of None \<Rightarrow> True
      | Some h \<Rightarrow> rh_buffer_size h = unat (rv_record_size V) \<and> unat (rv_record_size V) \<le> length (rh_data h) \<and>
          min_file_record_header_size \<le> length (rh_data h))"

lemma record_ok_readable: "record_ok V fr \<Longrightarrow> header_readable fr = Inr ()"
  by (auto simp: record_ok_def header_readable_def split: option.splits)

lemma AttrIndex_bound: "IsValidAttrType type \<Longrightarrow> unat (AttrIndex type) < attr_nums"
proof -
  assume valid: "IsValidAttrType type"
  then have "unat type \<le> 256" by (simp add: IsValidAttrType_def word_le_nat_alt)
  then have "unat type div 16 \<le> 16" by simp
  then have le: "unat (drop_bit 4 type) \<le> 16" by (simp add: unat_drop_bit_eq drop_bit_eq_div unat_div)
  have "drop_bit 4 type \<noteq> 0"
  proof
    assume "drop_bit 4 type = 0"
    then have "type = take_bit 4 type" using bits_ident [of 4 type] by simp
    also have "\<dots> = type AND 0xF" by (simp add: take_bit_eq_mask mask_eq_exp_minus_1)
    finally show False using valid by (auto simp: IsValidAttrType_def)
  qed
  then have "0 < unat (drop_bit 4 type)" by (simp add: unat_gt_0)
  then have "1 \<le> drop_bit 4 type" by (simp add: word_le_nat_alt)
  then have "unat (drop_bit 4 type - 1) = unat (drop_bit 4 type) - 1" using unat_sub [of 1 "drop_bit 4 type"] by simp
  then show ?thesis using le \<open>0 < unat (drop_bit 4 type)\<close> by (simp add: AttrIndex_def attr_nums_def)
qed

lemma slot_of_valid: "IsValidAttrType type \<Longrightarrow> slot_of type = Inr (unat (AttrIndex type))"
  by (simp add: slot_of_def AttrIndex_bound)

lemma push_attrs_ok:
  assumes "record_ok V fr" "IsValidAttrType type" "\<forall>a \<in> set as. attribute_ok a"
  shows "record_ok V (push_attrs type as fr)"
proof -
  have i: "unat (AttrIndex type) < length (fr_attrs fr)" using AttrIndex_bound [OF assms(2)] assms(1) by (simp add: record_ok_def)
  have slots: "\<forall>slot \<in> set (fr_attrs fr). \<forall>a \<in> set slot. attribute_ok a" using assms(1) by (simp add: record_ok_def)
  have "\<forall>a \<in> set (fr_attrs fr ! unat (AttrIndex type) @ as). attribute_ok a" using slots nth_mem [OF i] assms(3) by auto
  then have "\<forall>slot \<in> set ((fr_attrs fr)[unat (AttrIndex type) := fr_attrs fr ! unat (AttrIndex type) @ as]). \<forall>a \<in> set slot. attribute_ok a"
    using slots set_update_subset_insert [of "fr_attrs fr" "unat (AttrIndex type)"] by blast
  then show ?thesis using assms(1) by (simp add: record_ok_def push_attrs_def)
qed

lemma GetAttr_ok: "record_ok V fr \<Longrightarrow> \<forall>a \<in> set (GetAttr type fr). attribute_ok a"
  by (auto simp: GetAttr_def record_ok_def)

lemma record_ok_updates [simp]:
  "record_ok V (NoteOverwrittenAttrList fr) = record_ok V fr"
  "record_ok V (fr\<lparr>fr_claimed := cl\<rparr>) = record_ok V fr"
  "record_ok V (fr\<lparr>fr_end_marker := em\<rparr>) = record_ok V fr"
  "record_ok V (fr\<lparr>fr_reused := ru\<rparr>) = record_ok V fr"
  "record_ok V (fr\<lparr>fr_overwritten := ow\<rparr>) = record_ok V fr"
  "record_ok V (fr\<lparr>fr_failed_fixup := ff\<rparr>) = record_ok V fr"
  "record_ok V (fr\<lparr>fr_header_salvaged := hs\<rparr>) = record_ok V fr"
  "record_ok V (fr\<lparr>fr_reference := rf\<rparr>) = record_ok V fr"
  by (simp_all add: record_ok_def NoteOverwrittenAttrList_def)

lemma ClearAttrs_ok: "record_ok V fr \<Longrightarrow> record_ok V (ClearAttrs fr)"
  by (auto simp: record_ok_def ClearAttrs_def attr_nums_def)

lemma new_file_record_ok: "record_ok V (new_file_record setup)"
  by (auto simp: record_ok_def new_file_record_def attr_nums_def)

section \<open>Building an attribute\<close>

text \<open>A result that is not undefined behaviour, and holds \<open>P\<close> where there is one.\<close>

definition yields :: "attr_error + 'a \<Rightarrow> ('a \<Rightarrow> bool) \<Rightarrow> bool" where
  "yields r P \<longleftrightarrow> (case r of Inl e \<Rightarrow> e \<noteq> AttrUndefined | Inr x \<Rightarrow> P x)"

lemma yields_simps [simp]:
  "yields (Inr x) P \<longleftrightarrow> P x"
  "yields (Inl e) P \<longleftrightarrow> e \<noteq> AttrUndefined"
  "yields (bind_r m f) P \<longleftrightarrow> yields m (\<lambda>x. yields (f x) P)"
  by (cases m; simp add: yields_def)+

lemma yields_mono: "yields r P \<Longrightarrow> (\<And>x. r = Inr x \<Longrightarrow> P x \<Longrightarrow> Q x) \<Longrightarrow> yields r Q"
  by (simp add: yields_def split: sum.splits)

lemma yieldsD: "yields r P \<Longrightarrow> r \<noteq> Inl AttrUndefined" "yields r P \<Longrightarrow> r = Inr x \<Longrightarrow> P x"
  by (auto simp: yields_def)

lemma ParseRootEntries_inside: "24 \<le> length data \<Longrightarrow> ParseRootEntries recover data \<noteq> Inl e"
proof -
  assume "24 \<le> length data"
  have "root_loop recover data limit cur ie_total [] \<noteq> Inl e"
    if "cur \<le> length data" for limit cur ie_total
    using entries_loop_sound [OF that, of "[]" recover limit ie_total True] by (auto simp: root_loop_entries [where clean = True])
  moreover have "load_at 4 data 16 = Inr (read_le 4 data 16)" "load_at 4 data 20 = Inr (read_le 4 data 20)"
    using \<open>24 \<le> length data\<close> by (simp_all add: load_at_Inr)
  ultimately show ?thesis using \<open>24 \<le> length data\<close> by (auto simp: ParseRootEntries_def root_entry_offset_pos_def)
qed

lemma class_defined:
  "yields (CheckedStdInfo body) (\<lambda>_. 48 \<le> length body)" "yields (FileNameOf body) (\<lambda>_. 66 \<le> length body)"
  "yields (VolNameOf body) (\<lambda>_. 0 \<le> length body)" "yields (CheckedVolInfo body) (\<lambda>_. 12 \<le> length body)"
  "yields (IndexRootOf recover body) (\<lambda>_. 32 \<le> length body)"
proof -
  show "yields (FileNameOf body) (\<lambda>_. 66 \<le> length body)"
  proof (cases "length body < name_at")
    case False
    then have "load_at 1 body name_length_at = Inr (read_le 1 body name_length_at)"
      by (intro load_at_Inr) (simp add: name_at_def name_length_at_def)
    then show ?thesis using False by (simp add: FileNameOf_def load_words_Inr) (simp add: name_at_def)
  qed (simp add: FileNameOf_def)
  show "yields (VolNameOf body) (\<lambda>_. 0 \<le> length body)" by (simp add: VolNameOf_def load_words_Inr)
  show "yields (IndexRootOf recover body) (\<lambda>_. 32 \<le> length body)"
  proof (cases "length body < sizeof_index_root")
    case False
    then have room: "32 \<le> length body" by (simp add: sizeof_index_root_def)
    then have "ParseRootEntries recover body \<noteq> Inl e" for e by (intro ParseRootEntries_inside) simp
    moreover have "load_at 4 body 0 = Inr (read_le 4 body 0)" using room by (intro load_at_Inr) simp
    ultimately show ?thesis
      using False room by (auto simp: IndexRootOf_def new_index_root_def Let_def split: sum.splits if_splits)
  qed (simp add: IndexRootOf_def new_index_root_def Let_def)
qed (simp_all add: CheckedStdInfo_def CheckedVolInfo_def std_info_owner_id_at_def sizeof_volume_information_def)

text \<open>A header that the walk lets through, over its bytes.\<close>

definition header_fits :: "header_common \<Rightarrow> byte list \<Rightarrow> bool" where
  "header_fits h cur \<longleftrightarrow> unat (hc_total_size h) \<le> length cur \<and> (if hc_non_resident h \<noteq> 0 then 64 else 24) \<le> unat (hc_total_size h)"

definition body_fits :: "header_common \<Rightarrow> byte list \<Rightarrow> attr_body \<Rightarrow> bool" where
  "body_fits h cur body \<longleftrightarrow> body_inside (take (unat (hc_total_size h)) cur) body \<and>
     (case body of NonResidentBody _ \<Rightarrow> hc_non_resident h \<noteq> 0 | ResidentBody _ \<Rightarrow> hc_non_resident h = 0)"

lemma header_fits_span: "header_fits h cur \<Longrightarrow> attr_span h cur = Inr (take (unat (hc_total_size h)) cur)"
  by (simp add: header_fits_def attr_span_def)

lemma AttrNonResident_no_overflow:
  "e = SignedOverflow \<or> e = RunOutOfBounds \<Longrightarrow> AttrNonResident W h span del ref \<noteq> Inl (BadRuns e)"
  using ParseRuns_no_overflow
  by (auto simp: AttrNonResident_def ParseDataRun_inside Let_def bind_r_eq_Inl split: if_splits sum.splits)

lemma MakeNonResident_defined:
  assumes "header_fits h cur" "hc_non_resident h \<noteq> 0"
  shows "yields (MakeNonResident V fr h cur) (\<lambda>_. True)"
proof -
  have "64 \<le> length cur" using assms by (simp add: header_fits_def)
  then obtain n where n: "ReadHeaderNonResident cur = Inr n" by (simp add: ReadHeaderNonResident_def header_sizes)
  show ?thesis
    using AttrNonResident_no_overflow [of _ "rv_volume V" n "take (unat (hc_total_size h)) cur" "IsDeleted fr" "fr_reference fr"]
    by (simp add: MakeNonResident_def n header_fits_span [OF assms(1)] split: sum.splits nr_error.splits run_error.splits)
qed

lemma ResidentBodyOf_defined:
  assumes "header_fits h cur"
  shows "yields (ResidentBodyOf h cur) (\<lambda>b. body_inside (take (unat (hc_total_size h)) cur) (ResidentBody b))"
proof -
  define n off where "n = unat (u32_at cur 16)" and "off = unat (u16_at cur 20)"
  let ?span = "take (unat (hc_total_size h)) cur"
  have len: "length ?span = unat (hc_total_size h)" "24 \<le> length cur"
    using assms by (auto simp: header_fits_def split: if_splits)
  have eq: "ResidentBodyOf h cur =
      (if off + n > unat (hc_total_size h) then Inl (AttrThrows BodyExceedsAttribute) else subspan AttrUndefined ?span off n)"
    using len(2) by (simp add: ResidentBodyOf_def header_sizes header_fits_span [OF assms] n_def off_def)
  have "subspan AttrUndefined ?span off n = Inr (take n (drop off ?span)) \<and>
      body_inside ?span (ResidentBody (take n (drop off ?span)))" if "off + n \<le> length ?span"
  proof
    show "subspan AttrUndefined ?span off n = Inr (take n (drop off ?span))" by (rule subspan_inside [OF that])
    have "length (take n (drop off ?span)) = n" using that by (auto simp: min_def)
    then show "body_inside ?span (ResidentBody (take n (drop off ?span)))"
      unfolding body_inside_def attr_body.case using that by (metis order_refl)
  qed
  then show ?thesis unfolding eq using len by auto
qed

lemma MakeBody_defined:
  assumes "header_fits h cur"
  shows "yields (MakeBody V fr h cur) (body_fits h cur)"
proof (cases "hc_non_resident h = 0")
  case True
  then show ?thesis using ResidentBodyOf_defined [OF assms] by (simp add: MakeBody_def body_fits_def)
next
  case False
  then show ?thesis using MakeNonResident_defined [OF assms False] by (simp add: MakeBody_def body_fits_def body_inside_def)
qed

lemma MakeAttr_defined:
  assumes "header_fits h cur" "\<And>body. body_fits h cur body \<Longrightarrow> yields (wrap body) (\<lambda>c. class_fits c body)"
  shows "yields (MakeAttr V fr h cur wrap) attribute_ok"
proof -
  have "yields (wrap body) (\<lambda>c. attribute_ok \<lparr>at_header = h, at_bytes = take (unat (hc_total_size h)) cur, at_body = body, at_class = c\<rparr>)"
    if "body_fits h cur body" for body
    using assms(2) [OF that]
  proof (rule yields_mono)
    show "attribute_ok \<lparr>at_header = h, at_bytes = take (unat (hc_total_size h)) cur, at_body = body, at_class = c\<rparr>"
      if "class_fits c body" for c
      using \<open>body_fits h cur body\<close> assms(1) that
      by (simp add: attribute_ok_def IsNonResident_def stream_of_def body_fits_def header_fits_def split: attr_body.splits)
  qed
  then show ?thesis
    unfolding MakeAttr_def yields_simps header_fits_span [OF assms(1)] by (rule yields_mono [OF MakeBody_defined [OF assms(1)]])
qed

text \<open>The classes without a bound of their own.\<close>

lemma class_fits_free [simp]:
  "class_fits PlainAttr body" "class_fits DataAttr body" "class_fits BitmapAttr body" "class_fits ListAttr body"
  "class_fits (IndexAllocAttr n) body"
  by (simp_all add: class_fits_def class_room_def)

lemma MakeResidentOnly_defined:
  assumes "header_fits h cur" "\<And>b. yields (wrap b) (\<lambda>c. class_fits c (ResidentBody b))"
  shows "yields (MakeResidentOnly V fr h cur wrap) attribute_ok"
proof (cases "hc_non_resident h = 0")
  case True
  then have "yields (of_resident wrap body) (\<lambda>c. class_fits c body)" if "body_fits h cur body" for body
    using that assms(2) by (simp add: of_resident_def body_fits_def split: attr_body.splits)
  then have "yields (MakeAttr V fr h cur (of_resident wrap)) attribute_ok" by (rule MakeAttr_defined [OF assms(1)])
  then show ?thesis using True by (simp add: MakeResidentOnly_def)
qed (simp add: MakeResidentOnly_def)

lemma AllocResidentOnly_defined:
  assumes "header_fits h cur" "AllocResidentOnly V fr h cur = Some r"
  shows "yields r attribute_ok"
proof -
  note only = MakeResidentOnly_defined [OF assms(1)]
  have of_check: "yields (MakeResidentOnly V fr h cur (\<lambda>b. bind_r (m b) (\<lambda>x. Inr (c x)))) attribute_ok"
    if "\<And>b. yields (m b) (\<lambda>_. n \<le> length b)" "\<And>x. class_room (c x) = Some n" for m :: "byte list \<Rightarrow> attr_error + 'c" and c n
    by (rule only) (use that in \<open>simp add: class_fits_def\<close>)
  from of_check [OF class_defined(1), of "\<lambda>_. StdInfoAttr"] of_check [OF class_defined(2), of FileNameAttr]
    of_check [OF class_defined(3), of VolNameAttr] of_check [OF class_defined(4), of "\<lambda>_. VolInfoAttr"]
    of_check [OF class_defined(5), of IndexRootAttr]
  show ?thesis using assms(2) by (auto simp: AllocResidentOnly_def class_room_def split: if_splits)
qed

lemma AllocOther_defined:
  assumes "header_fits h cur" "volume_ok V"
  shows "yields (AllocOther V fr h cur) attribute_ok"
proof -
  note any = MakeAttr_defined [OF assms(1)]
  have plain: "yields (MakeAttr V fr h cur (\<lambda>_. Inr c)) attribute_ok" if "class_room c = None" for c
    by (rule any) (simp add: class_fits_def that)
  have alloc: "yields (MakeIndexAlloc V fr h cur) attribute_ok"
  proof (cases "hc_non_resident h = 0")
    case False
    then have "yields (index_alloc_class V body) (\<lambda>c. class_fits c body)" if "body_fits h cur body" for body
      using that assms(2) by (simp add: index_alloc_class_def volume_ok_def body_fits_def split: attr_body.splits)
    then have "yields (MakeAttr V fr h cur (index_alloc_class V)) attribute_ok" by (rule any)
    then show ?thesis using False by (simp add: MakeIndexAlloc_def)
  qed (simp add: MakeIndexAlloc_def)
  show ?thesis
    using AllocResidentOnly_defined [OF assms(1), of V fr] plain alloc
    by (auto simp: AllocOther_def class_room_def split: option.splits)
qed

section \<open>The record's own bytes\<close>

text \<open>A step that is not undefined behaviour and leaves the record well formed.\<close>

definition sound :: "'v record_volume \<Rightarrow> ((attr_error + 'a) \<times> file_record \<times> 'v parse_state) option \<Rightarrow> bool" where
  "sound V r \<longleftrightarrow> (case r of None \<Rightarrow> True | Some (x, fr, st) \<Rightarrow> x \<noteq> Inl AttrUndefined \<and> record_ok V fr)"

lemma sound_simps [simp]:
  "sound V None"
  "sound V (Some (x, fr, st)) \<longleftrightarrow> x \<noteq> Inl AttrUndefined \<and> record_ok V fr"
  by (simp_all add: sound_def)

lemma sound_bind:
  "sound V m \<Longrightarrow> (\<And>x fr st. m = Some (x, fr, st) \<Longrightarrow> x \<noteq> Inl AttrUndefined \<Longrightarrow> record_ok V fr \<Longrightarrow> sound V' (f (x, fr, st))) \<Longrightarrow>
     sound V' (m \<bind> f)"
  by (cases m) (auto simp: sound_def)

lemma soundD: "sound V r \<Longrightarrow> r = Some (x, fr, st) \<Longrightarrow> x \<noteq> Inl AttrUndefined \<and> record_ok V fr"
  by (simp add: sound_def)

definition sized :: "'v record_volume \<Rightarrow> record_header option \<Rightarrow> bool" where
  "sized V header \<longleftrightarrow>
     (case header of None \<Rightarrow> True
      | Some h \<Rightarrow> header_ok h \<and> min_file_record_header_size \<le> length (rh_data h) \<and> rh_buffer_size h = unat (rv_record_size V) \<and> unat (rv_record_size V) \<le> length (rh_data h))"

lemma ParseHeader_sized:
  assumes "length buffer = unat (rv_record_size V)"
  shows "yields (ParseHeader V buffer) (sized V)"
proof -
  define strategy where "strategy = (if vol_full_cache (rv_volume V) then FullCache else NoCache)"
  have "new_record_header strategy buffer \<noteq> Inl UsOutOfBounds" by (auto simp: new_record_header_cases split: if_splits)
  moreover have "sized V (Some h)" if "new_record_header strategy buffer = Inr h" for h
    using that new_record_header_ok [OF that] assms
    by (auto simp: sized_def header_ok_def new_record_header_cases own_data_def split: if_splits cache_strategy.splits)
  ultimately show ?thesis by (simp add: ParseHeader_def strategy_def [symmetric] sized_def split: sum.splits us_error.splits)
qed

lemma judge_read_sized:
  assumes "sized V header"
  shows "yields (judge_read V header) (\<lambda>(verdict, failed, h). sized V h)"
proof (cases header)
  case (Some h)
  then have h: "header_ok h" using assms by (simp add: sized_def)
  have len: "length (salvage (rh_us_number h) (rh_us_array h) 0 (rh_data h)) = length (rh_data h)"
    using salvage_patched_as [OF h] by (simp add: patched_as_def)
  obtain data' where "length data' = length (rh_data h)" "JudgeRecordHeader h (rv_recover V) False =
    (let bad = failures (rh_us_number h) (rh_us_array h) 0 (rh_data h);
         h' = h\<lparr>rh_data := salvage (rh_us_number h) (rh_us_array h) 0 (rh_data h)\<rparr>
     in if u32_at (rh_data h) 0 \<noteq> file_record_magic then Inr (Rejected, False, h)
        else if bad = 0 then Inr (Accepted, False, h')
        else if \<not> rv_recover V then Inr (Rejected, True, h\<lparr>rh_data := data'\<rparr>)
        else if bad \<ge> length (rh_us_array h) then Inr (Rejected, True, h')
        else Inr (Salvaged, True, h'))"
    using judge_cases [OF h, of "rv_recover V" False] by blast
  then show ?thesis using assms Some len by (simp add: judge_read_def sized_def header_ok_def Let_def)
qed (simp add: judge_read_def sized_def)

lemma volume_okD:
  "volume_ok V \<Longrightarrow> rv_read_into V v a n = (Some bytes, v') \<Longrightarrow> length bytes = n"
  "volume_ok V \<Longrightarrow> rv_mft_data V v off n = Some (Some bytes, v') \<Longrightarrow> length bytes = n"
  by (simp_all add: volume_ok_def) blast+

lemma ReadDirectRecord_sized:
  "volume_ok V \<Longrightarrow> ReadDirectRecord V file_ref v = (Some bytes, v') \<Longrightarrow> length bytes = unat (rv_record_size V)"
  by (auto simp: ReadDirectRecord_def dest: volume_okD split: option.splits)

lemma ReadRecordFromMft_sized:
  "volume_ok V \<Longrightarrow> ReadRecordFromMft V fr file_ref v = Some (Some bytes, v') \<Longrightarrow> length bytes = unat (rv_record_size V)"
  by (auto simp: ReadRecordFromMft_def Let_def dest: volume_okD split: option.splits if_splits)

lemma ReadFileRecord_sized:
  assumes V: "volume_ok V" and read: "ReadFileRecord V fr file_ref preread v = Some (read, v')"
  shows "yields read (sized V)"
proof -
  obtain filled where filled: "(if preread \<noteq> [] then Some (if length preread \<noteq> unat (rv_record_size V) then None else Some preread, v)
         else if file_ref < first_user_idx \<or> \<not> rv_has_mft_base V then Some (ReadDirectRecord V file_ref v)
         else ReadRecordFromMft V fr file_ref v) = Some (filled, v')"
    and r: "read = (case filled of None \<Rightarrow> Inr None | Some record_buffer \<Rightarrow> ParseHeader V record_buffer)"
    using read by (auto simp: ReadFileRecord_def bind_eq_Some_conv)
  have "length buffer = unat (rv_record_size V)" if "filled = Some buffer" for buffer
    using filled that ReadDirectRecord_sized [OF V] ReadRecordFromMft_sized [OF V] by (auto split: if_splits)
  then show ?thesis using ParseHeader_sized r by (cases filled) (auto simp: sized_def)
qed

lemma ReadMirrorRecord_sized:
  assumes V: "volume_ok V" and mirror: "ReadMirrorRecord V file_ref v = (mirror, v')"
  shows "yields mirror (sized V)"
proof (cases "ReadMftMirrorRecord V file_ref v")
  case (Pair filled v1)
  have "length buffer = unat (rv_record_size V)" if "filled = Some buffer" for buffer
    using that Pair volume_okD(1) [OF V] by (auto simp: ReadMftMirrorRecord_def split: option.splits if_splits)
  then show ?thesis using mirror Pair ParseHeader_sized by (cases filled) (auto simp: ReadMirrorRecord_def sized_def)
qed

lemma ParseRecord_sound:
  assumes V: "volume_ok V" and fr: "length (fr_attrs fr) = attr_nums"
  shows "sound V (ParseRecord V file_ref preread fr st)"
proof -
  define fr0 where "fr0 = (ClearAttrs fr)\<lparr>fr_header := None, fr_failed_fixup := False, fr_header_salvaged := False, fr_reused := [], fr_overwritten := False\<rparr>"
  have fr0: "record_ok V fr0" by (simp add: fr0_def record_ok_def ClearAttrs_def attr_nums_def)
  have kept: "sound V (case keep_header file_ref read_ok verdict failed salvaged header fr0 of
      (accepted, fr) \<Rightarrow> Some (Inr accepted, fr, st\<lparr>ps_volume := v\<rparr>))" if "sized V header" for read_ok verdict failed salvaged header v
    using that fr0 by (auto simp: keep_header_def Let_def record_ok_def sized_def split: option.splits)
  have judged: "yields (bind_r read (judge_read V)) (\<lambda>(verdict, failed, h). sized V h)" if "yields read (sized V)" for read
    using that by (simp add: yields_mono [OF _ judge_read_sized])
  show ?thesis
  proof (cases "ReadFileRecord V fr0 file_ref preread (ps_volume st)")
    case (Some rv)
    obtain read v where rv: "rv = (read, v)" by (cases rv)
    have read: "yields read (sized V)" using ReadFileRecord_sized [OF V] Some rv by blast
    define j where "j = bind_r read (\<lambda>h. bind_r (judge_read V h) (\<lambda>j. Inr (h \<noteq> None, j)))"
    have j: "yields j (\<lambda>(read_ok, verdict, failed, h). sized V h)"
      unfolding j_def yields_simps by (rule yields_mono [OF read]) (auto intro: yields_mono [OF judge_read_sized])
    note run = ParseRecord_def [of V file_ref preread fr st, unfolded Let_def, folded fr0_def, unfolded Some rv Option.bind.simps prod.case, folded j_def]
    show ?thesis
    proof (cases j)
      case (Inl e)
      then show ?thesis using run j fr0 by simp
    next
      case (Inr x)
      obtain read_ok verdict failed header where x: "x = (read_ok, verdict, failed, header)" by (cases x) auto
      then have header: "sized V header" using j Inr by simp
      obtain mirror v1 where mirror: "ReadMirrorRecord V file_ref v = (mirror, v1)" by (cases "ReadMirrorRecord V file_ref v")
      have mj: "yields (bind_r mirror (judge_read V)) (\<lambda>(verdict, failed, h). sized V h)"
        by (rule judged [OF ReadMirrorRecord_sized [OF V mirror]])
      show ?thesis
      proof (cases "verdict = Accepted \<or> preread \<noteq> []")
        case True
        then show ?thesis using run Inr x kept [OF header] by simp
      next
        case False
        show ?thesis
        proof (cases "bind_r mirror (judge_read V)")
          case (Inl e)
          then show ?thesis using run \<open>j = Inr x\<close> x False mirror mj fr0 by simp
        next
          case (Inr y)
          obtain mv mf mh where y: "y = (mv, mf, mh)" by (cases y) auto
          then have mh: "sized V mh" using mj Inr by (simp add: yields_def)
          note judged_mirror = Inr [unfolded y]
          note run = run [unfolded \<open>j = Inr x\<close> x sum.case prod.case mirror judged_mirror]
          show ?thesis
          proof (cases "mv \<noteq> Accepted \<and> verdict = Salvaged")
            case True
            show ?thesis
            proof (cases "ReadFileRecord V fr0 file_ref preread v1")
              case (Some aw)
              obtain again v2 where aw: "aw = (again, v2)" by (cases aw)
              have aj: "yields (bind_r again (judge_read V)) (\<lambda>(verdict, failed, h). sized V h)"
                using judged [OF ReadFileRecord_sized [OF V]] Some aw by blast
              show ?thesis
                using run True False Some [unfolded aw] aj fr0 kept by (cases "bind_r again (judge_read V)") (auto simp: yields_def)
            qed (use run True False in simp)
          qed (use run False kept [OF mh] in auto)
        qed
      qed
    qed
  next
    case None
    then show ?thesis by (simp add: ParseRecord_def fr0_def [symmetric] Let_def)
  qed
qed

section \<open>Extension records\<close>

lemma SkipForeignExtension_ok:
  assumes "record_ok V fr" "SkipForeignExtension recover record_number fr = (r, fr')"
  shows "r \<noteq> Inl AttrUndefined \<and> record_ok V fr'"
  using assms by (auto simp: SkipForeignExtension_def split: if_splits)

lemma WantsExtension_ok:
  assumes "record_ok V fr" "WantsExtension V record_number type claim_only fr st = (r, fr', st')"
  shows "r \<noteq> Inl AttrUndefined \<and> record_ok V fr'"
proof -
  have "bind_r q (\<lambda>_. Inr None) \<noteq> Inl AttrUndefined \<and> record_ok V fr1"
    if "SkipForeignExtension (rv_recover V) record_number fr = (q, fr1)" for q fr1 and c :: "unit"
    using SkipForeignExtension_ok [OF assms(1) that] by (cases q) simp_all
  then show ?thesis using assms by (auto simp: WantsExtension_def Let_def RefuseRead_def split: if_splits prod.splits)
qed

lemma import_parsed_ok:
  assumes "record_ok V fr" "record_ok V ext" "IsValidAttrType type" "parsed \<noteq> Inl AttrUndefined" "import_parsed type claim_only fr parsed ext = (r, fr')"
  shows "r \<noteq> Inl AttrUndefined \<and> record_ok V fr'"
  using assms slot_of_valid [OF assms(3)] push_attrs_ok [OF _ assms(3) GetAttr_ok [OF assms(2)], of V fr type]
    push_attrs_ok [OF _ assms(3) GetAttr_ok [OF assms(2)], of V "NoteOverwrittenAttrList fr" type]
  by (auto simp: import_parsed_def split: sum.splits if_splits)

lemma import_opened_sound:
  assumes "record_ok V fr" "record_ok V ext" "IsValidAttrType type" "opened \<noteq> Inl AttrUndefined"
    and parse: "\<And>ext st. record_ok V ext \<Longrightarrow> sound V (parse ext st)"
  shows "sound V (import_opened V parse record_number sequence_number type claim_only fr opened ext st)"
proof -
  have skip: "sound V (case SkipForeignExtension (rv_recover V) record_number fr of (r, fr) \<Rightarrow> Some (r, fr, st))"
    using SkipForeignExtension_ok [OF assms(1)] by (auto split: prod.splits)
  have go: "sound V (parse ext st \<bind> (\<lambda>(parsed, ext, st). Some (case import_parsed type claim_only fr parsed ext of (r, fr) \<Rightarrow> (r, fr, st))))"
    by (rule sound_bind [OF parse [OF assms(2)]]) (use import_parsed_ok [OF assms(1) _ assms(3)] in \<open>auto split: prod.splits\<close>)
  show ?thesis
    using assms(1,4) skip go record_ok_readable [OF assms(1)] record_ok_readable [OF assms(2)]
    by (cases opened) (auto simp: import_opened_def)
qed

lemma ImportAttrListEntry_sound:
  assumes V: "volume_ok V" and fr: "record_ok V fr" and type: "IsValidAttrType type"
    and parse: "\<And>ext st. record_ok V ext \<Longrightarrow> sound V (parse ext st)"
  shows "sound V (ImportAttrListEntry V parse record_number sequence_number type fr st)"
proof -
  define entry_mask where "entry_mask = AttrMask type"
  define claim_only where "claim_only = (entry_mask AND rs_mask (fr_setup fr) = 0 \<and> entry_mask AND rs_claim_mask (fr_setup fr) \<noteq> 0)"
  obtain r fr1 st1 where wants: "WantsExtension V record_number type claim_only fr st = (r, fr1, st1)"
    by (cases "WantsExtension V record_number type claim_only fr st") auto
  then have fr1: "r \<noteq> Inl AttrUndefined" "record_ok V fr1" using WantsExtension_ok [OF fr] by blast+
  have "sound V (ParseRecord V record_number held (new_file_record config) st1 \<bind> (\<lambda>(opened, ext, st).
      import_opened V parse record_number sequence_number type claim_only fr1 opened ext st))" for held config
    by (rule sound_bind [OF ParseRecord_sound [OF V]])
      (use import_opened_sound [OF fr1(2) _ type _ parse] in \<open>auto simp: new_file_record_def\<close>)
  then show ?thesis
    using fr1 unfolding ImportAttrListEntry_def Let_def entry_mask_def [symmetric] claim_only_def [symmetric] wants
    by (auto split: sum.splits option.splits)
qed

section \<open>The walk over an attribute list\<close>

lemma list_walk_end_ok:
  "record_ok V fr \<Longrightarrow> list_walk_end recover overwritable body offset w fr = (r, fr') \<Longrightarrow> r \<noteq> Inl AttrUndefined \<and> record_ok V fr'"
  by (auto simp: list_walk_end_def Let_def split: if_splits)

text \<open>
  The cache of a list: one flag for each cluster of its bytes. A read through it, or from the
  attribute itself, stays inside the body, the flags and the cached bytes.
\<close>

definition walk_fits :: "'v record_volume \<Rightarrow> list_walk \<Rightarrow> bool" where
  "walk_fits V w \<longleftrightarrow> lw_bytes w = [] \<or>
     (let c = unat (cluster_bytes_of (rv_volume V))
      in 0 < c \<and> length (lw_loaded w) = (length (lw_bytes w) + c - 1) div c \<and> length (lw_bytes w) \<le> 262144)"

definition short_body :: "attr_body \<Rightarrow> bool" where
  "short_body body \<longleftrightarrow> (case body of ResidentBody b \<Rightarrow> length b < 4294967296 | NonResidentBody _ \<Rightarrow> True)"

lemma attribute_short_body: "attribute_ok a \<Longrightarrow> short_body (at_body a)"
  using unat_u32_bound [of "hc_total_size (at_header a)"]
  by (auto simp: attribute_ok_def short_body_def body_inside_def split: attr_body.splits)

lemma ResidentReadData_inside:
  assumes "length body < 4294967296" "length buffer < 4294967296"
  shows "fst (ResidentReadData body offset buffer) \<noteq> Inl e"
proof -
  have b: "unat (of_nat (length buffer) :: u64) = length buffer" "unat (of_nat (length body) :: u64) = length body"
    using assms by (simp_all add: unat_of_nat_u64)
  show ?thesis
  proof (cases "offset < of_nat (length body)")
    case True
    then have off: "unat offset < length body" by (simp add: u64_less_nat b)
    have sum: "unat (offset + of_nat (length buffer)) = unat offset + length buffer"
      using off assms unat_u64_add [of offset "of_nat (length buffer)"] by (simp add: b)
    have rest: "unat (of_nat (length body) - offset) = length body - unat offset"
      using True unat_u64_sub [of offset "of_nat (length body)"] by (simp add: b)
    show ?thesis
      using True off by (auto simp: ResidentReadData_def Let_def subspan_def u64_less_nat b sum rest)
  qed (simp add: ResidentReadData_def Let_def not_less)
qed

lemma read_body_inside:
  assumes "short_body body" "length out < 4294967296" "read_body V body off out w st = Some (r, out', w', st')"
  shows "r \<noteq> Inl e \<and> lw_bytes w' = lw_bytes w \<and> lw_loaded w' = lw_loaded w"
proof (cases body)
  case (ResidentBody b)
  then show ?thesis
    using assms ResidentReadData_inside [of b out off e] by (auto simp: read_body_def short_body_def split: prod.splits)
next
  case (NonResidentBody n)
  then show ?thesis using assms(3) by (auto simp: read_body_def bind_eq_Some_conv)
qed

lemma cluster_before_end:
  assumes "0 < (c :: nat)" "index < (bytes + c - 1) div c"
  shows "index * c < bytes"
proof -
  have "index + 1 \<le> (bytes + c - 1) div c" using assms(2) by simp
  then have "(index + 1) * c \<le> bytes + c - 1" using assms(1) by (simp add: less_eq_div_iff_mult_less_eq)
  then show ?thesis using assms(1) by simp
qed

lemma load_clusters_inside:
  assumes "short_body body" "walk_fits V w" "lw_bytes w \<noteq> []" "\<forall>i \<in> set indexes. i < length (lw_loaded w)"
    and "load_clusters V body (unat (cluster_bytes_of (rv_volume V))) indexes w st = Some (r, w', st')"
  shows "r \<noteq> LoadUndefined \<and> length (lw_bytes w') = length (lw_bytes w) \<and> length (lw_loaded w') = length (lw_loaded w)"
  using assms(2-)
proof (induction indexes arbitrary: w st)
  case (Cons index rest)
  define c where "c = unat (cluster_bytes_of (rv_volume V))"
  show ?case
  proof (cases "lw_loaded w ! index")
    case True
    then show ?thesis using Cons.prems Cons.IH [of w st] by (simp split: if_splits)
  next
    case False
    define first where "first = index * c"
    define count where "count = min c (length (lw_bytes w) - first)"
    have c: "0 < c" "length (lw_loaded w) = (length (lw_bytes w) + c - 1) div c" "length (lw_bytes w) \<le> 262144"
      using Cons.prems(1,2) by (simp_all add: walk_fits_def c_def Let_def)
    have first: "first < length (lw_bytes w)"
      unfolding first_def by (rule cluster_before_end [OF c(1)]) (use Cons.prems(3) c(2) in simp)
    define part where "part = take count (drop first (lw_bytes w))"
    have span: "subspan AttrUndefined (lw_bytes w) first count = Inr part"
      using first by (simp add: part_def subspan_inside count_def)
    have short: "length part < 4294967296" using c(3) by (simp add: part_def)
    from Cons.prems(3,4) False span [unfolded count_def] first obtain q out w1 st1 where
        read: "read_body V body (of_nat first) part w st = Some (q, out, w1, st1)"
      by (auto simp: c_def [symmetric] first_def [symmetric] Let_def bind_eq_Some_conv)
    note inside = read_body_inside [OF assms(1) short read]
    define w2 where "w2 = w1\<lparr>lw_bytes := write_span first out (lw_bytes w1)\<rparr>"
    have w2: "length (lw_bytes w2) = length (lw_bytes w)" "lw_loaded w2 = lw_loaded w"
      using inside by (simp_all add: w2_def write_span_def)
    obtain e where q: "q = Inr e" using inside by (cases q) auto
    have go: "(case e of Throws \<Rightarrow> Some (LoadThrows, w2, st1)
      | Answers l \<Rightarrow> if l \<noteq> Some (of_nat count) then Some (LoadFailed, w2, st1)
          else load_clusters V body c rest (w2\<lparr>lw_loaded := (lw_loaded w2)[index := True]\<rparr>) st1) = Some (r, w', st')"
      using Cons.prems(3,4) False span [unfolded count_def] read first q
      by (cases e) (simp_all add: c_def [symmetric] first_def [symmetric] Let_def count_def w2_def split: if_splits)
    have "lw_bytes w2 \<noteq> []" using w2(1) Cons.prems(2) by (metis length_0_conv)
    moreover have "walk_fits V (w2\<lparr>lw_loaded := (lw_loaded w2)[index := True]\<rparr>)"
      using c w2 by (simp add: walk_fits_def c_def [symmetric])
    moreover have "\<forall>i \<in> set rest. i < length (lw_loaded w2)" using Cons.prems(3) w2(2) by simp
    ultimately show ?thesis
      using go w2 Cons.IH [of "w2\<lparr>lw_loaded := (lw_loaded w2)[index := True]\<rparr>" st1]
      by (auto simp: c_def split: read_end.splits if_splits)
  qed
qed simp

lemma ReadListBytes_inside:
  assumes "short_body body" "walk_fits V w" "length out < 4294967296" "ReadListBytes V body off out w st = Some (r, out', w', st')"
  shows "r \<noteq> Inl e \<and> walk_fits V w'"
proof (cases "lw_bytes w = [] \<or> unat off > length (lw_bytes w)")
  case True
  then show ?thesis
    using assms(4) read_body_inside [OF assms(1,3), of V off w st r out' w' st' e] assms(2)
    by (auto simp: ReadListBytes_def walk_fits_def Let_def split: if_splits)
next
  case False
  define c where "c = unat (cluster_bytes_of (rv_volume V))"
  define len where "len = min (length out) (length (lw_bytes w) - unat off)"
  define indexes where "indexes = [unat off div c ..< (unat off + len + c - 1) div c]"
  have c: "0 < c" "length (lw_loaded w) = (length (lw_bytes w) + c - 1) div c" "length (lw_bytes w) \<le> 262144"
    using False assms(2) by (simp_all add: walk_fits_def c_def Let_def)
  have fit: "unat off + len \<le> length (lw_bytes w)" using False by (auto simp: len_def min_def)
  have below: "\<forall>i \<in> set indexes. i < length (lw_loaded w)"
  proof -
    have "(unat off + len + c - 1) div c \<le> (length (lw_bytes w) + c - 1) div c"
      by (rule div_le_mono) (use fit in linarith)
    then show ?thesis unfolding indexes_def c(2) by auto
  qed
  from assms(4) False obtain q w1 st1 where load: "load_clusters V body c indexes w st = Some (q, w1, st1)"
    and r: "(case q of LoadUndefined \<Rightarrow> (Inl AttrUndefined, out, w1, st1) | LoadThrows \<Rightarrow> (Inr Throws, out, w1, st1)
       | LoadFailed \<Rightarrow> (Inr (Answers None), out, w1, st1)
       | Loaded \<Rightarrow> (case subspan AttrUndefined (lw_bytes w1) (unat off) len of
           Inl e \<Rightarrow> (Inl e, out, w1, st1)
         | Inr bytes \<Rightarrow> (Inr (Answers (Some (of_nat len))), write_front bytes out, w1, st1))) = (r, out', w', st')"
    by (auto simp: ReadListBytes_def Let_def bind_eq_Some_conv c_def [symmetric] len_def [symmetric] indexes_def)
  note inside = load_clusters_inside [OF assms(1,2) _ below load [unfolded c_def]]
  have "q \<noteq> LoadUndefined" "length (lw_bytes w1) = length (lw_bytes w)" "length (lw_loaded w1) = length (lw_loaded w)"
    using inside False by simp_all
  moreover from this have "walk_fits V w1" using c by (simp add: walk_fits_def c_def [symmetric])
  ultimately show ?thesis using r fit by (cases q) (auto simp: subspan_def)
qed

lemma ReadEntryHeader_inside:
  assumes "short_body body" "walk_fits V w" "ReadEntryHeader V body off w st = Some (r, w', st')"
  shows "r \<noteq> EntryUndefined \<and> walk_fits V w'"
proof -
  have small: "length (replicate attribute_list_entry_header_size (0 :: byte)) < 4294967296"
    by (simp add: attribute_list_entry_header_size_def)
  obtain q out w1 st1 where read: "ReadListBytes V body off (replicate attribute_list_entry_header_size 0) w st = Some (q, out, w1, st1)"
    using assms(3) by (auto simp: ReadEntryHeader_def bind_eq_Some_conv)
  have "q \<noteq> Inl e" "walk_fits V w1" for e using ReadListBytes_inside [OF assms(1,2) small read] by blast+
  moreover have "walk_fits V (w1\<lparr>lw_truncated := t\<rparr>) = walk_fits V w1" for t by (simp add: walk_fits_def)
  ultimately show ?thesis
    using assms(3) read
    by (auto simp: ReadEntryHeader_def split: sum.splits read_end.splits option.splits if_splits)
qed

lemma MakeListCache_fits: "walk_fits V (MakeListCache V body)"
proof (cases body)
  case (NonResidentBody a)
  define c where "c = cluster_bytes_of (rv_volume V)"
  show ?thesis
  proof (cases "GetDataSize a \<noteq> 0 \<and> GetDataSize a \<le> max_buffered_list_bytes \<and> c \<noteq> 0")
    case True
    then have size: "unat (GetDataSize a) \<le> 262144" by (simp add: max_buffered_list_bytes_def u64_le_nat)
    have "0 < unat c" using True by (simp add: unat_gt_0)
    moreover have "unat c < 4294967296" unfolding c_def cluster_bytes_of_def unat_ucast_u32_u64 by (rule unat_u32_bound)
    ultimately have c: "0 < unat c" "unat c < 4294967296" by simp_all
    have sum: "unat (GetDataSize a + c) = unat (GetDataSize a) + unat c" using size c by (intro unat_u64_add) simp
    then have "1 \<le> GetDataSize a + c" using c by (simp add: u64_le_nat)
    then have "unat (GetDataSize a + c - 1) = unat (GetDataSize a) + unat c - 1" using sum by (simp add: unat_u64_sub)
    then have "unat ((GetDataSize a + c - 1) div c) = (unat (GetDataSize a) + unat c - 1) div unat c" by (simp add: unat_div)
    then show ?thesis
      using True size c NonResidentBody by (simp add: MakeListCache_def Let_def c_def [symmetric] walk_fits_def)
  next
    case False
    then show ?thesis using NonResidentBody by (auto simp: MakeListCache_def Let_def c_def [symmetric] walk_fits_def)
  qed
qed (simp add: MakeListCache_def walk_fits_def)

lemma list_loop_sound:
  fixes V :: "'v record_volume"
  assumes body: "short_body body" and fits: "walk_fits V w"
    and import: "\<And>n q t fr st. record_ok V fr \<Longrightarrow> IsValidAttrType t \<Longrightarrow> sound V (import n q t fr st)"
    and fr: "record_ok V fr"
  shows "sound V (list_loop V import overwritable body offset w fr st)"
proof (cases "list_loop V import overwritable body offset w fr st")
  case (Some y)
  define P where "P = (\<lambda>W (i :: u64 \<Rightarrow> u16 \<Rightarrow> u32 \<Rightarrow> file_record \<Rightarrow> 'v parse_state \<Rightarrow> ((attr_error + unit) \<times> file_record \<times> 'v parse_state) option)
      (o' :: bool) (b :: attr_body) (f :: u64) (w :: list_walk) fr (st :: 'v parse_state) (y :: (attr_error + unit) \<times> file_record \<times> 'v parse_state). W = V \<longrightarrow> i = import \<longrightarrow> b = body \<longrightarrow> walk_fits V w \<longrightarrow> record_ok V fr \<longrightarrow> sound V (Some y))"
  have "P V import overwritable body offset w fr st y"
  proof (rule list_loop.raw_induct [where P = P, OF _ Some])
    fix f W i ov b off w fr st y
    assume IH: "\<And>W i ov b off w fr st y. f W i ov b off w fr st = Some y \<Longrightarrow> P W i ov b off w fr st y"
    assume eq: "ReadEntryHeader W b off w st \<bind> (\<lambda>(r, w, st). case r of
          EntryUndefined \<Rightarrow> Some (Inl AttrUndefined, fr, st)
        | EntryThrows \<Rightarrow> Some (Inl (AttrThrows NarrowingError), fr, st)
        | NoMoreEntries \<Rightarrow> (case list_walk_end (rv_recover W) ov b off w fr of (r, fr) \<Rightarrow> Some (r, fr, st))
        | Entry e \<Rightarrow>
            if \<not> IsValidAttrType (le_type e) then
              (if ov then Some (Inr (), NoteOverwrittenAttrList fr, st) else Some (Inl (AttrThrows ListBadType), fr, st))
            else i (le_segment_number e) (le_sequence_number e) (le_type e) fr st \<bind> (\<lambda>(r, fr, st). case r of
                Inl err \<Rightarrow> Some (Inl err, fr, st)
              | Inr _ \<Rightarrow>
                  if ov \<and> unat (le_record_size e) < attribute_list_entry_header_size then Some (Inr (), NoteOverwrittenAttrList fr, st)
                  else if le_record_size e = 0 then Some (Inl (AttrThrows ListEndlessLoop), fr, st)
                  else if unat (le_record_size e) < attribute_list_entry_header_size then
                    (case list_walk_end (rv_recover W) ov b off (w\<lparr>lw_truncated := True\<rparr>) fr of (r, fr) \<Rightarrow> Some (r, fr, st))
                  else f W i ov b (off + ucast (le_record_size e)) w fr st)) = Some y"
    show "P W i ov b off w fr st y"
      unfolding P_def
    proof (intro impI)
      assume W: "W = V" "i = import" "b = body" "walk_fits V w" and fr: "record_ok V fr"
      from eq obtain r w1 st1 where read: "ReadEntryHeader W b off w st = Some (r, w1, st1)" by (auto simp: bind_eq_Some_conv)
      have inside: "r \<noteq> EntryUndefined" "walk_fits V w1"
        using ReadEntryHeader_inside [OF body, of V w off st r w1 st1] read W by simp_all
      show "sound V (Some y)"
      proof (cases r)
        case (Entry e)
        show ?thesis
        proof (cases "IsValidAttrType (le_type e)")
          case True
          with eq read Entry obtain r2 fr2 st2 where step: "i (le_segment_number e) (le_sequence_number e) (le_type e) fr st1 = Some (r2, fr2, st2)"
            by (auto simp: bind_eq_Some_conv)
          then have ok: "r2 \<noteq> Inl AttrUndefined" "record_ok V fr2" using soundD [OF import [OF fr True]] W by blast+
          show ?thesis
            using eq read Entry True step ok IH W inside(2)
            by (auto simp: P_def dest: list_walk_end_ok split: sum.splits if_splits prod.splits)
        next
          case False
          then show ?thesis using eq read Entry fr by (auto split: if_splits)
        qed
      qed (use eq read fr inside in \<open>auto dest: list_walk_end_ok split: prod.splits\<close>)
    qed
  qed
  then show ?thesis using fr Some body fits by (simp add: P_def)
qed simp

section \<open>The walk over a record\<close>

lemma AttrList_sound:
  assumes "volume_ok V" "record_ok V fr" "header_fits h cur"
    and "\<And>ext st. record_ok V ext \<Longrightarrow> sound V (parse ext st)"
  shows "sound V (AttrList V parse h cur fr st)"
proof (cases "MakeAttr V fr h cur (\<lambda>_. Inr ListAttr)")
  case (Inl e)
  have "yields (MakeAttr V fr h cur (\<lambda>_. Inr ListAttr)) attribute_ok" by (rule MakeAttr_defined [OF assms(3)]) simp
  then show ?thesis using Inl assms(2) by (simp add: AttrList_def)
next
  case (Inr a)
  have "attribute_ok a" by (rule yieldsD(2) [OF MakeAttr_defined [OF assms(3)] Inr]) simp
  then have "sound V (list_loop V (ImportAttrListEntry V parse) ov (at_body a) off (MakeListCache V (at_body a)) fr st)" for ov off st
    by (intro list_loop_sound [OF attribute_short_body MakeListCache_fits ImportAttrListEntry_sound [OF assms(1) _ _ assms(4)] assms(2)])
  then show ?thesis using Inr unfolding AttrList_def Let_def by (auto intro!: sound_bind simp: bind_r_eq_Inl)
qed

lemma MakeAttributeList_sound:
  assumes "volume_ok V" "record_ok V fr" "header_fits h cur"
    and "\<And>ext st. record_ok V ext \<Longrightarrow> sound V (parse ext st)"
  shows "sound V (MakeAttributeList V parse h cur fr st)"
proof -
  have "MakeAttr V fr h cur (\<lambda>_. Inr PlainAttr) \<noteq> Inl AttrUndefined"
    by (rule yieldsD(1) [of _ attribute_ok], rule MakeAttr_defined [OF assms(3)]) simp
  then show ?thesis
    using AttrList_sound [OF assms] assms(2) by (auto simp: MakeAttributeList_def RefuseRead_def Let_def)
qed

lemma ParseAttr_sound:
  assumes "volume_ok V" "record_ok V fr" "header_fits h cur" "IsValidAttrType (hc_type h)"
    and "\<And>ext st. record_ok V ext \<Longrightarrow> sound V (parse ext st)"
  shows "sound V (ParseAttr V parse h cur fr st)"
proof -
  have alloc: "sound V (AllocAttr V parse h cur fr st) \<and>
      (\<forall>a fr' st'. AllocAttr V parse h cur fr st = Some (Inr a, fr', st') \<longrightarrow> attribute_ok a)"
  proof (cases "hc_type h = type_attr_list")
    case True
    have made: "yields (MakeAttr V fr h cur (\<lambda>_. Inr c)) attribute_ok" if "class_room c = None" for c
      by (rule MakeAttr_defined [OF assms(3)]) (simp add: class_fits_def that)
    have made: "yields (MakeAttr V fr h cur (\<lambda>_. Inr ListAttr)) attribute_ok" "yields (MakeAttr V fr h cur (\<lambda>_. Inr PlainAttr)) attribute_ok"
      by (simp_all add: made class_room_def)
    have "attribute_ok a" if "AttrList V parse h cur fr st = Some (Inr a, fr', st')" for a fr' st st'
      using that yieldsD(2) [OF made(1)]
      by (auto simp: AttrList_def Let_def bind_eq_Some_conv bind_r_eq_Inr split: sum.splits)
    then have "attribute_ok a" if "MakeAttributeList V parse h cur fr st = Some (Inr a, fr', st')" for a fr' st'
      using that yieldsD(2) [OF made(2)] by (auto simp: MakeAttributeList_def Let_def split: if_splits prod.splits)
    then show ?thesis using MakeAttributeList_sound [OF assms(1,2,3,5)] True by (simp add: AllocAttr_def)
  next
    case False
    then show ?thesis
      using AllocOther_defined [OF assms(3,1)] assms(2) by (auto simp: AllocAttr_def dest: yieldsD)
  qed
  then show ?thesis
    using assms(2,4) slot_of_valid [OF assms(4)]
    by (cases "AllocAttr V parse h cur fr st")
      (auto simp: ParseAttr_def sound_def push_attrs_ok split: sum.splits attr_error.splits)
qed

lemma VisitAttr_sound:
  assumes "volume_ok V" "record_ok V fr" "header_fits h cur"
    and "\<And>ext st. record_ok V ext \<Longrightarrow> sound V (parse ext st)"
  shows "sound V (VisitAttr V parse cur h fr st)"
proof -
  have claimed: "ClaimLayout V h cur fr = (r, fr') \<Longrightarrow> r \<noteq> Inl AttrUndefined \<and> record_ok V fr'"
    if "hc_non_resident h \<noteq> 0" for r fr'
    using MakeNonResident_defined [OF assms(3) that, of V fr] assms(2)
    by (auto simp: ClaimLayout_def split: sum.splits attr_error.splits)
  show ?thesis
    using ParseAttr_sound [OF assms(1,2,3) _ assms(4)] assms(2)
    by (auto simp: VisitAttr_def Let_def bind_r_eq_Inl dest: claimed split: prod.splits)
qed

lemma ReadAttrHeader_defined: "length cur = record_size - data_ptr \<Longrightarrow> ReadAttrHeader cur data_ptr record_size \<noteq> Inl e"
  by (auto simp: ReadAttrHeader_def ReadHeaderCommon_def ReadHeaderNonResident_def Let_def header_sizes bind_r_eq_Inl split: if_splits)

lemma WalkAttrHeaders_sound:
  assumes "\<And>cur h fr st. record_ok V fr \<Longrightarrow> header_fits h cur \<Longrightarrow> sound V (visit cur h fr st)"
    and "length cur = unat (rv_record_size V) - data_ptr" "record_ok V fr"
  shows "sound V (WalkAttrHeaders V visit cur data_ptr skipped fr st)"
  using assms
proof (induction V visit cur data_ptr skipped fr st rule: WalkAttrHeaders.induct)
  case (1 V visit cur data_ptr skipped fr st)
  note step = WalkAttrHeaders.simps [of V visit cur data_ptr skipped fr st]
  show ?case
  proof (cases "ReadAttrHeader cur data_ptr (unat (rv_record_size V))")
    case (Inl e)
    then show ?thesis using ReadAttrHeader_defined [OF 1(3)] by simp
  next
    case (Inr w)
    show ?thesis
    proof (cases w)
      case (WalkNext h)
      then have read: "ReadAttrHeader cur data_ptr (unat (rv_record_size V)) = Inr (WalkNext h)" using Inr by simp
      have fits: "header_fits h cur" using ReadAttrHeader_next [OF read] 1(3) by (auto simp: header_fits_def)
      have visited: "sound V (visit cur h fr st)" by (rule 1(2) [OF 1(4) fits])
      show ?thesis
      proof (cases "visit cur h fr st")
        case (Some v)
        obtain r fr1 st1 where v: "v = (r, fr1, st1)" by (cases v) auto
        then have ok: "r \<noteq> Inl AttrUndefined" "record_ok V fr1" using visited Some by simp_all
        show ?thesis
        proof (cases r)
          case (Inl e)
          then show ?thesis using step read Some v ok by simp
        next
          case (Inr b)
          show ?thesis
          proof (cases "\<not> b \<and> \<not> rv_recover V")
            case False
            have "sound V (WalkAttrHeaders V visit (drop (unat (hc_total_size h)) cur) (data_ptr + unat (hc_total_size h)) (skipped \<or> \<not> b) fr1 st1)"
              by (rule 1(1) [OF read refl Some [unfolded v Inr] refl refl refl False]) (use 1(2,3) ok in auto)
            then show ?thesis using step read Some v Inr False by simp
          qed (use step read Some v Inr ok in simp)
        qed
      qed (use step read in simp)
    qed (use step Inr 1(4) in simp_all)
  qed
qed

lemma GetAttrName_defined: "attribute_ok a \<Longrightarrow> yields (GetAttrName a) (\<lambda>_. True)"
  by (auto simp: GetAttrName_def name_exceeds_bounds_def attribute_ok_def Let_def load_words_Inr)

definition streams_at :: "attribute list \<Rightarrow> nat set \<Rightarrow> bool" where
  "streams_at attrs is \<longleftrightarrow> (\<forall>i \<in> is. i < length attrs \<and> stream_of (attrs ! i) \<noteq> None)"

definition groups_fit :: "attribute list \<Rightarrow> (u32 list \<times> nat list) list \<Rightarrow> bool" where
  "groups_fit attrs groups \<longleftrightarrow> (\<forall>(key, is) \<in> set groups. is \<noteq> [] \<and> streams_at attrs (set is))"

lemma add_to_group_fit:
  "groups_fit attrs groups \<Longrightarrow> i < length attrs \<Longrightarrow> stream_of (attrs ! i) \<noteq> None \<Longrightarrow> groups_fit attrs (add_to_group key i groups)"
  by (induction key i groups rule: add_to_group.induct) (auto simp: groups_fit_def streams_at_def)

lemma group_from_defined:
  assumes "\<forall>a \<in> set as. attribute_ok a" "attrs = pre @ as" "i = length pre" "groups_fit attrs groups"
  shows "yields (group_from i as groups) (groups_fit attrs)"
  using assms
proof (induction as arbitrary: i groups pre)
  case (Cons a as)
  have rest: "yields (group_from (i + 1) as g) (groups_fit attrs)" if "groups_fit attrs g" for g
    using Cons.prems that by (intro Cons.IH [of "pre @ [a]"]) auto
  show ?case
  proof (cases "IsNonResident a")
    case True
    have "yields (if IsUnNamed a then Inr [] else GetAttrName a) (\<lambda>_. True)" using GetAttrName_defined Cons.prems(1) by simp
    moreover have "groups_fit attrs (add_to_group key i groups)" for key
      using Cons.prems True by (intro add_to_group_fit) (auto simp: attribute_ok_def)
    ultimately show ?thesis using True rest by (auto elim!: yields_mono)
  qed (use rest Cons.prems in simp)
qed simp

lemma those_map: "(\<And>x. x \<in> set xs \<Longrightarrow> f x \<noteq> None) \<Longrightarrow> those (map f xs) = Some (map (the \<circ> f) xs)"
  by (induction xs) (auto split: option.splits)

lemma set_stream_ok: "attribute_ok a \<Longrightarrow> stream_of a \<noteq> None \<Longrightarrow> attribute_ok (set_stream n a)"
  by (auto simp: set_stream_def attribute_ok_def stream_of_def IsNonResident_def body_inside_def class_fits_def
      split: attr_body.splits option.splits)

lemma MergeStreamChain_defined:
  assumes "\<forall>a \<in> set attrs. attribute_ok a" "indices \<noteq> []" "streams_at attrs (set indices)"
  shows "yields (MergeStreamChain attrs indices to_erase)
    (\<lambda>(attrs', e). length attrs' = length attrs \<and> (\<forall>a \<in> set attrs'. attribute_ok a) \<and>
       (\<forall>i < length attrs. stream_of (attrs' ! i) = None \<longleftrightarrow> stream_of (attrs ! i) = None))"
proof -
  define sorted where "sorted = sort_key (start_vcn_of attrs) indices"
  have sorted: "streams_at attrs (set sorted)" "sorted \<noteq> []"
    using assms(2,3) by (auto simp: sorted_def) (metis set_sort set_empty)
  define ns where "ns = map (the \<circ> (\<lambda>i. stream_of (attrs ! i))) sorted"
  have ns: "those (map (\<lambda>i. stream_of (attrs ! i)) sorted) = Some ns" "ns \<noteq> []"
    using sorted by (auto simp: ns_def streams_at_def intro!: those_map)
  then obtain keeper rest where kr: "ns = keeper # rest" by (cases ns) auto
  obtain k ks where k: "sorted = k # ks" using sorted(2) by (cases sorted) auto
  then have kin: "k < length attrs" "stream_of (attrs ! k) \<noteq> None" using sorted(1) by (auto simp: streams_at_def)
  then have "attribute_ok (set_stream n (attrs ! k))" for n
    using assms(1) set_stream_ok [of "attrs ! k" n] by (auto dest: nth_mem)
  then have "\<forall>a \<in> set (attrs[k := set_stream n (attrs ! k)]). attribute_ok a" for n
    using assms(1) set_update_subset_insert [of attrs k] by blast
  then show ?thesis
    using assms(1) ns kr k kin by (auto simp: MergeStreamChain_def Let_def sorted_def [symmetric] nth_list_update set_stream_def stream_of_def)
qed

lemma merge_groups_defined:
  assumes "\<forall>a \<in> set attrs. attribute_ok a" "groups_fit attrs groups"
  shows "yields (merge_groups groups attrs to_erase) (\<lambda>(attrs', e). \<forall>a \<in> set attrs'. attribute_ok a)"
  using assms
proof (induction groups attrs to_erase rule: merge_groups.induct)
  case (2 name indices groups attrs to_erase)
  show ?case
  proof (cases "length indices \<ge> 2")
    case True
    have fit: "indices \<noteq> []" "streams_at attrs (set indices)" "groups_fit attrs groups" using 2(4) by (auto simp: groups_fit_def)
    have "yields (merge_groups groups attrs' e) (\<lambda>(attrs', e). \<forall>a \<in> set attrs'. attribute_ok a)"
      if merged: "MergeStreamChain attrs indices to_erase = Inr (attrs', e)" and
        "length attrs' = length attrs" "\<forall>a \<in> set attrs'. attribute_ok a"
        "\<forall>i < length attrs. stream_of (attrs' ! i) = None \<longleftrightarrow> stream_of (attrs ! i) = None" for attrs' e
    proof (rule 2(1) [OF True merged refl])
      show "groups_fit attrs' groups" using fit(3) that(2,4) unfolding groups_fit_def streams_at_def by fastforce
    qed (rule that(3))
    then show ?thesis
      using yields_mono [OF MergeStreamChain_defined [OF 2(3) fit(1,2)]] True by auto
  next
    case False
    then show ?thesis using 2 by (simp add: groups_fit_def)
  qed
qed simp

lemma erase_at_subset: "set (erase_at i xs) \<subseteq> set xs"
  using set_take_subset [of i xs] set_drop_subset [of "Suc i" xs] by (simp add: erase_at_def)

lemma erase_all_subset: "set (fold erase_at is xs) \<subseteq> set xs"
proof (induction "is" arbitrary: xs)
  case (Cons i "is")
  have "set (fold erase_at (i # is) xs) \<subseteq> set (erase_at i xs)" using Cons.IH [of "erase_at i xs"] by simp
  then show ?case using erase_at_subset [of i xs] by (rule subset_trans)
qed simp

lemma MergeSlot_defined: "\<forall>a \<in> set attrs. attribute_ok a \<Longrightarrow> yields (MergeSlot attrs) (\<lambda>attrs'. \<forall>a \<in> set attrs'. attribute_ok a)"
proof -
  assume ok: "\<forall>a \<in> set attrs. attribute_ok a"
  have "yields (GroupNonResidentByName attrs) (groups_fit attrs)"
    unfolding GroupNonResidentByName_def by (rule group_from_defined [OF ok]) (auto simp: groups_fit_def)
  then have "yields (bind_r (GroupNonResidentByName attrs) (\<lambda>groups.
       bind_r (merge_groups groups attrs []) (\<lambda>(attrs, to_erase). Inr (fold erase_at (rev (sort to_erase)) attrs))))
     (\<lambda>attrs'. \<forall>a \<in> set attrs'. attribute_ok a)"
    unfolding yields_simps
  proof (rule yields_mono)
    fix groups
    assume "groups_fit attrs groups"
    from merge_groups_defined [OF ok this, of "[]"]
    show "yields (merge_groups groups attrs []) (\<lambda>x. yields (case x of (attrs, to_erase) \<Rightarrow> Inr (fold erase_at (rev (sort to_erase)) attrs))
        (\<lambda>attrs'. \<forall>a \<in> set attrs'. attribute_ok a))"
      by (rule yields_mono) (use erase_all_subset in \<open>fastforce split: prod.splits\<close>)
  qed
  then show ?thesis using ok by (simp add: MergeSlot_def)
qed

lemma merge_slots_defined:
  "\<forall>slot \<in> set slots. \<forall>a \<in> set slot. attribute_ok a \<Longrightarrow>
     yields (merge_slots slots) (\<lambda>slots'. length slots' = length slots \<and> (\<forall>slot \<in> set slots'. \<forall>a \<in> set slot. attribute_ok a))"
  by (induction slots rule: merge_slots.induct) (auto intro!: yields_mono [OF MergeSlot_defined] elim!: yields_mono)

lemma merge_slots_few: "list_all (\<lambda>slot. length (filter IsNonResident slot) < 2) slots \<Longrightarrow> merge_slots slots = Inr slots"
  by (induction slots rule: merge_slots.induct) (simp_all add: MergeSlot_def)

lemma parse_end_ok:
  assumes "record_ok V fr" "walked \<noteq> Inl AttrUndefined" "parse_end V walked fr = (r, fr')"
  shows "r \<noteq> Inl AttrUndefined \<and> record_ok V fr'"
proof -
  have slots: "\<forall>slot \<in> set (fr_attrs fr). \<forall>a \<in> set slot. attribute_ok a" using assms(1) by (simp add: record_ok_def)
  have "yields (MergeAttributeContinuations fr) (record_ok V)"
    using merge_slots_defined [OF slots] assms(1) unfolding MergeAttributeContinuations_def yields_simps
    by (elim yields_mono) (simp add: record_ok_def)
  then show ?thesis
    using assms ClearAttrs_ok by (auto simp: parse_end_def dest: yieldsD split: sum.splits if_splits)
qed

lemma Parse_sound:
  assumes V: "volume_ok V" and fr: "record_ok V fr"
    and parse: "\<And>ext st. record_ok V ext \<Longrightarrow> sound V (parse ext st)"
  shows "sound V (Parse V parse fr st)"
proof -
  define fr0 where "fr0 = (ClearAttrs fr)\<lparr>fr_reused := [], fr_overwritten := False\<rparr>"
  have fr0: "record_ok V fr0" using ClearAttrs_ok [OF fr] by (simp add: fr0_def)
  note run = Parse_def [of V parse fr st, unfolded Let_def, folded fr0_def]
  show ?thesis
  proof (cases "fr_header fr0")
    case None
    then have "FirstAttrToWalk V fr0 = Inr None" by (simp add: FirstAttrToWalk_def header_readable_def)
    then show ?thesis using run fr0 by simp
  next
    case (Some h)
    then have room: "rh_buffer_size h = unat (rv_record_size V)" "unat (rv_record_size V) \<le> length (rh_data h)"
        "min_file_record_header_size \<le> length (rh_data h)"
      using fr0 by (simp_all add: record_ok_def)
    define declared where "declared = unat (u16_at (rh_data h) 20)"
    have common: "HeaderCommon h = Inr (if declared + 16 \<ge> unat (rv_record_size V) then None else Some declared)"
      using room by (simp add: HeaderCommon_def memcpy_inside min_file_record_header_size_def declared_def)
    have first: "FirstAttrToWalk V fr0 = Inr (if (\<not> rs_bypass (fr_setup fr0) \<and> IsDeleted fr0 \<and> \<not> rv_include_deleted V) \<or>
        declared + 16 \<ge> unat (rv_record_size V) then None else Some declared)"
      using record_ok_readable [OF fr0] by (simp add: FirstAttrToWalk_def Some common)
    show ?thesis
    proof (cases "FirstAttrToWalk V fr0 = Inr None")
      case True
      then show ?thesis using run fr0 by simp
    next
      case False
      then have walk: "FirstAttrToWalk V fr0 = Inr (Some declared)" "declared + 16 < unat (rv_record_size V)"
        using first by (auto split: if_splits)
      define cur where "cur = take (unat (rv_record_size V) - declared) (drop declared (rh_data h))"
      have cur: "subspan AttrUndefined (rh_data h) declared (size_sub (unat (rv_record_size V)) declared) = Inr cur"
        using walk(2) room(2) by (simp add: cur_def subspan_inside)
      have "sound V (WalkAttrHeaders V (VisitAttr V parse) cur declared False fr0 st)"
        by (rule WalkAttrHeaders_sound) (use VisitAttr_sound [OF V _ _ parse] fr0 room walk(2) in \<open>auto simp: cur_def\<close>)
      then have "sound V (WalkAttrHeaders V (VisitAttr V parse) cur declared False fr0 st \<bind>
          (\<lambda>(walked, fr, st). Some (case parse_end V walked fr of (r, fr) \<Rightarrow> (r, fr, st))))"
        by (rule sound_bind) (auto dest: parse_end_ok split: prod.splits)
      then show ?thesis using run walk(1) Some cur by simp
    qed
  qed
qed

lemma ParseAttrsWithin_sound: "volume_ok V \<Longrightarrow> record_ok V fr \<Longrightarrow> sound V (ParseAttrsWithin nesting V fr st)"
  by (induction nesting arbitrary: fr st) (auto intro: Parse_sound)


text \<open>A record of 128 bytes with no sector to fix up: its $DATA holds four bytes.\<close>

definition small_record :: "byte list" where
  "small_record =
     [0x46, 0x49, 0x4C, 0x45, 0x30, 0, 1, 0] @ replicate 12 0 @ [0x38, 0, 1, 0] @ replicate 32 0 @
     [0x80, 0, 0, 0, 0x20, 0, 0, 0, 0, 0, 0, 0, 0, 0, 0, 0, 4, 0, 0, 0, 0x18, 0, 0, 0, 11, 12, 13, 14, 0, 0, 0, 0,
      0xFF, 0xFF, 0xFF, 0xFF] @ replicate 36 0"

definition small_volume :: "unit record_volume" where
  "small_volume =
     \<lparr>rv_volume = \<lparr>vol_cluster_size = 256, vol_full_cache = False, vol_recover_errors = False,
        vol_read = (\<lambda>v a n. (Some (replicate n 0), v)), vol_range_states = (\<lambda>v queries. (Some [], v))\<rparr>,
      rv_record_size = 128, rv_index_block_size = 256, rv_include_deleted = False, rv_mft_addr = 1024, rv_has_mft_base = False,
      rv_mirror_addr = None, rv_read_into = (\<lambda>v a n. (Some (replicate n 0), v)),
      rv_mft_data = (\<lambda>v a n. Some (Some (replicate n 0), v)), rv_callbacks = Map.empty\<rparr>"

definition plain_setup :: record_setup where
  "plain_setup = \<lparr>rs_mask = 0xFFFFFFFF, rs_claim_mask = 0, rs_resolve = True, rs_bypass = False, rs_refuses = False,
     rs_callbacks = Map.empty, rs_extension_source = None, rs_base_source = None, rs_record_source = None\<rparr>"

definition unit_state :: "unit parse_state" where
  "unit_state = \<lparr>ps_volume = (), ps_buffer = [], ps_chain = {}, ps_refused = False\<rparr>"

definition small_header :: record_header where
  "small_header = \<lparr>rh_us_number = 0, rh_us_array = [], rh_buffer_size = 128, rh_data = small_record\<rparr>"

definition small_open :: file_record where
  "small_open = (new_file_record plain_setup)\<lparr>fr_header := Some small_header, fr_reference := Some 5\<rparr>"

lemma small_volume_ok: "volume_ok small_volume"
  by (simp add: volume_ok_def small_volume_def)

lemma small_opened: "ParseRecord small_volume 5 small_record (new_file_record plain_setup) unit_state = Some (Inr True, small_open, unit_state)"
proof -
  have parsed: "ParseHeader small_volume small_record = Inr (Some small_header)"
    by (simp add: ParseHeader_def small_volume_def new_record_header_def small_record_def small_header_def u32_at_def u16_at_def read_le_def
        record_consts file_record_magic_def UpdateSequenceBlockCount_def own_data_def memcpy_u16_def memcpy_u32_def Let_def)
  have judged: "judge_read small_volume (Some small_header) = Inr (Accepted, False, Some small_header)"
    by (simp add: judge_read_def JudgeRecordHeader_def memcpy_u32_def small_header_def small_volume_def small_record_def u32_at_def read_le_def
        file_record_magic_def PatchUS_def PatchSectors_def)
  have "length small_record = 128" "small_record \<noteq> []" by (simp_all add: small_record_def)
  then have "ReadFileRecord small_volume fr 5 small_record v = Some (Inr (Some small_header), v)" for fr v
    using parsed by (simp add: ReadFileRecord_def small_volume_def)
  then show ?thesis
    using judged \<open>small_record \<noteq> []\<close>
    by (simp add: ParseRecord_def Let_def keep_header_def small_open_def new_file_record_def ClearAttrs_def unit_state_def)
qed

definition small_data_header :: header_common where
  "small_data_header = \<lparr>hc_type = 0x80, hc_total_size = 32, hc_non_resident = 0, hc_name_length = 0, hc_name_offset = 0, hc_flags = 0, hc_id = 0\<rparr>"

definition small_attr :: attribute where
  "small_attr = \<lparr>at_header = small_data_header, at_bytes = take 32 (drop 56 small_record),
     at_body = ResidentBody [11, 12, 13, 14], at_class = DataAttr\<rparr>"

lemma small_parsed:
  "ParseAttrs 1 small_volume small_open unit_state =
     Some (Inr True, (push_attrs attr_type_data [small_attr] small_open)\<lparr>fr_end_marker := Some 88\<rparr>, unit_state)"
proof -
  have first: "FirstAttrToWalk small_volume small_open = Inr (Some 56)"
    by (simp add: FirstAttrToWalk_def header_readable_def min_file_record_header_size_def memcpy_u16_def small_open_def new_file_record_def plain_setup_def IsDeleted_def small_header_def HeaderCommon_def
       small_record_def u16_at_def read_le_def byte_at_def flag_in_use_def)
  define cur where "cur = drop 56 small_record"
  have cur: "cur = [0x80, 0, 0, 0, 0x20, 0, 0, 0, 0, 0, 0, 0, 0, 0, 0, 0, 4, 0, 0, 0, 0x18, 0, 0, 0, 11, 12, 13, 14, 0, 0, 0, 0,
      0xFF, 0xFF, 0xFF, 0xFF] @ replicate 36 0"
    by (simp add: cur_def small_record_def)
  have read: "ReadAttrHeader cur 56 128 = Inr (WalkNext small_data_header)" "ReadAttrHeader (drop 32 cur) 88 128 = Inr WalkEndMarker"
    by (simp_all add: ReadAttrHeader_def cur ReadHeaderCommon_def header_sizes u32_at_def u16_at_def read_le_def byte_at_def Let_def
        small_data_header_def type_all_def)
  have visit: "VisitAttr small_volume p cur small_data_header small_open st = Some (Inr True, push_attrs attr_type_data [small_attr] small_open, st)" for p st
  proof -
    have "AllocOther small_volume small_open small_data_header cur = Inr small_attr"
      by (simp add: AllocOther_def AllocResidentOnly_def small_data_header_def attr_types MakeAttr_def MakeBody_def ResidentBodyOf_def subspan_def
          cur cur_def [symmetric] attr_span_def header_sizes u32_at_def u16_at_def read_le_def Let_def small_attr_def attr_type_data_def)
    moreover have "IsValidAttrType (hc_type small_data_header)" "hc_type small_data_header \<noteq> type_attr_list"
      "hc_type small_data_header = attr_type_data" "\<not> name_exceeds_bounds small_data_header"
      "AttrMask (hc_type small_data_header) AND rs_mask (fr_setup small_open) \<noteq> 0"
      by code_simp+
    moreover have "\<not> UserCallBack small_volume small_open i h" for i h
      by (simp add: UserCallBack_def small_open_def new_file_record_def plain_setup_def small_volume_def)
    moreover have "slot_of (hc_type small_data_header) = Inr 7" by code_simp
    ultimately show ?thesis by (simp add: VisitAttr_def ParseAttr_def AllocAttr_def)
  qed
  define parsed where "parsed = (push_attrs attr_type_data [small_attr] small_open)\<lparr>fr_end_marker := Some 88\<rparr>"
  have slots: "fr_attrs parsed = replicate 7 [] @ [[small_attr]] @ replicate 8 []"
  proof -
    have "unat (AttrIndex attr_type_data) = 7" by code_simp
    moreover have "(replicate attr_nums [])[7 := replicate attr_nums [] ! 7 @ [small_attr]] = replicate 7 [] @ [[small_attr]] @ replicate 8 []"
      by (simp add: attr_nums_def numeral_eq_Suc)
    ultimately show ?thesis by (simp add: parsed_def push_attrs_def small_open_def new_file_record_def)
  qed
  then have "merge_slots (fr_attrs parsed) = Inr (fr_attrs parsed)"
    by (intro merge_slots_few) (simp add: small_attr_def IsNonResident_def small_data_header_def list_all_iff)
  moreover have "AttachEfsContext small_volume parsed"
    using slots by (simp add: AttachEfsContext_def GetAttr_def AttrIndex_def attr_type_data_def attr_nums_def small_attr_def GetAttrFlags_def small_data_header_def nth_append)
  ultimately have "parse_end small_volume (Inr (EndMarkerReached, False)) parsed = (Inr True, parsed)"
    by (simp add: parse_end_def MergeAttributeContinuations_def)
  moreover have "WalkAttrHeaders small_volume (VisitAttr small_volume p) cur 56 False small_open st = Some (Inr (EndMarkerReached, False), parsed, st)" for p st
    using read visit
    by (simp add: WalkAttrHeaders.simps [of _ _ _ 56] WalkAttrHeaders.simps [of _ _ _ 88] parsed_def small_volume_def small_data_header_def)
  moreover have "subspan AttrUndefined small_record 56 (size_sub 128 56) = Inr cur"
    by (simp add: subspan_def cur_def) (simp add: small_record_def)
  moreover have "(ClearAttrs small_open)\<lparr>fr_reused := [], fr_overwritten := False\<rparr> = small_open" "length cur = 72"
    "fr_header small_open = Some small_header" "rh_data small_header = small_record" "unat (rv_record_size small_volume) = 128"
    by (simp_all add: small_open_def new_file_record_def ClearAttrs_def cur small_header_def small_volume_def)
  ultimately show ?thesis
    using first by (simp add: ParseAttrs_def Parse_def unit_state_def parsed_def [symmetric] cur_def [symmetric])
qed


end
