(* ===== verification/StreamMerge.thy ===== *)
theory StreamMerge
  imports StreamReads RecordAttrsSpec
begin

text \<open>
  The merge of the parts of a stream (MergeStreamChain() of src/io/file-record-attrs.cpp): parts that
  follow one another become one attribute, over which the reads of NonResidentSpec answer the clusters
  of each part; and the two shapes of parts on which the merge goes wrong.
\<close>

section \<open>Runs after runs\<close>

lemma covers_shift:
  assumes "unat (re_start_vcn r) + unat t < 18446744073709551616"
  shows "covers (r\<lparr>re_start_vcn := re_start_vcn r + t, re_last_vcn := l\<rparr>) w \<longleftrightarrow> unat t \<le> w \<and> covers r (w - unat t)"
  using unat_u64_add [OF assms] by (auto simp: covers_def)

lemma cluster_at_append:
  "cluster_at (xs @ ys) w = (case cluster_at xs w of None \<Rightarrow> cluster_at ys w | Some c \<Rightarrow> Some c)"
  by (induction xs) (auto simp: cluster_at_Cons, simp add: cluster_at_def)

lemma cluster_at_shift:
  assumes "\<forall>r \<in> set ys. unat (re_start_vcn r) + unat t < 18446744073709551616"
  shows "cluster_at (map (\<lambda>r. r\<lparr>re_start_vcn := re_start_vcn r + t, re_last_vcn := re_last_vcn r + t\<rparr>) ys) w =
    (if unat t \<le> w then cluster_at ys (w - unat t) else None)"
  using assms
proof (induction ys)
  case (Cons r ys)
  have "unat (re_start_vcn r + t) = unat (re_start_vcn r) + unat t" using Cons.prems by (intro unat_u64_add) simp
  then show ?case using Cons covers_shift [of r t] by (auto simp: cluster_at_Cons add.commute)
qed (simp add: cluster_at_def)

lemma cluster_at_beyond: "\<forall>r \<in> set rs. unat (re_start_vcn r) + unat (re_clusters r) \<le> w \<Longrightarrow> cluster_at rs w = None"
  by (induction rs) (auto simp: cluster_at_Cons covers_def, simp add: cluster_at_def)

lemma AttrAppendRuns_clusters:
  assumes "runs_within a" "runs_within b" "AttrTotalClusters a \<noteq> 0" "AttrTotalClusters b \<noteq> 0"
    and sum: "unat (AttrTotalClusters a) + unat (AttrTotalClusters b) < 18446744073709551616"
  shows "cluster_at (rl_runs (na_runs (AttrAppendRuns a b))) w =
    (if w < unat (AttrTotalClusters a) then cluster_at (rl_runs (na_runs a)) w
     else cluster_at (rl_runs (na_runs b)) (w - unat (AttrTotalClusters a)))"
proof -
  let ?t = "AttrTotalClusters a"
  have ends: "unat (re_start_vcn r) + unat (re_clusters r) \<le> unat (AttrTotalClusters n)"
    if "runs_within n" "AttrTotalClusters n \<noteq> 0" "r \<in> set (rl_runs (na_runs n))" for n r
  proof -
    have "run_plain r" "unat (re_last_vcn r) < unat (AttrTotalClusters n)"
      using that runs_sorted_plain by (auto simp: runs_within_def)
    then show ?thesis by (simp add: run_plain_def)
  qed
  have shifted: "\<forall>r \<in> set (rl_runs (na_runs b)). unat (re_start_vcn r) + unat ?t < 18446744073709551616"
    using ends [OF assms(2,4)] sum by fastforce
  have none: "cluster_at (rl_runs (na_runs a)) w = None" if "\<not> w < unat ?t"
    using ends [OF assms(1,3)] that by (intro cluster_at_beyond) fastforce
  have "rl_runs (na_runs (AttrAppendRuns a b)) = rl_runs (na_runs a) @
      map (\<lambda>r. r\<lparr>re_start_vcn := re_start_vcn r + ?t, re_last_vcn := re_last_vcn r + ?t\<rparr>) (rl_runs (na_runs b))"
    by (simp add: AttrAppendRuns_def AppendRuns_def AttrTotalClusters_def TotalClusters_def)
  then show ?thesis
    using none cluster_at_shift [OF shifted, of w] by (simp add: cluster_at_append split: option.split)
qed

section \<open>The parts of a stream\<close>

text \<open>A part the code built, whose header names the VCNs from a first to a last one, inclusive.\<close>

definition stream_part :: "'v volume \<Rightarrow> nr_attr \<Rightarrow> bool" where
  "stream_part V n \<longleftrightarrow> (\<exists>h attr_bytes deleted ref. AttrNonResident V h attr_bytes deleted ref = Inr n) \<and>
     GetStartVcn n \<le> GetLastVcn n \<and> GetLastVcn n \<noteq> u64_max"

lemma stream_part_built: "stream_part V n \<Longrightarrow> built V n"
  using built.made by (auto simp: stream_part_def)

lemma AttrNonResident_total:
  assumes "AttrNonResident V h attr_bytes deleted ref = Inr n"
  shows "na_header n = h" "AttrTotalClusters n = SpannedClusters h"
proof -
  obtain runs where runs: "ParseDataRun h attr_bytes (vol_recover_errors V) = Inr runs" "na_runs n = runs" "na_header n = h"
    using assms by (auto simp: AttrNonResident_def Let_def bind_r_eq_Inr split: if_splits)
  then show "na_header n = h" by simp
  obtain data_run where "ParseRuns data_run (VcnSpan h) (vol_recover_errors V) (new_run_list (SpannedClusters h)) = Inr runs"
    using runs(1) by (auto simp: ParseDataRun_inside Let_def split: sum.splits)
  from parsed_shape [OF this] show "AttrTotalClusters n = SpannedClusters h" using runs(2) by (simp add: AttrTotalClusters_def)
qed

lemma stream_part_total:
  assumes "stream_part V n"
  shows "unat (GetStartVcn n) + unat (AttrTotalClusters n) = unat (GetLastVcn n) + 1" "AttrTotalClusters n \<noteq> 0"
proof -
  obtain h attr_bytes deleted ref where made: "AttrNonResident V h attr_bytes deleted ref = Inr n" using assms by (auto simp: stream_part_def)
  note total = AttrNonResident_total [OF made]
  have order: "unat (hn_start_vcn h) \<le> unat (hn_last_vcn h)" "hn_last_vcn h \<noteq> u64_max"
    using assms by (simp_all add: stream_part_def GetStartVcn_def GetLastVcn_def total u64_le_nat)
  have span: "VcnSpan h = hn_last_vcn h - hn_start_vcn h" using order by (simp add: VcnSpan_def u64_le_nat)
  have diff: "unat (hn_last_vcn h - hn_start_vcn h) = unat (hn_last_vcn h) - unat (hn_start_vcn h)"
    using order by (simp add: unat_sub word_le_nat_alt)
  have last_small: "unat (hn_last_vcn h) + 1 < 18446744073709551616"
  proof -
    have "hn_last_vcn h < u64_max" using order(2) by (simp add: less_le)
    then show ?thesis by (simp add: u64_less_nat)
  qed
  moreover have "unat (VcnSpan h) = unat (hn_last_vcn h) - unat (hn_start_vcn h)" using diff by (simp add: span)
  ultimately have "VcnSpan h \<noteq> u64_max" by auto
  moreover have "unat (VcnSpan h + 1) = unat (hn_last_vcn h) - unat (hn_start_vcn h) + 1"
    using last_small diff by (subst unat_u64_add) (simp_all add: span)
  ultimately have "unat (AttrTotalClusters n) = unat (hn_last_vcn h) - unat (hn_start_vcn h) + 1"
    by (simp add: total SpannedClusters_def Let_def)
  then show "unat (GetStartVcn n) + unat (AttrTotalClusters n) = unat (GetLastVcn n) + 1" "AttrTotalClusters n \<noteq> 0"
    using order by (auto simp: GetStartVcn_def GetLastVcn_def total(1))
qed

lemma foldl_merged:
  assumes "built V a" "runs_within a" "AttrTotalClusters a \<noteq> 0" "geometry_ok V" "\<forall>n \<in> set ns. stream_part V n"
    and "chain_contiguous (AttrTotalClusters a) ns"
  shows "built V (foldl AttrAppendRuns a ns) \<and> na_header (foldl AttrAppendRuns a ns) = na_header a \<and>
    (\<forall>w < unat (AttrTotalClusters a). cluster_at (rl_runs (na_runs (foldl AttrAppendRuns a ns))) w = cluster_at (rl_runs (na_runs a)) w) \<and>
    (\<forall>n \<in> set ns. \<forall>w < unat (AttrTotalClusters n).
       cluster_at (rl_runs (na_runs (foldl AttrAppendRuns a ns))) (unat (GetStartVcn n) + w) = cluster_at (rl_runs (na_runs n)) w)"
  using assms
proof (induction ns arbitrary: a)
  case (Cons n ns)
  have n: "stream_part V n" "GetStartVcn n = AttrTotalClusters a" using Cons.prems by simp_all
  have total: "unat (AttrTotalClusters a) + unat (AttrTotalClusters n) = unat (GetLastVcn n) + 1" "AttrTotalClusters n \<noteq> 0"
    using stream_part_total [OF n(1)] n(2) by simp_all
  have "GetLastVcn n < u64_max" using n(1) by (simp add: stream_part_def less_le)
  then have last: "unat (GetLastVcn n) + 1 < 18446744073709551616" by (simp add: u64_less_nat)
  have within: "runs_within n" using built_ok [OF Cons.prems(4) stream_part_built [OF n(1)]] by simp
  let ?b = "AttrAppendRuns a n"
  have sum: "unat (AttrTotalClusters a) + unat (AttrTotalClusters n) < 18446744073709551616" using total last by simp
  have b_total: "unat (AttrTotalClusters ?b) = unat (AttrTotalClusters a) + unat (AttrTotalClusters n)"
    using unat_u64_add [OF sum] by (simp add: AttrTotalClusters_def TotalClusters_def AttrAppendRuns_def AppendRuns_def)
  have "AttrTotalClusters ?b = GetLastVcn n + 1" using b_total total(1) last by (simp add: word_unat_eq_iff unat_u64_add)
  then have chain: "chain_contiguous (AttrTotalClusters ?b) ns" using Cons.prems(6) by simp
  note clusters = AttrAppendRuns_clusters [OF Cons.prems(2) within Cons.prems(3) total(2) sum]
  have "built V ?b" by (rule built.merged [OF Cons.prems(1) stream_part_built [OF n(1)] Cons.prems(3) total(2) sum])
  moreover have "runs_within ?b" by (rule AttrAppendRuns_within [OF Cons.prems(2) within Cons.prems(3) total(2) sum])
  moreover have "AttrTotalClusters ?b \<noteq> 0" using b_total total by auto
  ultimately have IH: "built V (foldl AttrAppendRuns ?b ns) \<and> na_header (foldl AttrAppendRuns ?b ns) = na_header ?b \<and>
    (\<forall>w < unat (AttrTotalClusters ?b). cluster_at (rl_runs (na_runs (foldl AttrAppendRuns ?b ns))) w = cluster_at (rl_runs (na_runs ?b)) w) \<and>
    (\<forall>m \<in> set ns. \<forall>w < unat (AttrTotalClusters m).
       cluster_at (rl_runs (na_runs (foldl AttrAppendRuns ?b ns))) (unat (GetStartVcn m) + w) = cluster_at (rl_runs (na_runs m)) w)"
    using Cons.prems(4,5) chain by (intro Cons.IH) simp_all
  have header: "na_header ?b = na_header a" by (simp add: AttrAppendRuns_def)
  have own: "cluster_at (rl_runs (na_runs (foldl AttrAppendRuns ?b ns))) (unat (GetStartVcn n) + w) = cluster_at (rl_runs (na_runs n)) w"
    if "w < unat (AttrTotalClusters n)" for w
    using IH that clusters n(2) b_total by simp
  have kept: "cluster_at (rl_runs (na_runs (foldl AttrAppendRuns ?b ns))) w = cluster_at (rl_runs (na_runs a)) w"
    if "w < unat (AttrTotalClusters a)" for w
    using IH that clusters b_total by simp
  show ?case using IH header own kept by simp
qed simp

text \<open>Parts in a chain: none leaves a VCN out, none shares one with another.\<close>

definition in_part :: "nr_attr \<Rightarrow> nat \<Rightarrow> bool" where
  "in_part n vcn \<longleftrightarrow> unat (GetStartVcn n) \<le> vcn \<and> vcn \<le> unat (GetLastVcn n)"

definition chain_end :: "nat \<Rightarrow> nr_attr list \<Rightarrow> nat" where
  "chain_end v ns = v + (\<Sum>n\<leftarrow>ns. unat (AttrTotalClusters n))"

lemma stream_part_end:
  assumes "stream_part V n"
  shows "unat (GetLastVcn n + 1) = unat (GetLastVcn n) + 1"
proof -
  have "GetLastVcn n < u64_max" using assms by (simp add: stream_part_def less_le)
  then show ?thesis using unat_u64_add [of "GetLastVcn n" 1] by (simp add: u64_less_nat)
qed

lemma chain_covers:
  assumes "chain_contiguous s ns" "\<forall>n \<in> set ns. stream_part V n"
  shows "k < length ns \<Longrightarrow> in_part (ns ! k) vcn \<Longrightarrow> unat s \<le> vcn \<and> vcn < chain_end (unat s) ns"
    and "unat s \<le> vcn \<Longrightarrow> vcn < chain_end (unat s) ns \<Longrightarrow> \<exists>!k. k < length ns \<and> in_part (ns ! k) vcn"
proof -
  have "(\<forall>k < length ns. in_part (ns ! k) vcn \<longrightarrow> unat s \<le> vcn \<and> vcn < chain_end (unat s) ns) \<and>
      (unat s \<le> vcn \<longrightarrow> vcn < chain_end (unat s) ns \<longrightarrow> (\<exists>!k. k < length ns \<and> in_part (ns ! k) vcn))"
    using assms
  proof (induction ns arbitrary: s)
    case Nil
    then show ?case by (simp add: chain_end_def)
  next
    case (Cons n ns)
    have n: "stream_part V n" "GetStartVcn n = s" using Cons.prems by simp_all
    define e where "e = unat (GetLastVcn n + 1)"
    have e: "e = unat (GetLastVcn n) + 1" "unat s + unat (AttrTotalClusters n) = e"
      using stream_part_end [OF n(1)] stream_part_total [OF n(1)] n(2) by (simp_all add: e_def)
    moreover have "0 < unat (AttrTotalClusters n)" using stream_part_total(2) [OF n(1)] by (simp add: unat_gt_0)
    ultimately have e: "e = unat (GetLastVcn n) + 1" "unat s + unat (AttrTotalClusters n) = e" "unat s < e" by simp_all
    have IH: "\<forall>k < length ns. in_part (ns ! k) vcn \<longrightarrow> e \<le> vcn \<and> vcn < chain_end e ns"
        "e \<le> vcn \<longrightarrow> vcn < chain_end e ns \<longrightarrow> (\<exists>!k. k < length ns \<and> in_part (ns ! k) vcn)"
      using Cons.IH [of "GetLastVcn n + 1"] Cons.prems by (simp_all add: e_def)
    have whole: "chain_end (unat s) (n # ns) = chain_end e ns" "e \<le> chain_end e ns" using e(2) by (simp_all add: chain_end_def)
    have first: "in_part n vcn \<longleftrightarrow> unat s \<le> vcn \<and> vcn < e" using n(2) e(1) by (auto simp: in_part_def)
    have inside: "in_part ((n # ns) ! k) vcn \<longrightarrow> unat s \<le> vcn \<and> vcn < chain_end e ns" if "k < Suc (length ns)" for k
      using IH(1) that first e(3) whole(2) by (cases k) fastforce+
    have unique: "\<exists>!k. k < Suc (length ns) \<and> in_part ((n # ns) ! k) vcn" if v: "unat s \<le> vcn" "vcn < chain_end e ns"
    proof (cases "vcn < e")
      case True
      show ?thesis
      proof (rule ex1I [of _ 0])
        show "0 < Suc (length ns) \<and> in_part ((n # ns) ! 0) vcn" using True v first by simp
        show "k = 0" if "k < Suc (length ns) \<and> in_part ((n # ns) ! k) vcn" for k
          using that IH(1) True by (cases k) auto
      qed
    next
      case False
      then have "\<exists>!k. k < length ns \<and> in_part (ns ! k) vcn" using IH(2) v(2) by (simp only: not_less)
      then obtain k where k: "(k < length ns \<and> in_part (ns ! k) vcn) \<and> (\<forall>j. j < length ns \<and> in_part (ns ! j) vcn \<longrightarrow> j = k)"
        unfolding Ex1_def by (rule exE)
      show ?thesis
      proof (rule ex1I [of _ "Suc k"])
        show "Suc k < Suc (length ns) \<and> in_part ((n # ns) ! Suc k) vcn" using k by simp
        show "j = Suc k" if "j < Suc (length ns) \<and> in_part ((n # ns) ! j) vcn" for j
          using that k first False by (cases j) auto
      qed
    qed
    show ?case using inside unique whole(1) by simp
  qed
  then show "k < length ns \<Longrightarrow> in_part (ns ! k) vcn \<Longrightarrow> unat s \<le> vcn \<and> vcn < chain_end (unat s) ns"
    and "unat s \<le> vcn \<Longrightarrow> vcn < chain_end (unat s) ns \<Longrightarrow> \<exists>!k. k < length ns \<and> in_part (ns ! k) vcn" by blast+
qed

lemma merged_total:
  "chain_contiguous (AttrTotalClusters a) ns \<Longrightarrow> \<forall>n \<in> set ns. stream_part V n \<Longrightarrow>
     unat (AttrTotalClusters (foldl AttrAppendRuns a ns)) = chain_end (unat (AttrTotalClusters a)) ns"
proof (induction ns arbitrary: a)
  case (Cons n ns)
  have n: "stream_part V n" "GetStartVcn n = AttrTotalClusters a" using Cons.prems by simp_all
  have "AttrTotalClusters (AttrAppendRuns a n) = AttrTotalClusters a + AttrTotalClusters n"
    by (simp add: AttrTotalClusters_def TotalClusters_def AttrAppendRuns_def AppendRuns_def)
  moreover have both: "unat (AttrTotalClusters a) + unat (AttrTotalClusters n) = unat (GetLastVcn n + 1)"
    using stream_part_total [OF n(1)] n(2) stream_part_end [OF n(1)] by simp
  moreover from this have "unat (AttrTotalClusters a + AttrTotalClusters n) = unat (GetLastVcn n + 1)"
    using unat_u64_bound [of "GetLastVcn n + 1"] by (subst unat_u64_add) simp_all
  ultimately have total: "AttrTotalClusters (AttrAppendRuns a n) = GetLastVcn n + 1" by (simp add: word_unat_eq_iff)
  from Cons.IH [of "AttrAppendRuns a n"] Cons.prems show ?case by (simp add: chain_end_def total both [symmetric])
qed (simp add: chain_end_def)

section \<open>The merge\<close>

text \<open>
  C6. Merging attributes that the constructor makes of headers with a first VCN at most the last one and
  a last VCN below 2^64 - 1 (C23 shows what a part without that does): where the merge does something,
  the parts cover the VCNs from 0 to the size of the merged stream without a gap or an overlap, each VCN
  in exactly one of them, and the attribute kept is one whose reads are exact: each VCN of each part is
  the cluster, or the hole, it was in that part. The other attributes of the slot are as they were, and
  the absorbed parts are the ones to erase.
\<close>

theorem merged_stream_exact:
  assumes "MergeStreamChain attrs indices [] = Inr (attrs', erased)" "erased \<noteq> []" "geometry_ok V"
    and parts: "\<forall>i \<in> set indices. i < length attrs \<and> (\<exists>n. stream_of (attrs ! i) = Some n \<and> stream_part V n)"
  shows "\<exists>k merged. k \<in> set indices \<and> insert k (set erased) = set indices \<and>
    attrs' = attrs[k := set_stream merged (attrs ! k)] \<and> built V merged \<and>
    Some (na_header merged) = map_option na_header (stream_of (attrs ! k)) \<and> hn_start_vcn (na_header merged) = 0 \<and>
    (\<forall>vcn < unat (AttrTotalClusters merged). \<exists>!i. i \<in> set indices \<and> (\<exists>n. stream_of (attrs ! i) = Some n \<and> in_part n vcn)) \<and>
    (\<forall>i \<in> set indices. \<forall>n. stream_of (attrs ! i) = Some n \<longrightarrow> unat (GetLastVcn n) < unat (AttrTotalClusters merged)) \<and>
    (\<forall>i \<in> set indices. \<forall>n vcn. stream_of (attrs ! i) = Some n \<longrightarrow> unat (GetStartVcn n) \<le> vcn \<and> vcn \<le> unat (GetLastVcn n) \<longrightarrow>
       cluster_at (rl_runs (na_runs merged)) vcn = cluster_at (rl_runs (na_runs n)) (vcn - unat (GetStartVcn n)))"
proof -
  define sorted where "sorted = sort_key (start_vcn_of attrs) indices"
  have set_sorted: "set sorted = set indices" by (simp add: sorted_def)
  define ns where "ns = map (the \<circ> (\<lambda>i. stream_of (attrs ! i))) sorted"
  have those: "those (map (\<lambda>i. stream_of (attrs ! i)) sorted) = Some ns"
    unfolding ns_def using parts set_sorted by (intro those_map) auto
  obtain keeper rest where ns: "ns = keeper # rest" and chain: "chain_contiguous 0 (keeper # rest)"
    and result: "attrs' = attrs[hd sorted := set_stream (foldl AttrAppendRuns keeper rest) (attrs ! hd sorted)]" "erased = tl sorted"
    using assms(1,2) those by (auto simp: MergeStreamChain_def Let_def sorted_def [symmetric] split: list.splits if_splits)
  obtain k ks where k: "sorted = k # ks" using ns by (cases sorted) (simp_all add: ns_def)
  have all: "\<forall>n \<in> set ns. stream_part V n" using parts set_sorted by (force simp: ns_def)
  have part: "stream_part V keeper" using all ns by simp
  have start: "GetStartVcn keeper = 0" using chain by simp
  have total: "unat (AttrTotalClusters keeper) = unat (GetLastVcn keeper) + 1" "AttrTotalClusters keeper \<noteq> 0"
    using stream_part_total [OF part] start by simp_all
  have "GetLastVcn keeper < u64_max" using part by (simp add: stream_part_def less_le)
  then have "AttrTotalClusters keeper = GetLastVcn keeper + 1" using total by (simp add: word_unat_eq_iff unat_u64_add u64_less_nat)
  then have rest: "chain_contiguous (AttrTotalClusters keeper) rest" using chain by simp
  let ?m = "foldl AttrAppendRuns keeper rest"
  have merged: "built V ?m \<and> na_header ?m = na_header keeper \<and>
    (\<forall>w < unat (AttrTotalClusters keeper). cluster_at (rl_runs (na_runs ?m)) w = cluster_at (rl_runs (na_runs keeper)) w) \<and>
    (\<forall>n \<in> set rest. \<forall>w < unat (AttrTotalClusters n). cluster_at (rl_runs (na_runs ?m)) (unat (GetStartVcn n) + w) = cluster_at (rl_runs (na_runs n)) w)"
    using all ns built_ok [OF assms(3) stream_part_built [OF part]]
    by (intro foldl_merged [OF stream_part_built [OF part] _ total(2) assms(3) _ rest]) simp_all
  have "cluster_at (rl_runs (na_runs ?m)) vcn = cluster_at (rl_runs (na_runs n)) (vcn - unat (GetStartVcn n))"
    if n: "n \<in> set ns" and vcn: "unat (GetStartVcn n) \<le> vcn" "vcn \<le> unat (GetLastVcn n)" for n vcn
  proof -
    have "vcn - unat (GetStartVcn n) < unat (AttrTotalClusters n)" using stream_part_total [of V n] all n vcn by force
    moreover have "vcn = unat (GetStartVcn n) + (vcn - unat (GetStartVcn n))" using vcn by simp
    ultimately show ?thesis using merged n ns start by (cases "n = keeper") (simp, metis set_ConsD)
  qed
  moreover have "n \<in> set ns" if "i \<in> set indices" "stream_of (attrs ! i) = Some n" for i n
    using that set_sorted by (force simp: ns_def)
  moreover have "stream_of (attrs ! k) = Some keeper" using those ns k by (auto split: option.splits)
  moreover have total_m: "unat (AttrTotalClusters ?m) = chain_end 0 ns"
    using merged_total [OF rest, of V] all ns total(1) stream_part_end [OF part] start
    by (simp add: chain_end_def)
  note covers = chain_covers [OF chain [folded ns] all, unfolded unat_0]
  have nth: "stream_of (attrs ! (sorted ! j)) = Some (ns ! j)" if "j < length sorted" for j
    using parts set_sorted nth_mem [OF that] that by (fastforce simp: ns_def)
  have len: "length ns = length sorted" by (simp add: ns_def)
  have "\<exists>!i. i \<in> set indices \<and> (\<exists>n. stream_of (attrs ! i) = Some n \<and> in_part n vcn)" if vcn: "vcn < unat (AttrTotalClusters ?m)" for vcn
  proof -
    obtain j where "(j < length ns \<and> in_part (ns ! j) vcn) \<and> (\<forall>j'. j' < length ns \<and> in_part (ns ! j') vcn \<longrightarrow> j' = j)"
      using covers(2) [OF le0 vcn [unfolded total_m]] unfolding Ex1_def by (rule exE)
    then have j: "j < length ns" "in_part (ns ! j) vcn" "\<forall>j'. j' < length ns \<and> in_part (ns ! j') vcn \<longrightarrow> j' = j" by blast+
    show ?thesis
    proof (rule ex1I [of _ "sorted ! j"])
      show "sorted ! j \<in> set indices \<and> (\<exists>n. stream_of (attrs ! (sorted ! j)) = Some n \<and> in_part n vcn)"
        using j(1,2) nth len set_sorted nth_mem [of j sorted] by auto
      show "i = sorted ! j" if i: "i \<in> set indices \<and> (\<exists>n. stream_of (attrs ! i) = Some n \<and> in_part n vcn)" for i
      proof -
        obtain j' where j': "j' < length sorted" "i = sorted ! j'" using i set_sorted by (metis in_set_conv_nth)
        then have "in_part (ns ! j') vcn" using i nth [OF j'(1)] by auto
        then have "j' = j" using j(3) j'(1) len by simp
        then show ?thesis using j'(2) by simp
      qed
    qed
  qed
  moreover have "unat (GetLastVcn n) < unat (AttrTotalClusters ?m)" if i: "i \<in> set indices" "stream_of (attrs ! i) = Some n" for i n
  proof -
    obtain j where j: "j < length sorted" "i = sorted ! j" using i(1) set_sorted by (metis in_set_conv_nth)
    then have "n = ns ! j" using nth i(2) by simp
    moreover have "stream_part V (ns ! j)" using all j(1) len by simp
    then have "in_part (ns ! j) (unat (GetLastVcn (ns ! j)))" by (simp add: in_part_def stream_part_def u64_le_nat)
    ultimately show ?thesis using covers(1) [of j] j(1) len total_m by simp
  qed
  moreover have "k \<in> set indices" "insert k (set erased) = set indices" "hd sorted = k"
    using result(2) k set_sorted by auto
  moreover have "hn_start_vcn (na_header ?m) = 0" using merged start by (simp add: GetStartVcn_def)
  ultimately show ?thesis
    using merged result(1) by (intro exI [of _ k] exI [of _ ?m] conjI) simp_all
qed

text \<open>Two parts on the volume of StreamReads: VCNs 0 and 1 at LCN 3, VCN 2 at LCN 7.\<close>

definition second_header :: header_non_resident where
  "second_header = sample_stream_header\<lparr>hn_start_vcn := 2, hn_last_vcn := 2\<rparr>"

definition second_attr :: nr_attr where
  "second_attr = sample_attr\<lparr>na_header := second_header,
     na_runs := \<lparr>rl_runs = [\<lparr>re_lcn = Some 7, re_clusters = 1, re_start_vcn = 0, re_last_vcn = 0\<rparr>], rl_clusters = 1\<rparr>\<rparr>"

lemma second_attr_made: "AttrNonResident sample_volume second_header [0x11, 1, 7, 0] False None = Inr second_attr"
proof -
  have "ParseDataRun second_header [0x11, 1, 7, 0] False = Inr (na_runs second_attr)" by code_simp
  then show ?thesis
    by (simp add: AttrNonResident_def second_attr_def sample_attr_def second_header_def sample_stream_header_def sample_volume_def HasCompressedSizeField_def)
qed

definition as_attribute :: "nr_attr \<Rightarrow> attribute" where
  "as_attribute n = \<lparr>at_header = \<lparr>hc_type = 0x80, hc_total_size = 72, hc_non_resident = 1, hc_name_length = 0, hc_name_offset = 0,
     hc_flags = 0, hc_id = 0\<rparr>, at_bytes = replicate 72 0, at_body = NonResidentBody n, at_class = DataAttr\<rparr>"

lemma stream_of_as_attribute [simp]: "stream_of (as_attribute n) = Some n"
  by (simp add: stream_of_def as_attribute_def)

lemma merged_stream_exact_witness:
  "\<exists>merged. built sample_volume merged \<and> cluster_at (rl_runs (na_runs merged)) 2 = Some (Some 7)"
proof -
  define parts where "parts = [as_attribute second_attr, as_attribute sample_attr]"
  have merge: "MergeStreamChain parts [0, 1] [] =
      Inr (parts[1 := set_stream (AttrAppendRuns sample_attr second_attr) (as_attribute sample_attr)], [0])"
    by (simp add: MergeStreamChain_def parts_def start_vcn_of_def GetStartVcn_def GetLastVcn_def second_attr_def second_header_def
        sample_attr_def sample_stream_header_def)
  have "stream_part sample_volume sample_attr" "stream_part sample_volume second_attr"
    using sample_attr_made second_attr_made
    by (auto simp: stream_part_def GetStartVcn_def GetLastVcn_def second_attr_def second_header_def sample_attr_def sample_stream_header_def)
  then have valid: "\<forall>i \<in> set [0, 1]. i < length parts \<and> (\<exists>n. stream_of (parts ! i) = Some n \<and> stream_part sample_volume n)"
    by (simp add: parts_def)
  have "[0 :: nat] \<noteq> []" "geometry_ok sample_volume" by (simp_all add: geometry_ok_def sample_volume_def)
  from merged_stream_exact [OF merge this valid] obtain merged where merged: "built sample_volume merged"
    "\<forall>i \<in> set [0, 1]. \<forall>n vcn. stream_of (parts ! i) = Some n \<longrightarrow> unat (GetStartVcn n) \<le> vcn \<and> vcn \<le> unat (GetLastVcn n) \<longrightarrow>
       cluster_at (rl_runs (na_runs merged)) vcn = cluster_at (rl_runs (na_runs n)) (vcn - unat (GetStartVcn n))"
    by blast
  have "cluster_at (rl_runs (na_runs second_attr)) 0 = Some (Some 7)" by (simp add: cluster_at_def covers_def second_attr_def)
  moreover have "stream_of (parts ! 0) = Some second_attr" "GetStartVcn second_attr = 2" "GetLastVcn second_attr = 2"
    by (simp_all add: parts_def GetStartVcn_def GetLastVcn_def second_attr_def second_header_def)
  ultimately have "cluster_at (rl_runs (na_runs merged)) 2 = Some (Some 7)" using merged(2) by simp
  then show ?thesis using merged(1) by blast
qed

section \<open>A merge after which a read does not return\<close>

definition recovering :: "block_cache option volume" where
  "recovering = sample_volume\<lparr>vol_recover_errors := True\<rparr>"

definition hollow_header :: header_non_resident where
  "hollow_header = sample_stream_header\<lparr>hn_last_vcn := u64_max\<rparr>"

definition hollow_attr :: nr_attr where
  "hollow_attr = sample_attr\<lparr>na_header := hollow_header, na_runs := hollow_runs\<rparr>"

lemma hollow_attr_made: "AttrNonResident recovering hollow_header [0x01, 0, 0] False None = Inr hollow_attr"
  using hollow_runs_made
  by (simp add: AttrNonResident_def ParseDataRun_inside hollow_attr_def hollow_header_def sample_attr_def sample_stream_header_def recovering_def
      sample_volume_def HasCompressedSizeField_def VcnSpan_def SpannedClusters_def)

text \<open>
  C23. A part whose header declares the VCNs 0 to 2^64 - 1, none of them mapped, is merged with a part
  that starts at VCN 0, because the VCN expected after it wraps to 0. The merged stream then answers
  every VCN with a run of no clusters, and its first read does not return, whatever was read before.
\<close>

theorem merge_may_hide_stream:
  "AttrNonResident recovering hollow_header [0x01, 0, 0] False None = Inr hollow_attr \<and>
   (\<exists>merged. MergeStreamChain [as_attribute hollow_attr, as_attribute sample_attr] [0, 1] [] =
        Inr ([set_stream merged (as_attribute hollow_attr), as_attribute sample_attr], [1]) \<and>
      (\<forall>st. ReadData recovering merged 0 (replicate 256 0) st = None))"
proof (intro conjI exI allI)
  let ?merged = "AttrAppendRuns hollow_attr sample_attr"
  show "MergeStreamChain [as_attribute hollow_attr, as_attribute sample_attr] [0, 1] [] =
        Inr ([set_stream ?merged (as_attribute hollow_attr), as_attribute sample_attr], [1])"
    by (simp add: MergeStreamChain_def start_vcn_of_def GetStartVcn_def GetLastVcn_def hollow_attr_def hollow_header_def
        sample_attr_def sample_stream_header_def)
  show "ReadData recovering ?merged 0 (replicate 256 0) st = None" for st
  proof -
    have "rl_runs (na_runs ?merged) = rl_runs hollow_runs @ [\<lparr>re_lcn = Some 3, re_clusters = 2, re_start_vcn = 0, re_last_vcn = 1\<rparr>]"
      by (simp add: AttrAppendRuns_def AppendRuns_def hollow_attr_def sample_attr_def hollow_runs_def)
    then have loop: "raw_loop recovering ?merged 0 1 0 [] out st = None" for out st by (rule hollow_loop) simp
    have merged: "hn_real_size (na_header ?merged) = 300" "hn_ini_size (na_header ?merged) = 260" "na_comp_unit_clusters ?merged = 0"
      "AttrTotalClusters ?merged = 2" "cluster_bytes_of recovering = 256"
      by (simp_all add: AttrAppendRuns_def AppendRuns_def hollow_attr_def hollow_header_def sample_attr_def sample_stream_header_def
          AttrTotalClusters_def TotalClusters_def hollow_runs_def cluster_bytes_of_def recovering_def sample_volume_def)
    have "ReadVirtualClusters recovering ?merged 0 1 out st = None" for out st
      using loop merged by (simp add: ReadVirtualClusters_def ReadVirtualClustersRaw_def)
    then have "ReadFromClusterStart recovering ?merged 0 (replicate 256 0) st = None" for st
      using merged by (simp add: ReadFromClusterStart_def)
    then have "ReadDataBounded recovering ?merged 0 (replicate 256 0) 300 st = None" for st
      using merged by (simp add: ReadDataBounded_def ReadLeadingPart_def)
    then show ?thesis using merged by (simp add: ReadData_def Let_def)
  qed
qed (rule hollow_attr_made)

text \<open>
  Recovering, a stream whose name lies outside its attribute is kept under the name of the unnamed
  stream, so that the two count as parts of one stream.
\<close>

lemma unreadable_name_groups_with_unnamed:
  assumes "name_exceeds_bounds (at_header b)" "IsUnNamed a" "IsNonResident a" "IsNonResident b"
  shows "GroupNonResidentByName [a, b] = Inr [([], [0, 1])]"
  using assms by (simp add: GroupNonResidentByName_def GetAttrName_def Let_def IsUnNamed_def)

end
