(* ===== verification/ExtentMap.thy ===== *)
theory ExtentMap
  imports StreamMerge
begin

text \<open>
  Where $MFT lies: src/mft/extent-map.cpp, class ExtentMap. The base extent of $MFT's own DATA
  attribute and its continuations, sorted by VCN; every other file record is read through it. An
  extent keeps its attribute by value, and what the reads of the attribute remember (its units, per
  extent) is part of the state of a read. The std::upper_bound of a sorted list is the length of its
  longest prefix that does not exceed the key.
\<close>

section \<open>The map\<close>

record map_extent =
  mx_start :: u64
  mx_last :: u64
  mx_attr :: nr_attr

record extent_map =
  xm_cluster_size :: u32
  xm_record_size :: u32
  xm_base :: "attribute option"
  xm_extents :: "map_extent list"

abbreviation map_cluster :: "extent_map \<Rightarrow> u64" where
  "map_cluster m \<equiv> ucast (xm_cluster_size m)"

definition new_extent_map :: "u32 \<Rightarrow> u32 \<Rightarrow> extent_map" where
  "new_extent_map cluster_bytes file_record_size =
     \<lparr>xm_cluster_size = cluster_bytes, xm_record_size = file_record_size, xm_base = None, xm_extents = []\<rparr>"

definition HasBase :: "extent_map \<Rightarrow> bool" where
  "HasBase m \<longleftrightarrow> xm_base m \<noteq> None"

definition upper_bound :: "u64 \<Rightarrow> map_extent list \<Rightarrow> nat" where
  "upper_bound vcn xs = length (takeWhile (\<lambda>e. mx_start e \<le> vcn) xs)"

text \<open>
  A resident attribute, or a cluster of no bytes, is undefined behaviour here. The queries below divide
  by the sizes without a check: they are those of a map that holds a base.
\<close>

definition TryAdd :: "attribute \<Rightarrow> u64 \<Rightarrow> extent_map \<Rightarrow> attr_error + extent_map" where
  "TryAdd a expected_start_vcn m =
    (if \<not> IsUnNamed a then Inr m
     else
       case stream_of a of
         None \<Rightarrow> Inl AttrUndefined
       | Some n \<Rightarrow>
           let start_vcn = GetStartVcn n; last_vcn = GetLastVcn n; xs = xm_extents m
           in if start_vcn > last_vcn then Inr m
              else if xm_cluster_size m = 0 then Inl AttrUndefined
              else if last_vcn \<ge> u64_max div map_cluster m then Inr m
              else if expected_start_vcn \<noteq> u64_max \<and> start_vcn \<noteq> expected_start_vcn then Inr m
              else
                let pos = upper_bound start_vcn xs;
                    overlaps_previous = (pos \<noteq> 0 \<and> mx_last (xs ! (pos - 1)) \<ge> start_vcn);
                    overlaps_next = (pos \<noteq> length xs \<and> mx_start (xs ! pos) \<le> last_vcn)
                in if overlaps_previous \<or> overlaps_next then Inr m
                   else Inr (m\<lparr>xm_extents := take pos xs @ [\<lparr>mx_start = start_vcn, mx_last = last_vcn, mx_attr = n\<rparr>] @ drop pos xs\<rparr>))"

definition SetBase :: "attribute \<Rightarrow> extent_map \<Rightarrow> attr_error + extent_map" where
  "SetBase base m = TryAdd base u64_max (m\<lparr>xm_base := Some base\<rparr>)"

definition FindExtent :: "extent_map \<Rightarrow> u64 \<Rightarrow> map_extent option" where
  "FindExtent m vcn =
    (let pos = upper_bound vcn (xm_extents m)
     in if pos = 0 then None
        else let candidate = xm_extents m ! (pos - 1) in if mx_last candidate \<ge> vcn then Some candidate else None)"

section \<open>Queries\<close>

partial_function (option) range_mapped_loop :: "extent_map \<Rightarrow> u64 \<Rightarrow> u64 \<Rightarrow> bool option" where
  "range_mapped_loop m offset stop =
    (if \<not> offset < stop then Some True
     else case FindExtent m (offset div map_cluster m) of
            None \<Rightarrow> Some False
          | Some e \<Rightarrow> range_mapped_loop m ((mx_last e + 1) * map_cluster m) stop)"

text \<open>IsRangeMapped(); its assert is a branch.\<close>

definition IsRangeMapped :: "extent_map \<Rightarrow> u64 \<Rightarrow> u64 \<Rightarrow> (attr_error + bool) option" where
  "IsRangeMapped m byte_offset len =
    (if xm_cluster_size m = 0 \<or> len = 0 then Some (Inl AttrUndefined)
     else map_option Inr (range_mapped_loop m byte_offset (byte_offset + len)))"

text \<open>What the reads change: the volume, its scratch buffer, and per extent what its attribute keeps.\<close>

record 'v map_state =
  mp_volume :: 'v
  mp_buffer :: "byte list"
  mp_units :: "u64 \<Rightarrow> u64 \<Rightarrow> byte list option"
  mp_checked :: "u64 \<Rightarrow> bool"

definition extent_state :: "map_extent \<Rightarrow> 'v map_state \<Rightarrow> 'v nr_state" where
  "extent_state e st = \<lparr>ns_volume = mp_volume st, ns_cluster_buffer = mp_buffer st, ns_units = mp_units st (mx_start e),
     ns_alloc_checked = mp_checked st (mx_start e)\<rparr>"

definition keep_state :: "map_extent \<Rightarrow> 'v nr_state \<Rightarrow> 'v map_state \<Rightarrow> 'v map_state" where
  "keep_state e s st = st\<lparr>mp_volume := ns_volume s, mp_buffer := ns_cluster_buffer s,
     mp_units := (mp_units st)(mx_start e := ns_units s), mp_checked := (mp_checked st)(mx_start e := ns_alloc_checked s)\<rparr>"

definition bytes_left :: "extent_map \<Rightarrow> map_extent \<Rightarrow> u64 \<Rightarrow> u64 \<Rightarrow> u64" where
  "bytes_left m e current_offset remaining =
    (let available_in_extent = (mx_last e + 1) * map_cluster m - current_offset
     in if remaining < available_in_extent then remaining else available_in_extent)"

partial_function (option) map_read_loop ::
  "'v volume \<Rightarrow> extent_map \<Rightarrow> u64 \<Rightarrow> byte list \<Rightarrow> byte list \<Rightarrow> 'v map_state \<Rightarrow> (read_end \<times> byte list \<times> 'v map_state) option" where
  "map_read_loop V m current_offset written out st =
    (if out = [] then Some (Answers (Some (of_nat (length written))), written, st)
     else case FindExtent m (current_offset div map_cluster m) of
            None \<Rightarrow> Some (Answers None, written @ out, st)
          | Some e \<Rightarrow>
              let to_read = bytes_left m e current_offset (of_nat (length out));
                  n = unat to_read
              in do {
                   (len, part, s) \<leftarrow> ReadExtentData V (mx_attr e) (current_offset - mx_start e * map_cluster m) (take n out) (extent_state e st);
                   let st = keep_state e s st;
                   case len of
                     Throws \<Rightarrow> Some (Throws, written @ part @ drop n out, st)
                   | Answers l \<Rightarrow>
                       if l \<noteq> Some to_read then Some (Answers None, written @ part @ drop n out, st)
                       else map_read_loop V m (current_offset + to_read) (written @ part) (drop n out) st
                 })"

definition MapReadData ::
  "'v volume \<Rightarrow> extent_map \<Rightarrow> u64 \<Rightarrow> byte list \<Rightarrow> 'v map_state \<Rightarrow> (read_end \<times> byte list \<times> 'v map_state) option" where
  "MapReadData V m offset buffer st = map_read_loop V m offset [] buffer st"

partial_function (option) disk_ranges_loop ::
  "'v volume \<Rightarrow> extent_map \<Rightarrow> u64 \<Rightarrow> u64 \<Rightarrow> (u64 \<times> u64) list \<Rightarrow> (u64 \<times> u64) list option" where
  "disk_ranges_loop V m current_offset remaining ranges =
    (if remaining = 0 then Some ranges
     else case FindExtent m (current_offset div map_cluster m) of
            None \<Rightarrow> Some ranges
          | Some e \<Rightarrow>
              let to_read = bytes_left m e current_offset remaining
              in do {
                   runs \<leftarrow> ExtentsOfRange V (mx_attr e) (current_offset - mx_start e * map_cluster m) to_read;
                   disk_ranges_loop V m (current_offset + to_read) (remaining - to_read)
                     (ranges @ map (\<lambda>run. (ex_lcn run * map_cluster m, ex_clusters run * map_cluster m)) runs)
                 })"

definition DiskRangesOf :: "'v volume \<Rightarrow> extent_map \<Rightarrow> u64 \<Rightarrow> u64 \<Rightarrow> (u64 \<times> u64) list option" where
  "DiskRangesOf V m offset len = disk_ranges_loop V m offset len []"

definition RecordCount :: "extent_map \<Rightarrow> u64" where
  "RecordCount m =
    (case xm_base m of
       None \<Rightarrow> 0
     | Some base \<Rightarrow>
         let mapped_bytes = foldl (\<lambda>mapped e. max mapped ((mx_start e + AttrMappedClusters (mx_attr e)) * map_cluster m))
               (first_user_idx * ucast (xm_record_size m)) (xm_extents m)
         in min (AttrDataSize base) mapped_bytes div ucast (xm_record_size m))"

section \<open>What the map accepts\<close>

definition map_ok :: "extent_map \<Rightarrow> bool" where
  "map_ok m \<longleftrightarrow> xm_cluster_size m \<noteq> 0 \<and> sorted_wrt (\<lambda>a b. mx_last a < mx_start b) (xm_extents m) \<and>
     (\<forall>e \<in> set (xm_extents m). mx_start e \<le> mx_last e \<and> mx_last e < u64_max div map_cluster m \<and>
        GetStartVcn (mx_attr e) = mx_start e \<and> GetLastVcn (mx_attr e) = mx_last e)"

lemma extents_split:
  fixes vcn :: u64
  assumes "map_ok m"
  defines "pos \<equiv> upper_bound vcn (xm_extents m)"
  shows "\<forall>e \<in> set (take pos (xm_extents m)). mx_start e \<le> vcn"
    and "\<forall>e \<in> set (drop pos (xm_extents m)). vcn < mx_start e"
proof -
  let ?xs = "xm_extents m"
  have split: "take pos ?xs = takeWhile (\<lambda>e. mx_start e \<le> vcn) ?xs" "drop pos ?xs = dropWhile (\<lambda>e. mx_start e \<le> vcn) ?xs"
    by (simp_all add: pos_def upper_bound_def takeWhile_eq_take [symmetric] dropWhile_eq_drop [symmetric])
  show "\<forall>e \<in> set (take pos ?xs). mx_start e \<le> vcn" unfolding split by (auto dest: set_takeWhileD)
  show "\<forall>e \<in> set (drop pos ?xs). vcn < mx_start e"
  proof (cases "dropWhile (\<lambda>e. mx_start e \<le> vcn) ?xs")
    case (Cons f fs)
    have first: "vcn < mx_start f" using Cons hd_dropWhile [of "\<lambda>e. mx_start e \<le> vcn" ?xs] by (simp add: not_le)
    have "sorted_wrt (\<lambda>a b. mx_last a < mx_start b) (drop pos ?xs)" "mx_start f \<le> mx_last f"
      using assms(1) Cons split(2) sorted_wrt_drop [of _ ?xs pos] set_drop_subset [of pos ?xs] by (auto simp: map_ok_def)
    then have "mx_start f < mx_start g" if "g \<in> set fs" for g using Cons split(2) that by (auto intro: order.strict_trans1)
    then show ?thesis using first split(2) Cons by (auto intro: order.strict_trans)
  next
    case Nil
    then show ?thesis unfolding split(2) by (simp del: dropWhile_eq_Nil_conv)
  qed
qed

lemma map_disjoint:
  assumes "map_ok m" "e \<in> set (xm_extents m)" "f \<in> set (xm_extents m)" "mx_start e \<le> v" "v \<le> mx_last e" "mx_start f \<le> v" "v \<le> mx_last f"
  shows "e = f"
proof -
  obtain i j where ij: "i < length (xm_extents m)" "xm_extents m ! i = e" "j < length (xm_extents m)" "xm_extents m ! j = f"
    using assms(2,3) by (auto simp: in_set_conv_nth)
  have sorted: "sorted_wrt (\<lambda>a b. mx_last a < mx_start b) (xm_extents m)" using assms(1) by (simp add: map_ok_def)
  have "\<not> i < j" using sorted_wrt_nth_less [OF sorted, of i j] ij assms(5,6) by auto
  moreover have "\<not> j < i" using sorted_wrt_nth_less [OF sorted, of j i] ij assms(4,7) by auto
  ultimately show ?thesis using ij by (cases i j rule: linorder_cases) auto
qed

lemma FindExtent_exact:
  assumes ok: "map_ok m"
  shows "FindExtent m v = Some e \<longleftrightarrow> e \<in> set (xm_extents m) \<and> mx_start e \<le> v \<and> v \<le> mx_last e"
proof -
  define pos where "pos = upper_bound v (xm_extents m)"
  let ?xs = "xm_extents m"
  note split = extents_split [OF ok, of v, folded pos_def]
  have pos: "pos \<le> length ?xs" by (simp add: pos_def upper_bound_def length_takeWhile_le)
  have found: "c \<in> set ?xs \<and> mx_start c \<le> v" if "pos \<noteq> 0" "c = ?xs ! (pos - 1)" for c
  proof -
    have "c \<in> set (take pos ?xs)" using that pos by (auto simp: in_set_conv_nth intro!: exI [of _ "pos - 1"])
    then show ?thesis using split(1) by (auto dest: in_set_takeD)
  qed
  show ?thesis
  proof
    assume "FindExtent m v = Some e"
    then show "e \<in> set ?xs \<and> mx_start e \<le> v \<and> v \<le> mx_last e"
      using found by (auto simp: FindExtent_def pos_def [symmetric] Let_def split: if_splits)
  next
    assume e: "e \<in> set ?xs \<and> mx_start e \<le> v \<and> v \<le> mx_last e"
    then have "e \<notin> set (drop pos ?xs)" using split(2) by (auto simp: not_less)
    then have "e \<in> set (take pos ?xs)" using e set_append [of "take pos ?xs" "drop pos ?xs"] by auto
    then obtain i where i: "i < pos" "?xs ! i = e" using pos by (auto simp: in_set_conv_nth)
    have "i = pos - 1"
    proof (rule ccontr)
      assume "i \<noteq> pos - 1"
      then have "i < pos - 1" using i(1) by simp
      then have "mx_last e < mx_start (?xs ! (pos - 1))"
        using i pos sorted_wrt_nth_less [OF conjunct1 [OF conjunct2 [OF ok [unfolded map_ok_def]]], of i "pos - 1"] by auto
      moreover have "mx_start (?xs ! (pos - 1)) \<le> v" using found [OF _ refl] i(1) by simp
      ultimately have "mx_last e < v" by (rule order.strict_trans2)
      then show False using e by (simp add: not_le [symmetric])
    qed
    then show "FindExtent m v = Some e" using i e by (simp add: FindExtent_def pos_def [symmetric] Let_def)
  qed
qed

lemma FindExtent_None: "map_ok m \<Longrightarrow> FindExtent m v = None \<longleftrightarrow> (\<forall>e \<in> set (xm_extents m). \<not> (mx_start e \<le> v \<and> v \<le> mx_last e))"
  using FindExtent_exact [of m v] by (metis not_None_eq)

text \<open>The ranges of VCNs two extents take have one in common.\<close>

definition meets :: "u64 \<Rightarrow> u64 \<Rightarrow> map_extent \<Rightarrow> bool" where
  "meets first_vcn last_vcn e \<longleftrightarrow> first_vcn \<le> mx_last e \<and> mx_start e \<le> last_vcn"

lemma TryAdd_step:
  assumes ok: "map_ok m" and a: "IsUnNamed a" "stream_of a = Some n"
    and fit: "GetStartVcn n \<le> GetLastVcn n" "GetLastVcn n < u64_max div map_cluster m"
    and expected: "expected = u64_max \<or> GetStartVcn n = expected"
  shows "\<exists>m'. TryAdd a expected m = Inr m' \<and> map_ok m' \<and> xm_base m' = xm_base m \<and> xm_cluster_size m' = xm_cluster_size m \<and>
    xm_record_size m' = xm_record_size m \<and> set (xm_extents m') =
      (if \<exists>e \<in> set (xm_extents m). meets (GetStartVcn n) (GetLastVcn n) e then set (xm_extents m)
       else insert \<lparr>mx_start = GetStartVcn n, mx_last = GetLastVcn n, mx_attr = n\<rparr> (set (xm_extents m)))"
proof -
  let ?xs = "xm_extents m" and ?s = "GetStartVcn n" and ?l = "GetLastVcn n"
  define pos where "pos = upper_bound ?s ?xs"
  note split = extents_split [OF ok, of ?s, folded pos_def]
  have pos: "pos \<le> length ?xs" by (simp add: pos_def upper_bound_def length_takeWhile_le)
  have sorted: "sorted_wrt (\<lambda>a b. mx_last a < mx_start b) ?xs" and each: "\<forall>e \<in> set ?xs. mx_start e \<le> mx_last e"
    using ok by (simp_all add: map_ok_def)
  define prev where "prev = (pos \<noteq> 0 \<and> mx_last (?xs ! (pos - 1)) \<ge> ?s)"
  define nxt where "nxt = (pos \<noteq> length ?xs \<and> mx_start (?xs ! pos) \<le> ?l)"
  have before: "mx_last e < ?s" if none: "\<not> prev" and mem: "e \<in> set (take pos ?xs)" for e
  proof -
    obtain i where i: "i < pos" "?xs ! i = e" using mem pos by (auto simp: in_set_conv_nth)
    have last: "mx_last (?xs ! (pos - 1)) < ?s" using none i(1) by (simp add: prev_def not_le)
    show ?thesis
    proof (cases "i = pos - 1")
      case False
      then have "mx_last e < mx_start (?xs ! (pos - 1))" using i pos sorted_wrt_nth_less [OF sorted, of i "pos - 1"] by auto
      also have "\<dots> \<le> mx_last (?xs ! (pos - 1))" using each i(1) pos by simp
      finally show ?thesis using last by simp
    qed (use last i in simp)
  qed
  have after: "?l < mx_start e" if none: "\<not> nxt" and mem: "e \<in> set (drop pos ?xs)" for e
  proof -
    obtain i where "i < length (drop pos ?xs)" "drop pos ?xs ! i = e" using mem by (metis in_set_conv_nth)
    then have i: "pos + i < length ?xs" "?xs ! (pos + i) = e" by simp_all
    have first: "?l < mx_start (?xs ! pos)" using none i(1) by (simp add: nxt_def not_le)
    show ?thesis
    proof (cases "i = 0")
      case False
      then have "mx_last (?xs ! pos) < mx_start e" using i sorted_wrt_nth_less [OF sorted, of pos "pos + i"] by auto
      moreover have "mx_start (?xs ! pos) \<le> mx_last (?xs ! pos)" using each i(1) by simp
      ultimately show ?thesis using first by simp
    qed (use first i in simp)
  qed
  have halves: "set ?xs = set (take pos ?xs) \<union> set (drop pos ?xs)" by (metis append_take_drop_id set_append)
  have overlap: "(\<exists>e \<in> set ?xs. meets ?s ?l e) \<longleftrightarrow> prev \<or> nxt"
  proof
    assume "\<exists>e \<in> set ?xs. meets ?s ?l e"
    then show "prev \<or> nxt" using before after unfolding halves meets_def by (meson UnE not_le)
  next
    assume "prev \<or> nxt"
    then consider (p) prev | (n) nxt by blast
    then show "\<exists>e \<in> set ?xs. meets ?s ?l e"
    proof cases
      case p
      then have c: "?xs ! (pos - 1) \<in> set (take pos ?xs)" using pos by (auto simp: prev_def in_set_conv_nth intro!: exI [of _ "pos - 1"])
      then have "mx_start (?xs ! (pos - 1)) \<le> ?s" using split(1) by blast
      then show ?thesis using p c fit(1) in_set_takeD [OF c] by (auto simp: prev_def meets_def)
    next
      case n
      then have c: "?xs ! pos \<in> set (drop pos ?xs)" using pos by (auto simp: nxt_def in_set_conv_nth intro!: exI [of _ 0])
      then have "?s < mx_start (?xs ! pos)" using split(2) by blast
      moreover have "mx_start (?xs ! pos) \<le> mx_last (?xs ! pos)" using each in_set_dropD [OF c] by blast
      ultimately have "?s \<le> mx_last (?xs ! pos)" by (meson le_less_trans less_imp_le not_le)
      then show ?thesis using n in_set_dropD [OF c] by (auto simp: nxt_def meets_def)
    qed
  qed
  let ?e = "\<lparr>mx_start = ?s, mx_last = ?l, mx_attr = n\<rparr>"
  have added: "TryAdd a expected m = Inr (if prev \<or> nxt then m else m\<lparr>xm_extents := take pos ?xs @ [?e] @ drop pos ?xs\<rparr>)"
    using a fit expected ok by (auto simp: TryAdd_def Let_def pos_def [symmetric] prev_def nxt_def map_ok_def)
  show ?thesis
  proof (cases "prev \<or> nxt")
    case True
    then show ?thesis using added overlap ok by auto
  next
    case False
    have "sorted_wrt (\<lambda>a b. mx_last a < mx_start b) (take pos ?xs @ drop pos ?xs)" using sorted by simp
    then have "sorted_wrt (\<lambda>a b. mx_last a < mx_start b) (take pos ?xs @ [?e] @ drop pos ?xs)"
      using before after False by (auto simp: sorted_wrt_append simp del: append_take_drop_id)
    then have "map_ok (m\<lparr>xm_extents := take pos ?xs @ [?e] @ drop pos ?xs\<rparr>)"
      using ok fit by (auto simp: map_ok_def dest: in_set_takeD in_set_dropD)
    then show ?thesis using added overlap False halves by auto
  qed
qed

text \<open>The byte after a last VCN has an address exactly where the code's division says so.\<close>

lemma addressable:
  assumes "map_ok m"
  shows "last_vcn < u64_max div map_cluster m \<longleftrightarrow> (unat last_vcn + 1) * unat (xm_cluster_size m) < 2 ^ 64"
proof -
  have pos: "0 < unat (map_cluster m)" using assms by (simp add: map_ok_def unat_ucast_u32_u64 unat_gt_0)
  have "last_vcn < u64_max div map_cluster m \<longleftrightarrow> unat last_vcn + 1 \<le> 18446744073709551615 div unat (map_cluster m)"
    by (simp add: u64_less_nat unat_div Suc_le_eq)
  also have "\<dots> \<longleftrightarrow> (unat last_vcn + 1) * unat (map_cluster m) \<le> 18446744073709551615"
    by (rule less_eq_div_iff_mult_less_eq [OF pos])
  finally show ?thesis by (simp add: unat_ucast_u32_u64 less_Suc_eq_le [symmetric] del: mult_Suc)
qed

lemma TryAdd_refused:
  assumes "stream_of a = Some n"
    and "\<not> (IsUnNamed a \<and> GetStartVcn n \<le> GetLastVcn n \<and> GetLastVcn n < u64_max div map_cluster m \<and>
      (expected = u64_max \<or> GetStartVcn n = expected))" "map_ok m"
  shows "TryAdd a expected m = Inr m"
  using assms by (auto simp: TryAdd_def Let_def map_ok_def)

text \<open>
  C35. What TryAdd() accepts: a continuation is added exactly where it is unnamed, its range of VCNs is
  not inverted, the byte after its last cluster has a 64-bit address, it starts where its entry of the
  attribute list says (any start, where the entry is not known), and it meets no extent accepted before;
  else the map is as it was. Either way the extents stay sorted, disjoint and addressable.
\<close>

theorem extent_accepted_exactly:
  assumes "map_ok m" "stream_of a = Some n"
  shows "\<exists>m'. TryAdd a expected m = Inr m' \<and> map_ok m' \<and> xm_base m' = xm_base m \<and> xm_cluster_size m' = xm_cluster_size m \<and>
    xm_record_size m' = xm_record_size m \<and>
    (if IsUnNamed a \<and> GetStartVcn n \<le> GetLastVcn n \<and> (unat (GetLastVcn n) + 1) * unat (xm_cluster_size m) < 2 ^ 64 \<and>
        (expected = u64_max \<or> GetStartVcn n = expected) \<and> \<not> (\<exists>e \<in> set (xm_extents m). meets (GetStartVcn n) (GetLastVcn n) e)
     then set (xm_extents m') = insert \<lparr>mx_start = GetStartVcn n, mx_last = GetLastVcn n, mx_attr = n\<rparr> (set (xm_extents m))
     else set (xm_extents m') = set (xm_extents m))"
proof (cases "IsUnNamed a \<and> GetStartVcn n \<le> GetLastVcn n \<and> GetLastVcn n < u64_max div map_cluster m \<and>
    (expected = u64_max \<or> GetStartVcn n = expected)")
  case True
  then obtain m' where m': "TryAdd a expected m = Inr m'" "map_ok m'" "xm_base m' = xm_base m" "xm_cluster_size m' = xm_cluster_size m"
      "xm_record_size m' = xm_record_size m" "set (xm_extents m') =
        (if \<exists>e \<in> set (xm_extents m). meets (GetStartVcn n) (GetLastVcn n) e then set (xm_extents m)
         else insert \<lparr>mx_start = GetStartVcn n, mx_last = GetLastVcn n, mx_attr = n\<rparr> (set (xm_extents m)))"
    using TryAdd_step [OF assms(1), of a n expected] assms(2) by blast
  have room: "(unat (GetLastVcn n) + 1) * unat (xm_cluster_size m) < 2 ^ 64" using True addressable [OF assms(1)] by blast
  show ?thesis
    by (rule exI [of _ m'], cases "\<exists>e \<in> set (xm_extents m). meets (GetStartVcn n) (GetLastVcn n) e")
      (use m' True room in \<open>simp_all del: mult_Suc mult_Suc_right\<close>)
next
  case False
  then show ?thesis using TryAdd_refused [OF assms(2) False assms(1)] assms(1) by (auto simp: addressable [OF assms(1)])
qed

section \<open>What the map covers\<close>

text \<open>The extent that holds the byte at an offset of the stream, if one does.\<close>

definition extent_of :: "extent_map \<Rightarrow> nat \<Rightarrow> map_extent option" where
  "extent_of m offset = find (\<lambda>e. unat (mx_start e) \<le> offset div unat (map_cluster m) \<and> offset div unat (map_cluster m) \<le> unat (mx_last e)) (xm_extents m)"

lemma map_cluster_pos: "map_ok m \<Longrightarrow> 0 < unat (map_cluster m)"
  by (simp add: map_ok_def unat_ucast_u32_u64 unat_gt_0)

lemma extent_end:
  assumes "map_ok m" "e \<in> set (xm_extents m)"
  shows "unat ((mx_last e + 1) * map_cluster m) = (unat (mx_last e) + 1) * unat (map_cluster m)"
    "(unat (mx_last e) + 1) * unat (map_cluster m) < 18446744073709551616"
    "unat (mx_start e * map_cluster m) = unat (mx_start e) * unat (map_cluster m)"
proof -
  let ?cs = "unat (map_cluster m)"
  have "mx_last e < u64_max div map_cluster m" "mx_start e \<le> mx_last e" using assms by (simp_all add: map_ok_def)
  then have less: "unat (mx_last e) < 18446744073709551615 div ?cs" "unat (mx_start e) \<le> unat (mx_last e)"
    by (simp_all add: u64_less_nat u64_le_nat unat_div)
  then have "(unat (mx_last e) + 1) * ?cs \<le> 18446744073709551615 div ?cs * ?cs" by (intro mult_le_mono1) simp
  also have "\<dots> \<le> 18446744073709551615" by (rule div_times_less_eq_dividend)
  finally show small: "(unat (mx_last e) + 1) * ?cs < 18446744073709551616" by simp
  have "18446744073709551615 div ?cs \<le> (18446744073709551615 :: nat)" by (rule div_le_dividend)
  then have "unat (mx_last e) + 1 < 18446744073709551616" using less by linarith
  then have plus: "unat (mx_last e + 1) = unat (mx_last e) + 1" by (subst unat_u64_add) simp_all
  then show "unat ((mx_last e + 1) * map_cluster m) = (unat (mx_last e) + 1) * ?cs" using small by (subst unat_u64_mult) simp_all
  have "unat (mx_start e) * ?cs \<le> (unat (mx_last e) + 1) * ?cs" using less(2) by (intro mult_le_mono1) simp
  then show "unat (mx_start e * map_cluster m) = unat (mx_start e) * ?cs" using small by (intro unat_u64_mult) linarith
qed

lemma extent_of_Some:
  assumes "map_ok m"
  shows "extent_of m offset = Some e \<longleftrightarrow> e \<in> set (xm_extents m) \<and>
    unat (mx_start e) \<le> offset div unat (map_cluster m) \<and> offset div unat (map_cluster m) \<le> unat (mx_last e)"
proof -
  let ?v = "offset div unat (map_cluster m)"
  let ?P = "\<lambda>e. unat (mx_start e) \<le> ?v \<and> ?v \<le> unat (mx_last e)"
  have unique: "e = f" if "e \<in> set (xm_extents m)" "f \<in> set (xm_extents m)" "?P e" "?P f" for e f
  proof -
    have "?v < 18446744073709551616" using that unat_u64_bound [of "mx_last e"] by linarith
    then have "unat (of_nat ?v :: u64) = ?v" by (rule unat_of_nat_u64)
    then show ?thesis using map_disjoint [OF assms that(1,2), of "of_nat ?v"] that(3,4) by (simp add: u64_le_nat)
  qed
  show ?thesis
  proof
    assume "extent_of m offset = Some e"
    then show "e \<in> set (xm_extents m) \<and> ?P e" unfolding extent_of_def by (metis (mono_tags, lifting) find_Some_iff nth_mem)
  next
    assume e: "e \<in> set (xm_extents m) \<and> ?P e"
    then obtain f where f: "extent_of m offset = Some f"
      unfolding extent_of_def by (metis (mono_tags, lifting) find_None_iff not_None_eq)
    then have "f \<in> set (xm_extents m) \<and> ?P f" unfolding extent_of_def by (metis (mono_tags, lifting) find_Some_iff nth_mem)
    then show "extent_of m offset = Some e" using unique [of e f] e f by simp
  qed
qed

lemma option_eqI:
  assumes "\<And>e. x = Some e \<longleftrightarrow> y = Some e"
  shows "x = y"
proof (cases x)
  case None
  then have "y \<noteq> Some e" for e using assms [of e] by simp
  then have "y = None" by (metis not_None_eq)
  then show ?thesis using None by simp
next
  case (Some e)
  then show ?thesis using assms [of e] by simp
qed

lemma FindExtent_of: "map_ok m \<Longrightarrow> FindExtent m (offset div map_cluster m) = extent_of m (unat offset)"
proof -
  assume ok: "map_ok m"
  have "FindExtent m (offset div map_cluster m) = Some e \<longleftrightarrow> extent_of m (unat offset) = Some e" for e
    unfolding FindExtent_exact [OF ok] extent_of_Some [OF ok] by (simp add: u64_le_nat unat_div)
  then show "FindExtent m (offset div map_cluster m) = extent_of m (unat offset)" by (rule option_eqI)
qed

text \<open>How much of a read falls into the extent its first byte lies in.\<close>

lemma in_extent:
  assumes ok: "map_ok m" and e: "extent_of m (unat offset) = Some e"
  defines "cs \<equiv> unat (map_cluster m)"
  shows "unat (mx_start e) * cs \<le> unat offset" "unat offset < (unat (mx_last e) + 1) * cs"
    and "unat offset \<le> i \<Longrightarrow> i < (unat (mx_last e) + 1) * cs \<Longrightarrow> extent_of m i = Some e"
    and "unat (offset - mx_start e * map_cluster m) = unat offset - unat (mx_start e) * cs"
    and "unat (bytes_left m e offset remaining) = min (unat remaining) ((unat (mx_last e) + 1) * cs - unat offset)"
proof -
  have cs: "0 < cs" unfolding cs_def by (rule map_cluster_pos [OF ok])
  have mem: "e \<in> set (xm_extents m)" "unat (mx_start e) \<le> unat offset div cs" "unat offset div cs \<le> unat (mx_last e)"
    using e unfolding extent_of_Some [OF ok] cs_def by simp_all
  note fin = extent_end [OF ok mem(1), folded cs_def]
  show low: "unat (mx_start e) * cs \<le> unat offset" using mem(2) cs by (simp add: less_eq_div_iff_mult_less_eq)
  show high: "unat offset < (unat (mx_last e) + 1) * cs" using mem(3) cs by (subst div_less_iff_less_mult [symmetric]) simp_all
  show "extent_of m i = Some e" if i: "unat offset \<le> i" "i < (unat (mx_last e) + 1) * cs"
  proof -
    have "unat offset div cs \<le> i div cs" using i(1) by (rule div_le_mono)
    moreover have "i div cs < unat (mx_last e) + 1" using i(2) cs by (simp add: div_less_iff_less_mult)
    ultimately show ?thesis unfolding extent_of_Some [OF ok] cs_def [symmetric] using mem by simp
  qed
  have "mx_start e * map_cluster m \<le> offset" using low fin(3) by (simp add: u64_le_nat)
  then show "unat (offset - mx_start e * map_cluster m) = unat offset - unat (mx_start e) * cs" using fin(3) by (simp add: unat_u64_sub)
  have "offset \<le> (mx_last e + 1) * map_cluster m" using high fin(1) by (simp add: u64_le_nat)
  then have "unat ((mx_last e + 1) * map_cluster m - offset) = (unat (mx_last e) + 1) * cs - unat offset" using fin(1) by (simp add: unat_u64_sub)
  then show "unat (bytes_left m e offset remaining) = min (unat remaining) ((unat (mx_last e) + 1) * cs - unat offset)"
    by (auto simp: bytes_left_def u64_less_nat)
qed

lemma range_mapped_exact:
  assumes ok: "map_ok m"
  shows "range_mapped_loop m offset stop = Some (\<forall>o'. unat offset \<le> o' \<and> o' < unat stop \<longrightarrow> extent_of m o' \<noteq> None)"
proof (induction "unat stop - unat offset" arbitrary: offset rule: less_induct)
  case less
  let ?cs = "unat (map_cluster m)"
  show ?case
  proof (cases "offset < stop")
    case False
    then show ?thesis by (auto simp: range_mapped_loop.simps [of m offset] u64_less_nat)
  next
    case True
    show ?thesis
    proof (cases "extent_of m (unat offset)")
      case None
      then show ?thesis using True by (auto simp: range_mapped_loop.simps [of m offset] FindExtent_of [OF ok] u64_less_nat)
    next
      case (Some e)
      define fin where "fin = (unat (mx_last e) + 1) * ?cs"
      have mem: "e \<in> set (xm_extents m)" using Some extent_of_Some [OF ok] by simp
      have fin: "unat ((mx_last e + 1) * map_cluster m) = fin" using extent_end [OF ok mem] by (simp add: fin_def)
      note at = in_extent [OF ok Some, folded fin_def]
      have more: "unat offset < fin" by (rule at(2))
      have inside: "extent_of m o' \<noteq> None" if "unat offset \<le> o'" "o' < fin" for o' using at(3) [OF that] by simp
      have "range_mapped_loop m offset stop = range_mapped_loop m ((mx_last e + 1) * map_cluster m) stop"
        using True Some by (simp add: range_mapped_loop.simps [of m offset] FindExtent_of [OF ok])
      also have "\<dots> = Some (\<forall>o'. fin \<le> o' \<and> o' < unat stop \<longrightarrow> extent_of m o' \<noteq> None)"
        using True more less [of "(mx_last e + 1) * map_cluster m"] by (simp add: fin u64_less_nat diff_less_mono2)
      also have "(\<forall>o'. fin \<le> o' \<and> o' < unat stop \<longrightarrow> extent_of m o' \<noteq> None) \<longleftrightarrow> (\<forall>o'. unat offset \<le> o' \<and> o' < unat stop \<longrightarrow> extent_of m o' \<noteq> None)"
        using inside more by (meson le_trans less_imp_le not_le)
      finally show ?thesis .
    qed
  qed
qed

text \<open>IsRangeMapped() of a range that ends below 2^64: exactly when every byte of it lies in an extent.\<close>

lemma IsRangeMapped_exact:
  assumes "map_ok m" "len \<noteq> 0" "unat offset + unat len < 18446744073709551616"
  shows "IsRangeMapped m offset len =
    Some (Inr (\<forall>o'. unat offset \<le> o' \<and> o' < unat offset + unat len \<longrightarrow> extent_of m o' \<noteq> None))"
proof -
  have "xm_cluster_size m \<noteq> 0" using assms(1) by (simp add: map_ok_def)
  moreover have "unat (offset + len) = unat offset + unat len" using assms(3) by (rule unat_u64_add)
  ultimately show ?thesis using range_mapped_exact [OF assms(1), of offset "offset + len"] assms(2) by (simp add: IsRangeMapped_def)
qed

section \<open>What the map reads\<close>

text \<open>The bytes of $MFT: at each offset, the byte of the extent that holds it.\<close>

definition mft_medium :: "(nat \<Rightarrow> byte option) \<Rightarrow> 'v volume \<Rightarrow> extent_map \<Rightarrow> nat \<Rightarrow> byte option" where
  "mft_medium content V m i =
    (case extent_of m i of
       None \<Rightarrow> None
     | Some e \<Rightarrow> stream_medium content V (mx_attr e) (i - unat (mx_start e) * cluster_size V))"

text \<open>
  What an extent needs: an attribute the code built, alone or merged with its continuations, that maps
  at least the VCNs its header names, and whose bytes can be addressed. A part alone always does.
\<close>

definition extent_ok :: "'v volume \<Rightarrow> map_extent \<Rightarrow> bool" where
  "extent_ok V e \<longleftrightarrow> built V (mx_attr e) \<and> unat (mx_last e) + 1 \<le> unat (mx_start e) + unat (AttrTotalClusters (mx_attr e)) \<and>
     unat (AttrTotalClusters (mx_attr e)) * cluster_size V < 18446744073709551616"

lemma stream_part_extent:
  assumes "map_ok m" "xm_cluster_size m = vol_cluster_size V" "e \<in> set (xm_extents m)" "stream_part V (mx_attr e)"
  shows "extent_ok V e"
proof -
  have total: "unat (mx_start e) + unat (AttrTotalClusters (mx_attr e)) = unat (mx_last e) + 1"
    using stream_part_total(1) [OF assms(4)] assms(1,3) by (simp add: map_ok_def)
  have "unat (AttrTotalClusters (mx_attr e)) * cluster_size V \<le> (unat (mx_last e) + 1) * cluster_size V"
    using total by (intro mult_le_mono1) linarith
  also have "\<dots> < 18446744073709551616" using extent_end(2) [OF assms(1,3)] by (simp add: assms(2) unat_ucast_u32_u64)
  finally show ?thesis using total stream_part_built [OF assms(4)] by (simp add: extent_ok_def)
qed

definition map_state_ok :: "('v \<Rightarrow> bool) \<Rightarrow> (nat \<Rightarrow> byte option) \<Rightarrow> 'v volume \<Rightarrow> extent_map \<Rightarrow> 'v map_state \<Rightarrow> bool" where
  "map_state_ok reader_inv content V m st \<longleftrightarrow> reader_inv (mp_volume st) \<and> length (mp_buffer st) = cluster_size V \<and>
     (\<forall>e \<in> set (xm_extents m). units_true content V (mx_attr e) (extent_state e st))"

lemma map_state_enter:
  "map_state_ok reader_inv content V m st \<Longrightarrow> e \<in> set (xm_extents m) \<Longrightarrow> state_ok reader_inv content V (mx_attr e) (extent_state e st)"
  by (simp add: map_state_ok_def state_ok_def extent_state_def)

lemma map_state_keep:
  assumes "map_ok m" "map_state_ok reader_inv content V m st" "e \<in> set (xm_extents m)" "state_ok reader_inv content V (mx_attr e) s"
  shows "map_state_ok reader_inv content V m (keep_state e s st)"
proof -
  have "units_true content V (mx_attr f) (extent_state f (keep_state e s st))" if f: "f \<in> set (xm_extents m)" for f
  proof (cases "mx_start f = mx_start e")
    case True
    have "mx_start e \<le> mx_last e" "mx_start f \<le> mx_last f" using assms(1,3) f by (simp_all add: map_ok_def)
    then have "f = e" using map_disjoint [OF assms(1) f assms(3), of "mx_start e"] True by simp
    then show ?thesis using assms(4) by (simp add: state_ok_def units_true_def extent_state_def keep_state_def)
  next
    case False
    then show ?thesis using assms(2) f by (simp add: map_state_ok_def units_true_def extent_state_def keep_state_def)
  qed
  then show ?thesis using assms(4) by (simp add: map_state_ok_def state_ok_def keep_state_def)
qed

text \<open>One step of the read: the part that lies in one extent.\<close>

context volume_reader
begin

lemma ReadExtentData_in:
  fixes V :: "'v volume"
  assumes V: "vol_read V = vread" "geometry_ok V" "xm_cluster_size m = vol_cluster_size V" and ok: "map_ok m"
    and e: "extent_of m (unat offset) = Some e" "extent_ok V e"
    and st: "state_ok inv content V (mx_attr e) s"
    and part: "part \<noteq> []" "length part < 4294967296" "unat offset + length part \<le> (unat (mx_last e) + 1) * cluster_size V"
  shows "\<exists>r out s'. ReadExtentData V (mx_attr e) (offset - mx_start e * map_cluster m) part s = Some (Answers r, out, s') \<and>
      state_ok inv content V (mx_attr e) s' \<and> length out = length part \<and>
      (case medium_range (mft_medium content V m) (unat offset) (length part) of
         None \<Rightarrow> r = None | Some bytes \<Rightarrow> r = Some (of_nat (length part)) \<and> out = bytes)"
proof -
  let ?cs = "cluster_size V" and ?total = "AttrTotalClusters (mx_attr e)" and ?lo = "unat offset - unat (mx_start e) * cluster_size V"
  have cluster: "map_cluster m = cluster_bytes_of V" by (simp add: V(3) cluster_bytes_of_def)
  then have cs: "unat (map_cluster m) = ?cs" by simp
  note at = in_extent [OF ok e(1), unfolded cs]
  have mem: "e \<in> set (xm_extents m)" using e(1) extent_of_Some [OF ok] by simp
  have total: "unat (mx_last e) + 1 \<le> unat (mx_start e) + unat ?total" and fits: "unat ?total * ?cs < 18446744073709551616"
    and made: "built V (mx_attr e)"
    using e(2) by (simp_all add: extent_ok_def)
  have sum: "(unat (mx_last e) + 1) * ?cs \<le> unat (mx_start e) * ?cs + unat ?total * ?cs"
    using mult_le_mono1 [OF total] by (simp only: add_mult_distrib)
  have limit: "unat (?total * cluster_bytes_of V) = unat ?total * ?cs" using fits by (rule unat_clusters)
  have "0 < ?cs" using V(2) by (simp add: geometry_ok_def)
  moreover from this have "unat ?total \<le> 18446744073709551615 div ?cs" using fits by (simp add: less_eq_div_iff_mult_less_eq)
  ultimately have guard: "\<not> (cluster_bytes_of V \<noteq> 0 \<and> ?total > u64_max div cluster_bytes_of V)" by (simp add: u64_less_nat unat_div)
  define local where "local = offset - mx_start e * map_cluster m"
  have local: "unat local = ?lo" unfolding local_def using at(4) .
  have room: "?lo + length part \<le> unat ?total * ?cs" using part(3) sum at(1) by linarith
  have "length part \<noteq> 0" using part(1) by simp
  then have "?lo \<le> unat ?total * ?cs" "?lo + length part < 18446744073709551616" using room fits by linarith+
  moreover have "min (length part) (unat ?total * ?cs - ?lo) = length part" using room by simp
  moreover have "medium_range (mft_medium content V m) (unat offset) (length part) = medium_range (stream_medium content V (mx_attr e)) ?lo (length part)"
  proof (rule medium_range_cong)
    show "mft_medium content V m (unat offset + k) = stream_medium content V (mx_attr e) (?lo + k)" if "k < length part" for k
      using at(3) [of "unat offset + k"] at(1) part(3) that by (simp add: mft_medium_def)
  qed
  moreover have "attr_ok V (mx_attr e)" using built_ok [OF V(2) made] by simp
  ultimately show ?thesis
    using ReadDataBounded_ok [OF V(1,2) _ st part(1,2), of local "?total * cluster_bytes_of V"] guard
    unfolding local limit by (auto simp: ReadExtentData_def Let_def u64_le_nat local limit local_def [symmetric] split: option.splits)
qed

lemma map_read_loop_ok:
  fixes V :: "'v volume"
  assumes V: "vol_read V = vread" "geometry_ok V" "xm_cluster_size m = vol_cluster_size V" and ok: "map_ok m"
    and parts: "\<forall>e \<in> set (xm_extents m). extent_ok V e"
  shows "map_state_ok inv content V m st \<Longrightarrow> length out < 4294967296 \<Longrightarrow>
    \<exists>r out' st'. map_read_loop V m offset written out st = Some (Answers r, written @ out', st') \<and>
      map_state_ok inv content V m st' \<and> length out' = length out \<and>
      (case medium_range (mft_medium content V m) (unat offset) (length out) of
         None \<Rightarrow> r = None | Some bytes \<Rightarrow> r = Some (of_nat (length written + length out)) \<and> out' = bytes)"
proof (induction "length out" arbitrary: offset written out st rule: less_induct)
  case less
  let ?cs = "cluster_size V" and ?M = "mft_medium content V m"
  show ?case
  proof (cases "out = []")
    case True
    then show ?thesis using less.prems by (simp add: map_read_loop.simps [of V m offset])
  next
    case out: False
    show ?thesis
    proof (cases "extent_of m (unat offset)")
      case None
      then have "?M (unat offset) = None" by (simp add: mft_medium_def)
      then have "medium_range ?M (unat offset) (length out) = None" unfolding medium_range_None using out by (intro exI [of _ 0]) simp
      then show ?thesis using less.prems out None by (simp add: map_read_loop.simps [of V m offset] FindExtent_of [OF ok])
    next
      case (Some e)
      have mem: "e \<in> set (xm_extents m)" using Some extent_of_Some [OF ok] by simp
      have cs: "unat (map_cluster m) = ?cs" by (simp add: V(3) unat_ucast_u32_u64)
      note at = in_extent [OF ok Some, unfolded cs]
      define to_read where "to_read = bytes_left m e offset (of_nat (length out))"
      define n where "n = unat to_read"
      have len: "unat (of_nat (length out) :: u64) = length out" using less.prems(2) by (intro unat_of_nat_u64) simp
      have n: "n = min (length out) ((unat (mx_last e) + 1) * ?cs - unat offset)"
        using at(5) [of "of_nat (length out)"] by (simp add: n_def to_read_def len)
      have word: "to_read = of_nat n" by (simp add: n_def)
      have pos: "0 < n" "n \<le> length out" using n out at(2) by auto
      have inside: "unat offset + n \<le> (unat (mx_last e) + 1) * ?cs" using n at(2) by linarith
      have part: "take n out \<noteq> []" "length (take n out) = n" using pos out by auto
      obtain r o1 s where read: "ReadExtentData V (mx_attr e) (offset - mx_start e * map_cluster m) (take n out) (extent_state e st) = Some (Answers r, o1, s)"
        and s: "state_ok inv content V (mx_attr e) s" and o1: "length o1 = n"
        and found: "case medium_range ?M (unat offset) n of None \<Rightarrow> r = None | Some bytes \<Rightarrow> r = Some (of_nat n) \<and> o1 = bytes"
        using ReadExtentData_in [OF V ok Some _ map_state_enter [OF less.prems(1) mem] part(1)] parts mem inside less.prems(2) pos(2)
        unfolding part(2) by (auto split: option.splits)
      define st1 where "st1 = keep_state e s st"
      have st1: "map_state_ok inv content V m st1" unfolding st1_def by (rule map_state_keep [OF ok less.prems(1) mem s])
      have step: "map_read_loop V m offset written out st =
          (if r \<noteq> Some to_read then Some (Answers None, written @ o1 @ drop n out, st1)
           else map_read_loop V m (offset + to_read) (written @ o1) (drop n out) st1)"
        using out Some read by (simp add: map_read_loop.simps [of V m offset] FindExtent_of [OF ok] Let_def to_read_def [symmetric] n_def [symmetric] st1_def)
      have "unat offset + n < 18446744073709551616" using inside extent_end(2) [OF ok mem] unfolding cs by linarith
      then have next_offset: "unat (offset + to_read) = unat offset + n" unfolding n_def by (rule unat_u64_add)
      have split: "medium_range ?M (unat offset) (length out) = (case medium_range ?M (unat offset) n of None \<Rightarrow> None
          | Some xs \<Rightarrow> (case medium_range ?M (unat offset + n) (length out - n) of None \<Rightarrow> None | Some ys \<Rightarrow> Some (xs @ ys)))"
        using medium_range_split [of ?M "unat offset" n "length out - n"] pos(2) by simp
      show ?thesis
      proof (cases "medium_range ?M (unat offset) n")
        case None
        then show ?thesis using found step split st1 o1 pos(2) by simp
      next
        case bytes: (Some bytes)
        then have r: "r = Some to_read" "o1 = bytes" using found word by simp_all
        have smaller: "length (drop n out) < length out" "length (drop n out) < 4294967296" using pos less.prems(2) by simp_all
        obtain r2 o2 st2 where rest: "map_read_loop V m (offset + to_read) (written @ o1) (drop n out) st1 = Some (Answers r2, (written @ o1) @ o2, st2)"
          "map_state_ok inv content V m st2" "length o2 = length out - n"
          "case medium_range ?M (unat offset + n) (length out - n) of None \<Rightarrow> r2 = None
           | Some bytes \<Rightarrow> r2 = Some (of_nat (length (written @ o1) + (length out - n))) \<and> o2 = bytes"
          using less.hyps [OF smaller(1) st1 smaller(2), where offset = "offset + to_read" and written = "written @ o1", unfolded next_offset length_drop] by blast
        have total: "length (written @ o1) + (length out - n) = length written + length out" using o1 pos(2) by simp
        show ?thesis
          using rest(1-3) rest(4) [unfolded total] step split bytes r o1 pos(2) by (cases "medium_range ?M (unat offset + n) (length out - n)") auto
      qed
    qed
  qed
qed

end

text \<open>
  C7. ReadData() of the map at any offset, into any buffer below 4 GiB, after any reads before it and
  with any state of the block cache and of the unit caches of the extents: it returns; it answers the
  bytes of $MFT, each out of the extent that holds it, wherever the read crosses from one extent into
  the next, and nothing when one of them lies in no extent or cannot be read.
\<close>

theorem mft_read_exact:
  fixes V :: "block_cache option volume" and offset :: u64
  assumes "vol_read V = ReadVolume (medium_disk content) tuning" "geometry_ok V" "xm_cluster_size m = vol_cluster_size V"
    and "map_ok m" "\<forall>e \<in> set (xm_extents m). extent_ok V e"
    and "map_state_ok (reader_ok content tuning) (below_top content) V m st" "length buffer < 4294967296"
  shows "\<exists>r out st'. MapReadData V m offset buffer st = Some (Answers r, out, st') \<and>
      map_state_ok (reader_ok content tuning) (below_top content) V m st' \<and> length out = length buffer \<and>
      (case medium_range (mft_medium (below_top content) V m) (unat offset) (length buffer) of
         None \<Rightarrow> r = None
       | Some bytes \<Rightarrow> r = Some (of_nat (length buffer)) \<and> out = bytes)"
  using vol.map_read_loop_ok [OF assms, of offset "[]"] unfolding MapReadData_def append_Nil list.size(3) add_0 .

section \<open>A map of two extents\<close>

text \<open>The parts of StreamMerge as the extents of $MFT: VCNs 0 and 1 at LCN 3, VCN 2 at LCN 7.\<close>

definition base_map :: extent_map where
  "base_map = \<lparr>xm_cluster_size = 256, xm_record_size = 1024, xm_base = Some (as_attribute sample_attr),
     xm_extents = [\<lparr>mx_start = 0, mx_last = 1, mx_attr = sample_attr\<rparr>]\<rparr>"

definition sample_map :: extent_map where
  "sample_map = base_map\<lparr>xm_extents := [\<lparr>mx_start = 0, mx_last = 1, mx_attr = sample_attr\<rparr>, \<lparr>mx_start = 2, mx_last = 2, mx_attr = second_attr\<rparr>]\<rparr>"

lemma sample_vcns:
  "GetStartVcn sample_attr = 0" "GetLastVcn sample_attr = 1" "GetStartVcn second_attr = 2" "GetLastVcn second_attr = 2"
  by (simp_all add: GetStartVcn_def GetLastVcn_def sample_attr_def sample_stream_header_def second_attr_def second_header_def)

lemma unnamed_as_attribute: "IsUnNamed (as_attribute n)"
  by (simp add: IsUnNamed_def as_attribute_def)

lemma sample_map_made:
  "SetBase (as_attribute sample_attr) (new_extent_map 256 1024) = Inr base_map" "TryAdd (as_attribute second_attr) 2 base_map = Inr sample_map"
  by (simp_all add: SetBase_def TryAdd_def new_extent_map_def base_map_def sample_map_def sample_vcns unnamed_as_attribute Let_def upper_bound_def u64_le_nat)

lemma base_map_ok: "map_ok base_map"
  by (simp add: map_ok_def base_map_def sample_vcns)

lemma sample_map_ok: "map_ok sample_map"
  by (simp add: map_ok_def sample_map_def base_map_def sample_vcns u64_less_nat)

lemma extent_accepted_exactly_witness:
  "\<exists>m'. TryAdd (as_attribute second_attr) 2 base_map = Inr m' \<and> map_ok m' \<and>
     \<lparr>mx_start = 2, mx_last = 2, mx_attr = second_attr\<rparr> \<in> set (xm_extents m')"
proof -
  have "\<not> (\<exists>e \<in> set (xm_extents base_map). meets 2 2 e)" by (simp add: base_map_def meets_def u64_le_nat)
  moreover have "(unat (2 :: u64) + 1) * unat (xm_cluster_size base_map) < 2 ^ 64" by (simp add: base_map_def)
  ultimately show ?thesis
    using extent_accepted_exactly [of base_map "as_attribute second_attr" second_attr 2] base_map_ok
    by (auto simp: unnamed_as_attribute sample_vcns)
qed

definition fresh_map_state :: "'v volume \<Rightarrow> 'v \<Rightarrow> 'v map_state" where
  "fresh_map_state V v = \<lparr>mp_volume = v, mp_buffer = replicate (cluster_size V) 0, mp_units = (\<lambda>start. Map.empty), mp_checked = (\<lambda>start. False)\<rparr>"

lemma fresh_map_state_ok: "reader_inv v \<Longrightarrow> map_state_ok reader_inv content V m (fresh_map_state V v)"
  by (simp add: fresh_map_state_def map_state_ok_def units_true_def extent_state_def)

lemma sample_whole: "c < 30 \<Longrightarrow> k < 256 \<Longrightarrow> whole (below_top sample_content) 256 (c * 256 + k) = Some (of_nat (c * 256 + k))"
proof -
  assume c: "c < 30" "k < 256"
  have readable: "below_top sample_content i = Some (of_nat i)" if "i < 10000" for i
    using that by (simp add: below_top_def llong_top_def sample_content_def)
  have "medium_range (below_top sample_content) (c * 256) 256 \<noteq> None" using c readable by (simp add: medium_range_None)
  moreover have "(c * 256 + k) div 256 * 256 = c * 256" using c(2) by simp
  moreover have "below_top sample_content (c * 256 + k) = Some (of_nat (c * 256 + k))" using c by (intro readable) simp
  ultimately show ?thesis by (simp only: whole_def option.simps if_True if_False not_False_eq_True simp_thms)
qed

lemma sample_map_bytes: "medium_range (mft_medium (below_top sample_content) sample_volume sample_map) 510 4 = Some [254, 255, 0, 1]"
proof -
  let ?M = "mft_medium (below_top sample_content) sample_volume sample_map"
  note defs = mft_medium_def extent_of_def sample_map_def base_map_def stream_medium_def plain_stream_def runs_medium_def cluster_at_def covers_def
    AttrTotalClusters_def TotalClusters_def sample_attr_def second_attr_def second_header_def sample_stream_header_def sample_volume_def
  have "?M 510 = Some 254" "?M 511 = Some 255" using sample_whole [of 4 254] sample_whole [of 4 255] by (simp_all add: defs)
  moreover have "?M 512 = Some 0" "?M 513 = Some 1" using sample_whole [of 7 0] sample_whole [of 7 1] by (simp_all add: defs)
  ultimately show ?thesis by (simp add: medium_range_Some less_Suc_eq numeral_eq_Suc)
qed

lemma mft_read_exact_witness:
  "\<exists>st'. MapReadData sample_volume sample_map 510 [7, 7, 7, 7] (fresh_map_state sample_volume None) = Some (Answers (Some 4), [254, 255, 0, 1], st')"
proof -
  have sizes: "xm_cluster_size sample_map = vol_cluster_size sample_volume" by (simp add: sample_volume_def sample_map_def base_map_def)
  have "stream_part sample_volume sample_attr" "stream_part sample_volume second_attr"
    using sample_attr_made second_attr_made by (auto simp: stream_part_def sample_vcns)
  moreover have four: "length [7, 7, 7, 7 :: byte] = 4" "unat (510 :: u64) = 510" by simp_all
  ultimately have parts: "\<forall>e \<in> set (xm_extents sample_map). extent_ok sample_volume e"
    using stream_part_extent [OF sample_map_ok sizes] by (auto simp: sample_map_def)
  have "vol_read sample_volume = ReadVolume (medium_disk sample_content) sample_tuning" "geometry_ok sample_volume"
    "xm_cluster_size sample_map = vol_cluster_size sample_volume"
    by (simp_all add: sample_volume_def geometry_ok_def sample_map_def base_map_def)
  moreover have "map_state_ok (reader_ok sample_content sample_tuning) (below_top sample_content) sample_volume sample_map (fresh_map_state sample_volume None)"
    by (rule fresh_map_state_ok) (simp add: reader_ok_def)
  ultimately show ?thesis
    using mft_read_exact [of sample_volume sample_content sample_tuning sample_map "fresh_map_state sample_volume None" "[7, 7, 7, 7]" 510]
      sample_map_ok parts unfolding four by (auto simp: sample_map_bytes)
qed

end
