(* ===== verification/RecordNesting.thy ===== *)
theory RecordNesting
  imports RecordAttrsSpec
begin

text \<open>
  Extension records that name one another: every extension parse is nested in one whose chain of
  resolved entries is strictly smaller, so no parse nests deeper than there are chain keys, and a
  parse that refuses volume reads returns, without one.
\<close>

section \<open>The chain of resolved entries only grows\<close>

definition keeps_chain :: "u64 set \<Rightarrow> ('a \<times> file_record \<times> 'v parse_state) option \<Rightarrow> bool" where
  "keeps_chain c r \<longleftrightarrow> (\<forall>x fr st. r = Some (x, fr, st) \<longrightarrow> c \<subseteq> ps_chain st)"

lemma keeps_chain_simps [simp]: "keeps_chain c None" "keeps_chain c (Some (x, fr, st)) \<longleftrightarrow> c \<subseteq> ps_chain st"
  by (simp_all add: keeps_chain_def)

lemma ParseRecord_chain: "ParseRecord V file_ref preread fr st = Some (x, fr', st') \<Longrightarrow> ps_chain st' = ps_chain st"
proof -
  have "case ParseRecord V file_ref preread fr st of None \<Rightarrow> True | Some (x, fr', st') \<Rightarrow> ps_chain st' = ps_chain st"
    unfolding ParseRecord_def Let_def keep_header_def by (simp split: bind_splits sum.split prod.split)
  then show "ParseRecord V file_ref preread fr st = Some (x, fr', st') \<Longrightarrow> ps_chain st' = ps_chain st" by simp
qed

lemma WantsExtension_chain:
  "WantsExtension V n type claim_only fr st = (r, fr', st') \<Longrightarrow>
     ps_chain st \<subseteq> ps_chain st' \<and> (r = Inr (Some held) \<longrightarrow> ps_chain st \<subset> ps_chain st')"
proof -
  have skipped: "bind_r m (\<lambda>_. Inr None) \<noteq> Inr (Some held)" for m :: "attr_error + unit" and held :: "byte list"
    by (cases m) simp_all
  have "case WantsExtension V n type claim_only fr st of (r, fr', st') \<Rightarrow>
      ps_chain st \<subseteq> ps_chain st' \<and>
      (\<forall>held. r = Inr (Some held) \<longrightarrow> MakeChainKey n type \<notin> ps_chain st \<and> MakeChainKey n type \<in> ps_chain st')"
    unfolding WantsExtension_def Let_def RefuseRead_def by (simp add: skipped subset_insertI split: prod.split option.split)
  then show "WantsExtension V n type claim_only fr st = (r, fr', st') \<Longrightarrow>
     ps_chain st \<subseteq> ps_chain st' \<and> (r = Inr (Some held) \<longrightarrow> ps_chain st \<subset> ps_chain st')"
    by auto
qed

lemma read_body_chain: "read_body V body offset out w st = Some (r, out', w', st') \<Longrightarrow> ps_chain st' = ps_chain st"
  by (auto simp: read_body_def bind_eq_Some_conv split: attr_body.splits prod.splits)

lemma load_clusters_chain: "load_clusters V body n indexes w st = Some (r, w', st') \<Longrightarrow> ps_chain st' = ps_chain st"
proof (induction indexes arbitrary: w st)
  case (Cons index rest)
  define span where "span = subspan AttrUndefined (lw_bytes w) (index * n) (min n (size_sub (length (lw_bytes w)) (index * n)))"
  show ?case
  proof (cases "\<exists>part. index < length (lw_loaded w) \<and> \<not> lw_loaded w ! index \<and> span = Inr part")
    case True
    then obtain part where part: "index < length (lw_loaded w)" "\<not> lw_loaded w ! index" "span = Inr part" by blast
    from Cons.prems part obtain r1 out w1 st1 where read: "read_body V body (of_nat (index * n)) part w st = Some (r1, out, w1, st1)"
      by (auto simp: Let_def bind_eq_Some_conv span_def [symmetric] simp del: of_nat_mult size_sub_le)
    then have "ps_chain st' = ps_chain st1"
      using Cons.prems part
      by (cases r1; cases "projr r1")
        (auto simp: Let_def span_def [symmetric] simp del: of_nat_mult size_sub_le split: if_splits dest: Cons.IH)
    then show ?thesis using read_body_chain [OF read] by simp
  next
    case False
    then show ?thesis
      using Cons by (cases span) (auto simp: Let_def span_def [symmetric] simp del: size_sub_le split: if_splits)
  qed
qed simp

lemma ReadEntryHeader_chain: "ReadEntryHeader V body offset w st = Some (r, w', st') \<Longrightarrow> ps_chain st' = ps_chain st"
proof -
  have "ps_chain st' = ps_chain st" if read: "ReadListBytes V body offset out w st = Some (x, out', w', st')" for x out out' w' st'
  proof (cases "lw_bytes w = [] \<or> unat offset > length (lw_bytes w)")
    case True
    then show ?thesis using read by (auto simp: ReadListBytes_def split: if_splits dest!: read_body_chain)
  next
    case False
    define indexes where "indexes = [unat offset div unat (cluster_bytes_of (rv_volume V)) ..<
      (unat offset + min (length out) (size_sub (length (lw_bytes w)) (unat offset)) + unat (cluster_bytes_of (rv_volume V)) - 1)
        div unat (cluster_bytes_of (rv_volume V))]"
    with False read obtain r2 w2 st2 where load: "load_clusters V body (unat (cluster_bytes_of (rv_volume V))) indexes w st = Some (r2, w2, st2)"
      by (auto simp: ReadListBytes_def Let_def bind_eq_Some_conv)
    then have "st' = st2" using False read indexes_def by (cases r2) (auto simp: ReadListBytes_def Let_def split: sum.splits)
    then show ?thesis using load_clusters_chain [OF load] by simp
  qed
  moreover assume "ReadEntryHeader V body offset w st = Some (r, w', st')"
  then obtain x out w1 st1 where list: "ReadListBytes V body offset (replicate attribute_list_entry_header_size 0) w st = Some (x, out, w1, st1)"
    by (auto simp: ReadEntryHeader_def bind_eq_Some_conv)
  moreover have "st' = st1"
    using \<open>ReadEntryHeader V body offset w st = Some (r, w', st')\<close> list
    by (auto simp: ReadEntryHeader_def split: sum.splits read_end.splits option.splits if_splits)
  ultimately show ?thesis by blast
qed

section \<open>Two parses of extensions that agree past a chain\<close>

text \<open>\<open>f\<close> and \<open>g\<close> answer the same from \<open>st\<close>, and the chain keeps \<open>c\<close>.\<close>

definition same_past ::
  "u64 set \<Rightarrow> ('a \<times> file_record \<times> 'v parse_state) option \<Rightarrow> ('a \<times> file_record \<times> 'v parse_state) option \<Rightarrow> bool" where
  "same_past c r s \<longleftrightarrow> r = s \<and> keeps_chain c r"

definition agree ::
  "u64 set \<Rightarrow> (file_record \<Rightarrow> 'v parse_state \<Rightarrow> ('a \<times> file_record \<times> 'v parse_state) option) \<Rightarrow>
   (file_record \<Rightarrow> 'v parse_state \<Rightarrow> ('a \<times> file_record \<times> 'v parse_state) option) \<Rightarrow> bool" where
  "agree c p q \<longleftrightarrow> (\<forall>fr st. c \<subset> ps_chain st \<longrightarrow> same_past c (p fr st) (q fr st))"

lemma same_past_bind:
  assumes "same_past c r s" "\<And>x fr st. r = Some (x, fr, st) \<Longrightarrow> c \<subseteq> ps_chain st \<Longrightarrow> same_past c (f (x, fr, st)) (g (x, fr, st))"
  shows "same_past c (r \<bind> f) (s \<bind> g)"
  using assms by (cases r) (auto simp: same_past_def)

lemma same_past_simps [simp]: "same_past c None None" "same_past c (Some (x, fr, st)) (Some (x, fr, st)) \<longleftrightarrow> c \<subseteq> ps_chain st"
  by (simp_all add: same_past_def)

lemma ImportAttrListEntry_agree:
  assumes pq: "agree c p q" and c: "c \<subseteq> ps_chain st"
  shows "same_past c (ImportAttrListEntry V p n s type fr st) (ImportAttrListEntry V q n s type fr st)"
proof -
  define claim_only where "claim_only = (AttrMask type AND rs_mask (fr_setup fr) = 0 \<and> AttrMask type AND rs_claim_mask (fr_setup fr) \<noteq> 0)"
  obtain r fr1 st1 where wants: "WantsExtension V n type claim_only fr st = (r, fr1, st1)"
    by (cases "WantsExtension V n type claim_only fr st") auto
  have c1: "c \<subseteq> ps_chain st1" "r = Inr (Some held) \<Longrightarrow> c \<subset> ps_chain st1" for held
    using WantsExtension_chain [OF wants] c by blast+
  have opened: "same_past c (import_opened V p n s type claim_only fr1 opened ext st2) (import_opened V q n s type claim_only fr1 opened ext st2)"
    if "c \<subset> ps_chain st2" for opened ext and st2 :: "'a parse_state"
    using pq that unfolding import_opened_def agree_def
    by (auto intro!: same_past_bind split: sum.splits prod.splits)
  have "same_past c (ParseRecord V n held (new_file_record config) st1 \<bind> (\<lambda>(opened, ext, st). import_opened V p n s type claim_only fr1 opened ext st))
      (ParseRecord V n held (new_file_record config) st1 \<bind> (\<lambda>(opened, ext, st). import_opened V q n s type claim_only fr1 opened ext st))"
    if "c \<subset> ps_chain st1" for held config
  proof (rule same_past_bind)
    show "same_past c (ParseRecord V n held (new_file_record config) st1) (ParseRecord V n held (new_file_record config) st1)"
      using ParseRecord_chain that by (fastforce simp: same_past_def keeps_chain_def)
  qed (use ParseRecord_chain that opened in fastforce)
  then show ?thesis
    using c1 unfolding ImportAttrListEntry_def Let_def claim_only_def [symmetric] wants by (auto split: sum.splits option.splits)
qed

lemma list_loop_agree:
  fixes V :: "'v record_volume"
  assumes same: "\<And>n s t fr st. c \<subseteq> ps_chain st \<Longrightarrow> same_past c (i n s t fr st) (j n s t fr st)"
    and run: "list_loop V i ov body off w fr st = Some y" and c: "c \<subseteq> ps_chain st"
  shows "list_loop V j ov body off w fr st = Some y \<and> keeps_chain c (Some y)"
proof -
  define P where "P = (\<lambda>W (i' :: u64 \<Rightarrow> u16 \<Rightarrow> u32 \<Rightarrow> file_record \<Rightarrow> 'v parse_state \<Rightarrow> ((attr_error + unit) \<times> file_record \<times> 'v parse_state) option)
      ov body off w fr (st :: 'v parse_state) (y :: (attr_error + unit) \<times> file_record \<times> 'v parse_state).
      W = V \<longrightarrow> i' = i \<longrightarrow> c \<subseteq> ps_chain st \<longrightarrow> list_loop V j ov body off w fr st = Some y \<and> keeps_chain c (Some y))"
  have "P V i ov body off w fr st y"
  proof (rule list_loop.raw_induct [where P = P, OF _ run])
    fix f W i' ov b off w fr st y
    assume IH: "\<And>W i' ov b off w fr st y. f W i' ov b off w fr st = Some y \<Longrightarrow> P W i' ov b off w fr st y"
    assume eq: "ReadEntryHeader W b off w st \<bind> (\<lambda>(r, w, st). case r of
          EntryUndefined \<Rightarrow> Some (Inl AttrUndefined, fr, st)
        | EntryThrows \<Rightarrow> Some (Inl (AttrThrows NarrowingError), fr, st)
        | NoMoreEntries \<Rightarrow> (case list_walk_end (rv_recover W) ov b off w fr of (r, fr) \<Rightarrow> Some (r, fr, st))
        | Entry e \<Rightarrow>
            if \<not> IsValidAttrType (le_type e) then
              (if ov then Some (Inr (), NoteOverwrittenAttrList fr, st) else Some (Inl (AttrThrows ListBadType), fr, st))
            else i' (le_segment_number e) (le_sequence_number e) (le_type e) fr st \<bind> (\<lambda>(r, fr, st). case r of
                Inl err \<Rightarrow> Some (Inl err, fr, st)
              | Inr _ \<Rightarrow>
                  if ov \<and> unat (le_record_size e) < attribute_list_entry_header_size then Some (Inr (), NoteOverwrittenAttrList fr, st)
                  else if le_record_size e = 0 then Some (Inl (AttrThrows ListEndlessLoop), fr, st)
                  else if unat (le_record_size e) < attribute_list_entry_header_size then
                    (case list_walk_end (rv_recover W) ov b off (w\<lparr>lw_truncated := True\<rparr>) fr of (r, fr) \<Rightarrow> Some (r, fr, st))
                  else f W i' ov b (off + ucast (le_record_size e)) w fr st)) = Some y"
    show "P W i' ov b off w fr st y"
      unfolding P_def
    proof (intro impI)
      assume W: "W = V" "i' = i" and c: "c \<subseteq> ps_chain st"
      from eq obtain r w1 st1 where read: "ReadEntryHeader V b off w st = Some (r, w1, st1)" using W by (auto simp: bind_eq_Some_conv)
      then have c1: "c \<subseteq> ps_chain st1" using ReadEntryHeader_chain [OF read] c by simp
      note step = list_loop.simps [of V j ov b off w fr st, unfolded read Option.bind.simps prod.case]
      show "list_loop V j ov b off w fr st = Some y \<and> keeps_chain c (Some y)"
      proof (cases r)
        case (Entry e)
        show ?thesis
        proof (cases "IsValidAttrType (le_type e)")
          case True
          with eq read Entry W obtain r2 fr2 st2 where i: "i (le_segment_number e) (le_sequence_number e) (le_type e) fr st1 = Some (r2, fr2, st2)"
            by (auto simp: bind_eq_Some_conv)
          then have j: "j (le_segment_number e) (le_sequence_number e) (le_type e) fr st1 = Some (r2, fr2, st2)" "c \<subseteq> ps_chain st2"
            using same [OF c1, of "le_segment_number e" "le_sequence_number e" "le_type e" fr] by (auto simp: same_past_def)
          show ?thesis
          proof (cases "r2 = Inr () \<and> \<not> unat (le_record_size e) < attribute_list_entry_header_size \<and> le_record_size e \<noteq> 0")
            case again: True
            then have "f V i ov b (off + ucast (le_record_size e)) w1 fr2 st2 = Some y" using eq read Entry True i W by simp
            from IH [OF this] show ?thesis using j step Entry True again by (simp add: P_def)
          next
            case False
            then show ?thesis using eq read Entry True i j W step
              by (cases r2) (auto split: if_splits prod.splits)
          qed
        next
          case False
          then show ?thesis using eq read Entry W step c1 by (auto split: if_splits)
        qed
      qed (use eq read W step c1 in \<open>auto split: prod.splits\<close>)
    qed
  qed
  then show ?thesis using c by (simp add: P_def)
qed

lemma list_loop_same:
  assumes same: "\<And>n s t fr st. c \<subseteq> ps_chain st \<Longrightarrow> same_past c (i n s t fr st) (j n s t fr st)" and c: "c \<subseteq> ps_chain st"
  shows "same_past c (list_loop V i ov body off w fr st) (list_loop V j ov body off w fr st)"
proof -
  have other: "same_past c (j n s t fr st) (i n s t fr st)" if "c \<subseteq> ps_chain st" for n s t fr st
    using same [OF that, of n s t fr] by (auto simp: same_past_def)
  have to: "list_loop V j ov body off w fr st = Some y \<and> keeps_chain c (Some y)" if "list_loop V i ov body off w fr st = Some y" for y
    by (rule list_loop_agree [OF _ that c]) (rule same)
  have back_again: "list_loop V i ov body off w fr st = Some y" if "list_loop V j ov body off w fr st = Some y" for y
    using list_loop_agree [OF _ that c, of i] other by blast
  show ?thesis
  proof (cases "list_loop V i ov body off w fr st")
    case None
    then have "list_loop V j ov body off w fr st = None" using back_again by (metis not_Some_eq)
    then show ?thesis using None by simp
  next
    case (Some y)
    then show ?thesis using to [OF Some] by (simp add: same_past_def)
  qed
qed

lemma AllocAttr_agree:
  assumes pq: "agree c p q" and c: "c \<subseteq> ps_chain st"
  shows "same_past c (AllocAttr V p h cur fr st) (AllocAttr V q h cur fr st)"
proof -
  have list: "same_past c (AttrList V p h cur fr st) (AttrList V q h cur fr st)" if c: "c \<subseteq> ps_chain st" for st
    unfolding AttrList_def Let_def
    using c by (auto split: sum.split intro!: same_past_bind list_loop_same ImportAttrListEntry_agree [OF pq])
  then show ?thesis
    using c by (auto simp: AllocAttr_def MakeAttributeList_def Let_def RefuseRead_def)
qed

lemma VisitAttr_agree:
  assumes pq: "agree c p q" and c: "c \<subseteq> ps_chain st"
  shows "same_past c (VisitAttr V p cur h fr st) (VisitAttr V q cur h fr st)"
proof -
  have "same_past c (ParseAttr V p h cur fr st) (ParseAttr V q h cur fr st)"
    using AllocAttr_agree [OF pq c] c unfolding ParseAttr_def
    by (auto split: sum.splits attr_error.splits intro!: same_past_bind)
  then show ?thesis using c by (auto simp: VisitAttr_def Let_def split: prod.splits)
qed

lemma WalkAttrHeaders_agree:
  assumes "\<And>cur h fr st. c \<subseteq> ps_chain st \<Longrightarrow> same_past c (v cur h fr st) (v' cur h fr st)" "c \<subseteq> ps_chain st"
  shows "same_past c (WalkAttrHeaders V v cur data_ptr skipped fr st) (WalkAttrHeaders V v' cur data_ptr skipped fr st)"
  using assms
proof (induction V v cur data_ptr skipped fr st rule: WalkAttrHeaders.induct)
  case (1 V v cur data_ptr skipped fr st)
  note step = WalkAttrHeaders.simps [of V _ cur data_ptr skipped fr st]
  show ?case
  proof (cases "\<exists>h. ReadAttrHeader cur data_ptr (unat (rv_record_size V)) = Inr (WalkNext h)")
    case True
    then obtain h where read: "ReadAttrHeader cur data_ptr (unat (rv_record_size V)) = Inr (WalkNext h)" by blast
    have visited: "same_past c (v cur h fr st) (v' cur h fr st)" by (rule 1(2) [OF 1(3)])
    show ?thesis
    proof (cases "v cur h fr st")
      case None
      then show ?thesis using visited step read by (simp add: same_past_def)
    next
      case (Some x)
      obtain r fr1 st1 where x: "x = (r, fr1, st1)" by (cases x) auto
      then have ok: "v' cur h fr st = Some (r, fr1, st1)" "c \<subseteq> ps_chain st1" using visited Some by (auto simp: same_past_def)
      show ?thesis
      proof (cases r)
        case (Inr b)
        show ?thesis
        proof (cases "\<not> b \<and> \<not> rv_recover V")
          case False
          have "same_past c (WalkAttrHeaders V v (drop (unat (hc_total_size h)) cur) (data_ptr + unat (hc_total_size h)) (skipped \<or> \<not> b) fr1 st1)
             (WalkAttrHeaders V v' (drop (unat (hc_total_size h)) cur) (data_ptr + unat (hc_total_size h)) (skipped \<or> \<not> b) fr1 st1)"
            by (rule 1(1) [OF read refl Some [unfolded x Inr] refl refl refl False]) (use 1(2) ok in auto)
          then show ?thesis using step read Some x Inr ok False by auto
        qed (use step read Some x Inr ok in simp)
      qed (use step read Some x ok in simp)
    qed
  next
    case False
    then show ?thesis using step 1(3) by (cases "ReadAttrHeader cur data_ptr (unat (rv_record_size V))") (auto split: attr_walk.splits)
  qed
qed

lemma Parse_agree: "agree c p q \<Longrightarrow> c \<subseteq> ps_chain st \<Longrightarrow> same_past c (Parse V p fr st) (Parse V q fr st)"
  unfolding Parse_def Let_def
  by (auto split: sum.splits option.splits prod.splits intro!: same_past_bind WalkAttrHeaders_agree VisitAttr_agree)

lemma ParseAttrsWithin_enough:
  "card (UNIV - ps_chain st) < n \<Longrightarrow> card (UNIV - ps_chain st) < m \<Longrightarrow>
     same_past (ps_chain st) (ParseAttrsWithin n V fr st) (ParseAttrsWithin m V fr st)"
proof (induction n arbitrary: m fr st)
  case (Suc n)
  then obtain m' where m: "m = Suc m'" by (cases m) auto
  have "agree (ps_chain st) (ParseAttrsWithin n V) (ParseAttrsWithin m' V)"
    unfolding agree_def
  proof (intro allI impI)
    fix fr and st' :: "'a parse_state"
    assume less: "ps_chain st \<subset> ps_chain st'"
    then have "UNIV - ps_chain st' \<subset> UNIV - ps_chain st" by blast
    then have "card (UNIV - ps_chain st') < card (UNIV - ps_chain st)" by (rule psubset_card_mono [OF finite])
    then have "same_past (ps_chain st') (ParseAttrsWithin n V fr st') (ParseAttrsWithin m' V fr st')"
      using Suc.prems m by (intro Suc.IH) simp_all
    then show "same_past (ps_chain st) (ParseAttrsWithin n V fr st') (ParseAttrsWithin m' V fr st')"
      using less unfolding same_past_def keeps_chain_def by (meson psubset_imp_subset subset_trans)
  qed
  from Parse_agree [OF this subset_refl] show ?case using m by simp
qed simp

section \<open>A parse that refuses volume reads\<close>

text \<open>The record refuses, the volume is still at \<open>v\<close>, and the chain holds \<open>c\<close>.\<close>

definition calm :: "u64 set \<Rightarrow> 'v \<Rightarrow> file_record \<Rightarrow> 'v parse_state \<Rightarrow> bool" where
  "calm c v fr st \<longleftrightarrow> rs_refuses (fr_setup fr) \<and> ps_volume st = v \<and> c \<subseteq> ps_chain st"

definition returns :: "u64 set \<Rightarrow> 'v \<Rightarrow> ('a \<times> file_record \<times> 'v parse_state) option \<Rightarrow> bool" where
  "returns c v r \<longleftrightarrow> (\<exists>x fr st. r = Some (x, fr, st) \<and> calm c v fr st)"

definition calm_parse :: "u64 set \<Rightarrow> 'v \<Rightarrow> (file_record \<Rightarrow> 'v parse_state \<Rightarrow> ('a \<times> file_record \<times> 'v parse_state) option) \<Rightarrow> bool" where
  "calm_parse c v p \<longleftrightarrow> (\<forall>fr st. calm c v fr st \<and> c \<noteq> ps_chain st \<longrightarrow> returns c v (p fr st))"

lemma returns_Some [simp]: "returns c v (Some (x, fr, st)) \<longleftrightarrow> calm c v fr st"
  by (simp add: returns_def)

lemma returns_bind: "returns c v r \<Longrightarrow> (\<And>x fr st. calm c v fr st \<Longrightarrow> returns c v (f (x, fr, st))) \<Longrightarrow> returns c v (r \<bind> f)"
  by (auto simp: returns_def)

lemma calm_updates [simp]:
  "calm c v (NoteOverwrittenAttrList fr) st \<longleftrightarrow> calm c v fr st"
  "calm c v (push_attrs type as fr) st \<longleftrightarrow> calm c v fr st"
  "calm c v (ClearAttrs fr) st \<longleftrightarrow> calm c v fr st"
  "calm c v (fr\<lparr>fr_claimed := cl\<rparr>) st \<longleftrightarrow> calm c v fr st"
  "calm c v (fr\<lparr>fr_reused := ru\<rparr>) st \<longleftrightarrow> calm c v fr st"
  "calm c v (fr\<lparr>fr_end_marker := em\<rparr>) st \<longleftrightarrow> calm c v fr st"
  "calm c v (fr\<lparr>fr_overwritten := ow\<rparr>) st \<longleftrightarrow> calm c v fr st"
  "calm c v (fr\<lparr>fr_attrs := slots\<rparr>) st \<longleftrightarrow> calm c v fr st"
  "calm c v fr (st\<lparr>ps_refused := r\<rparr>) \<longleftrightarrow> calm c v fr st"
  by (simp_all add: calm_def NoteOverwrittenAttrList_def push_attrs_def ClearAttrs_def)

lemma ParseRecord_held:
  assumes "held \<noteq> []" "ParseRecord V n held fr st = Some (x, fr', st')"
  shows "fr_setup fr' = fr_setup fr \<and> ps_volume st' = ps_volume st"
proof -
  have "case ParseRecord V n held fr st of None \<Rightarrow> False | Some (x, fr', st') \<Rightarrow> fr_setup fr' = fr_setup fr \<and> ps_volume st' = ps_volume st"
    using assms(1) unfolding ParseRecord_def ReadFileRecord_def Let_def keep_header_def
    by (simp add: ClearAttrs_def split: sum.split prod.split)
  then show ?thesis using assms(2) by simp
qed

lemma ParseRecord_held_returns: "held \<noteq> [] \<Longrightarrow> ParseRecord V n held fr st \<noteq> None"
  unfolding ParseRecord_def ReadFileRecord_def Let_def keep_header_def by (simp split: sum.split prod.split)

lemma SkipForeignExtension_calm: "SkipForeignExtension recover n fr = (r, fr') \<Longrightarrow> calm c v fr st \<Longrightarrow> calm c v fr' st"
  by (auto simp: SkipForeignExtension_def split: if_splits)

lemma WantsExtension_calm:
  assumes "WantsExtension V n type claim_only fr st = (r, fr', st')" "calm c v fr st"
  shows "calm c v fr' st' \<and> r \<noteq> Inr (Some []) \<and> fr_setup fr' = fr_setup fr"
proof -
  have skipped: "bind_r m (\<lambda>_. Inr None) \<noteq> Inr (Some held)" for m :: "attr_error + unit" and held :: "byte list"
    by (cases m) simp_all
  have skip: "case SkipForeignExtension recover n fr of (r, fr') \<Rightarrow> rs_refuses (fr_setup fr') = rs_refuses (fr_setup fr) \<and> fr_setup fr' = fr_setup fr" for recover
    by (simp add: SkipForeignExtension_def)
  have "case WantsExtension V n type claim_only fr st of (r, fr', st') \<Rightarrow> calm c v fr' st' \<and> r \<noteq> Inr (Some []) \<and> fr_setup fr' = fr_setup fr"
    using assms(2) skip [of "rv_recover V"] unfolding WantsExtension_def Let_def RefuseRead_def calm_def
    by (auto simp: skipped split: prod.split option.split)
  then show ?thesis using assms(1) by simp
qed

lemma ImportAttrListEntry_returns:
  assumes parse: "calm_parse c v p" and calm: "calm c v fr st"
  shows "returns c v (ImportAttrListEntry V p n s type fr st)"
proof -
  define claim_only where "claim_only = (AttrMask type AND rs_mask (fr_setup fr) = 0 \<and> AttrMask type AND rs_claim_mask (fr_setup fr) \<noteq> 0)"
  obtain r fr1 st1 where wants: "WantsExtension V n type claim_only fr st = (r, fr1, st1)"
    by (cases "WantsExtension V n type claim_only fr st") auto
  have calm1: "calm c v fr1 st1" "r \<noteq> Inr (Some [])" "fr_setup fr1 = fr_setup fr" using WantsExtension_calm [OF wants calm] by blast+
  have "returns c v (ParseRecord V n held (new_file_record (extension_setup (fr_setup fr1) mask claim_only)) st1 \<bind>
      (\<lambda>(opened, ext, st). import_opened V p n s type claim_only fr1 opened ext st))" if held: "r = Inr (Some held)" for held mask
  proof -
    have "held \<noteq> []" using calm1(2) held by auto
    then obtain opened ext st2 where parsed:
      "ParseRecord V n held (new_file_record (extension_setup (fr_setup fr1) mask claim_only)) st1 = Some (opened, ext, st2)"
      using ParseRecord_held_returns [of held V n] by (metis not_Some_eq prod_cases3)
    have grown: "ps_chain st1 = ps_chain st2" "c \<noteq> ps_chain st2"
      using ParseRecord_chain [OF parsed] WantsExtension_chain [OF wants, of held] held calm by (auto simp: calm_def)
    have calm2: "calm c v ext st2" "calm c v fr1 st2"
      using ParseRecord_held [OF \<open>held \<noteq> []\<close> parsed] calm1(1) grown by (auto simp: calm_def new_file_record_def extension_setup_def)
    then have "returns c v (p ext st2)" using parse grown(2) by (simp add: calm_parse_def)
    then have "returns c v (p ext st2 \<bind> (\<lambda>(parsed, ext, st). Some (case import_parsed type claim_only fr1 parsed ext of (r, fr) \<Rightarrow> (r, fr, st))))"
      by (rule returns_bind) (use calm2(2) in \<open>auto simp: import_parsed_def calm_def NoteOverwrittenAttrList_def push_attrs_def split: sum.split\<close>)
    then show ?thesis
      using parsed calm2(2) by (auto simp: import_opened_def dest: SkipForeignExtension_calm split: sum.split prod.split)
  qed
  then show ?thesis
    using calm1 unfolding ImportAttrListEntry_def Let_def claim_only_def [symmetric] wants by (auto split: sum.split option.split)
qed

text \<open>The walk over a resident list: an entry is inside its bytes, and the next one is further.\<close>

lemma ReadEntryHeader_resident:
  assumes "length b < 2 ^ 32" "lw_bytes w = []"
  obtains r w' where "ReadEntryHeader V (ResidentBody b) off w st = Some (r, w', st)" "lw_bytes w' = []"
    "\<And>e. r = Entry e \<Longrightarrow> unat off + attribute_list_entry_header_size \<le> length b"
proof -
  obtain rd out where rd: "ResidentReadData b off (replicate attribute_list_entry_header_size 0) = (rd, out)"
    by (cases "ResidentReadData b off (replicate attribute_list_entry_header_size 0)")
  have "unat off + 26 \<le> length b" if "rd = Inr (Answers (Some 26))"
  proof -
    have "off < of_nat (length b)" using rd that by (auto simp: ResidentReadData_def Let_def attribute_list_entry_header_size_def split: if_splits sum.splits)
    then have less: "unat off < length b" using assms(1) by (simp add: word_less_nat_alt unat_of_nat take_bit_eq_mod)
    then have "unat (off + 26) = unat off + 26" using assms(1) by (simp add: unat_word_ariths)
    moreover have "\<not> off + 26 > of_nat (length b)"
    proof
      assume over: "off + 26 > of_nat (length b)"
      then have "of_nat (length b) - off = (26 :: u64)"
        using rd that \<open>off < of_nat (length b)\<close>
        by (auto simp: ResidentReadData_def Let_def attribute_list_entry_header_size_def split: if_splits sum.splits)
      then have "of_nat (length b) = off + 26" by (simp add: diff_eq_eq add.commute)
      then show False using over by simp
    qed
    ultimately show ?thesis using assms(1) by (simp add: word_less_nat_alt unat_of_nat take_bit_eq_mod)
  qed
  then show thesis
    using assms(2) rd
    by (intro that [of "fst (the (ReadEntryHeader V (ResidentBody b) off w st))" "fst (snd (the (ReadEntryHeader V (ResidentBody b) off w st)))"])
      (auto simp: ReadEntryHeader_def ReadListBytes_def read_body_def attribute_list_entry_header_size_def
        split: sum.splits read_end.splits option.splits if_splits)
qed

lemma list_loop_returns:
  assumes "length b < 2 ^ 32" "lw_bytes w = []" "calm c v fr st"
    and import: "\<And>n s t fr st. calm c v fr st \<Longrightarrow> returns c v (i n s t fr st)"
  shows "returns c v (list_loop V i ov (ResidentBody b) off w fr st)"
  using assms(2,3)
proof (induction "length b - unat off" arbitrary: off w fr st rule: less_induct)
  case less
  obtain r w1 where read: "ReadEntryHeader V (ResidentBody b) off w st = Some (r, w1, st)" "lw_bytes w1 = []"
    "\<And>e. r = Entry e \<Longrightarrow> unat off + attribute_list_entry_header_size \<le> length b"
    using ReadEntryHeader_resident [OF assms(1) less(2), of V off st] by metis
  have ends: "returns c v (case list_walk_end recover ov body f w fr of (r, fr) \<Rightarrow> Some (r, fr, st))" if "calm c v fr st" for recover body f w fr st
    using that by (auto simp: list_walk_end_def Let_def)
  note step = list_loop.simps [of V i ov "ResidentBody b" off w fr st, unfolded read(1) Option.bind.simps prod.case]
  show ?case
  proof (cases r)
    case (Entry e)
    have inside: "unat off + 26 \<le> length b" using read(3) [OF Entry] by (simp add: attribute_list_entry_header_size_def)
    have next_off: "unat (off + ucast (le_record_size e)) = unat off + unat (le_record_size e)"
    proof -
      have "unat (le_record_size e) < 65536" using unsigned_less [of "le_record_size e", where ?'a = nat] by simp
      then show ?thesis using inside assms(1) by (simp add: unat_word_ariths unsigned_ucast_eq take_bit_eq_mod)
    qed
    have again: "returns c v (list_loop V i ov (ResidentBody b) (off + ucast (le_record_size e)) w1 fr2 st2)"
      if "calm c v fr2 st2" "\<not> unat (le_record_size e) < attribute_list_entry_header_size" for fr2 st2
      using that next_off inside by (intro less(1) [OF _ read(2)]) (simp_all add: attribute_list_entry_header_size_def)
    have "returns c v (i (le_segment_number e) (le_sequence_number e) (le_type e) fr st)" using import less(3) by blast
    then show ?thesis
      using less(3) ends again unfolding step Entry
      by (auto intro!: returns_bind split: sum.split)
  qed (use step less(3) ends in auto)
qed

lemma AllocAttr_returns:
  assumes parse: "calm_parse c v p" and calm: "calm c v fr st"
  shows "returns c v (AllocAttr V p h cur fr st)"
proof -
  have list: "returns c v (AttrList V p h cur fr st)" if resident: "hc_non_resident h = 0"
  proof (cases "MakeAttr V fr h cur (\<lambda>_. Inr ListAttr)")
    case (Inr a)
    then obtain b where b: "at_body a = ResidentBody b" "length b < 2 ^ 32"
      using resident unsigned_less [of "u32_at cur 16", where ?'a = nat]
      by (auto simp: MakeAttr_def MakeBody_def ResidentBodyOf_def subspan_def bind_r_eq_Inr Let_def split: if_splits)
    have "lw_bytes (MakeListCache V (at_body a)) = []" by (simp add: b MakeListCache_def)
    then have "returns c v (list_loop V (ImportAttrListEntry V p) ov (at_body a) 0 (MakeListCache V (at_body a)) fr
        (st\<lparr>ps_chain := insert (MakeChainKey (self_ref_of fr) type_attr_list) (ps_chain st)\<rparr>))" for ov
      unfolding b(1) using calm by (intro list_loop_returns [OF b(2)] ImportAttrListEntry_returns [OF parse]) (auto simp: calm_def)
    then show ?thesis using Inr unfolding AttrList_def Let_def by (auto intro!: returns_bind)
  qed (use calm in \<open>simp add: AttrList_def\<close>)
  show ?thesis
    using calm list by (auto simp: AllocAttr_def MakeAttributeList_def RefuseRead_def Let_def calm_def)
qed

lemma VisitAttr_returns:
  assumes parse: "calm_parse c v p" and calm: "calm c v fr st"
  shows "returns c v (VisitAttr V p cur h fr st)"
proof -
  have "returns c v (ParseAttr V p h cur fr st)"
    using AllocAttr_returns [OF assms] calm unfolding ParseAttr_def
    by (auto intro!: returns_bind split: sum.split attr_error.split)
  moreover have "calm c v fr' st" if "ClaimLayout V h cur fr = (r, fr')" for r fr'
    using that calm by (auto simp: ClaimLayout_def split: sum.splits attr_error.splits)
  ultimately show ?thesis using calm by (auto simp: VisitAttr_def Let_def split: prod.split)
qed

lemma WalkAttrHeaders_returns:
  assumes "\<And>cur h fr st. calm c v fr st \<Longrightarrow> returns c v (visit cur h fr st)" "calm c v fr st"
  shows "returns c v (WalkAttrHeaders V visit cur data_ptr skipped fr st)"
  using assms
proof (induction V visit cur data_ptr skipped fr st rule: WalkAttrHeaders.induct)
  case (1 V visit cur data_ptr skipped fr st)
  note step = WalkAttrHeaders.simps [of V visit cur data_ptr skipped fr st]
  show ?case
  proof (cases "\<exists>h. ReadAttrHeader cur data_ptr (unat (rv_record_size V)) = Inr (WalkNext h)")
    case True
    then obtain h where read: "ReadAttrHeader cur data_ptr (unat (rv_record_size V)) = Inr (WalkNext h)" by blast
    obtain r fr1 st1 where visited: "visit cur h fr st = Some (r, fr1, st1)" "calm c v fr1 st1"
      using 1(2) [OF 1(3), of cur h] by (auto simp: returns_def)
    show ?thesis
    proof (cases "\<exists>b. r = Inr b \<and> \<not> (\<not> b \<and> \<not> rv_recover V)")
      case True
      then obtain b where b: "r = Inr b" "\<not> (\<not> b \<and> \<not> rv_recover V)" by blast
      have "returns c v (WalkAttrHeaders V visit (drop (unat (hc_total_size h)) cur) (data_ptr + unat (hc_total_size h)) (skipped \<or> \<not> b) fr1 st1)"
        by (rule 1(1) [OF read refl visited(1) [unfolded b(1)] refl refl refl b(2)]) (use 1(2) visited(2) in auto)
      then show ?thesis using step read visited b by auto
    next
      case False
      then show ?thesis using step read visited by (cases r) auto
    qed
  next
    case False
    then show ?thesis using step 1(3) by (cases "ReadAttrHeader cur data_ptr (unat (rv_record_size V))") (auto split: attr_walk.splits)
  qed
qed

lemma Parse_returns:
  assumes "calm_parse c v p" "calm c v fr st"
  shows "returns c v (Parse V p fr st)"
proof -
  have merged: "MergeAttributeContinuations fr = Inr fr' \<Longrightarrow> calm c v fr' st = calm c v fr st" for fr fr' st
    by (auto simp: MergeAttributeContinuations_def bind_r_eq_Inr)
  have "returns c v (Some (case parse_end V walked fr of (r, fr) \<Rightarrow> (r, fr, st)))" if "calm c v fr st" for walked fr st
    using that merged [of fr] by (auto simp: parse_end_def split: sum.split)
  then show ?thesis
    using assms(2) unfolding Parse_def Let_def
    by (auto split: sum.split option.split intro!: returns_bind WalkAttrHeaders_returns VisitAttr_returns [OF assms(1)])
qed

lemma ParseAttrsWithin_returns:
  "rs_refuses (fr_setup fr) \<Longrightarrow> card (UNIV - ps_chain st) < n \<Longrightarrow> returns (ps_chain st) (ps_volume st) (ParseAttrsWithin n V fr st)"
proof (induction n arbitrary: fr st)
  case (Suc n)
  have "calm_parse (ps_chain st) (ps_volume st) (ParseAttrsWithin n V)"
    unfolding calm_parse_def
  proof (intro allI impI)
    fix fr' and st' :: "'a parse_state"
    assume calm: "calm (ps_chain st) (ps_volume st) fr' st' \<and> ps_chain st \<noteq> ps_chain st'"
    then have less: "ps_chain st \<subset> ps_chain st'" by (auto simp: calm_def)
    then have "UNIV - ps_chain st' \<subset> UNIV - ps_chain st" by blast
    then have "card (UNIV - ps_chain st') < card (UNIV - ps_chain st)" by (rule psubset_card_mono [OF finite])
    then have "returns (ps_chain st') (ps_volume st') (ParseAttrsWithin n V fr' st')"
      using Suc.prems calm by (intro Suc.IH) (simp_all add: calm_def)
    then show "returns (ps_chain st) (ps_volume st) (ParseAttrsWithin n V fr' st')"
      using less calm by (auto simp: returns_def calm_def)
  qed
  then show ?case using Suc.prems by (auto intro!: Parse_returns simp: calm_def)
qed simp

lemma fresh_chain_card: "card (UNIV - ps_chain (st\<lparr>ps_chain := {}\<rparr>)) < 2 ^ 64 + 1"
proof -
  have "card (UNIV - ps_chain (st\<lparr>ps_chain := {}\<rparr>)) = 2 ^ 64" by (simp add: card_word)
  then show ?thesis by (simp only:)
qed

text \<open>
  C8. Extension records that list one another cannot nest parses without end: whatever the volume
  holds, a parse allowed one nesting more than there are keys of resolved entries answers what any
  deeper nesting answers, so the bound of the model never cuts a parse of the code short.
\<close>

theorem nesting_bounded: "ParseAttrs (2 ^ 64 + 1 + deeper) V fr st = ParseAttrs (2 ^ 64 + 1) V fr st"
proof -
  have "card (UNIV - ps_chain (st\<lparr>ps_chain := {}\<rparr>)) < 2 ^ 64 + 1 + deeper" using fresh_chain_card [of st] by (rule trans_less_add1)
  from ParseAttrsWithin_enough [OF this fresh_chain_card] show ?thesis unfolding ParseAttrs_def same_past_def by (rule conjunct1)
qed

text \<open>
  C10. The parse of a record that refuses volume reads returns, whatever the record and the extension
  records handed to it hold, cyclic lists included; and it leaves the volume untouched: nothing was
  read from it.
\<close>

theorem refusing_parse_returns:
  assumes "rs_refuses (fr_setup fr)"
  shows "\<exists>parsed fr' st'. ParseAttrs (2 ^ 64 + 1) V fr st = Some (parsed, fr', st') \<and> ps_volume st' = ps_volume st"
  using ParseAttrsWithin_returns [OF assms fresh_chain_card, of st V] unfolding ParseAttrs_def returns_def calm_def by auto

lemma refusing_parse_returns_witness:
  "\<exists>parsed fr' st'. ParseAttrs (2 ^ 64 + 1) small_volume (small_open\<lparr>fr_setup := plain_setup\<lparr>rs_refuses := True\<rparr>\<rparr>) unit_state =
     Some (parsed, fr', st') \<and> ps_volume st' = ()"
  using refusing_parse_returns [of "small_open\<lparr>fr_setup := plain_setup\<lparr>rs_refuses := True\<rparr>\<rparr>" small_volume unit_state]
  by (simp add: unit_state_def del: power_numeral)

end
