(* ===== verification/Spec2Isabelle.thy ===== *)
theory Spec2Isabelle
  imports Lznt1Format ClusterRuns DirectoryIndex UsnScanner VolumeGeometry StreamMerge ExtentMap RecordNesting
begin

text \<open>
  Verification library of ntfs-browser, a C++ library that reads NTFS volumes: it parses the boot
  sector, the records of the $MFT, their attributes, directory indexes, the cluster bitmap, the list
  of bad clusters and the change journal, from bytes that nothing guarantees to be well formed.
  Paths below are under src/src/ unless they start with include/ (src/include/ntfs-browser/).

  The parts of the program, from the disk up, and the theories that model them.

  Volume. VolumeGeometry is volume/volume-geometry.cpp: the boot sector to a geometry whose sums and
  products cannot overflow later. BlockCache is cache/block-cache.cpp with cache/view.cpp, and
  FileReader is io/file-reader.cpp: reads of any byte range, through the cache or not. The disk reader
  behind them is the parameter \<open>disk\<close>. Contract: the locale \<open>volume_reader\<close> (FileReader) says that a
  read answers the bytes of the medium or fails where the medium cannot be read; it is interpreted on
  ReadVolume() through the cache.

  Records. UpdateSequence is record/header.cpp with the verdict of io/file-record-read.cpp and the
  fix-up of an index block: sector protection, strict or salvaging. FileReference is
  mft/file-reference.h. Attributes is attr/base.cpp, attr/resident.cpp and one class per attribute
  type. RecordAttrs is the parse of a record: io/file-record-read.cpp (the bytes of a record, the
  mirror as the last resort), io/file-record-attrs.cpp (the walk over the attributes, the merge of the
  parts of a stream), attr/list.cpp and io/file-record-attr-list.cpp (attribute lists and the extension
  records they name). RecordAttrsSpec shows that no byte outside a record is ever read, RecordNesting
  that extension records cannot nest parses for ever and that a parse that refuses volume reads
  returns without one.

  Streams. RunList is attr/run-list.cpp, and RunListSpec says what its queries answer over the map from
  virtual clusters to clusters or holes. NonResident is attr/non-resident.cpp: reads of plain, sparse and
  compressed streams. NonResidentSpec states the abstract specification, the medium of a stream
  (\<open>runs_medium\<close>, \<open>stream_medium\<close>), and proves each read against it under the contract of the volume;
  StreamReads instantiates it at the real reader; StreamMerge shows that the merge of the parts of a
  stream gives an attribute of which each VCN is what it was in its part. ExtentMap is
  mft/extent-map.cpp, the extents of $MFT: what it accepts keeps them sorted and disjoint, and a read
  through it is a read of one medium (\<open>mft_medium\<close>) across them. Lznt1 is lznt1/decompress.cpp, and
  Lznt1Format the format it decodes, with an encoding and the round trip.

  Names and directories. Utf is utf/utf.cpp; UpCase and UpCaseRuns are upcase/upcase.cpp, with the
  locale \<open>collation\<close> interpreted on Compare(); IndexEntries is index-entry.cpp, filename.cpp,
  attr/index-root.cpp and attr/index-alloc.cpp; DirectoryIndex is io/file-record-index.cpp: search,
  ordered walk, the report of unreachable blocks, and the names carved from the slack of blocks.
  SlackCarver and SlackSearch are record/slack-carver.cpp.

  Allocation. BadClusters is alloc/bad-cluster-list.cpp, with the locale \<open>bad_source\<close> interpreted on its
  own searches; ClusterBitmap and ClusterRuns are alloc/cluster-bitmap.cpp: the window cache, and the
  queries about ranges of clusters.

  Journal. UsnScanner is usn/usn-record-scanner.cpp: the records of the change journal from a stream
  handed over in pieces, found again after damage.

  How the model corresponds to the code. A class is a record of its members, a method a definition of
  the same name that takes the record first and returns it updated when the method changes it; a struct
  is a record, an enum a datatype. WORD, DWORD and ULONGLONG are words of 16, 32 and 64 bits and wrap;
  size_t values that index memory are natural numbers, and their subtraction is \<open>size_sub\<close> of
  NtfsPrelude where only a guard keeps it from wrapping at 2^64. A throw is the left side of a sum, one
  constructor per message, and a read outside a span (\<open>subspan\<close>, \<open>load_at\<close>, \<open>memcpy_u16\<close> and the like are
  checked), a signed overflow or a failed assert is an error value of its own (\<open>UsOutOfBounds\<close>,
  \<open>AttrUndefined\<close>, ...), so that the safety properties say it is never reached, and each guard of the
  code is what keeps it so. A loop that need not end is a \<open>partial_function\<close> whose None is "does not return": where
  a property says that such a code returns, it says Some. The nesting of extension parses is bounded by
  the argument of \<open>ParseAttrsWithin\<close>; \<open>nesting_bounded\<close> shows that a bound of 2^64 + 1 (the number of
  keys of resolved entries, and one) never cuts a parse short. Other recursions are structural or have
  a measure. The strict and the recovering mode are the argument \<open>recover\<close>, or a field of the volume.

  What the lemma groups show: for each component an invariant its operations preserve (\<open>bitmap_ok\<close>,
  \<open>header_ok\<close>, \<open>cache_ok\<close>, \<open>built\<close>, \<open>record_ok\<close>, ...), the functional behaviour of each query against a
  specification over sets, maps or byte media, round trips of decoders with specification-only encoders
  that use none of the decoder's functions (LZNT1 with the table of the widths of its words, update
  sequences, index blocks, journal records with their references, times and names field by field,
  names), and the absence of undefined
  behaviour on arbitrary input. Two properties record defects: \<open>extents_between_may_not_return\<close> (the
  walk over the runs of an attribute does not end when the VCNs wrap) and \<open>merge_may_hide_stream\<close> (a
  read of a stream merged with a part that maps nothing does not return).

  Parameters of the model: the disk reader, the answers of the volume's range queries in NonResident,
  the decryption of an EFS stream, the caller's sources of held records, base references and index
  blocks, the callbacks, and what the parse of the record of a directory entry answers.

  Not modelled: logging and benchmark recording (no effect on results; the flag that says something was
  salvaged counts log lines and is left out with them), failed allocations and memory pools, threads
  and read-ahead (they group reads, and do not change what is read), the platform's disk readers, EFS
  key handling and ciphers (external libraries), the order in which the records that fill the extent map
  are opened (mft/mft-bootstrap.cpp), the parallel scan of the $MFT, and the volume object
  that wires the parts together. PROJECT.json lists each of them.
\<close>

end
